(* ===== verification/TsPrelude.thy ===== *)
theory TsPrelude
  imports Main "HOL-Library.Word" "HOL-Library.Monad_Syntax"
begin

text \<open>
  Shared vocabulary of the development: the C integer types as words, byte buffers as
  lists, checked memory access, the C operators that differ from HOL's, and the generic
  lemmas on lists, options and words that the component theories use.

  Undefined behaviour is a value. A C expression that may read or write outside its object
  is modelled in the option monad; \<open>None\<close> is \<^emph>\<open>the program has no defined behaviour\<close>,
  \<open>Some v\<close> is \<^emph>\<open>the program computes v\<close>. A header accessor that reads at a fixed small
  offset is written with \<open>!\<close>, which HOL leaves unspecified out of range, exactly where C
  leaves it undefined; its callers establish the range with \<open>need\<close>.
\<close>

unbundle bit_operations_syntax

subsection \<open>Types\<close>

type_synonym u8 = "8 word"
type_synonym u16 = "16 word"
type_synonym u32 = "32 word"
type_synonym u64 = "64 word"
type_synonym bytes = "8 word list"

text \<open>What an operation of the C library yields: \<open>None\<close> is undefined behaviour.\<close>

type_synonym 'a mem = "'a option"

text \<open>
  The allocator (\<open>malloc\<close>, \<open>calloc\<close>, \<open>realloc\<close>): whether a request of that many bytes
  succeeds. Code that checks for \<open>NULL\<close> takes it as a parameter.
\<close>

type_synonym allocator = "nat \<Rightarrow> bool"

named_theorems pkt_defs "definitions of the header accessors"
named_theorems mem_simps "evaluation of checked memory access"

subsection \<open>Checked reads and writes\<close>

definition need :: "nat \<Rightarrow> 'a list \<Rightarrow> unit mem" where
  "need n buf = (if n \<le> length buf then Some () else None)"

definition rd :: "'a list \<Rightarrow> nat \<Rightarrow> 'a mem" where
  "rd buf i = (if i < length buf then Some (buf ! i) else None)"

text \<open>\<open>memcpy(dst + i, src, length src)\<close>.\<close>

definition blit :: "'a list \<Rightarrow> nat \<Rightarrow> 'a list \<Rightarrow> 'a list" where
  "blit dst i src = take i dst @ src @ drop (i + length src) dst"

definition wr :: "'a list \<Rightarrow> nat \<Rightarrow> 'a list \<Rightarrow> 'a list mem" where
  "wr dst i src = (if i + length src \<le> length dst then Some (blit dst i src) else None)"

text \<open>\<open>memcpy(.., src + i, n)\<close>: the bytes it reads.\<close>

definition rdn :: "'a list \<Rightarrow> nat \<Rightarrow> nat \<Rightarrow> 'a list mem" where
  "rdn src i n = (if i + n \<le> length src then Some (take n (drop i src)) else None)"

text \<open>A loop over the elements of a list, in order: the packets of a buffer, for instance.\<close>

fun mem_fold :: "('a \<Rightarrow> 's \<Rightarrow> 's mem) \<Rightarrow> 'a list \<Rightarrow> 's \<Rightarrow> 's mem" where
  "mem_fold body [] s = Some s"
| "mem_fold body (x # xs) s = do { s \<leftarrow> body x s; mem_fold body xs s }"

lemma need_Some [mem_simps, simp]: "need n buf = Some u \<longleftrightarrow> n \<le> length buf"
  by (auto simp: need_def)

lemma need_None [mem_simps, simp]: "need n buf = None \<longleftrightarrow> length buf < n"
  by (auto simp: need_def)

lemma need_ok [mem_simps]: "n \<le> length buf \<Longrightarrow> need n buf = Some ()"
  by (simp add: need_def)

lemma need_bind [mem_simps, simp]:
  "n \<le> length buf \<Longrightarrow> need n buf \<bind> f = f ()"
  by (simp add: need_def)

lemma rd_ok [mem_simps, simp]: "i < length buf \<Longrightarrow> rd buf i = Some (buf ! i)"
  by (simp add: rd_def)

lemma rd_Some [mem_simps]: "rd buf i = Some b \<longleftrightarrow> i < length buf \<and> buf ! i = b"
  by (auto simp: rd_def)

lemma rd_None [mem_simps]: "rd buf i = None \<longleftrightarrow> length buf \<le> i"
  by (auto simp: rd_def)

lemma rdn_ok [mem_simps, simp]: "i + n \<le> length src \<Longrightarrow> rdn src i n = Some (take n (drop i src))"
  by (simp add: rdn_def)

lemma wr_ok [mem_simps, simp]: "i + length src \<le> length dst \<Longrightarrow> wr dst i src = Some (blit dst i src)"
  by (simp add: wr_def)

lemma length_blit [simp]: "i + length src \<le> length dst \<Longrightarrow> length (blit dst i src) = length dst"
  by (simp add: blit_def)

lemma nth_blit:
  assumes "i + length src \<le> length dst" and "j < length dst"
  shows "blit dst i src ! j =
    (if i \<le> j \<and> j < i + length src then src ! (j - i) else dst ! j)"
  using assms by (auto simp: blit_def nth_append min_def)

lemma blit_Nil [simp]: "blit dst i [] = dst"
  by (simp add: blit_def)

lemma take_blit [simp]: "i \<le> length dst \<Longrightarrow> take i (blit dst i src) = take i dst"
  by (simp add: blit_def)

lemma take_drop_blit [simp]:
  "i \<le> length dst \<Longrightarrow> take (length src) (drop i (blit dst i src)) = src"
  by (simp add: blit_def)

subsection \<open>C arithmetic\<close>

text \<open>Division and remainder of C's signed integers truncate towards zero.\<close>

definition c_div :: "int \<Rightarrow> int \<Rightarrow> int" where
  "c_div a b = sgn a * sgn b * (\<bar>a\<bar> div \<bar>b\<bar>)"

definition c_mod :: "int \<Rightarrow> int \<Rightarrow> int" where
  "c_mod a b = a - b * c_div a b"

lemma c_div_pos [simp]: "0 \<le> a \<Longrightarrow> 0 < b \<Longrightarrow> c_div a b = a div b"
  by (cases "a = 0") (auto simp: c_div_def sgn_if)

lemma c_mod_pos [simp]: "0 \<le> a \<Longrightarrow> 0 < b \<Longrightarrow> c_mod a b = a mod b"
  by (simp add: c_mod_def minus_mult_div_eq_mod)

text \<open>Conversion to a 32-bit \<open>int\<close> of a value that may not fit it.\<close>

definition to_int32 :: "int \<Rightarrow> int" where
  "to_int32 x = sint (word_of_int x :: 32 word)"

lemma to_int32_id [simp]: "- (2 ^ 31) \<le> x \<Longrightarrow> x < 2 ^ 31 \<Longrightarrow> to_int32 x = x"
  by (simp add: to_int32_def signed_of_int signed_take_bit_int_eq_self)

text \<open>
  The value of an \<open>int64_t\<close> expression: a result outside the range of the type has no defined
  behaviour.
\<close>

definition int64_range :: "int \<Rightarrow> bool" where
  "int64_range x \<longleftrightarrow> - (2 ^ 63) \<le> x \<and> x < 2 ^ 63"

definition i64 :: "int \<Rightarrow> int mem" where
  "i64 x = (if int64_range x then Some x else None)"

lemma i64_ok [simp]: "int64_range x \<Longrightarrow> i64 x = Some x"
  by (simp add: i64_def)

lemma i64_Some: "i64 x = Some y \<longleftrightarrow> int64_range x \<and> y = x"
  by (auto simp: i64_def)

lemma int64_rangeI: "- (2 ^ 63) \<le> x \<Longrightarrow> x < 2 ^ 63 \<Longrightarrow> int64_range x"
  by (simp add: int64_range_def)

lemma int64_range_between: "int64_range a \<Longrightarrow> int64_range b \<Longrightarrow> a \<le> x \<Longrightarrow> x \<le> b \<Longrightarrow> int64_range x"
  by (simp add: int64_range_def)

subsection \<open>Words\<close>

lemma unat_and_mask_lt: "unat (x AND mask n :: 'a::len word) < 2 ^ n"
proof -
  have "unat (take_bit n x) = take_bit n (unat x)"
    by (simp add: unsigned_take_bit_eq)
  then show ?thesis
    by (simp add: take_bit_eq_mask [symmetric])
qed

lemma take_bit_word_id: "unat w < 2 ^ n \<Longrightarrow> take_bit n w = (w :: 'a::len word)"
  by (rule word_unat_eq_iff [THEN iffD2]) (simp add: unsigned_take_bit_eq take_bit_nat_eq_self)

lemma sint_small: "unat (w :: 32 word) < 2 ^ 31 \<Longrightarrow> sint w = int (unat w)"
proof -
  assume "unat w < 2 ^ 31"
  then have "uint w < 2 ^ 31"
    by (metis of_nat_less_iff of_nat_numeral of_nat_power uint_nat)
  moreover have "- (2 ^ 31) \<le> uint w"
    by (rule order_trans [OF _ uint_ge_0]) simp
  ultimately have "signed_take_bit 31 (uint w) = uint w"
    by (intro signed_take_bit_int_eq_self)
  then show ?thesis
    by (simp add: sint_uint)
qed

subsection \<open>Lists at numeral positions\<close>

lemma take_append_drop_assoc: "take n xs @ drop n xs @ ys = xs @ ys"
  by (simp flip: append_assoc)

lemma list_update_Cons_numeral [simp]:
  "(x # xs)[numeral k := v] = x # xs[pred_numeral k := v]"
  by (simp add: numeral_eq_Suc)

lemma list_update_Cons_1 [simp]: "(x # xs)[1 := v] = x # xs[0 := v]"
  by simp

lemma blit_append [simp]:
  "length xs = i \<Longrightarrow> length ys = length src \<Longrightarrow> blit (xs @ ys @ zs) i src = xs @ src @ zs"
  by (simp add: blit_def)

lemma blit_0_append: "length ys = length src \<Longrightarrow> blit (ys @ zs) 0 src = src @ zs"
  by (simp add: blit_def)

lemma blit_0: "blit dst 0 src = src @ drop (length src) dst"
  by (simp add: blit_def)

lemma drop_blit: "i \<le> length dst \<Longrightarrow> drop i (blit dst i src) = src @ drop (i + length src) dst"
  by (simp add: blit_def)

lemma need_1_bind [simp]: "buf \<noteq> [] \<Longrightarrow> need (Suc 0) buf \<bind> f = f ()"
  by (cases buf) (simp_all add: need_def)

text \<open>A buffer filled by \<open>memset\<close>, with its first \<open>k\<close> bytes laid open.\<close>

lemma replicate_split: "k \<le> n \<Longrightarrow> replicate n x = replicate k x @ replicate (n - k) x"
  by (metis le_add_diff_inverse replicate_add)

lemma replicate_numeral_Cons: "replicate (numeral k) x = x # replicate (pred_numeral k) x"
  by (simp add: numeral_eq_Suc)

subsection \<open>What an operation establishes\<close>

text \<open>
  The operation \<open>m\<close> has defined behaviour and its result satisfies \<open>Q\<close>. The rules take an
  operation apart from its first step on; the components add one rule for each operation
  their clients call.
\<close>

definition mem_ok :: "'a mem \<Rightarrow> ('a \<Rightarrow> bool) \<Rightarrow> bool" where
  "mem_ok m Q \<longleftrightarrow> (\<exists>r. m = Some r \<and> Q r)"

lemma mem_ok_Some [simp]: "mem_ok (Some r) Q \<longleftrightarrow> Q r"
  by (simp add: mem_ok_def)

lemma mem_ok_None [simp]: "\<not> mem_ok None Q"
  by (simp add: mem_ok_def)

lemma mem_ok_bind [simp]: "mem_ok (m \<bind> f) Q \<longleftrightarrow> mem_ok m (\<lambda>r. mem_ok (f r) Q)"
  by (cases m) (auto simp: mem_ok_def)

lemma mem_ok_mono: "mem_ok m P \<Longrightarrow> (\<And>r. P r \<Longrightarrow> Q r) \<Longrightarrow> mem_ok m Q"
  by (auto simp: mem_ok_def)

lemma mem_okI: "m = Some r \<Longrightarrow> Q r \<Longrightarrow> mem_ok m Q"
  by (simp add: mem_ok_def)

lemma mem_okE: "mem_ok m Q \<Longrightarrow> (\<And>r. m = Some r \<Longrightarrow> Q r \<Longrightarrow> thesis) \<Longrightarrow> thesis"
  by (auto simp: mem_ok_def)

subsection \<open>Fixed-width fields\<close>

text \<open>
  The interface of a fixed-width field of a packet: its encoder, its decoder, its width and
  the values it can hold. A component that writes such a field into a buffer relies on these
  laws only.
\<close>

locale field_codec =
  fixes enc :: "'v \<Rightarrow> bytes"
    and dec :: "bytes \<Rightarrow> 'v"
    and width :: nat
    and fits :: "'v \<Rightarrow> bool"
  assumes length_enc: "length (enc v) = width"
    and dec_enc: "fits v \<Longrightarrow> dec (enc v @ rest) = v"
begin

lemma write_ok: "at + width \<le> length buf \<Longrightarrow> wr buf at (enc v) = Some (blit buf at (enc v))"
  by (simp add: length_enc)

lemma read_after_write:
  assumes "at + width \<le> length buf" and "fits v"
  shows "dec (drop at (blit buf at (enc v))) = v"
  using assms by (simp add: drop_blit dec_enc)

lemma write_frame:
  assumes "at + width \<le> length buf"
  shows "take at (blit buf at (enc v)) = take at buf"
    and "drop (at + width) (blit buf at (enc v)) = drop (at + width) buf"
    and "length (blit buf at (enc v)) = length buf"
  using assms by (simp_all add: blit_def length_enc)

end

text \<open>Bits beyond the width are clear.\<close>

lemma bit_beyond [simp]:
  "8 \<le> n \<Longrightarrow> \<not> bit (b8 :: u8) n"
  "16 \<le> n \<Longrightarrow> \<not> bit (b16 :: u16) n"
  "32 \<le> n \<Longrightarrow> \<not> bit (b32 :: u32) n"
  "64 \<le> n \<Longrightarrow> \<not> bit (b64 :: u64) n"
  using bit_imp_le_length [of b8 n] bit_imp_le_length [of b16 n]
    bit_imp_le_length [of b32 n] bit_imp_le_length [of b64 n] by auto

lemma xor_cancel: "a XOR c = b XOR c \<longleftrightarrow> a = (b :: 'a::len word)"
  by (metis xor.assoc xor.right_neutral xor_self_eq)

text \<open>Rounding a division up.\<close>

lemma less_ceil_iff: "0 < k \<Longrightarrow> c < (b + (k - 1)) div k \<longleftrightarrow> k * c < (b :: nat)"
proof -
  assume k: "0 < k"
  then have "c < (b + (k - 1)) div k \<longleftrightarrow> Suc c * k \<le> b + (k - 1)"
    by (simp only: Suc_le_eq [symmetric] less_eq_div_iff_mult_less_eq)
  also have "\<dots> \<longleftrightarrow> k * c < b" using k by (auto simp: mult.commute)
  finally show ?thesis .
qed

end
