(* ===== verification/Ts.thy ===== *)
theory Ts
  imports TsPrelude
begin

text \<open>
  Transport packets: \<open>src/src/libltntstools/ts.h\<close> and \<open>src/src/ts.c\<close>.

  A packet is a byte list of length 188. The theory models the header accessors, the PCR
  field (encoder and decoder), the clock arithmetic, the search functions over buffers,
  the generators of null, PCR-only and counter packets with their verifier, the PCR
  enumeration over a buffer, and the timestamp formatter. \<open>NULL\<close> pointers that the code
  tests are \<open>None\<close>; a return code is an \<open>int\<close>.
\<close>

unbundle bit_operations_syntax

subsection \<open>Header accessors\<close>

definition is_packet :: "bytes \<Rightarrow> bool" where
  "is_packet pkt \<longleftrightarrow> length pkt = 188"

definition ltntstools_sync_present :: "bytes \<Rightarrow> bool" where [pkt_defs]:
  "ltntstools_sync_present pkt \<longleftrightarrow> pkt ! 0 = 0x47"

definition ltntstools_tei_set :: "bytes \<Rightarrow> bool" where [pkt_defs]:
  "ltntstools_tei_set pkt \<longleftrightarrow> pkt ! 1 AND 0x80 \<noteq> 0"

definition ltntstools_payload_unit_start_indicator :: "bytes \<Rightarrow> bool" where [pkt_defs]:
  "ltntstools_payload_unit_start_indicator pkt \<longleftrightarrow> pkt ! 1 AND 0x40 \<noteq> 0"

definition ltntstools_transport_priority :: "bytes \<Rightarrow> bool" where [pkt_defs]:
  "ltntstools_transport_priority pkt \<longleftrightarrow> pkt ! 1 AND 0x20 \<noteq> 0"

definition ltntstools_pid :: "bytes \<Rightarrow> u16" where [pkt_defs]:
  "ltntstools_pid pkt = (push_bit 8 (ucast (pkt ! 1)) OR ucast (pkt ! 2)) AND 0x1fff"

definition ltntstools_transport_scrambling_control :: "bytes \<Rightarrow> u8" where [pkt_defs]:
  "ltntstools_transport_scrambling_control pkt = drop_bit 6 (pkt ! 3)"

definition ltntstools_adaption_field_control :: "bytes \<Rightarrow> u8" where [pkt_defs]:
  "ltntstools_adaption_field_control pkt = drop_bit 4 (pkt ! 3) AND 0x03"

definition ltntstools_has_adaption :: "bytes \<Rightarrow> bool" where [pkt_defs]:
  "ltntstools_has_adaption pkt \<longleftrightarrow>
     (let v = drop_bit 4 (pkt ! 3) AND 0x03 in v = 2 \<or> v = 3)"

definition ltntstools_adaption_field_length :: "bytes \<Rightarrow> u8" where [pkt_defs]:
  "ltntstools_adaption_field_length pkt = pkt ! 4"

definition ltntstools_continuity_counter :: "bytes \<Rightarrow> u8" where [pkt_defs]:
  "ltntstools_continuity_counter pkt = pkt ! 3 AND 0x0f"

subsection \<open>Clock arithmetic\<close>

text \<open>
  The clocks are \<open>int64_t\<close>. Signed overflow has no defined behaviour in C, so the values
  are \<open>int\<close> and the bounds lemmas below show that the results stay in range.
\<close>

definition MAX_SCR_VALUE :: int where
  "MAX_SCR_VALUE = 2576980377600"

definition MAX_PTS_VALUE :: int where
  "MAX_PTS_VALUE = 8589934591"

definition ltntstools_scr_diff :: "int \<Rightarrow> int \<Rightarrow> int" where
  "ltntstools_scr_diff from to =
     (if from > to \<and> to < 5 * 27000000 then MAX_SCR_VALUE - from + to else to - from)"

definition ltntstools_scr_add :: "int \<Rightarrow> int \<Rightarrow> int" where
  "ltntstools_scr_add scr ticks =
     (let clock = scr + ticks in
      if clock > MAX_SCR_VALUE then clock - MAX_SCR_VALUE
      else if clock < 0 then clock + MAX_SCR_VALUE
      else clock)"

definition ltntstools_pts_diff :: "int \<Rightarrow> int \<Rightarrow> int" where
  "ltntstools_pts_diff from to =
     (if from > to then MAX_PTS_VALUE - from + to else to - from)"

subsection \<open>The PCR field\<close>

text \<open>\<open>ptr\<close> points at the six bytes; the length argument is not used by the code.\<close>

definition ltntstools_pcrToScr :: "bytes \<Rightarrow> u64" where
  "ltntstools_pcrToScr ptr =
     (let b0 = push_bit 25 (ucast (ptr ! 0) :: u64);
          b1 = b0 OR push_bit 17 (ucast (ptr ! 1));
          b2 = b1 OR push_bit 9 (ucast (ptr ! 2));
          b3 = b2 OR push_bit 1 (ucast (ptr ! 3));
          b4 = b3 OR drop_bit 7 (ucast (ptr ! 4));
          pcr_base = b4 AND 0x1ffffffff;
          e0 = push_bit 8 (ucast (ptr ! 4) :: u64);
          e1 = e0 OR ucast (ptr ! 5);
          pcr_ext = e1 AND 0x1ff
      in pcr_base * 300 + pcr_ext)"

text \<open>
  \<open>Some (Some scr)\<close> is the return code 0 with \<open>*scr\<close> written; \<open>Some None\<close> is -1;
  \<open>None\<close> is a read past the end of the packet. The guards short-circuit in C's order.
\<close>

definition ltntstools_scr :: "bytes \<Rightarrow> u64 option mem" where
  "ltntstools_scr pkt =
     do { need 1 pkt;
          if \<not> ltntstools_sync_present pkt then Some None else
     do { need 4 pkt;
          if ltntstools_adaption_field_control pkt < 2 then Some None else
     do { adaption_field_length \<leftarrow> rd pkt 4;
          if adaption_field_length = 0 then Some None else
     do { flags \<leftarrow> rd pkt 5;
          if flags AND 0x10 = 0 then Some None else
     do { need 12 pkt;
          Some (Some (ltntstools_pcrToScr (drop 6 pkt))) }}}}}"

text \<open>\<open>dst\<close> is the buffer and \<open>at\<close> the offset of the pointer into it.\<close>

definition ltntstools_pcr_packTo :: "bytes \<Rightarrow> nat \<Rightarrow> u64 \<Rightarrow> bytes mem" where
  "ltntstools_pcr_packTo dst at pcr =
     (let base = pcr div 300;
          ext = pcr mod 300;
          d4 = ucast (push_bit 7 base) :: u8;
          d4 = d4 OR 0x7e;
          d4 = d4 OR ucast (drop_bit 8 (ext AND 0x100))
      in wr dst at
           [ucast (drop_bit 25 base), ucast (drop_bit 17 base), ucast (drop_bit 9 base),
            ucast (drop_bit 1 base), d4, ucast ext])"

subsection \<open>Searching a buffer\<close>

text \<open>\<open>memcmp(buf + i, pattern, 3) == 0\<close> for the pattern 00 00 01.\<close>

definition pes_start_code_at :: "bytes \<Rightarrow> nat \<Rightarrow> bool" where
  "pes_start_code_at buf i \<longleftrightarrow> take 3 (drop i buf) = [0x00, 0x00, 0x01]"

fun contains_pes_header_reverse_loop :: "bytes \<Rightarrow> nat \<Rightarrow> int" where
  "contains_pes_header_reverse_loop buf 0 = -1"
| "contains_pes_header_reverse_loop buf (Suc i) =
     (if pes_start_code_at buf i then int i else contains_pes_header_reverse_loop buf i)"

text \<open>The loop runs \<open>i\<close> from \<open>lengthBytes - 3\<close> down to 0; the argument is \<open>i + 1\<close>.\<close>

definition ltntstools_contains_pes_header_reverse :: "bytes \<Rightarrow> int \<Rightarrow> int" where
  "ltntstools_contains_pes_header_reverse buf lengthBytes =
     contains_pes_header_reverse_loop buf (nat (lengthBytes - 2))"

function contains_pes_header_loop :: "bytes \<Rightarrow> int \<Rightarrow> nat \<Rightarrow> int" where
  "contains_pes_header_loop buf lengthBytes i =
     (if int i < lengthBytes - 3
      then if pes_start_code_at buf i then int i
           else contains_pes_header_loop buf lengthBytes (Suc i)
      else -1)"
  by pat_completeness auto
termination
  by (relation "measure (\<lambda>(buf, lengthBytes, i). nat (lengthBytes - 3 - int i))") auto

definition ltntstools_contains_pes_header :: "bytes \<Rightarrow> int \<Rightarrow> int" where
  "ltntstools_contains_pes_header buf lengthBytes = contains_pes_header_loop buf lengthBytes 0"

definition ltntstools_get_section_tableid :: "bytes \<Rightarrow> u8 mem" where
  "ltntstools_get_section_tableid pkt =
     (let section_offset = 5;
          section_offset =
            (if ltntstools_has_adaption pkt
             then section_offset + 1 + unat (ltntstools_adaption_field_length pkt)
             else section_offset)
      in rd pkt section_offset)"

fun findSync_loop :: "bytes \<Rightarrow> nat \<Rightarrow> nat \<Rightarrow> int" where
  "findSync_loop buf i 0 = -1"
| "findSync_loop buf i (Suc n) =
     (if buf ! i = 0x47 \<and> buf ! (i + 1 * 188) = 0x47 \<and> buf ! (i + 2 * 188) = 0x47
      then int i else findSync_loop buf (Suc i) n)"

definition ltntstools_findSyncPosition :: "bytes \<Rightarrow> int \<Rightarrow> int" where
  "ltntstools_findSyncPosition buf lengthBytes =
     (if lengthBytes < 3 * 188 then -1 else findSync_loop buf 0 188)"

subsection \<open>Payload types\<close>

definition ltntstools_is_ESPayloadType_Video :: "u8 \<Rightarrow> bool" where
  "ltntstools_is_ESPayloadType_Video esPayloadType \<longleftrightarrow>
     esPayloadType \<in> {0x01, 0x02, 0x1b, 0x21, 0x24, 0x25, 0x27, 0x28, 0x29, 0x2a, 0x33, 0xd2, 0xdb}"

definition ltntstools_is_ESPayloadType_Audio :: "u8 \<Rightarrow> bool" where
  "ltntstools_is_ESPayloadType_Audio esPayloadType \<longleftrightarrow>
     esPayloadType \<in> {0x03, 0x04, 0x07, 0x0f, 0x81, 0xc1, 0xc2, 0xcf}"

text \<open>The switch of the description function: one row per \<open>case\<close> label, in the code's order.\<close>

definition esPayloadType_cases :: "(u8 \<times> string) list" where
  "esPayloadType_cases =
     [(0x00, ''Reserved''),
      (0x01, ''ISO/IEC 11172 Video''),
      (0x02, ''ISO/IEC 13818-2 Video''),
      (0x03, ''ISO/IEC 11172 Audio''),
      (0x04, ''ISO/IEC 13818-3 Audio''),
      (0x05, ''ISO/IEC 13818-1 Private Section''),
      (0x06, ''ISO/IEC 13818-1 Private PES data packets''),
      (0x07, ''ISO/IEC 13522 MHEG''),
      (0x08, ''ISO/IEC 13818-1 Annex A DSM CC''),
      (0x09, ''H222.1''),
      (0x0a, ''ISO/IEC 13818-6 type A''),
      (0x0b, ''ISO/IEC 13818-6 type B''),
      (0x0c, ''ISO/IEC 13818-6 type C''),
      (0x0d, ''ISO/IEC 13818-6 type D''),
      (0x0e, ''ISO/IEC 13818-1 auxillary''),
      (0x0f, ''ISO/IEC 13818-7 Audio with ADTS transport syntax - AAC''),
      (0x10, ''ISO/IEC 14496-2 (MPEG-4) Visual''),
      (0x11, ''ISO/IEC 14496-3 Audio with the LATM transport syntax as defined in ISO/IEC 14496-3 / AMD 1''),
      (0x12, ''ISO/IEC 14496-1 SL-packetized stream or FlexMux stream carried in PES packets''),
      (0x13, ''ISO/IEC 14496-1 SL-packetized stream or FlexMux stream carried in ISO/IEC14496_sections''),
      (0x14, ''ISO/IEC 13818-6 Synchronized Download Protocol''),
      (0x1b, ''AVC/H.264 Video''),
      (0x21, ''JPEG 2000''),
      (0x24, ''HEVC/H.265 Video''),
      (0x25, ''HEVC/H.265 Video''),
      (0x27, ''HEVC/H.265 Video''),
      (0x28, ''HEVC/H.265 Video''),
      (0x29, ''HEVC/H.265 Video''),
      (0x2a, ''HEVC/H.265 Video''),
      (0x32, ''JPEG-XS Video''),
      (0x33, ''VVC/H.266 Video''),
      (0x81, ''ATSC AC-3 Audio''),
      (0xd2, ''AV1 Video''),
      (0xc1, ''ATSC AC-3 Audio (HLS TS Encryption)''),
      (0xc2, ''ATSC EAC-3 Audio (HLS TS Encryption)''),
      (0xcf, ''ISO/IEC 13818-7 Audio with ADTS transport syntax (HLS TS Encryption)''),
      (0xdb, ''H.264 Video (HLS TS Encryption)'')]"

definition ltntstools_GetESPayloadTypeDescription :: "u8 \<Rightarrow> string" where
  "ltntstools_GetESPayloadTypeDescription esPayloadType =
     (case map_of esPayloadType_cases esPayloadType of
        Some d \<Rightarrow> d
      | None \<Rightarrow> if esPayloadType < 0x80 then ''ISO/IEC 13818-1 reserved'' else ''User Private'')"

subsection \<open>Generated packets\<close>

definition ltntstools_generateNullPacket :: "bytes \<Rightarrow> bytes mem" where
  "ltntstools_generateNullPacket pkt =
     do { p \<leftarrow> wr pkt 0 (replicate 188 0xff);
          Some (p[0 := 0x47, 1 := 0x1f, 2 := 0xff, 3 := 0x10]) }"

text \<open>\<open>Some None\<close> is the return code -1, \<open>Some (Some (pkt, cc))\<close> is 0 with both written.\<close>

definition ltntstools_generatePCROnlyPacket ::
  "bytes option \<Rightarrow> int \<Rightarrow> u16 \<Rightarrow> u8 option \<Rightarrow> u64 \<Rightarrow> (bytes \<times> u8) option mem" where
  "ltntstools_generatePCROnlyPacket pkt lengthBytes pid cc pcr =
     (case (pkt, cc) of
        (Some p, Some c) \<Rightarrow>
          if lengthBytes < 188 then Some None else
          do { p \<leftarrow> wr p 0 (replicate 188 0xff);
               p \<leftarrow> ltntstools_pcr_packTo
                      (p[0 := 0x47,
                         1 := ucast (drop_bit 8 (pid AND 0x1fff)),
                         2 := ucast pid,
                         3 := 0x20 OR (c AND 0x0f),
                         4 := 183,
                         5 := 0x10]) 6 pcr;
               Some (Some (p, c + 1)) }
      | _ \<Rightarrow> Some None)"

text \<open>The eight counter bytes, most significant first.\<close>

definition counter_bytes :: "u64 \<Rightarrow> bytes" where
  "counter_bytes counter =
     [ucast (drop_bit 56 counter), ucast (drop_bit 48 counter), ucast (drop_bit 40 counter),
      ucast (drop_bit 32 counter), ucast (drop_bit 24 counter), ucast (drop_bit 16 counter),
      ucast (drop_bit 8 counter), ucast counter]"

definition bytes_counter :: "bytes \<Rightarrow> nat \<Rightarrow> u64" where
  "bytes_counter pkt at =
     push_bit 56 (ucast (pkt ! at)) OR push_bit 48 (ucast (pkt ! (at + 1)))
     OR push_bit 40 (ucast (pkt ! (at + 2))) OR push_bit 32 (ucast (pkt ! (at + 3)))
     OR push_bit 24 (ucast (pkt ! (at + 4))) OR push_bit 16 (ucast (pkt ! (at + 5)))
     OR push_bit 8 (ucast (pkt ! (at + 6))) OR ucast (pkt ! (at + 7))"

definition ltntstools_updatePacketWith64bCounter ::
  "bytes option \<Rightarrow> int \<Rightarrow> u16 \<Rightarrow> u8 option \<Rightarrow> u64 \<Rightarrow> (bytes \<times> u8) option mem" where
  "ltntstools_updatePacketWith64bCounter pkt lengthBytes pid cc counter =
     (case (pkt, cc) of
        (Some p, Some c) \<Rightarrow>
          if lengthBytes < 188 then Some None else
          do { need 16 p;
               p \<leftarrow> wr (p[0 := 0x47,
                         1 := ucast (drop_bit 8 (pid AND 0x1fff)),
                         2 := ucast pid,
                         3 := 0x10 OR (c AND 0x0f)]) 8 (counter_bytes counter);
               Some (Some (p, c + 1)) }
      | _ \<Rightarrow> Some None)"

definition ltntstools_generatePacketWith64bCounter ::
  "bytes option \<Rightarrow> int \<Rightarrow> u16 \<Rightarrow> u8 option \<Rightarrow> u64 \<Rightarrow> (bytes \<times> u8) option mem" where
  "ltntstools_generatePacketWith64bCounter pkt lengthBytes pid cc counter =
     (case (pkt, cc) of
        (Some p, Some c) \<Rightarrow>
          if lengthBytes < 188 then Some None else
          do { p \<leftarrow> wr p 0 (replicate 188 0xff);
               p \<leftarrow> wr (p[0 := 0x47,
                         1 := ucast (drop_bit 8 (pid AND 0x1fff)),
                         2 := ucast pid,
                         3 := 0x10 OR (c AND 0x0f)]) 8 (counter_bytes counter);
               Some (Some (p, c + 1)) }
      | _ \<Rightarrow> Some None)"

text \<open>
  The verifier keeps a static template \<open>verifyPacket\<close> that its first call fills. The result
  is the return code, the counter as it is left in \<open>*currentCounter\<close>, and the template.
  \<open>*(pkt + 2) != pid\<close> compares a byte with the whole 16-bit pid, as \<open>int\<close>s.
\<close>

definition verifyPacket_init :: bytes where
  "verifyPacket_init = replicate 188 0"

definition ltntstools_verifyPacketWith64bCounter ::
  "bytes \<Rightarrow> bytes option \<Rightarrow> int \<Rightarrow> u16 \<Rightarrow> u64 \<Rightarrow> u64 option \<Rightarrow> (int \<times> u64 option \<times> bytes) mem" where
  "ltntstools_verifyPacketWith64bCounter verifyPacket pkt lengthBytes pid lastCounter currentCounter =
     (case (pkt, currentCounter) of
        (Some p, Some cur) \<Rightarrow>
          if lengthBytes < 188 then Some (-1, currentCounter, verifyPacket) else
          let vp = (if verifyPacket ! 0 = 0 then replicate 188 0xff else verifyPacket) in
          do { need 188 p;
               if p ! 0 \<noteq> 0x47 then Some (-1, currentCounter, vp)
               else if ucast (p ! 1) \<noteq> drop_bit 8 (pid AND 0x1fff) then Some (-1, currentCounter, vp)
               else if ucast (p ! 2) \<noteq> pid then Some (-1, currentCounter, vp)
               else if p ! 3 AND 0xf0 \<noteq> 0x10 then Some (-1, currentCounter, vp)
               else let cur = bytes_counter p 8 in
                    if lastCounter + 1 \<noteq> cur then Some (-1, Some cur, vp)
                    else if take (188 - 16) (drop 16 vp) \<noteq> take (188 - 16) (drop 16 p)
                    then Some (-1, Some cur, vp)
                    else Some (0, Some cur, vp) }
      | _ \<Rightarrow> Some (-1, currentCounter, verifyPacket))"

subsection \<open>Enumerating PCRs\<close>

record ltntstools_pcr_position_s =
  pos_pcr :: int
  pos_offset :: u64
  pos_pid :: u16

definition ltntstools_pcr_position_reset :: "ltntstools_pcr_position_s" where
  "ltntstools_pcr_position_reset = \<lparr>pos_pcr = -1, pos_offset = 0, pos_pid = 0\<rparr>"

text \<open>\<open>sizeof(struct ltntstools_pcr_position_s)\<close>: 8 + 8 + 2 bytes, padded.\<close>

definition pcr_position_size :: nat where
  "pcr_position_size = 24"

text \<open>\<open>None\<close> is the return code -1 (the array pointer is then \<open>NULL\<close>).\<close>

definition ltntstools_pcr_position_append ::
  "allocator \<Rightarrow> ltntstools_pcr_position_s list \<Rightarrow> ltntstools_pcr_position_s
     \<Rightarrow> ltntstools_pcr_position_s list option" where
  "ltntstools_pcr_position_append alloc array p =
     (if alloc ((length array + 1) * pcr_position_size) then Some (array @ [p]) else None)"

text \<open>\<open>pkt[0] == 0x80 \<and> pkt[12] == 0x47\<close>, with C's short circuit.\<close>

definition rtp_header_at :: "bytes \<Rightarrow> bool mem" where
  "rtp_header_at pkt =
     do { b0 \<leftarrow> rd pkt 0;
          if b0 = 0x80 then do { b12 \<leftarrow> rd pkt 12; Some (b12 = 0x47) } else Some False }"

text \<open>
  The loop's bound \<open>lengthBytes - offset\<close> is an \<open>int\<close>, converted to \<open>uint64_t\<close> for the
  comparison. The counter cannot wrap: every iteration reads \<open>buf[i]\<close>.
  On an RTP header the body adds 12 and the loop adds 188.
\<close>

definition loop_bound :: "int \<Rightarrow> int \<Rightarrow> nat" where
  "loop_bound lengthBytes offset = unat (word_of_int (lengthBytes - offset) :: u64)"

function queryPCRs_loop ::
  "allocator \<Rightarrow> bytes \<Rightarrow> nat \<Rightarrow> u64 \<Rightarrow> nat \<Rightarrow> ltntstools_pcr_position_s list
     \<Rightarrow> ltntstools_pcr_position_s list option mem" where
  "queryPCRs_loop alloc buf bound addr i arr =
     (if i < bound then
        if i < length buf then
          do { rtp \<leftarrow> rtp_header_at (drop i buf);
               if rtp then queryPCRs_loop alloc buf bound addr (i + 12 + 188) arr else
               do { scr \<leftarrow> ltntstools_scr (drop i buf);
                    case scr of
                      None \<Rightarrow> queryPCRs_loop alloc buf bound addr (i + 188) arr
                    | Some v \<Rightarrow>
                        (case ltntstools_pcr_position_append alloc arr
                                \<lparr>pos_pcr = sint v, pos_offset = addr + of_nat i,
                                 pos_pid = ltntstools_pid (drop i buf)\<rparr> of
                           None \<Rightarrow> Some None
                         | Some arr' \<Rightarrow> queryPCRs_loop alloc buf bound addr (i + 188) arr') } }
        else None
      else Some (Some arr))"
  by pat_completeness auto
termination
  by (relation "measure (\<lambda>(alloc, buf, bound, addr, i, arr). length buf - i)") auto

definition ltntstools_queryPCRs ::
  "allocator \<Rightarrow> bytes \<Rightarrow> int \<Rightarrow> u64 \<Rightarrow> ltntstools_pcr_position_s list option mem" where
  "ltntstools_queryPCRs alloc buf lengthBytes addr =
     (let offset = ltntstools_findSyncPosition buf lengthBytes in
      if offset < 0 then Some None
      else queryPCRs_loop alloc buf (loop_bound lengthBytes offset) addr (nat offset) [])"

function queryPCR_pid_loop ::
  "bytes \<Rightarrow> nat \<Rightarrow> u16 \<Rightarrow> nat \<Rightarrow> ltntstools_pcr_position_s option mem" where
  "queryPCR_pid_loop buf bound pcrPID i =
     (if i < bound then
        if i < length buf then
          do { rtp \<leftarrow> rtp_header_at (drop i buf);
               if rtp then queryPCR_pid_loop buf bound pcrPID (i + 12 + 188) else
               do { need 3 (drop i buf);
                    if ltntstools_pid (drop i buf) \<noteq> pcrPID
                    then queryPCR_pid_loop buf bound pcrPID (i + 188) else
                    do { scr \<leftarrow> ltntstools_scr (drop i buf);
                         case scr of
                           None \<Rightarrow> queryPCR_pid_loop buf bound pcrPID (i + 188)
                         | Some v \<Rightarrow>
                             Some (Some \<lparr>pos_pcr = sint v, pos_offset = of_nat i,
                                         pos_pid = pcrPID\<rparr>) } } }
        else None
      else Some None)"
  by pat_completeness auto
termination
  by (relation "measure (\<lambda>(buf, bound, pcrPID, i). length buf - i)") auto

text \<open>
  The sync search of an unaligned buffer assigns to an inner variable that shadows the
  outer \<open>offset\<close>, so the loop starts at 0 whatever it finds.
\<close>

definition ltntstools_queryPCR_pid ::
  "bytes \<Rightarrow> int \<Rightarrow> u16 \<Rightarrow> bool \<Rightarrow> ltntstools_pcr_position_s option mem" where
  "ltntstools_queryPCR_pid buf lengthBytes pcrPID pktAligned =
     (let offset = 0 in
      if \<not> pktAligned \<and> ltntstools_findSyncPosition buf lengthBytes < 0 then Some None
      else queryPCR_pid_loop buf (loop_bound lengthBytes offset) pcrPID (nat offset))"

subsection \<open>Timestamps as text\<close>

text \<open>\<open>printf\<close>'s conversion \<open>%0wd\<close>: the sign counts towards the width.\<close>

fun decimal_digits :: "nat \<Rightarrow> string" where
  "decimal_digits n =
     (if n < 10 then [char_of (48 + n)] else decimal_digits (n div 10) @ [char_of (48 + n mod 10)])"

declare decimal_digits.simps [simp del]

definition printf_d :: "nat \<Rightarrow> int \<Rightarrow> string" where
  "printf_d w x =
     (let s = decimal_digits (nat \<bar>x\<bar>); sign = (if x < 0 then ''-'' else [])
      in sign @ replicate (w - (length sign + length s)) (CHR ''0'') @ s)"

text \<open>
  \<open>buf\<close> is the capacity of the caller's buffer, \<open>None\<close> when the caller passes \<open>NULL\<close> and
  the function allocates 16 bytes. The result is the string written; \<open>None\<close> is a write
  past the buffer (or through a failed allocation).
\<close>

definition ltntstools_pts_to_ascii :: "allocator \<Rightarrow> nat option \<Rightarrow> int \<Rightarrow> string mem" where
  "ltntstools_pts_to_ascii alloc buf pts =
     (let cap = (case buf of Some n \<Rightarrow> n | None \<Rightarrow> if alloc 16 then 16 else 0);
          t = c_div pts 90000;
          ms = to_int32 (c_mod (c_div pts 90) 1000);
          secs = to_int32 (c_mod t 60);
          mins = to_int32 (c_mod (c_div t 60) 60);
          hrs = to_int32 (c_mod (c_div t 3600) 24);
          days = to_int32 (c_div t 86400);
          s = printf_d 0 days @ ''.'' @ printf_d 2 hrs @ '':'' @ printf_d 2 mins @ '':''
              @ printf_d 2 secs @ ''.'' @ printf_d 3 ms
      in if length s + 1 \<le> cap then Some s else None)"

definition ltntstools_pcr_to_ascii :: "allocator \<Rightarrow> nat option \<Rightarrow> int \<Rightarrow> string mem" where
  "ltntstools_pcr_to_ascii alloc buf pcr = ltntstools_pts_to_ascii alloc buf (c_div pcr 300)"

declare contains_pes_header_loop.simps [simp del]
  and queryPCRs_loop.simps [simp del]
  and queryPCR_pid_loop.simps [simp del]

subsection \<open>The PCR field decodes to what was encoded\<close>

text \<open>Byte 4 of the field: the low bit of the base on top, the high bit of the extension below.\<close>

definition pcr_byte4 :: "u64 \<Rightarrow> u64 \<Rightarrow> u8" where
  "pcr_byte4 base ext = (ucast (push_bit 7 base) OR 0x7e) OR ucast (drop_bit 8 (ext AND 0x100))"

lemma pcr_byte4_top: "drop_bit 7 (ucast (pcr_byte4 b e)) = take_bit 1 (b::u64)"
proof (rule bit_word_eqI)
  fix n assume n: "n < LENGTH(64)"
  show "bit (drop_bit 7 (ucast (pcr_byte4 b e)) :: u64) n = bit (take_bit 1 b) n"
    by (cases "n = 0") (simp_all add: pcr_byte4_def bit_simps bit_0)
qed

lemma pcr_base_bits:
  "((((push_bit 25 (ucast (ucast (drop_bit 25 b) :: u8)) OR
       push_bit 17 (ucast (ucast (drop_bit 17 b) :: u8))) OR
      push_bit 9 (ucast (ucast (drop_bit 9 b) :: u8))) OR
     push_bit 1 (ucast (ucast (drop_bit 1 b) :: u8))) OR
    take_bit 1 b) AND mask 33 = take_bit 33 (b :: u64)" (is "?l = _")
proof (rule bit_word_eqI)
  fix n assume "n < LENGTH(64)"
  consider "n = 0" | "1 \<le> n \<and> n < 9" | "9 \<le> n \<and> n < 17" | "17 \<le> n \<and> n < 25" | "25 \<le> n \<and> n < 33" | "33 \<le> n"
    by linarith
  then show "bit ?l n = bit (take_bit 33 b) n"
    by cases (auto simp: bit_simps simp del: push_bit_Suc One_nat_def bit_0)
qed

lemma pcr_ext_bits:
  "(push_bit 8 (ucast (pcr_byte4 b e)) OR ucast (ucast e :: u8)) AND mask 9
   = take_bit 9 (e :: u64)" (is "?l = _")
proof (rule bit_word_eqI)
  fix n assume n: "n < LENGTH(64)"
  consider "n < 8" | "n = 8" | "n > 8" by linarith
  then show "bit ?l n = bit (take_bit 9 e) n"
    by cases (simp_all add: bit_simps pcr_byte4_def)
qed

definition pcr_bytes :: "u64 \<Rightarrow> bytes" where
  "pcr_bytes pcr = (let base = pcr div 300; ext = pcr mod 300 in
    [ucast (drop_bit 25 base), ucast (drop_bit 17 base), ucast (drop_bit 9 base),
     ucast (drop_bit 1 base), pcr_byte4 base ext, ucast ext])"

lemma pcr_ext_take_bit: "take_bit 9 (pcr mod 300 :: u64) = pcr mod 300"
  by (rule take_bit_word_id) (simp add: unat_mod less_trans [OF mod_less_divisor])

lemma pcrToScr_pcr_bytes:
  "ltntstools_pcrToScr (pcr_bytes pcr @ rest) = take_bit 33 (pcr div 300) * 300 + pcr mod 300"
proof -
  have m: "(0x1ffffffff :: u64) = mask 33" "(0x1ff :: u64) = mask 9"
    by (simp_all add: mask_eq_exp_minus_1)
  have n: "(pcr_bytes pcr @ rest) ! 0 = ucast (drop_bit 25 (pcr div 300))"
    "(pcr_bytes pcr @ rest) ! 1 = ucast (drop_bit 17 (pcr div 300))"
    "(pcr_bytes pcr @ rest) ! 2 = ucast (drop_bit 9 (pcr div 300))"
    "(pcr_bytes pcr @ rest) ! 3 = ucast (drop_bit 1 (pcr div 300))"
    "(pcr_bytes pcr @ rest) ! 4 = pcr_byte4 (pcr div 300) (pcr mod 300)"
    "(pcr_bytes pcr @ rest) ! 5 = ucast (pcr mod 300)"
    by (simp_all add: pcr_bytes_def Let_def)
  show ?thesis
    by (simp only: ltntstools_pcrToScr_def Let_def m n pcr_byte4_top pcr_base_bits pcr_ext_bits pcr_ext_take_bit)
qed

lemma pcrToScr_pcr_bytes_id:
  assumes "unat pcr < 300 * 2 ^ 33"
  shows "ltntstools_pcrToScr (pcr_bytes pcr @ rest) = pcr"
proof -
  have "unat (pcr div 300) < 2 ^ 33"
    using assms by (simp add: unat_div less_mult_imp_div_less)
  then have "take_bit 33 (pcr div 300) = pcr div 300"
    by (rule take_bit_word_id)
  then show ?thesis by (simp add: pcrToScr_pcr_bytes div_mult_mod_eq)
qed

lemma pcr_packTo_eq: "ltntstools_pcr_packTo dst at pcr = wr dst at (pcr_bytes pcr)"
  by (simp add: ltntstools_pcr_packTo_def pcr_bytes_def pcr_byte4_def Let_def)

lemma replicate_6: "replicate 6 x = [x, x, x, x, x, x]"
  by (simp add: numeral_eq_Suc)

lemma length_pcr_bytes [simp]: "length (pcr_bytes pcr) = 6"
  by (simp add: pcr_bytes_def Let_def)

lemma pid_of_bytes:
  assumes "pkt ! 1 AND 0x1f = ucast (drop_bit 8 (pid AND 0x1fff))" and "pkt ! 2 = ucast pid"
  shows "ltntstools_pid pkt = pid AND 0x1fff"
proof -
  have m: "(0x1fff :: u16) = mask 13" "(0x1f :: u8) = mask 5"
    by (simp_all add: mask_eq_exp_minus_1)
  have b: "bit (pkt ! 1) k = bit pid (k + 8)" if "k < 5" for k
    using arg_cong [OF assms(1), of "\<lambda>w. bit w k"] that by (simp add: m bit_simps add.commute)
  have b': "bit (pkt ! 1) (n - 8) = bit pid n" if "8 \<le> n" "n < 13" for n
    using b [of "n - 8"] that by simp
  show ?thesis
  proof (rule bit_word_eqI)
    fix n assume "n < LENGTH(16)"
    consider "n < 8" | "8 \<le> n" "n < 13" | "13 \<le> n" by linarith
    then show "bit (ltntstools_pid pkt) n = bit (pid AND 0x1fff) n"
      by cases (auto simp: ltntstools_pid_def m bit_simps assms(2) b' simp del: One_nat_def)
  qed
qed

definition pcr_only_packet :: "u16 \<Rightarrow> u8 \<Rightarrow> u64 \<Rightarrow> bytes" where
  "pcr_only_packet pid c pcr =
     [0x47, ucast (drop_bit 8 (pid AND 0x1fff)), ucast pid, 0x20 OR (c AND 0x0f), 183, 0x10]
     @ pcr_bytes pcr @ replicate 176 0xff"

lemma generatePCROnlyPacket_eq:
  assumes "188 \<le> lengthBytes" and "188 \<le> length p"
  shows "ltntstools_generatePCROnlyPacket (Some p) lengthBytes pid (Some c) pcr =
    Some (Some (pcr_only_packet pid c pcr @ drop 188 p, c + 1))"
proof -
  have l: "\<not> lengthBytes < 188" using assms by simp
  have r: "replicate 188 x = [x,x,x,x,x,x] @ [x,x,x,x,x,x] @ replicate 176 x" for x :: u8
    using replicate_add [of 6 182 x] replicate_add [of 6 176 x] by (simp add: replicate_6)
  have w: "wr p 0 (replicate 188 0xff) =
    Some ([0xff,0xff,0xff,0xff,0xff,0xff] @ [0xff,0xff,0xff,0xff,0xff,0xff] @ replicate 176 0xff @ drop 188 p)"
    using assms(2) by (simp add: blit_0 r)
  have u: "([0xff,0xff,0xff,0xff,0xff,0xff] @ xs)[0 := 0x47,
                         1 := ucast (drop_bit 8 (pid AND 0x1fff)),
                         2 := ucast pid,
                         3 := 0x20 OR (c AND 0x0f),
                         4 := 183,
                         5 := 0x10] =
      [0x47, ucast (drop_bit 8 (pid AND 0x1fff)), ucast pid, 0x20 OR (c AND 0x0f), 183, 0x10] @ xs" for xs :: bytes
    by simp
  have b: "wr ([h0, h1, h2, h3, h4, h5] @ [0xff,0xff,0xff,0xff,0xff,0xff] @ zs) 6 (pcr_bytes pcr)
      = Some ([h0, h1, h2, h3, h4, h5] @ pcr_bytes pcr @ zs)" for h0 h1 h2 h3 h4 h5 zs
    by (simp add: blit_def)
  show ?thesis
    unfolding ltntstools_generatePCROnlyPacket_def pcr_packTo_eq
    using l by (simp only: w u b prod.case option.case if_False bind.bind_lunit pcr_only_packet_def append_assoc)
qed

lemma scr_of_pcr_header:
  assumes "ltntstools_adaption_field_control pkt \<ge> 2" "pkt ! 0 = 0x47" "pkt ! 4 \<noteq> 0" "pkt ! 5 AND 0x10 \<noteq> 0" "12 \<le> length pkt"
  shows "ltntstools_scr pkt = Some (Some (ltntstools_pcrToScr (drop 6 pkt)))"
proof -
  have "pkt \<noteq> []" using assms(5) by auto
  then show ?thesis
  using assms by (simp add: ltntstools_scr_def ltntstools_sync_present_def not_less[symmetric])
qed

interpretation pcr_field: field_codec pcr_bytes ltntstools_pcrToScr 6 "\<lambda>pcr. unat pcr < 300 * 2 ^ 33"
  by unfold_locales (simp_all add: pcrToScr_pcr_bytes_id)

lemma bytes_counter_bytes: "bytes_counter (counter_bytes c @ rest) 0 = c"
proof (rule bit_word_eqI)
  fix n assume "n < LENGTH(64)"
  then have "n < 64" by simp
  then consider "n < 8" | "8 \<le> n" "n < 16" | "16 \<le> n" "n < 24" | "24 \<le> n" "n < 32"
    | "32 \<le> n" "n < 40" | "40 \<le> n" "n < 48" | "48 \<le> n" "n < 56" | "56 \<le> n" "n < 64"
    by linarith
  then show "bit (bytes_counter (counter_bytes c @ rest) 0) n = bit c n"
    by cases (simp_all add: bytes_counter_def counter_bytes_def bit_simps less_diff_conv2)
qed

interpretation counter_field: field_codec counter_bytes "\<lambda>b. bytes_counter b 0" 8 "\<lambda>_. True"
  by unfold_locales (simp_all add: bytes_counter_bytes, simp add: counter_bytes_def)

lemma bytes_counter_drop: "at + 8 \<le> length p \<Longrightarrow> bytes_counter p at = bytes_counter (drop at p) 0"
  by (simp add: bytes_counter_def)

text \<open>The low nibble of the header's fourth byte under the flag bits the generators set.\<close>

lemma cc_of_flags:
  "(0x10 OR (c AND 0x0f)) AND 0x0f = (c AND 0x0f :: u8)"
  "(0x20 OR (c AND 0x0f)) AND 0x0f = (c AND 0x0f :: u8)"
  "(0x30 OR (c AND 0x0f)) AND 0x0f = (c AND 0x0f :: u8)"
  "(0x10 OR (c AND 0x0f)) AND 0xf0 = (0x10 :: u8)"
  "drop_bit 4 (0x10 OR (c AND 0x0f)) AND 0x03 = (1 :: u8)"
  "drop_bit 4 (0x20 OR (c AND 0x0f)) AND 0x03 = (2 :: u8)"
  "drop_bit 4 (0x30 OR (c AND 0x0f)) AND 0x03 = (3 :: u8)"
proof -
  have m: "(0x0f :: u8) = mask 4" by (simp add: mask_eq_exp_minus_1)
  have d: "drop_bit 4 (c AND 0x0f) = 0"
    by (simp add: m take_bit_eq_mask[symmetric] drop_bit_take_bit)
  show "(0x10 OR (c AND 0x0f)) AND 0x0f = (c AND 0x0f :: u8)"
    "(0x20 OR (c AND 0x0f)) AND 0x0f = (c AND 0x0f :: u8)"
    "(0x30 OR (c AND 0x0f)) AND 0x0f = (c AND 0x0f :: u8)"
    "(0x10 OR (c AND 0x0f)) AND 0xf0 = (0x10 :: u8)"
    by (simp_all add: and.assoc bit.conj_disj_distrib2)
  show "drop_bit 4 (0x10 OR (c AND 0x0f)) AND 0x03 = (1 :: u8)"
    "drop_bit 4 (0x20 OR (c AND 0x0f)) AND 0x03 = (2 :: u8)"
    "drop_bit 4 (0x30 OR (c AND 0x0f)) AND 0x03 = (3 :: u8)"
    by (simp_all add: drop_bit_or d)
qed

lemma pid_high_and: "ucast (drop_bit 8 (pid AND 0x1fff :: u16)) AND 0x1f = (ucast (drop_bit 8 (pid AND 0x1fff)) :: u8)"
proof -
  have m: "(0x1fff :: u16) = mask 13" "(0x1f :: u8) = mask 5" by (simp_all add: mask_eq_exp_minus_1)
  show ?thesis by (rule bit_word_eqI) (auto simp: m bit_simps)
qed

lemma length_pcr_only_packet [simp]: "length (pcr_only_packet pid c pcr) = 188"
  by (simp add: pcr_only_packet_def)

lemma pcr_only_packet_header:
  "(pcr_only_packet pid c pcr @ rest) ! 0 = 0x47"
  "(pcr_only_packet pid c pcr @ rest) ! 1 = ucast (drop_bit 8 (pid AND 0x1fff))"
  "(pcr_only_packet pid c pcr @ rest) ! 2 = ucast pid"
  "(pcr_only_packet pid c pcr @ rest) ! 3 = 0x20 OR (c AND 0x0f)"
  "(pcr_only_packet pid c pcr @ rest) ! 4 = 183"
  "(pcr_only_packet pid c pcr @ rest) ! 5 = 0x10"
  "drop 6 (pcr_only_packet pid c pcr @ rest) = pcr_bytes pcr @ replicate 176 0xff @ rest"
  by (simp_all add: pcr_only_packet_def)

lemma pcr_only_packet_fields:
  "unat pcr < 300 * 2 ^ 33 \<Longrightarrow> ltntstools_scr (pcr_only_packet pid c pcr @ rest) = Some (Some pcr)"
  "ltntstools_pid (pcr_only_packet pid c pcr @ rest) = pid AND 0x1fff"
  "ltntstools_continuity_counter (pcr_only_packet pid c pcr @ rest) = c AND 0x0f"
  "ltntstools_adaption_field_control (pcr_only_packet pid c pcr @ rest) = 2"
  "ltntstools_adaption_field_length (pcr_only_packet pid c pcr @ rest) = 183"
proof -
  let ?q = "pcr_only_packet pid c pcr @ rest"
  note n = pcr_only_packet_header [of pid c pcr rest]
  show a: "ltntstools_adaption_field_control ?q = 2"
    by (simp only: ltntstools_adaption_field_control_def n cc_of_flags)
  have "ltntstools_scr ?q = Some (Some (ltntstools_pcrToScr (drop 6 ?q)))"
    by (rule scr_of_pcr_header) (simp_all add: a n)
  then show "ltntstools_scr ?q = Some (Some pcr)" if "unat pcr < 300 * 2 ^ 33"
    by (simp only: n pcrToScr_pcr_bytes_id [OF that])
  show "ltntstools_pid ?q = pid AND 0x1fff"
    by (rule pid_of_bytes) (simp_all only: n pid_high_and)
  show "ltntstools_continuity_counter ?q = c AND 0x0f"
    by (simp only: ltntstools_continuity_counter_def n cc_of_flags)
  show "ltntstools_adaption_field_length ?q = 183"
    by (simp only: ltntstools_adaption_field_length_def n)
qed

text \<open>
  C26: a generated PCR-only packet carries what was asked for. For every clock value the
  33-bit base and the extension can hold, the generator succeeds, writes exactly the first
  188 bytes, and the accessors read back the PCR, the pid, the continuity counter and an
  adaptation-only header; the caller's counter advances by one.
\<close>

theorem generatePCROnlyPacket_roundtrip:
  assumes "188 \<le> lengthBytes" and "188 \<le> length p" and "unat pcr < 300 * 2 ^ 33"
  shows "\<exists>q. ltntstools_generatePCROnlyPacket (Some p) lengthBytes pid (Some c) pcr = Some (Some (q, c + 1))
    \<and> length q = length p \<and> drop 188 q = drop 188 p
    \<and> ltntstools_scr q = Some (Some pcr)
    \<and> ltntstools_pid q = pid AND 0x1fff
    \<and> ltntstools_continuity_counter q = c AND 0x0f
    \<and> ltntstools_adaption_field_control q = 2
    \<and> ltntstools_adaption_field_length q = 183"
  using generatePCROnlyPacket_eq [OF assms(1,2), of pid c pcr] assms(2,3)
  by (auto simp: pcr_only_packet_fields)

theorem generatePCROnlyPacket_roundtrip_witness:
  "\<exists>q. ltntstools_generatePCROnlyPacket (Some (replicate 188 0)) 188 0x1e1 (Some 0x1f) 2576980377599
      = Some (Some (q, 0x20))
    \<and> length q = 188 \<and> ltntstools_scr q = Some (Some 2576980377599)
    \<and> ltntstools_pid q = 0x1e1 \<and> ltntstools_continuity_counter q = 0x0f"
  using generatePCROnlyPacket_roundtrip [of 188 "replicate 188 0" 2576980377599 "0x1e1" "0x1f"] by auto

lemma length_counter_bytes [simp]: "length (counter_bytes c) = 8"
  by (simp add: counter_bytes_def)

definition counter_packet :: "u16 \<Rightarrow> u8 \<Rightarrow> u64 \<Rightarrow> bytes" where
  "counter_packet pid c counter =
    [0x47, ucast (drop_bit 8 (pid AND 0x1fff)), ucast pid, 0x10 OR (c AND 0x0f), 0xff, 0xff, 0xff, 0xff]
    @ counter_bytes counter @ replicate 172 0xff"

lemma replicate_8: "replicate 8 x = [x, x, x, x, x, x, x, x]"
  by (simp add: numeral_eq_Suc)

lemma generatePacketWith64bCounter_eq:
  assumes "188 \<le> lengthBytes" and "188 \<le> length p"
  shows "ltntstools_generatePacketWith64bCounter (Some p) lengthBytes pid (Some c) counter =
    Some (Some (counter_packet pid c counter @ drop 188 p, c + 1))"
proof -
  have l: "\<not> lengthBytes < 188" using assms by simp
  have r: "replicate 188 x = [x,x,x,x,x,x,x,x] @ [x,x,x,x,x,x,x,x] @ replicate 172 x" for x :: u8
    using replicate_add [of 8 180 x] replicate_add [of 8 172 x] by (simp add: replicate_8)
  have w: "wr p 0 (replicate 188 0xff) =
    Some ([0xff,0xff,0xff,0xff,0xff,0xff,0xff,0xff] @ [0xff,0xff,0xff,0xff,0xff,0xff,0xff,0xff] @ replicate 172 0xff @ drop 188 p)"
    using assms(2) by (simp add: blit_0 r)
  show ?thesis
    unfolding ltntstools_generatePacketWith64bCounter_def
    using l by (simp add: w) (simp add: blit_def counter_packet_def)
qed

lemma updatePacketWith64bCounter_eq:
  assumes "188 \<le> lengthBytes"
  shows "ltntstools_updatePacketWith64bCounter (Some (counter_packet pid' c' counter' @ rest)) lengthBytes pid (Some c) counter =
    Some (Some (counter_packet pid c counter @ rest, c + 1))"
  unfolding ltntstools_updatePacketWith64bCounter_def 
  using assms by (simp add: counter_packet_def blit_def)

text \<open>
  the cheap in-place update of a counter packet equals regenerating it. On any packet
  the generator produced, \<open>ltntstools_updatePacketWith64bCounter\<close> and
  \<open>ltntstools_generatePacketWith64bCounter\<close> give the same bytes and the same next counter.
\<close>

theorem updatePacketWith64bCounter_equiv:
  assumes "188 \<le> lengthBytes" and "188 \<le> length p"
    and "ltntstools_generatePacketWith64bCounter (Some p) lengthBytes pid' (Some c') counter' = Some (Some (q, c))"
  shows "ltntstools_updatePacketWith64bCounter (Some q) lengthBytes pid (Some c) counter =
         ltntstools_generatePacketWith64bCounter (Some q) lengthBytes pid (Some c) counter"
proof -
  have q: "q = counter_packet pid' c' counter' @ drop 188 p"
    using assms(3) by (simp add: generatePacketWith64bCounter_eq assms(1,2))
  have "length (counter_packet pid' c' counter') = 188" by (simp add: counter_packet_def)
  then show ?thesis
    using assms(1) by (simp add: q updatePacketWith64bCounter_eq generatePacketWith64bCounter_eq)
qed

theorem updatePacketWith64bCounter_equiv_witness:
  "\<exists>q. ltntstools_generatePacketWith64bCounter (Some (replicate 188 0)) 188 0x31 (Some 4) 7 = Some (Some (q, 5))
    \<and> ltntstools_updatePacketWith64bCounter (Some q) 188 0x31 (Some 5) 8
      = ltntstools_generatePacketWith64bCounter (Some q) 188 0x31 (Some 5) 8"
proof -
  have g: "ltntstools_generatePacketWith64bCounter (Some (replicate 188 0)) 188 0x31 (Some 4) 7
    = Some (Some (counter_packet 0x31 4 7 @ drop 188 (replicate 188 0), 5))"
    by (subst generatePacketWith64bCounter_eq) simp_all
  then show ?thesis
    using updatePacketWith64bCounter_equiv [OF _ _ g, of "0x31" 8] by auto
qed

lemma ucast_u8_u16_eq_iff: "ucast (ucast pid :: u8) = (pid :: u16) \<longleftrightarrow> unat pid < 256"
proof -
  have "ucast (ucast pid :: u8) = take_bit 8 pid"
    by (rule bit_word_eqI) (auto simp: bit_simps)
  moreover have "take_bit 8 pid = pid \<longleftrightarrow> unat pid < 256"
    using take_bit_word_id [of pid 8] unat_and_mask_lt [of pid 8]
    by (auto simp: take_bit_eq_mask)
  ultimately show ?thesis by simp
qed

lemma ucast_high_eq: "(ucast (ucast (drop_bit 8 (pid AND 0x1fff)) :: u8) :: u16) = drop_bit 8 (pid AND 0x1fff)"
proof -
  have m: "(0x1fff :: u16) = mask 13" by (simp_all add: mask_eq_exp_minus_1)
  show ?thesis by (rule bit_word_eqI) (auto simp: m bit_simps)
qed

lemma counter_packet_fields:
  "(counter_packet pid c counter @ rest) ! 0 = 0x47"
  "(counter_packet pid c counter @ rest) ! 1 = ucast (drop_bit 8 (pid AND 0x1fff))"
  "(counter_packet pid c counter @ rest) ! 2 = ucast pid"
  "(counter_packet pid c counter @ rest) ! 3 = 0x10 OR (c AND 0x0f)"
  "drop 8 (counter_packet pid c counter @ rest) = counter_bytes counter @ replicate 172 0xff @ rest"
  "take 172 (drop 16 (counter_packet pid c counter @ rest)) = replicate 172 0xff"
  by (simp_all add: counter_packet_def)

lemma length_counter_packet [simp]: "length (counter_packet pid c counter) = 188"
  by (simp add: counter_packet_def)

lemma verify_counter_packet:
  assumes "188 \<le> lengthBytes" and "vp = verifyPacket_init \<or> vp = replicate 188 0xff"
  shows "ltntstools_verifyPacketWith64bCounter vp (Some (counter_packet pid c counter @ rest)) lengthBytes pid lastCounter (Some x) =
    (if unat pid < 256 then Some (if lastCounter + 1 \<noteq> counter then -1 else 0, Some counter, replicate 188 0xff)
     else Some (-1, Some x, replicate 188 0xff))"
proof -
  let ?q = "counter_packet pid c counter @ rest"
  note n = counter_packet_fields [of pid c counter rest]
  have bc: "bytes_counter ?q 8 = counter"
    by (simp only: bytes_counter_drop n counter_field.dec_enc length_append length_counter_packet)
  have vp: "(if vp ! 0 = 0 then replicate 188 0xff else vp) = replicate 188 0xff"
    using assms(2) by (auto simp: verifyPacket_init_def)
  have d16: "take (188 - 16) (drop 16 ?q) = replicate 172 0xff" 
    "take (188 - 16) (drop 16 (replicate 188 0xff)) = (replicate 172 0xff :: bytes)"
    using n(6) by simp_all
  have h: "ucast (?q ! 1) = drop_bit 8 (pid AND 0x1fff)" "?q ! 3 AND 0xf0 = 0x10"
    "ucast (?q ! 2) = pid \<longleftrightarrow> unat pid < 256"
    by (simp_all only: n ucast_high_eq cc_of_flags ucast_u8_u16_eq_iff)
  have nd: "need 188 ?q = Some ()" "\<not> lengthBytes < 188" using assms(1) by (simp_all add: need_ok)
  show ?thesis
    unfolding ltntstools_verifyPacketWith64bCounter_def prod.case option.case vp Let_def nd bind.bind_lunit
    by (cases "unat pid < 256"; cases "lastCounter + 1 = counter")
       (simp_all only: bc d16 n(1) h nd if_False if_True simp_thms)
qed

text \<open>
  the verifier against the generator. A generated counter packet verifies with code 0
  exactly when its counter follows the last one and its pid is below 256: the verifier
  compares one byte of the packet with the whole 16-bit pid, so it rejects every packet on
  a pid of 256 or more and leaves the caller's counter unwritten.
\<close>

theorem verify_generated_counter_packet:
  assumes "188 \<le> lengthBytes" and "188 \<le> length p"
    and "vp = verifyPacket_init \<or> vp = replicate 188 0xff"
    and "ltntstools_generatePacketWith64bCounter (Some p) lengthBytes pid (Some c) counter = Some (Some (q, c'))"
  shows "ltntstools_verifyPacketWith64bCounter vp (Some q) lengthBytes pid lastCounter (Some x) =
    (if unat pid < 256
     then Some (if lastCounter + 1 \<noteq> counter then -1 else 0, Some counter, replicate 188 0xff)
     else Some (-1, Some x, replicate 188 0xff))"
proof -
  have "q = counter_packet pid c counter @ drop 188 p"
    using assms(4) by (simp add: generatePacketWith64bCounter_eq assms(1,2))
  then show ?thesis by (simp only: verify_counter_packet [OF assms(1,3)])
qed

theorem verify_generated_counter_packet_witness:
  "\<exists>q. ltntstools_generatePacketWith64bCounter (Some (replicate 188 0)) 188 0x31 (Some 4) 7 = Some (Some (q, 5))
    \<and> ltntstools_verifyPacketWith64bCounter verifyPacket_init (Some q) 188 0x31 6 (Some 0)
      = Some (0, Some 7, replicate 188 0xff)"
proof -
  have g: "ltntstools_generatePacketWith64bCounter (Some (replicate 188 0)) 188 0x31 (Some 4) 7
    = Some (Some (counter_packet 0x31 4 7 @ drop 188 (replicate 188 0), 5))"
    by (subst generatePacketWith64bCounter_eq) simp_all
  then show ?thesis
    using verify_generated_counter_packet [OF _ _ _ g, of verifyPacket_init 6 0] by auto
qed

subsection \<open>Laws of the clock arithmetic\<close>

lemmas clock_defs = ltntstools_scr_diff_def ltntstools_scr_add_def ltntstools_pts_diff_def
  MAX_SCR_VALUE_def MAX_PTS_VALUE_def

lemma scr_diff_scr_add:
  assumes "0 \<le> scr" "scr \<le> MAX_SCR_VALUE" "0 \<le> t" "t < 5 * 27000000"
  shows "ltntstools_scr_diff scr (ltntstools_scr_add scr t) = t"
  using assms by (auto simp: clock_defs Let_def)

lemma scr_add_range:
  assumes "0 \<le> scr" "scr \<le> MAX_SCR_VALUE" "\<bar>t\<bar> \<le> MAX_SCR_VALUE"
  shows "0 \<le> ltntstools_scr_add scr t" "ltntstools_scr_add scr t \<le> MAX_SCR_VALUE"
  using assms by (auto simp: clock_defs Let_def)

lemma scr_diff_negative_iff:
  assumes "0 \<le> from" "from \<le> MAX_SCR_VALUE" "0 \<le> to" "to \<le> MAX_SCR_VALUE"
  shows "ltntstools_scr_diff from to < 0 \<longleftrightarrow> from > to \<and> to \<ge> 5 * 27000000"
  using assms by (auto simp: clock_defs)

lemma pts_diff_mod:
  assumes "0 \<le> from" "from \<le> MAX_PTS_VALUE" "0 \<le> to" "to \<le> MAX_PTS_VALUE"
  shows "ltntstools_pts_diff from to = (to - from) mod 2 ^ 33 - (if from > to then 1 else 0)"
proof (cases "from > to")
  case True
  have "(to - from) mod 2 ^ 33 = (to - from + 2 ^ 33) mod 2 ^ 33" by simp
  also have "\<dots> = to - from + 2 ^ 33"
    using assms True by (intro mod_pos_pos_trivial) (auto simp: clock_defs)
  finally show ?thesis using True by (simp add: clock_defs)
next
  case False
  then show ?thesis using assms by (simp add: clock_defs)
qed

subsection \<open>What the searches find\<close>

text \<open>Each forward search is the library's \<open>find\<close> over the indices it visits.\<close>

definition found :: "nat option \<Rightarrow> int" where
  "found r = (case r of None \<Rightarrow> -1 | Some j \<Rightarrow> int j)"

lemma find_upt_Some:
  "find P [i..<n] = Some j \<longleftrightarrow> i \<le> j \<and> j < n \<and> P j \<and> (\<forall>k. i \<le> k \<and> k < j \<longrightarrow> \<not> P k)"
proof (induction "n - i" arbitrary: i)
  case 0
  then show ?case by auto
next
  case (Suc d)
  then have i: "i < n" "d = n - Suc i" by simp_all
  have "(\<forall>k. i \<le> k \<and> k < j \<longrightarrow> \<not> P k) \<longleftrightarrow> (i < j \<longrightarrow> \<not> P i) \<and> (\<forall>k. Suc i \<le> k \<and> k < j \<longrightarrow> \<not> P k)"
    by (metis Suc_leD Suc_leI le_neq_implies_less order_refl)
  then show ?case
    using i Suc.hyps(1) [OF i(2)] by (cases "i = j") (auto simp: upt_conv_Cons)
qed

lemma find_upt_None: "find P [i..<n] = None \<longleftrightarrow> (\<forall>k. i \<le> k \<and> k < n \<longrightarrow> \<not> P k)"
  by (auto simp: find_None_iff)

lemma found_eq: "found r = int j \<longleftrightarrow> r = Some j" and found_none: "found r = -1 \<longleftrightarrow> r = None"
  by (auto simp: found_def split: option.splits)

lemma contains_pes_header_loop_find:
  "contains_pes_header_loop buf len i = found (find (pes_start_code_at buf) [i..<nat (len - 3)])"
proof (induction buf len i rule: contains_pes_header_loop.induct)
  case (1 buf len i)
  have b: "int i < len - 3 \<longleftrightarrow> i < nat (len - 3)" by linarith
  show ?case
  proof (cases "i < nat (len - 3)")
    case True
    then show ?thesis
      using "1" by (simp add: contains_pes_header_loop.simps [of buf len i] b upt_conv_Cons found_def)
  next
    case False
    then show ?thesis
      by (simp add: contains_pes_header_loop.simps [of buf len i] b found_def)
  qed
qed

lemma contains_pes_header_spec:
  "ltntstools_contains_pes_header buf len = int i \<longleftrightarrow>
     int i < len - 3 \<and> pes_start_code_at buf i \<and> (\<forall>k<i. \<not> pes_start_code_at buf k)"
  by (auto simp: ltntstools_contains_pes_header_def contains_pes_header_loop_find found_eq find_upt_Some)

lemma contains_pes_header_none:
  "ltntstools_contains_pes_header buf len = -1 \<longleftrightarrow>
     (\<forall>k. int k < len - 3 \<longrightarrow> \<not> pes_start_code_at buf k)"
  by (auto simp: ltntstools_contains_pes_header_def contains_pes_header_loop_find found_none find_upt_None)

lemma reverse_loop_find:
  "contains_pes_header_reverse_loop buf n = found (find (pes_start_code_at buf) (rev [0..<n]))"
  by (induction n) (auto simp: found_def)

lemma find_rev_upt_Some:
  "find P (rev [0..<n]) = Some j \<longleftrightarrow> j < n \<and> P j \<and> (\<forall>k. j < k \<and> k < n \<longrightarrow> \<not> P k)"
  by (induction n) (auto simp: less_Suc_eq)

lemma contains_pes_header_reverse_spec:
  "ltntstools_contains_pes_header_reverse buf len = int i \<longleftrightarrow>
     int i \<le> len - 3 \<and> pes_start_code_at buf i
     \<and> (\<forall>k. i < k \<and> int k \<le> len - 3 \<longrightarrow> \<not> pes_start_code_at buf k)"
proof -
  have "k < nat (len - 2) \<longleftrightarrow> int k \<le> len - 3" for k by linarith
  then show ?thesis
    by (simp add: ltntstools_contains_pes_header_reverse_def reverse_loop_find found_eq find_rev_upt_Some)
qed

definition sync3_at :: "bytes \<Rightarrow> nat \<Rightarrow> bool" where
  "sync3_at buf i \<longleftrightarrow> buf ! i = 0x47 \<and> buf ! (i + 188) = 0x47 \<and> buf ! (i + 2 * 188) = 0x47"

lemma findSync_loop_find: "findSync_loop buf i n = found (find (sync3_at buf) [i..<i + n])"
proof (induction n arbitrary: i)
  case (Suc n)
  then show ?case
    by (subst upt_conv_Cons) (simp_all add: found_def sync3_at_def [of buf i] del: upt_Suc)
qed (simp add: found_def)

lemma findSyncPosition_spec:
  "ltntstools_findSyncPosition buf len = int i \<longleftrightarrow>
     3 * 188 \<le> len \<and> i < 188 \<and> sync3_at buf i \<and> (\<forall>k<i. \<not> sync3_at buf k)"
  by (auto simp: ltntstools_findSyncPosition_def findSync_loop_find found_eq find_upt_Some)

lemma findSyncPosition_none:
  "3 * 188 \<le> len \<Longrightarrow>
   ltntstools_findSyncPosition buf len = -1 \<longleftrightarrow> (\<forall>k<188. \<not> sync3_at buf k)"
  by (auto simp: ltntstools_findSyncPosition_def findSync_loop_find found_none find_upt_None)

subsection \<open>What the PCR enumeration returns\<close>

text \<open>What one packet position contributes to the enumeration.\<close>

definition pcr_entry :: "bytes \<Rightarrow> u64 \<Rightarrow> nat \<Rightarrow> ltntstools_pcr_position_s list" where
  "pcr_entry buf addr j =
     (case ltntstools_scr (drop j buf) of
        Some (Some v) \<Rightarrow> [\<lparr>pos_pcr = sint v, pos_offset = addr + of_nat j, pos_pid = ltntstools_pid (drop j buf)\<rparr>]
      | _ \<Rightarrow> [])"

text \<open>The packet positions from \<open>i\<close> below a bound.\<close>

definition packet_positions :: "nat \<Rightarrow> nat \<Rightarrow> nat list" where
  "packet_positions i bound = map (\<lambda>k. i + 188 * k) [0..<(bound - i + 187) div 188]"

lemma packet_positions_step:
  assumes "i < bound"
  shows "packet_positions i bound = i # packet_positions (i + 188) bound"
proof -
  define d where "d = bound - i"
  have "d > 0" "bound - (i + 188) = d - 188" using assms by (simp_all add: d_def)
  moreover have "(d + 187) div 188 = Suc ((d - 188 + 187) div 188)"
    using div_add_self1 [of 188 "d - 1"] \<open>d > 0\<close> by (cases "d \<le> 188") simp_all
  ultimately have "(bound - i + 187) div 188 = Suc ((bound - (i + 188) + 187) div 188)"
    by (simp add: d_def)
  then show ?thesis
    by (simp only: packet_positions_def upt_conv_Cons zero_less_Suc if_True list.map map_Suc_upt [symmetric] map_map)
       (simp add: o_def algebra_simps)
qed

lemma packet_positions_done: "bound \<le> i \<Longrightarrow> packet_positions i bound = []"
  by (simp add: packet_positions_def)

lemma scr_defined: "12 \<le> length pkt \<Longrightarrow> \<exists>r. ltntstools_scr pkt = Some r"
proof -
  assume a: "12 \<le> length pkt"
  then have "pkt \<noteq> []" by auto
  with a show ?thesis by (simp add: ltntstools_scr_def)
qed

lemma rtp_header_at_not: "pkt \<noteq> [] \<Longrightarrow> pkt ! 0 \<noteq> 0x80 \<Longrightarrow> rtp_header_at pkt = Some False"
  by (simp add: rtp_header_at_def rd_def)

lemma queryPCRs_loop_eq:
  assumes "\<And>n. alloc n"
    and "\<forall>j \<in> set (packet_positions i bound). j + 12 \<le> length buf \<and> buf ! j \<noteq> 0x80"
  shows "queryPCRs_loop alloc buf bound addr i arr =
    Some (Some (arr @ concat (map (pcr_entry buf addr) (packet_positions i bound))))"
  using assms
proof (induction alloc buf bound addr i arr rule: queryPCRs_loop.induct)
  case (1 alloc buf bound addr i arr)
  show ?case
  proof (cases "i < bound")
    case True
    note st = packet_positions_step [OF True]
    have p: "i + 12 \<le> length buf" "buf ! i \<noteq> 0x80"
      and tl: "\<forall>j \<in> set (packet_positions (i + 188) bound). j + 12 \<le> length buf \<and> buf ! j \<noteq> 0x80"
      using "1.prems"(2) by (auto simp: st)
    then have il: "i < length buf" by simp
    have rtp: "rtp_header_at (drop i buf) = Some False"
      using p il by (intro rtp_header_at_not) auto
    obtain r where r: "ltntstools_scr (drop i buf) = Some r"
      using scr_defined [of "drop i buf"] p by fastforce
    show ?thesis
    proof (cases r)
      case None
      then show ?thesis
        using "1.IH"(2) [OF True il rtp _ r None "1.prems"(1) tl] True il rtp r
        by (simp add: queryPCRs_loop.simps [of alloc buf bound addr i arr] st pcr_entry_def)
    next
      case (Some v)
      have ap: "ltntstools_pcr_position_append alloc arr x = Some (arr @ [x])" for x
        by (simp add: ltntstools_pcr_position_append_def "1.prems"(1))
      show ?thesis
        using "1.IH"(3) [OF True il rtp _ r Some ap "1.prems"(1) tl] True il rtp r Some ap
        by (simp add: queryPCRs_loop.simps [of alloc buf bound addr i arr] st pcr_entry_def)
    qed
  next
    case False
    then show ?thesis
      by (simp add: queryPCRs_loop.simps [of alloc buf bound addr i arr] packet_positions_done)
  qed
qed

lemma loop_bound_eq:
  assumes "off \<le> len" and "len < 2 ^ 63"
  shows "loop_bound (int len) (int off) = len - off"
proof -
  have "int len - int off = int (len - off)" using assms by simp
  then show ?thesis
    using assms by (simp only: loop_bound_def of_int_of_nat_eq) (simp add: unsigned_of_nat take_bit_nat_eq_self del: of_nat_diff)
qed

lemma packet_positions_room:
  assumes "j \<in> set (packet_positions off (188 * m - off))" and "off < 188"
  shows "j + 94 \<le> 188 * m"
proof -
  obtain k where k: "j = off + 188 * k" "k < (188 * m - off - off + 187) div 188"
    using assms by (auto simp: packet_positions_def)
  from k(2) have "Suc k * 188 \<le> (188 * m - off - off + 187) div 188 * 188"
    by (intro mult_le_mono1 Suc_leI)
  also have "\<dots> \<le> 188 * m - off - off + 187"
    by (rule div_times_less_eq_dividend)
  finally have r: "188 * k + 2 * off + 1 \<le> 188 * m" by simp
  then obtain t where t: "m = k + t" using le_Suc_ex [of k m] by auto
  with r have "2 * off + 1 \<le> 188 * t" by simp
  then have "off + 94 \<le> 188 * t" using assms(2) by (cases "t \<le> 1") (auto simp: le_Suc_eq)
  then show ?thesis by (simp add: k(1) t)
qed

text \<open>
  enumeration of PCRs. On a buffer of whole packets without RTP headers whose sync
  position is found, \<open>ltntstools_queryPCRs\<close> never reads outside the buffer and returns, in
  order, exactly the PCRs of the packet positions from the sync position on, with their
  pids and offsets.
\<close>

theorem queryPCRs_all:
  assumes "length buf = 188 * m" and "lengthBytes = int (length buf)" and "lengthBytes < 2 ^ 31"
    and sync: "ltntstools_findSyncPosition buf lengthBytes = int off"
    and "\<And>n. alloc n"
    and "\<forall>j \<in> set (packet_positions off (length buf - off)). buf ! j \<noteq> 0x80"
  shows "ltntstools_queryPCRs alloc buf lengthBytes addr =
    Some (Some (concat (map (pcr_entry buf addr) (packet_positions off (length buf - off)))))"
proof -
  have off: "off < 188" and len: "3 * 188 \<le> length buf"
    using sync assms(2) by (auto simp: findSyncPosition_spec)
  have lb: "loop_bound lengthBytes (int off) = length buf - off"
    using assms(2,3) off len by (simp add: loop_bound_eq)
  have "\<forall>j \<in> set (packet_positions off (length buf - off)). j + 12 \<le> length buf \<and> buf ! j \<noteq> 0x80"
    using assms(1,6) off packet_positions_room [of _ off m] by fastforce
  then show ?thesis
    using assms(5) by (simp add: ltntstools_queryPCRs_def sync lb queryPCRs_loop_eq)
qed

theorem queryPCRs_all_witness:
  "ltntstools_queryPCRs (\<lambda>_. True) (replicate 564 0x47) 564 0 =
    Some (Some (concat (map (pcr_entry (replicate 564 0x47) 0) (packet_positions 0 564))))"
proof -
  have s: "ltntstools_findSyncPosition (replicate 564 0x47) 564 = int 0"
    by (subst findSyncPosition_spec) (simp add: sync3_at_def)
  have p: "\<forall>j \<in> set (packet_positions 0 (length (replicate 564 (0x47 :: u8)) - 0)).
      replicate 564 0x47 ! j \<noteq> (0x80 :: u8)"
    by (auto simp: packet_positions_def)
  show ?thesis
    using queryPCRs_all [OF _ _ _ s _ p, of 3 "\<lambda>_. True" 0] by simp
qed

lemma queryPCR_pid_unaligned:
  "ltntstools_queryPCR_pid buf lengthBytes pcrPID False =
    (if ltntstools_findSyncPosition buf lengthBytes < 0 then Some None
     else ltntstools_queryPCR_pid buf lengthBytes pcrPID True)"
  by (simp add: ltntstools_queryPCR_pid_def)

text \<open>
  the packet behind an RTP header is not examined. The loop adds 12 for the header
  and then its own 188, so a datagram of one RTP header and one packet yields no PCR even
  when that packet carries one on the requested pid.
\<close>

theorem queryPCR_pid_skips_packet_after_rtp:
  assumes "length hdr = 12" "hdr ! 0 = 0x80" "length pkt = 188" "pkt ! 0 = 0x47"
  shows "ltntstools_queryPCR_pid (hdr @ pkt) 200 pcrPID True = Some None"
proof -
  have "rtp_header_at (hdr @ pkt) = Some True"
    using assms by (simp add: rtp_header_at_def rd_def nth_append)
  then show ?thesis
    using assms by (simp add: ltntstools_queryPCR_pid_def loop_bound_def queryPCR_pid_loop.simps [of _ _ _ 0]
      queryPCR_pid_loop.simps [of _ 200 _ 200])
qed

theorem queryPCR_pid_skips_packet_after_rtp_witness:
  "\<exists>pkt. ltntstools_scr pkt = Some (Some 900) \<and> ltntstools_pid pkt = 0x31
    \<and> ltntstools_queryPCR_pid ((0x80 # replicate 11 0) @ pkt) 200 0x31 True = Some None"
proof -
  let ?q = "pcr_only_packet 0x31 0 900"
  have "ltntstools_scr ?q = Some (Some 900)" "ltntstools_pid ?q = 0x31" "?q ! 0 = 0x47"
    using pcr_only_packet_fields(1) [of 900 "0x31" 0 "[]"] pcr_only_packet_fields(2) [of "0x31" 0 900 "[]"] pcr_only_packet_header(1) [of "0x31" 0 900 "[]"]
    by simp_all
  then show ?thesis
    using queryPCR_pid_skips_packet_after_rtp [of "0x80 # replicate 11 0" ?q "0x31"] by auto
qed

subsection \<open>The text of a timestamp fits its buffer\<close>

lemma length_decimal_digits:
  "n < 10 \<Longrightarrow> length (decimal_digits n) = 1"
  "10 \<le> n \<Longrightarrow> n < 100 \<Longrightarrow> length (decimal_digits n) = 2"
  "100 \<le> n \<Longrightarrow> n < 1000 \<Longrightarrow> length (decimal_digits n) = 3"
proof -
  show one: "n < 10 \<Longrightarrow> length (decimal_digits n) = 1" for n
    by (subst decimal_digits.simps) simp
  show two: "10 \<le> n \<Longrightarrow> n < 100 \<Longrightarrow> length (decimal_digits n) = 2" for n
    by (subst decimal_digits.simps) (simp add: one)
  show "100 \<le> n \<Longrightarrow> n < 1000 \<Longrightarrow> length (decimal_digits n) = 3" 
    by (subst decimal_digits.simps) (simp add: two)
qed

lemma length_printf_d:
  "0 \<le> x \<Longrightarrow> x < 10 \<Longrightarrow> length (printf_d 0 x) = 1"
  "0 \<le> x \<Longrightarrow> x < 100 \<Longrightarrow> length (printf_d 2 x) = 2"
  "0 \<le> x \<Longrightarrow> x < 1000 \<Longrightarrow> length (printf_d 3 x) = 3"
proof -
  show "0 \<le> x \<Longrightarrow> x < 10 \<Longrightarrow> length (printf_d 0 x) = 1"
    by (simp add: printf_d_def length_decimal_digits nat_less_iff)
  show "0 \<le> x \<Longrightarrow> x < 100 \<Longrightarrow> length (printf_d 2 x) = 2"
    by (cases "nat x < 10") (simp_all add: printf_d_def length_decimal_digits nat_less_iff)
  assume x: "0 \<le> x" "x < 1000"
  consider "nat x < 10" | "10 \<le> nat x" "nat x < 100" | "100 \<le> nat x" "nat x < 1000"
    using x by linarith
  then show "length (printf_d 3 x) = 3"
    using x by cases (simp_all add: printf_d_def length_decimal_digits)
qed

lemma length_printf_mod:
  assumes "0 \<le> x"
  shows "0 < b \<Longrightarrow> b \<le> 100 \<Longrightarrow> length (printf_d 2 (to_int32 (c_mod x b))) = 2"
    and "length (printf_d 3 (to_int32 (c_mod x 1000))) = 3"
proof -
  have m: "0 \<le> x mod b \<and> x mod b < b \<and> c_mod x b = x mod b" if "0 < b" for b
    using that assms by simp
  have i: "to_int32 (x mod b) = x mod b" if "0 < b" "b \<le> 1000" for b
    using that m [OF that(1)] by (intro to_int32_id) simp_all
  show "0 < b \<Longrightarrow> b \<le> 100 \<Longrightarrow> length (printf_d 2 (to_int32 (c_mod x b))) = 2"
    using m [of b] i [of b] less_le_trans [of "x mod b" b 100] length_printf_d(2) [of "x mod b"] by auto
  show "length (printf_d 3 (to_int32 (c_mod x 1000))) = 3"
    using m [of 1000] i [of 1000] length_printf_d(3) [of "x mod 1000"] by auto
qed

lemma pts_to_ascii_fits:
  assumes "0 \<le> pts" "pts \<le> MAX_PTS_VALUE"
    and "case buf of Some n \<Rightarrow> 15 \<le> n | None \<Rightarrow> alloc 16"
  shows "\<exists>s. ltntstools_pts_to_ascii alloc buf pts = Some s \<and> length s = 14"
proof -
  define t where "t = c_div pts 90000"
  have t: "0 \<le> t" "t < 864000"
    using assms(1,2) by (simp_all add: t_def MAX_PTS_VALUE_def)
  have n: "0 \<le> c_div t 60" "0 \<le> c_div t 3600" "0 \<le> c_div pts 90"
    using t assms(1) by (simp_all add: pos_imp_zdiv_nonneg_iff)
  have "0 \<le> c_div t 86400" "c_div t 86400 < 10"
    using t by (simp_all add: pos_imp_zdiv_nonneg_iff)
  then have d: "length (printf_d 0 (to_int32 (c_div t 86400))) = 1"
    by (subst to_int32_id) (simp_all add: length_printf_d)
  show ?thesis
    using assms(3)
    by (simp add: ltntstools_pts_to_ascii_def Let_def t_def [symmetric] d length_printf_mod t n
        del: c_div_pos c_mod_pos to_int32_id split: option.splits)
qed

subsection \<open>Properties of the clocks, the searches and the formatter\<close>

text \<open>
  the 27 MHz clock steps forward consistently across its wrap. Adding up to five seconds
  of ticks to a clock value and taking the difference gives the ticks back.
\<close>

theorem scr_add_then_diff:
  assumes "0 \<le> scr" and "scr \<le> MAX_SCR_VALUE" and "0 \<le> t" and "t < 5 * 27000000"
  shows "ltntstools_scr_diff scr (ltntstools_scr_add scr t) = t
    \<and> 0 \<le> ltntstools_scr_add scr t \<and> ltntstools_scr_add scr t \<le> MAX_SCR_VALUE"
  using assms scr_diff_scr_add [OF assms] scr_add_range [OF assms(1,2), of t]
  by (simp add: MAX_SCR_VALUE_def)

theorem scr_add_then_diff_witness:
  "ltntstools_scr_diff 2576980377000 (ltntstools_scr_add 2576980377000 1000) = 1000
    \<and> ltntstools_scr_add 2576980377000 1000 = 400"
  using scr_add_then_diff [of 2576980377000 1000]
  by (simp add: MAX_SCR_VALUE_def ltntstools_scr_add_def)

text \<open>
  the two searches for a PES start code. The reverse search returns the last start code
  of the buffer; the forward search returns the first one, but its loop stops one position
  early: a start code in the last three bytes only is found by the reverse search and
  missed by the forward one.
\<close>

theorem contains_pes_header_forward_reverse:
  assumes "pes_start_code_at buf i" and "i + 3 \<le> length buf"
  shows "(\<exists>j\<ge>i. ltntstools_contains_pes_header_reverse buf (int (length buf)) = int j \<and> pes_start_code_at buf j)
    \<and> (i + 3 < length buf \<longrightarrow>
        (\<exists>j\<le>i. ltntstools_contains_pes_header buf (int (length buf)) = int j \<and> pes_start_code_at buf j))
    \<and> (i + 3 = length buf \<and> (\<forall>k<i. \<not> pes_start_code_at buf k) \<longrightarrow>
        ltntstools_contains_pes_header buf (int (length buf)) = -1)"
proof (intro conjI impI)
  let ?L = "int (length buf)" and ?n = "length buf - 2"
  have n: "nat (?L - 2) = ?n" "nat (?L - 3) = length buf - 3" using assms(2) by simp_all
  have "find (pes_start_code_at buf) (rev [0..<?n]) \<noteq> None"
    using assms by (auto simp: find_None_iff intro!: exI [of _ i])
  then obtain j where j: "find (pes_start_code_at buf) (rev [0..<?n]) = Some j" by auto
  then have "pes_start_code_at buf j" "i \<le> j"
    using assms by (auto simp: find_rev_upt_Some not_less [symmetric])
  then show "\<exists>j\<ge>i. ltntstools_contains_pes_header_reverse buf ?L = int j \<and> pes_start_code_at buf j"
    using j by (auto simp: ltntstools_contains_pes_header_reverse_def reverse_loop_find n found_def)
  show "\<exists>j\<le>i. ltntstools_contains_pes_header buf ?L = int j \<and> pes_start_code_at buf j"
    if "i + 3 < length buf"
  proof -
    have "find (pes_start_code_at buf) [0..<length buf - 3] \<noteq> None"
      using assms that by (auto simp: find_upt_None intro!: exI [of _ i])
    then obtain k where k: "find (pes_start_code_at buf) [0..<length buf - 3] = Some k" by auto
    then have "pes_start_code_at buf k" "k \<le> i"
      using assms by (auto simp: find_upt_Some not_less [symmetric])
    then show ?thesis
      using k by (auto simp: ltntstools_contains_pes_header_def contains_pes_header_loop_find n found_def)
  qed
  show "ltntstools_contains_pes_header buf ?L = -1"
    if "i + 3 = length buf \<and> (\<forall>k<i. \<not> pes_start_code_at buf k)"
    using that by (auto simp: contains_pes_header_none)
qed

theorem contains_pes_header_forward_reverse_witness:
  "ltntstools_contains_pes_header_reverse [7, 0, 0, 1] (int (length [7, 0, 0, 1 :: u8])) = 1
   \<and> ltntstools_contains_pes_header [7, 0, 0, 1] (int (length [7, 0, 0, 1 :: u8])) = -1"
proof -
  have p: "pes_start_code_at [7, 0, 0, 1] 1" "\<forall>k<1. \<not> pes_start_code_at [7, 0, 0, 1] k"
    by (simp_all add: pes_start_code_at_def)
  have "ltntstools_contains_pes_header_reverse [7, 0, 0, 1] (int (length [7, 0, 0, 1 :: u8])) = int 1"
    by (subst contains_pes_header_reverse_spec) (use p in auto)
  then show ?thesis
    using contains_pes_header_forward_reverse [OF p(1)] p(2) by simp
qed

text \<open>
  the text of a timestamp fits its buffer. For every 33-bit timestamp the formatter
  writes fourteen characters, so neither its own 16-byte allocation nor a caller's buffer
  of 15 bytes or more is overrun.
\<close>

theorem pts_to_ascii_no_overrun:
  assumes "0 \<le> pts" and "pts \<le> MAX_PTS_VALUE"
    and "case buf of Some n \<Rightarrow> 15 \<le> n | None \<Rightarrow> alloc 16"
  shows "\<exists>s. ltntstools_pts_to_ascii alloc buf pts = Some s \<and> length s = 14"
  using assms by (rule pts_to_ascii_fits)

theorem pts_to_ascii_no_overrun_witness:
  "(0::int) \<le> 8589934591 \<and> (\<exists>s. ltntstools_pts_to_ascii (\<lambda>_. True) None 8589934591 = Some s \<and> length s = 14)"
  using pts_to_ascii_no_overrun [of 8589934591 "\<lambda>_. True" None] by (simp add: MAX_PTS_VALUE_def)

end
