(* ===== verification/Packetizer.thy ===== *)
theory Packetizer
  imports Ts
begin

text \<open>
  The packetizers of \<open>src/src/ts_packetizer.c\<close>: a buffer of elementary-stream or PES bytes
  becomes a run of 188-byte transport packets in one allocated array. The array is modelled
  as the byte list \<open>calloc\<close> returns, and every store into it is checked against its size.
  The lemmas show that the packets stay inside the array, that their headers carry the pid,
  the running continuity counter and the start indicator, and that their payloads, put back
  together, are the input.
\<close>

unbundle bit_operations_syntax

subsection \<open>The minimal packetizer\<close>

text \<open>
  The body of the \<open>while\<close> loop: \<open>rem\<close> is already limited to the payload size. The start
  indicator is set on the first packet.
\<close>

definition ts_packetizer_packet :: "bytes \<Rightarrow> u16 \<Rightarrow> u8 \<Rightarrow> nat \<Rightarrow> bytes" where
  "ts_packetizer_packet payload pid cc cnt =
     (let p = [0x47, ucast (drop_bit 8 pid), ucast pid, 0x10 OR (cc AND 0x0f)]
              @ payload @ replicate (188 - length payload - 4) 0xff
      in if cnt = 0 then p[1 := p ! 1 OR 0x40] else p)"

function ts_packetizer_loop ::
  "bytes \<Rightarrow> nat \<Rightarrow> u16 \<Rightarrow> bytes \<Rightarrow> nat \<Rightarrow> nat \<Rightarrow> u8 \<Rightarrow> (bytes \<times> nat \<times> u8) mem" where
  "ts_packetizer_loop buf byteCount pid arr offset cnt cc =
     (let rem = byteCount - offset in
      if rem = 0 then Some (arr, cnt, cc) else
      let rem = (if rem > 184 then 184 else rem) in
      do { payload \<leftarrow> rdn buf offset rem;
           arr \<leftarrow> wr arr (cnt * 188) (ts_packetizer_packet payload pid cc cnt);
           ts_packetizer_loop buf byteCount pid arr (offset + rem) (cnt + 1) (cc + 1) })"
  by pat_completeness auto
termination
  by (relation "measure (\<lambda>(buf, byteCount, pid, arr, offset, cnt, cc). byteCount - offset)")
     (auto split: if_splits)

text \<open>
  \<open>out\<close> says that the result pointers are non-\<open>NULL\<close>. \<open>Some None\<close> is -1;
  \<open>Some (Some (pkts, packetCount, cc))\<close> is 0. The allocation is not checked by the code:
  when it fails the first store has no defined behaviour.
\<close>

definition ltntstools_ts_packetizer ::
  "allocator \<Rightarrow> bytes option \<Rightarrow> nat \<Rightarrow> bool \<Rightarrow> int \<Rightarrow> u8 option \<Rightarrow> u16
     \<Rightarrow> (bytes \<times> nat \<times> u8) option mem" where
  "ltntstools_ts_packetizer alloc buf byteCount out packetSize cc pid =
     (case (buf, cc) of
        (Some b, Some c) \<Rightarrow>
          if byteCount = 0 \<or> \<not> out \<or> packetSize \<noteq> 188 \<or> pid > 0x1fff then Some None else
          let max = 188 - 4;
              packets = to_int32 (int ((byteCount div max + 1) * 188));
              n = nat packets * 188
          in if packets < 0 \<or> \<not> alloc n then None else
             do { r \<leftarrow> ts_packetizer_loop b byteCount pid (replicate n 0) 0 0 c; Some (Some r) }
      | _ \<Rightarrow> Some None)"

subsection \<open>The packetizer with a PCR and adaptation flags\<close>

text \<open>\<open>for (i = a; i < b; i++) p[i] = 0xff\<close>.\<close>

fun stuff :: "bytes \<Rightarrow> nat \<Rightarrow> nat \<Rightarrow> bytes" where
  "stuff p a 0 = p"
| "stuff p a (Suc b) = (if a \<le> b then (stuff p a b)[b := 0xff] else p)"

text \<open>The block that writes the six PCR bytes at \<open>p[6]\<close>; \<open>pcr\<close> is a signed 64-bit value.\<close>

definition with_pcr_field :: "int \<Rightarrow> bytes" where
  "with_pcr_field pcr =
     (let base = word_of_int (c_div pcr 300) :: u64;
          ext = word_of_int (c_mod pcr 300) :: u64
      in [ucast (drop_bit 25 base AND 0xff), ucast (drop_bit 17 base AND 0xff),
          ucast (drop_bit 9 base AND 0xff), ucast (drop_bit 1 base AND 0xff),
          ucast (push_bit 7 (base AND 0x1) OR 0x7e OR (drop_bit 8 ext AND 0x01)),
          ucast (ext AND 0xff)])"

text \<open>
  One packet: its bytes before the payload is copied, the number of payload bytes and the
  offset they go to. \<open>rem\<close> is \<open>byteCount - pos\<close>.
\<close>

definition with_pcr_header ::
  "u16 \<Rightarrow> int \<Rightarrow> bool \<Rightarrow> bool \<Rightarrow> nat \<Rightarrow> nat \<Rightarrow> u8 \<Rightarrow> bytes \<times> nat \<times> nat" where
  "with_pcr_header pid pcr random_access_indicator elementary_stream_priority_indicator rem cnt cc =
     (let p = replicate 188 0xff;
          firstPacket = (cnt = 0);
          needPCR = (pcr \<noteq> -1 \<and> firstPacket);
          needIndicators = (firstPacket \<and>
            (random_access_indicator \<or> elementary_stream_priority_indicator));
          af_flags = 0x00;
          af_flags = (if needPCR then af_flags OR 0x10 else af_flags);
          af_flags = (if firstPacket \<and> random_access_indicator then af_flags OR 0x40 else af_flags);
          af_flags = (if firstPacket \<and> elementary_stream_priority_indicator
                      then af_flags OR 0x20 else af_flags);
          p = p[0 := 0x47, 1 := ucast (drop_bit 8 pid AND 0x1f), 2 := ucast (pid AND 0xff),
                3 := cc AND 0x0f];
          p = (if firstPacket then p[1 := p ! 1 OR 0x40] else p);
          adaptation_field_length = 183 - rem;
          payload_offset = 4 + 1 + adaptation_field_length
      in if needPCR then
           let p = p[3 := p ! 3 OR 0x30];
               (p, cpy, off) =
                 (if rem \<ge> 176 then (p[4 := 7, 5 := af_flags], 176, 12)
                  else (stuff (p[4 := of_nat adaptation_field_length, 5 := af_flags]) 12 payload_offset,
                        rem, payload_offset))
           in (blit p 6 (with_pcr_field pcr), cpy, off)
         else if needIndicators then
           let p = p[3 := p ! 3 OR 0x30] in
           if rem \<ge> 182 then (p[4 := 1, 5 := af_flags], 182, 6)
           else (stuff (p[4 := of_nat adaptation_field_length, 5 := af_flags]) 6 payload_offset,
                 rem, payload_offset)
         else if rem \<ge> 184 then (p[3 := p ! 3 OR 0x10], 184, 4)
         else
           let p = p[3 := p ! 3 OR 0x30, 4 := of_nat adaptation_field_length] in
           ((if adaptation_field_length > 0 then stuff (p[5 := 0x00]) 6 payload_offset else p),
            rem, payload_offset))"

definition with_pcr_packet ::
  "bytes \<Rightarrow> nat \<Rightarrow> u16 \<Rightarrow> int \<Rightarrow> bool \<Rightarrow> bool \<Rightarrow> nat \<Rightarrow> nat \<Rightarrow> u8 \<Rightarrow> (bytes \<times> nat) mem" where
  "with_pcr_packet buf byteCount pid pcr rai espi pos cnt cc =
     (case with_pcr_header pid pcr rai espi (byteCount - pos) cnt cc of (p, cpy, payload_offset) \<Rightarrow>
        do { payload \<leftarrow> rdn buf pos cpy;
             p \<leftarrow> wr p payload_offset payload;
             Some (p, cpy) })"

text \<open>
  The loop. A packet that copied nothing would leave \<open>pos\<close> unchanged and the loop would run
  off the end of the array, so that branch is undefined behaviour; \<open>with_pcr_header_shape\<close>
  shows it is never taken. The offset \<open>cnt * packetSize\<close> is a \<open>uint32_t\<close>, which wraps at \<open>2 ^ 32\<close>.
\<close>

function with_pcr_loop ::
  "bytes \<Rightarrow> nat \<Rightarrow> u16 \<Rightarrow> int \<Rightarrow> bool \<Rightarrow> bool \<Rightarrow> bytes \<Rightarrow> nat \<Rightarrow> nat \<Rightarrow> u8
     \<Rightarrow> (bytes \<times> nat \<times> u8) mem" where
  "with_pcr_loop buf byteCount pid pcr rai espi arr pos cnt cc =
     (if pos < byteCount then
        do { (p, cpy) \<leftarrow> with_pcr_packet buf byteCount pid pcr rai espi pos cnt cc;
             arr \<leftarrow> wr arr (cnt * 188 mod 2 ^ 32) p;
             if cpy = 0 then None
             else with_pcr_loop buf byteCount pid pcr rai espi arr (pos + cpy) (cnt + 1)
                    ((cc + 1) AND 0x0f) }
      else Some (arr, cnt, cc))"
  by pat_completeness auto
termination
  by (relation "measure (\<lambda>(buf, byteCount, pid, pcr, rai, espi, arr, pos, cnt, cc). byteCount - pos)")
     auto

text \<open>
  \<open>byteCount + 175\<close> is an \<open>unsigned int\<close>, so it wraps at \<open>2 ^ 32\<close>.
\<close>

definition ltntstools_ts_packetizer_with_pcr ::
  "allocator \<Rightarrow> bytes option \<Rightarrow> nat \<Rightarrow> bool \<Rightarrow> int \<Rightarrow> u8 option \<Rightarrow> u16 \<Rightarrow> int \<Rightarrow> bool \<Rightarrow> bool
     \<Rightarrow> (bytes \<times> nat \<times> u8) option mem" where
  "ltntstools_ts_packetizer_with_pcr alloc buf byteCount out packetSize cc pid pcr
       random_access_indicator elementary_stream_priority_indicator =
     (case (buf, cc) of
        (Some b, Some c) \<Rightarrow>
          if byteCount = 0 \<or> \<not> out \<or> packetSize \<noteq> 188 \<or> pid > 0x1fff then Some None else
          let maxPackets = (byteCount + 175) mod 2 ^ 32 div 176 + 2;
              n = maxPackets * 188
          in if \<not> alloc n then Some None else
             do { r \<leftarrow> with_pcr_loop b byteCount pid pcr random_access_indicator
                         elementary_stream_priority_indicator (replicate n 0) 0 0 c;
                  Some (Some r) }
      | _ \<Rightarrow> Some None)"

declare ts_packetizer_loop.simps [simp del] and with_pcr_loop.simps [simp del]

subsection \<open>The minimal packetizer's packets\<close>

lemma take_blit_packet:
  assumes "length p = 188" and "188 * Suc c \<le> length arr"
  shows "take (188 * Suc c) (blit arr (c * 188) p) = take (188 * c) arr @ p"
  using assms by (simp add: blit_def mult.commute)

lemma length_ts_packetizer_packet [simp]:
  "length payload \<le> 184 \<Longrightarrow> length (ts_packetizer_packet payload pid cc cnt) = 188"
  by (simp add: ts_packetizer_packet_def Let_def)

definition packetizer_payload :: "bytes \<Rightarrow> nat \<Rightarrow> nat \<Rightarrow> bytes" where
  "packetizer_payload buf byteCount k = take 184 (drop (184 * k) (take byteCount buf))"

definition packetizer_packet :: "bytes \<Rightarrow> nat \<Rightarrow> u16 \<Rightarrow> u8 \<Rightarrow> nat \<Rightarrow> bytes" where
  "packetizer_packet buf byteCount pid cc k =
     ts_packetizer_packet (packetizer_payload buf byteCount k) pid (cc + of_nat k) k"

lemma ts_packetizer_loop_eq:
  assumes "byteCount \<le> length buf" and "offset = min (184 * cnt) byteCount"
    and "n = (byteCount + 183) div 184" and "cnt \<le> n" and "188 * n \<le> length arr"
  shows "\<exists>arr'. ts_packetizer_loop buf byteCount pid arr offset cnt (cc + of_nat cnt)
      = Some (arr', n, cc + of_nat n) \<and> length arr' = length arr
      \<and> take (188 * n) arr' = take (188 * cnt) arr
          @ concat (map (packetizer_packet buf byteCount pid cc) [cnt..<n])"
  using assms
proof (induction "n - cnt" arbitrary: offset cnt arr)
  case 0
  then have "cnt = n" by simp
  moreover have "byteCount \<le> 184 * n"
    using less_ceil_iff [of 184 n byteCount] "0.prems"(3) by simp
  ultimately have "ts_packetizer_loop buf byteCount pid arr offset cnt c = Some (arr, cnt, c)" for c
    using "0.prems"(2) by (subst ts_packetizer_loop.simps) simp
  then show ?case using \<open>cnt = n\<close> by simp
next
  case (Suc d)
  then have lt: "cnt < n" by simp
  then have off: "184 * cnt < byteCount" "offset = 184 * cnt"
    using less_ceil_iff [of 184 cnt byteCount] Suc.prems(2,3) by simp_all
  define rem where "rem = (if byteCount - offset > 184 then 184 else byteCount - offset)"
  let ?pay = "packetizer_payload buf byteCount cnt"
  let ?pkt = "packetizer_packet buf byteCount pid cc cnt"
  have pay: "rdn buf offset rem = Some ?pay"
    using off Suc.prems(1) by (auto simp: rem_def packetizer_payload_def drop_take)
  have len: "length ?pkt = 188" "188 * Suc cnt \<le> length arr"
    using Suc.prems(5) lt by (simp_all add: packetizer_packet_def packetizer_payload_def)
  let ?arr = "blit arr (cnt * 188) ?pkt"
  have st: "ts_packetizer_loop buf byteCount pid arr offset cnt (cc + of_nat cnt) =
    ts_packetizer_loop buf byteCount pid ?arr (offset + rem) (Suc cnt) (cc + of_nat (Suc cnt))"
    using off len pay unfolding ts_packetizer_loop.simps [of buf byteCount pid arr offset cnt] rem_def [symmetric] Let_def
    by (simp add: packetizer_packet_def [symmetric] ac_simps)
  have o': "offset + rem = min (184 * Suc cnt) byteCount"
    using off by (auto simp: rem_def)
  have "length ?arr = length arr" using len by simp
  moreover have "d = n - Suc cnt" using Suc.hyps(2) by simp
  ultimately obtain arr' where "ts_packetizer_loop buf byteCount pid ?arr (offset + rem) (Suc cnt) (cc + of_nat (Suc cnt))
      = Some (arr', n, cc + of_nat n)" "length arr' = length arr"
      "take (188 * n) arr' = take (188 * Suc cnt) ?arr @ concat (map (packetizer_packet buf byteCount pid cc) [Suc cnt..<n])"
    using Suc.hyps(1) [of "Suc cnt" "offset + rem" ?arr] Suc.prems lt o' by auto
  then show ?case
    using lt len by (simp only: st take_blit_packet upt_conv_Cons) auto
qed

lemma drop4_packetizer_packet:
  "drop 4 (ts_packetizer_packet payload pid cc cnt) = payload @ replicate (184 - length payload) 0xff"
  by (simp add: ts_packetizer_packet_def Let_def)

lemma packetizer_payloads:
  assumes "byteCount \<le> length buf" and "n = (byteCount + 183) div 184"
  shows "concat (map (\<lambda>k. drop 4 (packetizer_packet buf byteCount pid cc k)) [0..<n]) =
    take byteCount buf @ replicate (184 * n - byteCount) 0xff"
proof (cases "byteCount = 0")
  case False
  have full: "concat (map (\<lambda>k. drop 4 (packetizer_packet buf byteCount pid cc k)) [0..<m]) = take (184 * m) buf"
    if "184 * m \<le> byteCount" for m
    using that
  proof (induction m)
    case (Suc m)
    have "drop 4 (packetizer_packet buf byteCount pid cc m) = take 184 (drop (184 * m) buf)"
      using Suc.prems assms(1) by (simp add: packetizer_packet_def drop4_packetizer_packet packetizer_payload_def drop_take)
    with Suc show ?case by (simp add: take_add [symmetric] add.commute)
  qed simp
  have "0 < n" using less_ceil_iff [of 184 0 byteCount] False assms(2) by simp
  then obtain m where n: "n = Suc m" by (cases n) simp_all
  have m: "184 * m < byteCount" "byteCount \<le> 184 * Suc m"
    using less_ceil_iff [of 184 m byteCount] less_ceil_iff [of 184 "Suc m" byteCount] n assms(2) by auto
  have "drop 4 (packetizer_packet buf byteCount pid cc m) =
      drop (184 * m) (take byteCount buf) @ replicate (184 * n - byteCount) 0xff"
    using m n assms(1) by (simp add: packetizer_packet_def drop4_packetizer_packet packetizer_payload_def)
  then show ?thesis
    using full [of m] m n by (simp add: drop_take take_add [symmetric])
next
  case True
  then show ?thesis using assms by simp
qed

lemma pid_and_mask: "pid \<le> 0x1fff \<Longrightarrow> pid AND 0x1fff = (pid :: u16)"
proof -
  assume "pid \<le> 0x1fff"
  then have "unat pid < 2 ^ 13" by (simp add: word_le_nat_alt)
  then have "take_bit 13 pid = pid" by (rule take_bit_word_id)
  then show ?thesis by (simp add: take_bit_eq_mask mask_eq_exp_minus_1)
qed

lemma start_indicator_bits:
  fixes b :: u8
  shows "(b OR 0x40) AND 0x1f = b AND 0x1f" "(b OR 0x40) AND 0x40 \<noteq> 0"
  by (simp_all add: bit.conj_disj_distrib2)

lemma pid_high_no_flag: "ucast (drop_bit 8 (pid AND 0x1fff :: u16)) AND 0x40 = (0 :: u8)"
proof -
  have m: "(0x1fff :: u16) = mask 13" "(0x40 :: u8) = push_bit 6 1" by (simp_all add: mask_eq_exp_minus_1)
  show ?thesis by (rule bit_word_eqI) (auto simp: m bit_simps simp del: push_bit_of_1)
qed

lemma ts_packetizer_packet_fields:
  assumes "pid \<le> 0x1fff"
  shows "ltntstools_sync_present (ts_packetizer_packet payload pid cc cnt)"
    and "ltntstools_pid (ts_packetizer_packet payload pid cc cnt) = pid"
    and "ltntstools_continuity_counter (ts_packetizer_packet payload pid cc cnt) = cc AND 0x0f"
    and "ltntstools_payload_unit_start_indicator (ts_packetizer_packet payload pid cc cnt) \<longleftrightarrow> cnt = 0"
    and "\<not> ltntstools_has_adaption (ts_packetizer_packet payload pid cc cnt)"
proof -
  let ?p = "ts_packetizer_packet payload pid cc cnt" and ?b = "ucast (drop_bit 8 (pid AND 0x1fff)) :: u8"
  have n: "?p ! 0 = 0x47" "?p ! 1 = (if cnt = 0 then ?b OR 0x40 else ?b)" "?p ! 2 = ucast pid"
      "?p ! 3 = 0x10 OR (cc AND 0x0f)"
    unfolding pid_and_mask [OF assms] by (simp_all add: ts_packetizer_packet_def Let_def)
  have "ltntstools_pid ?p = pid AND 0x1fff"
    by (rule pid_of_bytes) (simp_all only: n start_indicator_bits pid_high_and if_cancel split: if_split, simp_all)
  then show "ltntstools_pid ?p = pid" by (simp only: pid_and_mask [OF assms])
  show "ltntstools_sync_present ?p" by (simp only: ltntstools_sync_present_def n)
  show "ltntstools_continuity_counter ?p = cc AND 0x0f"
    by (simp only: ltntstools_continuity_counter_def n cc_of_flags)
  show "ltntstools_payload_unit_start_indicator ?p \<longleftrightarrow> cnt = 0"
    unfolding ltntstools_payload_unit_start_indicator_def n(2)
    by (cases "cnt = 0") (simp_all only: start_indicator_bits if_True if_False pid_high_no_flag simp_thms)
  show "\<not> ltntstools_has_adaption ?p"
    by (simp only: ltntstools_has_adaption_def Let_def n cc_of_flags) simp
qed

lemma packetizer_capacity:
  assumes "byteCount \<le> 2000000000"
  shows "to_int32 (int ((byteCount div 184 + 1) * 188)) = int ((byteCount div 184 + 1) * 188)"
    and "188 * ((byteCount + 183) div 184) \<le> (byteCount div 184 + 1) * 188 * 188"
proof -
  have "byteCount div 184 \<le> 2000000000 div 184" using assms by (rule div_le_mono)
  then have "byteCount div 184 \<le> 10869565" by simp
  then show "to_int32 (int ((byteCount div 184 + 1) * 188)) = int ((byteCount div 184 + 1) * 188)"
    by (intro to_int32_id) simp_all
  have "(byteCount + 183) div 184 \<le> (byteCount + 184) div 184" by (rule div_le_mono) simp
  then have "(byteCount + 183) div 184 \<le> byteCount div 184 + 1" by simp
  then show "188 * ((byteCount + 183) div 184) \<le> (byteCount div 184 + 1) * 188 * 188" by simp
qed

lemma ts_packetizer_result:
  assumes "0 < byteCount" and "byteCount \<le> length buf" and "byteCount \<le> 2000000000"
    and "pid \<le> 0x1fff" and "\<And>n. alloc n"
  shows "\<exists>pkts ps n. ltntstools_ts_packetizer alloc (Some buf) byteCount True 188 (Some cc) pid
        = Some (Some (pkts, n, cc + of_nat n))
      \<and> n = (byteCount + 183) div 184 \<and> length ps = n \<and> take (188 * n) pkts = concat ps
      \<and> take byteCount (concat (map (drop 4) ps)) = take byteCount buf
      \<and> (\<forall>k<n. length (ps ! k) = 188 \<and> ltntstools_sync_present (ps ! k)
            \<and> ltntstools_pid (ps ! k) = pid \<and> \<not> ltntstools_has_adaption (ps ! k)
            \<and> ltntstools_continuity_counter (ps ! k) = (cc + of_nat k) AND 0x0f
            \<and> (ltntstools_payload_unit_start_indicator (ps ! k) \<longleftrightarrow> k = 0))"
proof -
  define n where "n = (byteCount + 183) div 184"
  let ?cap = "(byteCount div 184 + 1) * 188 * 188"
  define ps where "ps = map (packetizer_packet buf byteCount pid cc) [0..<n]"
  note c = packetizer_capacity [OF assms(3)]
  have "188 * n \<le> length (replicate ?cap (0 :: u8))"
    using c(2) by (simp only: n_def length_replicate)
  from ts_packetizer_loop_eq [OF assms(2) _ n_def _ this, of 0 0 pid cc]
  obtain pkts where pkts: "ts_packetizer_loop buf byteCount pid (replicate ?cap 0) 0 0 cc = Some (pkts, n, cc + of_nat n)"
    "take (188 * n) pkts = concat ps"
    by (auto simp: ps_def)
  have nn: "nat (int ((byteCount div 184 + 1) * 188)) * 188 = ?cap" by (simp only: nat_int)
  have pos: "\<not> int ((byteCount div 184 + 1) * 188) < 0" by simp
  have "ltntstools_ts_packetizer alloc (Some buf) byteCount True 188 (Some cc) pid
        = Some (Some (pkts, n, cc + of_nat n))"
    using assms(1,4,5) pkts(1)
    unfolding ltntstools_ts_packetizer_def Let_def prod.case option.case
    by (simp add: c(1) [simplified] nn [simplified] not_less)
  moreover have "take byteCount (concat (map (drop 4) ps)) = take byteCount buf"
    using packetizer_payloads [OF assms(2) n_def, of pid cc] assms(2) by (simp add: ps_def o_def)
  moreover have "length (packetizer_packet buf byteCount pid cc k) = 188" for k
    by (simp add: packetizer_packet_def packetizer_payload_def)
  ultimately show ?thesis
    using pkts(2) n_def ts_packetizer_packet_fields [OF assms(4)]
    by (intro exI [of _ pkts] exI [of _ ps] exI [of _ n]) (simp add: ps_def packetizer_packet_def)
qed

text \<open>
  C20: the minimal packetizer. For every buffer of up to two billion bytes it stays inside the
  array it allocates and returns the least number of packets that hold the bytes: each has
  the sync byte, the pid, the next continuity counter and no adaptation field, only the
  first has the start indicator, and the payloads put together start with the input.
\<close>

theorem ts_packetizer_reassembles:
  assumes "0 < byteCount" and "byteCount \<le> length buf" and "byteCount \<le> 2000000000"
    and "pid \<le> 0x1fff" and "\<And>n. alloc n"
  shows "\<exists>pkts ps n. ltntstools_ts_packetizer alloc (Some buf) byteCount True 188 (Some cc) pid
        = Some (Some (pkts, n, cc + of_nat n))
      \<and> n = (byteCount + 183) div 184 \<and> length ps = n \<and> take (188 * n) pkts = concat ps
      \<and> take byteCount (concat (map (drop 4) ps)) = take byteCount buf
      \<and> (\<forall>k<n. length (ps ! k) = 188 \<and> ltntstools_sync_present (ps ! k)
            \<and> ltntstools_pid (ps ! k) = pid \<and> \<not> ltntstools_has_adaption (ps ! k)
            \<and> ltntstools_continuity_counter (ps ! k) = (cc + of_nat k) AND 0x0f
            \<and> (ltntstools_payload_unit_start_indicator (ps ! k) \<longleftrightarrow> k = 0))"
  using ts_packetizer_result [of byteCount buf pid alloc, OF assms] .

theorem ts_packetizer_reassembles_witness:
  "\<exists>pkts ps. ltntstools_ts_packetizer (\<lambda>_. True) (Some (replicate 200 7)) 200 True 188 (Some 15) 0x31
      = Some (Some (pkts, 2, 17)) \<and> take 376 pkts = concat ps
      \<and> take 200 (concat (map (drop 4) ps)) = replicate 200 7"
  using ts_packetizer_reassembles [of 200 "replicate 200 7" "0x31" "\<lambda>_. True" 15] by auto

subsection \<open>The packets of the packetizer with a PCR\<close>

lemma replicate_update: "(replicate m x)[k := x] = replicate m x"
  by (cases "k < m") (simp_all add: list_update_same_conv list_update_beyond)

lemma stuff_ff: 
  assumes "length h \<le> a"
  shows "stuff (h @ replicate m 0xff) a b = h @ replicate m 0xff"
  using assms by (induction b) (simp_all add: list_update_append replicate_update)

lemma replicate_188_12:
  "replicate 188 x = [x, x, x, x, x, x, x, x, x, x, x, x] @ replicate 176 x"
  using replicate_add [of 6 182 x] replicate_add [of 6 176 x] by (simp add: replicate_6)

lemma replicate_tail:
  "replicate 184 x = x # x # x # x # x # x # x # x # replicate 176 x"
  "replicate 183 x = x # x # x # x # x # x # x # replicate 176 x"
  "replicate 182 x = x # x # x # x # x # x # replicate 176 x"
  using replicate_add [of 8 176 x] replicate_add [of 6 176 x] replicate_Suc [of 182 x]
  by (simp_all add: replicate_6 replicate_8)

lemma length_with_pcr_field [simp]: "length (with_pcr_field pcr) = 6"
  by (simp add: with_pcr_field_def Let_def)

definition pcr_hdr4 :: "u16 \<Rightarrow> nat \<Rightarrow> u8 \<Rightarrow> u8 \<Rightarrow> bytes" where
  "pcr_hdr4 pid cnt cc afc =
     [0x47, (if cnt = 0 then ucast (drop_bit 8 pid AND 0x1f) OR 0x40 else ucast (drop_bit 8 pid AND 0x1f)),
      ucast (pid AND 0xff), (cc AND 0x0f) OR afc]"

definition pcr_flags :: "int \<Rightarrow> bool \<Rightarrow> bool \<Rightarrow> u8" where
  "pcr_flags pcr rai espi = 
    (let f = (if pcr \<noteq> -1 then 0x00 OR 0x10 else 0x00);
      f = (if rai then f OR 0x40 else f) in if espi then f OR 0x20 else f)"

lemma with_pcr_header_pcr:
  assumes "pcr \<noteq> -1"
  shows "with_pcr_header pid pcr rai espi rem 0 cc =
    (let afl = (if rem \<ge> 176 then 7 else 183 - rem)
     in (pcr_hdr4 pid 0 cc 0x30 @ [of_nat afl, pcr_flags pcr rai espi] @ with_pcr_field pcr @ replicate 176 0xff,
         min rem 176, afl + 5))"
proof -
  have s: "stuff (a0 # a1 # a2 # a3 # a4 # a5 # a6 # a7 # a8 # a9 # a10 # a11 # replicate 176 0xff) 12 b = 
     a0 # a1 # a2 # a3 # a4 # a5 # a6 # a7 # a8 # a9 # a10 # a11 # replicate 176 0xff" 
      for a0 a1 a2 a3 a4 a5 a6 a7 a8 a9 a10 a11 b
    using stuff_ff [of "[a0, a1, a2, a3, a4, a5, a6, a7, a8, a9, a10, a11]" 12] by simp
  have b: "blit (a0 # a1 # a2 # a3 # a4 # a5 # a6 # a7 # a8 # a9 # a10 # a11 # zs) 6 (with_pcr_field pcr) =
     a0 # a1 # a2 # a3 # a4 # a5 # with_pcr_field pcr @ zs" 
      for a0 a1 a2 a3 a4 a5 a6 a7 a8 a9 a10 a11 zs
    by (simp add: blit_def)
  show ?thesis
    using assms
    by (cases "rem \<ge> 176") (simp_all add: with_pcr_header_def replicate_188_12 s b pcr_hdr4_def pcr_flags_def)
qed

lemma with_pcr_header_flags:
  assumes "rai \<or> espi"
  shows "with_pcr_header pid (-1) rai espi rem 0 cc =
    (let afl = (if rem \<ge> 182 then 1 else 183 - rem)
     in (pcr_hdr4 pid 0 cc 0x30 @ [of_nat afl, pcr_flags (-1) rai espi] @ replicate 182 0xff,
         min rem 182, afl + 5))"
proof -
  have s: "stuff (a0 # a1 # a2 # a3 # a4 # a5 # replicate 182 0xff) 6 b = 
     a0 # a1 # a2 # a3 # a4 # a5 # replicate 182 0xff" 
      for a0 a1 a2 a3 a4 a5 b
    using stuff_ff [of "[a0, a1, a2, a3, a4, a5]" 6] by simp
  show ?thesis
    using assms
    by (cases "rem \<ge> 182") (auto simp add: with_pcr_header_def replicate_188_12 s [unfolded replicate_tail] replicate_tail pcr_hdr4_def pcr_flags_def)
qed

lemma with_pcr_header_plain:
  assumes "cnt \<noteq> 0 \<or> pcr = -1 \<and> \<not> rai \<and> \<not> espi"
  shows "with_pcr_header pid pcr rai espi rem cnt cc =
    (if rem \<ge> 184 then (pcr_hdr4 pid cnt cc 0x10 @ replicate 184 0xff, 184, 4)
     else if rem = 183 then (pcr_hdr4 pid cnt cc 0x30 @ [0] @ replicate 183 0xff, 183, 5)
     else (pcr_hdr4 pid cnt cc 0x30 @ [of_nat (183 - rem), 0] @ replicate 182 0xff,
         rem, 188 - rem))"
proof -
  have s: "stuff (a0 # a1 # a2 # a3 # a4 # a5 # replicate 182 0xff) 6 b = 
     a0 # a1 # a2 # a3 # a4 # a5 # replicate 182 0xff" 
      for a0 a1 a2 a3 a4 a5 b
    using stuff_ff [of "[a0, a1, a2, a3, a4, a5]" 6] by simp
  consider "rem \<ge> 184" | "rem = 183" | "rem < 183" by linarith
  then show ?thesis
    using assms
    by cases (auto simp add: with_pcr_header_def replicate_188_12 s [unfolded replicate_tail] replicate_tail pcr_hdr4_def)
qed

text \<open>The payload of a packet as ISO 13818-1 places it: behind the adaptation field, if any.\<close>

definition ts_payload :: "bytes \<Rightarrow> bytes" where
  "ts_payload pkt =
     (if ltntstools_has_adaption pkt then drop (5 + unat (ltntstools_adaption_field_length pkt)) pkt
      else drop 4 pkt)"

lemma afc_of_flags:
  "drop_bit 4 ((cc AND 0x0f) OR 0x10) AND 0x03 = (1 :: u8)"
  "drop_bit 4 ((cc AND 0x0f) OR 0x30) AND 0x03 = (3 :: u8)"
  "((cc AND 0x0f) OR 0x10) AND 0x0f = (cc AND 0x0f :: u8)"
  "((cc AND 0x0f) OR 0x30) AND 0x0f = (cc AND 0x0f :: u8)"
  using cc_of_flags(1,3,5,7) [of cc] by (simp_all only: or.commute)

lemma pcr_hdr4_fields:
  assumes "pid \<le> 0x1fff" and "afc = 0x10 \<or> afc = 0x30"
    and p_def: "p = pcr_hdr4 pid cnt cc afc @ rest"
  shows "ltntstools_sync_present p" and "ltntstools_pid p = pid"
    and "ltntstools_continuity_counter p = cc AND 0x0f"
    and "ltntstools_payload_unit_start_indicator p \<longleftrightarrow> cnt = 0"
    and "ltntstools_has_adaption p \<longleftrightarrow> afc = 0x30"
    and "afc = 0x30 \<Longrightarrow> ltntstools_adaption_field_control p = 3"
    and "ltntstools_adaption_field_control p \<noteq> 2"
proof -
  let ?b = "ucast (drop_bit 8 (pid AND 0x1fff)) :: u8"
  have b: "ucast (drop_bit 8 pid AND 0x1f) = ?b"
    by simp
  have u: "ucast (pid AND 0xff) = (ucast pid :: u8)"
  proof -
    have m: "(0xff :: u16) = mask 8" by (simp add: mask_eq_exp_minus_1)
    show ?thesis by (rule bit_word_eqI) (auto simp: m bit_simps)
  qed
  have n: "p ! 0 = 0x47" "p ! 1 = (if cnt = 0 then ?b OR 0x40 else ?b)" "p ! 2 = ucast pid"
      "p ! 3 = (cc AND 0x0f) OR afc"
    unfolding p_def pcr_hdr4_def u b by simp_all
  have "ltntstools_pid p = pid AND 0x1fff"
    by (rule pid_of_bytes) (simp_all only: n start_indicator_bits pid_high_and if_cancel split: if_split, simp_all)
  then show "ltntstools_pid p = pid" by (simp only: pid_and_mask [OF assms(1)])
  show "ltntstools_sync_present p" by (simp only: ltntstools_sync_present_def n)
  show "ltntstools_continuity_counter p = cc AND 0x0f"
    using assms(2) by (elim disjE) (simp_all only: ltntstools_continuity_counter_def n afc_of_flags)
  show "ltntstools_payload_unit_start_indicator p \<longleftrightarrow> cnt = 0"
    unfolding ltntstools_payload_unit_start_indicator_def n(2)
    by (cases "cnt = 0") (simp_all only: start_indicator_bits if_True if_False pid_high_no_flag simp_thms)
  show "ltntstools_has_adaption p \<longleftrightarrow> afc = 0x30"
    using assms(2) by (elim disjE) (simp_all only: ltntstools_has_adaption_def Let_def n afc_of_flags, simp_all)
  show "afc = 0x30 \<Longrightarrow> ltntstools_adaption_field_control p = 3"
    by (simp only: ltntstools_adaption_field_control_def n afc_of_flags)
  show "ltntstools_adaption_field_control p \<noteq> 2"
    using assms(2) by (elim disjE) (simp_all only: ltntstools_adaption_field_control_def n afc_of_flags, simp_all)
qed

lemma ucast_and_ff: "ucast (x AND 0xff) = (ucast (x :: u64) :: u8)"
proof -
  have m: "(0xff :: u64) = mask 8" by (simp add: mask_eq_exp_minus_1)
  show ?thesis by (rule bit_word_eqI) (auto simp: m bit_simps)
qed

lemma pcr_byte4_alt:
  "ucast (push_bit 7 (base AND 0x1) OR 0x7e OR (drop_bit 8 ext AND 0x01)) = pcr_byte4 base ext"
proof (rule bit_word_eqI)
  fix n assume "n < LENGTH(8)"
  then consider "n = 0" | "n = 1" | "n = 2" | "n = 3" | "n = 4" | "n = 5" | "n = 6" | "n = 7" by force
  then show "bit (ucast (push_bit 7 (base AND 0x1) OR 0x7e OR (drop_bit 8 ext AND 0x01)) :: u8) n
    = bit (pcr_byte4 base ext) n"
    by cases (simp_all add: pcr_byte4_def bit_simps)
qed

lemma word_of_int_div_mod:
  assumes "0 \<le> pcr" and "pcr < 2 ^ 63"
  shows "word_of_int (pcr div 300) = (word_of_int pcr :: u64) div 300"
    and "word_of_int (pcr mod 300) = (word_of_int pcr :: u64) mod 300"
proof -
  have "uint (word_of_int pcr :: u64) = pcr"
    using assms by (simp add: unsigned_of_int take_bit_int_eq_self)
  then show "word_of_int (pcr div 300) = (word_of_int pcr :: u64) div 300"
    and "word_of_int (pcr mod 300) = (word_of_int pcr :: u64) mod 300"
    by (simp_all add: word_div_def word_mod_def)
qed

lemma with_pcr_field_eq:
  assumes "0 \<le> pcr" and "pcr < 2 ^ 63"
  shows "with_pcr_field pcr = pcr_bytes (word_of_int pcr)"
  using assms
  by (simp only: with_pcr_field_def pcr_bytes_def Let_def ucast_and_ff pcr_byte4_alt c_div_pos c_mod_pos
      word_of_int_div_mod zero_less_numeral)


lemma blit_tail:
  assumes "off \<le> length p" and "off + length d = length p"
  shows "wr p off d = Some (take off p @ d)"
  using assms by (simp add: blit_def)

text \<open>
  The shape of every packet: four header bytes, an adaptation field \<open>af\<close> cut at the payload
  offset, then the payload. The adaptation field is absent, or its first byte says where
  the payload begins.
\<close>

definition af_shape :: "u8 \<Rightarrow> bytes \<Rightarrow> nat \<Rightarrow> bool" where
  "af_shape afc af off \<longleftrightarrow> length af = 184 \<and> off \<le> 188 \<and>
     (afc = 0x10 \<and> off = 4 \<or> afc = 0x30 \<and> off = 5 + unat (af ! 0))"

lemma length_pcr_hdr4 [simp]: "length (pcr_hdr4 pid cnt cc afc) = 4"
  by (simp add: pcr_hdr4_def)

lemma assembled_payload:
  assumes "af_shape afc af off" and "pid \<le> 0x1fff"
  shows "ts_payload (pcr_hdr4 pid cnt cc afc @ take (off - 4) af @ d) = d" (is "ts_payload ?p = d")
proof (cases "afc = 0x30")
  case True
  then have o: "off = 5 + unat (af ! 0)" and l: "length af = 184" "off \<le> 188"
    using assms(1) by (auto simp: af_shape_def)
  have "?p ! 4 = af ! 0" using o l by (simp add: nth_append)
  moreover have "drop off ?p = d" using o l by simp
  ultimately show ?thesis
    using o True pcr_hdr4_fields(5) [OF assms(2) _ refl, of afc]
    by (simp add: ts_payload_def ltntstools_adaption_field_length_def)
next
  case False
  then have "afc = 0x10" "off = 4" using assms(1) by (auto simp: af_shape_def)
  then show ?thesis
    using pcr_hdr4_fields(5) [OF assms(2) _ refl, of afc] by (simp add: ts_payload_def)
qed

lemma assembled_scr:
  assumes "af_shape 0x30 af off" and "pid \<le> 0x1fff" and "12 \<le> off"
    and "af ! 1 AND 0x10 \<noteq> 0" and "take 6 (drop 2 af) = with_pcr_field pcr"
  shows "ltntstools_scr (pcr_hdr4 pid cnt cc 0x30 @ take (off - 4) af @ d) =
    Some (Some (ltntstools_pcrToScr (with_pcr_field pcr)))" (is "ltntstools_scr ?p = _")
proof -
  have l: "length af = 184" "off \<le> 188" "af ! 0 \<noteq> 0"
    using assms(1,3) by (auto simp: af_shape_def)
  have "Suc 0 < off - 4" using assms(3) by simp
  then have n: "?p ! 0 = 0x47" "?p ! 4 = af ! 0" "?p ! 5 = af ! 1"
    using l assms(3) by (simp_all add: nth_append, simp add: pcr_hdr4_def)
  have "drop 6 ?p = take (off - 6) (drop 2 af) @ d"
    using l assms(3) by (simp add: drop_take)
  also have "take (off - 6) (drop 2 af) = take 6 (take (off - 6) (drop 2 af)) @ drop 6 (take (off - 6) (drop 2 af))"
    by (rule append_take_drop_id [symmetric])
  also have "take 6 (take (off - 6) (drop 2 af)) = with_pcr_field pcr"
    using le_diff_conv2 [of 6 off 6] assms(3,5) by simp
  finally have d6: "drop 6 ?p = with_pcr_field pcr @ drop 6 (take (off - 6) (drop 2 af)) @ d"
    by simp
  have "ltntstools_scr ?p = Some (Some (ltntstools_pcrToScr (drop 6 ?p)))"
    using n l assms(3,4) pcr_hdr4_fields(6) [OF assms(2) _ refl refl]
    by (intro scr_of_pcr_header) simp_all
  moreover have "ltntstools_pcrToScr (with_pcr_field pcr @ r) = ltntstools_pcrToScr (with_pcr_field pcr)" for r
    by (simp add: ltntstools_pcrToScr_def nth_append)
  ultimately show ?thesis by (simp only: d6)
qed

text \<open>The header block always has that shape, and leaves room for at least one byte.\<close>

lemma with_pcr_header_shape:
  assumes "0 < rem"
  shows "\<exists>afc af cpy off. with_pcr_header pid pcr rai espi rem cnt cc = (pcr_hdr4 pid cnt cc afc @ af, cpy, off)
    \<and> af_shape afc af off \<and> off + cpy = 188 \<and> 0 < cpy \<and> cpy \<le> rem \<and> (176 \<le> cpy \<or> cpy = rem)
    \<and> (cnt = 0 \<and> pcr \<noteq> -1 \<longrightarrow> afc = 0x30 \<and> 12 \<le> off \<and> af ! 1 AND 0x10 \<noteq> 0
          \<and> take 6 (drop 2 af) = with_pcr_field pcr)"
proof -
  have u: "unat (of_nat n :: u8) = n" if "n < 256" for n
    using that by (simp add: unat_of_nat)
  have fl: "pcr_flags pcr rai espi AND 0x10 \<noteq> 0" if "pcr \<noteq> -1"
    using that by (simp add: pcr_flags_def bit.conj_disj_distrib2)
  consider (pcr) "cnt = 0" "pcr \<noteq> -1" | (flags) "cnt = 0" "pcr = -1" "rai \<or> espi"
    | (plain) "cnt \<noteq> 0 \<or> pcr = -1 \<and> \<not> rai \<and> \<not> espi" by blast
  then show ?thesis
  proof cases
    case pcr
    then show ?thesis
      using assms fl u [of "183 - rem"]
      by (cases "176 \<le> rem") (auto simp: with_pcr_header_pcr af_shape_def intro!: exI [of _ "0x30"])
  next
    case flags
    then show ?thesis
      using assms u [of "183 - rem"]
      by (cases "182 \<le> rem") (auto simp: with_pcr_header_flags af_shape_def intro!: exI [of _ "0x30"])
  next
    case plain
    consider "184 \<le> rem" | "rem = 183" | "rem < 183" by linarith
    then show ?thesis
      using plain assms u [of "183 - rem"]
      by cases (auto simp: with_pcr_header_plain [OF plain] af_shape_def)
  qed
qed

text \<open>What one iteration produces.\<close>

lemma with_pcr_packet_ok:
  assumes "pos < byteCount" and "byteCount \<le> length buf" and "pid \<le> 0x1fff"
  shows "\<exists>p cpy. with_pcr_packet buf byteCount pid pcr rai espi pos cnt cc = Some (p, cpy)
    \<and> 0 < cpy \<and> cpy \<le> byteCount - pos \<and> (176 \<le> cpy \<or> cpy = byteCount - pos)
    \<and> length p = 188 \<and> ts_payload p = take cpy (drop pos buf)
    \<and> ltntstools_sync_present p \<and> ltntstools_pid p = pid
    \<and> ltntstools_continuity_counter p = cc AND 0x0f
    \<and> (ltntstools_payload_unit_start_indicator p \<longleftrightarrow> cnt = 0) \<and> ltntstools_adaption_field_control p \<noteq> 2
    \<and> (cnt = 0 \<and> pcr \<noteq> -1 \<longrightarrow> ltntstools_scr p = Some (Some (ltntstools_pcrToScr (with_pcr_field pcr))))"
proof -
  define rem where "rem = byteCount - pos"
  have rem: "0 < rem" "pos + rem \<le> length buf" using assms by (auto simp: rem_def)
  obtain afc af cpy off where
    h: "with_pcr_header pid pcr rai espi rem cnt cc = (pcr_hdr4 pid cnt cc afc @ af, cpy, off)"
    and a: "af_shape afc af off" and l: "off + cpy = 188" "0 < cpy" "cpy \<le> rem" "176 \<le> cpy \<or> cpy = rem"
    and s: "cnt = 0 \<and> pcr \<noteq> -1 \<longrightarrow> afc = 0x30 \<and> 12 \<le> off \<and> af ! 1 AND 0x10 \<noteq> 0
          \<and> take 6 (drop 2 af) = with_pcr_field pcr"
    using with_pcr_header_shape [OF rem(1), of pid pcr rai espi cnt cc] by blast
  let ?d = "take cpy (drop pos buf)"
  let ?p = "pcr_hdr4 pid cnt cc afc @ take (off - 4) af @ ?d"
  have a': "length af = 184" "4 \<le> off" "afc = 0x10 \<or> afc = 0x30"
    using a by (auto simp: af_shape_def)
  have d: "length ?d = cpy" "rdn buf pos cpy = Some ?d" using rem l by simp_all
  have "wr (pcr_hdr4 pid cnt cc afc @ af) off ?d = Some ?p"
    using blit_tail [of off "pcr_hdr4 pid cnt cc afc @ af" ?d] a' l d by simp
  then have W: "with_pcr_packet buf byteCount pid pcr rai espi pos cnt cc = Some (?p, cpy)"
    using h d by (simp add: with_pcr_packet_def rem_def [symmetric])
  have len: "length ?p = 188" using a' l d by simp
  have scr: "ltntstools_scr ?p = Some (Some (ltntstools_pcrToScr (with_pcr_field pcr)))"
    if c: "cnt = 0 \<and> pcr \<noteq> -1"
  proof -
    note s' = s [rule_format, OF c]
    show ?thesis using assembled_scr [of af off pid pcr cnt cc ?d] a assms(3) s' by simp
  qed
  show ?thesis
    using W len l scr assembled_payload [OF a assms(3)]
      pcr_hdr4_fields [OF assms(3) a'(3) refl, of cnt cc "take (off - 4) af @ ?d"]
    by (intro exI [of _ ?p] exI [of _ cpy]) (simp add: rem_def)
qed

text \<open>The packets of a run, as the loop leaves them in the array.\<close>

definition pcr_run :: "bytes \<Rightarrow> u16 \<Rightarrow> int \<Rightarrow> nat \<Rightarrow> u8 \<Rightarrow> bytes list \<Rightarrow> bool" where
  "pcr_run data pid pcr cnt cc ps \<longleftrightarrow>
     concat (map ts_payload ps) = data \<and>
     (\<forall>k<length ps. length (ps ! k) = 188 \<and> ltntstools_sync_present (ps ! k)
        \<and> ltntstools_pid (ps ! k) = pid
        \<and> ltntstools_continuity_counter (ps ! k) = (cc + of_nat k) AND 0x0f
        \<and> (ltntstools_payload_unit_start_indicator (ps ! k) \<longleftrightarrow> cnt + k = 0)
        \<and> ltntstools_adaption_field_control (ps ! k) \<noteq> 2 \<and> ts_payload (ps ! k) \<noteq> []
        \<and> (cnt + k = 0 \<and> pcr \<noteq> -1 \<longrightarrow>
             ltntstools_scr (ps ! k) = Some (Some (ltntstools_pcrToScr (with_pcr_field pcr)))))"

lemma and_0f_add: "((cc + 1) AND 0x0f) + k AND 0x0f = cc + 1 + k AND (0x0f :: u8)"
proof -
  have m: "(0x0f :: u8) = mask 4" by (simp add: mask_eq_exp_minus_1)
  show ?thesis
    unfolding m take_bit_eq_mask [symmetric] word_unat_eq_iff
    by (simp add: unsigned_take_bit_eq unat_word_ariths take_bit_eq_mod mod_simps mod_mod_cancel)
qed


lemma pcr_run_Cons:
  assumes "pcr_run data' pid pcr (Suc cnt) ((cc + 1) AND 0x0f) ps"
    and "length p = 188" and "ts_payload p @ data' = data"
    and "ltntstools_sync_present p" and "ltntstools_pid p = pid"
    and "ltntstools_continuity_counter p = cc AND 0x0f"
    and "ltntstools_payload_unit_start_indicator p \<longleftrightarrow> cnt = 0"
    and "ltntstools_adaption_field_control p \<noteq> 2 \<and> ts_payload p \<noteq> []"
    and "cnt = 0 \<and> pcr \<noteq> -1 \<longrightarrow> ltntstools_scr p = Some (Some (ltntstools_pcrToScr (with_pcr_field pcr)))"
  shows "pcr_run data pid pcr cnt cc (p # ps)"
  using assms unfolding pcr_run_def
  by (auto simp: nth_Cons and_0f_add add.assoc split: nat.splits)

lemma packets_left:
  assumes "0 < c" and "c \<le> d" and "176 \<le> c \<or> c = d"
  shows "Suc ((d - c + 175) div 176) \<le> (d + 175) div (176 :: nat)"
proof (cases "176 \<le> c")
  case True
  then have "176 + (d - c + 175) \<le> d + 175" using assms(2) by simp
  then have "(176 + (d - c + 175)) div 176 \<le> (d + 175) div 176" by (rule div_le_mono)
  then show ?thesis by simp
next
  case False
  then have "176 \<le> d + 175" "d = c" using assms by auto
  then have "176 div 176 \<le> (d + 175) div 176" by (intro div_le_mono)
  then show ?thesis using \<open>d = c\<close> by simp
qed

lemma with_pcr_loop_ok:
  assumes "byteCount \<le> length buf" and "pid \<le> 0x1fff"
    and "188 * (cnt + (byteCount - pos + 175) div 176) \<le> length arr" and "pos \<le> byteCount"
    and "length arr \<le> 2 ^ 32"
  shows "\<exists>arr' ps cc'. with_pcr_loop buf byteCount pid pcr rai espi arr pos cnt cc = Some (arr', cnt + length ps, cc')
    \<and> cc' AND 0x0f = (cc + of_nat (length ps)) AND 0x0f
    \<and> length arr' = length arr \<and> take (188 * (cnt + length ps)) arr' = take (188 * cnt) arr @ concat ps
    \<and> pcr_run (take (byteCount - pos) (drop pos buf)) pid pcr cnt cc ps"
  using assms
proof (induction "byteCount - pos" arbitrary: pos cnt cc arr rule: less_induct)
  case less
  show ?case
  proof (cases "pos < byteCount")
    case True
    obtain p cpy where p: "with_pcr_packet buf byteCount pid pcr rai espi pos cnt cc = Some (p, cpy)"
      and c: "0 < cpy" "cpy \<le> byteCount - pos" "176 \<le> cpy \<or> cpy = byteCount - pos"
      and f: "length p = 188" "ts_payload p = take cpy (drop pos buf)"
        "ltntstools_sync_present p" "ltntstools_pid p = pid"
        "ltntstools_continuity_counter p = cc AND 0x0f"
        "ltntstools_payload_unit_start_indicator p \<longleftrightarrow> cnt = 0"
        and af: "ltntstools_adaption_field_control p \<noteq> 2"
        and fp: "cnt = 0 \<and> pcr \<noteq> -1 \<longrightarrow> ltntstools_scr p = Some (Some (ltntstools_pcrToScr (with_pcr_field pcr)))"
      using with_pcr_packet_ok [OF True less.prems(1,2), of pcr rai espi cnt cc]
      by (elim exE conjE) (rule that)
    define a where "a = (byteCount - pos + 175) div 176"
    define b where "b = (byteCount - (pos + cpy) + 175) div 176"
    have "Suc b \<le> a"
      using packets_left [OF c] by (simp only: a_def b_def diff_diff_left)
    moreover have "188 * (cnt + a) \<le> length arr"
      using less.prems(3) by (simp only: a_def)
    ultimately have cap: "188 * (Suc cnt + b) \<le> length arr" and room: "188 * Suc cnt \<le> length arr"
      by simp_all
    note cap' = cap [unfolded b_def]
    let ?arr = "blit arr (cnt * 188) p"
    have la: "length ?arr = length arr" using f(1) room by simp
    have m: "byteCount - (pos + cpy) < byteCount - pos" "pos + cpy \<le> byteCount" using c True by auto
    note ih0 = less.hyps [OF m(1) less.prems(1,2) _ m(2), of "Suc cnt" ?arr "(cc + 1) AND 0x0f", unfolded la, OF cap' less.prems(5)]
    obtain arr' ps cc' where
      ih: "with_pcr_loop buf byteCount pid pcr rai espi ?arr (pos + cpy) (Suc cnt) ((cc + 1) AND 0x0f)
          = Some (arr', Suc cnt + length ps, cc')"
        "cc' AND 0x0f = (((cc + 1) AND 0x0f) + of_nat (length ps)) AND 0x0f"
        "length arr' = length arr" "take (188 * (Suc cnt + length ps)) arr' = take (188 * Suc cnt) ?arr @ concat ps"
        "pcr_run (take (byteCount - (pos + cpy)) (drop (pos + cpy) buf)) pid pcr (Suc cnt) ((cc + 1) AND 0x0f) ps"
      using ih0 by (elim exE conjE) (rule that)
    have st: "with_pcr_loop buf byteCount pid pcr rai espi arr pos cnt cc = Some (arr', cnt + length (p # ps), cc')"
    proof -
      have "cnt * 188 mod 2 ^ 32 = cnt * 188" using room less.prems(5) by (intro mod_less) simp
      then have "wr arr (cnt * 188 mod 2 ^ 32) p = Some ?arr" using f(1) room by (simp only: wr_ok) simp
      then show ?thesis
        using True p c(1) ih(1) by (subst with_pcr_loop.simps) simp
    qed
    have "take (cpy + (byteCount - (pos + cpy))) (drop pos buf) =
        take cpy (drop pos buf) @ take (byteCount - (pos + cpy)) (drop cpy (drop pos buf))"
      by (rule take_add)
    then have "ts_payload p @ take (byteCount - (pos + cpy)) (drop (pos + cpy) buf) = take (byteCount - pos) (drop pos buf)"
      using m(2) by (simp add: f(2) add.commute)
    moreover have "ts_payload p \<noteq> []" using f(2) c True less.prems(1) by auto
    ultimately have "pcr_run (take (byteCount - pos) (drop pos buf)) pid pcr cnt cc (p # ps)"
      using pcr_run_Cons [OF ih(5) f(1) _ f(3-6) _ fp] af by blast
    moreover have "take (188 * (cnt + length (p # ps))) arr' = take (188 * cnt) arr @ concat (p # ps)"
      using ih(4) take_blit_packet [OF f(1) room] by simp
    moreover have "cc' AND 0x0f = (cc + of_nat (length (p # ps))) AND 0x0f"
      using ih(2) by (simp add: and_0f_add add.assoc)
    ultimately show ?thesis using st ih(3) by (intro exI conjI)
  next
    case False
    then show ?thesis
      using less.prems(4) by (subst with_pcr_loop.simps) (simp add: pcr_run_def)
  qed
qed

lemma with_pcr_field_decodes:
  assumes "0 \<le> pcr" and "pcr < 300 * 2 ^ 33"
  shows "ltntstools_pcrToScr (with_pcr_field pcr) = word_of_int pcr"
proof -
  have "unat (word_of_int pcr :: u64) < 300 * 2 ^ 33"
    using assms by (simp add: unsigned_of_int take_bit_int_eq_self nat_less_iff)
  then show ?thesis
    using pcrToScr_pcr_bytes_id [of "word_of_int pcr" "[]"] assms by (simp add: with_pcr_field_eq)
qed

lemma ts_packetizer_with_pcr_run:
  assumes "0 < byteCount" and "byteCount \<le> length buf" and "byteCount \<le> 4020000000"
    and "pid \<le> 0x1fff" and "\<And>n. alloc n"
  shows "\<exists>pkts ps cc'. ltntstools_ts_packetizer_with_pcr alloc (Some buf) byteCount True 188 (Some cc) pid pcr rai espi
        = Some (Some (pkts, length ps, cc'))
      \<and> cc' AND 0x0f = (cc + of_nat (length ps)) AND 0x0f
      \<and> take (188 * length ps) pkts = concat ps \<and> pcr_run (take byteCount buf) pid pcr 0 cc ps"
proof -
  let ?n = "((byteCount + 175) div 176 + 2) * 188"
  have "188 * (0 + (byteCount - 0 + 175) div 176) \<le> length (replicate ?n (0 :: u8))"
    by (simp only: length_replicate) simp
  moreover have "length (replicate ?n (0 :: u8)) \<le> 2 ^ 32"
  proof -
    have "(byteCount + 175) div 176 \<le> (4020000000 + 175) div 176" using assms(3) by (intro div_le_mono) simp
    then show ?thesis by (simp only: length_replicate) simp
  qed
  ultimately have "\<exists>pkts ps cc'. with_pcr_loop buf byteCount pid pcr rai espi (replicate ?n 0) 0 0 cc = Some (pkts, length ps, cc')
      \<and> cc' AND 0x0f = (cc + of_nat (length ps)) AND 0x0f
      \<and> take (188 * length ps) pkts = concat ps \<and> pcr_run (take byteCount buf) pid pcr 0 cc ps"
    using with_pcr_loop_ok [OF assms(2,4) _ le0, of 0 "replicate ?n 0" pcr rai espi cc] by auto
  then
  obtain pkts ps cc' where r: "with_pcr_loop buf byteCount pid pcr rai espi (replicate ?n 0) 0 0 cc = Some (pkts, length ps, cc')"
      "cc' AND 0x0f = (cc + of_nat (length ps)) AND 0x0f"
      "take (188 * length ps) pkts = concat ps"
      and run: "pcr_run (take byteCount buf) pid pcr 0 cc ps"
    by blast
  have "ltntstools_ts_packetizer_with_pcr alloc (Some buf) byteCount True 188 (Some cc) pid pcr rai espi
      = Some (Some (pkts, length ps, cc'))"
    using assms(1,4,5) r(1) assms(3)
    by (simp add: ltntstools_ts_packetizer_with_pcr_def not_less mod_less)
  then show ?thesis using r(2,3) run by blast
qed

text \<open>
  C19: the packetizer with a PCR. It stays inside its array and its packets carry exactly the
  input: the payloads behind the adaptation fields, put together, are the buffer, with no
  byte lost or added. Every packet has the sync byte, the pid and the next continuity
  counter; the start indicator is on the first packet only, and when a PCR is asked for the
  first packet carries it. The buffer is at most 4,020,000,000 bytes, so that the offsets of the
  packets, which the code computes in 32 bits, do not wrap.
\<close>

theorem ts_packetizer_with_pcr_reassembles:
  assumes "0 < byteCount" and "byteCount \<le> length buf" and "byteCount \<le> 4020000000"
    and "pid \<le> 0x1fff" and "\<And>n. alloc n"
  shows "\<exists>pkts ps cc'. ltntstools_ts_packetizer_with_pcr alloc (Some buf) byteCount True 188 (Some cc) pid pcr rai espi
        = Some (Some (pkts, length ps, cc'))
      \<and> cc' AND 0x0f = (cc + of_nat (length ps)) AND 0x0f
      \<and> take (188 * length ps) pkts = concat ps \<and> concat (map ts_payload ps) = take byteCount buf
      \<and> (\<forall>k<length ps. length (ps ! k) = 188 \<and> ltntstools_sync_present (ps ! k)
            \<and> ltntstools_pid (ps ! k) = pid
            \<and> ltntstools_continuity_counter (ps ! k) = (cc + of_nat k) AND 0x0f
            \<and> (ltntstools_payload_unit_start_indicator (ps ! k) \<longleftrightarrow> k = 0))
      \<and> ps \<noteq> [] \<and> (0 \<le> pcr \<and> pcr < 300 * 2 ^ 33 \<longrightarrow> ltntstools_scr (ps ! 0) = Some (Some (word_of_int pcr)))"
proof -
  obtain pkts ps cc' where r: "ltntstools_ts_packetizer_with_pcr alloc (Some buf) byteCount True 188 (Some cc) pid pcr rai espi
        = Some (Some (pkts, length ps, cc'))" "cc' AND 0x0f = (cc + of_nat (length ps)) AND 0x0f"
      "take (188 * length ps) pkts = concat ps" and run: "pcr_run (take byteCount buf) pid pcr 0 cc ps"
    using ts_packetizer_with_pcr_run [where alloc = alloc, OF assms] by blast
  moreover have "ps \<noteq> []" using run assms(1,2) by (auto simp: pcr_run_def)
  moreover from this have "0 < length ps" by simp
  ultimately show ?thesis
    using with_pcr_field_decodes [of pcr] unfolding pcr_run_def
    by (intro exI [of _ pkts] exI [of _ ps] exI [of _ cc']) auto
qed

theorem ts_packetizer_with_pcr_reassembles_witness:
  "\<exists>pkts ps cc'. ltntstools_ts_packetizer_with_pcr (\<lambda>_. True) (Some (replicate 200 7)) 200 True 188 (Some 15) 0x31 900 True False
      = Some (Some (pkts, length ps, cc')) \<and> concat (map ts_payload ps) = replicate 200 7
      \<and> ltntstools_scr (ps ! 0) = Some (Some 900)"
  using ts_packetizer_with_pcr_reassembles [of 200 "replicate 200 7" "0x31" "\<lambda>_. True" 15 900 True False] by auto

end
