(* ===== verification/RingBuffer.thy ===== *)
theory RingBuffer
  imports TsPrelude
begin

text \<open>
  The growable byte ring of \<open>src/src/klringbuffer.c\<close>.

  The structure is a record. Its storage is a list of cells: a byte that was written, or
  \<open>None\<close> for memory that \<open>malloc\<close> or \<open>realloc\<close> returned and nothing has written yet. The
  \<open>size_t\<close> fields are \<open>nat\<close> with the wrap-around of the operations written out. The mutex is
  the flag \<open>rb_locked\<close>: taking a held lock or releasing a free one has no defined behaviour,
  as has an access outside the storage or through a \<open>NULL\<close> pointer; all are \<open>None\<close>.
  The ring is then related to the queue of bytes it holds.
\<close>

subsection \<open>State\<close>

type_synonym cell = "8 word option"

record KLRingBuffer =
  rb_data :: "cell list"
  rb_size :: nat
  rb_size_max :: nat
  rb_size_initial :: nat
  rb_head :: nat
  rb_fill :: nat
  rb_usingMutex :: bool
  rb_locked :: bool

text \<open>Arithmetic on \<open>size_t\<close>.\<close>

abbreviation SIZE_MOD :: nat where
  "SIZE_MOD \<equiv> 2 ^ 64"

definition sz_add :: "nat \<Rightarrow> nat \<Rightarrow> nat" where
  "sz_add a b = (a + b) mod SIZE_MOD"

definition sz_sub :: "nat \<Rightarrow> nat \<Rightarrow> nat" where
  "sz_sub a b = (a + SIZE_MOD - b) mod SIZE_MOD"

definition sz_mul :: "nat \<Rightarrow> nat \<Rightarrow> nat" where
  "sz_mul a b = (a * b) mod SIZE_MOD"

subsection \<open>Locking\<close>

definition RB_LOCK :: "KLRingBuffer \<Rightarrow> KLRingBuffer mem" where
  "RB_LOCK rb =
     (if rb_usingMutex rb
      then if rb_locked rb then None else Some (rb\<lparr>rb_locked := True\<rparr>)
      else Some rb)"

definition RB_UNLOCK :: "KLRingBuffer \<Rightarrow> KLRingBuffer mem" where
  "RB_UNLOCK rb =
     (if rb_usingMutex rb
      then if rb_locked rb then Some (rb\<lparr>rb_locked := False\<rparr>) else None
      else Some rb)"

subsection \<open>Operations\<close>

text \<open>The size of the structure, the request of the first \<open>malloc\<close>.\<close>

definition rb_struct_size :: nat where
  "rb_struct_size = 96"

definition rb_new :: "allocator \<Rightarrow> nat \<Rightarrow> nat \<Rightarrow> KLRingBuffer option" where
  "rb_new alloc sz sz_max =
     (if sz = 0 \<or> sz > sz_max then None
      else if \<not> alloc rb_struct_size then None
      else if \<not> alloc sz then None
      else Some \<lparr>rb_data = replicate sz None, rb_size = sz, rb_size_max = sz_max,
                 rb_size_initial = sz, rb_head = 0, rb_fill = 0,
                 rb_usingMutex = False, rb_locked = False\<rparr>)"

text \<open>The result of \<open>rb_new\<close> is used without a check: a failure dereferences \<open>NULL\<close>.\<close>

definition rb_new_threadsafe :: "allocator \<Rightarrow> nat \<Rightarrow> nat \<Rightarrow> KLRingBuffer mem" where
  "rb_new_threadsafe alloc sz sz_max =
     do { rb \<leftarrow> rb_new alloc sz sz_max; Some (rb\<lparr>rb_usingMutex := True\<rparr>) }"

definition rb_is_empty :: "KLRingBuffer \<Rightarrow> (bool \<times> KLRingBuffer) mem" where
  "rb_is_empty rb =
     do { rb \<leftarrow> RB_LOCK rb;
          let result = (rb_fill rb = 0);
          rb \<leftarrow> RB_UNLOCK rb;
          Some (result, rb) }"

definition rb_is_full :: "KLRingBuffer \<Rightarrow> (bool \<times> KLRingBuffer) mem" where
  "rb_is_full rb =
     do { rb \<leftarrow> RB_LOCK rb;
          let result = (rb_fill rb = rb_size_max rb);
          rb \<leftarrow> RB_UNLOCK rb;
          Some (result, rb) }"

definition rb_used :: "KLRingBuffer \<Rightarrow> (nat \<times> KLRingBuffer) mem" where
  "rb_used rb =
     do { rb \<leftarrow> RB_LOCK rb;
          let result = rb_fill rb;
          rb \<leftarrow> RB_UNLOCK rb;
          Some (result, rb) }"

definition rb_unused :: "KLRingBuffer \<Rightarrow> (nat \<times> KLRingBuffer) mem" where
  "rb_unused rb =
     do { rb \<leftarrow> RB_LOCK rb;
          let result = sz_sub (rb_size_max rb) (rb_fill rb);
          rb \<leftarrow> RB_UNLOCK rb;
          Some (result, rb) }"

definition rb_empty :: "KLRingBuffer \<Rightarrow> KLRingBuffer mem" where
  "rb_empty rb =
     do { rb \<leftarrow> RB_LOCK rb;
          RB_UNLOCK (rb\<lparr>rb_head := 0, rb_fill := 0\<rparr>) }"

definition rb_remain_in_seg :: "KLRingBuffer \<Rightarrow> nat" where
  "rb_remain_in_seg rb = sz_sub (rb_size rb) (rb_fill rb)"

text \<open>
  \<open>None\<close> is the code -2. The result of \<open>realloc\<close> is not checked: when it fails the storage
  pointer becomes \<open>NULL\<close>, which is the empty storage here, and the sizes change all the same.
\<close>

definition rb_realloc :: "allocator \<Rightarrow> cell list \<Rightarrow> nat \<Rightarrow> cell list" where
  "rb_realloc alloc d n =
     (if alloc n then take n d @ replicate (n - length d) None else [])"

definition rb_grow :: "allocator \<Rightarrow> KLRingBuffer \<Rightarrow> nat \<Rightarrow> KLRingBuffer option" where
  "rb_grow alloc buf increment =
     (if sz_add (rb_size buf) increment > rb_size_max buf then None
      else Some (buf\<lparr>rb_data := rb_realloc alloc (rb_data buf) (sz_add (rb_size buf) increment),
                      rb_size := sz_add (rb_size buf) increment\<rparr>))"

definition rb_shrink_reset :: "allocator \<Rightarrow> KLRingBuffer \<Rightarrow> KLRingBuffer" where
  "rb_shrink_reset alloc buf =
     buf\<lparr>rb_data := rb_realloc alloc (rb_data buf) (rb_size_initial buf),
         rb_size := rb_size_initial buf, rb_head := 0, rb_fill := 0\<rparr>"

definition advance_tail :: "KLRingBuffer \<Rightarrow> nat \<Rightarrow> KLRingBuffer" where
  "advance_tail buf bytes = buf\<lparr>rb_fill := sz_add (rb_fill buf) bytes\<rparr>"

definition advance_head :: "KLRingBuffer \<Rightarrow> nat \<Rightarrow> KLRingBuffer mem" where
  "advance_head buf bytes =
     (if rb_size buf = 0 then None
      else Some (buf\<lparr>rb_head := sz_add (rb_head buf) bytes mod rb_size buf,
                     rb_fill := sz_sub (rb_fill buf) bytes\<rparr>))"

definition rb_get_write_pos :: "KLRingBuffer \<Rightarrow> nat mem" where
  "rb_get_write_pos buf =
     (if rb_size buf = 0 then None
      else Some (sz_add (rb_head buf) (rb_fill buf) mod rb_size buf mod 2 ^ 32))"

definition rb_get_read_pos :: "KLRingBuffer \<Rightarrow> nat" where
  "rb_get_read_pos buf = rb_head buf mod 2 ^ 32"

definition rb_discard :: "KLRingBuffer \<Rightarrow> nat \<Rightarrow> KLRingBuffer mem" where
  "rb_discard rb bytes =
     do { rb \<leftarrow> RB_LOCK rb; rb \<leftarrow> advance_head rb bytes; RB_UNLOCK rb }"

text \<open>
  The copy into the storage: one \<open>memcpy\<close> when \<open>tail <= write_end\<close>, else two.
  \<open>from\<close> is the source of exactly \<open>bytes\<close> bytes.
\<close>

definition rb_copy_in :: "KLRingBuffer \<Rightarrow> bytes \<Rightarrow> KLRingBuffer mem" where
  "rb_copy_in buf from =
     (let bytes = length from;
          pos = sz_add (rb_head buf) (rb_fill buf);
          tail = pos mod rb_size buf;
          write_end = sz_add pos bytes mod rb_size buf
      in if rb_size buf = 0 then None
         else if tail \<le> write_end then
           do { d \<leftarrow> wr (rb_data buf) tail (map Some from); Some (buf\<lparr>rb_data := d\<rparr>) }
         else
           let first_write = rb_size buf - tail;
               second_write = sz_sub bytes first_write
           in do { f \<leftarrow> rdn from 0 first_write;
                   d \<leftarrow> wr (rb_data buf) tail (map Some f);
                   g \<leftarrow> rdn from first_write second_write;
                   d \<leftarrow> wr d 0 (map Some g);
                   Some (buf\<lparr>rb_data := d\<rparr>) })"

text \<open>
  \<open>didOverflow\<close> says whether the caller's pointer is non-\<open>NULL\<close>: the first statement stores
  through it. The result is the overflow flag and the ring; the return value of the C
  function is always \<open>bytes\<close>. When the ring may not grow the lock is released before the
  discard, and the write continues without it.
\<close>

definition rb_write_with_state ::
  "allocator \<Rightarrow> KLRingBuffer \<Rightarrow> bytes \<Rightarrow> bool \<Rightarrow> (bool \<times> KLRingBuffer) mem" where
  "rb_write_with_state alloc buf from didOverflow =
     (if \<not> didOverflow then None else
      do { buf \<leftarrow> RB_LOCK buf;
           (overflow, buf) \<leftarrow>
             (if length from > rb_remain_in_seg buf then
                (case rb_grow alloc buf (sz_mul (length from) 128) of
                   Some buf \<Rightarrow> Some (False, buf)
                 | None \<Rightarrow> do { buf \<leftarrow> RB_UNLOCK buf;
                                buf \<leftarrow> rb_discard buf (length from);
                                Some (True, buf) })
              else Some (False, buf));
           buf \<leftarrow> rb_copy_in buf from;
           buf \<leftarrow> RB_UNLOCK (advance_tail buf (length from));
           Some (overflow, buf) })"

definition rb_write :: "allocator \<Rightarrow> KLRingBuffer \<Rightarrow> bytes \<Rightarrow> (bool \<times> KLRingBuffer) mem" where
  "rb_write alloc buf from = rb_write_with_state alloc buf from False"

text \<open>The copy out of the storage: two \<open>memcpy\<close>s when \<open>end_read <= head\<close>, else one.\<close>

definition rb_copy_out :: "KLRingBuffer \<Rightarrow> nat \<Rightarrow> cell list mem" where
  "rb_copy_out buf bytes =
     (let head = rb_head buf;
          end_read = sz_add head bytes mod rb_size buf
      in if rb_size buf = 0 then None
         else if end_read \<le> head then
           do { a \<leftarrow> rdn (rb_data buf) head (rb_size buf - head);
                b \<leftarrow> rdn (rb_data buf) 0 (sz_sub bytes (rb_size buf - head));
                Some (a @ b) }
         else rdn (rb_data buf) head bytes)"

definition rb_reader ::
  "allocator \<Rightarrow> KLRingBuffer \<Rightarrow> nat \<Rightarrow> bool \<Rightarrow> (cell list \<times> KLRingBuffer) mem" where
  "rb_reader alloc buf bytes advance_read_head =
     do { (used, buf) \<leftarrow> rb_used buf;
          (bytes, buf) \<leftarrow> (if bytes > used then rb_used buf else Some (bytes, buf));
          if bytes = 0 then Some ([], buf) else
          do { buf \<leftarrow> RB_LOCK buf;
               to \<leftarrow> rb_copy_out buf bytes;
               buf \<leftarrow> (if advance_read_head then advance_head buf bytes else Some buf);
               let buf = (if rb_fill buf = 0 \<and> rb_size buf > rb_size_initial buf
                          then rb_shrink_reset alloc buf else buf);
               buf \<leftarrow> RB_UNLOCK buf;
               Some (to, buf) } }"

definition rb_read :: "allocator \<Rightarrow> KLRingBuffer \<Rightarrow> nat \<Rightarrow> (cell list \<times> KLRingBuffer) mem" where
  "rb_read alloc buf bytes = rb_reader alloc buf bytes True"

text \<open>The empty list with \<open>*to\<close> unset is the failed allocation.\<close>

definition rb_read_alloc :: "allocator \<Rightarrow> KLRingBuffer \<Rightarrow> nat \<Rightarrow> (cell list \<times> KLRingBuffer) mem" where
  "rb_read_alloc alloc buf bytes =
     (if \<not> alloc bytes then Some ([], buf) else rb_reader alloc buf bytes True)"

definition rb_peek :: "allocator \<Rightarrow> KLRingBuffer \<Rightarrow> nat \<Rightarrow> (cell list \<times> KLRingBuffer) mem" where
  "rb_peek alloc buf bytes = rb_reader alloc buf bytes False"

text \<open>
  \<open>rb_fwrite\<close>: the bytes it writes to the stream. Its loop reads up to 8192 bytes at a time
  until a read returns nothing; \<open>fuel\<close> bounds the number of turns, and running out of it is
  \<open>None\<close>, as undefined behaviour is.
\<close>

fun rb_drain :: "nat \<Rightarrow> allocator \<Rightarrow> KLRingBuffer \<Rightarrow> (cell list \<times> KLRingBuffer) mem" where
  "rb_drain 0 alloc buf = None"
| "rb_drain (Suc fuel) alloc buf =
     do { (b, buf) \<leftarrow> rb_read alloc buf 8192;
          if b = [] then Some ([], buf)
          else do { (rest, buf) \<leftarrow> rb_drain fuel alloc buf; Some (b @ rest, buf) } }"

definition rb_len_bytes :: "nat \<Rightarrow> bytes" where
  "rb_len_bytes n =
     (let rb_len = (of_nat n :: u32)
      in [ucast (drop_bit 24 rb_len), ucast (drop_bit 16 rb_len),
          ucast (drop_bit 8 rb_len), ucast rb_len])"

definition rb_fwrite :: "nat \<Rightarrow> allocator \<Rightarrow> KLRingBuffer \<Rightarrow> (cell list \<times> KLRingBuffer) mem" where
  "rb_fwrite fuel alloc buf =
     do { (empty, buf) \<leftarrow> rb_is_empty buf;
          if empty then Some ([], buf) else
          do { (rb_len, buf) \<leftarrow> rb_used buf;
               (body, buf) \<leftarrow> rb_drain fuel alloc buf;
               Some (map Some [0x48, 0x45, 0x41, 0x44] @ map Some (rb_len_bytes rb_len) @ body
                     @ map Some [0x54, 0x41, 0x49, 0x4C], buf) } }"

definition rb_free :: "KLRingBuffer \<Rightarrow> unit mem" where
  "rb_free rb = do { rb \<leftarrow> RB_LOCK rb; Some () }"

subsection \<open>The bytes a ring holds\<close>

text \<open>
  Sizes below \<open>SZ_LIM\<close> (16 PiB) keep the arithmetic of the operations, the 128-fold growth
  included, below the wrap-around of \<open>size_t\<close>.
\<close>

definition SZ_LIM :: nat where
  "SZ_LIM = 2 ^ 54"

text \<open>A well-formed ring, between operations, and the bytes it holds, oldest first.\<close>

definition rb_inv :: "KLRingBuffer \<Rightarrow> bool" where
  "rb_inv rb \<longleftrightarrow>
     length (rb_data rb) = rb_size rb \<and> 0 < rb_size_initial rb \<and>
     rb_size_initial rb \<le> rb_size rb \<and> rb_size rb \<le> rb_size_max rb \<and> rb_size_max rb < SZ_LIM \<and>
     rb_head rb < rb_size rb \<and> rb_fill rb \<le> rb_size rb \<and> \<not> rb_locked rb"

definition rb_contents :: "KLRingBuffer \<Rightarrow> cell list" where
  "rb_contents rb = take (rb_fill rb) (rotate (rb_head rb) (rb_data rb))"

lemma sz_add_id: "a + b < 256 * SZ_LIM \<Longrightarrow> sz_add a b = a + b"
  by (simp add: sz_add_def SZ_LIM_def)

lemma sz_sub_id: "b \<le> a \<Longrightarrow> a < 256 * SZ_LIM \<Longrightarrow> sz_sub a b = a - b"
proof -
  assume "b \<le> a" "a < 256 * SZ_LIM"
  then have "a + SIZE_MOD - b = (a - b) + SIZE_MOD" "a - b < SIZE_MOD"
    by (simp_all add: SZ_LIM_def)
  then show ?thesis by (simp only: sz_sub_def mod_add_self2 mod_less)
qed

lemma sz_mul_id: "a * b < 256 * SZ_LIM \<Longrightarrow> sz_mul a b = a * b"
  by (simp add: sz_mul_def SZ_LIM_def)

lemma RB_LOCK_bind: "\<not> rb_locked rb \<Longrightarrow> RB_LOCK rb = Some (rb\<lparr>rb_locked := rb_usingMutex rb\<rparr>)"
  by (simp add: RB_LOCK_def)

lemma RB_UNLOCK_bind:
  "rb_locked rb = rb_usingMutex rb \<Longrightarrow> RB_UNLOCK rb = Some (rb\<lparr>rb_locked := False\<rparr>)"
  by (simp add: RB_UNLOCK_def)

lemma mod_wrap: "(a::nat) < 2 * s \<Longrightarrow> a mod s = (if a < s then a else a - s)"
  by (simp add: le_mod_geq)

subsection \<open>The two copies\<close>

lemma rb_copy_out_take:
  assumes "length (rb_data rb) = rb_size rb" "rb_head rb < rb_size rb" "rb_size rb < SZ_LIM"
    and "0 < n" "n \<le> rb_size rb"
  shows "rb_copy_out rb n = Some (take n (rotate (rb_head rb) (rb_data rb)))"
proof -
  have add: "sz_add (rb_head rb) n = rb_head rb + n"
    using assms by (intro sz_add_id) linarith
  have w: "(rb_head rb + n) mod rb_size rb =
      (if rb_head rb + n < rb_size rb then rb_head rb + n else rb_head rb + n - rb_size rb)"
    using assms by (intro mod_wrap) linarith
  have sub: "sz_sub n (rb_size rb - rb_head rb) = n - (rb_size rb - rb_head rb)"
    if "rb_size rb \<le> rb_head rb + n"
    using assms that by (intro sz_sub_id) linarith+
  show ?thesis
  proof (cases "rb_head rb + n < rb_size rb")
    case True
    then show ?thesis
      using assms(1,2,4) by (simp add: rb_copy_out_def add w rotate_drop_take)
  next
    case False
    then have "n + rb_head rb - rb_size rb \<le> rb_head rb"
      using assms(5) by simp
    then show ?thesis
      using False assms(1,2,4,5)
      by (simp add: rb_copy_out_def Let_def add w sub rotate_drop_take min_def)
  qed
qed

lemma rotate_blit_in:
  assumes "length d = s" "h < s" "h + i + length xs \<le> s"
  shows "rotate h (blit d (h + i) xs) = blit (rotate h d) i xs"
proof (rule nth_equalityI)
  fix j assume "j < length (rotate h (blit d (h + i) xs))"
  then have j: "j < s" using assms by simp
  have w: "(h + j) mod s = (if h + j < s then h + j else h + j - s)"
    using assms j by (intro mod_wrap) linarith
  show "rotate h (blit d (h + i) xs) ! j = blit (rotate h d) i xs ! j"
    using assms j w by (cases "h + j < s") (auto simp: nth_rotate nth_blit)
qed (use assms in simp)

lemma rotate_blit_wrapped:
  assumes "length d = s" "h < s" "s \<le> h + i" "i + length xs \<le> s"
  shows "rotate h (blit d (h + i - s) xs) = blit (rotate h d) i xs"
proof (rule nth_equalityI)
  fix j assume "j < length (rotate h (blit d (h + i - s) xs))"
  then have j: "j < s" using assms by simp
  have w: "(h + j) mod s = (if h + j < s then h + j else h + j - s)"
    using assms j by (intro mod_wrap) linarith
  show "rotate h (blit d (h + i - s) xs) ! j = blit (rotate h d) i xs ! j"
    using assms j w by (cases "h + j < s") (auto simp: nth_rotate nth_blit)
qed (use assms in simp)

lemma rotate_blit_split:
  assumes "length d = s" "h < s" "h + i < s" "s < h + i + length xs" "i + length xs \<le> s"
  shows "rotate h (blit (blit d (h + i) (take (s - (h + i)) xs)) 0 (drop (s - (h + i)) xs))
    = blit (rotate h d) i xs"
proof -
  let ?d = "blit d (h + i) (take (s - (h + i)) xs)" and ?k = "s - (h + i)"
  have len: "length ?d = s" using assms by simp
  have "rotate h (blit ?d (h + (s - h) - s) (drop ?k xs)) = blit (rotate h ?d) (s - h) (drop ?k xs)"
    by (rule rotate_blit_wrapped [OF len]) (use assms in auto)
  also have "rotate h ?d = blit (rotate h d) i (take ?k xs)"
    by (rule rotate_blit_in [where s = s]) (use assms in simp_all)
  also have "blit (blit (rotate h d) i (take ?k xs)) (s - h) (drop ?k xs) = blit (rotate h d) i xs"
  proof -
    have "\<not> s - h \<le> i" using assms by linarith
    then show ?thesis using assms by (simp add: blit_def take_append_drop_assoc add.commute)
  qed
  finally show ?thesis using assms by simp
qed

lemma rb_copy_in_rotate:
  assumes "length (rb_data rb) = rb_size rb" "rb_head rb < rb_size rb" "rb_size rb < SZ_LIM"
    and "rb_fill rb + length from \<le> rb_size rb"
    and "\<not> (rb_fill rb = 0 \<and> length from = rb_size rb \<and> 0 < rb_head rb)"
  shows "\<exists>d. rb_copy_in rb from = Some (rb\<lparr>rb_data := d\<rparr>) \<and> length d = rb_size rb \<and>
    rotate (rb_head rb) d = blit (rotate (rb_head rb) (rb_data rb)) (rb_fill rb) (map Some from)"
proof -
  define s h f n where "s = rb_size rb" and "h = rb_head rb" and "f = rb_fill rb" and "n = length from"
  note d = s_def [symmetric] h_def [symmetric] f_def [symmetric] n_def [symmetric]
  have A: "length (rb_data rb) = s" "h < s" "s < SZ_LIM" "f + n \<le> s"
     "\<not> (f = 0 \<and> n = s \<and> 0 < h)" using assms by (simp_all add: d)
  have add: "sz_add h f = h + f" "sz_add (h + f) n = h + f + n"
    using A by (auto intro!: sz_add_id)
  have w: "(h + f) mod s = (if h + f < s then h + f else h + f - s)"
    using A by (intro mod_wrap) linarith
  have w2: "(h + f + n) mod s = (if h + f + n < s then h + f + n else h + f + n - s)"
    using A by (intro mod_wrap) linarith
  have sub: "sz_sub n (s - (h + f)) = n - (s - (h + f))"
    if "s \<le> h + f + n" using A that by (intro sz_sub_id) linarith+
  consider "h + f + n < s" | "s \<le> h + f" | "h + f < s" "s < h + f + n" | "h + f < s" "s = h + f + n"
    by linarith
  then show ?thesis
  proof cases
    case 1
    with A show ?thesis
      by (intro exI [of _ "blit (rb_data rb) (h + f) (map Some from)"])
        (simp add: rb_copy_in_def d add w w2 rotate_blit_in)
  next
    case 2
    with A show ?thesis
      by (intro exI [of _ "blit (rb_data rb) (h + f - s) (map Some from)"])
        (simp add: rb_copy_in_def Let_def d add w w2 rotate_blit_wrapped)
  next
    case 3
    let ?k = "s - (h + f)" and ?xs = "map Some from"
    have "rotate h (blit (blit (rb_data rb) (h + f) (take ?k ?xs)) 0 (drop ?k ?xs))
      = blit (rotate h (rb_data rb)) f ?xs"
      by (rule rotate_blit_split) (use A 3 in \<open>auto simp: d\<close>)
    moreover have "h + f + n - s < h + f" using A 3 by linarith
    ultimately show ?thesis
      using 3 A(1,2,4,5)
      by (intro exI [of _ "blit (blit (rb_data rb) (h + f) (take ?k ?xs)) 0 (drop ?k ?xs)"])
        (simp add: rb_copy_in_def Let_def d add w w2 sub take_map drop_map)
  next
    case 4
    have "rotate h (blit (rb_data rb) (h + f) (map Some from))
      = blit (rotate h (rb_data rb)) f (map Some from)"
      by (rule rotate_blit_in) (use A 4 in \<open>auto simp: d\<close>)
    moreover have "sz_sub n n = 0"
      using A by (subst sz_sub_id) linarith+
    ultimately show ?thesis
      using 4 A(1,2,4,5)
      by (intro exI [of _ "blit (rb_data rb) (h + f) (map Some from)"])
        (simp add: rb_copy_in_def Let_def d add w w2 sub)
  qed
qed

subsection \<open>Writing\<close>

text \<open>The state of a lock around an operation: with a mutex it is taken, without one it is not.\<close>

abbreviation rb_lock :: "KLRingBuffer \<Rightarrow> KLRingBuffer" where
  "rb_lock rb \<equiv> rb\<lparr>rb_locked := rb_usingMutex rb\<rparr>"

lemma rb_contents_take_blit:
  assumes "length d = rb_size rb" "rb_fill rb + length xs \<le> rb_size rb"
    and "rotate (rb_head rb) d = blit (rotate (rb_head rb) e) (rb_fill rb) xs" "length e = rb_size rb"
  shows "rb_contents (rb\<lparr>rb_data := d, rb_fill := rb_fill rb + length xs\<rparr>) =
    take (rb_fill rb) (rotate (rb_head rb) e) @ xs"
  using assms by (simp add: rb_contents_def blit_def)

text \<open>The tail of \<open>rb_write_with_state\<close>, from the copy on, once there is room.\<close>

lemma rb_store_appends:
  assumes "length (rb_data rb) = rb_size rb" "rb_head rb < rb_size rb" "rb_size rb < SZ_LIM"
    and "rb_fill rb + length from \<le> rb_size rb"
    and "\<not> (rb_fill rb = 0 \<and> length from = rb_size rb \<and> 0 < rb_head rb)"
  shows "\<exists>d. length d = rb_size rb \<and>
     rb_copy_in rb from = Some (rb\<lparr>rb_data := d\<rparr>) \<and>
     advance_tail (rb\<lparr>rb_data := d\<rparr>) (length from) =
       rb\<lparr>rb_data := d, rb_fill := rb_fill rb + length from\<rparr> \<and>
     rb_contents (rb\<lparr>rb_data := d, rb_fill := rb_fill rb + length from\<rparr>) =
       rb_contents rb @ map Some from"
proof -
  obtain d where d: "rb_copy_in rb from = Some (rb\<lparr>rb_data := d\<rparr>)" "length d = rb_size rb"
    "rotate (rb_head rb) d = blit (rotate (rb_head rb) (rb_data rb)) (rb_fill rb) (map Some from)"
    using rb_copy_in_rotate [OF assms] by blast
  have "sz_add (rb_fill rb) (length from) = rb_fill rb + length from"
    using assms(3,4) by (intro sz_add_id) linarith
  then have "advance_tail (rb\<lparr>rb_data := d\<rparr>) (length from) =
       rb\<lparr>rb_data := d, rb_fill := rb_fill rb + length from\<rparr>"
    by (simp add: advance_tail_def)
  moreover have "rb_contents (rb\<lparr>rb_data := d, rb_fill := rb_fill rb + length from\<rparr>) =
       rb_contents rb @ map Some from"
    using rb_contents_take_blit [of d rb "map Some from" "rb_data rb"] assms d
    by (simp add: rb_contents_def)
  ultimately show ?thesis using d by blast
qed

lemma rb_contents_cong [simp]: "rb_contents (rb\<lparr>rb_locked := b\<rparr>) = rb_contents rb"
  by (simp add: rb_contents_def)

lemma length_rb_contents: "rb_inv rb \<Longrightarrow> length (rb_contents rb) = rb_fill rb"
  by (simp add: rb_inv_def rb_contents_def)

lemma rb_remain_in_seg_id: "rb_inv rb \<Longrightarrow> rb_remain_in_seg rb = rb_size rb - rb_fill rb"
  by (auto simp: rb_inv_def rb_remain_in_seg_def intro: sz_sub_id)

text \<open>A write for which the storage has room, in a ring with or without a mutex.\<close>

lemma rb_write_fits:
  assumes "rb_inv rb" "rb_fill rb + length from \<le> rb_size rb"
    and "\<not> (rb_fill rb = 0 \<and> length from = rb_size rb \<and> 0 < rb_head rb)"
  shows "\<exists>rb'. rb_write_with_state alloc rb from True = Some (False, rb') \<and> rb_inv rb' \<and>
    rb_contents rb' = rb_contents rb @ map Some from \<and>
    rb_size rb' = rb_size rb \<and> rb_size_initial rb' = rb_size_initial rb"
proof -
  let ?l = "rb_lock rb"
  have "\<not> rb_remain_in_seg ?l < length from"
    using rb_remain_in_seg_id [OF assms(1)] assms(2) by (simp add: rb_remain_in_seg_def)
  moreover obtain d where "length d = rb_size ?l"
     "rb_copy_in ?l from = Some (?l\<lparr>rb_data := d\<rparr>)"
     "advance_tail (?l\<lparr>rb_data := d\<rparr>) (length from) =
       ?l\<lparr>rb_data := d, rb_fill := rb_fill ?l + length from\<rparr>"
     "rb_contents (?l\<lparr>rb_data := d, rb_fill := rb_fill ?l + length from\<rparr>) =
       rb_contents ?l @ map Some from"
    using rb_store_appends [of ?l "from"] assms by (auto simp: rb_inv_def)
  ultimately show ?thesis
    using assms unfolding rb_write_with_state_def
    by (auto simp: rb_inv_def RB_LOCK_bind RB_UNLOCK_bind rb_contents_def)
qed

text \<open>
  A write that makes the storage grow keeps the order of the bytes when the stored bytes do
  not wrap around the end of the storage.
\<close>

lemma rb_grow_unwrapped:
  assumes "rb_inv rb" "rb_head rb + rb_fill rb \<le> rb_size rb" "alloc (rb_size rb + k)"
    and "rb_size rb + k \<le> rb_size_max rb"
  shows "\<exists>rb'. rb_grow alloc rb k = Some rb' \<and> rb_inv rb' \<and> rb_contents rb' = rb_contents rb \<and>
    rb_size rb' = rb_size rb + k \<and> rb_fill rb' = rb_fill rb \<and> rb_head rb' = rb_head rb \<and>
    rb_usingMutex rb' = rb_usingMutex rb"
proof -
  have add: "sz_add (rb_size rb) k = rb_size rb + k"
    using assms by (intro sz_add_id) (auto simp: rb_inv_def)
  let ?rb' = "rb\<lparr>rb_data := rb_realloc alloc (rb_data rb) (rb_size rb + k), rb_size := rb_size rb + k\<rparr>"
  have "rb_inv ?rb'"
    using assms by (auto simp: rb_inv_def rb_realloc_def)
  moreover have "rb_contents ?rb' = rb_contents rb"
    using assms by (simp add: rb_inv_def rb_contents_def rb_realloc_def rotate_drop_take)
  ultimately show ?thesis
    using assms by (intro exI [of _ ?rb']) (simp add: rb_grow_def add)
qed

lemma rb_write_grows:
  assumes "rb_inv rb" "rb_size rb < rb_fill rb + length from"
    and "rb_head rb + rb_fill rb \<le> rb_size rb"
    and "rb_size rb + length from * 128 \<le> rb_size_max rb"
    and "alloc (rb_size rb + length from * 128)"
  shows "\<exists>rb'. rb_write_with_state alloc rb from True = Some (False, rb') \<and> rb_inv rb' \<and>
    rb_contents rb' = rb_contents rb @ map Some from"
proof -
  let ?k = "length from * 128"
  have rem: "rb_remain_in_seg (rb_lock rb) < length from"
    using rb_remain_in_seg_id [OF assms(1)] assms(1,2)
    by (simp add: rb_remain_in_seg_def rb_inv_def) linarith
  have k: "sz_mul (length from) 128 = ?k"
    using assms(1,4) by (intro sz_mul_id) (simp add: rb_inv_def)
  obtain g where g: "rb_grow alloc rb ?k = Some g" "rb_inv g"
      "rb_contents g = rb_contents rb" "rb_size g = rb_size rb + ?k" "rb_fill g = rb_fill rb"
      "rb_head g = rb_head rb" "rb_usingMutex g = rb_usingMutex rb"
    using rb_grow_unwrapped [of rb alloc ?k] assms by blast
  have lg: "rb_grow alloc (rb_lock rb) ?k = Some (rb_lock g)"
    using g(1,7) by (auto simp: rb_grow_def split: if_splits)
  have "rb_fill g \<le> rb_size rb" "0 < length from"
    using assms g by (auto simp: rb_inv_def)
  then have "rb_fill g + length from \<le> rb_size g" "length from \<noteq> rb_size g"
    using g by auto
  then obtain d where "length d = rb_size g"
     "rb_copy_in (rb_lock g) from = Some ((rb_lock g)\<lparr>rb_data := d\<rparr>)"
     "advance_tail ((rb_lock g)\<lparr>rb_data := d\<rparr>) (length from) =
       (rb_lock g)\<lparr>rb_data := d, rb_fill := rb_fill g + length from\<rparr>"
     "rb_contents ((rb_lock g)\<lparr>rb_data := d, rb_fill := rb_fill g + length from\<rparr>) =
       rb_contents g @ map Some from"
    using rb_store_appends [of "rb_lock g" "from"] g(2) by (auto simp: rb_inv_def)
  moreover have "RB_LOCK rb = Some (rb_lock rb)"
    using assms by (simp add: rb_inv_def RB_LOCK_bind)
  ultimately show ?thesis
    using assms g rem k lg \<open>rb_fill g + length from \<le> rb_size g\<close> unfolding rb_write_with_state_def
    by (auto simp: rb_inv_def RB_UNLOCK_bind rb_contents_def)
qed

text \<open>The oldest bytes make room when the ring, without a mutex, is at its largest size.\<close>

lemma rb_discard_drops:
  assumes "rb_inv rb" "n \<le> rb_fill rb"
  shows "\<exists>rb'. rb_discard rb n = Some rb' \<and> rb_inv rb' \<and>
    rb_contents rb' = drop n (rb_contents rb) \<and> rb_data rb' = rb_data rb \<and>
    rb_size rb' = rb_size rb \<and> rb_fill rb' = rb_fill rb - n \<and>
    rb_size_initial rb' = rb_size_initial rb \<and>
    rb_usingMutex rb' = rb_usingMutex rb \<and> rb_head rb' = (rb_head rb + n) mod rb_size rb"
proof -
  have "sz_add (rb_head rb) n = rb_head rb + n" "sz_sub (rb_fill rb) n = rb_fill rb - n"
    using assms by (auto simp: rb_inv_def intro!: sz_add_id sz_sub_id)
  moreover have "drop n (take (rb_fill rb) (rotate (rb_head rb) (rb_data rb))) =
      take (rb_fill rb - n) (rotate ((rb_head rb + n) mod rb_size rb) (rb_data rb))"
  proof -
    have "rotate ((rb_head rb + n) mod rb_size rb) (rb_data rb) = rotate n (rotate (rb_head rb) (rb_data rb))"
      using assms rotate_conv_mod [of "n + rb_head rb" "rb_data rb"]
      by (simp add: rb_inv_def rotate_rotate add.commute)
    moreover have "take (f - n) (rotate n xs) = drop n (take f xs)"
      if "n \<le> f" "f \<le> length xs" for f and xs :: "cell list"
      using that by (cases "n = length xs") (auto simp: rotate_drop_take drop_take)
    ultimately show ?thesis
      using assms by (simp add: rb_inv_def)
  qed
  ultimately show ?thesis
    using assms
    by (auto simp: rb_discard_def rb_inv_def RB_LOCK_bind RB_UNLOCK_bind advance_head_def
        rb_contents_def)
qed

lemma rb_write_overflows:
  assumes "rb_inv rb" "\<not> rb_usingMutex rb" "rb_size rb < rb_fill rb + length from"
    and "length from \<le> rb_fill rb" "length from < rb_size rb \<or> rb_head rb = 0"
    and "rb_size_max rb < rb_size rb + length from * 128"
  shows "\<exists>rb'. rb_write_with_state alloc rb from True = Some (True, rb') \<and> rb_inv rb' \<and>
    rb_contents rb' = drop (length from) (rb_contents rb) @ map Some from"
proof -
  have sizes: "rb_size rb < SZ_LIM" "rb_fill rb \<le> rb_size rb" "rb_locked rb = False"
    using assms(1) by (auto simp: rb_inv_def)
  have rem: "rb_remain_in_seg rb < length from"
    using rb_remain_in_seg_id [OF assms(1)] assms(3) sizes(2) by linarith
  have "sz_mul (length from) 128 = length from * 128"
       "sz_add (rb_size rb) (length from * 128) = rb_size rb + length from * 128"
    using sizes assms(4) by (auto intro!: sz_mul_id sz_add_id)
  then have grow: "rb_grow alloc rb (sz_mul (length from) 128) = None"
    using assms(6) by (simp add: rb_grow_def)
  obtain e where e: "rb_discard rb (length from) = Some e" "rb_inv e"
      "rb_contents e = drop (length from) (rb_contents rb)" "rb_data e = rb_data rb"
      "rb_size e = rb_size rb" "rb_fill e = rb_fill rb - length from"
      "rb_usingMutex e = rb_usingMutex rb"
      "rb_head e = (rb_head rb + length from) mod rb_size rb"
    using rb_discard_drops [OF assms(1,4)] by blast
  have "rb_fill e + length from \<le> rb_size e" "length from = rb_size e \<Longrightarrow> rb_head e = 0"
    using assms(4,5) e(5,6,8) sizes by auto
  then obtain d where "length d = rb_size e" "rb_copy_in e from = Some (e\<lparr>rb_data := d\<rparr>)"
     "advance_tail (e\<lparr>rb_data := d\<rparr>) (length from) =
       e\<lparr>rb_data := d, rb_fill := rb_fill e + length from\<rparr>"
     "rb_contents (e\<lparr>rb_data := d, rb_fill := rb_fill e + length from\<rparr>) =
       rb_contents e @ map Some from"
    using rb_store_appends [of e "from"] e(2) by (auto simp: rb_inv_def)
  then show ?thesis
    using e assms(2) rem grow \<open>rb_fill e + length from \<le> rb_size e\<close>
    unfolding rb_write_with_state_def
    by (auto simp: RB_LOCK_def RB_UNLOCK_def rb_inv_def)
qed

subsection \<open>Reading\<close>

lemma rb_used_eq: "rb_inv rb \<Longrightarrow> rb_used rb = Some (rb_fill rb, rb)"
  by (cases rb) (auto simp: rb_used_def rb_inv_def RB_LOCK_def RB_UNLOCK_def)

lemma rb_is_empty_eq: "rb_inv rb \<Longrightarrow> rb_is_empty rb = Some (rb_contents rb = [], rb)"
  by (cases rb) (auto simp: rb_is_empty_def rb_inv_def RB_LOCK_def RB_UNLOCK_def rb_contents_def)

lemma advance_head_discard:
  assumes "rb_inv rb" "rb_discard rb n = Some e"
  shows "advance_head (rb_lock rb) n = Some (rb_lock e)"
  using assms
  by (cases rb) (auto simp: rb_discard_def rb_inv_def RB_LOCK_bind RB_UNLOCK_def advance_head_def
      split: if_splits)

lemma rb_shrink_reset_empty:
  assumes "rb_inv rb" "rb_fill rb = 0" "alloc (rb_size_initial rb)"
  shows "rb_inv (rb_shrink_reset alloc rb)" "rb_contents (rb_shrink_reset alloc rb) = []"
  using assms by (auto simp: rb_inv_def rb_shrink_reset_def rb_contents_def rb_realloc_def)

lemma rb_read_clamped:
  assumes "rb_inv rb"
  shows "rb_read alloc rb n = rb_read alloc rb (min n (rb_fill rb))"
  using assms by (simp add: rb_read_def rb_reader_def rb_used_eq min_def)

text \<open>A read returns the oldest bytes and removes them; emptying a grown ring shrinks it.\<close>

lemma rb_read_takes:
  assumes "rb_inv rb" "rb_size rb = rb_size_initial rb \<or> alloc (rb_size_initial rb)"
  shows "\<exists>rb'. rb_read alloc rb n = Some (take n (rb_contents rb), rb') \<and> rb_inv rb' \<and>
    rb_contents rb' = drop n (rb_contents rb) \<and> rb_size_initial rb' = rb_size_initial rb \<and>
    rb_size rb' \<in> {rb_size rb, rb_size_initial rb}"
proof -
  define m where "m = min n (rb_fill rb)"
  have m: "m \<le> rb_fill rb" "take n (rb_contents rb) = take m (rb_contents rb)"
     "drop n (rb_contents rb) = drop m (rb_contents rb)"
    using length_rb_contents [OF assms(1)] by (auto simp: m_def min_def)
  show ?thesis
  proof (cases "m = 0")
    case True
    then show ?thesis using assms m by (auto simp: rb_read_def rb_reader_def rb_used_eq m_def)
  next
    case False
    have out: "rb_copy_out (rb_lock rb) m = Some (take m (rb_contents rb))"
      using rb_copy_out_take [of "rb_lock rb" m] False m(1) assms
      by (auto simp: rb_inv_def rb_contents_def)
    obtain e where e: "rb_discard rb m = Some e" "rb_inv e" "rb_contents e = drop m (rb_contents rb)"
        "rb_size e = rb_size rb" "rb_size_initial e = rb_size_initial rb"
      using rb_discard_drops [OF assms(1) m(1)] by blast
    define f where "f = (if rb_fill e = 0 \<and> rb_size e > rb_size_initial e
                          then rb_shrink_reset alloc e else e)"
    have "RB_UNLOCK (if rb_fill (rb_lock e) = 0 \<and> rb_size (rb_lock e) > rb_size_initial (rb_lock e)
                          then rb_shrink_reset alloc (rb_lock e) else rb_lock e) = Some f"
      using e(2) by (cases e) (auto simp: f_def RB_UNLOCK_def rb_shrink_reset_def rb_inv_def)
    moreover have "RB_LOCK rb = Some (rb_lock rb)"
      using assms(1) by (simp add: rb_inv_def RB_LOCK_bind)
    ultimately have "rb_read alloc rb m = Some (take m (rb_contents rb), f)"
      using False m(1) out advance_head_discard [OF assms(1) e(1)] rb_used_eq [OF assms(1)]
      by (simp add: rb_read_def rb_reader_def Let_def)
    then have "rb_read alloc rb n = Some (take m (rb_contents rb), f)"
      using rb_read_clamped [OF assms(1), of alloc n] by (simp add: m_def)
    moreover have "rb_inv f" "rb_contents f = drop m (rb_contents rb)"
      "rb_size_initial f = rb_size_initial rb" "rb_size f \<in> {rb_size rb, rb_size_initial rb}"
      using rb_shrink_reset_empty [OF e(2)] e assms(2) length_rb_contents [OF e(2)]
      by (auto simp: f_def rb_shrink_reset_def)
    ultimately show ?thesis using m by auto
  qed
qed

subsection \<open>Draining to a file\<close>

lemma rb_drain_all:
  assumes "rb_inv rb" "alloc (rb_size_initial rb)" "rb_fill rb \<le> 8192 * fuel"
  shows "\<exists>rb'. rb_drain (Suc fuel) alloc rb = Some (rb_contents rb, rb') \<and> rb_inv rb' \<and>
    rb_contents rb' = []"
  using assms
proof (induction fuel arbitrary: rb)
  case 0
  then obtain rb' where "rb_read alloc rb 8192 = Some ([], rb')" "rb_inv rb'" "rb_contents rb' = []"
    using rb_read_takes [of rb alloc 8192] length_rb_contents [of rb] by auto
  then show ?case using 0 length_rb_contents [of rb] by simp
next
  case (Suc fuel)
  obtain e where e: "rb_read alloc rb 8192 = Some (take 8192 (rb_contents rb), e)" "rb_inv e"
      "rb_contents e = drop 8192 (rb_contents rb)" "rb_size_initial e = rb_size_initial rb"
    using rb_read_takes [of rb alloc 8192] Suc.prems by auto
  have "rb_fill e \<le> 8192 * fuel"
    using length_rb_contents [OF e(2)] length_rb_contents [OF Suc.prems(1)] e(3) Suc.prems(3) by simp
  then obtain f where "rb_drain (Suc fuel) alloc e = Some (rb_contents e, f)" "rb_inv f"
      "rb_contents f = []"
    using Suc.IH [of e] e Suc.prems(2) by auto
  then show ?case
    using e by (simp only: rb_drain.simps(2) [of "Suc fuel"]) auto
qed

text \<open>A write that does not overflow leaves the head and the limit.\<close>

lemma rb_origin_frame:
  "RB_LOCK rb = Some rb' \<Longrightarrow> rb_head rb' = rb_head rb \<and> rb_size_max rb' = rb_size_max rb"
  "RB_UNLOCK rb = Some rb' \<Longrightarrow> rb_head rb' = rb_head rb \<and> rb_size_max rb' = rb_size_max rb"
  "rb_grow alloc rb n = Some rb' \<Longrightarrow> rb_head rb' = rb_head rb \<and> rb_size_max rb' = rb_size_max rb"
  "rb_copy_in rb from = Some rb' \<Longrightarrow> rb_head rb' = rb_head rb \<and> rb_size_max rb' = rb_size_max rb"
  "rb_head (advance_tail rb n) = rb_head rb \<and> rb_size_max (advance_tail rb n) = rb_size_max rb"
  by (auto simp: RB_LOCK_def RB_UNLOCK_def rb_grow_def rb_copy_in_def advance_tail_def Let_def bind_eq_Some_conv
      split: if_splits)

lemma rb_write_frame:
  assumes "rb_write_with_state alloc rb from True = Some (False, rb')"
  shows "rb_head rb' = rb_head rb \<and> rb_size_max rb' = rb_size_max rb"
proof -
  obtain r1 r2 r3 where 1: "RB_LOCK rb = Some r1" and 3: "rb_copy_in r2 from = Some r3"
      and 4: "RB_UNLOCK (advance_tail r3 (length from)) = Some rb'"
      and 2: "r2 = r1 \<or> rb_grow alloc r1 (sz_mul (length from) 128) = Some r2"
    using assms
    by (fastforce simp: rb_write_with_state_def bind_eq_Some_conv split: if_splits option.splits)
  then show ?thesis using rb_origin_frame by (metis (no_types))
qed

text \<open>A write of at most \<open>n\<close> bytes into a ring that starts at its origin and may still grow.\<close>

lemma rb_write_from_origin:
  assumes "rb_inv rb" "rb_head rb = 0" "\<And>n. alloc n"
    and "rb_fill rb + length from * 129 \<le> rb_size_max rb"
  shows "\<exists>rb'. rb_write_with_state alloc rb from True = Some (False, rb') \<and> rb_inv rb' \<and>
    rb_contents rb' = rb_contents rb @ map Some from \<and> rb_head rb' = 0 \<and> rb_size_max rb' = rb_size_max rb"
proof -
  have "\<exists>rb'. rb_write_with_state alloc rb from True = Some (False, rb') \<and> rb_inv rb' \<and>
      rb_contents rb' = rb_contents rb @ map Some from"
  proof (cases "rb_fill rb + length from \<le> rb_size rb")
    case True
    then show ?thesis using rb_write_fits [OF assms(1), of "from" alloc] assms(2) by auto
  next
    case False
    then show ?thesis
      using rb_write_grows [OF assms(1), of "from" alloc] assms by (auto simp: rb_inv_def)
  qed
  then show ?thesis using assms(2) rb_write_frame by metis
qed

lemma rb_peek_all:
  assumes "rb_inv rb" "0 < rb_fill rb"
  shows "rb_peek alloc rb (rb_fill rb) = Some (rb_contents rb, rb)"
proof -
  have "rb_copy_out (rb_lock rb) (rb_fill rb) = Some (rb_contents rb)"
    using assms rb_copy_out_take [of "rb_lock rb" "rb_fill rb"] by (simp add: rb_inv_def rb_contents_def)
  then show ?thesis
    using assms by (simp add: rb_peek_def rb_reader_def rb_used_eq RB_LOCK_bind RB_UNLOCK_bind rb_inv_def)
qed

lemma rb_empty_inv:
  assumes "rb_inv rb"
  shows "\<exists>rb'. rb_empty rb = Some rb' \<and> rb_inv rb' \<and> rb_contents rb' = [] \<and> rb_head rb' = 0 \<and> rb_size_max rb' = rb_size_max rb"
  using assms by (auto simp: rb_empty_def RB_LOCK_bind RB_UNLOCK_bind rb_inv_def rb_contents_def)

subsection \<open>The queue of bytes\<close>

text \<open>
  A bounded queue of bytes, as the users of the ring see it, and a schedule of operations on
  it: what a client stores and how much it asks for. \<open>within\<close> says that a schedule never
  holds as much as the capacity.
\<close>

datatype 'b fifo_op = Put "'b list" | Get nat

fun within :: "nat \<Rightarrow> nat \<Rightarrow> 'b fifo_op list \<Rightarrow> bool" where
  "within cap level [] = True"
| "within cap level (Put xs # ops) = (level + length xs < cap \<and> within cap (level + length xs) ops)"
| "within cap level (Get n # ops) = within cap (level - n) ops"

fun puts :: "'b fifo_op list \<Rightarrow> 'b list" where
  "puts [] = []"
| "puts (Put xs # ops) = xs @ puts ops"
| "puts (Get n # ops) = puts ops"

fun fifo_run ::
  "('s \<Rightarrow> 'b list \<Rightarrow> 's option) \<Rightarrow> ('s \<Rightarrow> nat \<Rightarrow> ('c list \<times> 's) option) \<Rightarrow> 's \<Rightarrow> 'b fifo_op list
    \<Rightarrow> ('c list \<times> 's) option" where
  "fifo_run put get s [] = Some ([], s)"
| "fifo_run put get s (Put xs # ops) = do { s \<leftarrow> put s xs; fifo_run put get s ops }"
| "fifo_run put get s (Get n # ops) =
     do { (ys, s) \<leftarrow> get s n; (out, s) \<leftarrow> fifo_run put get s ops; Some (ys @ out, s) }"

locale byte_fifo =
  fixes inv :: "'s \<Rightarrow> bool"
    and contents :: "'s \<Rightarrow> 'c list"
    and cap :: "'s \<Rightarrow> nat"
    and stored :: "'b \<Rightarrow> 'c"
    and put :: "'s \<Rightarrow> 'b list \<Rightarrow> 's option"
    and get :: "'s \<Rightarrow> nat \<Rightarrow> ('c list \<times> 's) option"
  assumes put_appends:
    "inv s \<Longrightarrow> length (contents s) + length xs < cap s \<Longrightarrow>
     \<exists>s'. put s xs = Some s' \<and> inv s' \<and> contents s' = contents s @ map stored xs \<and> cap s' = cap s"
  and get_takes:
    "inv s \<Longrightarrow> \<exists>s'. get s n = Some (take n (contents s), s') \<and> inv s' \<and>
     contents s' = drop n (contents s) \<and> cap s' = cap s"
begin

lemma run_keeps_order:
  assumes "inv s" "within (cap s) (length (contents s)) ops"
  shows "\<exists>out s'. fifo_run put get s ops = Some (out, s') \<and> inv s' \<and>
    out @ contents s' = contents s @ map stored (puts ops)"
  using assms
proof (induction ops arbitrary: s)
  case (Cons op ops)
  show ?case
  proof (cases op)
    case (Put xs)
    then obtain s' where "put s xs = Some s'" "inv s'" "contents s' = contents s @ map stored xs"
        "cap s' = cap s"
      using put_appends Cons.prems by fastforce
    then show ?thesis using Cons.IH [of s'] Cons.prems Put by auto
  next
    case (Get n)
    obtain s' where s': "get s n = Some (take n (contents s), s')" "inv s'"
        "contents s' = drop n (contents s)" "cap s' = cap s"
      using get_takes Cons.prems(1) by blast
    moreover obtain out s'' where "fifo_run put get s' ops = Some (out, s'')" "inv s''"
        "out @ contents s'' = contents s' @ map stored (puts ops)"
      using Cons.IH [of s'] s' Cons.prems Get by auto
    ultimately show ?thesis
      using Get by (simp add: take_append_drop_assoc)
  qed
qed simp

end

text \<open>The ring as such a queue, as long as it stays at the size it was created with.\<close>

definition rb_put :: "allocator \<Rightarrow> KLRingBuffer \<Rightarrow> bytes \<Rightarrow> KLRingBuffer mem" where
  "rb_put alloc rb from = map_option snd (rb_write_with_state alloc rb from True)"

definition rb_fixed :: "KLRingBuffer \<Rightarrow> bool" where
  "rb_fixed rb \<longleftrightarrow> rb_inv rb \<and> rb_size rb = rb_size_initial rb"

interpretation ring: byte_fifo rb_fixed rb_contents rb_size Some "rb_put alloc" "rb_read alloc"
  for alloc
proof unfold_locales
  fix rb and xs :: bytes
  assume "rb_fixed rb" "length (rb_contents rb) + length xs < rb_size rb"
  then show "\<exists>rb'. rb_put alloc rb xs = Some rb' \<and> rb_fixed rb' \<and>
    rb_contents rb' = rb_contents rb @ map Some xs \<and> rb_size rb' = rb_size rb"
    using rb_write_fits [of rb xs alloc] length_rb_contents [of rb]
    by (auto simp: rb_fixed_def rb_put_def)
next
  fix rb n
  assume "rb_fixed rb"
  then show "\<exists>rb'. rb_read alloc rb n = Some (take n (rb_contents rb), rb') \<and> rb_fixed rb' \<and>
    rb_contents rb' = drop n (rb_contents rb) \<and> rb_size rb' = rb_size rb"
    using rb_read_takes [of rb alloc n] by (auto simp: rb_fixed_def)
qed

lemma rb_new_fixed:
  assumes "rb_new alloc sz sz_max = Some rb" "sz_max < SZ_LIM"
  shows "rb_fixed rb" "rb_contents rb = []" "rb_size rb = sz"
  using assms by (auto simp: rb_new_def rb_fixed_def rb_inv_def rb_contents_def split: if_splits)

subsection \<open>Properties\<close>

text \<open>
  C6: A ring is a FIFO queue. Take a ring just created, with or without a mutex, and run any
  schedule of writes and reads on it that never stores as much as the initial size at once.
  Every operation has defined behaviour, and the bytes read so far followed by the bytes
  still stored are exactly the bytes written, in order, wherever the stored bytes wrap
  around the end of the storage.
\<close>

theorem rb_fifo_order:
  assumes "rb_new alloc sz sz_max = Some rb" "sz_max < SZ_LIM" "within sz 0 ops"
  shows "\<exists>out rb'. fifo_run (rb_put alloc) (rb_read alloc) (rb\<lparr>rb_usingMutex := threadsafe\<rparr>) ops
      = Some (out, rb') \<and> rb_inv rb' \<and> out @ rb_contents rb' = map Some (puts ops)"
proof -
  have "rb_fixed (rb\<lparr>rb_usingMutex := threadsafe\<rparr>)" 
    "rb_contents (rb\<lparr>rb_usingMutex := threadsafe\<rparr>) = []"
    "rb_size (rb\<lparr>rb_usingMutex := threadsafe\<rparr>) = sz"
    using rb_new_fixed [OF assms(1,2)] by (auto simp: rb_fixed_def rb_inv_def rb_contents_def)
  then show ?thesis
    using ring.run_keeps_order [of "rb\<lparr>rb_usingMutex := threadsafe\<rparr>" ops alloc] assms(3)
    by (auto simp: rb_fixed_def)
qed

theorem rb_fifo_order_witness:
  "\<exists>out rb'. fifo_run (rb_put (\<lambda>_. True)) (rb_read (\<lambda>_. True))
      (\<lparr>rb_data = replicate 4 None, rb_size = 4, rb_size_max = 8, rb_size_initial = 4,
        rb_head = 0, rb_fill = 0, rb_usingMutex = True, rb_locked = False\<rparr>)
      [Put [1, 2, 3], Get 2, Put [4, 5], Get 1, Get 7] = Some (out, rb') \<and> rb_inv rb' \<and>
      out @ rb_contents rb' = map Some [1, 2, 3, 4, 5]"
  using rb_fifo_order [of "\<lambda>_. True" 4 8
    "\<lparr>rb_data = replicate 4 None, rb_size = 4, rb_size_max = 8, rb_size_initial = 4,
        rb_head = 0, rb_fill = 0, rb_usingMutex = False, rb_locked = False\<rparr>"
    "[Put [1, 2, 3], Get 2, Put [4, 5], Get 1, Get 7]" True]
  by (simp add: rb_new_def SZ_LIM_def)

text \<open>
  What \<open>rb_write_with_state\<close> does when the storage is too small for the new bytes. Stored
  bytes that do not wrap around keep their order when the storage can still grow by 128
  times the write. A ring without a mutex that has reached its largest size gives up as many
  of its oldest bytes as are written, stores the new ones behind the rest and reports the
  overflow. Either way the ring stays well formed.
\<close>

theorem rb_write_makes_room:
  assumes "rb_inv rb" "rb_size rb < rb_fill rb + length from"
    and "if rb_size rb + length from * 128 \<le> rb_size_max rb
         then alloc (rb_size rb + length from * 128) \<and> rb_head rb + rb_fill rb \<le> rb_size rb
         else \<not> rb_usingMutex rb \<and> length from \<le> rb_fill rb \<and>
              (length from < rb_size rb \<or> rb_head rb = 0)"
  shows "\<exists>overflow rb'. rb_write_with_state alloc rb from True = Some (overflow, rb') \<and> rb_inv rb' \<and>
    (overflow \<longleftrightarrow> rb_size_max rb < rb_size rb + length from * 128) \<and>
    rb_contents rb' =
      (if overflow then drop (length from) (rb_contents rb) else rb_contents rb) @ map Some from"
proof (cases "rb_size rb + length from * 128 \<le> rb_size_max rb")
  case True
  then show ?thesis
    using rb_write_grows [OF assms(1,2), of alloc] assms(3) by auto
next
  case False
  then show ?thesis
    using rb_write_overflows [OF assms(1) _ assms(2), of alloc] assms(3) by auto
qed

text \<open>A full ring of four bytes that has been rotated by one: it stores 5 bytes at most.\<close>

definition example_ring :: KLRingBuffer where
  "example_ring =
     \<lparr>rb_data = map Some [14, 11, 12, 13], rb_size = 4, rb_size_max = 5, rb_size_initial = 4,
      rb_head = 1, rb_fill = 4, rb_usingMutex = False, rb_locked = False\<rparr>"

lemma example_ring_inv: "rb_inv example_ring"
  by (simp add: example_ring_def rb_inv_def SZ_LIM_def)

lemma example_ring_contents: "rb_contents example_ring = map Some [11, 12, 13, 14]"
  by (simp add: example_ring_def rb_contents_def rotate_drop_take)

theorem rb_write_makes_room_witness:
  "\<exists>rb'. rb_write_with_state (\<lambda>_. True) example_ring [21, 22] True = Some (True, rb') \<and>
     rb_contents rb' = map Some [13, 14, 21, 22]"
proof -
  have "rb_size example_ring < rb_fill example_ring + length [21, 22 :: u8]"
    "\<not> (rb_size example_ring + length [21, 22 :: u8] * 128 \<le> rb_size_max example_ring)"
    "\<not> rb_usingMutex example_ring" "length [21, 22 :: u8] \<le> rb_fill example_ring"
    "length [21, 22 :: u8] < rb_size example_ring"
    by (simp_all add: example_ring_def)
  then show ?thesis
    using rb_write_makes_room [of example_ring "[21, 22]" "\<lambda>_. True", OF example_ring_inv]
      example_ring_contents
    by auto
qed

text \<open>
  Saving a ring to a file. When the ring is not empty and its storage can be reallocated to the
  initial size, the drain loop ends, within one turn per 8192 bytes and one more, and the
  file receives \<open>HEAD\<close>, the number of bytes in big-endian order, exactly the stored bytes in
  order, and \<open>TAIL\<close>; the ring is empty afterwards. An empty ring writes nothing.
\<close>

theorem rb_fwrite_frames:
  assumes "rb_inv rb" "alloc (rb_size_initial rb)" "rb_fill rb \<le> 8192 * fuel"
  shows "\<exists>rb'. rb_fwrite (Suc fuel) alloc rb =
      Some (if rb_fill rb = 0 then []
            else map Some (map (of_char :: char \<Rightarrow> u8) ''HEAD'')
                 @ map Some (map (\<lambda>k. of_nat (rb_fill rb div 256 ^ k)) [3, 2, 1, 0]) @ rb_contents rb
                 @ map Some (map of_char ''TAIL''), rb') \<and>
    rb_inv rb' \<and> rb_contents rb' = []"
proof (cases "rb_contents rb = []")
  case True
  then show ?thesis
    using rb_is_empty_eq [OF assms(1)] assms(1) length_rb_contents [OF assms(1)]
    by (simp add: rb_fwrite_def)
next
  case False
  have len: "map (\<lambda>k. of_nat (n div 256 ^ k)) [3, 2, 1, 0] = rb_len_bytes n" for n
  proof -
    have "(of_nat (n div 2 ^ k) :: u8) = ucast (drop_bit k (of_nat n :: u32))" if "k + 8 \<le> 32" for k
      using that by (intro bit_word_eqI) (auto simp: bit_simps simp flip: drop_bit_eq_div)
    from this [of 24] this [of 16] this [of 8] this [of 0] show ?thesis
      by (simp add: rb_len_bytes_def Let_def)
  qed
  have ascii: "map of_char ''HEAD'' = ([0x48, 0x45, 0x41, 0x44] :: bytes)"
       "map of_char ''TAIL'' = ([0x54, 0x41, 0x49, 0x4C] :: bytes)"
    by simp_all
  show ?thesis
    using False rb_is_empty_eq [OF assms(1)] rb_used_eq [OF assms(1)] rb_drain_all [of rb alloc fuel, OF assms]
      length_rb_contents [OF assms(1)]
    unfolding rb_fwrite_def len ascii
    by (auto simp del: rb_drain.simps)
qed

theorem rb_fwrite_frames_witness:
  "\<exists>rb'. rb_fwrite 2 (\<lambda>_. True) example_ring =
     Some (map Some (map of_char ''HEAD'' @ [0, 0, 0, 4, 11, 12, 13, 14] @ map of_char ''TAIL''), rb')"
  using rb_fwrite_frames [of example_ring "\<lambda>_. True" 1, OF example_ring_inv] example_ring_contents
  by (auto simp: example_ring_def numeral_2_eq_2)

subsection \<open>Where the ring is not a queue\<close>

text \<open>
  \<open>rb_write\<close> passes no overflow flag, which \<open>rb_write_with_state\<close> stores through before it
  looks at it: there is no ring and no data for which it has defined behaviour.
\<close>

lemma rb_write_undefined: "rb_write alloc rb from = None"
  by (simp add: rb_write_def rb_write_with_state_def)

text \<open>Creating a thread-safe ring of a bad size dereferences the \<open>NULL\<close> of \<open>rb_new\<close>.\<close>

lemma rb_new_threadsafe_undefined: "sz = 0 \<or> sz_max < sz \<Longrightarrow> rb_new_threadsafe alloc sz sz_max = None"
  by (auto simp: rb_new_threadsafe_def rb_new_def)

text \<open>
  An empty ring whose head has moved overruns its storage when it is given exactly as many
  bytes as it has room for: the test \<open>tail <= write_end\<close> takes the copy for one that does not
  wrap.
\<close>

lemma rb_write_full_overruns:
  assumes "rb_inv rb" "rb_fill rb = 0" "0 < rb_head rb" "length from = rb_size rb"
  shows "rb_write_with_state alloc rb from True = None"
proof -
  have "sz_add (rb_head rb) 0 = rb_head rb" "sz_add (rb_head rb) (rb_size rb) = rb_head rb + rb_size rb"
    using assms(1) sz_add_id [of "rb_head rb" 0]
    by (auto simp: rb_inv_def intro!: sz_add_id)
  then have "rb_copy_in (rb_lock rb) from = None"
    using assms by (simp add: rb_copy_in_def Let_def rb_inv_def wr_def)
  moreover have "rb_remain_in_seg (rb_lock rb) = rb_size rb"
    using rb_remain_in_seg_id [OF assms(1)] assms(2) by (simp add: rb_remain_in_seg_def)
  ultimately show ?thesis
    using assms by (simp add: rb_write_with_state_def rb_inv_def RB_LOCK_bind)
qed

text \<open>
  Growing a ring whose bytes wrap around leaves a gap of fresh storage in the middle of the
  queue: the bytes written last come out where they do not belong.
\<close>

lemma rb_grow_wrapped_breaks_order:
  "\<exists>rb. rb_inv rb \<and> rb_contents rb = map Some [1, 2] \<and>
     (\<exists>rb'. rb_write_with_state (\<lambda>_. True) rb [3] True = Some (False, rb') \<and>
        rb_contents rb' = [Some 1, None, Some 3])"
  by (intro exI [of _ "\<lparr>rb_data = [Some 2, Some 1], rb_size = 2, rb_size_max = 1000,
     rb_size_initial = 2, rb_head = 1, rb_fill = 2, rb_usingMutex = False, rb_locked = False\<rparr>"])
    (simp add: rb_inv_def SZ_LIM_def rb_contents_def rotate_drop_take rb_write_with_state_def
      RB_LOCK_def RB_UNLOCK_def rb_remain_in_seg_def rb_grow_def sz_add_def sz_sub_def sz_mul_def
      rb_realloc_def rb_copy_in_def Let_def wr_def blit_def advance_tail_def)

text \<open>
  A thread-safe ring that overflows releases its mutex before the copy and once more after
  it: the second release is of a mutex that is not held.
\<close>

lemma rb_threadsafe_overflow_undefined:
  assumes "rb_inv rb" "rb_usingMutex rb" "rb_size rb < rb_fill rb + length from"
    and "length from \<le> rb_fill rb" "rb_size_max rb < rb_size rb + length from * 128"
  shows "rb_write_with_state alloc rb from True = None"
proof -
  obtain e where e: "rb_discard rb (length from) = Some e" "rb_inv e"
    using rb_discard_drops [OF assms(1,4)] by blast
  have sizes: "rb_size rb < SZ_LIM" "rb_fill rb \<le> rb_size rb" "rb_locked rb = False"
    using assms(1) by (auto simp: rb_inv_def)
  have "sz_mul (length from) 128 = length from * 128"
       "sz_add (rb_size rb) (length from * 128) = rb_size rb + length from * 128"
    using sizes assms(4) by (auto intro!: sz_mul_id sz_add_id)
  then have grow: "rb_grow alloc (rb_lock rb) (sz_mul (length from) 128) = None"
    using assms(5) by (simp add: rb_grow_def)
  have rem: "rb_remain_in_seg (rb_lock rb) < length from"
    using rb_remain_in_seg_id [OF assms(1)] assms(3) sizes(2)
    by (simp add: rb_remain_in_seg_def)
  have "RB_LOCK rb = Some (rb_lock rb)" "RB_UNLOCK (rb_lock rb) = Some rb"
    using sizes(3) by (cases rb, simp add: RB_LOCK_def RB_UNLOCK_def)+
  note locks = this
  have "rb_usingMutex e" "\<not> rb_locked e"
    using rb_discard_drops [OF assms(1,4)] e assms(2) by (auto simp: rb_inv_def)
  then have "RB_UNLOCK (advance_tail (e\<lparr>rb_data := d\<rparr>) n) = None" for d n
    by (simp add: RB_UNLOCK_def advance_tail_def)
  moreover have "rb_copy_in e from = Some b \<Longrightarrow> \<exists>d. b = e\<lparr>rb_data := d\<rparr>" for b
    by (auto simp: rb_copy_in_def Let_def split: if_splits bind_splits)
  ultimately have "do { buf \<leftarrow> rb_copy_in e from; buf \<leftarrow> RB_UNLOCK (advance_tail buf (length from));
      Some (True, buf) } = None"
    by (cases "rb_copy_in e from") auto
  then show ?thesis
    using grow rem e locks by (simp add: rb_write_with_state_def)
qed

end
