(* ===== verification/Reframer.thy ===== *)
theory Reframer
  imports TsPrelude
begin

text \<open>
  The reframer of \<open>src/src/reframer.c\<close>: it regroups a stream of writes of any length into
  frames of a fixed length and hands each frame to a callback.

  The callback is modelled by what it receives: every call appends one element to the list
  of frames. The send buffer is a list of bytes; a failed allocation of it, which the code does
  not check, is the empty buffer. The result of the operations is \<open>None\<close> where a copy leaves the
  send buffer or the caller's buffer.
\<close>

record ltntstools_reframer_ctx =
  sendBuffer :: bytes
  sendIndex :: int
  minSendBytes :: int

text \<open>
  \<open>frameSizeBytes\<close> is a \<open>uint32_t\<close> that is stored into an \<open>int\<close>. The bytes of the fresh send
  buffer are \<open>junk\<close>: they are never sent before they are written. Without a callback (\<open>cb\<close> is
  false) the result is \<open>NULL\<close>; the allocation of the 32 bytes of the context is not checked, and
  its failure has no defined behaviour.
\<close>

definition ltntstools_reframer_alloc ::
  "allocator \<Rightarrow> bytes \<Rightarrow> u32 \<Rightarrow> bool \<Rightarrow> ltntstools_reframer_ctx option mem" where
  "ltntstools_reframer_alloc alloc junk frameSizeBytes cb =
     (if \<not> cb then Some None
      else if \<not> alloc 32 then None
      else Some (Some \<lparr>sendBuffer = (if alloc (unat frameSizeBytes) then junk else []),
                       sendIndex = 0, minSendBytes = sint frameSizeBytes\<rparr>))"

text \<open>
  The loop, from the bytes \<open>buf + offset\<close>: \<open>len\<close> of them are left. A copy of a negative number
  of bytes is a copy of a huge one. \<open>fuel\<close> bounds the turns; \<open>None\<close> is also running out of it.
\<close>

fun reframer_loop ::
  "nat \<Rightarrow> ltntstools_reframer_ctx \<Rightarrow> bytes \<Rightarrow> int \<Rightarrow> int
    \<Rightarrow> (bytes list \<times> ltntstools_reframer_ctx) mem" where
  "reframer_loop fuel ctx buf offset len =
     (if \<not> len > 0 then Some ([], ctx)
      else case fuel of
        0 \<Rightarrow> None
      | Suc fuel \<Rightarrow>
          let cplen = (if len > minSendBytes ctx - sendIndex ctx
                       then minSendBytes ctx - sendIndex ctx else len)
          in if cplen < 0 then None else
             do { src \<leftarrow> rdn buf (nat offset) (nat cplen);
                  sb \<leftarrow> wr (sendBuffer ctx) (nat (sendIndex ctx)) src;
                  let ctx = ctx\<lparr>sendBuffer := sb, sendIndex := sendIndex ctx + cplen\<rparr>;
                  let offset = offset + cplen;
                  let len = len - cplen;
                  if sendIndex ctx = minSendBytes ctx then
                    do { frame \<leftarrow> rdn (sendBuffer ctx) 0 (nat (minSendBytes ctx));
                         (frames, ctx) \<leftarrow> reframer_loop fuel (ctx\<lparr>sendIndex := 0\<rparr>) buf offset len;
                         Some (frame # frames, ctx) }
                  else reframer_loop fuel ctx buf offset len })"

declare reframer_loop.simps [simp del]

text \<open>
  A write: the frames the callback receives and the context, or \<open>Inl (-1)\<close> for a \<open>NULL\<close>
  context. A frame size of zero passes the buffer through.
\<close>

definition ltststools_reframer_write ::
  "ltntstools_reframer_ctx option \<Rightarrow> bytes \<Rightarrow> int
    \<Rightarrow> (int + bytes list \<times> ltntstools_reframer_ctx) mem" where
  "ltststools_reframer_write ctx buf lengthBytes =
     (case ctx of
        None \<Rightarrow> Some (Inl (-1))
      | Some ctx \<Rightarrow>
          if minSendBytes ctx = 0
          then do { frame \<leftarrow> rdn buf 0 (nat lengthBytes); Some (Inr ([frame], ctx)) }
          else map_option Inr (reframer_loop (Suc (nat lengthBytes)) ctx buf 0 lengthBytes))"

text \<open>A sequence of writes.\<close>

fun reframer_writes ::
  "ltntstools_reframer_ctx \<Rightarrow> bytes list \<Rightarrow> (bytes list \<times> ltntstools_reframer_ctx) mem" where
  "reframer_writes ctx [] = Some ([], ctx)"
| "reframer_writes ctx (buf # bufs) =
     do { r \<leftarrow> ltststools_reframer_write (Some ctx) buf (int (length buf));
          case r of
            Inl e \<Rightarrow> None
          | Inr (frames, ctx) \<Rightarrow>
              do { (rest, ctx) \<leftarrow> reframer_writes ctx bufs; Some (frames @ rest, ctx) } }"

subsection \<open>The pending bytes\<close>

definition reframer_inv :: "ltntstools_reframer_ctx \<Rightarrow> bool" where
  "reframer_inv ctx \<longleftrightarrow>
     0 < minSendBytes ctx \<and> 0 \<le> sendIndex ctx \<and> sendIndex ctx < minSendBytes ctx \<and>
     length (sendBuffer ctx) = nat (minSendBytes ctx)"

definition reframer_pending :: "ltntstools_reframer_ctx \<Rightarrow> bytes" where
  "reframer_pending ctx = take (nat (sendIndex ctx)) (sendBuffer ctx)"

lemma take_blit_end: "i \<le> length dst \<Longrightarrow> take (i + length src) (blit dst i src) = take i dst @ src"
  by (simp add: blit_def)

text \<open>The loop sends full frames only and keeps every byte, in order.\<close>

lemma reframer_loop_regroups:
  assumes "reframer_inv ctx" "nat len < fuel \<or> len \<le> 0" "0 \<le> offset"
    "offset + max 0 len \<le> int (length buf)"
  shows "\<exists>frames ctx'. reframer_loop fuel ctx buf offset len = Some (frames, ctx') \<and>
    reframer_inv ctx' \<and> minSendBytes ctx' = minSendBytes ctx \<and>
    (\<forall>f\<in>set frames. length f = nat (minSendBytes ctx)) \<and>
    concat frames @ reframer_pending ctx' =
      reframer_pending ctx @ take (nat len) (drop (nat offset) buf)"
  using assms
proof (induction fuel arbitrary: ctx offset len)
  case 0
  then show ?case by (simp add: reframer_loop.simps)
next
  case (Suc fuel)
  show ?case
  proof (cases "len > 0")
    case False
    then show ?thesis using Suc.prems by (simp add: reframer_loop.simps)
  next
    case True
    define room cplen where "room = minSendBytes ctx - sendIndex ctx"
      and "cplen = (if len > room then room else len)"
    define src where "src = take (nat cplen) (drop (nat offset) buf)"
    define sb where "sb = blit (sendBuffer ctx) (nat (sendIndex ctx)) src"
    define ctx1 where "ctx1 = ctx\<lparr>sendBuffer := sb, sendIndex := sendIndex ctx + cplen\<rparr>"
    have c: "0 < cplen" "cplen \<le> len" "cplen \<le> room"
      using True Suc.prems(1) by (auto simp: cplen_def room_def reframer_inv_def)
    have src: "rdn buf (nat offset) (nat cplen) = Some src" "length src = nat cplen"
      using Suc.prems(3,4) c by (auto simp: src_def)
    have fits: "nat (sendIndex ctx) + length src \<le> length (sendBuffer ctx)"
      using Suc.prems(1) c src(2) by (auto simp: reframer_inv_def room_def)
    have sb: "wr (sendBuffer ctx) (nat (sendIndex ctx)) src = Some sb"
        "length sb = nat (minSendBytes ctx)"
      using fits Suc.prems(1) by (auto simp: sb_def reframer_inv_def)
    have "nat (sendIndex ctx + cplen) = nat (sendIndex ctx) + length src"
      using Suc.prems(1) c src(2) by (auto simp: reframer_inv_def)
    then have pend: "take (nat (sendIndex ctx + cplen)) sb = reframer_pending ctx @ src"
      using fits by (simp add: sb_def reframer_pending_def take_blit_end)
    have rest: "src @ take (nat (len - cplen)) (drop (nat (offset + cplen)) buf)
        = take (nat len) (drop (nat offset) buf)"
    proof -
      have "nat (offset + cplen) = nat cplen + nat offset" "nat len = nat cplen + nat (len - cplen)"
        using c Suc.prems(3) by auto
      then show ?thesis by (simp add: src_def take_add)
    qed
    have step: "reframer_loop (Suc fuel) ctx buf offset len =
      (if sendIndex ctx1 = minSendBytes ctx1 then
         do { (frames, ctx) \<leftarrow> reframer_loop fuel (ctx1\<lparr>sendIndex := 0\<rparr>) buf (offset + cplen) (len - cplen);
              Some (sb # frames, ctx) }
       else reframer_loop fuel ctx1 buf (offset + cplen) (len - cplen))"
    proof -
      have "(if len > minSendBytes ctx - sendIndex ctx
             then minSendBytes ctx - sendIndex ctx else len) = cplen"
        by (simp add: cplen_def room_def)
      then show ?thesis
        unfolding reframer_loop.simps [of "Suc fuel"]
        using True c src(1) sb by (simp only: nat.case) (simp add: Let_def ctx1_def)
    qed
    have prems: "nat (len - cplen) < fuel \<or> len - cplen \<le> 0" "0 \<le> offset + cplen"
      "offset + cplen + max 0 (len - cplen) \<le> int (length buf)"
      using c Suc.prems(2-4) by auto
    show ?thesis
    proof (cases "sendIndex ctx1 = minSendBytes ctx1")
      case True
      have "reframer_inv (ctx1\<lparr>sendIndex := 0\<rparr>)" "reframer_pending (ctx1\<lparr>sendIndex := 0\<rparr>) = []"
        "sb = reframer_pending ctx @ src"
        using Suc.prems(1) sb(2) True pend
        by (auto simp: reframer_inv_def ctx1_def reframer_pending_def)
      then show ?thesis
        using Suc.IH [of "ctx1\<lparr>sendIndex := 0\<rparr>", OF _ prems] True sb(2) rest
        by (fastforce simp: step ctx1_def)
    next
      case False
      have "reframer_inv ctx1" "reframer_pending ctx1 = reframer_pending ctx @ src"
        using Suc.prems(1) sb(2) False pend c
        by (auto simp: reframer_inv_def ctx1_def reframer_pending_def room_def)
      then show ?thesis
        using Suc.IH [of ctx1, OF _ prems] False rest
        by (fastforce simp: step ctx1_def)
    qed
  qed
qed

lemma reframer_writes_regroup:
  assumes "reframer_inv ctx"
  shows "\<exists>frames ctx'. reframer_writes ctx bufs = Some (frames, ctx') \<and>
    reframer_inv ctx' \<and> minSendBytes ctx' = minSendBytes ctx \<and>
    (\<forall>f\<in>set frames. length f = nat (minSendBytes ctx)) \<and>
    concat frames @ reframer_pending ctx' = reframer_pending ctx @ concat bufs"
  using assms
proof (induction bufs arbitrary: ctx)
  case (Cons buf bufs)
  obtain frames ctx1 where
    "reframer_loop (Suc (length buf)) ctx buf 0 (int (length buf)) = Some (frames, ctx1)"
    "reframer_inv ctx1" "minSendBytes ctx1 = minSendBytes ctx"
    "\<forall>f\<in>set frames. length f = nat (minSendBytes ctx)"
    "concat frames @ reframer_pending ctx1 = reframer_pending ctx @ buf"
    using reframer_loop_regroups [OF Cons.prems, of "int (length buf)" "Suc (length buf)" 0 buf] by auto
  moreover obtain rest ctx2 where
    "reframer_writes ctx1 bufs = Some (rest, ctx2)" "reframer_inv ctx2"
    "minSendBytes ctx2 = minSendBytes ctx1" "\<forall>f\<in>set rest. length f = nat (minSendBytes ctx1)"
    "concat rest @ reframer_pending ctx2 = reframer_pending ctx1 @ concat bufs"
    using Cons.IH [of ctx1] calculation(2) by blast
  moreover have "minSendBytes ctx \<noteq> 0" using Cons.prems by (simp add: reframer_inv_def)
  ultimately show ?case
    by (auto simp: ltststools_reframer_write_def simp flip: append_assoc)
       (metis append_assoc)
qed simp

lemma reframer_alloc_inv:
  assumes "n = unat frameSizeBytes" "0 < n" "n < 2 ^ 31" "alloc n" "length junk = n" "alloc 32"
  shows "\<exists>ctx. ltntstools_reframer_alloc alloc junk frameSizeBytes True = Some (Some ctx)
    \<and> reframer_inv ctx \<and> reframer_pending ctx = [] \<and> minSendBytes ctx = int n"
proof -
  have "sint frameSizeBytes = int n" "alloc (unat frameSizeBytes)"
    using sint_small [of frameSizeBytes] assms by simp_all
  then show ?thesis
    using assms(2,5,6) by (simp add: ltntstools_reframer_alloc_def reframer_inv_def reframer_pending_def)
qed

subsection \<open>Properties\<close>

text \<open>
  C27: The reframer regroups and loses nothing. With a callback and the memory it asks for, after any sequence of writes of any lengths,
  none of which leaves a buffer or fails to end, every frame the callback received has
  exactly the configured size, and the frames put together, followed by fewer pending bytes than a frame,
  are exactly the bytes written, in order.
\<close>

theorem reframer_regroups:
  assumes "0 < frameSizeBytes" "frameSizeBytes < 2 ^ 31" "alloc 32" "alloc (unat frameSizeBytes)"
    "length junk = unat frameSizeBytes"
  shows "\<exists>ctx0 frames ctx. ltntstools_reframer_alloc alloc junk frameSizeBytes True = Some (Some ctx0) \<and>
    reframer_writes ctx0 bufs = Some (frames, ctx) \<and>
    (\<forall>f\<in>set frames. length f = unat frameSizeBytes) \<and>
    length (reframer_pending ctx) < unat frameSizeBytes \<and>
    concat frames @ reframer_pending ctx = concat bufs"
proof -
  define n where "n = unat frameSizeBytes"
  have n: "0 < n" "n < 2 ^ 31" "alloc n" "length junk = n"
    using assms by (simp_all add: n_def word_less_nat_alt)
  then obtain ctx0 where c: "ltntstools_reframer_alloc alloc junk frameSizeBytes True = Some (Some ctx0)"
      "reframer_inv ctx0" "reframer_pending ctx0 = []" "minSendBytes ctx0 = int n"
    using reframer_alloc_inv [of n frameSizeBytes alloc junk] assms(3) by (auto simp: n_def)
  then obtain frames ctx where w: "reframer_writes ctx0 bufs = Some (frames, ctx)"
    "reframer_inv ctx" "minSendBytes ctx = int n" "\<forall>f\<in>set frames. length f = n"
    "concat frames @ reframer_pending ctx = concat bufs"
    using reframer_writes_regroup [of ctx0 bufs] by auto
  moreover have "length (reframer_pending ctx) < n"
    using w(2,3) by (auto simp: reframer_inv_def reframer_pending_def)
  ultimately show ?thesis using c(1) unfolding n_def by blast
qed

theorem reframer_regroups_witness:
  "\<exists>ctx0 frames ctx. ltntstools_reframer_alloc (\<lambda>_. True) [9, 9, 9] 3 True = Some (Some ctx0) \<and>
    reframer_writes ctx0 [[1, 2], [3, 4, 5, 6, 7], [], [8]] = Some (frames, ctx) \<and>
    (\<forall>f\<in>set frames. length f = unat (3 :: u32)) \<and> length (reframer_pending ctx) < unat (3 :: u32) \<and>
    concat frames @ reframer_pending ctx = concat [[1, 2], [3, 4, 5, 6, 7], [], [8]]"
  by (rule reframer_regroups) simp_all

end
