(* ===== verification/Bits.thy ===== *)
theory Bits
  imports TsPrelude
begin

text \<open>
  Bit strings: fields of values, the bits of a buffer, and the interface of a reader that
  takes the bits of a buffer one by one. The generic bitstream reader and the reader of NAL
  units both provide that interface.
\<close>

subsection \<open>Sequences of bits\<close>

text \<open>A field of \<open>n\<close> bits of a value and the bits of a buffer, most significant first.\<close>

fun field :: "nat \<Rightarrow> 'a::semiring_bit_operations \<Rightarrow> bool list" where
  "field 0 v = []"
| "field (Suc n) v = bit v n # field n v"

definition bits_of :: "bytes \<Rightarrow> bool list" where
  "bits_of bs = concat (map (field 8) bs)"

definition has_bits :: "bytes \<Rightarrow> nat \<Rightarrow> bool list \<Rightarrow> bool" where
  "has_bits buf k xs \<longleftrightarrow> k + length xs \<le> 8 * length buf \<and> take (length xs) (drop k (bits_of buf)) = xs"

lemma length_field [simp]: "length (field n v) = n"
  by (induction n) auto

lemma field_numeral: "field (numeral k) v = bit v (pred_numeral k) # field (pred_numeral k) v"
  by (simp add: numeral_eq_Suc)

lemma field_append: "field (m + n) v = field m (drop_bit n v) @ field n v"
  by (induction m) (auto simp: bit_simps ac_simps)

lemma nth_field: "i < n \<Longrightarrow> field n v ! i = bit v (n - 1 - i)"
  by (induction n arbitrary: i) (auto simp: nth_Cons')

lemma field_cong: "(\<And>i. i < n \<Longrightarrow> bit v i = bit w i) \<Longrightarrow> field n v = field n w"
  by (induction n) auto

lemma field_take_bit: "n \<le> m \<Longrightarrow> field n (take_bit m v) = field n v"
  by (rule field_cong) (simp add: bit_simps)

lemma field_shift_in:
  "n < 8 \<Longrightarrow> field (Suc n) (push_bit 1 (r :: u8) OR ucast (b AND 1 :: u32)) = field n r @ [bit b 0]"
proof -
  have f1: "field 1 x = [bit x 0]" for x :: u8 by simp
  assume "n < 8"
  then have "field (n + 1) (push_bit 1 r OR ucast (b AND 1)) = field n r @ [bit b 0]"
    unfolding field_append f1
    by (auto simp: bit_simps simp del: push_bit_Suc One_nat_def intro!: field_cong)
  then show ?thesis by simp
qed

lemma length_bits_of [simp]: "length (bits_of bs) = 8 * length bs"
  by (induction bs) (auto simp: bits_of_def)

lemma bits_of_append [simp]: "bits_of (xs @ ys) = bits_of xs @ bits_of ys"
  by (simp add: bits_of_def)

lemma bits_of_single [simp]: "bits_of [b] = field 8 b"
  by (simp add: bits_of_def)

lemma take_bits_of: "take (8 * n) (bits_of bs) = bits_of (take n bs)"
proof (induction bs arbitrary: n)
  case (Cons b bs)
  then show ?case by (cases n) (auto simp: bits_of_def)
qed (simp add: bits_of_def)

lemma drop_bits_of: "drop (8 * n) (bits_of bs) = bits_of (drop n bs)"
proof (induction bs arbitrary: n)
  case (Cons b bs)
  then show ?case by (cases n) (auto simp: bits_of_def)
qed (simp add: bits_of_def)

lemma nth_bits_of:
  assumes "i < 8 * length bs"
  shows "bits_of bs ! i = bit (bs ! (i div 8)) (7 - i mod 8)"
proof -
  let ?n = "i div 8"
  have n: "?n < length bs" "8 * ?n + i mod 8 = i" using assms by auto
  have "bits_of bs ! i = drop (8 * ?n) (bits_of bs) ! (i mod 8)"
    using n assms by (subst nth_drop) auto
  also have "\<dots> = bits_of (bs ! ?n # drop (Suc ?n) bs) ! (i mod 8)"
    using n by (simp only: drop_bits_of Cons_nth_drop_Suc)
  also have "\<dots> = field 8 (bs ! ?n) ! (i mod 8)"
    by (simp add: bits_of_def nth_append del: field.simps)
  finally show ?thesis by (simp add: nth_field)
qed

lemma has_bits_Nil [simp]: "has_bits buf k [] \<longleftrightarrow> k \<le> 8 * length buf"
  by (simp add: has_bits_def)

lemma has_bits_append:
  "has_bits buf k (xs @ ys) \<longleftrightarrow> has_bits buf k xs \<and> has_bits buf (k + length xs) ys"
proof -
  have "take (length xs + length ys) zs = xs @ ys \<longleftrightarrow>
      take (length xs) zs = xs \<and> take (length ys) (drop (length xs) zs) = ys"
    if "length xs + length ys \<le> length zs" for zs :: "bool list"
    using that by (auto simp: take_add append_eq_append_conv min_def)
  from this [of "drop k (bits_of buf)"] show ?thesis
    by (auto simp: has_bits_def add.commute)
qed

lemma has_bits_Cons:
  "has_bits buf k (x # xs) \<longleftrightarrow>
     k < 8 * length buf \<and> bit (buf ! (k div 8)) (7 - k mod 8) = x \<and> has_bits buf (Suc k) xs"
proof -
  have "has_bits buf k [x] \<longleftrightarrow> k < 8 * length buf \<and> bit (buf ! (k div 8)) (7 - k mod 8) = x"
    by (auto simp: has_bits_def take_Suc_conv_app_nth nth_bits_of)
  then show ?thesis
    using has_bits_append [of buf k "[x]" xs] by (simp add: conj_assoc)
qed

lemma has_bits_field8: "k < length buf \<Longrightarrow> has_bits buf (8 * k) (field 8 b) \<longleftrightarrow> buf ! k = b"
proof -
  assume k: "k < length buf"
  have inj: "field 8 (b :: u8) = field 8 c \<Longrightarrow> b = c" for b c
    by (rule bit_word_eqI) (auto simp: eval_nat_numeral less_Suc_eq)
  have "take 8 (drop (8 * k) (bits_of buf)) = field 8 (buf ! k)"
    using k unfolding drop_bits_of by (subst Cons_nth_drop_Suc [symmetric])
      (auto simp: bits_of_def simp del: field.simps)
  then show ?thesis
    using k inj by (auto simp: has_bits_def simp del: field.simps)
qed

subsection \<open>Readers of bits\<close>

text \<open>
  A reader of a buffer: \<open>at s k\<close> says that the state \<open>s\<close> has consumed \<open>k\<close> bits. Collecting \<open>n\<close>
  bits into a word by shifting, most significant bit first, yields the field stored there.
\<close>

fun gather :: "('s \<Rightarrow> (bool \<times> 's) mem) \<Rightarrow> nat \<Rightarrow> 'w::len word \<Rightarrow> 's \<Rightarrow> ('w word \<times> 's) mem" where
  "gather next_bit 0 acc s = Some (acc, s)"
| "gather next_bit (Suc n) acc s =
     do { (b, s) \<leftarrow> next_bit s; gather next_bit n (push_bit 1 acc OR of_bool b) s }"

locale bit_source =
  fixes buf :: bytes
    and at :: "'s \<Rightarrow> nat \<Rightarrow> bool"
    and next_bit :: "'s \<Rightarrow> (bool \<times> 's) mem"
  assumes next_bit_ok: "at s k \<Longrightarrow> k < 8 * length buf \<Longrightarrow>
    mem_ok (next_bit s) (\<lambda>(b, s'). b = bit (buf ! (k div 8)) (7 - k mod 8) \<and> at s' (Suc k))"
begin

lemma gather_field:
  assumes "at s k" "has_bits buf k (field n (v :: 'w::len word))" "n \<le> LENGTH('w)"
  shows "mem_ok (gather next_bit n acc s) (\<lambda>(w, s'). w = push_bit n acc OR take_bit n v \<and> at s' (k + n))"
  using assms
proof (induction n arbitrary: s k acc)
  case (Suc n)
  let ?acc = "push_bit 1 acc OR of_bool (bit v n)"
  have b: "k < 8 * length buf" "bit (buf ! (k div 8)) (7 - k mod 8) = bit v n"
      "has_bits buf (Suc k) (field n v)"
    using Suc.prems(2) by (auto simp: has_bits_Cons)
  obtain s' where s': "next_bit s = Some (bit v n, s')" "at s' (Suc k)"
    using next_bit_ok [OF Suc.prems(1) b(1)] b(2) by (auto elim!: mem_okE)
  have "push_bit n ?acc OR take_bit n v = push_bit (Suc n) acc OR take_bit (Suc n) v"
    using Suc.prems(3)
    by (intro bit_word_eqI)
      (auto simp: bit_simps less_Suc_eq simp del: push_bit_Suc One_nat_def simp flip: Suc_eq_plus1)
  then show ?case
    using Suc.IH [OF s'(2) b(3), of ?acc] Suc.prems(3) s'(1) by simp
qed simp

end

end
