(* ===== verification/Bitstream.thy ===== *)
theory Bitstream
  imports Bits
begin

text \<open>
  The bit reader and writer of \<open>src/src/libltntstools/klbitstream_readwriter.h\<close>, with the
  configuration switches as the header sets them: an overrun is flagged and the operation
  goes on.

  The context is a record that owns its buffer. The byte counters are \<open>nat\<close>: a buffer has
  fewer than \<open>2 ^ 32\<close> bytes, and the code leaves the buffer before the counters wrap. Reading or
  writing outside the buffer, a failed assertion and a shift by 64 or more are \<open>None\<close>. The
  diagnostics on \<open>stderr\<close> are left out.
\<close>

subsection \<open>State and operations\<close>

record klbs_context =
  kb_buf :: bytes
  kb_buflen :: nat
  kb_buflen_used :: nat
  kb_reg_used :: nat
  kb_reg :: u8
  kb_didAllocateStorage :: bool
  kb_overrun :: bool
  kb_truncated :: bool

definition klbs_get_byte_count_free :: "klbs_context \<Rightarrow> u32" where
  "klbs_get_byte_count_free ctx = of_nat (kb_buflen ctx) - of_nat (kb_buflen_used ctx)"

definition klbs_save :: "klbs_context \<Rightarrow> bytes mem" where
  "klbs_save ctx = rdn (kb_buf ctx) 0 (kb_buflen_used ctx)"

definition klbs_init :: klbs_context where
  "klbs_init =
     \<lparr>kb_buf = [], kb_buflen = 0, kb_buflen_used = 0, kb_reg_used = 0, kb_reg = 0,
      kb_didAllocateStorage = False, kb_overrun = False, kb_truncated = False\<rparr>"

definition klbs_alloc :: "allocator \<Rightarrow> klbs_context option" where
  "klbs_alloc alloc = (if alloc 40 then Some klbs_init else None)"

definition klbs_write_set_buffer :: "bytes \<Rightarrow> nat \<Rightarrow> klbs_context" where
  "klbs_write_set_buffer buf lengthBytes = klbs_init\<lparr>kb_buf := buf, kb_buflen := lengthBytes\<rparr>"

definition klbs_read_set_buffer :: "bytes \<Rightarrow> nat \<Rightarrow> klbs_context" where
  "klbs_read_set_buffer buf lengthBytes = klbs_write_set_buffer buf lengthBytes"

text \<open>The flag set whenever a counter has reached the end of the buffer.\<close>

definition flag_end :: "klbs_context \<Rightarrow> klbs_context" where
  "flag_end ctx =
     (if kb_buflen_used ctx \<ge> kb_buflen ctx then ctx\<lparr>kb_overrun := True\<rparr> else ctx)"

definition klbs_write_bit :: "klbs_context \<Rightarrow> u32 \<Rightarrow> klbs_context mem" where
  "klbs_write_bit ctx0 b =
     (let ctx = flag_end ctx0
      in if \<not> kb_buflen_used ctx \<le> kb_buflen ctx then None
         else
           let ctx = (if kb_reg_used ctx < 8
                      then ctx\<lparr>kb_reg := push_bit 1 (kb_reg ctx) OR ucast (b AND 1),
                               kb_reg_used := kb_reg_used ctx + 1\<rparr>
                      else ctx)
           in if kb_reg_used ctx = 8 then
                let ctx = flag_end ctx
                in do { d \<leftarrow> wr (kb_buf ctx) (kb_buflen_used ctx) [kb_reg ctx];
                        Some (ctx\<lparr>kb_buf := d, kb_buflen_used := kb_buflen_used ctx + 1,
                                  kb_reg_used := 0\<rparr>) }
              else Some ctx)"

text \<open>
  The loop that stuffs to a byte boundary; eight turns are enough because the register holds
  at most eight bits.
\<close>

fun write_byte_stuff_loop :: "nat \<Rightarrow> klbs_context \<Rightarrow> u32 \<Rightarrow> klbs_context mem" where
  "write_byte_stuff_loop fuel ctx b =
     (if \<not> kb_reg_used ctx > 0 then Some ctx
      else case fuel of
        0 \<Rightarrow> None
      | Suc fuel \<Rightarrow> do { ctx \<leftarrow> klbs_write_bit ctx b; write_byte_stuff_loop fuel (flag_end ctx) b })"

declare write_byte_stuff_loop.simps [simp del]

definition klbs_write_byte_stuff :: "klbs_context \<Rightarrow> u32 \<Rightarrow> klbs_context mem" where
  "klbs_write_byte_stuff ctx b = write_byte_stuff_loop 8 ctx b"

text \<open>\<open>for (int i = bitcount - 1; i >= 0; i--)\<close>: the argument is \<open>i + 1\<close>.\<close>

fun klbs_write_bits :: "klbs_context \<Rightarrow> u64 \<Rightarrow> nat \<Rightarrow> klbs_context mem" where
  "klbs_write_bits ctx bits 0 = Some ctx"
| "klbs_write_bits ctx bits (Suc i) =
     (if i \<ge> 64 then None
      else do { ctx \<leftarrow> klbs_write_bit ctx (ucast (drop_bit i bits));
                klbs_write_bits (flag_end ctx) bits i })"

text \<open>\<open>for (int i = ctx->reg_used; i <= 8; i++)\<close>: the argument is the number of turns left.\<close>

fun write_zeros :: "nat \<Rightarrow> klbs_context \<Rightarrow> klbs_context mem" where
  "write_zeros 0 ctx = Some ctx"
| "write_zeros (Suc n) ctx = do { ctx \<leftarrow> klbs_write_bit ctx 0; write_zeros n (flag_end ctx) }"

definition klbs_write_buffer_complete :: "klbs_context \<Rightarrow> klbs_context mem" where
  "klbs_write_buffer_complete ctx =
     (if kb_reg_used ctx > 0 then write_zeros (9 - kb_reg_used ctx) ctx else Some ctx)"

definition klbs_read_bit :: "klbs_context \<Rightarrow> (u32 \<times> klbs_context) mem" where
  "klbs_read_bit ctx0 =
     (let ctx = (if \<not> kb_buflen_used ctx0 \<le> kb_buflen ctx0 then ctx0\<lparr>kb_overrun := True\<rparr> else ctx0)
      in do { ctx \<leftarrow> (if kb_reg_used ctx = 0 then
                       let ctx = flag_end ctx
                       in do { b \<leftarrow> rd (kb_buf ctx) (kb_buflen_used ctx);
                               Some (ctx\<lparr>kb_reg := b, kb_buflen_used := kb_buflen_used ctx + 1,
                                         kb_reg_used := 8\<rparr>) }
                     else Some ctx);
              if kb_reg_used ctx \<le> 8
              then Some (if kb_reg ctx AND 0x80 \<noteq> 0 then 1 else 0,
                         ctx\<lparr>kb_reg := push_bit 1 (kb_reg ctx), kb_reg_used := kb_reg_used ctx - 1\<rparr>)
              else Some (0, ctx) })"

definition klbs_read_byte_aligned :: "klbs_context \<Rightarrow> (u64 \<times> klbs_context) mem" where
  "klbs_read_byte_aligned ctx0 =
     (let ctx = flag_end ctx0
      in do { b \<leftarrow> rd (kb_buf ctx) (kb_buflen_used ctx);
              Some (ucast b, ctx\<lparr>kb_buflen_used := kb_buflen_used ctx + 1\<rparr>) })"

fun read_bits_loop :: "nat \<Rightarrow> u64 \<Rightarrow> klbs_context \<Rightarrow> (u64 \<times> klbs_context) mem" where
  "read_bits_loop 0 bits ctx = Some (bits, ctx)"
| "read_bits_loop (Suc n) bits ctx =
     do { (b, ctx) \<leftarrow> klbs_read_bit ctx;
          read_bits_loop n (push_bit 1 bits OR ucast b) (flag_end ctx) }"

definition klbs_read_bits :: "klbs_context \<Rightarrow> nat \<Rightarrow> (u64 \<times> klbs_context) mem" where
  "klbs_read_bits ctx bitcount =
     (if bitcount = 8 \<and> kb_reg_used ctx = 0 then klbs_read_byte_aligned ctx
      else read_bits_loop bitcount 0 ctx)"

text \<open>The end test of \<open>klbs_peek_bits\<close> adds a number of bits to a number of bytes.\<close>

definition klbs_peek_bits :: "klbs_context \<Rightarrow> nat \<Rightarrow> (u64 \<times> klbs_context) mem" where
  "klbs_peek_bits ctx0 bitcount =
     (let ctx = (if (kb_buflen_used ctx0 + bitcount) mod 2 ^ 32 \<ge> kb_buflen ctx0
                 then ctx0\<lparr>kb_overrun := True\<rparr> else ctx0)
      in do { (bits, copy) \<leftarrow> klbs_read_bits ctx bitcount; Some (bits, ctx) })"

fun read_byte_stuff_loop :: "nat \<Rightarrow> klbs_context \<Rightarrow> klbs_context mem" where
  "read_byte_stuff_loop fuel ctx =
     (if \<not> kb_reg_used ctx > 0 then Some ctx
      else case fuel of
        0 \<Rightarrow> None
      | Suc fuel \<Rightarrow> do { (b, ctx) \<leftarrow> klbs_read_bit ctx; read_byte_stuff_loop fuel (flag_end ctx) })"

declare read_byte_stuff_loop.simps [simp del]

definition klbs_read_byte_stuff :: "klbs_context \<Rightarrow> klbs_context mem" where
  "klbs_read_byte_stuff ctx = read_byte_stuff_loop 8 ctx"

definition klbs_alloc_init_with_storage :: "allocator \<Rightarrow> nat \<Rightarrow> bool \<Rightarrow> klbs_context option" where
  "klbs_alloc_init_with_storage alloc storageSizeBytes writeMode =
     (if \<not> alloc 40 then None
      else if \<not> alloc storageSizeBytes then None
      else let buf = replicate storageSizeBytes 0
           in Some (if writeMode then klbs_write_set_buffer buf storageSizeBytes
                    else klbs_read_set_buffer buf storageSizeBytes))"

text \<open>Moving bits between two distinct contexts: the new destination and source.\<close>

fun klbs_bitmove ::
  "klbs_context \<Rightarrow> klbs_context \<Rightarrow> nat \<Rightarrow> (klbs_context \<times> klbs_context) mem" where
  "klbs_bitmove dst src 0 = Some (dst, src)"
| "klbs_bitmove dst src (Suc n) =
     do { (b, src) \<leftarrow> klbs_read_bit src;
          dst \<leftarrow> klbs_write_bit dst b;
          klbs_bitmove dst src n }"

definition klbs_bitcopy ::
  "klbs_context \<Rightarrow> klbs_context \<Rightarrow> nat \<Rightarrow> (klbs_context \<times> klbs_context) mem" where
  "klbs_bitcopy dst src bits =
     (let over = kb_buflen_used src + bits \<ge> kb_buflen src \<or> kb_buflen_used dst + bits \<ge> kb_buflen dst;
          src1 = (if over then src\<lparr>kb_overrun := True\<rparr> else src);
          dst1 = (if over then dst\<lparr>kb_overrun := True\<rparr> else dst)
      in do { (dst, copy) \<leftarrow> klbs_bitmove dst1 src bits; Some (dst, src1) })"

subsection \<open>The writer\<close>

text \<open>A context that writes into a buffer of \<open>L\<close> bytes and has been given the bits \<open>xs\<close>.\<close>

definition written :: "klbs_context \<Rightarrow> nat \<Rightarrow> bool list \<Rightarrow> bool" where
  "written ctx L xs \<longleftrightarrow>
     length (kb_buf ctx) = L \<and> kb_buflen ctx = L \<and> kb_buflen_used ctx \<le> L \<and> kb_reg_used ctx < 8 \<and>
     xs = bits_of (take (kb_buflen_used ctx) (kb_buf ctx)) @ field (kb_reg_used ctx) (kb_reg ctx)"

lemma written_length: "written ctx L xs \<Longrightarrow> length xs = 8 * kb_buflen_used ctx + kb_reg_used ctx"
  by (simp add: written_def)

lemma written_flag_end [simp]: "written (flag_end ctx) L xs = written ctx L xs"
  by (simp add: written_def flag_end_def)

lemma flag_end_simps [simp]:
  "kb_buf (flag_end ctx) = kb_buf ctx" "kb_buflen (flag_end ctx) = kb_buflen ctx"
  "kb_buflen_used (flag_end ctx) = kb_buflen_used ctx" "kb_reg (flag_end ctx) = kb_reg ctx"
  "kb_reg_used (flag_end ctx) = kb_reg_used ctx" "kb_truncated (flag_end ctx) = kb_truncated ctx"
  by (simp_all add: flag_end_def)

lemma written_start: "written (klbs_write_set_buffer buf (length buf)) (length buf) []"
  by (simp add: written_def klbs_write_set_buffer_def klbs_init_def bits_of_def)

lemma write_bit_ok:
  assumes "written ctx L xs" "length xs < 8 * L"
    and "\<And>ctx'. written ctx' L (xs @ [bit b 0]) \<Longrightarrow> Q ctx'"
  shows "mem_ok (klbs_write_bit ctx b) Q"
proof -
  have u: "kb_buflen_used ctx < L" using written_length [OF assms(1)] assms(2) by simp
  define r where "r = push_bit 1 (kb_reg ctx) OR ucast (b AND 1)"
  have r: "field (Suc (kb_reg_used ctx)) r = field (kb_reg_used ctx) (kb_reg ctx) @ [bit b 0]"
    using assms(1) unfolding r_def by (intro field_shift_in) (simp add: written_def)
  show ?thesis
  proof (cases "Suc (kb_reg_used ctx) = 8")
    case True
    have full: "field 8 r = field (kb_reg_used ctx) (kb_reg ctx) @ [bit b 0]"
      using r unfolding True .
    show ?thesis
      using assms(1) u True full
      by (auto simp: klbs_write_bit_def Let_def r_def [symmetric] written_def blit_def
          simp del: field.simps push_bit_Suc One_nat_def intro!: assms(3)) simp_all
  next
    case False
    then show ?thesis
      using assms(1) u r
      by (auto simp: klbs_write_bit_def Let_def r_def [symmetric] written_def
          simp del: field.simps push_bit_Suc One_nat_def simp flip: Suc_eq_plus1 intro!: assms(3))
  qed
qed

lemma write_bits_ok:
  assumes "written ctx L xs" "length xs + n \<le> 8 * L" "n \<le> 64"
    and "\<And>ctx'. written ctx' L (xs @ field n v) \<Longrightarrow> Q ctx'"
  shows "mem_ok (klbs_write_bits ctx v n) Q"
  using assms
proof (induction n arbitrary: ctx xs)
  case (Suc n)
  have "mem_ok (klbs_write_bit ctx (ucast (drop_bit n v)))
      (\<lambda>ctx. mem_ok (klbs_write_bits (flag_end ctx) v n) Q)"
  proof (rule write_bit_ok [OF Suc.prems(1)])
    fix ctx' assume "written ctx' L (xs @ [bit (ucast (drop_bit n v) :: u32) 0])"
    then have "written (flag_end ctx') L (xs @ [bit v n])" by (simp add: bit_simps)
    then show "mem_ok (klbs_write_bits (flag_end ctx') v n) Q"
      by (rule Suc.IH) (use Suc.prems in auto)
  qed (use Suc.prems in auto)
  then show ?case using Suc.prems(3) by simp
qed simp

text \<open>Once whole bytes have been written the buffer holds the bits.\<close>

lemma written_has_bits:
  assumes "written ctx L xs" "8 dvd length xs"
  shows "has_bits (kb_buf ctx) 0 xs" "kb_buflen_used ctx = length xs div 8" "kb_reg_used ctx = 0"
proof -
  have len: "length xs = 8 * kb_buflen_used ctx + kb_reg_used ctx" "kb_reg_used ctx < 8"
    using assms(1) written_length by (auto simp: written_def)
  have "length xs mod 8 = 0" using assms(2) by (rule dvd_imp_mod_0)
  with len show z: "kb_reg_used ctx = 0" "kb_buflen_used ctx = length xs div 8"
    by simp_all
  then show "has_bits (kb_buf ctx) 0 xs"
    using assms(1) len by (auto simp: written_def has_bits_def take_bits_of [symmetric] min_def)
qed

subsection \<open>The reader\<close>

text \<open>A context that reads a buffer and has consumed \<open>k\<close> bits of it.\<close>

definition reading :: "klbs_context \<Rightarrow> bytes \<Rightarrow> nat \<Rightarrow> nat \<Rightarrow> bool" where
  "reading ctx buf L k \<longleftrightarrow>
     kb_buf ctx = buf \<and> kb_buflen ctx = L \<and>
     (if k mod 8 = 0 then kb_buflen_used ctx = k div 8 \<and> kb_reg_used ctx = 0
      else kb_buflen_used ctx = Suc (k div 8) \<and> kb_reg_used ctx = 8 - k mod 8 \<and>
           kb_reg ctx = push_bit (k mod 8) (buf ! (k div 8)))"

lemma reading_flag_end [simp]: "reading (flag_end ctx) buf L k = reading ctx buf L k"
  by (simp add: reading_def)

lemma reading_start: "reading (klbs_read_set_buffer buf L) buf L 0"
  by (simp add: reading_def klbs_read_set_buffer_def klbs_write_set_buffer_def klbs_init_def)

lemma and_0x80: "(r :: u8) AND 0x80 \<noteq> 0 \<longleftrightarrow> bit r 7"
proof -
  have "r AND 0x80 = (if bit r 7 then 0x80 else 0)"
    by (rule bit_word_eqI)
      (auto simp: bit_simps eval_nat_numeral less_Suc_eq)
  then show ?thesis by simp
qed

lemma read_bit_ok:
  assumes "reading ctx buf L k" "k < 8 * length buf"
    and "\<And>ctx'. reading ctx' buf L (Suc k) \<Longrightarrow> kb_truncated ctx' = kb_truncated ctx \<Longrightarrow>
           Q (of_bool (bit (buf ! (k div 8)) (7 - k mod 8)), ctx')"
  shows "mem_ok (klbs_read_bit ctx) Q"
proof -
  define q r b where "q = k div 8" and "r = k mod 8" and "b = buf ! q"
  have k: "q < length buf" "r < 8" "k = 8 * q + r"
    using assms(2) by (auto simp: q_def r_def)
  have next_k: "Suc k div 8 = (if r = 7 then Suc q else q)" "Suc k mod 8 = (if r = 7 then 0 else Suc r)"
  proof -
    have "Suc k = 8 * Suc q + 0" if "r = 7" using that k(3) by simp
    moreover have "Suc k = 8 * q + Suc r" using k(3) by simp
    ultimately show "Suc k div 8 = (if r = 7 then Suc q else q)"
      "Suc k mod 8 = (if r = 7 then 0 else Suc r)"
      using k(2) by (cases "r = 7"; simp del: mult_Suc_right)+
  qed
  have bit7: "push_bit r b AND 0x80 \<noteq> 0 \<longleftrightarrow> bit b (7 - r)"
    using k(2) by (simp add: and_0x80 bit_simps)
  have shift: "push_bit 1 (push_bit r b) = push_bit (Suc r) b"
    by (simp only: push_bit_push_bit Suc_eq_plus1_left)
  have at: "kb_buf ctx = buf" "kb_buflen ctx = L"
    "if r = 0 then kb_buflen_used ctx = q \<and> kb_reg_used ctx = 0
     else kb_buflen_used ctx = Suc q \<and> kb_reg_used ctx = 8 - r \<and> kb_reg ctx = push_bit r b"
    using assms(1) by (simp_all add: reading_def flip: q_def r_def b_def)
  have Q: "Q (v, ctx')"
    if "v = of_bool (bit b (7 - r))" "kb_buf ctx' = buf" "kb_buflen ctx' = L" "kb_buflen_used ctx' = Suc q"
      "kb_reg_used ctx' = 7 - r" "kb_reg ctx' = push_bit (Suc r) b" "kb_truncated ctx' = kb_truncated ctx"
    for v ctx'
    using that assms(3) [of ctx'] k(2)
    by (simp add: reading_def next_k flip: q_def r_def b_def)
  show ?thesis
  proof (cases "r = 0")
    case True
    then show ?thesis
      using at k bit7 shift
      by (auto simp: klbs_read_bit_def Let_def b_def [symmetric] simp del: push_bit_Suc One_nat_def
          intro!: Q split: if_splits)
  next
    case False
    then show ?thesis
      using at k bit7 shift
      by (auto simp: klbs_read_bit_def Let_def simp del: push_bit_Suc One_nat_def intro!: Q)
  qed
qed

text \<open>One turn of the loop of \<open>klbs_read_bits\<close>; the loop collects the bits it yields.\<close>

definition klbs_next :: "klbs_context \<Rightarrow> (bool \<times> klbs_context) mem" where
  "klbs_next ctx = do { (b, ctx) \<leftarrow> klbs_read_bit ctx; Some (b = 1, flag_end ctx) }"

lemma klbs_read_bit_range: "klbs_read_bit ctx = Some (b, ctx') \<Longrightarrow> b = of_bool (b = 1)"
  by (auto simp: klbs_read_bit_def Let_def split: if_splits bind_splits)

lemma read_bits_loop_gather: "read_bits_loop n acc ctx = gather klbs_next n acc ctx"
proof (induction n arbitrary: acc ctx)
  case (Suc n)
  show ?case
  proof (cases "klbs_read_bit ctx")
    case None
    then show ?thesis by (simp add: klbs_next_def)
  next
    case (Some r)
    obtain b c where r: "r = (b, c)" by (cases r)
    have "ucast b = (of_bool (b = 1) :: u64)"
      using klbs_read_bit_range [of ctx b c] Some r by (cases "b = 1") auto
    then show ?thesis using Suc Some r by (simp add: klbs_next_def)
  qed
qed simp

interpretation klbs_source:
  bit_source buf "\<lambda>ctx k. reading ctx buf L k \<and> kb_truncated ctx = tr" klbs_next for buf L tr
proof unfold_locales
  fix ctx k
  assume a: "reading ctx buf L k \<and> kb_truncated ctx = tr" "k < 8 * length buf"
  show "mem_ok (klbs_next ctx) (\<lambda>(b, ctx'). b = bit (buf ! (k div 8)) (7 - k mod 8) \<and>
      reading ctx' buf L (Suc k) \<and> kb_truncated ctx' = tr)"
    using a unfolding klbs_next_def by (auto intro!: read_bit_ok simp: case_prod_unfold)
qed

lemma read_bits_ok:
  assumes "reading ctx buf L k" "has_bits buf k (field n v)" "n \<le> 64"
    and "\<And>ctx'. reading ctx' buf L (k + n) \<Longrightarrow> kb_truncated ctx' = kb_truncated ctx \<Longrightarrow>
           Q (take_bit n v, ctx')"
  shows "mem_ok (klbs_read_bits ctx n) Q"
proof (cases "n = 8 \<and> kb_reg_used ctx = 0")
  case True
  then have k: "k mod 8 = 0" "kb_buflen_used ctx = k div 8" "8 * (k div 8) = k"
    using assms(1) by (auto simp: reading_def split: if_splits)
  have "k div 8 < length buf"
    using assms(2) True by (auto simp: has_bits_def)
  then have byte: "buf ! (k div 8) = ucast v"
  proof -
    have "field 8 v = field 8 (ucast v :: u8)" by (rule field_cong) (simp add: bit_simps)
    then show ?thesis
      using has_bits_field8 [OF \<open>k div 8 < length buf\<close>, of "ucast v"] assms(2) True k(3) by simp
  qed
  have "ucast (ucast v :: u8) = take_bit 8 v"
    by (intro bit_word_eqI) (auto simp: bit_simps)
  then have "Q (ucast (buf ! (k div 8)), (flag_end ctx)\<lparr>kb_buflen_used := Suc (k div 8)\<rparr>)"
    using assms(1) True k byte
    by (simp, intro assms(4) [unfolded True [THEN conjunct1]])
       (auto simp: reading_def split: if_splits)
  then show ?thesis
    using True k assms(1) \<open>k div 8 < length buf\<close>
    by (simp add: klbs_read_bits_def klbs_read_byte_aligned_def Let_def reading_def)
next
  case False
  have "mem_ok (gather klbs_next n 0 ctx) Q"
    using klbs_source.gather_field [where s = ctx and k = k and n = n and v = v and acc = 0] assms
    by (auto intro: mem_ok_mono)
  then show ?thesis using False by (auto simp: klbs_read_bits_def read_bits_loop_gather)
qed


subsection \<open>Stuffing, sequences of fields and copies\<close>

lemma write_byte_stuff_ok:
  assumes "written ctx L xs" "length xs \<le> 8 * L" "length xs + k = 8 * m" "k \<le> fuel" "k < 8"
    and "\<And>ctx'. written ctx' L (xs @ replicate k (bit b 0)) \<Longrightarrow> Q ctx'"
  shows "mem_ok (write_byte_stuff_loop fuel ctx b) Q"
  using assms
proof (induction k arbitrary: ctx xs fuel)
  case 0
  then have "kb_reg_used ctx = 0"
    using written_has_bits(3) [OF 0(1)] by simp
  then show ?case using 0 by (simp add: write_byte_stuff_loop.simps)
next
  case (Suc k)
  have len: "length xs = 8 * kb_buflen_used ctx + kb_reg_used ctx"
    by (rule written_length [OF Suc.prems(1)])
  have "\<not> 8 dvd length xs" "length xs \<noteq> 8 * L"
    using Suc.prems(3,5) by presburger+
  then have room: "length xs < 8 * L" "0 < kb_reg_used ctx"
    using Suc.prems(2) len by (simp, cases "kb_reg_used ctx = 0") auto
  obtain f where f: "fuel = Suc f" "k \<le> f" using Suc.prems(4) by (cases fuel) auto
  have "mem_ok (klbs_write_bit ctx b) (\<lambda>ctx. mem_ok (write_byte_stuff_loop f (flag_end ctx) b) Q)"
  proof (rule write_bit_ok [OF Suc.prems(1) room(1)])
    fix ctx' assume "written ctx' L (xs @ [bit b 0])"
    then show "mem_ok (write_byte_stuff_loop f (flag_end ctx') b) Q"
      by (intro Suc.IH [of "flag_end ctx'" "xs @ [bit b 0]" f])
        (use Suc.prems room f in \<open>auto simp: replicate_app_Cons_same\<close>)
  qed
  then show ?case using room(2) f(1) by (simp add: write_byte_stuff_loop.simps)
qed

fun write_fields :: "klbs_context \<Rightarrow> (nat \<times> u64) list \<Rightarrow> klbs_context mem" where
  "write_fields ctx [] = Some ctx"
| "write_fields ctx ((n, v) # fs) = do { ctx \<leftarrow> klbs_write_bits ctx v n; write_fields ctx fs }"

fun read_fields :: "klbs_context \<Rightarrow> nat list \<Rightarrow> (u64 list \<times> klbs_context) mem" where
  "read_fields ctx [] = Some ([], ctx)"
| "read_fields ctx (n # ns) =
     do { (v, ctx) \<leftarrow> klbs_read_bits ctx n; (vs, ctx) \<leftarrow> read_fields ctx ns; Some (v # vs, ctx) }"

definition field_bits :: "(nat \<times> u64) list \<Rightarrow> bool list" where
  "field_bits fs = concat (map (\<lambda>(n, v). field n v) fs)"

lemma field_bits_simps [simp]: "field_bits [] = []" "field_bits ((n, v) # fs) = field n v @ field_bits fs"
  by (simp_all add: field_bits_def)

lemma length_field_bits: "length (field_bits fs) = sum_list (map fst fs)"
  by (induction fs) auto

lemma write_fields_ok:
  assumes "written ctx L xs" "length xs + length (field_bits fs) \<le> 8 * L" "\<forall>(n, v)\<in>set fs. n \<le> 64"
    and "\<And>ctx'. written ctx' L (xs @ field_bits fs) \<Longrightarrow> Q ctx'"
  shows "mem_ok (write_fields ctx fs) Q"
  using assms
proof (induction fs arbitrary: ctx xs)
  case (Cons f fs)
  obtain n v where f: "f = (n, v)" by (cases f)
  show ?case
    using Cons.prems unfolding f
    by (auto intro!: write_bits_ok [OF Cons.prems(1)] Cons.IH)
qed simp

lemma read_fields_ok:
  assumes "reading ctx buf L k" "has_bits buf k (field_bits fs)" "\<forall>(n, v)\<in>set fs. n \<le> 64"
    and "\<And>ctx'. reading ctx' buf L (k + length (field_bits fs)) \<Longrightarrow>
           Q (map (\<lambda>(n, v). take_bit n v) fs, ctx')"
  shows "mem_ok (read_fields ctx (map fst fs)) Q"
  using assms
proof (induction fs arbitrary: ctx k Q)
  case (Cons f fs)
  obtain n v where f: "f = (n, v)" by (cases f)
  have b: "has_bits buf k (field n v)" "has_bits buf (k + n) (field_bits fs)" "n \<le> 64"
    using Cons.prems(2,3) by (auto simp: f has_bits_append)
  show ?case
    unfolding f list.map fst_conv read_fields.simps mem_ok_bind
    by (rule read_bits_ok [OF Cons.prems(1) b(1,3)])
       (use Cons.prems(3,4) b(2) in \<open>auto simp: f add.assoc intro!: Cons.IH\<close>)
qed simp

lemma klbs_bitmove_ok:
  assumes "written dst L xs" "length xs + n \<le> 8 * L" "reading src buf M k" "k + n \<le> 8 * length buf"
    and "\<And>dst' src'. written dst' L (xs @ take n (drop k (bits_of buf))) \<Longrightarrow>
           reading src' buf M (k + n) \<Longrightarrow> Q (dst', src')"
  shows "mem_ok (klbs_bitmove dst src n) Q"
  using assms
proof (induction n arbitrary: dst src xs k)
  case (Suc n)
  let ?b = "bit (buf ! (k div 8)) (7 - k mod 8)"
  have k: "k < 8 * length buf" "bits_of buf ! k = ?b"
    using Suc.prems(4) by (simp_all add: nth_bits_of)
  have "take (Suc n) (drop k (bits_of buf)) = ?b # take n (drop (Suc k) (bits_of buf))"
    using k by (simp flip: Cons_nth_drop_Suc)
  then have final: "written dst' L ((xs @ [?b]) @ take n (drop (Suc k) (bits_of buf))) \<Longrightarrow>
      reading src' buf M (Suc k + n) \<Longrightarrow> Q (dst', src')" for dst' src'
    using Suc.prems(5) [of dst' src'] by simp
  show ?case
    unfolding klbs_bitmove.simps mem_ok_bind case_prod_unfold
  proof (rule read_bit_ok [OF Suc.prems(3) k(1)], simp only: fst_conv snd_conv)
    fix src' assume src': "reading src' buf M (Suc k)"
    show "mem_ok (klbs_write_bit dst (of_bool ?b)) (\<lambda>dst. mem_ok (klbs_bitmove dst src' n) Q)"
      by (rule write_bit_ok [OF Suc.prems(1)])
        (use Suc.prems(2,4) src' in \<open>auto simp: bit_of_bool_iff intro!: Suc.IH final\<close>)
  qed
qed simp

subsection \<open>Properties\<close>

text \<open>
  C28: What is written is what is read. Any sequence of fields of 1 to 64 bits that fits the
  buffer can be written and padded to a byte boundary without leaving the buffer, and a
  reader of that buffer that asks for the same widths gets each value back, reduced to its
  width.
\<close>

theorem klbs_write_read_roundtrip:
  assumes "\<forall>(n, v)\<in>set fs. n \<le> 64" "length (field_bits fs) \<le> 8 * length buf"
  shows "\<exists>w. (write_fields (klbs_write_set_buffer buf (length buf)) fs
          \<bind> (\<lambda>ctx. klbs_write_byte_stuff ctx stuffing)) = Some w \<and>
    length (kb_buf w) = length buf \<and>
    (\<exists>r. read_fields (klbs_read_set_buffer (kb_buf w) (length buf)) (map fst fs) =
      Some (map (\<lambda>(n, v). take_bit n v) fs, r))"
proof -
  let ?L = "length buf" and ?xs = "field_bits fs"
  obtain k m where k: "length ?xs + k = 8 * m" "k < 8"
  proof
    show "length ?xs + (8 * ((length ?xs + 7) div 8) - length ?xs) = 8 * ((length ?xs + 7) div 8)"
      "8 * ((length ?xs + 7) div 8) - length ?xs < 8"
      by linarith+
  qed
  have "mem_ok (write_fields (klbs_write_set_buffer buf ?L) fs)
      (\<lambda>ctx. mem_ok (write_byte_stuff_loop 8 ctx stuffing)
        (\<lambda>w. written w ?L (?xs @ replicate k (bit stuffing 0))))"
    by (rule write_fields_ok [OF written_start])
      (use assms k in \<open>auto intro!: write_byte_stuff_ok\<close>)
  then obtain w where w: "write_fields (klbs_write_set_buffer buf ?L) fs
          \<bind> (\<lambda>ctx. klbs_write_byte_stuff ctx stuffing) = Some w"
        "written w ?L (?xs @ replicate k (bit stuffing 0))"
    unfolding klbs_write_byte_stuff_def mem_ok_bind [symmetric] by (elim mem_okE) blast
  then have "has_bits (kb_buf w) 0 ?xs"
    using written_has_bits(1) [OF w(2)] k by (simp add: has_bits_append)
  then have "mem_ok (read_fields (klbs_read_set_buffer (kb_buf w) ?L) (map fst fs))
      (\<lambda>(vs, r). vs = map (\<lambda>(n, v). take_bit n v) fs)"
    using assms(1) by (intro read_fields_ok [OF reading_start]) auto
  then show ?thesis
    using w by (auto simp: written_def elim!: mem_okE)
qed

theorem klbs_write_read_roundtrip_witness:
  "\<exists>w. (write_fields (klbs_write_set_buffer [0, 0, 0] 3) [(3, 5), (9, 0x1ff), (6, 0x41)]
          \<bind> (\<lambda>ctx. klbs_write_byte_stuff ctx 1)) = Some w \<and>
    (\<exists>r. read_fields (klbs_read_set_buffer (kb_buf w) 3) [3, 9, 6] = Some ([5, 0x1ff, 1], r))"
proof -
  have "length [0, 0, 0 :: u8] = 3" by simp
  then show ?thesis
    using klbs_write_read_roundtrip [of "[(3, 5), (9, 0x1ff), (6, 0x41)]" "[0, 0, 0]" 1]
    by (auto simp del: write_fields.simps read_fields.simps list.size)
qed

text \<open>
  Copying bits between two contexts. \<open>klbs_bitcopy\<close> appends the next \<open>n\<close> bits of the
  source to the destination, whatever the two alignments are, and leaves the source where it
  was: only its overrun flag may change.
\<close>

theorem klbs_bitcopy_appends:
  assumes "written dst L xs" "length xs + n \<le> 8 * L" "reading src buf M k" "k + n \<le> 8 * length buf"
  shows "\<exists>dst' flag. klbs_bitcopy dst src n = Some (dst', src\<lparr>kb_overrun := flag\<rparr>) \<and>
    written dst' L (xs @ take n (drop k (bits_of buf)))"
proof -
  define over where "over \<longleftrightarrow> kb_buflen_used src + n \<ge> kb_buflen src \<or> kb_buflen_used dst + n \<ge> kb_buflen dst"
  define dst1 where "dst1 = (if over then dst\<lparr>kb_overrun := True\<rparr> else dst)"
  have "written dst1 L xs" using assms(1) by (auto simp: dst1_def written_def)
  then have "mem_ok (klbs_bitmove dst1 src n)
      (\<lambda>(dst', src'). written dst' L (xs @ take n (drop k (bits_of buf))))"
    by (rule klbs_bitmove_ok [OF _ assms(2-4)]) auto
  then obtain dst' src' where "klbs_bitmove dst1 src n = Some (dst', src')"
      "written dst' L (xs @ take n (drop k (bits_of buf)))"
    by (auto elim!: mem_okE)
  then show ?thesis
    by (intro exI [of _ dst'] exI [of _ "if over then True else kb_overrun src"])
      (simp add: klbs_bitcopy_def Let_def flip: over_def dst1_def)
qed

definition example_src :: klbs_context where
  "example_src = klbs_read_set_buffer [0xA5, 0x3C] 2"

definition example_dst :: klbs_context where
  "example_dst = klbs_write_set_buffer [0, 0] 2"

theorem klbs_bitcopy_appends_witness:
  "\<exists>dst' flag. klbs_bitcopy example_dst example_src 4 = Some (dst', example_src\<lparr>kb_overrun := flag\<rparr>) \<and>
    written dst' 2 [True, False, True, False]"
  using klbs_bitcopy_appends [of example_dst 2 "[]" 4 example_src "[0xA5, 0x3C]" 2 0]
    written_start [of "[0, 0]"] reading_start [of "[0xA5, 0x3C]" 2]
  by (simp add: example_src_def example_dst_def bits_of_def eval_nat_numeral)

subsection \<open>Flags and the end of the buffer\<close>

lemma write_zeros_ok:
  assumes "written ctx L xs" "length xs + n \<le> 8 * L"
    and "\<And>ctx'. written ctx' L (xs @ replicate n False) \<Longrightarrow> Q ctx'"
  shows "mem_ok (write_zeros n ctx) Q"
  using assms
proof (induction n arbitrary: ctx xs)
  case (Suc n)
  show ?case
    unfolding write_zeros.simps mem_ok_bind
    by (rule write_bit_ok [OF Suc.prems(1)])
      (use Suc.prems in \<open>auto simp: replicate_app_Cons_same intro!: Suc.IH\<close>)
qed simp

text \<open>
  Completing a buffer whose last byte is partial writes one bit too many: the loop runs from
  \<open>reg_used\<close> to 8 inclusive, so a zero bit is left in the register.
\<close>

lemma write_buffer_complete_stray_bit:
  assumes "written ctx L xs" "0 < kb_reg_used ctx" "length xs + 9 - kb_reg_used ctx \<le> 8 * L"
  shows "mem_ok (klbs_write_buffer_complete ctx)
    (\<lambda>ctx'. written ctx' L (xs @ replicate (9 - kb_reg_used ctx) False) \<and> kb_reg_used ctx' = 1)"
proof -
  define u r where "u = kb_buflen_used ctx" and "r = kb_reg_used ctx"
  have l: "length xs = 8 * u + r" "0 < r" "r < 8" "8 * u + 9 \<le> 8 * L"
    using assms written_length [OF assms(1)] by (auto simp: written_def u_def r_def)
  have "kb_reg_used ctx' = 1" if "written ctx' L (xs @ replicate (9 - r) False)" for ctx'
  proof -
    have "8 * kb_buflen_used ctx' + kb_reg_used ctx' = 8 * (u + 1) + 1"
      using written_length [OF that] l by simp
    then have "(8 * kb_buflen_used ctx' + kb_reg_used ctx') mod 8 = (8 * (u + 1) + 1) mod 8"
      by (rule arg_cong)
    moreover have "kb_reg_used ctx' < 8" using that by (simp add: written_def)
    ultimately show ?thesis by simp
  qed
  moreover have "length xs + (9 - r) \<le> 8 * L" using l by simp
  ultimately have "mem_ok (write_zeros (9 - r) ctx)
      (\<lambda>ctx'. written ctx' L (xs @ replicate (9 - r) False) \<and> kb_reg_used ctx' = 1)"
    by (intro write_zeros_ok [OF assms(1)]) auto
  then show ?thesis
    using l(2) by (simp add: klbs_write_buffer_complete_def flip: r_def)
qed

text \<open>
  The overrun flag does not mean that the buffer was overrun: it is raised by the write that
  fills the buffer exactly, and by a peek that stays well inside it.
\<close>

lemma klbs_write_bits_flags_end:
  "klbs_write_bits ctx v n = Some ctx' \<Longrightarrow> 0 < n \<Longrightarrow> kb_buflen ctx' \<le> kb_buflen_used ctx' \<Longrightarrow>
     kb_overrun ctx'"
proof (induction n arbitrary: ctx)
  case (Suc n)
  then show ?case
    by (cases n) (auto simp: flag_end_def split: bind_splits if_splits)
qed simp

lemma exact_fill_flags_overrun:
  assumes "written ctx L xs" "length xs + n = 8 * L" "0 < n" "n \<le> 64"
  shows "mem_ok (klbs_write_bits ctx v n) (\<lambda>ctx'. written ctx' L (xs @ field n v) \<and> kb_overrun ctx')"
proof -
  have "mem_ok (klbs_write_bits ctx v n) (\<lambda>ctx'. written ctx' L (xs @ field n v))"
    by (rule write_bits_ok [OF assms(1)]) (use assms in auto)
  then obtain ctx' where c: "klbs_write_bits ctx v n = Some ctx'" "written ctx' L (xs @ field n v)"
    by (rule mem_okE)
  have "length (xs @ field n v) = 8 * L" using assms(2) by simp
  then have "kb_buflen_used ctx' = L"
    using written_has_bits(2) [OF c(2)] by simp
  moreover have "kb_buflen ctx' = L" using c(2) by (simp add: written_def)
  ultimately show ?thesis
    using klbs_write_bits_flags_end [OF c(1) assms(3)] c by simp
qed

lemma peek_flags_overrun:
  "map_option (\<lambda>(v, ctx). (v, kb_overrun ctx)) (klbs_peek_bits (klbs_read_set_buffer [7, 8, 9] 3) 8)
     = Some (7, True)"
  by (simp add: klbs_peek_bits_def klbs_read_set_buffer_def klbs_write_set_buffer_def klbs_init_def
      klbs_read_bits_def klbs_read_byte_aligned_def flag_end_def)

text \<open>The mark that a context owns its storage is cleared again when the buffer is attached.\<close>

lemma alloc_init_forgets_storage:
  "klbs_alloc_init_with_storage alloc n mode = Some ctx \<Longrightarrow> \<not> kb_didAllocateStorage ctx"
  by (auto simp: klbs_alloc_init_with_storage_def klbs_read_set_buffer_def klbs_write_set_buffer_def
      klbs_init_def Let_def split: if_splits)

end
