(* ===== verification/Crc32.thy ===== *)
theory Crc32
  imports TsPrelude
begin

text \<open>
  The section checksum of \<open>src/src/crc32.c\<close>: a table-driven CRC-32 with the generator
  0x04c11db7, most significant bit first, initial value all ones and no final inversion.
  The lemmas show that the table is the one the generator prescribes, that the table-driven
  loop computes the bit-by-bit checksum, that a buffer followed by its checksum passes the
  check, and that no corruption confined to one byte passes it.
\<close>

unbundle bit_operations_syntax

subsection \<open>The table and the two functions\<close>

definition crc32_table :: "u32 list" where
  "crc32_table =
     [0x00000000, 0x04c11db7, 0x09823b6e, 0x0d4326d9, 0x130476dc, 0x17c56b6b, 0x1a864db2, 0x1e475005,
      0x2608edb8, 0x22c9f00f, 0x2f8ad6d6, 0x2b4bcb61, 0x350c9b64, 0x31cd86d3, 0x3c8ea00a, 0x384fbdbd,
      0x4c11db70, 0x48d0c6c7, 0x4593e01e, 0x4152fda9, 0x5f15adac, 0x5bd4b01b, 0x569796c2, 0x52568b75,
      0x6a1936c8, 0x6ed82b7f, 0x639b0da6, 0x675a1011, 0x791d4014, 0x7ddc5da3, 0x709f7b7a, 0x745e66cd,
      0x9823b6e0, 0x9ce2ab57, 0x91a18d8e, 0x95609039, 0x8b27c03c, 0x8fe6dd8b, 0x82a5fb52, 0x8664e6e5,
      0xbe2b5b58, 0xbaea46ef, 0xb7a96036, 0xb3687d81, 0xad2f2d84, 0xa9ee3033, 0xa4ad16ea, 0xa06c0b5d,
      0xd4326d90, 0xd0f37027, 0xddb056fe, 0xd9714b49, 0xc7361b4c, 0xc3f706fb, 0xceb42022, 0xca753d95,
      0xf23a8028, 0xf6fb9d9f, 0xfbb8bb46, 0xff79a6f1, 0xe13ef6f4, 0xe5ffeb43, 0xe8bccd9a, 0xec7dd02d,
      0x34867077, 0x30476dc0, 0x3d044b19, 0x39c556ae, 0x278206ab, 0x23431b1c, 0x2e003dc5, 0x2ac12072,
      0x128e9dcf, 0x164f8078, 0x1b0ca6a1, 0x1fcdbb16, 0x018aeb13, 0x054bf6a4, 0x0808d07d, 0x0cc9cdca,
      0x7897ab07, 0x7c56b6b0, 0x71159069, 0x75d48dde, 0x6b93dddb, 0x6f52c06c, 0x6211e6b5, 0x66d0fb02,
      0x5e9f46bf, 0x5a5e5b08, 0x571d7dd1, 0x53dc6066, 0x4d9b3063, 0x495a2dd4, 0x44190b0d, 0x40d816ba,
      0xaca5c697, 0xa864db20, 0xa527fdf9, 0xa1e6e04e, 0xbfa1b04b, 0xbb60adfc, 0xb6238b25, 0xb2e29692,
      0x8aad2b2f, 0x8e6c3698, 0x832f1041, 0x87ee0df6, 0x99a95df3, 0x9d684044, 0x902b669d, 0x94ea7b2a,
      0xe0b41de7, 0xe4750050, 0xe9362689, 0xedf73b3e, 0xf3b06b3b, 0xf771768c, 0xfa325055, 0xfef34de2,
      0xc6bcf05f, 0xc27dede8, 0xcf3ecb31, 0xcbffd686, 0xd5b88683, 0xd1799b34, 0xdc3abded, 0xd8fba05a,
      0x690ce0ee, 0x6dcdfd59, 0x608edb80, 0x644fc637, 0x7a089632, 0x7ec98b85, 0x738aad5c, 0x774bb0eb,
      0x4f040d56, 0x4bc510e1, 0x46863638, 0x42472b8f, 0x5c007b8a, 0x58c1663d, 0x558240e4, 0x51435d53,
      0x251d3b9e, 0x21dc2629, 0x2c9f00f0, 0x285e1d47, 0x36194d42, 0x32d850f5, 0x3f9b762c, 0x3b5a6b9b,
      0x0315d626, 0x07d4cb91, 0x0a97ed48, 0x0e56f0ff, 0x1011a0fa, 0x14d0bd4d, 0x19939b94, 0x1d528623,
      0xf12f560e, 0xf5ee4bb9, 0xf8ad6d60, 0xfc6c70d7, 0xe22b20d2, 0xe6ea3d65, 0xeba91bbc, 0xef68060b,
      0xd727bbb6, 0xd3e6a601, 0xdea580d8, 0xda649d6f, 0xc423cd6a, 0xc0e2d0dd, 0xcda1f604, 0xc960ebb3,
      0xbd3e8d7e, 0xb9ff90c9, 0xb4bcb610, 0xb07daba7, 0xae3afba2, 0xaafbe615, 0xa7b8c0cc, 0xa379dd7b,
      0x9b3660c6, 0x9ff77d71, 0x92b45ba8, 0x9675461f, 0x8832161a, 0x8cf30bad, 0x81b02d74, 0x857130c3,
      0x5d8a9099, 0x594b8d2e, 0x5408abf7, 0x50c9b640, 0x4e8ee645, 0x4a4ffbf2, 0x470cdd2b, 0x43cdc09c,
      0x7b827d21, 0x7f436096, 0x7200464f, 0x76c15bf8, 0x68860bfd, 0x6c47164a, 0x61043093, 0x65c52d24,
      0x119b4be9, 0x155a565e, 0x18197087, 0x1cd86d30, 0x029f3d35, 0x065e2082, 0x0b1d065b, 0x0fdc1bec,
      0x3793a651, 0x3352bbe6, 0x3e119d3f, 0x3ad08088, 0x2497d08d, 0x2056cd3a, 0x2d15ebe3, 0x29d4f654,
      0xc5a92679, 0xc1683bce, 0xcc2b1d17, 0xc8ea00a0, 0xd6ad50a5, 0xd26c4d12, 0xdf2f6bcb, 0xdbee767c,
      0xe3a1cbc1, 0xe760d676, 0xea23f0af, 0xeee2ed18, 0xf0a5bd1d, 0xf464a0aa, 0xf9278673, 0xfde69bc4,
      0x89b8fd09, 0x8d79e0be, 0x803ac667, 0x84fbdbd0, 0x9abc8bd5, 0x9e7d9662, 0x933eb0bb, 0x97ffad0c,
      0xafb010b1, 0xab710d06, 0xa6322bdf, 0xa2f33668, 0xbcb4666d, 0xb8757bda, 0xb5365d03, 0xb1f740b4]"

text \<open>One iteration of either loop.\<close>

definition crc32_step :: "u32 \<Rightarrow> u8 \<Rightarrow> u32" where
  "crc32_step crc b = push_bit 8 crc XOR crc32_table ! unat (drop_bit 24 crc XOR ucast b)"

fun crc32_loop :: "u32 \<Rightarrow> bytes \<Rightarrow> u32" where
  "crc32_loop crc [] = crc"
| "crc32_loop crc (b # p) = crc32_loop (crc32_step crc b) p"

text \<open>The return code of the check; \<open>None\<close> when \<open>lengthBytes\<close> exceeds the buffer.\<close>

definition ltntstools_checkCRC32 :: "bytes option \<Rightarrow> int \<Rightarrow> int mem" where
  "ltntstools_checkCRC32 buf lengthBytes =
     (case buf of
        None \<Rightarrow> Some (-1)
      | Some p \<Rightarrow>
          if lengthBytes < 4 then Some (-1) else
          do { p \<leftarrow> rdn p 0 (nat lengthBytes);
               Some (if crc32_loop 0xffffffff p = 0 then 0 else -1) })"

text \<open>\<open>out\<close> says whether the caller's result pointer is non-\<open>NULL\<close>; \<open>Some None\<close> is -1.\<close>

definition ltntstools_getCRC32 :: "bytes option \<Rightarrow> int \<Rightarrow> bool \<Rightarrow> u32 option mem" where
  "ltntstools_getCRC32 buf lengthBytes out =
     (case buf of
        None \<Rightarrow> Some None
      | Some p \<Rightarrow>
          if lengthBytes < 1 \<or> \<not> out then Some None else
          do { p \<leftarrow> rdn p 0 (nat lengthBytes);
               Some (Some (crc32_loop 0xffffffff p)) })"

subsection \<open>The bit-by-bit checksum\<close>

text \<open>Long division by the generator, one bit of the message at a time.\<close>

definition crc_poly :: u32 where
  "crc_poly = 0x04c11db7"

definition crc_shift :: "u32 \<Rightarrow> u32" where
  "crc_shift crc = (if bit crc 31 then push_bit 1 crc XOR crc_poly else push_bit 1 crc)"

definition crc_byte :: "u32 \<Rightarrow> u8 \<Rightarrow> u32" where
  "crc_byte crc b = (crc_shift ^^ 8) (crc XOR push_bit 24 (ucast b))"

lemma length_crc32_table: "length crc32_table = 256"
  by (simp add: crc32_table_def)

subsection \<open>The table is the generator's\<close>

fun pairs :: "'a list \<Rightarrow> ('a \<times> 'a) list" where
  "pairs (a # b # xs) = (a, b) # pairs xs"
| "pairs _ = []"

lemma nth_pairs: "2 * i + 1 < length xs \<Longrightarrow> pairs xs ! i = (xs ! (2 * i), xs ! (2 * i + 1))"
proof (induction xs arbitrary: i rule: pairs.induct)
  case (1 a b xs)
  then show ?case by (cases i) auto
qed auto

lemma crc_shift_alt: "crc_shift crc = (if sint crc < 0 then 2 * crc XOR crc_poly else 2 * crc)"
  using bit_last_iff [of crc] by (simp add: crc_shift_def push_bit_eq_mult mult.commute)

lemma crc32_table_pairs:
  "pairs crc32_table = map (\<lambda>t. (crc_shift t, crc_shift t XOR crc_poly)) (take 128 crc32_table)"
  by (simp add: crc32_table_def crc_shift_alt crc_poly_def)

lemma crc_shift_xor: "crc_shift (a XOR b) = crc_shift a XOR crc_shift b"
  by (rule bit_word_eqI) (auto simp: crc_shift_def bit_simps)

lemma crc_shifts_xor: "(crc_shift ^^ n) (a XOR b) = (crc_shift ^^ n) a XOR (crc_shift ^^ n) b"
  by (induction n) (simp_all add: crc_shift_xor)

lemma crc_shifts_small:
  "n \<le> 32 - k \<Longrightarrow> k \<le> 32 \<Longrightarrow> take_bit k crc = crc \<Longrightarrow> (crc_shift ^^ n) crc = push_bit n crc"
proof (induction n)
  case (Suc n)
  have "\<not> bit (push_bit n crc) 31"
  proof
    assume "bit (push_bit n crc) 31"
    then have "bit (take_bit k crc) (31 - n)" by (simp add: bit_simps Suc.prems(3))
    then show False using Suc.prems(1) by (auto simp: bit_simps)
  qed
  with Suc show ?case by (simp add: crc_shift_def push_bit_push_bit del: push_bit_Suc) 
qed simp

lemma crc32_table_double:
  assumes "i < 128"
  shows "crc32_table ! (2 * i) = crc_shift (crc32_table ! i)"
    and "crc32_table ! (2 * i + 1) = crc_shift (crc32_table ! i) XOR crc_poly"
proof -
  have "pairs crc32_table ! i = (crc_shift (crc32_table ! i), crc_shift (crc32_table ! i) XOR crc_poly)"
    using assms by (simp add: crc32_table_pairs length_crc32_table)
  moreover have "pairs crc32_table ! i = (crc32_table ! (2 * i), crc32_table ! (2 * i + 1))"
    using assms by (simp add: nth_pairs length_crc32_table)
  ultimately show "crc32_table ! (2 * i) = crc_shift (crc32_table ! i)"
    and "crc32_table ! (2 * i + 1) = crc_shift (crc32_table ! i) XOR crc_poly" by simp_all
qed

lemma push_24_small: "j < 128 \<Longrightarrow> crc_shift (push_bit 24 (word_of_nat j)) = push_bit 24 (word_of_nat (2 * j))"
proof -
  assume "j < 128"
  then have "take_bit 31 (push_bit 24 (word_of_nat j :: u32)) = push_bit 24 (word_of_nat j)"
    by (intro take_bit_word_id) (simp add: push_bit_eq_mult unat_mult_lem[THEN iffD1] unat_of_nat unat_word_ariths)
  from crc_shifts_small [OF _ _ this, of 1] show ?thesis
    by (simp add: push_bit_eq_mult)
qed

lemma crc_shift8_one: "(crc_shift ^^ 8) (push_bit 24 1) = crc_poly"
proof -
  have "(8 :: nat) = Suc (Suc (Suc (Suc (Suc (Suc (Suc (Suc 0)))))))" by simp
  then show ?thesis
    by (simp only: funpow.simps o_apply id_apply) (simp add: crc_shift_alt crc_poly_def)
qed

lemma crc32_table_correct:
  "i < 256 \<Longrightarrow> crc32_table ! i = (crc_shift ^^ 8) (push_bit 24 (word_of_nat i))"
proof (induction i rule: less_induct)
  case (less i)
  show ?case
  proof (cases "i = 0")
    case True
    have "crc_shift 0 = 0" by (simp add: crc_shift_def)
    then have "(crc_shift ^^ n) 0 = 0" for n by (induction n) simp_all
    then show ?thesis using True by (simp add: crc32_table_def)
  next
    case False
    define j where "j = i div 2"
    have j: "j < i" "j < 128" using False less.prems by (auto simp: j_def)
    have e: "(crc_shift ^^ 8) (push_bit 24 (word_of_nat (2 * j))) = crc_shift (crc32_table ! j)"
      using j less.IH [of j] by (simp only: push_24_small [symmetric] funpow_swap1)
    show ?thesis
    proof (cases "even i")
      case True
      then have "i = 2 * j" by (simp add: j_def)
      then show ?thesis using e crc32_table_double(1) [OF j(2)] by (simp only:)
    next
      case False
      then have i: "i = 2 * j + 1" by (simp add: j_def)
      have "push_bit 24 (word_of_nat i :: u32) = push_bit 24 (word_of_nat (2 * j)) XOR push_bit 24 1"
        by (simp only: push_bit_xor [symmetric] i) (simp add: xor_one_eq add.commute)
      then show ?thesis using e crc32_table_double(2) [OF j(2)] i 
        by (simp only: crc_shifts_xor crc_shift8_one)
    qed
  qed
qed

lemma crc_register_split:
  "crc XOR push_bit 24 (ucast b) = take_bit 24 crc XOR push_bit 24 (drop_bit 24 crc XOR ucast b)"
  for crc :: u32 and b :: u8
  by (rule bit_word_eqI) (auto simp: bit_simps)

lemma crc32_step_bitwise: "crc32_step crc b = crc_byte crc b"
proof -
  let ?i = "drop_bit 24 crc XOR ucast b"
  have "take_bit 8 ?i = ?i"
    by (rule bit_word_eqI) (auto simp: bit_simps intro: ccontr)
  then have "unat ?i < 256"
    using unat_and_mask_lt [of ?i 8] by (simp add: take_bit_eq_mask)
  then have t: "crc32_table ! unat ?i = (crc_shift ^^ 8) (push_bit 24 ?i)"
    using crc32_table_correct [of "unat ?i"] by simp
  have "(crc_shift ^^ 8) (take_bit 24 crc) = push_bit 8 (take_bit 24 crc)"
    by (rule crc_shifts_small [of _ 24]) simp_all
  also have "\<dots> = push_bit 8 crc"
    by (rule bit_word_eqI) (auto simp: bit_simps)
  finally show ?thesis
    by (simp only: crc_byte_def crc_register_split crc_shifts_xor t crc32_step_def)
qed

lemma crc32_loop_append: "crc32_loop crc (xs @ ys) = crc32_loop (crc32_loop crc xs) ys"
  by (induction xs arbitrary: crc) simp_all

lemma crc32_loop_bitwise: "crc32_loop crc p = foldl crc_byte crc p"
  by (induction p arbitrary: crc) (simp_all add: crc32_step_bitwise)

text \<open>The four checksum bytes as a section carries them.\<close>

definition be32 :: "u32 \<Rightarrow> bytes" where
  "be32 w = [ucast (drop_bit 24 w), ucast (drop_bit 16 w), ucast (drop_bit 8 w), ucast w]"

lemma crc32_step_top: "crc32_step crc (ucast (drop_bit 24 crc)) = push_bit 8 crc"
proof -
  have "drop_bit 24 crc XOR ucast (ucast (drop_bit 24 crc) :: u8) = 0"
    by (rule bit_word_eqI) (auto simp: bit_simps intro: ccontr)
  then show ?thesis by (simp add: crc32_step_def crc32_table_def)
qed

lemma crc32_loop_own_crc: "crc32_loop crc (be32 crc) = 0"
proof -
  have t: "(ucast (drop_bit (24 - n) crc) :: u8) = ucast (drop_bit 24 (push_bit n crc))" if "n \<le> 24" for n
    using that by (intro bit_word_eqI) (auto simp: bit_simps)
  have "be32 crc = [ucast (drop_bit 24 crc), ucast (drop_bit 24 (push_bit 8 crc)),
      ucast (drop_bit 24 (push_bit 16 crc)), ucast (drop_bit 24 (push_bit 24 crc))]"
    using t [of 8] t [of 16] t [of 24] by (simp add: be32_def)
  moreover have "push_bit 32 crc = 0" by (rule bit_word_eqI) (simp add: bit_simps)
  ultimately show ?thesis
    by (simp add: crc32_step_top push_bit_push_bit
        crc32_step_top [of "push_bit 8 crc", simplified push_bit_push_bit, simplified]
        crc32_step_top [of "push_bit 16 crc", simplified push_bit_push_bit, simplified]
        crc32_step_top [of "push_bit 24 crc", simplified push_bit_push_bit, simplified])
qed

lemma crc_shift_inject: "crc_shift a = crc_shift b \<longleftrightarrow> a = b"
proof
  assume eq: "crc_shift a = crc_shift b"
  have b0: "bit (crc_shift x) 0 = bit x 31" for x
    by (simp add: crc_shift_def crc_poly_def bit_simps del: push_bit_Suc)
  have top: "bit a 31 = bit b 31" using eq b0 [of a] b0 [of b] by simp
  then have p: "push_bit 1 a = push_bit 1 b"
    using eq by (auto simp: crc_shift_def xor_cancel split: if_splits)
  show "a = b"
  proof (rule bit_word_eqI)
    fix n assume "n < LENGTH(32)"
    then consider "n = 31" | "n < 31" by force
    then show "bit a n = bit b n"
    proof cases
      case 2
      then show ?thesis
        using arg_cong [OF p, of "\<lambda>w. bit w (Suc n)"] by (simp add: bit_simps del: push_bit_Suc)
    qed (simp add: top)
  qed
qed simp

lemma crc_shifts_inject: "(crc_shift ^^ n) a = (crc_shift ^^ n) b \<longleftrightarrow> a = b"
  by (induction n) (simp_all add: crc_shift_inject)

lemma crc32_loop_inject: "crc32_loop a p = crc32_loop b p \<longleftrightarrow> a = b"
  by (induction p arbitrary: a b)
     (simp_all add: crc32_step_bitwise crc_byte_def crc_shifts_inject xor_cancel)


text \<open>Four consecutive bytes enter the register as one 32-bit word.\<close>

lemma crc32_loop_four:
  "crc32_loop crc [a, b, c, d] =
     (crc_shift ^^ 32) (crc XOR push_bit 24 (ucast a) XOR push_bit 16 (ucast b)
                            XOR push_bit 8 (ucast c) XOR ucast d)"
proof -
  have sm: "push_bit (n + k) (ucast x) = (crc_shift ^^ n) (push_bit k (ucast x))"
    if "n + k \<le> 24" for n k and x :: u8
  proof -
    have "take_bit (8 + k) (push_bit k (ucast x :: u32)) = push_bit k (ucast x)"
      by (rule bit_word_eqI) (auto simp: bit_simps intro: ccontr)
    then show ?thesis
      using that by (subst crc_shifts_small [of n "8 + k"]) (auto simp: push_bit_push_bit)
  qed
  have e: "push_bit 24 (ucast b) = (crc_shift ^^ 8) (push_bit 16 (ucast b))"
    "push_bit 24 (ucast c) = (crc_shift ^^ 16) (push_bit 8 (ucast c))"
    "push_bit 24 (ucast d) = (crc_shift ^^ 24) (ucast d)"
    using sm [of 8 16 b] sm [of 16 8 c] sm [of 24 0 d] by simp_all
  have c: "(crc_shift ^^ 8) ((crc_shift ^^ n) x) = (crc_shift ^^ (8 + n)) x" for n x
    by (simp only: funpow_add o_apply)
  show ?thesis
    by (simp only: crc32_loop.simps crc32_step_bitwise crc_byte_def e crc_shifts_xor c xor.assoc)
       (simp add: crc_shifts_xor xor.assoc)
qed

lemma four_bytes_inject:
  assumes "push_bit 24 (ucast a) XOR push_bit 16 (ucast b) XOR push_bit 8 (ucast c) XOR ucast d =
     (push_bit 24 (ucast a') XOR push_bit 16 (ucast b') XOR push_bit 8 (ucast c') XOR ucast d' :: u32)"
  shows "[a, b, c, d] = [a', b', c', d' :: u8]"
proof -
  have bits: "bit (push_bit 24 (ucast a) XOR push_bit 16 (ucast b) XOR push_bit 8 (ucast c) XOR ucast d :: u32) n =
    (if n < 8 then bit d n else if n < 16 then bit c (n - 8) else if n < 24 then bit b (n - 16)
     else n < 32 \<and> bit a (n - 24))" for n and a b c d :: u8
    by (auto simp: bit_simps)
  have q: "(if n < 8 then bit d n else if n < 16 then bit c (n - 8) else if n < 24 then bit b (n - 16)
     else n < 32 \<and> bit a (n - 24)) = (if n < 8 then bit d' n else if n < 16 then bit c' (n - 8) else if n < 24 then bit b' (n - 16)
     else n < 32 \<and> bit a' (n - 24))" for n
    using arg_cong [OF assms, of "\<lambda>w. bit w n"] by (simp only: bits)
  have "bit a k = bit a' k \<and> bit b k = bit b' k \<and> bit c k = bit c' k \<and> bit d k = bit d' k" if "k < 8" for k
    using q [of k] q [of "k + 8"] q [of "k + 16"] q [of "k + 24"] that by auto
  then show ?thesis by (auto intro!: bit_word_eqI)
qed

lemma crc32_loop_burst:
  assumes "length ws = 4" "length vs = 4"
  shows "crc32_loop crc (xs @ ws @ ys) = crc32_loop crc (xs @ vs @ ys) \<longleftrightarrow> ws = vs"
proof -
  obtain a b c d where ws: "ws = [a, b, c, d]"
    using assms(1) by (auto simp: numeral_eq_Suc length_Suc_conv)
  obtain a' b' c' d' where vs: "vs = [a', b', c', d']"
    using assms(2) by (auto simp: numeral_eq_Suc length_Suc_conv)
  have x: "x XOR y = x XOR z \<longleftrightarrow> y = z" for x y z :: u32
    using xor_cancel [of y x z] by (simp add: xor.commute)
  show ?thesis
    unfolding ws vs crc32_loop_append crc32_loop_inject crc32_loop_four crc_shifts_inject xor.assoc x
    using four_bytes_inject by (auto simp: xor.assoc)
qed

subsection \<open>Properties of the checksum\<close>

text \<open>
  C21: the table-driven checksum is the bit-by-bit one. For every buffer and every length it
  covers, \<open>ltntstools_getCRC32\<close> returns the remainder of the division by the generator,
  computed one message bit at a time from the all-ones register.
\<close>

theorem getCRC32_bitwise:
  assumes "1 \<le> lengthBytes" and "nat lengthBytes \<le> length buf"
  shows "ltntstools_getCRC32 (Some buf) lengthBytes True =
    Some (Some (foldl crc_byte 0xffffffff (take (nat lengthBytes) buf)))"
  using assms by (simp add: ltntstools_getCRC32_def crc32_loop_bitwise)

theorem getCRC32_bitwise_witness:
  "(1::int) \<le> 2 \<and> nat 2 \<le> length [1, 2 :: u8] \<and>
   ltntstools_getCRC32 (Some [1, 2]) 2 True = Some (Some (foldl crc_byte 0xffffffff [1, 2]))"
  using getCRC32_bitwise [of 2 "[1, 2]"] by simp

text \<open>
  a section followed by its own checksum passes the check.
\<close>

theorem checkCRC32_accepts_getCRC32:
  assumes "ltntstools_getCRC32 (Some buf) (int (length buf)) True = Some (Some crc)"
  shows "ltntstools_checkCRC32 (Some (buf @ be32 crc)) (int (length buf) + 4) = Some 0"
proof -
  have crc: "crc = crc32_loop 0xffffffff buf"
    using assms by (simp add: ltntstools_getCRC32_def split: if_splits)
  have "length (be32 crc) = 4" by (simp add: be32_def)
  moreover have "nat (int (length buf) + 4) = length buf + 4" by simp
  ultimately show ?thesis
    by (simp add: ltntstools_checkCRC32_def crc32_loop_append crc crc32_loop_own_crc)
qed

theorem checkCRC32_accepts_getCRC32_witness:
  "ltntstools_getCRC32 (Some [1, 2]) 2 True = Some (Some 0xdb2c9ecf) \<and>
   ltntstools_checkCRC32 (Some ([1, 2] @ be32 0xdb2c9ecf)) 6 = Some 0"
proof -
  have "ltntstools_getCRC32 (Some [1, 2]) 2 True = Some (Some 0xdb2c9ecf)"
    by (simp add: ltntstools_getCRC32_def crc32_step_def crc32_table_def)
  with checkCRC32_accepts_getCRC32 [of "[1, 2]" "0xdb2c9ecf"] show ?thesis by simp
qed

text \<open>
  C22: burst errors are detected. If a buffer passes the check and any change is made within
  four consecutive bytes of it, the changed buffer fails the check. The check returns 0 for a
  buffer that passes and -1 for one that fails; the header of the interface documents 1 and 0.
\<close>

theorem checkCRC32_detects_burst:
  assumes "length ws = 4" and "length vs = 4" and "ws \<noteq> vs"
    and "ltntstools_checkCRC32 (Some (xs @ ws @ ys)) (int (length (xs @ ws @ ys))) = Some 0"
  shows "ltntstools_checkCRC32 (Some (xs @ vs @ ys)) (int (length (xs @ vs @ ys))) = Some (-1)"
proof -
  have l: "\<not> int (length (xs @ zs @ ys)) < 4" if "length zs = 4" for zs :: bytes
    using that by simp
  have c: "ltntstools_checkCRC32 (Some (xs @ zs @ ys)) (int (length (xs @ zs @ ys))) =
    Some (if crc32_loop 0xffffffff (xs @ zs @ ys) = 0 then 0 else -1)" if "length zs = 4" for zs
    using l [OF that] by (simp add: ltntstools_checkCRC32_def)
  have "crc32_loop 0xffffffff (xs @ ws @ ys) = 0"
    using assms(4) by (simp only: c [OF assms(1)] option.inject split: if_splits)
  then have "crc32_loop 0xffffffff (xs @ vs @ ys) \<noteq> 0"
    using crc32_loop_burst [OF assms(1,2)] assms(3) by metis
  then show ?thesis by (simp only: c [OF assms(2)] if_False)
qed

theorem checkCRC32_detects_burst_witness:
  "ltntstools_checkCRC32 (Some ([] @ be32 0xffffffff @ [])) (int (length ([] @ be32 0xffffffff @ []))) = Some 0
   \<and> ltntstools_checkCRC32 (Some ([] @ [0xff, 0xff, 0, 0xff] @ [])) (int (length ([] @ [0xff, 0xff, 0, 0xff :: u8] @ []))) = Some (-1)"
proof -
  have h: "ltntstools_checkCRC32 (Some ([] @ be32 0xffffffff @ [])) (int (length ([] @ be32 0xffffffff @ []))) = Some 0"
    by (simp add: ltntstools_checkCRC32_def be32_def crc32_step_def crc32_table_def)
  show ?thesis
    using h checkCRC32_detects_burst [OF _ _ _ h, of "[0xff, 0xff, 0, 0xff]"] by (simp add: be32_def)
qed

end
