(* ===== verification/Pes.thy ===== *)
theory Pes
  imports Bitstream Crc32
begin

text \<open>
  PES packets (\<open>src/src/pes.c\<close>, \<open>src/src/libltntstools/pes.h\<close>): the packet structure, its packer
  and its parser on top of the bit stream, and the small helpers around them.

  The structure is a record with the fields of the C structure at their width. \<open>PTS\<close> and
  \<open>DTS\<close> are 64-bit words in two's complement. A buffer pointer with its length is \<open>None\<close> for
  \<open>NULL\<close> or the bytes it points to. A sequence of calls of \<open>klbs_write_bits\<close> is a list of
  widths and values, in order. The number of bits, a \<open>ssize_t\<close>, is an \<open>int\<close>.
\<close>

subsection \<open>The packet\<close>

record ltn_pes_packet =
  pes_start_code :: u32
  pes_stream_id :: u32
  pes_length :: u32
  pes_scrambling :: u32
  pes_priority :: u32
  pes_alignment :: u32
  pes_copyright :: u32
  pes_original :: u32
  pes_PTS_DTS_flags :: u32
  pes_ESCR_flag :: u32
  pes_ES_rate_flag :: u32
  pes_DSM_flag :: u32
  pes_copy_info_flag :: u32
  pes_CRC_flag :: u32
  pes_extension_flag :: u32
  pes_header_length :: u32
  pes_PTS :: u64
  pes_DTS :: u64
  pes_ES_rate :: u32
  pes_copy_info :: u32
  pes_previous_CRC :: u32
  pes_private_flag :: u8
  pes_pack_header_flag :: u8
  pes_seq_counter_flag :: u8
  pes_PSTD_flag :: u8
  pes_PSTD_scale :: u8
  pes_PSTD_size :: u32
  pes_extension_flag_2 :: u8
  pes_extension_length :: u8
  pes_data :: "bytes option"
  pes_dataLength :: u32
  pes_skipPayload :: bool
  pes_raw :: "bytes option"
  pes_rawLength :: u32
  pes_pcr :: u64
  pes_arrivalMs :: u32

text \<open>\<open>ltn_pes_packet_init\<close> clears the structure, as \<open>calloc\<close> does.\<close>

definition ltn_pes_packet_init :: ltn_pes_packet where
  "ltn_pes_packet_init =
     \<lparr>pes_start_code = 0, pes_stream_id = 0, pes_length = 0, pes_scrambling = 0, pes_priority = 0,
      pes_alignment = 0, pes_copyright = 0, pes_original = 0, pes_PTS_DTS_flags = 0,
      pes_ESCR_flag = 0, pes_ES_rate_flag = 0, pes_DSM_flag = 0, pes_copy_info_flag = 0,
      pes_CRC_flag = 0, pes_extension_flag = 0, pes_header_length = 0, pes_PTS = 0, pes_DTS = 0,
      pes_ES_rate = 0, pes_copy_info = 0, pes_previous_CRC = 0, pes_private_flag = 0,
      pes_pack_header_flag = 0, pes_seq_counter_flag = 0, pes_PSTD_flag = 0, pes_PSTD_scale = 0,
      pes_PSTD_size = 0, pes_extension_flag_2 = 0, pes_extension_length = 0, pes_data = None,
      pes_dataLength = 0, pes_skipPayload = False, pes_raw = None, pes_rawLength = 0,
      pes_pcr = 0, pes_arrivalMs = 0\<rparr>"

definition ltn_pes_packet_alloc :: "allocator \<Rightarrow> ltn_pes_packet option" where
  "ltn_pes_packet_alloc alloc = (if alloc 208 then Some ltn_pes_packet_init else None)"

text \<open>The stream ids that have the optional header, and those that carry plain data bytes.\<close>

definition pes_has_header :: "u32 \<Rightarrow> bool" where
  "pes_has_header sid \<longleftrightarrow>
     sid \<noteq> 0xBC \<and> sid \<noteq> 0xBE \<and> sid \<noteq> 0xBF \<and> sid \<noteq> 0xF0 \<and> sid \<noteq> 0xF1 \<and> sid \<noteq> 0xFF \<and>
     sid \<noteq> 0xF2 \<and> sid \<noteq> 0xF8"

definition pes_plain_data :: "u32 \<Rightarrow> bool" where
  "pes_plain_data sid \<longleftrightarrow>
     sid = 0xBF \<or> sid = 0xF0 \<or> sid = 0xF1 \<or> sid = 0xFF \<or> sid = 0xF2 \<or> sid = 0xF8"

subsection \<open>Packing\<close>

definition ts_fields :: "u64 \<Rightarrow> (nat \<times> u64) list" where
  "ts_fields v =
     [(3, signed_drop_bit 30 v), (1, 1), (15, signed_drop_bit 15 v), (1, 1), (15, v), (1, 1)]"

definition write33bit_ts :: "klbs_context \<Rightarrow> u64 \<Rightarrow> klbs_context mem" where
  "write33bit_ts bs v = write_fields bs (ts_fields v)"

definition pack_start :: "ltn_pes_packet \<Rightarrow> (nat \<times> u64) list" where
  "pack_start pkt = [(24, ucast (pes_start_code pkt)), (8, ucast (pes_stream_id pkt)),
     (16, ucast (pes_length pkt))]"

definition pack_flags :: "ltn_pes_packet \<Rightarrow> (nat \<times> u64) list" where
  "pack_flags pkt =
     [(2, 2), (2, ucast (pes_scrambling pkt)), (1, ucast (pes_priority pkt)),
      (1, ucast (pes_alignment pkt)), (1, ucast (pes_copyright pkt)), (1, ucast (pes_original pkt)),
      (2, ucast (pes_PTS_DTS_flags pkt)), (1, ucast (pes_ESCR_flag pkt)),
      (1, ucast (pes_ES_rate_flag pkt)), (1, ucast (pes_DSM_flag pkt)),
      (1, ucast (pes_copy_info_flag pkt)), (1, ucast (pes_CRC_flag pkt)),
      (1, ucast (pes_extension_flag pkt)), (8, ucast (pes_header_length pkt))]"

definition pack_timestamps :: "ltn_pes_packet \<Rightarrow> (nat \<times> u64) list" where
  "pack_timestamps pkt =
     (if pes_PTS_DTS_flags pkt = 2 then (4, 2) # ts_fields (pes_PTS pkt)
      else if pes_PTS_DTS_flags pkt = 3
      then (4, 3) # ts_fields (pes_PTS pkt) @ (4, 1) # ts_fields (pes_DTS pkt)
      else [])"

definition pack_optional :: "ltn_pes_packet \<Rightarrow> (nat \<times> u64) list" where
  "pack_optional pkt =
     (if pes_ESCR_flag pkt \<noteq> 0 then [(40, 0)] else []) @
     (if pes_ES_rate_flag pkt \<noteq> 0 then [(1, 1), (22, ucast (pes_ES_rate_flag pkt)), (1, 1)] else []) @
     (if pes_DSM_flag pkt \<noteq> 0 then [(8, 0)] else []) @
     (if pes_copy_info_flag pkt \<noteq> 0 then [(1, 1), (7, ucast (pes_copy_info pkt))] else []) @
     (if pes_CRC_flag pkt \<noteq> 0 then [(16, 0)] else [])"

definition pack_extension :: "ltn_pes_packet \<Rightarrow> (nat \<times> u64) list" where
  "pack_extension pkt =
     (if pes_extension_flag pkt \<noteq> 0 then
        [(1, ucast (pes_private_flag pkt)), (1, ucast (pes_pack_header_flag pkt)),
         (1, ucast (pes_seq_counter_flag pkt)), (1, ucast (pes_PSTD_flag pkt)), (3, 0xff),
         (1, ucast (pes_extension_flag_2 pkt))] @
        (if pes_private_flag pkt = 1 then replicate 4 (32, 0xffffffff) else []) @
        (if pes_extension_flag_2 pkt = 1 then replicate (unat (pes_extension_length pkt)) (8, 0xff) else [])
      else [])"

text \<open>The bits that the packer counts, which differ from the bits it writes.\<close>

definition pack_count :: "ltn_pes_packet \<Rightarrow> int" where
  "pack_count pkt =
     72 + (if pes_PTS_DTS_flags pkt = 2 then 40 else if pes_PTS_DTS_flags pkt = 3 then 80 else 0)
     + (if pes_ESCR_flag pkt \<noteq> 0 then 48 else 0) + (if pes_ES_rate_flag pkt \<noteq> 0 then 24 else 0)
     + (if pes_DSM_flag pkt \<noteq> 0 then 8 else 0) + (if pes_copy_info_flag pkt \<noteq> 0 then 8 else 0)
     + (if pes_CRC_flag pkt \<noteq> 0 then 16 else 0)
     + (if pes_extension_flag pkt \<noteq> 0 then
          8 + (if pes_private_flag pkt = 1 then 128 else 0)
          + (if pes_seq_counter_flag pkt = 1 then 16 else 0)
          + (if pes_PSTD_flag pkt = 1 then 16 else 0)
          + (if pes_extension_flag_2 pkt = 1 then 8 + 8 * int (unat (pes_extension_length pkt)) else 0)
        else 0)"

definition byte_fields :: "bytes \<Rightarrow> (nat \<times> u64) list" where
  "byte_fields d = map (\<lambda>b. (8, ucast b)) d"

text \<open>The first \<open>n\<close> bytes behind a data pointer; reading through \<open>NULL\<close> is undefined.\<close>

definition data_prefix :: "bytes option \<Rightarrow> nat \<Rightarrow> bytes mem" where
  "data_prefix d n = (if n = 0 then Some [] else do { bs \<leftarrow> d; rdn bs 0 n })"

definition ltn_pes_packet_pack :: "ltn_pes_packet \<Rightarrow> klbs_context \<Rightarrow> (int \<times> klbs_context) mem" where
  "ltn_pes_packet_pack pkt bs =
     do { bs \<leftarrow> write_fields bs (pack_start pkt);
          if pes_has_header (pes_stream_id pkt) then
            do { bs \<leftarrow> write_fields bs (pack_flags pkt);
                 bs \<leftarrow> write_fields bs (pack_timestamps pkt);
                 bs \<leftarrow> write_fields bs (pack_optional pkt);
                 bs \<leftarrow> write_fields bs (pack_extension pkt);
                 d \<leftarrow> data_prefix (pes_data pkt) (unat (pes_dataLength pkt));
                 bs \<leftarrow> write_fields bs (byte_fields d);
                 Some (pack_count pkt + 8 * int (length d), bs) }
          else if pes_plain_data (pes_stream_id pkt) \<and> pes_data pkt \<noteq> None then
            do { d \<leftarrow> data_prefix (pes_data pkt) (unat (pes_length pkt));
                 bs \<leftarrow> write_fields bs (byte_fields d);
                 Some (8 * int (length d), bs) }
          else Some (0, bs) }"


subsection \<open>Parsing\<close>

text \<open>The marker bits must be 1; otherwise the result is -1.\<close>

definition read33bit_ts :: "klbs_context \<Rightarrow> (u64 \<times> klbs_context) mem" where
  "read33bit_ts bs =
     do { (a, bs) \<leftarrow> klbs_read_bits bs 3;
          (m1, bs) \<leftarrow> klbs_read_bits bs 1;
          if m1 \<noteq> 1 then Some (-1, bs) else
          do { (b, bs) \<leftarrow> klbs_read_bits bs 15;
               (m2, bs) \<leftarrow> klbs_read_bits bs 1;
               if m2 \<noteq> 1 then Some (-1, bs) else
               do { (c, bs) \<leftarrow> klbs_read_bits bs 15;
                    (m3, bs) \<leftarrow> klbs_read_bits bs 1;
                    if m3 \<noteq> 1 then Some (-1, bs)
                    else Some (push_bit 30 a OR push_bit 15 b OR c, bs) } } }"

definition parse_start :: "ltn_pes_packet \<Rightarrow> klbs_context \<Rightarrow> (ltn_pes_packet \<times> klbs_context) mem" where
  "parse_start pkt bs =
     do { (v, bs) \<leftarrow> klbs_read_bits bs 24; let pkt = pkt\<lparr>pes_start_code := ucast v\<rparr>;
          (v, bs) \<leftarrow> klbs_read_bits bs 8; let pkt = pkt\<lparr>pes_stream_id := ucast v\<rparr>;
          (v, bs) \<leftarrow> klbs_read_bits bs 16; let pkt = pkt\<lparr>pes_length := ucast v\<rparr>;
          let byte_count_free = klbs_get_byte_count_free bs;
          Some (if byte_count_free < pes_length pkt then pkt\<lparr>pes_length := byte_count_free\<rparr> else pkt,
                bs) }"

definition parse_flags :: "ltn_pes_packet \<Rightarrow> klbs_context \<Rightarrow> (ltn_pes_packet \<times> klbs_context) mem" where
  "parse_flags pkt bs =
     do { (_, bs) \<leftarrow> klbs_read_bits bs 2;
          (v, bs) \<leftarrow> klbs_read_bits bs 2; let pkt = pkt\<lparr>pes_scrambling := ucast v\<rparr>;
          (v, bs) \<leftarrow> klbs_read_bits bs 1; let pkt = pkt\<lparr>pes_priority := ucast v\<rparr>;
          (v, bs) \<leftarrow> klbs_read_bits bs 1; let pkt = pkt\<lparr>pes_alignment := ucast v\<rparr>;
          (v, bs) \<leftarrow> klbs_read_bits bs 1; let pkt = pkt\<lparr>pes_copyright := ucast v\<rparr>;
          (v, bs) \<leftarrow> klbs_read_bits bs 1; let pkt = pkt\<lparr>pes_original := ucast v\<rparr>;
          (v, bs) \<leftarrow> klbs_read_bits bs 2; let pkt = pkt\<lparr>pes_PTS_DTS_flags := ucast v\<rparr>;
          (v, bs) \<leftarrow> klbs_read_bits bs 1; let pkt = pkt\<lparr>pes_ESCR_flag := ucast v\<rparr>;
          (v, bs) \<leftarrow> klbs_read_bits bs 1; let pkt = pkt\<lparr>pes_ES_rate_flag := ucast v\<rparr>;
          (v, bs) \<leftarrow> klbs_read_bits bs 1; let pkt = pkt\<lparr>pes_DSM_flag := ucast v\<rparr>;
          (v, bs) \<leftarrow> klbs_read_bits bs 1; let pkt = pkt\<lparr>pes_copy_info_flag := ucast v\<rparr>;
          (v, bs) \<leftarrow> klbs_read_bits bs 1; let pkt = pkt\<lparr>pes_CRC_flag := ucast v\<rparr>;
          (v, bs) \<leftarrow> klbs_read_bits bs 1; let pkt = pkt\<lparr>pes_extension_flag := ucast v\<rparr>;
          Some (pkt, bs) }"

definition parse_timestamps ::
  "ltn_pes_packet \<Rightarrow> klbs_context \<Rightarrow> int \<Rightarrow> (int \<times> ltn_pes_packet \<times> klbs_context) mem" where
  "parse_timestamps pkt bs bits =
     (if pes_PTS_DTS_flags pkt = 2 then
        do { (_, bs) \<leftarrow> klbs_read_bits bs 4;
             (v, bs) \<leftarrow> read33bit_ts bs;
             Some (bits + 40, pkt\<lparr>pes_PTS := v\<rparr>, bs) }
      else if pes_PTS_DTS_flags pkt = 3 then
        do { (_, bs) \<leftarrow> klbs_read_bits bs 4;
             (v, bs) \<leftarrow> read33bit_ts bs;
             (_, bs) \<leftarrow> klbs_read_bits bs 4;
             (w, bs) \<leftarrow> read33bit_ts bs;
             Some (bits + 80, pkt\<lparr>pes_PTS := v, pes_DTS := w\<rparr>, bs) }
      else Some (bits, pkt, bs))"

definition skip_if :: "bool \<Rightarrow> nat \<Rightarrow> klbs_context \<Rightarrow> int \<Rightarrow> (int \<times> klbs_context) mem" where
  "skip_if c n bs bits =
     (if c then do { (_, bs) \<leftarrow> klbs_read_bits bs n; Some (bits + int n, bs) } else Some (bits, bs))"

definition parse_ES_rate ::
  "ltn_pes_packet \<Rightarrow> klbs_context \<Rightarrow> int \<Rightarrow> (int \<times> ltn_pes_packet \<times> klbs_context) mem" where
  "parse_ES_rate pkt bs bits =
     (if pes_ES_rate_flag pkt \<noteq> 0
      then do { (_, bs) \<leftarrow> klbs_read_bits bs 1;
                (v, bs) \<leftarrow> klbs_read_bits bs 22;
                (_, bs) \<leftarrow> klbs_read_bits bs 1;
                Some (bits + 24, pkt\<lparr>pes_ES_rate_flag := ucast v\<rparr>, bs) }
      else Some (bits, pkt, bs))"

definition parse_copy_info ::
  "ltn_pes_packet \<Rightarrow> klbs_context \<Rightarrow> int \<Rightarrow> (int \<times> ltn_pes_packet \<times> klbs_context) mem" where
  "parse_copy_info pkt bs bits =
     (if pes_copy_info_flag pkt \<noteq> 0
      then do { (_, bs) \<leftarrow> klbs_read_bits bs 1;
                (v, bs) \<leftarrow> klbs_read_bits bs 7;
                Some (bits + 8, pkt\<lparr>pes_copy_info := ucast v\<rparr>, bs) }
      else Some (bits, pkt, bs))"

definition parse_CRC ::
  "ltn_pes_packet \<Rightarrow> klbs_context \<Rightarrow> int \<Rightarrow> (int \<times> ltn_pes_packet \<times> klbs_context) mem" where
  "parse_CRC pkt bs bits =
     (if pes_CRC_flag pkt \<noteq> 0
      then do { (v, bs) \<leftarrow> klbs_read_bits bs 16;
                Some (bits + 16, pkt\<lparr>pes_previous_CRC := ucast v\<rparr>, bs) }
      else Some (bits, pkt, bs))"

definition parse_optional ::
  "ltn_pes_packet \<Rightarrow> klbs_context \<Rightarrow> int \<Rightarrow> (int \<times> ltn_pes_packet \<times> klbs_context) mem" where
  "parse_optional pkt bs bits =
     do { (bits, bs) \<leftarrow> skip_if (pes_ESCR_flag pkt \<noteq> 0) 48 bs bits;
          (bits, pkt, bs) \<leftarrow> parse_ES_rate pkt bs bits;
          (bits, bs) \<leftarrow> skip_if (pes_DSM_flag pkt \<noteq> 0) 8 bs bits;
          (bits, pkt, bs) \<leftarrow> parse_copy_info pkt bs bits;
          parse_CRC pkt bs bits }"

text \<open>\<open>for (i = 0; i < n; i++) klbs_read_bits(bs, 8)\<close>: the bytes read.\<close>

fun read_bytes :: "klbs_context \<Rightarrow> nat \<Rightarrow> (bytes \<times> klbs_context) mem" where
  "read_bytes bs 0 = Some ([], bs)"
| "read_bytes bs (Suc n) =
     do { (v, bs) \<leftarrow> klbs_read_bits bs 8; (vs, bs) \<leftarrow> read_bytes bs n; Some (ucast v # vs, bs) }"

text \<open>The free bytes as an \<open>int\<close>, with a negative number taken for zero.\<close>

definition free_or_zero :: "klbs_context \<Rightarrow> u32" where
  "free_or_zero bs =
     (if sint (klbs_get_byte_count_free bs) < 0 then 0 else klbs_get_byte_count_free bs)"

text \<open>
  The extension. The flag of the result says that the parser returns early, because the
  buffer is too short for the private data or the pack header.
\<close>

definition parse_extension_2 ::
  "ltn_pes_packet \<Rightarrow> klbs_context \<Rightarrow> int \<Rightarrow> (int \<times> ltn_pes_packet \<times> klbs_context) mem" where
  "parse_extension_2 pkt bs bits =
     do { (_, bs) \<leftarrow> klbs_read_bits bs 1;
          (v, bs) \<leftarrow> klbs_read_bits bs 7;
          let pkt = pkt\<lparr>pes_extension_length := ucast v\<rparr>;
          let bits = bits + 8;
          let free = free_or_zero bs;
          let (pkt, bs) =
            (if unat free < unat (pes_extension_length pkt)
             then (pkt\<lparr>pes_extension_length := ucast free,
                       pes_length := word_of_int (c_div (bits - 48) 8 + int (unat free))\<rparr>,
                   bs\<lparr>kb_truncated := True\<rparr>)
             else (pkt, bs));
          (_, bs) \<leftarrow> read_bytes bs (unat (pes_extension_length pkt));
          Some (bits + 8 * int (unat (pes_extension_length pkt)), pkt, bs) }"

definition parse_private ::
  "ltn_pes_packet \<Rightarrow> klbs_context \<Rightarrow> int \<Rightarrow> (bool \<times> int \<times> klbs_context) mem" where
  "parse_private pkt bs bits =
     (if pes_private_flag pkt = 1 then
        if klbs_get_byte_count_free bs < 16 then Some (True, bits, bs)
        else do { (_, bs) \<leftarrow> klbs_read_bits bs 32;
                  (_, bs) \<leftarrow> klbs_read_bits bs 32;
                  (_, bs) \<leftarrow> klbs_read_bits bs 32;
                  (_, bs) \<leftarrow> klbs_read_bits bs 32;
                  Some (False, bits + 128, bs) }
      else Some (False, bits, bs))"

definition parse_pack_header ::
  "ltn_pes_packet \<Rightarrow> klbs_context \<Rightarrow> int \<Rightarrow> (bool \<times> int \<times> klbs_context) mem" where
  "parse_pack_header pkt bs bits =
     (if pes_pack_header_flag pkt = 1 then
        do { (v, bs) \<leftarrow> klbs_read_bits bs 8;
             let bits = bits + 8;
             if klbs_get_byte_count_free bs < ucast v then Some (True, bits, bs)
             else do { (_, bs) \<leftarrow> read_bytes bs (unat v);
                       Some (False, bits + 8 * int (unat v), bs) } }
      else Some (False, bits, bs))"

definition parse_PSTD ::
  "ltn_pes_packet \<Rightarrow> klbs_context \<Rightarrow> int \<Rightarrow> (int \<times> ltn_pes_packet \<times> klbs_context) mem" where
  "parse_PSTD pkt bs bits =
     (if pes_PSTD_flag pkt = 1 then
        do { (_, bs) \<leftarrow> klbs_read_bits bs 2;
             (v, bs) \<leftarrow> klbs_read_bits bs 1; let pkt = pkt\<lparr>pes_PSTD_scale := ucast v\<rparr>;
             (v, bs) \<leftarrow> klbs_read_bits bs 13;
             Some (bits + 16, pkt\<lparr>pes_PSTD_size := ucast v\<rparr>, bs) }
      else Some (bits, pkt, bs))"

definition parse_extension_flags ::
  "ltn_pes_packet \<Rightarrow> klbs_context \<Rightarrow> (ltn_pes_packet \<times> klbs_context) mem" where
  "parse_extension_flags pkt bs =
     do { (v, bs) \<leftarrow> klbs_read_bits bs 1; let pkt = pkt\<lparr>pes_private_flag := ucast v\<rparr>;
          (v, bs) \<leftarrow> klbs_read_bits bs 1; let pkt = pkt\<lparr>pes_pack_header_flag := ucast v\<rparr>;
          (v, bs) \<leftarrow> klbs_read_bits bs 1; let pkt = pkt\<lparr>pes_seq_counter_flag := ucast v\<rparr>;
          (v, bs) \<leftarrow> klbs_read_bits bs 1; let pkt = pkt\<lparr>pes_PSTD_flag := ucast v\<rparr>;
          (_, bs) \<leftarrow> klbs_read_bits bs 3;
          (v, bs) \<leftarrow> klbs_read_bits bs 1; let pkt = pkt\<lparr>pes_extension_flag_2 := ucast v\<rparr>;
          Some (pkt, bs) }"

definition parse_extension ::
  "ltn_pes_packet \<Rightarrow> klbs_context \<Rightarrow> int \<Rightarrow> (bool \<times> int \<times> ltn_pes_packet \<times> klbs_context) mem" where
  "parse_extension pkt bs bits =
     (if pes_extension_flag pkt = 0 then Some (False, bits, pkt, bs)
      else
      do { (pkt, bs) \<leftarrow> parse_extension_flags pkt bs;
           (early, bits, bs) \<leftarrow> parse_private pkt bs (bits + 8);
           if early then Some (True, bits, pkt, bs) else
           do { (early, bits, bs) \<leftarrow> parse_pack_header pkt bs bits;
                if early then Some (True, bits, pkt, bs) else
                do { (bits, bs) \<leftarrow> skip_if (pes_seq_counter_flag pkt = 1) 16 bs bits;
                     (bits, pkt, bs) \<leftarrow> parse_PSTD pkt bs bits;
                     (bits, pkt, bs) \<leftarrow>
                       (if pes_extension_flag_2 pkt = 1 then parse_extension_2 pkt bs bits
                        else Some (bits, pkt, bs));
                     Some (False, bits, pkt, bs) } } })"

text \<open>
  Copying \<open>n\<close> payload bytes out of the bit stream: one \<open>memcpy\<close> when it is aligned and has that many,
  else byte by byte.
\<close>

definition take_payload :: "klbs_context \<Rightarrow> u32 \<Rightarrow> (bytes \<times> klbs_context) mem" where
  "take_payload bs n =
     (if kb_reg_used bs = 0 \<and> n \<le> klbs_get_byte_count_free bs
      then do { d \<leftarrow> rdn (kb_buf bs) (kb_buflen_used bs) (unat n);
                Some (d, bs\<lparr>kb_buflen_used := kb_buflen_used bs + unat n\<rparr>) }
      else read_bytes bs (unat n))"

definition parse_data ::
  "allocator \<Rightarrow> ltn_pes_packet \<Rightarrow> klbs_context \<Rightarrow> int \<Rightarrow> (int \<times> ltn_pes_packet \<times> klbs_context) mem" where
  "parse_data alloc pkt bs bits =
     (let free = free_or_zero bs;
          n = (if int (unat (pes_length pkt)) \<ge> c_div (bits - 48) 8
               then pes_length pkt - word_of_int (c_div (bits - 48) 8) else free);
          (n, bs) = (if n > free then (free, bs\<lparr>kb_truncated := True\<rparr>) else (n, bs))
      in if alloc (unat n)
         then do { (d, bs) \<leftarrow> take_payload bs n;
                   Some (bits + 8 * int (unat n), pkt\<lparr>pes_data := Some d, pes_dataLength := n\<rparr>, bs) }
         else Some (bits, pkt\<lparr>pes_data := None, pes_dataLength := 0\<rparr>, bs))"

text \<open>The streams without an optional header: the length is cut to what the buffer holds.\<close>

definition clamp_length ::
  "ltn_pes_packet \<Rightarrow> klbs_context \<Rightarrow> ltn_pes_packet \<times> klbs_context" where
  "clamp_length pkt bs =
     (let free = free_or_zero bs
      in if free < pes_length pkt
         then (pkt\<lparr>pes_length := free\<rparr>, bs\<lparr>kb_truncated := True\<rparr>) else (pkt, bs))"

definition parse_plain ::
  "allocator \<Rightarrow> ltn_pes_packet \<Rightarrow> klbs_context \<Rightarrow> (int \<times> ltn_pes_packet \<times> klbs_context) mem" where
  "parse_plain alloc pkt0 bs0 =
     (let (pkt, bs) = clamp_length pkt0 bs0
      in if alloc (unat (pes_length pkt))
         then do { (d, bs) \<leftarrow> take_payload bs (pes_length pkt);
                   Some (8 * int (unat (pes_length pkt)), pkt\<lparr>pes_data := Some d\<rparr>, bs) }
         else Some (0, pkt\<lparr>pes_data := None, pes_dataLength := 0\<rparr>, bs))"

definition parse_padding ::
  "ltn_pes_packet \<Rightarrow> klbs_context \<Rightarrow> (int \<times> ltn_pes_packet \<times> klbs_context) mem" where
  "parse_padding pkt0 bs0 =
     (let (pkt, bs) = clamp_length pkt0 bs0
      in do { (_, bs) \<leftarrow> read_bytes bs (unat (pes_length pkt));
              Some (8 * int (unat (pes_length pkt)), pkt, bs) })"

definition parse_with_header ::
  "allocator \<Rightarrow> ltn_pes_packet \<Rightarrow> klbs_context \<Rightarrow> bool \<Rightarrow> (int \<times> ltn_pes_packet \<times> klbs_context) mem" where
  "parse_with_header alloc pkt bs skipData =
     do { (pkt, bs) \<leftarrow> parse_flags pkt bs;
          if klbs_get_byte_count_free bs < 1 then Some (0, pkt, bs) else
          do { (v, bs) \<leftarrow> klbs_read_bits bs 8;
               let pkt = pkt\<lparr>pes_header_length := ucast v\<rparr>;
               (bits, pkt, bs) \<leftarrow> parse_timestamps pkt bs 72;
               (bits, pkt, bs) \<leftarrow> parse_optional pkt bs bits;
               (early, bits, pkt, bs) \<leftarrow> parse_extension pkt bs bits;
               if early then Some (bits, pkt, bs)
               else if skipData
               then Some (bits, pkt\<lparr>pes_data := None, pes_dataLength := 0\<rparr>, bs)
               else parse_data alloc pkt bs bits } }"

definition ltn_pes_packet_parse ::
  "allocator \<Rightarrow> ltn_pes_packet \<Rightarrow> klbs_context \<Rightarrow> bool \<Rightarrow> (int \<times> ltn_pes_packet \<times> klbs_context) mem" where
  "ltn_pes_packet_parse alloc pkt bs skipData =
     (if klbs_get_byte_count_free bs < 8 then Some (0, pkt, bs)
      else
      do { (pkt, bs) \<leftarrow> parse_start (pkt\<lparr>pes_skipPayload := skipData\<rparr>) bs;
           if pes_has_header (pes_stream_id pkt) then parse_with_header alloc pkt bs skipData
           else if pes_plain_data (pes_stream_id pkt) then parse_plain alloc pkt bs
           else if pes_stream_id pkt = 0xBE then parse_padding pkt bs
           else Some (0, pkt, bs) })"

subsection \<open>Helpers\<close>

text \<open>
  \<open>ltn_pes_packet_copy\<close> shares no buffer between the copies: the data and raw buffers are
  duplicated, at the lengths the structure records.
\<close>

definition ltn_pes_packet_copy :: "ltn_pes_packet \<Rightarrow> ltn_pes_packet mem" where
  "ltn_pes_packet_copy src =
     do { d \<leftarrow> (case pes_data src of None \<Rightarrow> Some None
               | Some d \<Rightarrow> do { x \<leftarrow> rdn d 0 (unat (pes_dataLength src)); Some (Some x) });
          r \<leftarrow> (case pes_raw src of None \<Rightarrow> Some None
               | Some r \<Rightarrow> do { x \<leftarrow> rdn r 0 (unat (pes_rawLength src)); Some (Some x) });
          Some (src\<lparr>pes_data := d, pes_raw := r\<rparr>) }"

definition ltn_pes_packet_clone :: "allocator \<Rightarrow> ltn_pes_packet \<Rightarrow> ltn_pes_packet option mem" where
  "ltn_pes_packet_clone alloc src =
     (case ltn_pes_packet_alloc alloc of
        None \<Rightarrow> Some None
      | Some dst \<Rightarrow> map_option Some (ltn_pes_packet_copy src))"

definition ltn_pes_packet_is_audio :: "ltn_pes_packet \<Rightarrow> bool" where
  "ltn_pes_packet_is_audio pes \<longleftrightarrow>
     pes_stream_id pes \<ge> 0xc0 \<and> pes_stream_id pes \<le> 0xdf \<or>
     pes_stream_id pes = 0xbd \<or> pes_stream_id pes \<ge> 0xfd"

definition ltn_pes_packet_is_video :: "ltn_pes_packet \<Rightarrow> bool" where
  "ltn_pes_packet_is_video pes \<longleftrightarrow> pes_stream_id pes \<ge> 0xe0 \<and> pes_stream_id pes \<le> 0xef"

definition ltn_pes_packet_has_PTS :: "ltn_pes_packet \<Rightarrow> bool" where
  "ltn_pes_packet_has_PTS pes \<longleftrightarrow> pes_PTS_DTS_flags pes AND 2 \<noteq> 0"

definition ltn_pes_packet_has_DTS :: "ltn_pes_packet \<Rightarrow> bool" where
  "ltn_pes_packet_has_DTS pes \<longleftrightarrow> pes_PTS_DTS_flags pes AND 1 \<noteq> 0"


subsection \<open>Reading what is ahead\<close>

text \<open>Reading raises the overrun flag only at the end of the buffer.\<close>

definition flag_honest :: "klbs_context \<Rightarrow> bool" where
  "flag_honest bs \<longleftrightarrow> (kb_overrun bs \<longrightarrow> kb_buflen bs \<le> kb_buflen_used bs)"

lemma flag_honest_end [simp]: "flag_honest bs \<Longrightarrow> flag_honest (flag_end bs)"
  by (auto simp: flag_honest_def flag_end_def)

lemma flag_honest_read_bit: "flag_honest bs \<Longrightarrow> klbs_read_bit bs = Some (v, bs') \<Longrightarrow> flag_honest bs'"
  by (auto simp: flag_honest_def klbs_read_bit_def flag_end_def Let_def bind_eq_Some_conv split: if_splits)

lemma flag_honest_read_bits:
  assumes "flag_honest bs" "klbs_read_bits bs n = Some (v, bs')"
  shows "flag_honest bs'"
proof -
  have loop: "read_bits_loop n w bs = Some (v, bs') \<Longrightarrow> flag_honest bs \<Longrightarrow> flag_honest bs'" for n w bs
  proof (induction n arbitrary: w bs)
    case (Suc n)
    obtain b c where "klbs_read_bit bs = Some (b, c)" "read_bits_loop n (push_bit 1 w OR ucast b) (flag_end c) = Some (v, bs')"
      using Suc.prems(1) by (auto simp: bind_eq_Some_conv)
    then show ?case using Suc.IH flag_honest_read_bit [OF Suc.prems(2)] by auto
  qed simp
  show ?thesis
  proof (cases "n = 8 \<and> kb_reg_used bs = 0")
    case True
    then show ?thesis
      using assms by (auto simp: klbs_read_bits_def klbs_read_byte_aligned_def flag_honest_def flag_end_def Let_def
          bind_eq_Some_conv split: if_splits)
  next
    case False
    then have "klbs_read_bits bs n = read_bits_loop n 0 bs" unfolding klbs_read_bits_def by (rule if_not_P)
    then show ?thesis using assms loop [of n 0 bs] by simp
  qed
qed

text \<open>The fields that are left to read, down to the last bit of the buffer.\<close>

definition ahead :: "klbs_context \<Rightarrow> (nat \<times> u64) list \<Rightarrow> bool" where
  "ahead bs fs \<longleftrightarrow> flag_honest bs \<and>
     (\<exists>k. reading bs (kb_buf bs) (length (kb_buf bs)) k \<and> has_bits (kb_buf bs) k (field_bits fs) \<and>
          8 * length (kb_buf bs) = k + length (field_bits fs) \<and> length (kb_buf bs) < 2 ^ 31)"

lemma field_bits_append [simp]: "field_bits (fs @ gs) = field_bits fs @ field_bits gs"
  by (simp add: field_bits_def)

lemma ahead_start:
  assumes "has_bits buf 0 (field_bits fs)" "length (field_bits fs) = 8 * length buf" "length buf < 2 ^ 31"
  shows "ahead (klbs_read_set_buffer buf (length buf)) fs"
proof -
  let ?bs = "klbs_read_set_buffer buf (length buf)"
  have "kb_buf ?bs = buf" "flag_honest ?bs"
    by (simp_all add: klbs_read_set_buffer_def klbs_write_set_buffer_def klbs_init_def flag_honest_def)
  then show ?thesis
    using assms reading_start [of buf "length buf"] unfolding ahead_def by auto
qed

lemma read_ahead:
  assumes "ahead bs ((n, v) # fs)" "n \<le> 64"
    and "\<And>bs'. ahead bs' fs \<Longrightarrow> kb_truncated bs' = kb_truncated bs \<Longrightarrow> Q (take_bit n v, bs')"
  shows "mem_ok (klbs_read_bits bs n) Q"
proof -
  obtain k where k: "reading bs (kb_buf bs) (length (kb_buf bs)) k"
    "has_bits (kb_buf bs) k (field n v)" "has_bits (kb_buf bs) (k + n) (field_bits fs)"
    "8 * length (kb_buf bs) = k + n + length (field_bits fs)" "length (kb_buf bs) < 2 ^ 31"
    using assms(1) by (auto simp: ahead_def has_bits_append)
  have "mem_ok (klbs_read_bits bs n) (\<lambda>(w, bs'). w = take_bit n v
      \<and> reading bs' (kb_buf bs) (length (kb_buf bs)) (k + n) \<and> kb_truncated bs' = kb_truncated bs)"
    by (rule read_bits_ok [OF k(1,2) assms(2)]) simp
  then obtain bs' where b: "klbs_read_bits bs n = Some (take_bit n v, bs')"
      "reading bs' (kb_buf bs) (length (kb_buf bs)) (k + n)" "kb_truncated bs' = kb_truncated bs"
    by (auto elim!: mem_okE)
  have "flag_honest bs'" using assms(1) b(1) by (auto simp: ahead_def intro: flag_honest_read_bits)
  moreover have "kb_buf bs' = kb_buf bs" using b(2) by (simp add: reading_def)
  ultimately have "ahead bs' fs" using b(2) k unfolding ahead_def by auto
  then show ?thesis using b(1) assms(3) [OF _ b(3)] by simp
qed

text \<open>On a byte boundary the free bytes are the bytes ahead.\<close>

lemma ahead_aligned:
  assumes "ahead bs fs" "length (field_bits fs) = 8 * n"
  shows "klbs_get_byte_count_free bs = of_nat n" "kb_reg_used bs = 0" "n < 2 ^ 31"
    and "kb_buflen_used bs + n = length (kb_buf bs)" "kb_buflen bs = length (kb_buf bs)"
    and "has_bits (kb_buf bs) (8 * kb_buflen_used bs) (field_bits fs)"
proof -
  obtain k where k: "reading bs (kb_buf bs) (length (kb_buf bs)) k"
    "has_bits (kb_buf bs) k (field_bits fs)" "8 * length (kb_buf bs) = k + 8 * n" "length (kb_buf bs) < 2 ^ 31"
    using assms by (auto simp: ahead_def)
  then have kk: "k = 8 * (length (kb_buf bs) - n)" by simp
  have k8: "k mod 8 = 0" "k div 8 = length (kb_buf bs) - n" unfolding kk by simp_all
  then show u: "kb_reg_used bs = 0" "kb_buflen_used bs + n = length (kb_buf bs)"
      "kb_buflen bs = length (kb_buf bs)"
    using k(1,3) by (auto simp: reading_def)
  show "n < 2 ^ 31" using k(4) u(2) by linarith
  show "klbs_get_byte_count_free bs = of_nat n"
    unfolding klbs_get_byte_count_free_def u(3) u(2) [symmetric] by simp
  have "8 * kb_buflen_used bs = k" using k(1) k8 kk by (simp add: reading_def)
  then show "has_bits (kb_buf bs) (8 * kb_buflen_used bs) (field_bits fs)" using k(2) by simp
qed

lemma unat_of_nat_small: "n < 2 ^ 31 \<Longrightarrow> unat (of_nat n :: u32) = n"
  by (simp add: unsigned_of_nat take_bit_nat_eq_self)

lemma ahead_free:
  assumes "ahead bs fs" "length (field_bits fs) = 8 * n"
  shows "free_or_zero bs = of_nat n" "unat (klbs_get_byte_count_free bs) = n"
proof -
  note a = ahead_aligned [OF assms]
  show n: "unat (klbs_get_byte_count_free bs) = n"
    using a(1,3) by (simp add: unat_of_nat_small)
  then have "sint (klbs_get_byte_count_free bs) = int n"
    using sint_small [of "klbs_get_byte_count_free bs"] a(3) by simp
  then show "free_or_zero bs = of_nat n"
    using a(1) by (simp add: free_or_zero_def)
qed

text \<open>A value survives a field that is wide enough for it.\<close>

definition fits :: "nat \<Rightarrow> 'a::len word \<Rightarrow> bool" where
  "fits n x \<longleftrightarrow> take_bit n x = x"

lemma fits_back [simp]:
  "fits n x \<Longrightarrow> ucast (take_bit n (ucast (x :: u32) :: u64)) = x"
  "fits n y \<Longrightarrow> ucast (take_bit n (ucast (y :: u8) :: u64)) = y"
proof -
  assume x: "fits n x"
  have "ucast (take_bit n (ucast x :: u64)) = take_bit n x"
    by (rule bit_word_eqI) (auto simp: bit_simps)
  then show "ucast (take_bit n (ucast x :: u64)) = x" using x by (simp add: fits_def)
next
  assume y: "fits n y"
  have "ucast (take_bit n (ucast y :: u64)) = take_bit n y"
    by (rule bit_word_eqI) (auto simp: bit_simps)
  then show "ucast (take_bit n (ucast y :: u64)) = y" using y by (simp add: fits_def)
qed

text \<open>The 33-bit time stamp between its marker bits.\<close>

lemma take_bit_1_1 [simp]: "take_bit (Suc 0) (1 :: u64) = 1"
  by (simp add: take_bit_Suc)

lemma ts_parts:
  "fits 33 v \<Longrightarrow> push_bit 30 (take_bit 3 (signed_drop_bit 30 v)) OR
     push_bit 15 (take_bit 15 (signed_drop_bit 15 v)) OR take_bit 15 v = (v :: u64)"
proof -
  assume v: "fits 33 v"
  have beyond: "\<not> bit v i" if "33 \<le> i" for i
    using v that bit_take_bit_iff [of 33 v i] by (auto simp: fits_def)
  show ?thesis
  proof (rule bit_word_eqI)
    fix i assume i: "i < LENGTH(64)"
    consider "i < 15" | "15 \<le> i" "i < 30" | "30 \<le> i" "i < 33" | "33 \<le> i" by linarith
    then show "bit (push_bit 30 (take_bit 3 (signed_drop_bit 30 v)) OR
       push_bit 15 (take_bit 15 (signed_drop_bit 15 v)) OR take_bit 15 v) i = bit v i"
      by cases (use i beyond [of i] in \<open>auto simp: bit_simps\<close>)
  qed
qed

lemma read33bit_ts_ok:
  assumes "ahead bs (ts_fields v @ fs)" "fits 33 v"
    and "\<And>bs'. ahead bs' fs \<Longrightarrow> kb_truncated bs' = kb_truncated bs \<Longrightarrow> Q (v, bs')"
  shows "mem_ok (read33bit_ts bs) Q"
  using assms(1) unfolding read33bit_ts_def ts_fields_def append_Cons append_Nil mem_ok_bind
  by - ((erule read_ahead, simp, simp add: ts_parts [OF assms(2)])+, rule assms(3), simp_all)

lemmas parse_step = prod.case mem_ok_bind Let_def

lemma parse_start_ok:
  assumes "ahead bs (pack_start p @ fs)" "length (field_bits fs) = 8 * n"
    and "fits 24 (pes_start_code p)" "fits 8 (pes_stream_id p)" "fits 16 (pes_length p)"
    and "unat (pes_length p) \<le> n"
    and "\<And>bs'. ahead bs' fs \<Longrightarrow> Q (pkt\<lparr>pes_start_code := pes_start_code p,
           pes_stream_id := pes_stream_id p, pes_length := pes_length p\<rparr>, bs')"
  shows "mem_ok (parse_start pkt bs) Q"
proof -
  have "\<not> klbs_get_byte_count_free bs' < pes_length p" if "ahead bs' fs" for bs'
    using ahead_free(2) [OF that assms(2)] assms(6) by (simp add: word_less_nat_alt)
  then show ?thesis
    using assms(1) unfolding parse_start_def pack_start_def append_Cons append_Nil mem_ok_bind
    by - ((erule read_ahead, simp, simp only: parse_step)+, use assms(3-) in simp)
qed

lemma parse_flags_ok:
  assumes "ahead bs (pack_flags p @ fs)"
    and "fits 2 (pes_scrambling p)" "fits 1 (pes_priority p)" "fits 1 (pes_alignment p)"
    "fits 1 (pes_copyright p)" "fits 1 (pes_original p)" "fits 2 (pes_PTS_DTS_flags p)"
    "fits 1 (pes_ESCR_flag p)" "fits 1 (pes_ES_rate_flag p)" "fits 1 (pes_DSM_flag p)"
    "fits 1 (pes_copy_info_flag p)" "fits 1 (pes_CRC_flag p)" "fits 1 (pes_extension_flag p)"
    and "\<And>bs'. ahead bs' ((8, ucast (pes_header_length p)) # fs) \<Longrightarrow>
       Q (pkt\<lparr>pes_scrambling := pes_scrambling p,
        pes_priority := pes_priority p, pes_alignment := pes_alignment p,
        pes_copyright := pes_copyright p, pes_original := pes_original p,
        pes_PTS_DTS_flags := pes_PTS_DTS_flags p, pes_ESCR_flag := pes_ESCR_flag p,
        pes_ES_rate_flag := pes_ES_rate_flag p, pes_DSM_flag := pes_DSM_flag p,
        pes_copy_info_flag := pes_copy_info_flag p, pes_CRC_flag := pes_CRC_flag p,
        pes_extension_flag := pes_extension_flag p\<rparr>, bs')"
  shows "mem_ok (parse_flags pkt bs) Q"
  using assms(1) unfolding parse_flags_def pack_flags_def append_Cons append_Nil mem_ok_bind
  by - ((erule read_ahead, simp, simp only: parse_step)+,
      use assms(2-) in \<open>simp del: One_nat_def take_bit_Suc\<close>)

lemma parse_timestamps_ok:
  assumes "ahead bs (pack_timestamps p @ fs)" "pes_PTS_DTS_flags pkt = pes_PTS_DTS_flags p"
    and "fits 33 (pes_PTS p)" "fits 33 (pes_DTS p)"
    and "pes_PTS_DTS_flags p \<noteq> 2 \<and> pes_PTS_DTS_flags p \<noteq> 3 \<longrightarrow> pes_PTS p = pes_PTS pkt"
    and "pes_PTS_DTS_flags p \<noteq> 3 \<longrightarrow> pes_DTS p = pes_DTS pkt"
    and "\<And>bs'. ahead bs' fs \<Longrightarrow>
      Q (bits + int (length (field_bits (pack_timestamps p))),
         pkt\<lparr>pes_PTS := pes_PTS p, pes_DTS := pes_DTS p\<rparr>, bs')"
  shows "mem_ok (parse_timestamps pkt bs bits) Q"
proof -
  have len: "length (field_bits (ts_fields v)) = 36" for v by (simp add: ts_fields_def)
  consider "pes_PTS_DTS_flags p = 2" | "pes_PTS_DTS_flags p = 3"
    | "pes_PTS_DTS_flags p \<noteq> 2" "pes_PTS_DTS_flags p \<noteq> 3" by blast
  then show ?thesis
  proof cases
    case 1
    then show ?thesis
      using assms unfolding parse_timestamps_def pack_timestamps_def
      by simp (erule read_ahead, simp, simp, erule read33bit_ts_ok, simp_all add: len)
  next
    case 2
    then show ?thesis
      using assms unfolding parse_timestamps_def pack_timestamps_def
      by simp (erule read_ahead, simp, simp, erule read33bit_ts_ok, simp, simp,
          erule read_ahead, simp, simp, erule read33bit_ts_ok, simp_all add: len)
  next
    case 3
    then show ?thesis
      using assms unfolding parse_timestamps_def pack_timestamps_def by simp
  qed
qed

lemma skip_if_ok:
  assumes "ahead bs ((if c then [(n, v)] else []) @ fs)" "n \<le> 64"
    and "\<And>bs'. ahead bs' fs \<Longrightarrow> Q (bits + (if c then int n else 0), bs')"
  shows "mem_ok (skip_if c n bs bits) Q"
  using assms unfolding skip_if_def by (cases c) (simp_all, erule read_ahead, simp_all)

lemma parse_ES_rate_ok:
  assumes "ahead bs ((if pes_ES_rate_flag pkt \<noteq> 0
      then [(1, 1), (22, ucast (pes_ES_rate_flag pkt)), (1, 1)] else []) @ fs)"
    and "fits 22 (pes_ES_rate_flag pkt)"
    and "\<And>bs'. ahead bs' fs \<Longrightarrow> Q (bits + (if pes_ES_rate_flag pkt \<noteq> 0 then 24 else 0), pkt, bs')"
  shows "mem_ok (parse_ES_rate pkt bs bits) Q"
proof (cases "pes_ES_rate_flag pkt = 0")
  case False
  then have "ahead bs ((1, 1) # (22, ucast (pes_ES_rate_flag pkt)) # (1, 1) # fs)"
    using assms(1) by simp
  then show ?thesis
    using False assms(2,3) unfolding parse_ES_rate_def
    by simp ((erule read_ahead, simp, simp)+)
qed (use assms in \<open>simp add: parse_ES_rate_def\<close>)

lemma parse_copy_info_ok:
  assumes "ahead bs ((if pes_copy_info_flag pkt \<noteq> 0 then [(1, 1), (7, ucast v)] else []) @ fs)"
    and "fits 7 v"
    and "\<And>bs'. ahead bs' fs \<Longrightarrow> Q (bits + (if pes_copy_info_flag pkt \<noteq> 0 then 8 else 0),
           pkt\<lparr>pes_copy_info := if pes_copy_info_flag pkt \<noteq> 0 then v else pes_copy_info pkt\<rparr>, bs')"
  shows "mem_ok (parse_copy_info pkt bs bits) Q"
proof (cases "pes_copy_info_flag pkt = 0")
  case False
  then have "ahead bs ((1, 1) # (7, ucast v) # fs)" using assms(1) by simp
  then show ?thesis
    using False assms(2,3) unfolding parse_copy_info_def
    by simp ((erule read_ahead, simp, simp)+)
qed (use assms in \<open>simp add: parse_copy_info_def\<close>)

lemma parse_CRC_ok:
  assumes "ahead bs ((if c then [(16, 0)] else []) @ fs)" "c \<longleftrightarrow> pes_CRC_flag pkt \<noteq> 0"
    and "\<And>bs'. ahead bs' fs \<Longrightarrow> Q (bits + (if pes_CRC_flag pkt \<noteq> 0 then 16 else 0),
           pkt\<lparr>pes_previous_CRC := if pes_CRC_flag pkt \<noteq> 0 then 0 else pes_previous_CRC pkt\<rparr>, bs')"
  shows "mem_ok (parse_CRC pkt bs bits) Q"
proof (cases "pes_CRC_flag pkt = 0")
  case False
  then have "ahead bs ((16, 0) # fs)" using assms(1,2) by simp
  then show ?thesis
    using False assms(3) unfolding parse_CRC_def by simp (erule read_ahead, simp, simp)
qed (use assms in \<open>simp add: parse_CRC_def\<close>)

lemma pack_optional_length:
  "pes_ESCR_flag p = 0 \<Longrightarrow> int (length (field_bits (pack_optional p))) =
     (if pes_ES_rate_flag p \<noteq> 0 then 24 else 0) + ((if pes_DSM_flag p \<noteq> 0 then 8 else 0) +
     ((if pes_copy_info_flag p \<noteq> 0 then 8 else 0) + (if pes_CRC_flag p \<noteq> 0 then 16 else 0)))"
  by (simp add: pack_optional_def)

text \<open>The optional fields; the 40 bits that are packed for the ESCR are not the 48 that are read.\<close>

lemma parse_optional_ok:
  assumes "ahead bs (pack_optional p @ fs)"
    and "pes_ESCR_flag p = 0" "pes_ESCR_flag pkt = pes_ESCR_flag p"
    "pes_ES_rate_flag pkt = pes_ES_rate_flag p" "pes_DSM_flag pkt = pes_DSM_flag p"
    "pes_copy_info_flag pkt = pes_copy_info_flag p" "pes_CRC_flag pkt = pes_CRC_flag p"
    and "fits 22 (pes_ES_rate_flag p)" "fits 7 (pes_copy_info p)"
    and "pes_copy_info_flag p = 0 \<longrightarrow> pes_copy_info p = pes_copy_info pkt" "pes_previous_CRC pkt = 0"
    and "\<And>bs'. ahead bs' fs \<Longrightarrow>
      Q (bits + int (length (field_bits (pack_optional p))), pkt\<lparr>pes_copy_info := pes_copy_info p\<rparr>, bs')"
  shows "mem_ok (parse_optional pkt bs bits) Q"
proof -
  have "ahead bs ((if pes_ESCR_flag pkt \<noteq> 0 then [(48, 0)] else []) @
     (if pes_ES_rate_flag pkt \<noteq> 0 then [(1, 1), (22, ucast (pes_ES_rate_flag pkt)), (1, 1)] else []) @
     (if pes_DSM_flag pkt \<noteq> 0 then [(8, 0)] else []) @
     (if pes_copy_info_flag pkt \<noteq> 0 then [(1, 1), (7, ucast (pes_copy_info p))] else []) @
     (if pes_CRC_flag pkt \<noteq> 0 then [(16, 0)] else []) @ fs)"
    using assms(1-7) by (simp add: pack_optional_def cong: if_cong split del: if_split)
  then show ?thesis
    unfolding parse_optional_def mem_ok_bind
    apply -
    apply (erule skip_if_ok, simp, simp only: parse_step)
    apply (erule parse_ES_rate_ok, use assms(4,8) in simp, simp only: parse_step)
    apply (erule skip_if_ok, simp, simp only: parse_step)
    apply (erule parse_copy_info_ok, rule assms(9), simp only: parse_step)
    apply (erule parse_CRC_ok, simp)
    apply (subgoal_tac "pkt\<lparr>pes_copy_info := if pes_copy_info_flag pkt \<noteq> 0 then pes_copy_info p else pes_copy_info pkt,
        pes_previous_CRC := if pes_CRC_flag pkt \<noteq> 0 then 0 else 0\<rparr> = pkt\<lparr>pes_copy_info := pes_copy_info p\<rparr>")
    using assms(12) apply (simp add: assms(2-7,11) pack_optional_length add.assoc cong: if_cong split del: if_split)
    using assms(6,10,11) by simp
qed

lemma read_bytes_ok:
  assumes "ahead bs (byte_fields d @ fs)"
    and "\<And>bs'. ahead bs' fs \<Longrightarrow> kb_truncated bs' = kb_truncated bs \<Longrightarrow> Q (d, bs')"
  shows "mem_ok (read_bytes bs (length d)) Q"
  using assms
proof (induction d arbitrary: bs Q)
  case (Cons b d)
  have "fits 8 b" by (rule bit_word_eqI [of "take_bit 8 b" b, folded fits_def]) (simp add: bit_simps)
  then have b: "ucast (take_bit 8 (ucast b :: u64)) = b" by simp
  show ?case
    using Cons.prems(1) unfolding byte_fields_def list.map append_Cons read_bytes.simps list.size
      mem_ok_bind add_0_right add_Suc_right
    by - (erule read_ahead, simp, unfold parse_step, rule Cons.IH,
        simp_all add: byte_fields_def b Cons.prems(2))
qed (simp add: byte_fields_def)

lemma length_byte_fields [simp]: "length (field_bits (byte_fields d)) = 8 * length d"
  by (induction d) (auto simp: byte_fields_def)

lemma has_bits_byte_fields:
  "has_bits buf (8 * k) (field_bits (byte_fields d)) \<Longrightarrow> take (length d) (drop k buf) = d"
proof (induction d arbitrary: k)
  case (Cons b d)
  have f: "field 8 (ucast b :: u64) = field 8 b" by (rule field_cong) (simp add: bit_simps)
  have "has_bits buf (8 * k) (field 8 b @ field_bits (byte_fields d))"
    using Cons.prems by (simp add: byte_fields_def f)
  then have h: "has_bits buf (8 * k) (field 8 b)" "has_bits buf (8 * Suc k) (field_bits (byte_fields d))"
    by (simp_all add: has_bits_append add.commute)
  then have "k < length buf" by (auto simp: has_bits_def)
  then show ?case
    using has_bits_field8 [of k buf b] h Cons.IH [of "Suc k"] by (simp add: Cons_nth_drop_Suc [symmetric])
qed simp

text \<open>The extension, as far as the packer supports it: no pack header, counters or fields.\<close>

lemma parse_extension_ok:
  assumes "ahead bs (pack_extension p @ fs)" "length (field_bits fs) = 8 * n"
    and "pes_extension_flag pkt = pes_extension_flag p" "fits 1 (pes_private_flag p)"
    and "pes_pack_header_flag p = 0" "pes_seq_counter_flag p = 0" "pes_PSTD_flag p = 0"
    "pes_extension_flag_2 p = 0"
    and "pes_extension_flag p = 0 \<longrightarrow> pes_private_flag p = pes_private_flag pkt"
    and "pes_pack_header_flag pkt = 0" "pes_seq_counter_flag pkt = 0" "pes_PSTD_flag pkt = 0"
    "pes_extension_flag_2 pkt = 0"
    and "\<And>bs'. ahead bs' fs \<Longrightarrow>
      Q (False, bits + int (length (field_bits (pack_extension p))),
         pkt\<lparr>pes_private_flag := pes_private_flag p\<rparr>, bs')"
  shows "mem_ok (parse_extension pkt bs bits) Q"
proof (cases "pes_extension_flag p = 0")
  case True
  then show ?thesis using assms(1,3,9,14) by (simp add: parse_extension_def pack_extension_def)
next
  case False
  let ?priv = "if pes_private_flag p = 1 then replicate 4 (32, 0xffffffff) else []"
  let ?pkt = "pkt\<lparr>pes_private_flag := pes_private_flag p, pes_pack_header_flag := 0,
                  pes_seq_counter_flag := 0, pes_PSTD_flag := 0, pes_extension_flag_2 := 0\<rparr>"
  have fs: "ahead bs ([(1, ucast (pes_private_flag p)), (1, 0), (1, 0), (1, 0), (3, 0xff), (1, 0)] @
      ?priv @ fs)"
    using assms(1,5-8) False by (simp add: pack_extension_def cong: if_cong split del: if_split)
  have flags: "mem_ok (parse_extension_flags pkt bs) R"
    if "\<And>bs'. ahead bs' (?priv @ fs) \<Longrightarrow> R (?pkt, bs')" for R
    using fs unfolding parse_extension_flags_def append_Cons append_Nil mem_ok_bind
    by - ((erule read_ahead, simp, simp only: parse_step)+,
        use that assms(4) in \<open>simp del: One_nat_def take_bit_Suc\<close>)
  have priv: "mem_ok (parse_private ?pkt bs' b) R"
    if a: "ahead bs' (?priv @ fs)"
      and r: "\<And>bs'. ahead bs' fs \<Longrightarrow> R (False, b + int (length (field_bits ?priv)), bs')" for bs' b R
  proof (cases "pes_private_flag p = 1")
    case True
    have a4: "ahead bs' ((32, 0xffffffff) # (32, 0xffffffff) # (32, 0xffffffff) # (32, 0xffffffff) # fs)"
      using a True by (simp add: numeral_eq_Suc)
    have "length (field_bits (?priv @ fs)) = 8 * (n + 16)"
      using True assms(2) by (simp add: numeral_eq_Suc)
    then have "unat (klbs_get_byte_count_free bs') = n + 16"
      by (rule ahead_free(2) [OF a])
    then have "\<not> klbs_get_byte_count_free bs' < 16" by (simp add: word_less_nat_alt)
    moreover have "length (field_bits ?priv) = 128" using True by (simp add: numeral_eq_Suc)
    ultimately show ?thesis
      using True a4 r unfolding parse_private_def by simp ((erule read_ahead, simp, simp)+)
  next
    case False
    then show ?thesis using a r by (simp add: parse_private_def)
  qed
  have len: "int (length (field_bits (pack_extension p))) = 8 + int (length (field_bits ?priv))"
    using False assms(8) by (simp add: pack_extension_def)
  have "?pkt = pkt\<lparr>pes_private_flag := pes_private_flag p\<rparr>"
    by (rule ltn_pes_packet.equality) (use assms(10-13) in simp_all)
  then have "\<And>bs'. ahead bs' fs \<Longrightarrow>
      Q (False, bits + int (length (field_bits (pack_extension p))), ?pkt, bs')"
    using assms(14) by (simp only:)
  then show ?thesis
    using False assms(3) len unfolding parse_extension_def
    by (auto simp: parse_pack_header_def skip_if_def parse_PSTD_def add.assoc simp del: field_bits_simps
        intro!: flags priv split del: if_split)
qed

lemma parse_data_ok:
  assumes "ahead bs (byte_fields d)" "bits = 48 + 8 * int h" "alloc (length d)"
    and "unat (pes_length pkt) = h + length d \<or> unat (pes_length pkt) < h"
    and "\<And>bs'. (d \<noteq> [] \<Longrightarrow> \<not> kb_overrun bs') \<Longrightarrow> Q (bits + 8 * int (length d),
           pkt\<lparr>pes_data := Some d, pes_dataLength := of_nat (length d)\<rparr>, bs')"
  shows "mem_ok (parse_data alloc pkt bs bits) Q"
proof -
  note al = ahead_aligned [OF assms(1) length_byte_fields] and fr = ahead_free [OF assms(1) length_byte_fields]
  let ?n = "of_nat (length d) :: u32"
  have un: "unat ?n = length d" using al(3) by (rule unat_of_nat_small)
  have h: "c_div (bits - 48) 8 = int h" using assms(2) by simp
  have n: "(if int (unat (pes_length pkt)) \<ge> int h then pes_length pkt - word_of_int (int h) else ?n) = ?n"
  proof (cases "unat (pes_length pkt) < h")
    case False
    then have u: "unat (pes_length pkt) = h + length d" using assms(4) by blast
    have "pes_length pkt = of_nat (unat (pes_length pkt))" by simp
    then have "pes_length pkt = of_nat h + ?n" unfolding u by simp
    then show ?thesis using u by simp
  qed (simp del: of_nat_unat)
  have "take (length d) (drop (kb_buflen_used bs) (kb_buf bs)) = d"
    using al(6) by (rule has_bits_byte_fields)
  then have "take_payload bs ?n = Some (d, bs\<lparr>kb_buflen_used := kb_buflen_used bs + length d\<rparr>)"
    using al(1,2,4) un by (simp add: take_payload_def)
  moreover have "\<not> kb_overrun bs" if "d \<noteq> []"
  proof -
    have "kb_buflen_used bs < kb_buflen bs" using al(4,5) that by (cases d) auto
    then show ?thesis using assms(1) by (simp add: ahead_def flag_honest_def)
  qed
  ultimately show ?thesis
    using assms(3,5) un unfolding parse_data_def Let_def fr h n by simp
qed

subsection \<open>Properties\<close>

text \<open>
  The packets that the packer supports: no ESCR, no pack header, sequence counter, buffer or
  second extension; every field within its width; fields that are not present are zero; and
  the packet length is that of the packet, or zero for a packet of unspecified length.
\<close>

definition pes_packable :: "ltn_pes_packet \<Rightarrow> bytes \<Rightarrow> bool" where
  "pes_packable p d \<longleftrightarrow>
     pes_has_header (pes_stream_id p) \<and>
     fits 24 (pes_start_code p) \<and> fits 8 (pes_stream_id p) \<and> fits 16 (pes_length p) \<and>
     fits 2 (pes_scrambling p) \<and> fits 1 (pes_priority p) \<and> fits 1 (pes_alignment p) \<and>
     fits 1 (pes_copyright p) \<and> fits 1 (pes_original p) \<and> fits 2 (pes_PTS_DTS_flags p) \<and>
     pes_ESCR_flag p = 0 \<and> fits 1 (pes_ES_rate_flag p) \<and> fits 1 (pes_DSM_flag p) \<and>
     fits 1 (pes_copy_info_flag p) \<and> fits 1 (pes_CRC_flag p) \<and> fits 1 (pes_extension_flag p) \<and>
     fits 8 (pes_header_length p) \<and> fits 33 (pes_PTS p) \<and> fits 33 (pes_DTS p) \<and>
     (pes_PTS_DTS_flags p \<noteq> 2 \<and> pes_PTS_DTS_flags p \<noteq> 3 \<longrightarrow> pes_PTS p = 0) \<and>
     (pes_PTS_DTS_flags p \<noteq> 3 \<longrightarrow> pes_DTS p = 0) \<and>
     pes_ES_rate p = 0 \<and> fits 7 (pes_copy_info p) \<and>
     (pes_copy_info_flag p = 0 \<longrightarrow> pes_copy_info p = 0) \<and> pes_previous_CRC p = 0 \<and>
     fits 1 (pes_private_flag p) \<and> (pes_extension_flag p = 0 \<longrightarrow> pes_private_flag p = 0) \<and>
     pes_pack_header_flag p = 0 \<and> pes_seq_counter_flag p = 0 \<and> pes_PSTD_flag p = 0 \<and>
     pes_PSTD_scale p = 0 \<and> pes_PSTD_size p = 0 \<and> pes_extension_flag_2 p = 0 \<and>
     pes_extension_length p = 0 \<and> pes_data p = Some d \<and> pes_dataLength p = of_nat (length d) \<and>
     \<not> pes_skipPayload p \<and> pes_raw p = None \<and> pes_rawLength p = 0 \<and> pes_pcr p = 0 \<and>
     pes_arrivalMs p = 0 \<and>
     (pes_length p = 0 \<or> 48 + 8 * int (unat (pes_length p)) = pack_count p + 8 * int (length d))"

definition pes_fields :: "ltn_pes_packet \<Rightarrow> bytes \<Rightarrow> (nat \<times> u64) list" where
  "pes_fields p d = pack_start p @ pack_flags p @ pack_timestamps p @ pack_optional p @
     pack_extension p @ byte_fields d"

lemma write_fields_append:
  "write_fields bs (fs @ gs) = do { bs \<leftarrow> write_fields bs fs; write_fields bs gs }"
  by (induction fs arbitrary: bs) auto

lemma length_replicate_fields: "length (field_bits (replicate k (n, v))) = k * n"
  by (induction k) auto

lemma pack_count_bits:
  assumes "pes_packable p d"
  shows "pack_count p + 8 * int (length d) = int (length (field_bits (pes_fields p d)))"
    and "\<exists>h. length (field_bits (pack_timestamps p @ pack_optional p @ pack_extension p)) = 8 * h \<and>
       pack_count p = 72 + 8 * int h"
proof -
  have w: "pes_ESCR_flag p = 0" "pes_pack_header_flag p = 0" "pes_seq_counter_flag p = 0"
    "pes_PSTD_flag p = 0" "pes_extension_flag_2 p = 0"
    using assms by (simp_all add: pes_packable_def)
  have ts: "length (field_bits (ts_fields v)) = 36" for v by (simp add: ts_fields_def)
  have lens: "length (field_bits (pack_start p)) = 48" "length (field_bits (pack_flags p)) = 24"
    "length (field_bits (pack_timestamps p)) =
       (if pes_PTS_DTS_flags p = 2 then 40 else if pes_PTS_DTS_flags p = 3 then 80 else 0)"
    "length (field_bits (pack_optional p)) = (if pes_ES_rate_flag p \<noteq> 0 then 24 else 0)
      + ((if pes_DSM_flag p \<noteq> 0 then 8 else 0) + ((if pes_copy_info_flag p \<noteq> 0 then 8 else 0)
      + (if pes_CRC_flag p \<noteq> 0 then 16 else 0)))"
    "length (field_bits (pack_extension p)) =
       (if pes_extension_flag p \<noteq> 0 then 8 + (if pes_private_flag p = 1 then 128 else 0) else 0)"
    using w by (simp_all add: pack_start_def pack_flags_def pack_timestamps_def ts pack_optional_def
        pack_extension_def length_replicate_fields)
  then show c: "pack_count p + 8 * int (length d) = int (length (field_bits (pes_fields p d)))"
    using w by (simp add: pack_count_def pes_fields_def)
  have "8 dvd length (field_bits (pack_timestamps p @ pack_optional p @ pack_extension p))"
    unfolding field_bits_append length_append lens by (auto intro!: dvd_add)
  then obtain h where h: "length (field_bits (pack_timestamps p @ pack_optional p @ pack_extension p)) = 8 * h"
    by (elim dvdE)
  have "int (length (field_bits (pes_fields p d))) = 72 + int (8 * h) + 8 * int (length d)"
    unfolding h [symmetric] by (simp add: pes_fields_def lens(1,2))
  with c h show "\<exists>h. length (field_bits (pack_timestamps p @ pack_optional p @ pack_extension p)) = 8 * h \<and>
       pack_count p = 72 + 8 * int h"
    by (intro exI [of _ h]) simp
qed

lemma pes_pack_fields:
  assumes "pes_packable p d" "length d < 2 ^ 31"
  shows "ltn_pes_packet_pack p bs =
    do { bs \<leftarrow> write_fields bs (pes_fields p d);
         Some (int (length (field_bits (pes_fields p d))), bs) }"
proof -
  have "data_prefix (pes_data p) (unat (pes_dataLength p)) = Some d"
    using assms unat_of_nat_small [of "length d"]
    by (auto simp: data_prefix_def pes_packable_def)
  moreover have "pes_has_header (pes_stream_id p)" using assms by (simp add: pes_packable_def)
  ultimately show ?thesis
    unfolding ltn_pes_packet_pack_def pack_count_bits(1) [OF assms(1), symmetric]
    by (simp add: pes_fields_def write_fields_append)
qed

lemma pes_packable_rebuilds:
  assumes "pes_packable p d"
  shows "ltn_pes_packet_init
     \<lparr>pes_skipPayload := False, pes_start_code := pes_start_code p, pes_stream_id := pes_stream_id p,
      pes_length := pes_length p, pes_scrambling := pes_scrambling p, pes_priority := pes_priority p,
      pes_alignment := pes_alignment p, pes_copyright := pes_copyright p, pes_original := pes_original p,
      pes_PTS_DTS_flags := pes_PTS_DTS_flags p, pes_ESCR_flag := pes_ESCR_flag p,
      pes_ES_rate_flag := pes_ES_rate_flag p, pes_DSM_flag := pes_DSM_flag p,
      pes_copy_info_flag := pes_copy_info_flag p, pes_CRC_flag := pes_CRC_flag p,
      pes_extension_flag := pes_extension_flag p, pes_header_length := pes_header_length p,
      pes_PTS := pes_PTS p, pes_DTS := pes_DTS p, pes_copy_info := pes_copy_info p,
      pes_private_flag := pes_private_flag p, pes_data := Some d, pes_dataLength := of_nat (length d)\<rparr>
     = p" (is "?q = p")
  by (rule ltn_pes_packet.equality)
    (use assms in \<open>simp_all add: pes_packable_def ltn_pes_packet_init_def\<close>)

lemma parse_with_header_ok:
  assumes "pes_packable p d" "alloc (length d)"
    and "ahead bs (pack_flags p @ pack_timestamps p @ pack_optional p @ pack_extension p @ byte_fields d)"
    and "length (field_bits (pack_timestamps p @ pack_optional p @ pack_extension p)) = 8 * h"
    and "unat (pes_length p) = 3 + h + length d \<or> unat (pes_length p) < 3 + h"
  shows "mem_ok (parse_with_header alloc (ltn_pes_packet_init\<lparr>pes_skipPayload := False,
      pes_start_code := pes_start_code p, pes_stream_id := pes_stream_id p, pes_length := pes_length p\<rparr>)
      bs False) (\<lambda>(bits, q, r). bits = 72 + 8 * int h + 8 * int (length d) \<and> q = p \<and> (d \<noteq> [] \<longrightarrow> \<not> kb_overrun r))"
proof -
  let ?rest = "pack_timestamps p @ pack_optional p @ pack_extension p @ byte_fields d"
  note w = assms(1) [unfolded pes_packable_def]
  have free8: "klbs_get_byte_count_free bs' \<noteq> 0" if "ahead bs' ((8, v) # ?rest)" for bs' v
  proof -
    have "length (field_bits ((8, v) # ?rest)) = 8 * (1 + h + length d)" using assms(4) by simp
    from ahead_free(2) [OF that this] show ?thesis by auto
  qed
  have escr: "pes_ESCR_flag p = 0" "fits 1 (pes_ESCR_flag p)" using w by (simp_all add: fits_def)
  have rate: "fits 22 (pes_ES_rate_flag p)"
    using w by (metis fits_def take_bit_take_bit min_absorb2 one_le_numeral)
  have hl: "fits 8 (pes_header_length p)" using w by blast
  have body: "length (field_bits (byte_fields d)) = 8 * length d" by simp
  show ?thesis
    unfolding parse_with_header_def mem_ok_bind
    apply (rule parse_flags_ok [OF assms(3)])
    using w escr apply (blast)+
    apply (frule free8)
    apply simp
    apply (erule read_ahead, simp, simp)
    apply (erule parse_timestamps_ok, simp)
    using w apply (blast, blast)
    using w apply (simp add: ltn_pes_packet_init_def)
    using w apply (simp add: ltn_pes_packet_init_def)
    apply (simp only: parse_step)
    apply (erule parse_optional_ok [OF _ escr(1)], simp, simp, simp, simp, simp, rule rate)
    using w apply blast
    using w apply (simp add: ltn_pes_packet_init_def)
    apply (simp add: ltn_pes_packet_init_def)
    apply (simp only: parse_step)
    apply (erule parse_extension_ok [OF _ body], simp)
    using w apply (blast, blast, blast, blast, blast)
    using w apply (simp_all add: ltn_pes_packet_init_def)[5]
    apply (simp only: parse_step if_False)
    apply (erule parse_data_ok [where h = "3 + h"])
    using assms(4) apply simp
    apply (rule assms(2))
    using assms(5) apply simp
    using assms(4) pes_packable_rebuilds [OF assms(1)] hl by simp
qed

lemma pes_parse_fields:
  assumes "pes_packable p d" "ahead bs (pes_fields p d)" "alloc (length d)"
  shows "mem_ok (ltn_pes_packet_parse alloc ltn_pes_packet_init bs False)
    (\<lambda>(bits, q, r). bits = int (length (field_bits (pes_fields p d))) \<and> q = p \<and> (d \<noteq> [] \<longrightarrow> \<not> kb_overrun r))"
proof -
  note w = assms(1) [unfolded pes_packable_def]
  let ?rest = "pack_timestamps p @ pack_optional p @ pack_extension p"
  obtain h where h: "length (field_bits ?rest) = 8 * h" "pack_count p = 72 + 8 * int h"
    using pack_count_bits(2) [OF assms(1)] by blast
  have total: "int (length (field_bits (pes_fields p d))) = 72 + 8 * int h + 8 * int (length d)"
    using pack_count_bits(1) [OF assms(1)] h(2) by simp
  then have "int (length (field_bits (pes_fields p d))) = int (8 * (9 + h + length d))" by simp
  then have "length (field_bits (pes_fields p d)) = 8 * (9 + h + length d)"
    by (simp only: of_nat_eq_iff)
  then have "unat (klbs_get_byte_count_free bs) = 9 + h + length d"
    by (rule ahead_free(2) [OF assms(2)])
  then have free: "\<not> klbs_get_byte_count_free bs < 8" by (simp add: word_less_nat_alt)
  have len: "length (field_bits (pack_flags p @ ?rest @ byte_fields d)) = 8 * (3 + h + length d)"
    using h(1) by (simp add: pack_flags_def)
  have "pes_length p = 0 \<or> 48 + 8 * int (unat (pes_length p)) = pack_count p + 8 * int (length d)"
    using w by blast
  then have "unat (pes_length p) = 0 \<or> int (unat (pes_length p)) = int (3 + h + length d)"
    unfolding h(2) by (elim disjE) (simp_all del: of_nat_unat)
  then have plen: "unat (pes_length p) = 3 + h + length d \<or> unat (pes_length p) < 3 + h"
    "unat (pes_length p) \<le> 3 + h + length d"
    unfolding of_nat_eq_iff by auto
  have a: "ahead bs (pack_start p @ pack_flags p @ ?rest @ byte_fields d)"
    using assms(2) by (simp add: pes_fields_def)
  have hdr: "pes_has_header (pes_stream_id p)" using w by blast
  show ?thesis
    unfolding ltn_pes_packet_parse_def if_not_P [OF free] mem_ok_bind
  proof (rule parse_start_ok [OF a len _ _ _ plen(2)])
    fix bs' assume "ahead bs' (pack_flags p @ ?rest @ byte_fields d)"
    then show "mem_ok (case (ltn_pes_packet_init\<lparr>pes_skipPayload := False,
          pes_start_code := pes_start_code p, pes_stream_id := pes_stream_id p, pes_length := pes_length p\<rparr>, bs')
        of (pkt, bs) \<Rightarrow>
          if pes_has_header (pes_stream_id pkt) then parse_with_header alloc pkt bs False
          else if pes_plain_data (pes_stream_id pkt) then parse_plain alloc pkt bs
          else if pes_stream_id pkt = 0xBE then parse_padding pkt bs
          else Some (0, pkt, bs))
        (\<lambda>(bits, q, r). bits = int (length (field_bits (pes_fields p d))) \<and> q = p \<and> (d \<noteq> [] \<longrightarrow> \<not> kb_overrun r))"
      using parse_with_header_ok [of p d alloc bs' h, OF assms(1,3) _ h(1) plen(1)] hdr total by simp
  qed (use w in blast)+
qed

text \<open>The bytes the packer leaves and what the parser makes of them.\<close>

lemma pes_pack_parse:
  assumes "pes_packable p d" "length (field_bits (pes_fields p d)) \<le> 8 * length buf"
    and "length buf < 2 ^ 31" "alloc (length d)"
  shows "\<exists>bits w r. ltn_pes_packet_pack p (klbs_write_set_buffer buf (length buf)) = Some (bits, w)
    \<and> bits = 8 * int (kb_buflen_used w) \<and> kb_buflen_used w \<le> length (kb_buf w)
    \<and> 8 * kb_buflen_used w = length (field_bits (pes_fields p d))
    \<and> ltn_pes_packet_parse alloc ltn_pes_packet_init
        (klbs_read_set_buffer (take (kb_buflen_used w) (kb_buf w)) (kb_buflen_used w)) False = Some (bits, p, r)
    \<and> (d \<noteq> [] \<longrightarrow> \<not> kb_overrun r)"
proof -
  let ?fs = "pes_fields p d"
  obtain h where "length (field_bits (pack_timestamps p @ pack_optional p @ pack_extension p)) = 8 * h"
    using pack_count_bits(2) [OF assms(1)] by blast
  then have n: "length (field_bits ?fs) = 8 * (9 + h + length d)"
    by (simp add: pes_fields_def pack_start_def pack_flags_def)
  have "\<forall>(n, v)\<in>set ?fs. n \<le> 64"
    by (auto simp: pes_fields_def pack_start_def pack_flags_def pack_timestamps_def ts_fields_def
        pack_optional_def pack_extension_def byte_fields_def split: if_splits)
  then have "mem_ok (write_fields (klbs_write_set_buffer buf (length buf)) ?fs)
      (\<lambda>w. written w (length buf) (field_bits ?fs))"
    by (intro write_fields_ok [OF written_start]) (use assms(2) in auto)
  then obtain w where w: "write_fields (klbs_write_set_buffer buf (length buf)) ?fs = Some w"
      "written w (length buf) (field_bits ?fs)"
    by (rule mem_okE)
  have "8 dvd length (field_bits ?fs)" unfolding n by simp
  note wb = written_has_bits [OF w(2) this]
  let ?u = "kb_buflen_used w" and ?b = "take (kb_buflen_used w) (kb_buf w)"
  have u: "?u = 9 + h + length d" using wb(2) n by simp
  have lb: "length (kb_buf w) = length buf" "length ?b = ?u"
    using w(2) by (simp_all add: written_def)
  have "has_bits ?b 0 (field_bits ?fs)"
    using wb(1) n u lb by (simp add: has_bits_def take_bits_of [symmetric])
  then have "ahead (klbs_read_set_buffer ?b (length ?b)) ?fs"
    by (rule ahead_start) (use n u lb assms(3) w(2) in \<open>auto simp: written_def\<close>)
  then have "mem_ok (ltn_pes_packet_parse alloc ltn_pes_packet_init (klbs_read_set_buffer ?b ?u) False)
     (\<lambda>(bits, q, r). bits = int (length (field_bits ?fs)) \<and> q = p \<and> (d \<noteq> [] \<longrightarrow> \<not> kb_overrun r))"
    using pes_parse_fields [where alloc = alloc, OF assms(1) _ assms(4)] lb(2) by simp
  moreover have "length d \<le> length buf" using n assms(2) by simp
  then have "length d < 2 ^ 31" using assms(3) by (rule le_less_trans)
  ultimately show ?thesis
    using w n u by (auto simp: pes_pack_fields [OF assms(1)] written_def elim!: mem_okE)
qed

text \<open>
  C7: Packing a PES packet and parsing the bytes gives the packet back. For every packet the
  packer supports and a buffer that is large enough, the packer stays inside the buffer, and the parser, given exactly
  the bytes written, returns the same number of bits and the same packet: every header field,
  the 33-bit time stamps and the payload. This holds for packets with their length and for
  packets of unspecified length.
\<close>

theorem pes_pack_parse_roundtrip:
  assumes "pes_packable p d" "length (field_bits (pes_fields p d)) \<le> 8 * length buf"
    and "length buf < 2 ^ 31" "alloc (length d)"
  shows "\<exists>bits w. ltn_pes_packet_pack p (klbs_write_set_buffer buf (length buf)) = Some (bits, w) \<and>
    bits = 8 * int (kb_buflen_used w) \<and>
    (\<exists>r. ltn_pes_packet_parse alloc ltn_pes_packet_init
        (klbs_read_set_buffer (take (kb_buflen_used w) (kb_buf w)) (kb_buflen_used w)) False
      = Some (bits, p, r))"
  using pes_pack_parse [where alloc = alloc, OF assms] by blast

text \<open>A video packet with both time stamps, private data and three payload bytes.\<close>

definition example_pes :: ltn_pes_packet where
  "example_pes = ltn_pes_packet_init
     \<lparr>pes_start_code := 1, pes_stream_id := 0xE0, pes_length := 33, pes_scrambling := 2,
      pes_PTS_DTS_flags := 3, pes_extension_flag := 1, pes_header_length := 27,
      pes_PTS := 0x1FFFFFFFF, pes_DTS := 0x123456789, pes_private_flag := 1,
      pes_data := Some [1, 2, 3], pes_dataLength := 3\<rparr>"

lemma example_pes_packable: "pes_packable example_pes [1, 2, 3]"
  by (simp add: pes_packable_def example_pes_def ltn_pes_packet_init_def pes_has_header_def fits_def
      pack_count_def)

theorem pes_pack_parse_roundtrip_witness:
  "\<exists>bits w. ltn_pes_packet_pack example_pes (klbs_write_set_buffer (replicate 64 0) 64) = Some (bits, w) \<and>
    (\<exists>r. ltn_pes_packet_parse (\<lambda>_. True) ltn_pes_packet_init
        (klbs_read_set_buffer (take (kb_buflen_used w) (kb_buf w)) (kb_buflen_used w)) False
      = Some (bits, example_pes, r))"
proof -
  have "length (field_bits (pes_fields example_pes [1, 2, 3])) \<le> 8 * length (replicate 64 0 :: bytes)"
    by (simp add: pes_fields_def pack_start_def pack_flags_def pack_timestamps_def ts_fields_def
        pack_optional_def pack_extension_def byte_fields_def example_pes_def ltn_pes_packet_init_def
        length_replicate_fields)
  then show ?thesis
    using pes_pack_parse_roundtrip [OF example_pes_packable, of "replicate 64 0" "\<lambda>_. True"]
    by fastforce
qed

subsection \<open>Where packer and parser disagree or leave the buffer\<close>

lemma mem_ok_fails: "mem_ok m (\<lambda>r. f r = None) \<Longrightarrow> m \<bind> f = None"
  by (auto simp: mem_ok_def)

lemma read_past_end: "ahead bs [] \<Longrightarrow> 0 < n \<Longrightarrow> klbs_read_bits bs n = None"
proof -
  assume a: "ahead bs []" and n: "0 < n"
  have "kb_reg_used bs = 0" "kb_buflen_used bs = length (kb_buf bs)"
    using ahead_aligned(2,4) [OF a, of 0] by simp_all
  then have "klbs_read_bit bs = None" "klbs_read_byte_aligned bs = None"
    by (simp_all add: klbs_read_bit_def klbs_read_byte_aligned_def Let_def rd_def)
  then show ?thesis using n by (cases n) (auto simp: klbs_read_bits_def)
qed

text \<open>
  The parser checks that 8 bytes are there, and once more before the header length, but not
  before the time stamps: a header of 9 bytes that announces one is read past its end.
\<close>

lemma parse_reads_past_end:
  assumes "ahead bs (pack_start p @ pack_flags p)" "pes_PTS_DTS_flags p = 2 \<or> pes_PTS_DTS_flags p = 3"
    and "pes_packable (p\<lparr>pes_data := Some [], pes_dataLength := 0, pes_PTS := 0, pes_DTS := 0\<rparr>) []"
    and "pes_length p = 0"
  shows "ltn_pes_packet_parse alloc pkt bs skip = None"
proof -
  note w = assms(3) [unfolded pes_packable_def, simplified]
  have len: "length (field_bits (pack_start p @ pack_flags p)) = 8 * 9"
    "length (field_bits (pack_flags p)) = 8 * 3" "length (field_bits [(8, v)]) = 8 * 1" for v
    by (simp_all add: pack_start_def pack_flags_def)
  have free: "\<not> klbs_get_byte_count_free bs < 8"
    using ahead_free(2) [OF assms(1) len(1)] by (simp add: word_less_nat_alt)
  have escr: "fits 1 (pes_ESCR_flag p)" using w by (simp add: fits_def)
  have free8: "\<not> klbs_get_byte_count_free bs' < 1" if "ahead bs' [(8, v)]" for bs' v
    using ahead_free(2) [OF that len(3)] by (auto simp: word_less_nat_alt)
  have stamps: "parse_timestamps q bs' b = None"
    if "ahead bs' []" "pes_PTS_DTS_flags q = pes_PTS_DTS_flags p" for q bs' b
    using assms(2) read_past_end [OF that(1), of 4] that(2) by (auto simp: parse_timestamps_def)
  have hdr: "parse_with_header alloc q bs' skip = None" if "ahead bs' (pack_flags p @ [])" for q bs'
    unfolding parse_with_header_def
    apply (rule mem_ok_fails, rule parse_flags_ok [OF that])
    using w escr apply (simp_all only: One_nat_def)[12]
    apply (simp only: prod.case if_not_P [OF free8])
    apply (rule mem_ok_fails, erule read_ahead, simp)
    by (simp add: stamps)
  show ?thesis
    unfolding ltn_pes_packet_parse_def if_not_P [OF free]
    apply (rule mem_ok_fails, rule parse_start_ok [OF assms(1) len(2)])
    using w assms(4) apply (simp_all)[4]
    using w hdr by simp
qed

end
