(* ===== verification/NalBitReader.thy ===== *)
theory NalBitReader
  imports Bits
begin

text \<open>
  The bit reader for NAL units of \<open>src/src/nal_bitreader.c\<close> and its Exp-Golomb decoders.

  The \<open>int\<close> fields are \<open>int\<close>; a product or shift that leaves 32 bits is undefined and gives
  \<open>None\<close>, as does a read outside the data. The decoders return the value that the C functions
  return, -1 for an error included, and the reader with its new position.
\<close>

subsection \<open>State and operations\<close>

record NALBitReader =
  nb_data :: bytes
  nb_size :: int
  nb_bit_pos :: int

definition NALBitReader_init :: "bytes \<Rightarrow> int \<Rightarrow> NALBitReader" where
  "NALBitReader_init data sz = \<lparr>nb_data = data, nb_size = sz, nb_bit_pos = 0\<rparr>"

definition in_int :: "int \<Rightarrow> bool" where
  "in_int x \<longleftrightarrow> - (2 ^ 31) \<le> x \<and> x < 2 ^ 31"

definition NALBitReader_read_bit :: "NALBitReader \<Rightarrow> (int \<times> NALBitReader) mem" where
  "NALBitReader_read_bit br =
     (if \<not> in_int (nb_size br * 8) then None
      else if nb_bit_pos br \<ge> nb_size br * 8 then Some (-1, br)
      else
        let byte_offset = c_div (nb_bit_pos br) 8;
            bit_offset = 7 - c_mod (nb_bit_pos br) 8
        in if byte_offset < 0 then None else
           do { b \<leftarrow> rd (nb_data br) (nat byte_offset);
                Some (of_bool (bit b (nat bit_offset)), br\<lparr>nb_bit_pos := nb_bit_pos br + 1\<rparr>) })"

text \<open>The loops \<open>for (int i = 0; i < n; i++)\<close>: the argument is the number of turns left.\<close>

fun skip_bits_loop :: "nat \<Rightarrow> NALBitReader \<Rightarrow> NALBitReader mem" where
  "skip_bits_loop 0 br = Some br"
| "skip_bits_loop (Suc n) br = do { (b, br) \<leftarrow> NALBitReader_read_bit br; skip_bits_loop n br }"

definition NALBitReader_skip_bits :: "NALBitReader \<Rightarrow> int \<Rightarrow> NALBitReader mem" where
  "NALBitReader_skip_bits br n = skip_bits_loop (nat n) br"

definition NALBitReader_skip_to_byte_aligned :: "NALBitReader \<Rightarrow> NALBitReader mem" where
  "NALBitReader_skip_to_byte_aligned br =
     (let bits_to_skip = c_mod (nb_bit_pos br) 8
      in if bits_to_skip \<noteq> 0 then NALBitReader_skip_bits br (8 - bits_to_skip) else Some br)"

fun nal_read_bits_loop :: "nat \<Rightarrow> u32 \<Rightarrow> NALBitReader \<Rightarrow> (u32 \<times> NALBitReader) mem" where
  "nal_read_bits_loop 0 result br = Some (result, br)"
| "nal_read_bits_loop (Suc n) result br =
     do { (b, br) \<leftarrow> NALBitReader_read_bit br;
          if b < 0 then Some (0xFFFFFFFF, br)
          else nal_read_bits_loop n (push_bit 1 result OR word_of_int b) br }"

definition NALBitReader_read_bits :: "NALBitReader \<Rightarrow> int \<Rightarrow> (u32 \<times> NALBitReader) mem" where
  "NALBitReader_read_bits br n = nal_read_bits_loop (nat n) 0 br"

lemma read_bit_step:
  "NALBitReader_read_bit br = Some (b, br') \<Longrightarrow> 0 \<le> b \<Longrightarrow>
     nb_bit_pos br < nb_size br * 8 \<and> nb_bit_pos br' = nb_bit_pos br + 1 \<and> nb_size br' = nb_size br"
  by (auto simp: NALBitReader_read_bit_def Let_def split: if_splits bind_splits)

text \<open>
  The loop that counts the leading zeros of an Exp-Golomb code: \<open>None\<close> inside the result is
  the early return of -1. It ends because every turn but the last consumes a bit.
\<close>

function ue_prefix :: "NALBitReader \<Rightarrow> int \<Rightarrow> (int option \<times> NALBitReader) mem" where
  "ue_prefix br leadingZeroBits =
     (case NALBitReader_read_bit br of
        None \<Rightarrow> None
      | Some (b, br) \<Rightarrow>
          if b < 0 then Some (None, br)
          else if b = 0 then ue_prefix br (leadingZeroBits + 1)
          else Some (Some (leadingZeroBits + 1), br))"
  by auto

termination ue_prefix
  by (relation "measure (\<lambda>(br, z). nat (nb_size br * 8 - nb_bit_pos br))")
    (auto dest!: read_bit_step)

declare ue_prefix.simps [simp del]

definition NALBitReader_read_ue :: "NALBitReader \<Rightarrow> (int \<times> NALBitReader) mem" where
  "NALBitReader_read_ue br =
     do { (z, br) \<leftarrow> ue_prefix br (-1);
          case z of
            None \<Rightarrow> Some (-1, br)
          | Some leadingZeroBits \<Rightarrow>
              if leadingZeroBits > 31 then Some (-1, br)
              else do { (info, br) \<leftarrow> NALBitReader_read_bits br leadingZeroBits;
                        let infoBits = sint info;
                        if \<not> in_int (2 ^ nat leadingZeroBits) then None
                        else Some (2 ^ nat leadingZeroBits - 1 + infoBits, br) } }"

definition NALBitReader_read_se :: "NALBitReader \<Rightarrow> (int \<times> NALBitReader) mem" where
  "NALBitReader_read_se br =
     do { (codeNum, br) \<leftarrow> NALBitReader_read_ue br;
          Some (if codeNum AND 1 \<noteq> 0 then drop_bit 1 (codeNum + 1) else - drop_bit 1 codeNum, br) }"

definition cbp_inter :: "int list" where
  "cbp_inter =
     [ 0, 16,  1,  2,  4,  8, 32,  3,
       5, 10, 12, 15, 47,  7, 11, 13,
      14,  6,  9, 31, 35, 37, 42, 44,
      33, 34, 36, 40, 39, 43, 45, 46,
      17, 18, 20, 24, 19, 21, 26, 28,
      23, 27, 29, 30, 22, 25, 38, 41]"

definition cbp_intra :: "int list" where
  "cbp_intra =
     [47, 31, 15,  0, 23, 27, 29, 30,
       7, 11, 13, 14, 39, 43, 45, 46,
      16,  3,  5, 10, 12, 19, 21, 26,
      28, 35, 37, 42, 44,  1,  2,  4,
       8, 17, 18, 20, 24,  6,  9, 22,
      25, 32, 33, 34, 36, 40, 38, 41]"

definition NALBitReader_read_me :: "NALBitReader \<Rightarrow> bool \<Rightarrow> (int \<times> NALBitReader) mem" where
  "NALBitReader_read_me br intra =
     do { (codeNum, br) \<leftarrow> NALBitReader_read_ue br;
          if codeNum < 0 \<or> codeNum \<ge> 48 then Some (-1, br)
          else do { v \<leftarrow> rd (if intra then cbp_intra else cbp_inter) (nat codeNum); Some (v, br) } }"

definition NALBitReader_read_te :: "NALBitReader \<Rightarrow> int \<Rightarrow> (int \<times> NALBitReader) mem" where
  "NALBitReader_read_te br maxVal =
     (if maxVal < 1 then Some (0, br)
      else if maxVal = 1 then
        do { (b, br) \<leftarrow> NALBitReader_read_bit br;
             Some (if b < 0 then -1 else if b = 0 then 1 else 0, br) }
      else NALBitReader_read_ue br)"

subsection \<open>Reading fields\<close>

text \<open>A reader of \<open>buf\<close> that has consumed \<open>k\<close> bits; a buffer of 256 MiB or more overflows.\<close>

definition nal_at :: "bytes \<Rightarrow> NALBitReader \<Rightarrow> nat \<Rightarrow> bool" where
  "nal_at buf br k \<longleftrightarrow>
     length buf < 2 ^ 28 \<and> br = \<lparr>nb_data = buf, nb_size = int (length buf), nb_bit_pos = int k\<rparr>"

lemma nal_at_init: "length buf < 2 ^ 28 \<Longrightarrow> nal_at buf (NALBitReader_init buf (int (length buf))) 0"
  by (simp add: nal_at_def NALBitReader_init_def)

lemma nal_read_bit:
  assumes "nal_at buf br k" "k < 8 * length buf"
  shows "NALBitReader_read_bit br =
      Some (of_bool (bit (buf ! (k div 8)) (7 - k mod 8)), br\<lparr>nb_bit_pos := int (Suc k)\<rparr>)"
    and "nal_at buf (br\<lparr>nb_bit_pos := int (Suc k)\<rparr>) (Suc k)"
proof -
  have i: "in_int (int (length buf) * 8)"
    using assms(1) by (simp add: in_int_def nal_at_def)
  have "nat (int k div 8) = k div 8" "nat (7 - int k mod 8) = 7 - k mod 8"
    by (simp_all add: nat_div_distrib nat_diff_distrib nat_mod_distrib)
  moreover have "k div 8 < length buf" "\<not> int (length buf) * 8 \<le> int k"
    using assms(2) by (auto simp: ac_simps)
  moreover have "0 \<le> int k div 8" by simp
  ultimately show "NALBitReader_read_bit br =
      Some (of_bool (bit (buf ! (k div 8)) (7 - k mod 8)), br\<lparr>nb_bit_pos := int (Suc k)\<rparr>)"
    using assms(1) i by (simp add: NALBitReader_read_bit_def nal_at_def Let_def)
  show "nal_at buf (br\<lparr>nb_bit_pos := int (Suc k)\<rparr>) (Suc k)"
    using assms(1) by (simp add: nal_at_def)
qed

definition nal_next :: "NALBitReader \<Rightarrow> (bool \<times> NALBitReader) mem" where
  "nal_next br = do { (b, br) \<leftarrow> NALBitReader_read_bit br; Some (b = 1, br) }"

interpretation nal_source: bit_source buf "nal_at buf" nal_next for buf
proof unfold_locales
  fix br k assume "nal_at buf br k" "k < 8 * length buf"
  then show "mem_ok (nal_next br)
      (\<lambda>(b, br'). b = bit (buf ! (k div 8)) (7 - k mod 8) \<and> nal_at buf br' (Suc k))"
    using nal_read_bit [of buf br k] by (simp add: nal_next_def)
qed

lemma nal_read_bits_gather:
  "nal_at buf br k \<Longrightarrow> k + n \<le> 8 * length buf \<Longrightarrow> nal_read_bits_loop n acc br = gather nal_next n acc br"
proof (induction n arbitrary: br k acc)
  case (Suc n)
  have "(word_of_int (of_bool b) :: u32) = of_bool b" for b by simp
  then show ?case
    using nal_read_bit [of buf br k] Suc by (simp add: nal_next_def)
qed simp

lemma nal_read_bits_ok:
  assumes "nal_at buf br k" "has_bits buf k (field n v)" "n \<le> 32"
  shows "\<exists>br'. NALBitReader_read_bits br (int n) = Some (take_bit n v, br') \<and> nal_at buf br' (k + n)"
  using nal_source.gather_field [OF assms(1,2), of 0] assms nal_read_bits_gather [OF assms(1)]
  by (auto simp: NALBitReader_read_bits_def has_bits_def elim!: mem_okE)

lemma ue_prefix_zeros:
  assumes "nal_at buf br k" "has_bits buf k (replicate z False @ [True])"
  shows "\<exists>br'. ue_prefix br c = Some (Some (c + int z + 1), br') \<and> nal_at buf br' (k + z + 1)"
  using assms
proof (induction z arbitrary: br k c)
  case 0
  then show ?case
    using nal_read_bit [of buf br k]
    by (subst ue_prefix.simps) (auto simp: has_bits_Cons)
next
  case (Suc z)
  let ?br = "br\<lparr>nb_bit_pos := int (Suc k)\<rparr>"
  have b: "NALBitReader_read_bit br = Some (0, ?br)" "nal_at buf ?br (Suc k)"
     "has_bits buf (Suc k) (replicate z False @ [True])"
    using nal_read_bit [OF Suc.prems(1)] Suc.prems(2) by (auto simp: has_bits_Cons)
  then show ?case
    using Suc.IH [OF b(2,3), of "c + 1"]
    by (subst ue_prefix.simps) (auto simp: algebra_simps)
qed

subsection \<open>Exp-Golomb codes\<close>

text \<open>
  The codes as the video standards define them: \<open>ue(v)\<close> writes \<open>k + 1\<close> with as many zeros in
  front as it has bits after its leading one, and \<open>se(v)\<close> maps the integers to the naturals.
\<close>

fun bits_below :: "nat \<Rightarrow> nat" where
  "bits_below n = (if n < 2 then 0 else Suc (bits_below (n div 2)))"

declare bits_below.simps [simp del]

definition ue_code :: "nat \<Rightarrow> bool list" where
  "ue_code k = (let z = bits_below (k + 1) in replicate z False @ field (Suc z) (k + 1))"

definition se_code :: "int \<Rightarrow> bool list" where
  "se_code v = ue_code (nat (if v > 0 then 2 * v - 1 else - 2 * v))"

lemma bits_below_bounds: "0 < n \<Longrightarrow> 2 ^ bits_below n \<le> n \<and> n < 2 ^ Suc (bits_below n)"
proof (induction n rule: bits_below.induct)
  case (1 n)
  show ?case
  proof (cases "n < 2")
    case True
    then show ?thesis using 1(2) by (simp add: bits_below.simps)
  next
    case False
    then have "2 ^ bits_below (n div 2) \<le> n div 2 \<and> n div 2 < 2 ^ Suc (bits_below (n div 2))"
      using 1 by auto
    moreover have "bits_below n = Suc (bits_below (n div 2))"
      using False by (simp add: bits_below.simps)
    ultimately show ?thesis by auto
  qed
qed

lemma bit_top: "2 ^ z \<le> n \<Longrightarrow> n < 2 ^ Suc z \<Longrightarrow> bit (n :: nat) z"
proof -
  assume "2 ^ z \<le> n" "n < 2 ^ Suc z"
  then have "n div 2 ^ z = 1" by (intro div_nat_eqI) auto
  then show ?thesis by (simp add: bit_iff_odd)
qed

lemma read_ue_code:
  assumes "nal_at buf br p" "has_bits buf p (ue_code k)" "k + 1 < 2 ^ 31"
  shows "\<exists>br'. NALBitReader_read_ue br = Some (int k, br') \<and> nal_at buf br' (p + length (ue_code k))"
proof -
  define m z where "m = k + 1" and "z = bits_below m"
  have m: "0 < m" "m < 2 ^ 31" "int k = int m - 1" using assms(3) by (simp_all add: m_def)
  have z: "2 ^ z \<le> m" "m < 2 ^ Suc z"
    using bits_below_bounds [OF m(1)] by (auto simp: z_def)
  have z31: "z < 31"
    using z(1) m(2) by (rule power_less_imp_less_exp [OF _ le_less_trans, rotated]) simp
  have code: "ue_code k = (replicate z False @ [True]) @ field z m"
    unfolding ue_code_def Let_def m_def [symmetric] z_def [symmetric] using bit_top [OF z] by simp
  let ?v = "of_nat m :: u32"
  have fld: "field z ?v = field z m"
    using z31 by (intro field_cong) (simp add: bit_simps)
  have h: "has_bits buf p (replicate z False @ [True])" "has_bits buf (p + z + 1) (field z ?v)"
    using assms(2) unfolding code fld has_bits_append [of _ _ "replicate z False @ [True]"]
    by (simp_all add: add.assoc)
  obtain br1 where br1: "ue_prefix br (-1) = Some (Some (int z), br1)" "nal_at buf br1 (p + z + 1)"
    using ue_prefix_zeros [OF assms(1) h(1), of "-1"] by auto
  obtain br2 where br2: "NALBitReader_read_bits br1 (int z) = Some (take_bit z ?v, br2)"
      "nal_at buf br2 (p + z + 1 + z)"
    using nal_read_bits_ok [OF br1(2) h(2)] z31 by auto
  have "unat (take_bit z ?v) = m - 2 ^ z"
  proof -
    have "m < 2 ^ 32" using m(2) by simp
    then have "unat (take_bit z ?v) = take_bit z m"
      by (simp add: unsigned_take_bit_eq take_bit_nat_eq_self unsigned_of_nat)
    also have "\<dots> = m mod 2 ^ z" by (simp only: take_bit_eq_mod)
    also have "\<dots> = m - 2 ^ z" using z by (simp add: mod_if le_mod_geq)
    finally show ?thesis .
  qed
  then have "sint (take_bit z ?v) = int (m - 2 ^ z)"
    using sint_small [of "take_bit z ?v"] m(2) by simp
  moreover have "in_int (2 ^ z)"
  proof -
    have "(2 :: int) ^ z < 2 ^ 31" using z31 by (intro power_strict_increasing) simp_all
    moreover have "- (2 ^ 31) \<le> (2 :: int) ^ z" by (rule order_trans [of _ 0]) simp_all
    ultimately show ?thesis by (simp only: in_int_def)
  qed
  moreover have "int (m - 2 ^ z) = int m - 2 ^ z"
    using z(1) by (simp add: of_nat_diff)
  ultimately have "NALBitReader_read_ue br = Some (int k, br2)"
    using br1 br2 z31 m(3) by (simp add: NALBitReader_read_ue_def)
  then show ?thesis using br2(2) by (auto simp: code add_ac)
qed

lemma read_se_code:
  assumes "nal_at buf br p" "has_bits buf p (se_code v)" "\<bar>v\<bar> < 2 ^ 30"
  shows "\<exists>br'. NALBitReader_read_se br = Some (v, br') \<and> nal_at buf br' (p + length (se_code v))"
proof -
  define k where "k = nat (if v > 0 then 2 * v - 1 else - 2 * v)"
  have "k + 1 < 2 ^ 31" using assms(3) by (auto simp: k_def)
  then obtain br' where br': "NALBitReader_read_ue br = Some (int k, br')"
      "nal_at buf br' (p + length (se_code v))"
    using read_ue_code [OF assms(1), of k] assms(2) by (auto simp: se_code_def k_def)
  have "(if int k AND 1 \<noteq> 0 then drop_bit 1 (int k + 1) else - drop_bit 1 (int k)) = v"
    by (auto simp: k_def and_one_eq drop_bit_eq_div mod_2_eq_odd)
  then show ?thesis
    using br' by (simp add: NALBitReader_read_se_def)
qed

subsection \<open>Properties\<close>

text \<open>A sequence of syntax elements: unsigned and signed codes and plain fields.\<close>

datatype elem = UE nat | SE int | FLD nat u32

fun elem_code :: "elem \<Rightarrow> bool list" where
  "elem_code (UE k) = ue_code k"
| "elem_code (SE v) = se_code v"
| "elem_code (FLD n v) = field n v"

fun elem_fits :: "elem \<Rightarrow> bool" where
  "elem_fits (UE k) = (k + 1 < 2 ^ 31)"
| "elem_fits (SE v) = (\<bar>v\<bar> < 2 ^ 30)"
| "elem_fits (FLD n v) = (n \<le> 32)"

fun elem_value :: "elem \<Rightarrow> int" where
  "elem_value (UE k) = int k"
| "elem_value (SE v) = v"
| "elem_value (FLD n v) = uint (take_bit n v)"

fun read_elem :: "NALBitReader \<Rightarrow> elem \<Rightarrow> (int \<times> NALBitReader) mem" where
  "read_elem br (UE k) = NALBitReader_read_ue br"
| "read_elem br (SE v) = NALBitReader_read_se br"
| "read_elem br (FLD n v) =
     map_option (\<lambda>(w, br). (uint w, br)) (NALBitReader_read_bits br (int n))"

fun read_elems :: "NALBitReader \<Rightarrow> elem list \<Rightarrow> (int list \<times> NALBitReader) mem" where
  "read_elems br [] = Some ([], br)"
| "read_elems br (e # es) =
     do { (v, br) \<leftarrow> read_elem br e; (vs, br) \<leftarrow> read_elems br es; Some (v # vs, br) }"

lemma read_elem_ok:
  assumes "nal_at buf br p" "has_bits buf p (elem_code e)" "elem_fits e"
  shows "\<exists>br'. read_elem br e = Some (elem_value e, br') \<and> nal_at buf br' (p + length (elem_code e))"
  using assms
  by (cases e) (auto dest: read_ue_code read_se_code nal_read_bits_ok)

text \<open>
  C29: Decoding inverts the Exp-Golomb code. When a buffer smaller than 256 MiB holds, from
  any bit position, a sequence of \<open>ue(v)\<close> codes below \<open>2 ^ 31 - 1\<close>, \<open>se(v)\<close> codes below
  \<open>2 ^ 30\<close> and plain fields of up to 32 bits, the reader returns exactly those values and
  stops exactly behind the last code.
\<close>

theorem nal_read_elems_decode:
  assumes "nal_at buf br p" "has_bits buf p (concat (map elem_code es))" "\<forall>e\<in>set es. elem_fits e"
  shows "\<exists>br'. read_elems br es = Some (map elem_value es, br') \<and>
    nal_at buf br' (p + length (concat (map elem_code es)))"
  using assms
proof (induction es arbitrary: br p)
  case (Cons e es)
  have h: "has_bits buf p (elem_code e)"
    "has_bits buf (p + length (elem_code e)) (concat (map elem_code es))"
    using Cons.prems(2) by (simp_all add: has_bits_append)
  obtain br1 where b: "read_elem br e = Some (elem_value e, br1)"
      "nal_at buf br1 (p + length (elem_code e))"
    using read_elem_ok [OF Cons.prems(1) h(1)] Cons.prems(3) by auto
  show ?case
    using Cons.IH [OF b(2) h(2)] Cons.prems(3) b(1) by (auto simp: add.assoc)
qed simp

theorem nal_read_elems_decode_witness:
  "\<exists>br'. read_elems (NALBitReader_init [0x98, 0xB0] 2) [FLD 1 1, UE 5, SE (-2), UE 0]
      = Some ([1, 5, -2, 0], br')"
proof -
  let ?es = "[FLD 1 1, UE 5, SE (-2), UE 0]"
  have "has_bits [0x98, 0xB0] 0 (concat (map elem_code ?es))"
    by (simp add: has_bits_def bits_of_def ue_code_def se_code_def bits_below.simps field_numeral bit_0)
  then show ?thesis
    using nal_read_elems_decode [of "[0x98, 0xB0]" "NALBitReader_init [0x98, 0xB0] 2" 0 ?es]
      nal_at_init [of "[0x98, 0xB0]"]
    by (auto simp del: read_elems.simps)
qed

subsection \<open>Errors that look like values\<close>

text \<open>
  A code whose zeros are complete but whose information bits are cut off is not reported: the
  32 ones that \<open>NALBitReader_read_bits\<close> returns become -1, and the result is a plausible
  positive number.
\<close>

lemma read_ue_truncated:
  "map_option fst (NALBitReader_read_ue (NALBitReader_init [0x01] 1)) = Some 126"
proof -
  have "replicate 7 False = [False, False, False, False, False, False, False]"
    by (simp add: numeral_eq_Suc)
  then have "has_bits [0x01] 0 (replicate 7 False @ [True])"
    by (simp add: has_bits_def bits_of_def field_numeral bit_0)
  then have p: "ue_prefix (NALBitReader_init [0x01] 1) (-1) =
      Some (Some 7, \<lparr>nb_data = [0x01], nb_size = 1, nb_bit_pos = 8\<rparr>)"
    using ue_prefix_zeros [of "[0x01]" "NALBitReader_init [0x01] 1" 0 7 "-1"] nal_at_init [of "[0x01]"]
    by (auto simp: nal_at_def)
  have "NALBitReader_read_bits \<lparr>nb_data = [0x01], nb_size = 1, nb_bit_pos = 8\<rparr> 7 =
      Some (0xFFFFFFFF, \<lparr>nb_data = [0x01], nb_size = 1, nb_bit_pos = 8\<rparr>)"
    using nal_read_bits_loop.simps(2) [of 6]
    by (simp add: NALBitReader_read_bits_def NALBitReader_read_bit_def in_int_def)
  then show ?thesis
    using p by (simp add: NALBitReader_read_ue_def in_int_def)
qed

text \<open>An error of \<open>read_ue\<close> becomes the value 0 of \<open>read_se\<close>.\<close>

lemma read_se_hides_errors:
  "NALBitReader_read_ue br = Some (-1, br') \<Longrightarrow> NALBitReader_read_se br = Some (0, br')"
  by (simp add: NALBitReader_read_se_def)

text \<open>31 leading zeros pass the check and shift a 1 into the sign bit.\<close>

lemma read_ue_31_zeros:
  assumes "nal_at buf br k" "has_bits buf k (replicate 31 False @ True # field 31 (v :: u32))"
  shows "NALBitReader_read_ue br = None"
proof -
  have h: "has_bits buf k (replicate 31 False @ [True])" "has_bits buf (k + 31 + 1) (field 31 (v :: u32))"
    using assms(2) has_bits_append [of buf k "replicate 31 False @ [True]" "field 31 v"]
    by (simp_all add: add.assoc add.commute)
  obtain br1 where b: "ue_prefix br (-1) = Some (Some 31, br1)" "nal_at buf br1 (k + 31 + 1)"
    using ue_prefix_zeros [OF assms(1) h(1), of "-1"] by auto
  then show ?thesis
    using nal_read_bits_ok [OF b(2) h(2)] by (auto simp: NALBitReader_read_ue_def in_int_def)
qed

end
