(* ===== verification/SectionExtractor.thy ===== *)
theory SectionExtractor
  imports Ts Crc32
begin

text \<open>
  The section extractor of \<open>src/src/sectionextractor.c\<close>: it watches one PID for the section
  with one table id and assembles it into a 4096-byte buffer.

  The flags \<open>complete\<close> and \<open>appending\<close> only ever hold 0 or 1 and are \<open>bool\<close>; the lengths are
  \<open>unsigned int\<close> and are \<open>u32\<close>. A packet pointer is the rest of the caller's buffer from that
  packet on, so that a read past the packet is defined exactly as long as it stays inside the
  buffer. The buffer \<open>section\<close> (\<open>section_buf\<close> here) is \<open>None\<close> when its allocation failed, which the code does not
  check.
\<close>

unbundle bit_operations_syntax

subsection \<open>State and operations\<close>

record sectionextractor_ctx_s =
  tableID :: u8
  PID :: u16
  complete :: bool
  appending :: bool
  section_buf :: "bytes option"
  sectionLength :: u32
  sectionLengthCurrent :: u32

definition sectionextractor_ctx_size :: nat where
  "sectionextractor_ctx_size = 32"

text \<open>\<open>heap\<close> is what \<open>malloc\<close> left in the 4096 bytes it returned; \<open>None\<close> is the return code -1.\<close>

definition ltntstools_sectionextractor_alloc ::
  "allocator \<Rightarrow> bytes \<Rightarrow> u16 \<Rightarrow> u8 \<Rightarrow> sectionextractor_ctx_s option" where
  "ltntstools_sectionextractor_alloc alloc heap pid tid =
     (if \<not> alloc sectionextractor_ctx_size then None else
      Some \<lparr>tableID = tid, PID = pid, complete = False, appending = False,
            section_buf = (if alloc 4096 then Some heap else None),
            sectionLength = 0, sectionLengthCurrent = 0\<rparr>)"

text \<open>
  The position of the table data in a packet: behind the adaptation field, and in a packet
  that starts a section behind the pointer field too. \<open>Some None\<close> is the early \<open>return 0\<close>.
\<close>

definition section_offset :: "bytes \<Rightarrow> nat option mem" where
  "section_offset pkt =
     do { need 1 pkt;
          if pkt ! 0 \<noteq> 0x47 then Some None else
     do { need 4 pkt;
          off \<leftarrow> if ltntstools_has_adaption pkt
                 then do { need 5 pkt; Some (4 + 1 + unat (ltntstools_adaption_field_length pkt)) }
                 else Some 4;
          if ltntstools_payload_unit_start_indicator pkt
          then do { pointer_field \<leftarrow> rd pkt off;
                    let off = off + unat pointer_field + 1;
                    Some (if off \<ge> 180 then None else Some off) }
          else Some (Some off) }}"

text \<open>The 12-bit length behind the table id, and the three bytes up to and including it.\<close>

definition section_length_at :: "bytes \<Rightarrow> nat \<Rightarrow> u32" where
  "section_length_at pkt off =
     ((push_bit 8 (ucast (pkt ! (off + 1))) OR ucast (pkt ! (off + 2))) AND 0xfff) + 3"

text \<open>
  The tail of the packet handler: the copy, and the checksum once the section is whole. The
  results are the context, the number of bytes copied, \<open>*complete\<close> and \<open>*crcValid\<close>.
\<close>

definition section_copy ::
  "sectionextractor_ctx_s \<Rightarrow> bytes \<Rightarrow> nat \<Rightarrow> u32 \<Rightarrow> bool
     \<Rightarrow> (sectionextractor_ctx_s \<times> int \<times> bool \<times> bool) mem" where
  "section_copy ctx pkt off copylength cmpl =
     do { src \<leftarrow> rdn pkt off (unat copylength);
          dst \<leftarrow> section_buf ctx;
          dst \<leftarrow> wr dst (unat (sectionLengthCurrent ctx)) src;
          let ctx = ctx\<lparr>section_buf := Some dst,
                        sectionLengthCurrent := sectionLengthCurrent ctx + copylength\<rparr>;
          if sectionLength ctx = sectionLengthCurrent ctx
          then do { r \<leftarrow> ltntstools_checkCRC32 (section_buf ctx) (sint (sectionLength ctx));
                    Some (ctx\<lparr>complete := True, appending := False\<rparr>, sint copylength, True, r = 0) }
          else Some (ctx, sint copylength, cmpl, False) }"

definition ltntstools_sectionextractor_write_packet ::
  "sectionextractor_ctx_s \<Rightarrow> bytes \<Rightarrow> bool \<Rightarrow> (sectionextractor_ctx_s \<times> int \<times> bool \<times> bool) mem" where
  "ltntstools_sectionextractor_write_packet ctx pkt cmpl =
     do { so \<leftarrow> section_offset pkt;
          case so of
            None \<Rightarrow> Some (ctx, 0, cmpl, False)
          | Some off \<Rightarrow>
     do { tid \<leftarrow> if \<not> appending ctx \<and> \<not> complete ctx then rd pkt off else Some (tableID ctx);
          if \<not> appending ctx \<and> \<not> complete ctx \<and> tid = tableID ctx
          then do { need (off + 3) pkt;
                    let ctx = ctx\<lparr>appending := True, complete := False, sectionLengthCurrent := 0,
                                  sectionLength := section_length_at pkt off\<rparr>;
                    section_copy ctx pkt off
                      (if sint (sectionLength ctx) > 183 then 183 else sectionLength ctx) cmpl }
          else if appending ctx \<and> \<not> complete ctx
          then section_copy ctx pkt off
                 (if sectionLengthCurrent ctx + 183 > sectionLength ctx
                  then sectionLength ctx - sectionLengthCurrent ctx else 183) cmpl
          else Some (ctx\<lparr>complete := False, appending := False\<rparr>, -1, cmpl, False) }}"

text \<open>
  The packets of one call: \<open>buf\<close> is the caller's buffer from the current packet on and \<open>n\<close>
  the number of packets left. \<open>*crcValid\<close> keeps the caller's value until a packet of the PID
  is handled.
\<close>

fun sectionextractor_write_loop ::
  "nat \<Rightarrow> sectionextractor_ctx_s \<Rightarrow> bytes \<Rightarrow> int \<Rightarrow> bool \<Rightarrow> bool
     \<Rightarrow> (sectionextractor_ctx_s \<times> int \<times> bool \<times> bool) mem" where
  "sectionextractor_write_loop 0 ctx buf ret cmpl crcValid = Some (ctx, ret, cmpl, crcValid)"
| "sectionextractor_write_loop (Suc n) ctx buf ret cmpl crcValid =
     do { need 3 buf;
          if ltntstools_pid buf \<noteq> PID ctx
          then sectionextractor_write_loop n ctx (drop 188 buf) ret cmpl crcValid
          else do { (ctx, r, cmpl, crcValid) \<leftarrow> ltntstools_sectionextractor_write_packet ctx buf cmpl;
                    sectionextractor_write_loop n ctx (drop 188 buf) (ret + r) cmpl crcValid }}"

definition ltntstools_sectionextractor_write ::
  "sectionextractor_ctx_s \<Rightarrow> bytes \<Rightarrow> nat \<Rightarrow> bool
     \<Rightarrow> (sectionextractor_ctx_s \<times> int \<times> bool \<times> bool) mem" where
  "ltntstools_sectionextractor_write ctx pkt packetCount crcValid =
     do { (ctx, ret, cmpl, crcValid) \<leftarrow> sectionextractor_write_loop packetCount ctx pkt 0 False crcValid;
          let ctx = (if cmpl then ctx\<lparr>complete := True\<rparr> else ctx);
          Some (ctx, ret, cmpl, crcValid) }"

text \<open>
  The comparison with \<open>sectionLength + 3\<close> is unsigned. \<open>None\<close> for \<open>dst\<close> is \<open>NULL\<close>; the result
  is the context, the destination and the return code.
\<close>

definition ltntstools_sectionextractor_query ::
  "sectionextractor_ctx_s \<Rightarrow> bytes option \<Rightarrow> int \<Rightarrow> (sectionextractor_ctx_s \<times> bytes option \<times> int) mem" where
  "ltntstools_sectionextractor_query ctx dst lengthBytes =
     (case dst of
        None \<Rightarrow> Some (ctx, None, -1)
      | Some d \<Rightarrow>
          if \<not> complete ctx \<or> word_of_int lengthBytes < sectionLength ctx + 3
          then Some (ctx, Some d, -1)
          else do { sec \<leftarrow> section_buf ctx;
                    src \<leftarrow> rdn sec 0 (unat (sectionLength ctx + 3));
                    d \<leftarrow> wr d 0 src;
                    Some (ctx\<lparr>complete := False, appending := False\<rparr>, Some d,
                          sint (sectionLength ctx + 3)) })"


subsection \<open>The invariant\<close>

text \<open>
  The extractor never holds more than the announced length, the announced length is what
  twelve bits can say, and while it is appending something is still missing.
\<close>

definition sx_inv :: "sectionextractor_ctx_s \<Rightarrow> bool" where
  "sx_inv ctx \<longleftrightarrow>
     (case section_buf ctx of None \<Rightarrow> True | Some sec \<Rightarrow> length sec = 4096)
     \<and> sectionLengthCurrent ctx \<le> sectionLength ctx \<and> sectionLength ctx \<le> 4098
     \<and> (appending ctx \<longrightarrow> sectionLengthCurrent ctx < sectionLength ctx)"

lemma section_length_at_bounds:
  "3 \<le> unat (section_length_at pkt off)" "unat (section_length_at pkt off) \<le> 4098"
proof -
  define x where "x = ((push_bit 8 (ucast (pkt ! (off + 1))) OR ucast (pkt ! (off + 2))) AND 0xfff :: u32)"
  have "unat (y AND mask 12 :: u32) < 2 ^ 12" for y by (rule unat_and_mask_lt)
  then have "unat x < 4096" by (simp add: x_def mask_eq_exp_minus_1)
  then have "unat (x + 3) = unat x + 3" by (simp add: unat_add_lem [THEN iffD1])
  with \<open>unat x < 4096\<close> show "3 \<le> unat (section_length_at pkt off)" "unat (section_length_at pkt off) \<le> 4098"
    by (simp_all add: section_length_at_def x_def)
qed

lemma sx_inv_alloc:
  assumes "length heap = 4096" and "ltntstools_sectionextractor_alloc alloc heap pid tid = Some ctx"
  shows "sx_inv ctx"
  using assms by (auto simp: ltntstools_sectionextractor_alloc_def sx_inv_def split: if_splits)

text \<open>The copy keeps the invariant when what it copies fits what is still missing.\<close>

lemma section_copy_inv:
  assumes step: "section_copy ctx pkt off n cmpl = Some (ctx', r, c, v)"
    and buf: "case section_buf ctx of None \<Rightarrow> True | Some sec \<Rightarrow> length sec = 4096"
    and len: "sectionLength ctx \<le> 4098"
    and room: "unat (sectionLengthCurrent ctx) + unat n \<le> unat (sectionLength ctx)"
  shows "sx_inv ctx'"
proof -
  have small: "unat (sectionLength ctx) \<le> 4098" using len by (simp add: word_le_nat_alt)
  have sum: "unat (sectionLengthCurrent ctx + n) = unat (sectionLengthCurrent ctx) + unat n"
    using room small by (intro unat_add_lem [THEN iffD1]) simp
  then have le: "sectionLengthCurrent ctx + n \<le> sectionLength ctx"
    using room by (simp add: word_le_nat_alt)
  show ?thesis
    using step buf len le
    by (auto simp: section_copy_def sx_inv_def rdn_def wr_def order_less_le bind_eq_Some_conv Let_def
        split: if_splits option.splits)
qed

lemma section_copy_room:
  assumes "sx_inv ctx" and "appending ctx"
  shows "unat (sectionLengthCurrent ctx)
      + unat (if sectionLengthCurrent ctx + 183 > sectionLength ctx
              then sectionLength ctx - sectionLengthCurrent ctx else 183) \<le> unat (sectionLength ctx)"
    and "unat (if sectionLengthCurrent ctx + 183 > sectionLength ctx
              then sectionLength ctx - sectionLengthCurrent ctx else 183)
         = min 183 (unat (sectionLength ctx) - unat (sectionLengthCurrent ctx))"
proof -
  let ?c = "sectionLengthCurrent ctx" and ?l = "sectionLength ctx"
  have u: "unat ?c \<le> unat ?l" "unat ?l \<le> 4098"
    using assms by (simp_all add: sx_inv_def word_le_nat_alt)
  have s: "unat (?c + 183) = unat ?c + 183" using u by (intro trans [OF unat_add_lem [THEN iffD1]]) simp_all
  have d: "unat (?l - ?c) = unat ?l - unat ?c" using u by (simp add: unat_sub word_le_nat_alt)
  show "unat ?c + unat (if ?c + 183 > ?l then ?l - ?c else 183) \<le> unat ?l"
    and "unat (if ?c + 183 > ?l then ?l - ?c else 183) = min 183 (unat ?l - unat ?c)"
    using s d u by (auto simp: word_less_nat_alt)
qed

lemma start_copy_length:
  "unat (if sint (section_length_at pkt off) > 183 then 183 else section_length_at pkt off)
     = min 183 (unat (section_length_at pkt off))"
proof -
  have "unat (section_length_at pkt off) < 2 ^ 31"
    using section_length_at_bounds(2) [of pkt off] by simp
  from sint_small [OF this] show ?thesis by (auto simp: min_def simp del: of_nat_unat)
qed

text \<open>The context and the copy length with which a packet starts or continues a section.\<close>

abbreviation started :: "sectionextractor_ctx_s \<Rightarrow> bytes \<Rightarrow> nat \<Rightarrow> sectionextractor_ctx_s" where
  "started ctx pkt off \<equiv> ctx\<lparr>appending := True, complete := False, sectionLengthCurrent := 0,
     sectionLength := section_length_at pkt off\<rparr>"

abbreviation start_length :: "bytes \<Rightarrow> nat \<Rightarrow> u32" where
  "start_length pkt off \<equiv>
     (if sint (section_length_at pkt off) > 183 then 183 else section_length_at pkt off)"

abbreviation append_length :: "sectionextractor_ctx_s \<Rightarrow> u32" where
  "append_length ctx \<equiv>
     (if sectionLengthCurrent ctx + 183 > sectionLength ctx
      then sectionLength ctx - sectionLengthCurrent ctx else 183)"

lemma write_packet_start:
  assumes "section_offset pkt = Some (Some off)" and "\<not> appending ctx" "\<not> complete ctx"
    and "rd pkt off = Some (tableID ctx)"
  shows "ltntstools_sectionextractor_write_packet ctx pkt cmpl =
    need (off + 3) pkt \<bind> (\<lambda>_. section_copy (started ctx pkt off) pkt off (start_length pkt off) cmpl)"
  using assms by (simp add: ltntstools_sectionextractor_write_packet_def Let_def cong: if_cong)

lemma write_packet_append:
  assumes "section_offset pkt = Some (Some off)" and "appending ctx" "\<not> complete ctx"
  shows "ltntstools_sectionextractor_write_packet ctx pkt cmpl =
    section_copy ctx pkt off (append_length ctx) cmpl"
  using assms by (simp add: ltntstools_sectionextractor_write_packet_def Let_def cong: if_cong)

lemma write_packet_inv:
  assumes step: "ltntstools_sectionextractor_write_packet ctx pkt cmpl = Some (ctx', r, c, v)"
    and inv: "sx_inv ctx"
  shows "sx_inv ctx'"
proof -
  obtain so where so: "section_offset pkt = Some so"
    using step by (cases "section_offset pkt") (simp_all add: ltntstools_sectionextractor_write_packet_def)
  have buf: "case section_buf ctx of None \<Rightarrow> True | Some sec \<Rightarrow> length sec = 4096"
    using inv by (simp add: sx_inv_def)
  show ?thesis
  proof (cases so)
    case None
    then show ?thesis using step so inv by (simp add: ltntstools_sectionextractor_write_packet_def)
  next
    case (Some off)
    then have so: "section_offset pkt = Some (Some off)" using so by simp
    consider (start) "\<not> appending ctx" "\<not> complete ctx" "rd pkt off = Some (tableID ctx)"
      | (append) "appending ctx" "\<not> complete ctx"
      | (reset) "ctx' = ctx\<lparr>complete := False, appending := False\<rparr>"
      using step by (auto simp: ltntstools_sectionextractor_write_packet_def so bind_eq_Some_conv
          split: if_splits)
    then show ?thesis
    proof cases
      case start
      have "section_copy (started ctx pkt off) pkt off (start_length pkt off) cmpl = Some (ctx', r, c, v)"
        using step write_packet_start [OF so start, of cmpl] by (simp add: bind_eq_Some_conv)
      then show ?thesis
      proof (rule section_copy_inv)
        show "sectionLength (started ctx pkt off) \<le> 4098"
          using section_length_at_bounds(2) [of pkt off] by (simp add: word_le_nat_alt)
        show "unat (sectionLengthCurrent (started ctx pkt off)) + unat (start_length pkt off)
            \<le> unat (sectionLength (started ctx pkt off))"
          by (simp only: start_copy_length) simp
      qed (use buf in simp)
    next
      case append
      have "section_copy ctx pkt off (append_length ctx) cmpl = Some (ctx', r, c, v)"
        using step write_packet_append [OF so append, of cmpl] by simp
      then show ?thesis
        using buf inv section_copy_room(1) [OF inv append(1)]
        by (intro section_copy_inv) (auto simp: sx_inv_def)
    next
      case reset
      then show ?thesis using inv by (simp add: sx_inv_def)
    qed
  qed
qed

lemma write_loop_inv:
  "sectionextractor_write_loop n ctx buf ret cmpl crc = Some (ctx', r, c, v) \<Longrightarrow> sx_inv ctx \<Longrightarrow> sx_inv ctx'"
proof (induction n arbitrary: ctx buf ret cmpl crc)
  case (Suc n)
  show ?case
  proof (cases "ltntstools_pid buf = PID ctx")
    case True
    then obtain ctx1 r1 c1 v1 where
        w: "ltntstools_sectionextractor_write_packet ctx buf cmpl = Some (ctx1, r1, c1, v1)"
      and l: "sectionextractor_write_loop n ctx1 (drop 188 buf) (ret + r1) c1 v1 = Some (ctx', r, c, v)"
      using Suc.prems(1) by (auto simp: bind_eq_Some_conv)
    show ?thesis by (rule Suc.IH [OF l write_packet_inv [OF w Suc.prems(2)]])
  next
    case False
    then show ?thesis using Suc by (auto simp: bind_eq_Some_conv)
  qed
qed simp

lemma write_inv:
  assumes "ltntstools_sectionextractor_write ctx pkt n crc = Some (ctx', r, c, v)" and "sx_inv ctx"
  shows "sx_inv ctx'"
proof -
  have cm: "sx_inv (x\<lparr>complete := True\<rparr>) = sx_inv x" for x by (simp add: sx_inv_def)
  show ?thesis using assms
    by (auto simp: ltntstools_sectionextractor_write_def bind_eq_Some_conv Let_def cm dest: write_loop_inv)
qed

lemma query_inv:
  assumes "ltntstools_sectionextractor_query ctx dst n = Some (ctx', d, r)" and "sx_inv ctx"
  shows "sx_inv ctx'"
  using assms by (auto simp: ltntstools_sectionextractor_query_def bind_eq_Some_conv sx_inv_def
      split: option.splits if_splits)


text \<open>The life of an extractor: writes of arbitrary buffers and queries, in any order.\<close>

inductive sx_step :: "sectionextractor_ctx_s \<Rightarrow> sectionextractor_ctx_s \<Rightarrow> bool" where
  sx_write: "ltntstools_sectionextractor_write ctx pkt n crc = Some (ctx', r, c, v) \<Longrightarrow> sx_step ctx ctx'"
| sx_query: "ltntstools_sectionextractor_query ctx dst n = Some (ctx', d, r) \<Longrightarrow> sx_step ctx ctx'"

inductive_cases sx_stepE: "sx_step ctx ctx'"

lemma sx_step_inv: "sx_step ctx ctx' \<Longrightarrow> sx_inv ctx \<Longrightarrow> sx_inv ctx'"
  by (auto elim!: sx_stepE intro: write_inv query_inv)

text \<open>
  C14: Whatever buffers are written to an extractor and however it is queried, it never holds
  more bytes than the section announced, the announced length never exceeds what the 12-bit
  field can say, its buffer keeps its size, and while it is appending bytes are missing.
\<close>

theorem sectionextractor_invariant:
  assumes "ltntstools_sectionextractor_alloc alloc heap pid tid = Some ctx" and "length heap = 4096"
    and "sx_step\<^sup>*\<^sup>* ctx ctx'"
  shows "sx_inv ctx'"
  using assms(3) by (induction rule: rtranclp_induct) (auto intro: sx_step_inv sx_inv_alloc assms)

subsection \<open>What the extractor assembles\<close>

text \<open>A packet of the PID without adaptation field, with or without the start of a section.\<close>

definition start_packet :: "u16 \<Rightarrow> bytes \<Rightarrow> bool" where
  "start_packet pid p \<longleftrightarrow> length p = 188 \<and> p ! 0 = 0x47 \<and> ltntstools_pid p = pid
     \<and> \<not> ltntstools_has_adaption p \<and> ltntstools_payload_unit_start_indicator p \<and> p ! 4 = 0"

definition continuation_packet :: "u16 \<Rightarrow> bytes \<Rightarrow> bool" where
  "continuation_packet pid p \<longleftrightarrow> length p = 188 \<and> p ! 0 = 0x47 \<and> ltntstools_pid p = pid
     \<and> \<not> ltntstools_has_adaption p \<and> \<not> ltntstools_payload_unit_start_indicator p"

definition assembled :: "bytes \<Rightarrow> bytes list \<Rightarrow> bytes" where
  "assembled p ps = drop 5 p @ concat (map (\<lambda>q. take 183 (drop 4 q)) ps)"

definition crc_ok :: "bytes \<Rightarrow> bool" where
  "crc_ok s \<longleftrightarrow> 4 \<le> length s \<and> crc32_loop 0xffffffff s = 0"

lemma pkt_append_simps:
  assumes "length p = 188"
  shows "ltntstools_pid (p @ rest) = ltntstools_pid p"
    and "ltntstools_has_adaption (p @ rest) = ltntstools_has_adaption p"
    and "ltntstools_payload_unit_start_indicator (p @ rest) = ltntstools_payload_unit_start_indicator p"
  using assms by (simp_all add: pkt_defs nth_append)

lemma section_offset_start: "start_packet pid p \<Longrightarrow> section_offset (p @ rest) = Some (Some 5)"
  by (simp add: start_packet_def section_offset_def pkt_append_simps nth_append need_def rd_def)

lemma section_offset_continuation: "continuation_packet pid p \<Longrightarrow> section_offset (p @ rest) = Some (Some 4)"
  by (simp add: continuation_packet_def section_offset_def pkt_append_simps nth_append need_def)

lemma section_copy_eq:
  assumes "section_buf ctx = Some sec" and "off + unat n \<le> length pkt"
    and "unat (sectionLengthCurrent ctx) + unat n \<le> length sec"
    and "unat (sectionLength ctx) \<le> length sec" and "length sec = 4096"
  defines "sec' \<equiv> blit sec (unat (sectionLengthCurrent ctx)) (take (unat n) (drop off pkt))"
  defines "ctx' \<equiv> ctx\<lparr>section_buf := Some sec', sectionLengthCurrent := sectionLengthCurrent ctx + n\<rparr>"
  shows "section_copy ctx pkt off n cmpl =
    (if sectionLength ctx = sectionLengthCurrent ctx + n
     then Some (ctx'\<lparr>complete := True, appending := False\<rparr>, sint n, True,
                crc_ok (take (unat (sectionLength ctx)) sec'))
     else Some (ctx', sint n, cmpl, False))"
proof -
  have len: "length sec' = 4096" using assms by (simp add: sec'_def)
  have sl: "sint (sectionLength ctx) = int (unat (sectionLength ctx))"
    using assms by (intro sint_small) simp
  have "ltntstools_checkCRC32 (Some sec') (sint (sectionLength ctx))
      = Some (if crc_ok (take (unat (sectionLength ctx)) sec') then 0 else -1)"
    using assms(4,5) len
    by (simp add: sl ltntstools_checkCRC32_def crc_ok_def min_def del: of_nat_unat) 
  then show ?thesis using assms(1-5)
    by (cases "sectionLength ctx = sectionLengthCurrent ctx + n")
      (simp_all add: section_copy_def Let_def ctx'_def sec'_def)
qed


text \<open>The copy of one packet, on the contents the extractor has gathered so far.\<close>

lemma section_copy_gathers:
  assumes buf: "section_buf ctx = Some sec" "length sec = 4096"
    and src: "off + unat n \<le> length pkt"
    and room: "unat (sectionLengthCurrent ctx) + unat n \<le> unat (sectionLength ctx)"
    and len: "unat (sectionLength ctx) \<le> 4096"
  obtains ctx' sec' where
    "section_copy ctx pkt off n cmpl =
       (if unat (sectionLength ctx) = unat (sectionLengthCurrent ctx) + unat n
        then Some (ctx'\<lparr>complete := True, appending := False\<rparr>, int (unat n), True,
                   crc_ok (take (unat (sectionLength ctx)) sec'))
        else Some (ctx', int (unat n), cmpl, False))"
    and "ctx' = ctx\<lparr>section_buf := Some sec', sectionLengthCurrent := sectionLengthCurrent ctx + n\<rparr>"
    and "unat (sectionLengthCurrent ctx') = unat (sectionLengthCurrent ctx) + unat n"
    and "length sec' = 4096"
    and "take (unat (sectionLengthCurrent ctx) + unat n) sec'
           = take (unat (sectionLengthCurrent ctx)) sec @ take (unat n) (drop off pkt)"
    and "drop (unat (sectionLength ctx)) sec' = drop (unat (sectionLength ctx)) sec"
proof -
  let ?c = "sectionLengthCurrent ctx" and ?l = "sectionLength ctx"
  define sec' where "sec' = blit sec (unat ?c) (take (unat n) (drop off pkt))"
  have ln: "length (take (unat n) (drop off pkt)) = unat n" using src by simp
  have sum: "unat (?c + n) = unat ?c + unat n"
    using room len by (intro unat_add_lem [THEN iffD1]) simp
  have eq: "?l = ?c + n \<longleftrightarrow> unat ?l = unat ?c + unat n"
    by (simp only: word_unat_eq_iff sum)
  have "sint n = int (unat n)" using room len by (intro sint_small) simp
  then have "section_copy ctx pkt off n cmpl =
      (if unat ?l = unat ?c + unat n
       then Some (ctx\<lparr>section_buf := Some sec', sectionLengthCurrent := ?c + n\<rparr>
                    \<lparr>complete := True, appending := False\<rparr>, int (unat n), True, crc_ok (take (unat ?l) sec'))
       else Some (ctx\<lparr>section_buf := Some sec', sectionLengthCurrent := ?c + n\<rparr>, int (unat n), cmpl, False))"
    using section_copy_eq [OF buf(1) src _ _ buf(2), of cmpl] room len buf(2)
    by (simp only: eq sec'_def)
  then show thesis
  proof (rule that)
    show "length sec' = 4096" using ln room len buf(2) by (simp add: sec'_def)
    show "take (unat ?c + unat n) sec' = take (unat ?c) sec @ take (unat n) (drop off pkt)"
      using ln room len buf(2) by (simp add: sec'_def blit_def)
    show "drop (unat ?l) sec' = drop (unat ?l) sec"
      using ln room len buf(2) by (simp add: sec'_def blit_def)
  qed (use sum in simp_all)
qed

lemma write_loop_append:
  assumes "list_all (continuation_packet (PID ctx)) ps"
    and "appending ctx" "\<not> complete ctx" "section_buf ctx = Some sec" "length sec = 4096"
    and "unat (sectionLength ctx) \<le> 4096"
    and "unat (sectionLength ctx) = unat (sectionLengthCurrent ctx) + rem"
    and "183 * (length ps - 1) < rem" "rem \<le> 183 * length ps"
  shows "\<exists>ctx' sec'. sectionextractor_write_loop (length ps) ctx (concat ps @ rest) ret cmpl crc
      = Some (ctx', ret + int rem, True, crc_ok (take (unat (sectionLength ctx)) sec'))
    \<and> take (unat (sectionLength ctx)) sec' = take (unat (sectionLengthCurrent ctx)) sec
        @ take rem (concat (map (\<lambda>q. take 183 (drop 4 q)) ps))
    \<and> drop (unat (sectionLength ctx)) sec' = drop (unat (sectionLength ctx)) sec
    \<and> ctx' = ctx\<lparr>section_buf := Some sec', sectionLengthCurrent := sectionLength ctx,
                 complete := True, appending := False\<rparr>"
  using assms
proof (induction ps arbitrary: ctx sec ret cmpl crc rem)
  case (Cons q qs)
  let ?c = "sectionLengthCurrent ctx" and ?l = "sectionLength ctx"
  have q: "continuation_packet (PID ctx) q" and lq: "length q = 188" and pq: "ltntstools_pid q = PID ctx"
    using Cons.prems(1) by (simp_all add: continuation_packet_def)
  have inv: "sx_inv ctx"
    using Cons.prems by (simp add: sx_inv_def word_le_nat_alt word_less_nat_alt)
  define n where "n = append_length ctx"
  have n: "unat n = min 183 rem"
    using section_copy_room(2) [OF inv Cons.prems(2)] Cons.prems(7) by (simp add: n_def)
  have w: "ltntstools_sectionextractor_write_packet ctx (q @ concat qs @ rest) cmpl
      = section_copy ctx (q @ concat qs @ rest) 4 n cmpl"
    by (simp only: write_packet_append [OF section_offset_continuation [OF q] Cons.prems(2,3)] n_def)
  obtain ctx1 sec1 where one:
    "section_copy ctx (q @ concat qs @ rest) 4 n cmpl =
       (if unat ?l = unat ?c + unat n
        then Some (ctx1\<lparr>complete := True, appending := False\<rparr>, int (unat n), True, crc_ok (take (unat ?l) sec1))
        else Some (ctx1, int (unat n), cmpl, False))"
    and ctx1: "ctx1 = ctx\<lparr>section_buf := Some sec1, sectionLengthCurrent := ?c + n\<rparr>"
    and c1: "unat (sectionLengthCurrent ctx1) = unat ?c + unat n" and l1: "length sec1 = 4096"
    and t1: "take (unat ?c + unat n) sec1 = take (unat ?c) sec @ take (unat n) (drop 4 (q @ concat qs @ rest))"
    and d1: "drop (unat ?l) sec1 = drop (unat ?l) sec"
    by (rule section_copy_gathers [OF Cons.prems(4,5), of 4 n "q @ concat qs @ rest" cmpl])
      (use n lq Cons.prems(6,7) in auto)
  have t1': "take (unat ?c + unat n) sec1 = take (unat ?c) sec @ take (unat n) (take 183 (drop 4 q))"
    using t1 n lq by simp
  show ?case
  proof (cases "qs = []")
    case True
    then have r: "unat n = rem" "unat ?l = unat ?c + unat n" using n Cons.prems(7,9) by simp_all
    have "?l = ?c + n"
      using c1 r by (simp add: word_unat_eq_iff ctx1)
    then show ?thesis
      using True w one pq lq r t1' d1 Cons.prems(7)
      by (intro exI [of _ "ctx1\<lparr>complete := True, appending := False\<rparr>"] exI [of _ sec1])
        (simp add: pkt_append_simps ctx1)
  next
    case False
    then have k: "183 * (length qs - 1) < rem - 183" "rem - 183 \<le> 183 * length qs" "183 < rem"
      using Cons.prems(8,9) by (cases qs; simp)+
    then have r: "unat n = 183" using n by simp
    have IH: "\<exists>ctx' sec'. sectionextractor_write_loop (length qs) ctx1 (concat qs @ rest) (ret + 183) cmpl False
        = Some (ctx', ret + 183 + int (rem - 183), True, crc_ok (take (unat ?l) sec'))
      \<and> take (unat ?l) sec' = take (unat ?c + 183) sec1
          @ take (rem - 183) (concat (map (\<lambda>q. take 183 (drop 4 q)) qs))
      \<and> drop (unat ?l) sec' = drop (unat ?l) sec1
      \<and> ctx' = ctx1\<lparr>section_buf := Some sec', sectionLengthCurrent := ?l, complete := True, appending := False\<rparr>"
      using Cons.IH [of ctx1 sec1 "rem - 183" "ret + 183" cmpl False] Cons.prems k c1 l1 r
      by (simp add: ctx1)
    then obtain ctx' sec' where
        "sectionextractor_write_loop (length qs) ctx1 (concat qs @ rest) (ret + 183) cmpl False
          = Some (ctx', ret + int rem, True, crc_ok (take (unat ?l) sec'))"
      and t2: "take (unat ?l) sec' = take (unat ?c + 183) sec1
          @ take (rem - 183) (concat (map (\<lambda>q. take 183 (drop 4 q)) qs))"
      and d2: "drop (unat ?l) sec' = drop (unat ?l) sec1"
      and ctx': "ctx' = ctx1\<lparr>section_buf := Some sec', sectionLengthCurrent := ?l, complete := True, appending := False\<rparr>"
      using k by auto
    moreover have "ltntstools_sectionextractor_write_packet ctx (q @ concat qs @ rest) cmpl = Some (ctx1, 183, cmpl, False)"
      using one w r k Cons.prems(7) by simp
    ultimately show ?thesis
      using pq lq r t1' d1 k ctx1
      by (intro exI [of _ ctx'] exI [of _ sec']) (simp add: pkt_append_simps)
  qed
qed simp


lemma write_assembles:
  assumes "start_packet (PID ctx) p" and "p ! 5 = tableID ctx"
    and "list_all (continuation_packet (PID ctx)) ps"
    and "\<not> appending ctx" "\<not> complete ctx" and "section_buf ctx = Some sec" "length sec = 4096"
    and "unat (section_length_at p 5) = len" "len \<le> 4096"
    and "183 * length ps < len" "len \<le> 183 * (length ps + 1)"
  shows "\<exists>ctx' sec'. ltntstools_sectionextractor_write ctx (p @ concat ps) (1 + length ps) crc
      = Some (ctx', int len, True, crc_ok (take len (assembled p ps)))
    \<and> section_buf ctx' = Some sec' \<and> sec' = take len (assembled p ps) @ drop len sec
    \<and> complete ctx' \<and> \<not> appending ctx' \<and> unat (sectionLength ctx') = len"
proof -
  have lp: "length p = 188" and pp: "ltntstools_pid p = PID ctx"
    using assms(1) by (simp_all add: start_packet_def)
  let ?pkt = "p @ concat ps" let ?ctx = "started ctx ?pkt 5" let ?l = "section_length_at ?pkt 5"
  have l: "unat ?l = len" using assms(8) lp by (simp add: section_length_at_def nth_append)
  define n where "n = start_length ?pkt 5"
  have n: "unat n = min 183 len" using start_copy_length [of ?pkt 5] l by (simp add: n_def)
  define c0 where "c0 = ?ctx"
  have c0: "section_buf c0 = Some sec" "unat (sectionLength c0) = len" "sectionLengthCurrent c0 = 0"
    using assms(6) l by (simp_all add: c0_def)
  have w: "ltntstools_sectionextractor_write_packet ctx ?pkt False = section_copy c0 ?pkt 5 n False"
    using write_packet_start [OF section_offset_start [OF assms(1)] assms(4,5), of "concat ps" False]
      lp assms(2) by (simp add: nth_append n_def need_def c0_def)
  obtain ctx1 sec1 where one:
    "section_copy c0 ?pkt 5 n False =
       (if len = unat n
        then Some (ctx1\<lparr>complete := True, appending := False\<rparr>, int (unat n), True, crc_ok (take len sec1))
        else Some (ctx1, int (unat n), False, False))"
    and ctx1: "ctx1 = c0\<lparr>section_buf := Some sec1, sectionLengthCurrent := n\<rparr>"
    and l1: "length sec1 = 4096" and t1: "take (unat n) sec1 = take (unat n) (drop 5 ?pkt)"
    and d1: "drop len sec1 = drop len sec"
  proof (rule section_copy_gathers [of c0 sec 5 n ?pkt False])
    fix ctx1 sec1
    assume "section_copy c0 ?pkt 5 n False =
       (if unat (sectionLength c0) = unat (sectionLengthCurrent c0) + unat n
        then Some (ctx1\<lparr>complete := True, appending := False\<rparr>, int (unat n), True,
                   crc_ok (take (unat (sectionLength c0)) sec1))
        else Some (ctx1, int (unat n), False, False))"
      and "ctx1 = c0\<lparr>section_buf := Some sec1, sectionLengthCurrent := sectionLengthCurrent c0 + n\<rparr>"
      and "length sec1 = 4096"
      and "take (unat (sectionLengthCurrent c0) + unat n) sec1
           = take (unat (sectionLengthCurrent c0)) sec @ take (unat n) (drop 5 ?pkt)"
      and "drop (unat (sectionLength c0)) sec1 = drop (unat (sectionLength c0)) sec"
    then show ?thesis
      by (intro that [of ctx1 sec1]) (simp_all only: c0 unat_0 add_0 take_0 append_Nil)
  qed (use n lp assms(6,7,9) c0 in simp_all)
  have t1': "take (unat n) sec1 = take (unat n) (drop 5 p)" using t1 n lp by simp
  have glue: "take len s = a \<Longrightarrow> drop len s = b \<Longrightarrow> s = a @ b" for a b and s :: bytes
    using append_take_drop_id [of len s] by simp
  show ?thesis
  proof (cases "ps = []")
    case True
    then have "len = unat n" using n assms(11) by simp
    moreover have "take len (assembled p ps) = take len sec1"
      using t1' True \<open>len = unat n\<close> by (simp add: assembled_def)
    ultimately show ?thesis
      using w one True pp lp glue [OF _ d1] l
      by (intro exI [of _ "ctx1\<lparr>complete := True, appending := False\<rparr>"] exI [of _ sec1])
        (simp add: ltntstools_sectionextractor_write_def Let_def ctx1 c0_def)
  next
    case False
    then have k: "183 < len" "unat n = 183" using n assms(10) by (cases ps; simp)+
    then have lps: "183 * (length ps - 1) < len - 183" "len - 183 \<le> 183 * length ps"
      using assms(10,11) False by (cases ps; simp)+
    obtain ctx' sec' where
        "sectionextractor_write_loop (length ps) ctx1 (concat ps @ []) (0 + 183) False False
          = Some (ctx', 183 + int (len - 183), True, crc_ok (take len sec'))"
      and t2: "take len sec' = take 183 sec1 @ take (len - 183) (concat (map (\<lambda>q. take 183 (drop 4 q)) ps))"
      and d2: "drop len sec' = drop len sec1"
      and ctx': "ctx' = ctx1\<lparr>section_buf := Some sec', sectionLengthCurrent := ?l, complete := True, appending := False\<rparr>"
      using write_loop_append [of ctx1 ps sec1 "len - 183" "[]" "0 + 183" False False]
        assms(3,9) k lps l1 l by (auto simp: ctx1 c0_def)
    moreover have "ltntstools_sectionextractor_write_packet ctx ?pkt False = Some (ctx1, 183, False, False)"
      using one w k by simp
    moreover have "take len sec' = take len (assembled p ps)"
      using t2 t1' k lp by (simp add: assembled_def)
    ultimately show ?thesis
      using pp lp k glue [OF _ d2 [unfolded d1]] l
      by (intro exI [of _ ctx'] exI [of _ sec'])
        (simp add: ltntstools_sectionextractor_write_def Let_def ctx1 c0_def pkt_append_simps)
  qed
qed

text \<open>
  C18: An idle extractor that is given a packet starting a section of its table, with as many
  continuation packets as the announced length asks for at 183 bytes each, reports the section
  complete: it holds 183 bytes of every packet's payload, cut to the announced length, reports
  as many bytes as that (the header of the interface documents the number of packets), and
  \<open>crcValid\<close> tells whether their checksum is right.
\<close>

theorem sectionextractor_assembles:
  assumes "start_packet (PID ctx) p" and "p ! 5 = tableID ctx"
    and "list_all (continuation_packet (PID ctx)) ps"
    and "\<not> appending ctx" "\<not> complete ctx" and "section_buf ctx = Some sec" "length sec = 4096"
    and "unat (section_length_at p 5) = len" "len \<le> 4096"
    and "183 * length ps < len" "len \<le> 183 * (length ps + 1)"
  shows "\<exists>ctx' sec'. ltntstools_sectionextractor_write ctx (p @ concat ps) (1 + length ps) crc
      = Some (ctx', int len, True, crc_ok (take len (assembled p ps)))
    \<and> section_buf ctx' = Some sec' \<and> sec' = take len (assembled p ps) @ drop len sec
    \<and> complete ctx' \<and> \<not> appending ctx' \<and> unat (sectionLength ctx') = len"
  by (rule write_assembles [OF assms])

text \<open>A section of table 2 on PID 100, of seven bytes, alone in its packet.\<close>

definition sample_section_packet :: bytes where
  "sample_section_packet = [0x47, 0x40, 100, 0x10, 0, 2, 0xb0, 4, 1, 2, 3, 4] @ replicate 176 0xff"

definition sample_section_extractor :: sectionextractor_ctx_s where
  "sample_section_extractor = \<lparr>tableID = 2, PID = 100, complete = False, appending = False,
     section_buf = Some (replicate 4096 0), sectionLength = 0, sectionLengthCurrent = 0\<rparr>"

lemma sample_section:
  "start_packet 100 sample_section_packet" "sample_section_packet ! 5 = 2"
  "unat (section_length_at sample_section_packet 5) = 7"
  by (simp_all add: start_packet_def sample_section_packet_def pkt_defs section_length_at_def)

theorem sectionextractor_assembles_witness:
  "\<exists>ctx' sec'. ltntstools_sectionextractor_write sample_section_extractor (sample_section_packet @ concat []) (1 + length ([] :: bytes list)) False
      = Some (ctx', int 7, True, crc_ok (take 7 (assembled sample_section_packet [])))
    \<and> section_buf ctx' = Some sec'
    \<and> sec' = take 7 (assembled sample_section_packet []) @ drop 7 (replicate 4096 0)
    \<and> complete ctx' \<and> \<not> appending ctx' \<and> unat (sectionLength ctx') = 7"
  by (rule sectionextractor_assembles) (simp_all add: sample_section_extractor_def sample_section)

subsection \<open>Handing the section out\<close>

lemma query_complete:
  assumes "complete ctx" "section_buf ctx = Some sec" "length sec = 4096"
    and "unat (sectionLength ctx) + 3 \<le> 4096" and "unat (sectionLength ctx) + 3 \<le> length d" "length d < 2 ^ 31"
  shows "ltntstools_sectionextractor_query ctx (Some d) (int (length d)) =
    Some (ctx\<lparr>complete := False, appending := False\<rparr>,
          Some (take (unat (sectionLength ctx) + 3) sec @ drop (unat (sectionLength ctx) + 3) d),
          int (unat (sectionLength ctx)) + 3)"
proof -
  have s: "unat (sectionLength ctx + 3) = unat (sectionLength ctx) + 3"
    using assms(4) by (intro trans [OF unat_add_lem [THEN iffD1]]) simp_all
  have "sint (sectionLength ctx + 3) = int (unat (sectionLength ctx + 3))"
    using assms(4) s by (intro sint_small) simp
  then have i: "sint (sectionLength ctx + 3) = int (unat (sectionLength ctx)) + 3"
    by (simp only: s of_nat_add of_nat_numeral)
  have "unat (word_of_int (int (length d)) :: u32) = length d"
    using assms(6) by (simp add: unsigned_of_nat take_bit_nat_eq_self)
  then have "\<not> word_of_int (int (length d)) < sectionLength ctx + 3"
    using assms(5) s by (simp add: word_less_nat_alt)
  then show ?thesis
    using assms s i by (simp add: ltntstools_sectionextractor_query_def blit_0)
qed

theorem sectionextractor_invariant_witness:
  "\<exists>ctx1 v ctx2 d. ltntstools_sectionextractor_write sample_section_extractor sample_section_packet 1 False = Some (ctx1, 7, True, v)
     \<and> ltntstools_sectionextractor_query ctx1 (Some (replicate 10 0)) 10 = Some (ctx2, d, 10) \<and> sx_inv ctx2"
proof -
  obtain ctx1 sec v where w: "ltntstools_sectionextractor_write sample_section_extractor sample_section_packet 1 False = Some (ctx1, 7, True, v)"
    and c: "section_buf ctx1 = Some sec" "length sec = 4096" "complete ctx1" "unat (sectionLength ctx1) = 7"
  proof -
    have "length (assembled sample_section_packet []) = 183" by (simp add: assembled_def sample_section_packet_def)
    then show thesis
      using that write_assembles [of sample_section_extractor sample_section_packet "[]" "replicate 4096 0" 7 False]
      by (auto simp: sample_section_extractor_def sample_section)
  qed
  obtain ctx2 d where q: "ltntstools_sectionextractor_query ctx1 (Some (replicate 10 0)) 10 = Some (ctx2, d, 10)"
    using query_complete [of ctx1 sec "replicate 10 0"] c by simp
  have "sx_step\<^sup>*\<^sup>* sample_section_extractor ctx2"
    using sx_write [OF w] sx_query [OF q] by (meson converse_rtranclp_into_rtranclp r_into_rtranclp)
  moreover have "ltntstools_sectionextractor_alloc (\<lambda>_. True) (replicate 4096 0) 100 2 = Some sample_section_extractor"
    by (simp add: ltntstools_sectionextractor_alloc_def sample_section_extractor_def)
  ultimately have "sx_inv ctx2" by (intro sectionextractor_invariant [of "\<lambda>_. True" "replicate 4096 0"]) simp_all
  with w q show ?thesis by blast
qed

text \<open>
  The section buffer has 4096 bytes, and \<open>query\<close> copies three bytes more than the section it
  holds, so that a section of the greatest lengths makes it read past the buffer.
\<close>

lemma query_overreads:
  assumes "complete ctx" "section_buf ctx = Some sec" "length sec = 4096"
    and "4094 \<le> unat (sectionLength ctx)" "unat (sectionLength ctx) \<le> 4098"
    and "unat (sectionLength ctx) + 3 \<le> length d" "length d < 2 ^ 31"
  shows "ltntstools_sectionextractor_query ctx (Some d) (int (length d)) = None"
proof -
  have s: "unat (sectionLength ctx + 3) = unat (sectionLength ctx) + 3"
    using assms(5) by (intro trans [OF unat_add_lem [THEN iffD1]]) simp_all
  have "unat (word_of_int (int (length d)) :: u32) = length d"
    using assms(7) by (simp add: unsigned_of_nat take_bit_nat_eq_self)
  then have "\<not> word_of_int (int (length d)) < sectionLength ctx + 3"
    using assms(6) s by (simp add: word_less_nat_alt)
  then show ?thesis
    using assms s by (simp add: ltntstools_sectionextractor_query_def rdn_def)
qed

text \<open>The bytes of a section as its packets carry them: all of every payload.\<close>

definition payload_of :: "bytes \<Rightarrow> bytes list \<Rightarrow> bytes" where
  "payload_of p ps = drop 5 p @ concat (map (drop 4) ps)"

lemma assembled_two_packets:
  assumes "length p = 188" and "length ps \<le> 1" and "list_all (\<lambda>q. length q = 188) ps"
    and "len \<le> 183 * (length ps + 1)"
  shows "take len (assembled p ps) = take len (payload_of p ps)"
  using assms by (cases ps) (simp_all add: assembled_def payload_of_def min_def)

lemma length_be32: "length (be32 w) = 4"
  by (simp add: be32_def)

lemma crc_ok_own:
  "ltntstools_getCRC32 (Some body) (int (length body)) True = Some (Some crc) \<Longrightarrow> crc_ok (body @ be32 crc)"
  by (auto simp: crc_ok_def ltntstools_getCRC32_def crc32_loop_append crc32_loop_own_crc length_be32
      split: if_splits)

text \<open>
  A section of at most 366 bytes that ends with the checksum \<open>getCRC32\<close> computes, carried
  by the one or two packets it needs, is extracted with \<open>crcValid\<close> set, and the query that
  follows hands it out unchanged. The query reports three bytes more than the section has.
\<close>

theorem sectionextractor_roundtrip:
  assumes "s = body @ be32 crc" and "ltntstools_getCRC32 (Some body) (int (length body)) True = Some (Some crc)"
    and "start_packet (PID ctx) p" and "list_all (continuation_packet (PID ctx)) ps"
    and "take (length s) (payload_of p ps) = s" and "s ! 0 = tableID ctx"
    and "unat (section_length_at s 0) = length s"
    and "length s \<le> 366" and "183 * length ps < length s" "length s \<le> 183 * (length ps + 1)"
    and "\<not> appending ctx" "\<not> complete ctx" and "section_buf ctx = Some sec" "length sec = 4096"
    and "length s + 3 \<le> length d" "length d < 2 ^ 31"
  shows "\<exists>ctx' ctx'' d'. ltntstools_sectionextractor_write ctx (p @ concat ps) (1 + length ps) crcv
      = Some (ctx', int (length s), True, True)
    \<and> ltntstools_sectionextractor_query ctx' (Some d) (int (length d))
      = Some (ctx'', Some d', int (length s) + 3)
    \<and> take (length s) d' = s \<and> length d' = length d
    \<and> \<not> complete ctx'' \<and> \<not> appending ctx''"
proof -
  have lp: "length p = 188" using assms(3) by (simp add: start_packet_def)
  have ls: "4 \<le> length s" by (simp add: assms(1) be32_def)
  have l1: "length ps \<le> 1" using assms(8,9) by simp
  have lq: "list_all (\<lambda>q. length q = 188) ps"
    using assms(4) by (auto simp: continuation_packet_def elim: list.pred_mono_strong)
  have pre: "p ! (5 + k) = s ! k" if "k < 4" for k
  proof -
    have "s ! k = take (length s) (payload_of p ps) ! k" using assms(5) by simp
    also have "\<dots> = p ! (5 + k)" using that ls lp by (simp add: payload_of_def nth_append)
    finally show ?thesis by simp
  qed
  have t: "take (length s) (assembled p ps) = s"
    using assembled_two_packets [OF lp l1 lq assms(10)] assms(5) by simp
  have tid: "p ! 5 = tableID ctx" using pre [of 0] assms(6) by simp
  have len: "unat (section_length_at p 5) = length s"
    using pre [of 1] pre [of 2] assms(7) by (simp add: section_length_at_def numeral_2_eq_2)
  have "length s \<le> 4096" using assms(8) by simp
  from write_assembles [OF assms(3) tid assms(4,11-14) len this assms(9,10), of crcv]
  obtain ctx' where w: "ltntstools_sectionextractor_write ctx (p @ concat ps) (1 + length ps) crcv
      = Some (ctx', int (length s), True, crc_ok s)"
    and c: "section_buf ctx' = Some (s @ drop (length s) sec)" "complete ctx'" "unat (sectionLength ctx') = length s"
    by (auto simp: t)
  have "length (s @ drop (length s) sec) = 4096" using assms(8,14) by simp
  note q = query_complete [OF c(2,1) this, of d, unfolded c(3)]
  show ?thesis
    using w q assms(8,14-16) crc_ok_own [OF assms(2)] by (auto simp flip: assms(1))
qed


text \<open>The smallest section: three header bytes and the checksum over them.\<close>

theorem sectionextractor_roundtrip_witness:
  "\<exists>p ctx' ctx'' d'. ltntstools_sectionextractor_write sample_section_extractor (p @ concat []) (1 + length ([] :: bytes list)) False
      = Some (ctx', int 7, True, True)
    \<and> ltntstools_sectionextractor_query ctx' (Some (replicate 10 0)) (int 10) = Some (ctx'', Some d', int 7 + 3)
    \<and> take 7 d' = [2, 0xb0, 4] @ be32 (crc32_loop 0xffffffff [2, 0xb0, 4])"
proof -
  define s where "s = [2, 0xb0, 4] @ be32 (crc32_loop 0xffffffff [2, 0xb0, 4])"
  define p where "p = [0x47, 0x40, 100, 0x10, 0] @ s @ replicate 176 0xff"
  have l: "length s = 7" by (simp add: s_def length_be32)
  have "ltntstools_getCRC32 (Some [2, 0xb0, 4]) (int (length [2, 0xb0, 4 :: u8])) True
      = Some (Some (crc32_loop 0xffffffff [2, 0xb0, 4]))"
    by (simp add: ltntstools_getCRC32_def del: crc32_loop.simps)
  note r = sectionextractor_roundtrip [OF s_def this, of sample_section_extractor p "[]" "replicate 4096 0" "replicate 10 0" False]
  have "\<exists>ctx' ctx'' d'. ltntstools_sectionextractor_write sample_section_extractor (p @ concat []) (1 + length ([] :: bytes list)) False
      = Some (ctx', int (length s), True, True)
    \<and> ltntstools_sectionextractor_query ctx' (Some (replicate 10 0)) (int (length (replicate 10 (0 :: u8))))
      = Some (ctx'', Some d', int (length s) + 3)
    \<and> take (length s) d' = s \<and> length d' = length (replicate 10 (0 :: u8))
    \<and> \<not> complete ctx'' \<and> \<not> appending ctx''"
    by (rule r) (simp_all add: l sample_section_extractor_def start_packet_def p_def pkt_defs payload_of_def,
        simp_all add: s_def section_length_at_def del: crc32_loop.simps)
  then show ?thesis by (simp only: l length_replicate s_def [symmetric]) blast
qed

end
