(* ===== verification/Clocks.thy ===== *)
theory Clocks
  imports Ts
begin

text \<open>
  The clocks of \<open>src/src/clocks.c\<close>: a timebase clock measured against the walltime, which
  keeps a monotonic time across wraps, and the corrected clock that extends 33-bit timestamps
  to a 64-bit timeline. With them, the timeval helpers of \<open>libltntstools/timeval.h\<close> and the
  functions of \<open>src/src/time.c\<close>.

  The \<open>int64_t\<close> fields are \<open>int\<close>, and their overflow, which has no defined behaviour in C, is
  explicit: adding ticks and measuring the drift yield \<open>None\<close> when a sum, difference or product
  leaves the range of the type. For the drift that takes days, since it multiplies the ticks by
  a million. \<open>ltntstools_clock_set_ticks\<close> is the assignment on unbounded values;
  \<open>set_ticks_in_range\<close> is the condition under which the code's sums fit, and \<open>set_ticks_mem\<close> the
  operation that is undefined without it. The \<open>uint64_t\<close> fields of the corrected clock are \<open>u64\<close>; its conversions
  between signed and unsigned are written out. \<open>gettimeofday\<close> is an argument, the time it
  returns. Flags that only hold 0 or 1 are \<open>bool\<close>. \<open>ltntstools_clock_compare\<close> computes in
  \<open>long double\<close> and is not modelled.
\<close>

unbundle bit_operations_syntax

subsection \<open>Time values\<close>

record timeval =
  tv_sec :: int
  tv_usec :: int

definition ltn_timeval_to_ms :: "timeval \<Rightarrow> int" where
  "ltn_timeval_to_ms tv = tv_sec tv * 1000 + c_div (tv_usec tv) 1000"

definition ltn_timeval_to_us :: "timeval \<Rightarrow> int" where
  "ltn_timeval_to_us tv = tv_sec tv * 1000000 + tv_usec tv"

definition ltn_timeval_subtract_ms :: "timeval \<Rightarrow> timeval \<Rightarrow> int" where
  "ltn_timeval_subtract_ms x y = ltn_timeval_to_ms x - ltn_timeval_to_ms y"

definition ltn_timeval_subtract_us :: "timeval \<Rightarrow> timeval \<Rightarrow> int" where
  "ltn_timeval_subtract_us x y = ltn_timeval_to_us x - ltn_timeval_to_us y"

record timespec =
  ts_sec :: int
  ts_nsec :: int

text \<open>The \<open>int\<close> result takes the low 32 bits.\<close>

definition libltntstools_timespec_diff_ms :: "timespec \<Rightarrow> timespec \<Rightarrow> int" where
  "libltntstools_timespec_diff_ms next_time last_time =
     (let sec = ts_sec next_time - ts_sec last_time;
          nsec = ts_nsec next_time - ts_nsec last_time;
          (sec, nsec) = (if nsec < 0 then (sec - 1, nsec + 1000000000) else (sec, nsec))
      in to_int32 (sec * 1000 + c_div nsec 1000000))"

text \<open>
  \<open>tm\<close> is the broken-down time \<open>localtime_r\<close> yields. The result is the return code with the
  string and its terminating zero that \<open>sprintf\<close> stored; \<open>None\<close> is a store past \<open>buflen\<close>.
\<close>

record tm =
  tm_year :: int
  tm_mon :: int
  tm_mday :: int
  tm_hour :: int
  tm_min :: int
  tm_sec :: int

definition store_string :: "int \<Rightarrow> string \<Rightarrow> (int \<times> string) mem" where
  "store_string buflen s = (if int (length s) + 1 \<le> buflen then Some (0, s) else None)"

definition libltntstools_getTimestamp :: "int \<Rightarrow> tm \<Rightarrow> (int \<times> string) mem" where
  "libltntstools_getTimestamp buflen t =
     (if buflen < 16 then Some (-1, []) else
      store_string buflen
        (printf_d 4 (tm_year t + 1900) @ printf_d 2 (tm_mon t + 1) @ printf_d 2 (tm_mday t) @ ''-''
         @ printf_d 2 (tm_hour t) @ printf_d 2 (tm_min t) @ printf_d 2 (tm_sec t)))"

definition libltntstools_getTimestamp_seperated :: "int \<Rightarrow> tm \<Rightarrow> (int \<times> string) mem" where
  "libltntstools_getTimestamp_seperated buflen t =
     (if buflen < 16 then Some (-1, []) else
      store_string buflen
        (printf_d 4 (tm_year t + 1900) @ ''-'' @ printf_d 2 (tm_mon t + 1) @ ''-'' @ printf_d 2 (tm_mday t)
         @ '' '' @ printf_d 2 (tm_hour t) @ '':'' @ printf_d 2 (tm_min t) @ '':'' @ printf_d 2 (tm_sec t)))"

subsection \<open>The timebase clock\<close>

datatype ltntstools_clock_type_e =
  ltntstools_CLOCK_TYPE_UNKNOWN | ltntstools_CLOCK_TYPE_PCR | ltntstools_CLOCK_TYPE_PTS
| ltntstools_CLOCK_TYPE_DTS | ltntstools_CLOCK_TYPE_RTP | ltntstools_CLOCK_TYPE_NTP

record ltntstools_clock_s =
  establishedTimebase :: bool
  establishedWT :: bool
  clk_type :: ltntstools_clock_type_e
  clk_name :: string
  ticks_per_second :: int
  currentTime_ticks :: int
  monotonicTime_ticks :: int
  monotonicReference_ticks :: int
  clockWrapOccurences :: int
  backwardJumpUnder500msCount :: u64
  forwardJumpOver200msCount :: u64
  discontinuityCount :: u64
  pendingDiscontinuity :: bool
  establishedTime_ticks :: int
  establishedWalltime :: timeval
  drift_us :: int
  drift_us_lwm :: int
  drift_us_hwm :: int
  drift_us_max :: int
  clockWrapValue :: int

fun ltntstools_clock_type_name :: "ltntstools_clock_type_e \<Rightarrow> string" where
  "ltntstools_clock_type_name ltntstools_CLOCK_TYPE_PCR = ''PCR''"
| "ltntstools_clock_type_name ltntstools_CLOCK_TYPE_PTS = ''PTS''"
| "ltntstools_clock_type_name ltntstools_CLOCK_TYPE_DTS = ''DTS''"
| "ltntstools_clock_type_name ltntstools_CLOCK_TYPE_RTP = ''RTP''"
| "ltntstools_clock_type_name ltntstools_CLOCK_TYPE_NTP = ''NTP''"
| "ltntstools_clock_type_name ltntstools_CLOCK_TYPE_UNKNOWN = ''UNKNOWN''"

definition ltntstools_clock_establish_timebase :: "ltntstools_clock_s \<Rightarrow> int \<Rightarrow> ltntstools_clock_s" where
  "ltntstools_clock_establish_timebase clk tps =
     clk\<lparr>establishedTimebase := True, ticks_per_second := tps, establishedTime_ticks := 0,
         currentTime_ticks := 0, monotonicTime_ticks := 0, monotonicReference_ticks := 0,
         clockWrapOccurences := 0, backwardJumpUnder500msCount := 0, forwardJumpOver200msCount := 0,
         discontinuityCount := 0, pendingDiscontinuity := False,
         clockWrapValue := (if tps = 90000 then MAX_PTS_VALUE
                            else if tps = 27000000 then MAX_SCR_VALUE else 2 ^ 32)\<rparr>"

text \<open>\<open>name\<close> is \<open>None\<close> for \<open>NULL\<close>; \<open>snprintf\<close> keeps 31 characters of it.\<close>

definition ltntstools_clock_set_metadata ::
  "ltntstools_clock_s option \<Rightarrow> ltntstools_clock_type_e \<Rightarrow> string option \<Rightarrow> ltntstools_clock_s option" where
  "ltntstools_clock_set_metadata clk type name =
     map_option (\<lambda>clk.
       let name = (case name of None \<Rightarrow> ltntstools_clock_type_name type
                   | Some n \<Rightarrow> if n = [] then ltntstools_clock_type_name type else n);
           clk = clk\<lparr>clk_type := type, clk_name := take 31 name\<rparr>
       in if type = ltntstools_CLOCK_TYPE_PCR then ltntstools_clock_establish_timebase clk 27000000
          else if type = ltntstools_CLOCK_TYPE_PTS \<or> type = ltntstools_CLOCK_TYPE_DTS
                  \<or> type = ltntstools_CLOCK_TYPE_RTP
          then ltntstools_clock_establish_timebase clk 90000
          else clk) clk"

definition clock_zero :: ltntstools_clock_s where
  "clock_zero =
     \<lparr>establishedTimebase = False, establishedWT = False, clk_type = ltntstools_CLOCK_TYPE_UNKNOWN,
      clk_name = [], ticks_per_second = 0, currentTime_ticks = 0, monotonicTime_ticks = 0,
      monotonicReference_ticks = 0, clockWrapOccurences = 0, backwardJumpUnder500msCount = 0,
      forwardJumpOver200msCount = 0, discontinuityCount = 0, pendingDiscontinuity = False,
      establishedTime_ticks = 0, establishedWalltime = \<lparr>tv_sec = 0, tv_usec = 0\<rparr>,
      drift_us = 0, drift_us_lwm = 0, drift_us_hwm = 0, drift_us_max = 0, clockWrapValue = 0\<rparr>"

definition ltntstools_clock_initialize :: ltntstools_clock_s where
  "ltntstools_clock_initialize =
     the (ltntstools_clock_set_metadata (Some clock_zero) ltntstools_CLOCK_TYPE_UNKNOWN None)"

definition ltntstools_clock_get_type :: "ltntstools_clock_s option \<Rightarrow> ltntstools_clock_type_e" where
  "ltntstools_clock_get_type clk =
     (case clk of None \<Rightarrow> ltntstools_CLOCK_TYPE_UNKNOWN | Some c \<Rightarrow> clk_type c)"

definition ltntstools_clock_get_name :: "ltntstools_clock_s option \<Rightarrow> string" where
  "ltntstools_clock_get_name clk =
     (case clk of
        None \<Rightarrow> ltntstools_clock_type_name ltntstools_CLOCK_TYPE_UNKNOWN
      | Some c \<Rightarrow> if clk_name c = [] then ltntstools_clock_type_name ltntstools_CLOCK_TYPE_UNKNOWN
                  else clk_name c)"

definition ltntstools_clock_establish_wallclock ::
  "timeval \<Rightarrow> ltntstools_clock_s \<Rightarrow> int \<Rightarrow> ltntstools_clock_s" where
  "ltntstools_clock_establish_wallclock now clk ticks =
     clk\<lparr>establishedWT := True, establishedWalltime := now, establishedTime_ticks := ticks,
         currentTime_ticks := ticks, monotonicTime_ticks := ticks, monotonicReference_ticks := ticks,
         clockWrapOccurences := 0, backwardJumpUnder500msCount := 0, forwardJumpOver200msCount := 0,
         pendingDiscontinuity := False\<rparr>"

definition ltntstools_clock_compute_delta :: "ltntstools_clock_s \<Rightarrow> int \<Rightarrow> int \<Rightarrow> int" where
  "ltntstools_clock_compute_delta clk ticksnow ticksthen =
     (if ticksnow \<ge> ticksthen then ticksnow - ticksthen
      else (clockWrapValue clk - ticksthen) + ticksnow)"

text \<open>The three branches of \<open>set_ticks\<close> follow the code's order; the last assignment is common.\<close>

definition ltntstools_clock_set_ticks :: "timeval \<Rightarrow> ltntstools_clock_s \<Rightarrow> int \<Rightarrow> ltntstools_clock_s" where
  "ltntstools_clock_set_ticks now clk ticks =
     (if pendingDiscontinuity clk
      then clk\<lparr>pendingDiscontinuity := False, clockWrapOccurences := 0, currentTime_ticks := ticks,
               monotonicTime_ticks := ticks, monotonicReference_ticks := ticks,
               establishedTime_ticks := ticks, establishedWalltime := now, establishedWT := True\<rparr>
      else
        let wrapped = ticks < c_div (currentTime_ticks clk) 50;
            clk = (if wrapped then clk\<lparr>clockWrapOccurences := clockWrapOccurences clk + 1\<rparr> else clk);
            clk =
              (if wrapped \<and> clockWrapValue clk > 0
               then clk\<lparr>monotonicTime_ticks := monotonicTime_ticks clk
                          + ltntstools_clock_compute_delta clk ticks (monotonicReference_ticks clk),
                        monotonicReference_ticks := ticks\<rparr>
               else if ticks > monotonicReference_ticks clk
               then (let clk = (if ticks_per_second clk > 0
                                   \<and> ticks - monotonicReference_ticks clk > c_div (ticks_per_second clk) 5
                                then clk\<lparr>forwardJumpOver200msCount := forwardJumpOver200msCount clk + 1\<rparr>
                                else clk)
                     in clk\<lparr>monotonicTime_ticks := monotonicTime_ticks clk
                              + (ticks - monotonicReference_ticks clk),
                            monotonicReference_ticks := ticks\<rparr>)
               else if ticks < currentTime_ticks clk \<and> ticks_per_second clk > 0
                       \<and> currentTime_ticks clk - ticks < c_div (ticks_per_second clk) 2
               then clk\<lparr>backwardJumpUnder500msCount := backwardJumpUnder500msCount clk + 1\<rparr>
               else clk)
        in clk\<lparr>currentTime_ticks := ticks\<rparr>)"

text \<open>
  The same operation as \<open>int64_t\<close> arithmetic: each sum and difference that the code evaluates on
  the branch it takes has to fit.
\<close>

definition set_ticks_in_range :: "ltntstools_clock_s \<Rightarrow> int \<Rightarrow> bool" where
  "set_ticks_in_range clk ticks \<longleftrightarrow>
     pendingDiscontinuity clk \<or>
     (let wrapped = ticks < c_div (currentTime_ticks clk) 50;
          ref = monotonicReference_ticks clk
      in (wrapped \<longrightarrow> int64_range (clockWrapOccurences clk + 1))
         \<and> (if wrapped \<and> clockWrapValue clk > 0
            then (if ticks \<ge> ref then int64_range (ticks - ref)
                  else int64_range (clockWrapValue clk - ref) \<and> int64_range (clockWrapValue clk - ref + ticks))
                 \<and> int64_range (monotonicTime_ticks clk + ltntstools_clock_compute_delta clk ticks ref)
            else if ticks > ref
            then int64_range (ticks - ref) \<and> int64_range (monotonicTime_ticks clk + (ticks - ref))
            else ticks < currentTime_ticks clk \<and> ticks_per_second clk > 0
                 \<longrightarrow> int64_range (currentTime_ticks clk - ticks)))"

definition set_ticks_mem :: "timeval \<Rightarrow> int \<Rightarrow> ltntstools_clock_s \<Rightarrow> ltntstools_clock_s mem" where
  "set_ticks_mem now ticks clk =
     (if set_ticks_in_range clk ticks then Some (ltntstools_clock_set_ticks now clk ticks) else None)"

definition ltntstools_clock_is_established_timebase :: "ltntstools_clock_s \<Rightarrow> bool" where
  "ltntstools_clock_is_established_timebase clk = establishedTimebase clk"

definition ltntstools_clock_is_established_wallclock :: "ltntstools_clock_s \<Rightarrow> bool" where
  "ltntstools_clock_is_established_wallclock clk = establishedWT clk"

definition ltntstools_clock_get_ticks :: "ltntstools_clock_s \<Rightarrow> int" where
  "ltntstools_clock_get_ticks clk = currentTime_ticks clk"

definition ltntstools_clock_get_monotonic_ticks :: "ltntstools_clock_s \<Rightarrow> int" where
  "ltntstools_clock_get_monotonic_ticks clk = monotonicTime_ticks clk"

definition ltntstools_clock_get_wrap_occurences :: "ltntstools_clock_s \<Rightarrow> int" where
  "ltntstools_clock_get_wrap_occurences clk = clockWrapOccurences clk"

definition ltntstools_clock_get_backward_jump_under_500ms_count :: "ltntstools_clock_s \<Rightarrow> u64" where
  "ltntstools_clock_get_backward_jump_under_500ms_count clk = backwardJumpUnder500msCount clk"

definition ltntstools_clock_get_forward_jump_over_200ms_count :: "ltntstools_clock_s \<Rightarrow> u64" where
  "ltntstools_clock_get_forward_jump_over_200ms_count clk = forwardJumpOver200msCount clk"

definition ltntstools_clock_mark_discontinuity :: "ltntstools_clock_s option \<Rightarrow> ltntstools_clock_s option" where
  "ltntstools_clock_mark_discontinuity clk =
     map_option (\<lambda>c. c\<lparr>discontinuityCount := discontinuityCount c + 1, pendingDiscontinuity := True\<rparr>) clk"

definition ltntstools_clock_get_discontinuity_count :: "ltntstools_clock_s option \<Rightarrow> u64" where
  "ltntstools_clock_get_discontinuity_count clk = (case clk of None \<Rightarrow> 0 | Some c \<Rightarrow> discontinuityCount c)"

text \<open>
  The two loops of \<open>add_ticks\<close>; they run under the test \<open>clockWrapValue > 0\<close>, repeated here. In
  each, the current time moves towards the range below the wrap value and cannot overflow; the
  reference and the wrap count can.
\<close>

function add_ticks_down :: "ltntstools_clock_s \<Rightarrow> ltntstools_clock_s mem" where
  "add_ticks_down clk =
     (if clockWrapValue clk > 0 \<and> currentTime_ticks clk \<ge> clockWrapValue clk
      then (if int64_range (monotonicReference_ticks clk - clockWrapValue clk)
               \<and> int64_range (clockWrapOccurences clk + 1)
            then add_ticks_down
                   (clk\<lparr>currentTime_ticks := currentTime_ticks clk - clockWrapValue clk,
                        monotonicReference_ticks := monotonicReference_ticks clk - clockWrapValue clk,
                        clockWrapOccurences := clockWrapOccurences clk + 1\<rparr>)
            else None)
      else Some clk)"
  by pat_completeness auto
termination add_ticks_down
  by (relation "measure (\<lambda>clk. nat (currentTime_ticks clk))") auto

function add_ticks_up :: "ltntstools_clock_s \<Rightarrow> ltntstools_clock_s mem" where
  "add_ticks_up clk =
     (if clockWrapValue clk > 0 \<and> currentTime_ticks clk < 0
      then (if int64_range (monotonicReference_ticks clk + clockWrapValue clk)
            then add_ticks_up
                   (let clk = clk\<lparr>currentTime_ticks := currentTime_ticks clk + clockWrapValue clk,
                                  monotonicReference_ticks := monotonicReference_ticks clk + clockWrapValue clk\<rparr>
                    in if clockWrapOccurences clk > 0
                       then clk\<lparr>clockWrapOccurences := clockWrapOccurences clk - 1\<rparr> else clk)
            else None)
      else Some clk)"
  by pat_completeness auto
termination add_ticks_up
  by (relation "measure (\<lambda>clk. nat (- currentTime_ticks clk))") (auto simp: Let_def)

definition ltntstools_clock_add_ticks :: "ltntstools_clock_s \<Rightarrow> int \<Rightarrow> ltntstools_clock_s mem" where
  "ltntstools_clock_add_ticks clk ticks =
     do { mono \<leftarrow> (if ticks > 0 then i64 (monotonicTime_ticks clk + ticks) else Some (monotonicTime_ticks clk));
          now \<leftarrow> i64 (currentTime_ticks clk + ticks);
          ref \<leftarrow> i64 (monotonicReference_ticks clk + ticks);
          let clk = clk\<lparr>monotonicTime_ticks := mono, currentTime_ticks := now, monotonicReference_ticks := ref\<rparr>;
          if clockWrapValue clk > 0 then add_ticks_down clk \<bind> add_ticks_up else Some clk }"

text \<open>
  \<open>None\<close> is the division by a timebase of zero ticks per second, or an \<open>int64_t\<close> result that does
  not fit, the product of the ticks and a million first of all.
\<close>

definition ltntstools_clock_get_drift_us :: "timeval \<Rightarrow> ltntstools_clock_s \<Rightarrow> (ltntstools_clock_s \<times> int) mem" where
  "ltntstools_clock_get_drift_us now clk =
     (if \<not> establishedWT clk then Some (clk, 0) else
      do { elapsedWT \<leftarrow> i64 (ltn_timeval_subtract_us now (establishedWalltime clk));
           ticks \<leftarrow> i64 (monotonicTime_ticks clk - establishedTime_ticks clk);
           scaled \<leftarrow> i64 (ticks * 1000000);
           tickTime \<leftarrow> (if ticks_per_second clk = 0 then None else i64 (c_div scaled (ticks_per_second clk)));
           drift \<leftarrow> i64 (tickTime - elapsedWT);
           let clk = clk\<lparr>drift_us := drift\<rparr>;
           let clk = (if drift_us clk > drift_us_hwm clk then clk\<lparr>drift_us_hwm := drift_us clk\<rparr> else clk);
           let clk = (if drift_us clk \<le> drift_us_lwm clk then clk\<lparr>drift_us_lwm := drift_us clk\<rparr> else clk);
           spread \<leftarrow> i64 (drift_us_hwm clk - drift_us_lwm clk);
           let clk = clk\<lparr>drift_us_max := spread\<rparr>;
           Some (clk, drift_us clk) })"

definition ltntstools_clock_get_drift_ms :: "timeval \<Rightarrow> ltntstools_clock_s \<Rightarrow> (ltntstools_clock_s \<times> int) mem" where
  "ltntstools_clock_get_drift_ms now clk =
     do { (clk, us) \<leftarrow> ltntstools_clock_get_drift_us now clk; Some (clk, c_div us 1000) }"

subsection \<open>The corrected clock\<close>

record ltntstools_corrected_clock_s =
  initialized :: bool
  clkMaxTicks :: u64
  lastTickValue :: u64
  unwrapped :: int
  correctedClk :: u64
  clk_bits :: u64
  clk_mod :: u64
  clk_mask :: u64
  clk_half :: u64

definition JITTER_MAX :: int where
  "JITTER_MAX = 90000 div 2"

definition pts33_signed_delta :: "ltntstools_corrected_clock_s \<Rightarrow> u64 \<Rightarrow> u64 \<Rightarrow> int" where
  "pts33_signed_delta ctx cur prev =
     (let a = cur AND clk_mask ctx;
          b = prev AND clk_mask ctx;
          diff = (a - b) AND clk_mask ctx
      in if diff AND clk_half ctx \<noteq> 0 then sint diff - sint (clk_mod ctx) else sint diff)"

definition ltntstools_corrected_clock_init ::
  "ltntstools_corrected_clock_s \<Rightarrow> u32 \<Rightarrow> ltntstools_corrected_clock_s \<times> int" where
  "ltntstools_corrected_clock_init ctx hz =
     (if hz = 90000
      then let ctx = ctx\<lparr>clk_bits := 33\<rparr>;
               ctx = ctx\<lparr>clkMaxTicks := push_bit (unat (clk_bits ctx)) 1\<rparr>;
               ctx = ctx\<lparr>clk_mod := push_bit (unat (clk_bits ctx)) 1\<rparr>;
               ctx = ctx\<lparr>clk_mask := clk_mod ctx - 1\<rparr>;
               ctx = ctx\<lparr>clk_half := push_bit (unat (clk_bits ctx - 1)) 1\<rparr>
           in (ctx\<lparr>initialized := True, lastTickValue := 0, unwrapped := 0, correctedClk := 0\<rparr>, 0)
      else (ctx, -1))"

text \<open>\<open>None\<close> is a \<open>NULL\<close> context.\<close>

definition ltntstools_corrected_clock_update ::
  "ltntstools_corrected_clock_s option \<Rightarrow> int \<Rightarrow> ltntstools_corrected_clock_s option \<times> int" where
  "ltntstools_corrected_clock_update cctx ticks =
     (case cctx of
        None \<Rightarrow> (None, -1)
      | Some ctx \<Rightarrow>
          if \<not> initialized ctx then (Some ctx, -1) else
          let ret = 0;
              p33 = word_of_int ticks AND clk_mask ctx
          in if \<not> initialized ctx
             then (Some (ctx\<lparr>initialized := True, lastTickValue := p33, unwrapped := sint p33,
                             correctedClk := word_of_int (sint p33)\<rparr>), ret)
             else
          let d = pts33_signed_delta ctx p33 (lastTickValue ctx);
              ctx = ctx\<lparr>unwrapped := unwrapped ctx + d\<rparr>;
              (ctx, ret) =
                (if unwrapped ctx < 0 then (ctx\<lparr>correctedClk := p33, unwrapped := sint p33\<rparr>, -1)
                 else if sint (correctedClk ctx) - unwrapped ctx > JITTER_MAX then (ctx, ret)
                 else if word_of_int (unwrapped ctx) > correctedClk ctx
                 then (ctx\<lparr>correctedClk := word_of_int (unwrapped ctx)\<rparr>, ret)
                 else (ctx, ret))
          in (Some (ctx\<lparr>lastTickValue := p33\<rparr>), ret))"

definition ltntstools_corrected_clock_unwrapped :: "ltntstools_corrected_clock_s option \<Rightarrow> u64" where
  "ltntstools_corrected_clock_unwrapped cctx =
     (case cctx of None \<Rightarrow> 0 | Some ctx \<Rightarrow> if \<not> initialized ctx then 0 else word_of_int (unwrapped ctx))"

declare add_ticks_down.simps [simp del] and add_ticks_up.simps [simp del]

subsection \<open>Adding ticks\<close>

lemma div_minus_multiple: "0 < W \<Longrightarrow> (t - q * W) div W = t div W - (q :: int)"
  using div_mult_self1 [of W t "- q"] by simp

lemma add_ticks_down_eq:
  assumes "0 < clockWrapValue clk" and "q = max 0 (currentTime_ticks clk div clockWrapValue clk)"
    and "int64_range (monotonicReference_ticks clk)" "int64_range (clockWrapOccurences clk)"
    and "int64_range (monotonicReference_ticks clk - q * clockWrapValue clk)"
    and "int64_range (clockWrapOccurences clk + q)"
  shows "add_ticks_down clk =
    Some (clk\<lparr>currentTime_ticks := currentTime_ticks clk - q * clockWrapValue clk,
        monotonicReference_ticks := monotonicReference_ticks clk - q * clockWrapValue clk,
        clockWrapOccurences := clockWrapOccurences clk + q\<rparr>)"
  using assms
proof (induction clk arbitrary: q rule: add_ticks_down.induct)
  case (1 clk)
  let ?W = "clockWrapValue clk" and ?c = "currentTime_ticks clk"
    and ?r = "monotonicReference_ticks clk" and ?o = "clockWrapOccurences clk"
  show ?case
  proof (cases "?W \<le> ?c")
    case True
    have d: "(?c - ?W) div ?W = ?c div ?W - 1" and p: "0 < ?c div ?W"
      using 1(2) True div_minus_multiple [of ?W ?c 1] by (simp_all add: pos_imp_zdiv_pos_iff)
    then have q: "max 0 ((?c - ?W) div ?W) = q - 1" "1 \<le> q" using 1(3) by simp_all
    have "?W \<le> q * ?W" using q(2) 1(2) by (simp add: mult_le_cancel_right1)
    then have r: "int64_range (?r - ?W)" "int64_range (?o + 1)"
      using int64_range_between [OF 1(6,4), of "?r - ?W"] int64_range_between [OF 1(5,7), of "?o + 1"] 1(2) q(2)
      by simp_all
    show ?thesis
      using 1(1) [of "q - 1"] 1(2,6,7) True q(1) r
      by (subst add_ticks_down.simps) (simp add: algebra_simps)
  next
    case False
    then have "?c div ?W \<le> 0" using 1(2)
      by (metis div_neg_pos_less0 div_pos_pos_trivial linorder_not_le order_le_less)
    then show ?thesis using False 1(3) by (subst add_ticks_down.simps) simp
  qed
qed

lemma add_ticks_up_eq:
  assumes "0 < clockWrapValue clk" and "0 \<le> clockWrapOccurences clk"
    and "currentTime_ticks clk < clockWrapValue clk"
    and "q = currentTime_ticks clk div clockWrapValue clk"
    and "int64_range (monotonicReference_ticks clk)"
    and "int64_range (monotonicReference_ticks clk - q * clockWrapValue clk)"
  shows "add_ticks_up clk =
    Some (clk\<lparr>currentTime_ticks := currentTime_ticks clk - q * clockWrapValue clk,
        monotonicReference_ticks := monotonicReference_ticks clk - q * clockWrapValue clk,
        clockWrapOccurences := max 0 (clockWrapOccurences clk + q)\<rparr>)"
  using assms
proof (induction clk arbitrary: q rule: add_ticks_up.induct)
  case (1 clk)
  let ?W = "clockWrapValue clk" and ?c = "currentTime_ticks clk"
  show ?case
  proof (cases "?c < 0")
    case True
    have d: "(?c + ?W) div ?W = ?c div ?W + 1" and p: "?c div ?W < 0"
      using 1(2) True div_minus_multiple [of ?W ?c "-1"] by (simp_all add: div_neg_pos_less0)
    let ?o = "clockWrapOccurences clk" and ?r = "monotonicReference_ticks clk"
    define c2 where "c2 = clk\<lparr>currentTime_ticks := ?c + ?W, monotonicReference_ticks := ?r + ?W,
      clockWrapOccurences := (if ?o > 0 then ?o - 1 else ?o)\<rparr>"
    have arg: "(let clk = clk\<lparr>currentTime_ticks := ?c + ?W, monotonicReference_ticks := ?r + ?W\<rparr>
        in if clockWrapOccurences clk > 0
           then clk\<lparr>clockWrapOccurences := clockWrapOccurences clk - 1\<rparr> else clk) = c2"
      by (simp add: c2_def Let_def)
    have f: "clockWrapValue c2 = ?W" "currentTime_ticks c2 = ?c + ?W" "monotonicReference_ticks c2 = ?r + ?W"
        "0 \<le> clockWrapOccurences c2" "clockWrapOccurences c2 = (if ?o > 0 then ?o - 1 else ?o)"
      using 1(3) by (simp_all add: c2_def)
    have qW: "q * ?W \<le> (- 1) * ?W" using p 1(2,5) by (intro mult_right_mono) simp_all
    have bk: "?r + ?W - (q + 1) * ?W = ?r - q * ?W" by (simp add: distrib_right)
    have r: "int64_range (?r + ?W)"
      by (rule int64_range_between [OF 1(6,7)]) (use qW 1(2) in simp_all)
    have "add_ticks_up clk = add_ticks_up c2"
      by (subst add_ticks_up.simps) (simp only: arg 1(2) True r simp_thms if_True)
    also have "\<dots> = Some (c2\<lparr>currentTime_ticks := currentTime_ticks c2 - (q + 1) * clockWrapValue c2,
        monotonicReference_ticks := monotonicReference_ticks c2 - (q + 1) * clockWrapValue c2,
        clockWrapOccurences := max 0 (clockWrapOccurences c2 + (q + 1))\<rparr>)"
      by (rule 1(1) [unfolded arg]; (simp only: f bk)?) (use 1(2,3,5,7) True d r in simp_all)
    also have "\<dots> = Some (c2\<lparr>currentTime_ticks := ?c - q * ?W, monotonicReference_ticks := ?r - q * ?W,
        clockWrapOccurences := max 0 (?o + q)\<rparr>)"
    proof -
      have "?c + ?W - (q + 1) * ?W = ?c - q * ?W" by (simp add: distrib_right)
      moreover have "max 0 ((if ?o > 0 then ?o - 1 else ?o) + (q + 1)) = max 0 (?o + q)"
        using p 1(3,5) by auto
      ultimately show ?thesis by (simp only: f bk)
    qed
    finally show ?thesis by (simp add: c2_def)
  next
    case False
    then have "?c div ?W = 0" using 1(2,4) by simp
    then show ?thesis using False 1(3,5) by (subst add_ticks_up.simps) simp
  qed
qed

text \<open>Both loops after each other, on a clock at time \<open>t\<close>: at most one of them turns.\<close>

lemma add_ticks_loops_eq:
  fixes clk :: ltntstools_clock_s
  defines "W \<equiv> clockWrapValue clk" and "t \<equiv> currentTime_ticks clk" and "r \<equiv> monotonicReference_ticks clk"
    and "n \<equiv> clockWrapOccurences clk"
  assumes "0 < W" "0 \<le> n" "int64_range n" "int64_range r" "int64_range (r - t div W * W)" "int64_range (n + t div W)"
  shows "add_ticks_down clk \<bind> add_ticks_up =
    Some (clk\<lparr>currentTime_ticks := t mod W, monotonicReference_ticks := r - t div W * W,
        clockWrapOccurences := max 0 (n + t div W)\<rparr>)"
proof (cases "0 \<le> t div W")
  case True
  define c1 where "c1 = clk\<lparr>currentTime_ticks := t mod W, monotonicReference_ticks := r - t div W * W,
      clockWrapOccurences := n + t div W\<rparr>"
  have f: "clockWrapValue c1 = W" "currentTime_ticks c1 = t mod W" "clockWrapOccurences c1 = n + t div W"
      "monotonicReference_ticks c1 = r - t div W * W"
    by (simp_all add: c1_def W_def)
  have "add_ticks_down clk = Some c1"
    using add_ticks_down_eq [of clk "t div W"] True assms(5-10)
    by (simp add: c1_def minus_div_mult_eq_mod flip: W_def t_def r_def n_def)
  moreover have "add_ticks_up c1 = Some c1"
    using pos_mod_sign [OF assms(5), of t] by (subst add_ticks_up.simps) (simp add: f)
  ultimately show ?thesis using True assms(6) by (simp add: c1_def)
next
  case False
  then have t: "t < 0" using assms(5) by (simp add: pos_imp_zdiv_nonneg_iff)
  then have "add_ticks_down clk = Some clk"
    using assms(5) by (subst add_ticks_down.simps) (simp flip: W_def t_def)
  then show ?thesis
    using add_ticks_up_eq [of clk "t div W"] t assms(5-10)
    by (simp add: minus_div_mult_eq_mod flip: W_def t_def r_def n_def)
qed

text \<open>
  C31: Adding ticks, positive or negative, whose sums with the monotonic time, the current time
  and the reference fit \<open>int64_t\<close> (and so does the reference when it is moved by the wraps) ends:
  the clock lands in the range below its wrap value at the sum modulo the wrap value, the
  monotonic time advances by the positive ticks and never steps back, the reference moves with
  the clock, and the wrap count moves by the number of wraps, not below zero. When the sum with
  the current time does not fit, the code has no defined behaviour.
\<close>

theorem clock_add_ticks_wraps:
  fixes clk :: ltntstools_clock_s and ticks :: int
  assumes "0 < clockWrapValue clk"
  defines "W \<equiv> clockWrapValue clk" and "t \<equiv> currentTime_ticks clk + ticks"
    and "r \<equiv> monotonicReference_ticks clk + ticks" and "n \<equiv> clockWrapOccurences clk"
  assumes "0 \<le> n" "int64_range n" "int64_range (n + t div W)"
    and "int64_range (monotonicTime_ticks clk + max 0 ticks)" "int64_range r" "int64_range (r - t div W * W)"
  shows "(int64_range t \<longrightarrow>
      (\<exists>clk'. ltntstools_clock_add_ticks clk ticks = Some clk'
        \<and> currentTime_ticks clk' = t mod W \<and> 0 \<le> currentTime_ticks clk' \<and> currentTime_ticks clk' < W
        \<and> monotonicTime_ticks clk' = monotonicTime_ticks clk + max 0 ticks
        \<and> monotonicReference_ticks clk' - currentTime_ticks clk'
            = monotonicReference_ticks clk - currentTime_ticks clk
        \<and> clockWrapOccurences clk' = max 0 (n + t div W)))
    \<and> (\<not> int64_range t \<longrightarrow> ltntstools_clock_add_ticks clk ticks = None)"
proof -
  define c0 where "c0 = clk\<lparr>monotonicTime_ticks := monotonicTime_ticks clk + max 0 ticks, currentTime_ticks := t,
      monotonicReference_ticks := r\<rparr>"
  have m: "(if ticks > 0 then i64 (monotonicTime_ticks clk + ticks) else Some (monotonicTime_ticks clk))
      = Some (monotonicTime_ticks clk + max 0 ticks)"
    using assms(9) by (cases "ticks > 0") simp_all
  have f: "clockWrapValue c0 = W" "currentTime_ticks c0 = t" "monotonicReference_ticks c0 = r"
      "clockWrapOccurences c0 = n"
    by (simp_all add: c0_def W_def n_def)
  have W: "0 < W" using assms(1) by (simp add: W_def)
  have loops: "add_ticks_down c0 \<bind> add_ticks_up = Some (c0\<lparr>currentTime_ticks := t mod W,
      monotonicReference_ticks := r - t div W * W, clockWrapOccurences := max 0 (n + t div W)\<rparr>)"
    using add_ticks_loops_eq [of c0] assms(6-11) W by (simp only: f)
  have e: "ltntstools_clock_add_ticks clk ticks
      = (if int64_range t then add_ticks_down c0 \<bind> add_ticks_up else None)"
    using assms(1) \<open>int64_range r\<close> unfolding ltntstools_clock_add_ticks_def m
    by (simp add: c0_def i64_def flip: t_def r_def)
  have "r - t div W * W - t mod W = monotonicReference_ticks clk - currentTime_ticks clk"
    using div_mult_mod_eq [of t W] unfolding r_def t_def by linarith
  then show ?thesis using W unfolding e loops by (simp add: c0_def)
qed

theorem clock_add_ticks_wraps_witness:
  "\<exists>clk'. ltntstools_clock_add_ticks (ltntstools_clock_establish_timebase clock_zero 90000) (-10) = Some clk'
     \<and> currentTime_ticks clk' = MAX_PTS_VALUE - 10"
  using clock_add_ticks_wraps [of "ltntstools_clock_establish_timebase clock_zero 90000" "-10"]
  by (auto simp: ltntstools_clock_establish_timebase_def clock_zero_def MAX_PTS_VALUE_def int64_range_def)

subsection \<open>Following a timeline across wraps\<close>

text \<open>
  A source clock whose true time is \<open>t\<close> shows \<open>t mod W\<close>. A timeline is followed reliably when
  it never steps back and each step is at most a hundredth of the wrap value (for timestamps
  of 90 kHz about a quarter of an hour).
\<close>

fun steady :: "int \<Rightarrow> int \<Rightarrow> int list \<Rightarrow> bool" where
  "steady W t [] \<longleftrightarrow> True"
| "steady W t (t' # ts) \<longleftrightarrow> t \<le> t' \<and> t' - t \<le> W div 100 \<and> steady W t' ts"

definition follows :: "int \<Rightarrow> int \<Rightarrow> int \<Rightarrow> ltntstools_clock_s \<Rightarrow> bool" where
  "follows W t0 t clk \<longleftrightarrow>
     clockWrapValue clk = W \<and> \<not> pendingDiscontinuity clk
     \<and> currentTime_ticks clk = t mod W \<and> monotonicReference_ticks clk = t mod W
     \<and> monotonicTime_ticks clk = t0 mod W + (t - t0)
     \<and> clockWrapOccurences clk = t div W - t0 div W \<and> backwardJumpUnder500msCount clk = 0"

lemma follows_step:
  assumes "follows W t0 t clk" and "1000 \<le> W" and "t \<le> t'" "t' - t \<le> W div 100"
  shows "follows W t0 t' (ltntstools_clock_set_ticks now clk (t' mod W))"
proof -
  define c where "c = t mod W" define c' where "c' = t' mod W" define d where "d = t' - t"
  define k where "k = t' div W - t div W"
  have c: "0 \<le> c" "c < W" "0 \<le> c'" "c' < W" using assms(2) by (simp_all add: c_def c'_def)
  have d: "0 \<le> d" "100 * d \<le> W" using assms(3,4) by (simp_all add: d_def)
  have t: "t = (t div W) * W + c" "t' = (t' div W) * W + c'" by (simp_all add: c_def c'_def)
  then have k: "d = k * W + c' - c" by (simp add: d_def k_def left_diff_distrib)
  have "k * W < 2 * W" "(- 1) * W < k * W" using k c d by linarith+
  then have "k = 0 \<or> k = 1" using assms(2) by (simp only: mult_less_cancel_right) auto
  then have "k = 0 \<and> c \<le> c' \<and> \<not> c' < c_div c 50 \<or> k = 1 \<and> c' < c_div c 50 \<and> c' < c"
  proof
    assume "k = 0"
    then have "c \<le> c'" using k d by simp
    moreover have "c div 50 \<le> c" using c by linarith
    ultimately show ?thesis using \<open>k = 0\<close> c by simp
  next
    assume "k = 1"
    then have "c' = c + d - W" using k by simp
    then have "c' < c div 50" "c' < c" using c d assms(2) by linarith+
    then show ?thesis using \<open>k = 1\<close> c by simp
  qed
  moreover have "t' div W = t div W + k" by (simp add: k_def)
  moreover have "t' - t0 = (t - t0) + (k * W + c' - c)" using k by (simp add: d_def)
  ultimately show ?thesis
    using assms(1,2) unfolding follows_def ltntstools_clock_set_ticks_def Let_def c_def [symmetric] c'_def [symmetric]
    by (auto simp: ltntstools_clock_compute_delta_def split del: if_split split: if_splits)
qed

lemma follows_all:
  assumes "follows W t0 t clk" and "1000 \<le> W" and "steady W t (map snd ts)"
  shows "follows W t0 (last (t # map snd ts)) (foldl (\<lambda>c (now, t). ltntstools_clock_set_ticks now c (t mod W)) clk ts)"
  using assms
proof (induction ts arbitrary: t clk)
  case (Cons p ts)
  obtain now t' where p: "p = (now, t')" by (cases p)
  then show ?case using Cons.IH [OF follows_step [OF Cons.prems(1,2)], of t' now] Cons.prems
    by (simp add: p)
qed simp

lemma establish_follows:
  "follows (clockWrapValue (ltntstools_clock_establish_timebase clk tps)) t0 t0
     (ltntstools_clock_establish_wallclock now (ltntstools_clock_establish_timebase clk tps)
       (t0 mod clockWrapValue (ltntstools_clock_establish_timebase clk tps)))"
  by (simp add: follows_def ltntstools_clock_establish_wallclock_def ltntstools_clock_establish_timebase_def)

lemma set_ticks_frame:
  assumes "\<not> pendingDiscontinuity clk"
  shows "ticks_per_second (ltntstools_clock_set_ticks now clk ticks) = ticks_per_second clk"
    and "establishedTime_ticks (ltntstools_clock_set_ticks now clk ticks) = establishedTime_ticks clk"
    and "establishedWalltime (ltntstools_clock_set_ticks now clk ticks) = establishedWalltime clk"
    and "establishedWT (ltntstools_clock_set_ticks now clk ticks) = establishedWT clk"
    and "pendingDiscontinuity (ltntstools_clock_set_ticks now clk ticks) = pendingDiscontinuity clk"
  using assms by (simp_all add: ltntstools_clock_set_ticks_def Let_def)

lemma set_ticks_frame_all:
  fixes f :: "timeval \<times> int \<Rightarrow> int" and ps :: "(timeval \<times> int) list"
  assumes "\<not> pendingDiscontinuity clk"
  defines "clk' \<equiv> foldl (\<lambda>c p. ltntstools_clock_set_ticks (fst p) c (f p)) clk ps"
  shows "ticks_per_second clk' = ticks_per_second clk
    \<and> establishedTime_ticks clk' = establishedTime_ticks clk
    \<and> establishedWalltime clk' = establishedWalltime clk \<and> establishedWT clk' = establishedWT clk"
  using assms(1) unfolding clk'_def
  by (induction ps arbitrary: clk) (simp_all add: set_ticks_frame)

lemma steady_last: "steady W t ts \<Longrightarrow> t \<le> last (t # ts)"
proof (induction ts arbitrary: t)
  case (Cons t' ts)
  then have "t' \<le> last (t' # ts)" "t \<le> t'" by simp_all
  then show ?case by simp
qed simp

text \<open>The sums of \<open>set_ticks\<close> fit as long as the monotonic time does.\<close>

lemma follows_in_range:
  assumes "follows W t0 t clk" and "1000 \<le> W" "W \<le> 2 ^ 62" and "t0 \<le> t" "t \<le> t'" and "t' - t0 + W \<le> 2 ^ 63"
    and "t' - t \<le> W div 100"
  shows "set_ticks_in_range clk (t' mod W)"
proof -
  define c where "c = t mod W" define c' where "c' = t' mod W"
  define m where "m = monotonicTime_ticks clk" define n where "n = clockWrapOccurences clk"
  have c: "0 \<le> c" "c < W" "0 \<le> c'" "c' < W" using assms(2) by (simp_all add: c_def c'_def)
  have f: "clockWrapValue clk = W" "currentTime_ticks clk = c" "monotonicReference_ticks clk = c"
      "n = t div W - t0 div W" "m = t0 mod W + (t - t0)"
    using assms(1) by (simp_all add: follows_def c_def m_def n_def)
  have n: "0 \<le> n" "n \<le> t - t0"
  proof -
    show "0 \<le> n" using f(4) assms(2,4) by (simp add: zdiv_mono1)
    have "n * W = t - t0 - (t mod W - t0 mod W)"
      using minus_mod_eq_div_mult [of t W] minus_mod_eq_div_mult [of t0 W] by (simp add: f(4) left_diff_distrib)
    moreover have "t0 mod W < W" "0 \<le> t mod W" using assms(2) by simp_all
    ultimately have "(n - 1) * W < t - t0" by (simp add: left_diff_distrib)
    moreover have "n - 1 \<le> (n - 1) * W \<or> n = 0" using \<open>0 \<le> n\<close> assms(2) by (cases "n = 0") (simp_all add: mult_le_cancel_left1)
    ultimately show "n \<le> t - t0" using assms(4) by linarith
  qed
  have next': "monotonicTime_ticks (ltntstools_clock_set_ticks now clk c') = t0 mod W + (t' - t0)" for now
    using follows_step [OF assms(1,2,5,7), of now] by (simp add: follows_def c'_def)
  have m': "m \<le> t0 mod W + (t' - t0)" "0 \<le> m" "t0 mod W + (t' - t0) < 2 ^ 63"
    using f(5) assms(2,4-6) pos_mod_bound [of W t0] pos_mod_sign [of W t0] by linarith+
  have r: "int64_range (n + 1)" "int64_range (c' - c)" "int64_range (W - c)" "int64_range (W - c + c')"
      "int64_range (c - c')" "int64_range (t0 mod W + (t' - t0))"
    using n c m' assms(2,3,5,6) by (simp_all add: int64_range_def)
  have p: "\<not> pendingDiscontinuity clk" using assms(1) by (simp add: follows_def)
  have delta: "ltntstools_clock_compute_delta (clk\<lparr>clockWrapOccurences := k\<rparr>) a b = ltntstools_clock_compute_delta clk a b" for k a b
    by (simp add: ltntstools_clock_compute_delta_def)
  show ?thesis
    using next' [unfolded ltntstools_clock_set_ticks_def Let_def] r p assms(2)
    unfolding set_ticks_in_range_def Let_def c'_def [symmetric] m_def [symmetric] n_def [symmetric]
    by (auto simp: f(1-3) m_def n_def delta split: if_splits)
qed

lemma follows_mem:
  assumes "follows W t0 t clk" and "1000 \<le> W" "W \<le> 2 ^ 62" and "t0 \<le> t" and "steady W t (map snd ps)"
    and "last (t # map snd ps) - t0 + W \<le> 2 ^ 63"
  shows "mem_fold (\<lambda>p. set_ticks_mem (fst p) (snd p mod W)) ps clk
    = Some (foldl (\<lambda>c p. ltntstools_clock_set_ticks (fst p) c (snd p mod W)) clk ps)"
  using assms
proof (induction ps arbitrary: t clk)
  case (Cons p ps)
  let ?t = "snd p"
  have s: "t \<le> ?t" "?t - t \<le> W div 100" "steady W ?t (map snd ps)" using Cons.prems(5) by simp_all
  have le: "?t \<le> last (?t # map snd ps)" by (rule steady_last [OF s(3)])
  have l: "last (t # map snd (p # ps)) = last (?t # map snd ps)" by simp
  then have "set_ticks_in_range clk (?t mod W)"
    using Cons.prems(4,6) s le by (intro follows_in_range [OF Cons.prems(1-4)]) simp_all
  moreover have "mem_fold (\<lambda>p. set_ticks_mem (fst p) (snd p mod W)) ps (ltntstools_clock_set_ticks (fst p) clk (?t mod W))
      = Some (foldl (\<lambda>c p. ltntstools_clock_set_ticks (fst p) c (snd p mod W))
          (ltntstools_clock_set_ticks (fst p) clk (?t mod W)) ps)"
    using Cons.prems(4,6) s l
    by (intro Cons.IH [OF follows_step [OF Cons.prems(1,2) s(1,2)] Cons.prems(2,3)]) simp_all
  ultimately show ?case by (simp only: mem_fold.simps foldl.simps set_ticks_mem_def [of "fst p"] if_True bind.bind_lunit)
qed simp

text \<open>The drift of a clock is defined within days of ticks and 146,000 years of microseconds.\<close>

lemma drift_us_eq:
  fixes clk :: ltntstools_clock_s and now :: timeval
  assumes "establishedWT clk" and "0 < ticks_per_second clk"
  defines "ticks \<equiv> monotonicTime_ticks clk - establishedTime_ticks clk"
    and "elapsed \<equiv> ltn_timeval_subtract_us now (establishedWalltime clk)"
  defines "d \<equiv> c_div (ticks * 1000000) (ticks_per_second clk) - elapsed"
  assumes "0 \<le> ticks" "int64_range elapsed"
    and "\<bar>d\<bar> < 2 ^ 62" "\<bar>drift_us_hwm clk\<bar> < 2 ^ 62" "\<bar>drift_us_lwm clk\<bar> < 2 ^ 62"
  shows "map_option snd (ltntstools_clock_get_drift_us now clk)
    = (if ticks * 1000000 < 2 ^ 63 then Some d else None)"
proof (cases "ticks * 1000000 < 2 ^ 63")
  case True
  let ?q = "ticks * 1000000 div ticks_per_second clk"
  have "?q \<le> ticks * 1000000" "0 \<le> ?q"
    using assms(2,6) int_div_le_self [of "ticks * 1000000" "ticks_per_second clk"]
    by (cases "ticks = 0"; simp add: pos_imp_zdiv_nonneg_iff)+
  then have "int64_range ticks" "int64_range (ticks * 1000000)" "int64_range ?q"
    using True assms(6) by (simp_all add: int64_range_def)
  moreover have "int64_range d" "int64_range (drift_us_hwm clk - drift_us_lwm clk)"
      "int64_range (d - drift_us_lwm clk)" "int64_range (drift_us_hwm clk - d)"
    using assms(8-10) by (simp_all add: int64_range_def abs_less_iff)
  ultimately show ?thesis
    using True assms(1,2,6,7) unfolding ltntstools_clock_get_drift_us_def ticks_def [symmetric] elapsed_def [symmetric]
    by (auto simp: d_def Let_def int64_range_def)
next
  case False
  then have "i64 (ticks * 1000000) = None" by (simp add: i64_def int64_range_def)
  then show ?thesis
    using False assms(1) unfolding ltntstools_clock_get_drift_us_def ticks_def [symmetric] elapsed_def [symmetric]
    by (auto simp: i64_def)
qed

lemma set_ticks_drift_frame:
  "drift_us_hwm (foldl (\<lambda>c p. ltntstools_clock_set_ticks (fst p) c (f p)) clk ps) = drift_us_hwm clk
   \<and> drift_us_lwm (foldl (\<lambda>c p. ltntstools_clock_set_ticks (fst p) c (f p)) clk ps) = drift_us_lwm clk"
  by (induction ps arbitrary: clk) (simp_all add: ltntstools_clock_set_ticks_def Let_def)

text \<open>
  C9: A clock that is established on a running timeline and then fed its wrapped values, each
  step forward and at most a hundredth of the wrap value, follows the timeline across any number
  of wraps: no \<open>int64_t\<close> sum of the updates overflows as long as the time that has passed fits,
  the monotonic time is the true time that has passed, the wrap count is exact and no backward
  jump is counted. The drift, while it, its extremes and the elapsed walltime are within 146,000
  years, is the true time in microseconds less the elapsed walltime exactly as long as a million
  times the ticks that have passed fits \<open>int64_t\<close> (four days at 27 MHz); from then on the code
  has no defined behaviour.
\<close>

theorem clock_follows_timeline:
  fixes clk :: ltntstools_clock_s and ps :: "(timeval \<times> int) list" and tps t0 :: int and start now :: timeval
  assumes "0 < tps"
  defines "base \<equiv> ltntstools_clock_establish_timebase clk tps"
  defines "W \<equiv> clockWrapValue base"
  defines "clk0 \<equiv> ltntstools_clock_establish_wallclock start base (t0 mod W)"
    and "t \<equiv> last (t0 # map snd ps)"
  assumes "steady W t0 (map snd ps)" and "t - t0 + W \<le> 2 ^ 63"
  defines "elapsed \<equiv> ltn_timeval_subtract_us now start"
  defines "d \<equiv> c_div ((t - t0) * 1000000) tps - elapsed"
  shows "\<exists>clk'. mem_fold (\<lambda>p. set_ticks_mem (fst p) (snd p mod W)) ps clk0 = Some clk'
    \<and> ltntstools_clock_get_monotonic_ticks clk' - establishedTime_ticks clk' = t - t0
    \<and> ltntstools_clock_get_ticks clk' = t mod W
    \<and> ltntstools_clock_get_wrap_occurences clk' = t div W - t0 div W
    \<and> ltntstools_clock_get_backward_jump_under_500ms_count clk' = 0
    \<and> (int64_range elapsed \<and> \<bar>d\<bar> < 2 ^ 62 \<and> \<bar>drift_us_hwm clk\<bar> < 2 ^ 62 \<and> \<bar>drift_us_lwm clk\<bar> < 2 ^ 62
       \<longrightarrow> map_option snd (ltntstools_clock_get_drift_us now clk')
             = (if (t - t0) * 1000000 < 2 ^ 63 then Some d else None))"
proof -
  define clk' where "clk' = foldl (\<lambda>c p. ltntstools_clock_set_ticks (fst p) c (snd p mod W)) clk0 ps"
  have W: "1000 \<le> W" "W \<le> 2 ^ 62"
    by (simp_all add: W_def base_def ltntstools_clock_establish_timebase_def MAX_PTS_VALUE_def MAX_SCR_VALUE_def)
  have f0: "follows W t0 t0 clk0"
    unfolding clk0_def using establish_follows [of clk tps t0 start, folded base_def, folded W_def] .
  have run: "mem_fold (\<lambda>p. set_ticks_mem (fst p) (snd p mod W)) ps clk0 = Some clk'"
    using follows_mem [OF f0 W _ assms(6)] assms(7) unfolding t_def clk'_def by simp
  have f: "follows W t0 t clk'"
    using follows_all [OF f0 W(1) assms(6)] by (simp add: clk'_def t_def case_prod_unfold)
  have fr: "ticks_per_second clk' = tps" "establishedTime_ticks clk' = t0 mod W"
      "establishedWalltime clk' = start" "establishedWT clk'"
    using set_ticks_frame_all [of clk0 "\<lambda>p. snd p mod W" ps] unfolding clk'_def
    by (simp_all add: clk0_def base_def ltntstools_clock_establish_wallclock_def ltntstools_clock_establish_timebase_def)
  have wm: "drift_us_hwm clk' = drift_us_hwm clk" "drift_us_lwm clk' = drift_us_lwm clk"
    using set_ticks_drift_frame [of "\<lambda>p. snd p mod W" clk0 ps] unfolding clk'_def
    by (simp_all add: clk0_def base_def ltntstools_clock_establish_wallclock_def ltntstools_clock_establish_timebase_def)
  have tt: "monotonicTime_ticks clk' - establishedTime_ticks clk' = t - t0" using f fr by (simp add: follows_def)
  have "t0 \<le> t" unfolding t_def by (rule steady_last [OF assms(6)])
  then have "int64_range elapsed \<and> \<bar>d\<bar> < 2 ^ 62 \<and> \<bar>drift_us_hwm clk\<bar> < 2 ^ 62 \<and> \<bar>drift_us_lwm clk\<bar> < 2 ^ 62
       \<longrightarrow> map_option snd (ltntstools_clock_get_drift_us now clk')
             = (if (t - t0) * 1000000 < 2 ^ 63 then Some d else None)"
    using drift_us_eq [OF fr(4), of now, unfolded tt fr(1,3) wm, OF assms(1), folded elapsed_def, folded d_def] by simp
  then show ?thesis
    using run f tt
    by (simp add: follows_def ltntstools_clock_get_monotonic_ticks_def ltntstools_clock_get_ticks_def
        ltntstools_clock_get_wrap_occurences_def ltntstools_clock_get_backward_jump_under_500ms_count_def)
qed

theorem clock_follows_timeline_witness:
  "\<exists>clk'. mem_fold (\<lambda>p. set_ticks_mem (fst p) (snd p mod MAX_PTS_VALUE))
       [(\<lparr>tv_sec = 2, tv_usec = 0\<rparr>, MAX_PTS_VALUE + 89900)]
       (ltntstools_clock_establish_wallclock \<lparr>tv_sec = 1, tv_usec = 0\<rparr>
         (ltntstools_clock_establish_timebase clock_zero 90000) (MAX_PTS_VALUE - 100)) = Some clk'
     \<and> ltntstools_clock_get_wrap_occurences clk' = 1
     \<and> map_option snd (ltntstools_clock_get_drift_us \<lparr>tv_sec = 2, tv_usec = 500\<rparr> clk') = Some (-500)"
  using clock_follows_timeline [of 90000 clock_zero "MAX_PTS_VALUE - 100"
      "[(\<lparr>tv_sec = 2, tv_usec = 0\<rparr>, MAX_PTS_VALUE + 89900)]"
      "\<lparr>tv_sec = 1, tv_usec = 0\<rparr>" "\<lparr>tv_sec = 2, tv_usec = 500\<rparr>"]
  by (fastforce simp: ltntstools_clock_establish_timebase_def MAX_PTS_VALUE_def clock_zero_def int64_range_def
      ltn_timeval_subtract_us_def ltn_timeval_to_us_def simp del: mem_fold.simps)

text \<open>The extremes of the drift enclose every drift reported.\<close>

lemma drift_watermarks:
  assumes "ltntstools_clock_get_drift_us now clk = Some (clk', d)" "establishedWT clk"
  shows "drift_us_lwm clk' \<le> d" "d \<le> drift_us_hwm clk'"
    "drift_us_lwm clk' \<le> drift_us_lwm clk" "drift_us_hwm clk \<le> drift_us_hwm clk'"
    "drift_us_max clk' = drift_us_hwm clk' - drift_us_lwm clk'"
  using assms by (auto simp: ltntstools_clock_get_drift_us_def Let_def bind_eq_Some_conv i64_Some split: if_splits)

subsection \<open>Extending 33-bit timestamps\<close>

lemma uint_ring_difference:
  "uint (((word_of_int a AND mask 33) - (word_of_int b AND mask 33)) AND mask 33 :: u64) = (a - b) mod 2 ^ 33"
proof -
  have u: "take_bit 33 (uint (word_of_int x :: u64)) = take_bit 33 x" for x
    by (simp add: unsigned_of_int)
  have "uint (take_bit 33 (take_bit 33 (word_of_int a) - take_bit 33 (word_of_int b)) :: u64)
      = take_bit 33 (uint (word_of_int a :: u64) - uint (word_of_int b :: u64))"
    by (simp add: unsigned_take_bit_eq uint_word_arith_bintrs take_bit_diff)
  also have "\<dots> = take_bit 33 (a - b)"
    using take_bit_diff [of 33 "uint (word_of_int a :: u64)" "uint (word_of_int b :: u64)"]
      take_bit_diff [of 33 a b] by (simp only: u)
  finally show ?thesis by (simp only: take_bit_eq_mask [symmetric]) (simp only: take_bit_eq_mod)
qed

text \<open>The state of a corrected clock at time \<open>t\<close> whose highest time so far was \<open>m\<close>.\<close>

definition corrected_at :: "int \<Rightarrow> int \<Rightarrow> ltntstools_corrected_clock_s \<Rightarrow> bool" where
  "corrected_at t m ctx \<longleftrightarrow>
     initialized ctx \<and> clk_mask ctx = mask 33 \<and> clk_half ctx = 2 ^ 32 \<and> clk_mod ctx = 2 ^ 33
     \<and> lastTickValue ctx = word_of_int t AND mask 33 \<and> unwrapped ctx = t \<and> correctedClk ctx = word_of_int m"

lemma signed_delta_eq:
  assumes "corrected_at t m ctx"
  shows "pts33_signed_delta ctx (word_of_int t' AND mask 33) (lastTickValue ctx)
    = (let d = (t' - t) mod 2 ^ 33 in if d < 2 ^ 32 then d else d - 2 ^ 33)"
proof -
  define diff :: u64 where "diff = ((word_of_int t' AND mask 33) - (word_of_int t AND mask 33)) AND mask 33"
  have u: "uint diff = (t' - t) mod 2 ^ 33" unfolding diff_def by (rule uint_ring_difference)
  then have lt: "uint diff < 2 ^ 33" by simp
  have "diff AND 2 ^ 32 \<noteq> 0 \<longleftrightarrow> bit diff 32"
    by (simp only: and_exp_eq_0_iff_not_bit not_not)
  also have "\<dots> \<longleftrightarrow> bit (uint diff) 32" by (simp add: bit_uint_iff)
  also have "\<dots> \<longleftrightarrow> \<not> uint diff < 2 ^ 32" 
  proof -
    have "uint diff div 4294967296 = (if uint diff < 4294967296 then 0 else 1)"
      using lt uint_ge_0 [of diff] by (cases "uint diff < 4294967296") simp_all
    then show ?thesis by (simp add: bit_iff_odd)
  qed
  finally have h: "diff AND 2 ^ 32 \<noteq> 0 \<longleftrightarrow> \<not> uint diff < 2 ^ 32" .
  have s: "sint diff = uint diff" 
  proof -
    have "- (2 ^ 63) \<le> uint diff" by (rule order_trans [OF _ uint_ge_0]) simp
    then show ?thesis using lt by (simp add: sint_uint signed_take_bit_int_eq_self)
  qed
  have f: "clk_mask ctx = mask 33" "clk_half ctx = 2 ^ 32" "clk_mod ctx = 2 ^ 33"
      "lastTickValue ctx = word_of_int t AND mask 33"
    using assms by (simp_all only: corrected_at_def)
  have "pts33_signed_delta ctx (word_of_int t' AND mask 33) (lastTickValue ctx)
      = (if diff AND 2 ^ 32 \<noteq> 0 then sint diff - sint (2 ^ 33 :: u64) else sint diff)"
    by (simp only: pts33_signed_delta_def Let_def f diff_def and.assoc and.idem)
  moreover have "sint (2 ^ 33 :: u64) = 2 ^ 33" by simp
  ultimately show ?thesis by (simp only: h s u Let_def if_not_P split: if_split) simp
qed


lemma signed_delta_near:
  assumes "corrected_at t m ctx" and "- (2 ^ 32) \<le> t' - t" "t' - t < 2 ^ 32"
  shows "pts33_signed_delta ctx (word_of_int t' AND mask 33) (lastTickValue ctx) = t' - t"
proof (cases "0 \<le> t' - t")
  case True
  then show ?thesis using assms(3) by (simp add: signed_delta_eq [OF assms(1)] mod_pos_pos_trivial)
next
  case False
  then have "(t' - t) mod 2 ^ 33 = t' - t + 2 ^ 33"
    using assms(2) by (intro mod_pos_pos_trivial [THEN trans [OF mod_add_self2 [symmetric]]]) simp_all
  then show ?thesis using assms(2) by (simp add: signed_delta_eq [OF assms(1)])
qed

text \<open>One update: the jitter allowance makes no difference, the corrected clock takes the maximum.\<close>

lemma corrected_update_step:
  assumes "corrected_at t m ctx" and "- (2 ^ 32) \<le> t' - t" "t' - t < 2 ^ 32"
    and "0 \<le> t'" "t' < 2 ^ 63" "0 \<le> m" "m < 2 ^ 63"
  shows "\<exists>ctx'. ltntstools_corrected_clock_update (Some ctx) (t' mod 2 ^ 33) = (Some ctx', 0)
    \<and> corrected_at t' (max m t') ctx'"
proof -
  have w: "(word_of_int (t' mod 2 ^ 33) AND mask 33 :: u64) = word_of_int t' AND mask 33"
    by (simp only: take_bit_eq_mask [symmetric] take_bit_eq_mod [symmetric] of_int_take_bit [symmetric])
      (simp add: take_bit_take_bit flip: take_bit_eq_mod take_bit_of_int)
  have s: "sint (word_of_int m :: u64) = m"
    using assms(6,7) by (simp add: signed_of_int signed_take_bit_int_eq_self)
  have l: "(word_of_int m :: u64) < word_of_int t' \<longleftrightarrow> m < t'"
    using assms(4-7) by (simp add: word_less_def unsigned_of_int take_bit_int_eq_self)
  have f: "initialized ctx" "clk_mask ctx = mask 33" "unwrapped ctx = t" "correctedClk ctx = word_of_int m"
    using assms(1) by (simp_all add: corrected_at_def)
  show ?thesis
    unfolding ltntstools_corrected_clock_update_def Let_def option.case f w signed_delta_near [OF assms(1-3)]
    using assms(1,4) s l
    by (auto simp: f corrected_at_def JITTER_MAX_def max_def)
qed

lemma corrected_init_at: "corrected_at 0 0 (fst (ltntstools_corrected_clock_init ctx 90000))"
  by (simp add: ltntstools_corrected_clock_init_def Let_def corrected_at_def mask_eq_exp_minus_1
      push_bit_eq_mult)

lemma corrected_first_update:
  assumes "0 \<le> t0" "t0 < 2 ^ 33"
  shows "\<exists>ctx'. ltntstools_corrected_clock_update (Some (fst (ltntstools_corrected_clock_init ctx 90000))) (t0 mod 2 ^ 33)
      = (Some ctx', if t0 < 2 ^ 32 then 0 else -1) \<and> corrected_at t0 t0 ctx'"
proof (cases "t0 < 2 ^ 32")
  case True
  then show ?thesis
    using corrected_update_step [OF corrected_init_at [of ctx], of t0] assms(1) by (simp add: max_def)
next
  case False
  define c where "c = fst (ltntstools_corrected_clock_init ctx 90000)"
  have at: "corrected_at 0 0 c" unfolding c_def by (rule corrected_init_at)
  have m: "t0 mod 2 ^ 33 = t0" using assms by (simp add: mod_pos_pos_trivial)
  have d: "pts33_signed_delta c (word_of_int t0 AND mask 33) (lastTickValue c) = t0 - 2 ^ 33"
    using False m by (simp add: signed_delta_eq [OF at])
  have s: "sint (word_of_int t0 AND mask 33 :: u64) = t0"
    using assms by (simp flip: take_bit_eq_mask
        add: take_bit_of_int signed_of_int take_bit_int_eq_self signed_take_bit_int_eq_self)
  have w: "(word_of_int t0 AND mask 33 :: u64) = word_of_int t0"
    using assms by (simp flip: take_bit_eq_mask add: take_bit_of_int take_bit_int_eq_self)
  have f: "initialized c" "clk_mask c = mask 33" "unwrapped c = 0" using at by (simp_all add: corrected_at_def)
  show ?thesis
    unfolding c_def [symmetric] ltntstools_corrected_clock_update_def Let_def option.case m f d
    using at assms False s w by (auto simp: f corrected_at_def)
qed

text \<open>A timeline whose neighbours are less than half the range of the 33-bit timestamps apart.\<close>

fun near :: "int \<Rightarrow> int list \<Rightarrow> bool" where
  "near t [] \<longleftrightarrow> True"
| "near t (t' # ts) \<longleftrightarrow>
     0 \<le> t' \<and> t' < 2 ^ 63 \<and> - (2 ^ 32) \<le> t' - t \<and> t' - t < 2 ^ 32 \<and> near t' ts"

lemma corrected_updates:
  assumes "corrected_at t m ctx" "near t ts" "0 \<le> m" "m < 2 ^ 63"
  shows "\<exists>ctx'. foldl (\<lambda>c t. fst (ltntstools_corrected_clock_update c (t mod 2 ^ 33))) (Some ctx) ts = Some ctx'
    \<and> corrected_at (last (t # ts)) (fold max ts m) ctx'"
  using assms
proof (induction ts arbitrary: t m ctx)
  case (Cons t' ts)
  then obtain ctx1 where "ltntstools_corrected_clock_update (Some ctx) (t' mod 2 ^ 33) = (Some ctx1, 0)"
      and at: "corrected_at t' (max m t') ctx1"
    using corrected_update_step [OF Cons.prems(1), of t'] by auto
  then show ?case using Cons.IH [OF at] Cons.prems by (simp add: max.commute)
qed simp

text \<open>
  C30: Fed the 33-bit timestamps of a timeline whose neighbours are less than half the range
  apart, forwards or backwards, a corrected clock reports the true 64-bit time at every point,
  across any number of wraps, and its monotonic reading is the greatest time seen. The first
  update returns -1 when its timestamp is in the upper half of the range.
\<close>

theorem corrected_clock_follows_timeline:
  assumes "0 \<le> t0" "t0 < 2 ^ 33" and "near t0 ts"
  shows "\<exists>ctx'. foldl (\<lambda>c t. fst (ltntstools_corrected_clock_update c (t mod 2 ^ 33)))
        (Some (fst (ltntstools_corrected_clock_init ctx 90000))) (t0 # ts) = Some ctx'
    \<and> ltntstools_corrected_clock_unwrapped (Some ctx') = word_of_int (last (t0 # ts))
    \<and> unwrapped ctx' = last (t0 # ts)
    \<and> correctedClk ctx' = word_of_int (Max (set (t0 # ts)))
    \<and> snd (ltntstools_corrected_clock_update (Some (fst (ltntstools_corrected_clock_init ctx 90000))) (t0 mod 2 ^ 33))
        = (if t0 < 2 ^ 32 then 0 else -1)"
proof -
  obtain c1 where one: "ltntstools_corrected_clock_update (Some (fst (ltntstools_corrected_clock_init ctx 90000))) (t0 mod 2 ^ 33)
      = (Some c1, if t0 < 2 ^ 32 then 0 else -1)" and at: "corrected_at t0 t0 c1"
    using corrected_first_update [OF assms(1,2)] by blast
  obtain c2 where two: "foldl (\<lambda>c t. fst (ltntstools_corrected_clock_update c (t mod 2 ^ 33))) (Some c1) ts = Some c2"
    and at2: "corrected_at (last (t0 # ts)) (fold max ts t0) c2"
    using corrected_updates [OF at assms(3,1)] assms(2) by auto
  have "fold max ts t0 = Max (set (t0 # ts))" by (rule Max.set_eq_fold [symmetric])
  then show ?thesis
    using one two at2
    by (intro exI [of _ c2]) (simp add: corrected_at_def ltntstools_corrected_clock_unwrapped_def)
qed

definition corrected_zero :: ltntstools_corrected_clock_s where
  "corrected_zero = \<lparr>initialized = False, clkMaxTicks = 0, lastTickValue = 0, unwrapped = 0,
     correctedClk = 0, clk_bits = 0, clk_mod = 0, clk_mask = 0, clk_half = 0\<rparr>"

theorem corrected_clock_follows_timeline_witness:
  "\<exists>ctx'. foldl (\<lambda>c t. fst (ltntstools_corrected_clock_update c (t mod 2 ^ 33)))
        (Some (fst (ltntstools_corrected_clock_init corrected_zero 90000))) [8589934000, 8589937000, 8589934591] = Some ctx'
    \<and> unwrapped ctx' = 8589934591 \<and> correctedClk ctx' = 8589937000"
  using corrected_clock_follows_timeline [of 8589934000 "[8589937000, 8589934591]" corrected_zero] by auto

subsection \<open>Timestamps as text\<close>

lemma length_printf_4: "1000 \<le> x \<Longrightarrow> x < 10000 \<Longrightarrow> length (printf_d 4 x) = 4"
proof -
  assume x: "1000 \<le> x" "x < 10000"
  then have "length (decimal_digits (nat x)) = 4"
    by (subst decimal_digits.simps) (simp add: length_decimal_digits(3) nat_less_iff le_nat_iff)
  then show ?thesis using x by (simp add: printf_d_def)
qed

definition valid_tm :: "tm \<Rightarrow> bool" where
  "valid_tm t \<longleftrightarrow> 1000 \<le> tm_year t + 1900 \<and> tm_year t + 1900 < 10000 \<and> 0 \<le> tm_mon t \<and> tm_mon t < 12
     \<and> 0 \<le> tm_mday t \<and> tm_mday t < 32 \<and> 0 \<le> tm_hour t \<and> tm_hour t < 24
     \<and> 0 \<le> tm_min t \<and> tm_min t < 60 \<and> 0 \<le> tm_sec t \<and> tm_sec t < 61"

text \<open>
  For every valid broken-down time, the compact timestamp fits the sixteen bytes that its
  length check asks for. The separated timestamp has the same check but needs twenty bytes:
  with a buffer of sixteen to nineteen bytes it writes past the end.
\<close>

theorem getTimestamp_bounds:
  assumes "valid_tm t" and "16 \<le> buflen"
  shows "(\<exists>s. libltntstools_getTimestamp buflen t = Some (0, s) \<and> length s = 15)
    \<and> (libltntstools_getTimestamp_seperated buflen t = None \<longleftrightarrow> buflen < 20)"
  using assms
  by (simp add: libltntstools_getTimestamp_def libltntstools_getTimestamp_seperated_def store_string_def
      valid_tm_def length_printf_4 length_printf_d)

theorem getTimestamp_bounds_witness:
  "libltntstools_getTimestamp_seperated 16
     \<lparr>tm_year = 124, tm_mon = 0, tm_mday = 1, tm_hour = 0, tm_min = 0, tm_sec = 0\<rparr> = None"
  using getTimestamp_bounds [of "\<lparr>tm_year = 124, tm_mon = 0, tm_mday = 1, tm_hour = 0, tm_min = 0, tm_sec = 0\<rparr>" 16]
  by (simp add: valid_tm_def)

lemma timespec_diff_ms_eq:
  assumes "0 \<le> ts_nsec a" "ts_nsec a < 1000000000" "0 \<le> ts_nsec b" "ts_nsec b < 1000000000"
  shows "libltntstools_timespec_diff_ms a b =
    to_int32 (((ts_sec a - ts_sec b) * 1000000000 + (ts_nsec a - ts_nsec b)) div 1000000)"
proof -
  define s where "s = ts_sec a - ts_sec b" define n where "n = ts_nsec a - ts_nsec b"
  have "(s * 1000000000 + n) div 1000000 = s * 1000 + n div 1000000" by simp
  moreover have "(n + 1000000000) div 1000000 = n div 1000000 + 1000" by simp
  moreover have "- 1000000000 < n" using assms by (simp add: n_def)
  ultimately show ?thesis
    unfolding libltntstools_timespec_diff_ms_def Let_def s_def [symmetric] n_def [symmetric]
    by (cases "n < 0") (simp_all add: distrib_left left_diff_distrib)
qed

end
