(* ===== verification/Histogram.thy ===== *)
theory Histogram
  imports Clocks
begin

text \<open>
  The histogram of \<open>src/src/libltntstools/histogram.h\<close>: one bucket per millisecond between a
  least and a greatest value.

  Values are \<open>nat\<close>: those the code keeps in \<open>uint32_t\<close> are reduced modulo \<open>2 ^ 32\<close>, and the
  bucket address is computed in \<open>uint64_t\<close> as the code does. The counters are \<open>nat\<close>, since
  they count calls. \<open>gettimeofday\<close> is an argument. A bucket outside the array is \<open>None\<close>. The
  printing functions produce text from floating point percentages and are not modelled, except
  for the regrouping of the buckets that the summary prints.
\<close>

unbundle bit_operations_syntax

subsection \<open>State and operations\<close>

record ltn_histogram_bucket_s =
  bcount :: nat
  lastUpdate :: timeval

record ltn_histogram_s =
  hname :: string
  minValMs :: nat
  maxValMs :: nat
  bucketMissCount :: nat
  bucketCount :: nat
  buckets :: "ltn_histogram_bucket_s list"
  intervalLast :: timeval
  cumulativeMs :: nat
  cumulativeLast :: timeval
  sampleMs :: nat
  sampleLast :: timeval
  totalCount :: nat

definition timeval_zero :: timeval where
  "timeval_zero = \<lparr>tv_sec = 0, tv_usec = 0\<rparr>"

definition bucket_zero :: ltn_histogram_bucket_s where
  "bucket_zero = \<lparr>bcount = 0, lastUpdate = timeval_zero\<rparr>"

definition compareTime :: "timeval \<Rightarrow> timeval \<Rightarrow> int" where
  "compareTime t1 t2 =
     (if tv_sec t1 > tv_sec t2 then 1
      else if tv_sec t1 < tv_sec t2 then -1
      else if tv_usec t1 > tv_usec t2 then 1
      else if tv_usec t1 < tv_usec t2 then -1
      else 0)"

text \<open>The index of a bucket: \<open>ms\<close> is a \<open>uint32_t\<close>, the subtraction is one of \<open>uint64_t\<close>.\<close>

definition ltn_histogram_bucket :: "ltn_histogram_s \<Rightarrow> nat \<Rightarrow> nat" where
  "ltn_histogram_bucket ctx ms =
     nat ((int (ms mod 2 ^ 32) - int (minValMs ctx)) mod 2 ^ 64)"

definition ltn_histogram_reset :: "timeval \<Rightarrow> ltn_histogram_s \<Rightarrow> ltn_histogram_s" where
  "ltn_histogram_reset now ctx =
     ctx\<lparr>buckets := replicate (bucketCount ctx) bucket_zero, intervalLast := now,
         bucketMissCount := 0, cumulativeMs := 0, totalCount := 0\<rparr>"

text \<open>
  \<open>name\<close> is \<open>None\<close> for \<open>NULL\<close>; the structure takes 288 bytes and a bucket 24. The result is
  \<open>None\<close> for the return code -1. \<open>strncpy\<close> keeps 128 characters.
\<close>

definition ltn_histogram_alloc ::
  "allocator \<Rightarrow> timeval \<Rightarrow> string option \<Rightarrow> nat \<Rightarrow> nat \<Rightarrow> ltn_histogram_s option" where
  "ltn_histogram_alloc alloc now name minMs maxMs =
     (if minMs = maxMs then None
      else if maxMs < minMs then None
      else if maxMs = 0 then None
      else case name of None \<Rightarrow> None | Some n \<Rightarrow>
           if maxMs - minMs > (2 ^ 32 - 1) - 1 then None
           else if \<not> alloc 288 then None
           else if \<not> alloc ((maxMs - minMs + 1) * 24) then None
           else Some (ltn_histogram_reset now
                  \<lparr>hname = take 128 n, minValMs = minMs, maxValMs = maxMs, bucketMissCount = 0,
                   bucketCount = maxMs - minMs + 1, buckets = replicate (maxMs - minMs + 1) bucket_zero,
                   intervalLast = now, cumulativeMs = 0, cumulativeLast = timeval_zero,
                   sampleMs = 0, sampleLast = timeval_zero, totalCount = 0\<rparr>))"

definition ltn_histogram_alloc_video_defaults ::
  "allocator \<Rightarrow> timeval \<Rightarrow> string option \<Rightarrow> ltn_histogram_s option" where
  "ltn_histogram_alloc_video_defaults alloc now name = ltn_histogram_alloc alloc now name 0 (16 * 1000)"

text \<open>A measurement that is in range: the bucket it falls into is stamped and counted.\<close>

definition histogram_count :: "timeval \<Rightarrow> ltn_histogram_s \<Rightarrow> nat \<Rightarrow> ltn_histogram_s mem" where
  "histogram_count now ctx ms =
     do { b \<leftarrow> rd (buckets ctx) (ltn_histogram_bucket ctx ms);
          Some (ctx\<lparr>buckets := (buckets ctx)[ltn_histogram_bucket ctx ms :=
                                 b\<lparr>lastUpdate := now, bcount := bcount b + 1\<rparr>],
                    totalCount := totalCount ctx + 1\<rparr>) }"

definition ltn_histogram_interval_update_with_value ::
  "timeval \<Rightarrow> ltn_histogram_s \<Rightarrow> nat \<Rightarrow> (ltn_histogram_s \<times> int) mem" where
  "ltn_histogram_interval_update_with_value now ctx diffMs =
     (if diffMs < minValMs ctx \<or> diffMs > maxValMs ctx
      then Some (ctx\<lparr>bucketMissCount := bucketMissCount ctx + 1\<rparr>, -1)
      else do { ctx \<leftarrow> histogram_count now ctx diffMs; Some (ctx, to_int32 (int diffMs)) })"

text \<open>The difference of the timestamps is truncated to \<open>uint32_t\<close>.\<close>

definition ltn_histogram_interval_update ::
  "ltn_histogram_s \<Rightarrow> timeval \<Rightarrow> (ltn_histogram_s \<times> int) mem" where
  "ltn_histogram_interval_update ctx timestamp =
     (let diffMs = nat (ltn_timeval_subtract_ms timestamp (intervalLast ctx) mod 2 ^ 32);
          ctx = ctx\<lparr>intervalLast := timestamp\<rparr>
      in if diffMs < minValMs ctx \<or> diffMs > maxValMs ctx
         then Some (ctx\<lparr>bucketMissCount := bucketMissCount ctx + 1\<rparr>, -1)
         else do { ctx \<leftarrow> histogram_count timestamp ctx diffMs; Some (ctx, to_int32 (int diffMs)) })"

definition ltn_histogram_cumulative_initialize :: "ltn_histogram_s \<Rightarrow> ltn_histogram_s" where
  "ltn_histogram_cumulative_initialize ctx = ctx\<lparr>cumulativeMs := 0\<rparr>"

definition ltn_histogram_cumulative_begin :: "timeval \<Rightarrow> ltn_histogram_s \<Rightarrow> ltn_histogram_s" where
  "ltn_histogram_cumulative_begin now ctx = ctx\<lparr>cumulativeLast := now\<rparr>"

definition ltn_histogram_cumulative_end :: "timeval \<Rightarrow> ltn_histogram_s \<Rightarrow> ltn_histogram_s \<times> nat" where
  "ltn_histogram_cumulative_end now ctx =
     (let val = nat (ltn_timeval_subtract_ms now (cumulativeLast ctx) mod 2 ^ 64)
      in (ctx\<lparr>cumulativeMs := (cumulativeMs ctx + val) mod 2 ^ 64\<rparr>, val))"

definition ltn_histogram_cumulative_finalize :: "timeval \<Rightarrow> ltn_histogram_s \<Rightarrow> (ltn_histogram_s \<times> nat) mem" where
  "ltn_histogram_cumulative_finalize now ctx =
     (if cumulativeMs ctx < minValMs ctx \<or> cumulativeMs ctx > maxValMs ctx
      then Some (ctx\<lparr>bucketMissCount := bucketMissCount ctx + 1\<rparr>, cumulativeMs ctx)
      else do { ctx \<leftarrow> histogram_count now ctx (cumulativeMs ctx); Some (ctx, cumulativeMs ctx) })"

definition ltn_histogram_sample_begin :: "timeval \<Rightarrow> ltn_histogram_s \<Rightarrow> ltn_histogram_s" where
  "ltn_histogram_sample_begin now ctx = ctx\<lparr>sampleLast := now\<rparr>"

definition ltn_histogram_sample_end :: "timeval \<Rightarrow> timeval \<Rightarrow> ltn_histogram_s \<Rightarrow> (ltn_histogram_s \<times> nat) mem" where
  "ltn_histogram_sample_end now now' ctx =
     (let ctx = ctx\<lparr>sampleMs := nat (ltn_timeval_subtract_ms now (sampleLast ctx) mod 2 ^ 64)\<rparr>
      in if sampleMs ctx < minValMs ctx \<or> sampleMs ctx > maxValMs ctx
         then Some (ctx\<lparr>bucketMissCount := bucketMissCount ctx + 1\<rparr>, sampleMs ctx)
         else do { ctx \<leftarrow> histogram_count now' ctx (sampleMs ctx); Some (ctx, sampleMs ctx) })"

text \<open>
  The summary: \<open>h\<close> is a second histogram of the same range whose bucket at the end of each
  group of \<open>bucketSizeMs\<close> milliseconds collects the group. First the inner loop over the
  \<open>n\<close> milliseconds from \<open>j\<close> on, then the outer one; \<open>bucketSizeMs\<close> is not zero there.
\<close>

fun summary_inner :: "ltn_histogram_s \<Rightarrow> nat \<Rightarrow> ltn_histogram_s \<Rightarrow> nat \<Rightarrow> nat \<Rightarrow> ltn_histogram_s mem" where
  "summary_inner ctx d h j 0 = Some h"
| "summary_inner ctx d h j (Suc n) =
     do { src \<leftarrow> rd (buckets ctx) (ltn_histogram_bucket ctx j);
          dst \<leftarrow> rd (buckets h) d;
          let dst = dst\<lparr>bcount := bcount dst + bcount src\<rparr>;
          let dst = (if compareTime (lastUpdate src) (lastUpdate dst) > 0
                     then dst\<lparr>lastUpdate := lastUpdate src\<rparr> else dst);
          summary_inner ctx d (h\<lparr>buckets := (buckets h)[d := dst]\<rparr>) (Suc j) n }"

definition summary_bucketMax :: "ltn_histogram_s \<Rightarrow> nat \<Rightarrow> nat \<Rightarrow> nat" where
  "summary_bucketMax ctx bucketSizeMs i =
     (let bucketMax = (i + bucketSizeMs - 1) mod 2 ^ 64
      in if bucketMax < i \<or> bucketMax > maxValMs ctx then maxValMs ctx else bucketMax)"

function summary_outer :: "ltn_histogram_s \<Rightarrow> nat \<Rightarrow> ltn_histogram_s \<Rightarrow> nat \<Rightarrow> ltn_histogram_s mem" where
  "summary_outer ctx bucketSizeMs h i =
     (if bucketSizeMs = 0 \<or> maxValMs ctx < i then Some h else
      do { let bucketMax = summary_bucketMax ctx bucketSizeMs i;
           h \<leftarrow> summary_inner ctx (ltn_histogram_bucket h bucketMax) h i (bucketMax + 1 - i);
           if maxValMs ctx - i < bucketSizeMs then Some h
           else summary_outer ctx bucketSizeMs h (i + bucketSizeMs) })"
  by pat_completeness auto
termination summary_outer
  by (relation "measure (\<lambda>(ctx, size, h, i). Suc (maxValMs ctx) - i)") auto

text \<open>\<open>Some None\<close> is the early return: a bucket size of zero, or no memory.\<close>

definition ltn_histogram_summary ::
  "allocator \<Rightarrow> timeval \<Rightarrow> ltn_histogram_s \<Rightarrow> string \<Rightarrow> nat \<Rightarrow> ltn_histogram_s option mem" where
  "ltn_histogram_summary alloc now ctx name bucketSizeMs =
     (if bucketSizeMs = 0 then Some None else
      case ltn_histogram_alloc alloc now (Some name) (minValMs ctx) (maxValMs ctx) of
        None \<Rightarrow> Some None
      | Some h \<Rightarrow>
          do { h \<leftarrow> summary_outer ctx bucketSizeMs h (minValMs ctx);
               Some (Some (h\<lparr>bucketMissCount := bucketMissCount ctx, totalCount := totalCount ctx\<rparr>)) })"

declare summary_outer.simps [simp del]

subsection \<open>The buckets of a well-formed histogram\<close>

text \<open>
  The greatest value must fit \<open>uint32_t\<close>: the allocation only bounds the number of buckets,
  and the bucket address is computed from a 32-bit value.
\<close>

definition hist_inv :: "ltn_histogram_s \<Rightarrow> bool" where
  "hist_inv ctx \<longleftrightarrow> minValMs ctx < maxValMs ctx \<and> maxValMs ctx < 2 ^ 32
     \<and> maxValMs ctx - minValMs ctx \<le> (2 ^ 32 - 1) - 1
     \<and> bucketCount ctx = maxValMs ctx - minValMs ctx + 1 \<and> length (buckets ctx) = bucketCount ctx
     \<and> totalCount ctx = sum_list (map bcount (buckets ctx))"

abbreviation in_range :: "ltn_histogram_s \<Rightarrow> nat \<Rightarrow> bool" where
  "in_range ctx ms \<equiv> minValMs ctx \<le> ms \<and> ms \<le> maxValMs ctx"

lemma bucket_index:
  assumes "maxValMs ctx < 2 ^ 32" "in_range ctx ms"
  shows "ltn_histogram_bucket ctx ms = ms - minValMs ctx"
proof -
  have "ms mod 2 ^ 32 = ms" using assms by simp
  moreover have "(int ms - int (minValMs ctx)) mod 2 ^ 64 = int ms - int (minValMs ctx)"
    using assms by (intro mod_pos_pos_trivial) auto
  ultimately show ?thesis using assms by (simp add: ltn_histogram_bucket_def)
qed

lemma sum_list_bump:
  "k < length xs \<Longrightarrow> sum_list (map bcount (xs[k := b])) + bcount (xs ! k) = sum_list (map bcount xs) + bcount b"
proof (induction xs arbitrary: k)
  case (Cons x xs)
  then show ?case by (cases k) simp_all
qed simp

text \<open>\<open>h'\<close> is \<open>h\<close> with one more measurement of \<open>ms\<close> milliseconds in its bucket.\<close>

definition counted :: "ltn_histogram_s \<Rightarrow> nat \<Rightarrow> ltn_histogram_s \<Rightarrow> bool" where
  "counted h ms h' \<longleftrightarrow> hist_inv h' \<and> minValMs h' = minValMs h \<and> maxValMs h' = maxValMs h
     \<and> bucketMissCount h' = bucketMissCount h \<and> totalCount h' = totalCount h + 1
     \<and> map bcount (buckets h')
         = (map bcount (buckets h))[ms - minValMs h := map bcount (buckets h) ! (ms - minValMs h) + 1]"

lemma histogram_count_ok:
  assumes "hist_inv ctx" "in_range ctx ms"
  shows "mem_ok (histogram_count now ctx ms) (counted ctx ms)"
proof -
  let ?k = "ms - minValMs ctx" let ?b = "buckets ctx ! ?k"
  have i: "ltn_histogram_bucket ctx ms = ?k" and k: "?k < length (buckets ctx)"
    using assms by (auto simp: hist_inv_def bucket_index)
  show ?thesis
    using assms(1) k sum_list_bump [OF k, of "?b\<lparr>lastUpdate := now, bcount := bcount ?b + 1\<rparr>"]
    by (simp add: histogram_count_def i counted_def hist_inv_def map_update)
qed

lemma alloc_inv:
  assumes "ltn_histogram_alloc alloc now name minMs maxMs = Some h" and "maxMs < 2 ^ 32"
  shows "hist_inv h" "minValMs h = minMs" "maxValMs h = maxMs" "bucketMissCount h = 0" "totalCount h = 0"
    "map bcount (buckets h) = replicate (maxMs - minMs + 1) 0"
  using assms by (auto simp: ltn_histogram_alloc_def ltn_histogram_reset_def hist_inv_def bucket_zero_def
      sum_list_replicate split: if_splits option.splits)

subsection \<open>Recording measurements\<close>

text \<open>
  What a client of a histogram relies on: an update of a well-formed histogram is defined, keeps
  it well-formed, and accounts for exactly one measurement.
\<close>

locale recorder =
  fixes upd :: "'h \<Rightarrow> 'v \<Rightarrow> ('h \<times> int) mem"
    and wf :: "'h \<Rightarrow> bool"
    and accounted :: "'h \<Rightarrow> nat"
  assumes upd_ok: "wf h \<Longrightarrow> \<exists>h' r. upd h v = Some (h', r) \<and> wf h' \<and> accounted h' = accounted h + 1"
begin

lemma upd_mem_ok: "wf h \<Longrightarrow> mem_ok (upd h v) (\<lambda>(h', r). wf h' \<and> accounted h' = accounted h + 1)"
  using upd_ok [of h v] by (auto intro: mem_okI)

primrec upd_all :: "'h \<Rightarrow> 'v list \<Rightarrow> 'h mem" where
  "upd_all h [] = Some h"
| "upd_all h (v # vs) = do { (h, r) \<leftarrow> upd h v; upd_all h vs }"

lemma upd_all_ok: "wf h \<Longrightarrow> mem_ok (upd_all h vs) (\<lambda>h'. wf h' \<and> accounted h' = accounted h + length vs)"
proof (induction vs arbitrary: h)
  case (Cons v vs)
  then obtain h' r where "upd h v = Some (h', r)" "wf h'" "accounted h' = accounted h + 1"
    using upd_ok by blast
  then show ?case using Cons.IH [of h'] by (auto elim: mem_ok_mono)
qed simp

end

definition measurements :: "ltn_histogram_s \<Rightarrow> nat" where
  "measurements h = totalCount h + bucketMissCount h"

lemma with_value_hit:
  assumes "hist_inv h" "in_range h v"
  shows "mem_ok (ltn_histogram_interval_update_with_value now h v) (\<lambda>(h', r). counted h v h' \<and> r = to_int32 (int v))"
  using histogram_count_ok [OF assms, of now] assms(2)
  by (auto simp: ltn_histogram_interval_update_with_value_def elim: mem_ok_mono)

lemma with_value_miss:
  "\<not> in_range h v \<Longrightarrow> ltn_histogram_interval_update_with_value now h v
     = Some (h\<lparr>bucketMissCount := bucketMissCount h + 1\<rparr>, -1)"
  by (auto simp: ltn_histogram_interval_update_with_value_def)

lemma miss_inv [simp]: "hist_inv (h\<lparr>bucketMissCount := n\<rparr>) = hist_inv h"
  by (simp add: hist_inv_def)

interpretation value_recorder: recorder "ltn_histogram_interval_update_with_value now" hist_inv measurements
proof
  fix h v assume inv: "hist_inv h"
  show "\<exists>h' r. ltn_histogram_interval_update_with_value now h v = Some (h', r) \<and> hist_inv h'
      \<and> measurements h' = measurements h + 1"
  proof (cases "in_range h v")
    case True
    then show ?thesis using with_value_hit [OF inv True, of now]
      by (auto simp: mem_ok_def counted_def measurements_def)
  qed (use inv in \<open>simp add: with_value_miss measurements_def\<close>)
qed

text \<open>The interval update is the update by value after the timestamp is stored.\<close>

lemma interval_update_eq:
  "ltn_histogram_interval_update h t =
     ltn_histogram_interval_update_with_value t (h\<lparr>intervalLast := t\<rparr>)
       (nat (ltn_timeval_subtract_ms t (intervalLast h) mod 2 ^ 32))"
  by (simp add: ltn_histogram_interval_update_def ltn_histogram_interval_update_with_value_def Let_def)

interpretation interval_recorder: recorder ltn_histogram_interval_update hist_inv measurements
proof
  fix h and t :: timeval assume "hist_inv h"
  then have "hist_inv (h\<lparr>intervalLast := t\<rparr>)" by (simp add: hist_inv_def)
  from value_recorder.upd_ok [OF this] show "\<exists>h' r. ltn_histogram_interval_update h t = Some (h', r) \<and> hist_inv h'
      \<and> measurements h' = measurements h + 1"
    by (simp add: interval_update_eq measurements_def)
qed

lemma count_list_update:
  assumes "a \<le> ms" "ms \<le> b"
  shows "(map (count_list vs) [a..<Suc b])[ms - a := map (count_list vs) [a..<Suc b] ! (ms - a) + 1]
    = map (count_list (vs @ [ms])) [a..<Suc b]"
  using assms by (intro nth_equalityI) (auto simp: nth_list_update simp del: upt_Suc)

lemma count_list_other: "\<not> (a \<le> ms \<and> ms \<le> b) \<Longrightarrow>
    map (count_list (vs @ [ms])) [a..<Suc b] = map (count_list vs) [a..<Suc b]"
  by (auto simp del: upt_Suc)

lemma histogram_counts:
  assumes "hist_inv h" "minValMs h = minMs" "maxValMs h = maxMs" "bucketMissCount h = 0" "totalCount h = 0"
    and "map bcount (buckets h) = replicate (maxMs - minMs + 1) 0"
  shows "\<exists>h'. foldl (\<lambda>m v. do { h \<leftarrow> m; (h, r) \<leftarrow> ltn_histogram_interval_update_with_value now h v; Some h }) (Some h) vs
       = Some h' \<and> hist_inv h' \<and> minValMs h' = minMs \<and> maxValMs h' = maxMs
    \<and> map bcount (buckets h') = map (count_list vs) [minMs..<Suc maxMs]
    \<and> bucketMissCount h' = length (filter (\<lambda>v. \<not> (minMs \<le> v \<and> v \<le> maxMs)) vs)
    \<and> totalCount h' + bucketMissCount h' = length vs"
proof (induction vs rule: rev_induct)
  case Nil
  have "minMs < maxMs" using assms(1-3) by (simp add: hist_inv_def)
  moreover have "map (count_list []) xs = replicate (length xs) 0" for xs :: "nat list"
    by (induction xs) simp_all
  ultimately have "replicate (maxMs - minMs + 1) 0 = map (count_list []) [minMs..<Suc maxMs]"
    by (simp add: Suc_diff_le del: upt_Suc)
  then show ?case using assms by simp
next
  case (snoc v vs)
  then obtain h' where f: "foldl (\<lambda>m v. do { h \<leftarrow> m; (h, r) \<leftarrow> ltn_histogram_interval_update_with_value now h v; Some h }) (Some h) vs
       = Some h'"
    and inv: "hist_inv h'" and r: "minValMs h' = minMs" "maxValMs h' = maxMs"
    and c: "map bcount (buckets h') = map (count_list vs) [minMs..<Suc maxMs]"
    and m: "bucketMissCount h' = length (filter (\<lambda>v. \<not> (minMs \<le> v \<and> v \<le> maxMs)) vs)"
    and t: "totalCount h' + bucketMissCount h' = length vs" by blast
  show ?case
  proof (cases "in_range h' v")
    case True
    obtain h'' k where "ltn_histogram_interval_update_with_value now h' v = Some (h'', k)" and n: "counted h' v h''"
      using with_value_hit [OF inv True, of now] by (auto simp: mem_ok_def)
    moreover have "map bcount (buckets h'') = map (count_list (vs @ [v])) [minMs..<Suc maxMs]"
      using n r c count_list_update [of minMs v maxMs vs] True by (simp add: counted_def del: upt_Suc)
    ultimately show ?thesis using f True r m t n by (simp add: counted_def del: upt_Suc count_list_append)
  next
    case False
    then show ?thesis
      using f inv r c m t count_list_other [of minMs v maxMs vs]
      by (simp add: with_value_miss del: upt_Suc count_list_append)
  qed
qed

text \<open>
  A histogram of any range below \<open>2 ^ 32\<close> that is fed any measurements accounts for each of
  them: the bucket of every value in its range holds the number of times that value was
  measured, the miss counter the number of values outside the range, the total is the sum of
  the buckets, and no bucket outside the array is touched.
\<close>

theorem histogram_counts_measurements:
  assumes "ltn_histogram_alloc alloc now0 name minMs maxMs = Some h" and "maxMs < 2 ^ 32"
  shows "\<exists>h'. foldl (\<lambda>m v. do { h \<leftarrow> m; (h, r) \<leftarrow> ltn_histogram_interval_update_with_value now h v; Some h }) (Some h) vs
       = Some h'
    \<and> (\<forall>ms. minMs \<le> ms \<and> ms \<le> maxMs \<longrightarrow> bcount (buckets h' ! (ms - minMs)) = count_list vs ms)
    \<and> bucketMissCount h' = length (filter (\<lambda>v. \<not> (minMs \<le> v \<and> v \<le> maxMs)) vs)
    \<and> totalCount h' = sum_list (map bcount (buckets h'))
    \<and> totalCount h' + bucketMissCount h' = length vs"
proof -
  note a = alloc_inv [OF assms]
  obtain h' where f: "foldl (\<lambda>m v. do { h \<leftarrow> m; (h, r) \<leftarrow> ltn_histogram_interval_update_with_value now h v; Some h }) (Some h) vs
       = Some h'" and inv: "hist_inv h'" and c: "map bcount (buckets h') = map (count_list vs) [minMs..<Suc maxMs]"
    and rest: "bucketMissCount h' = length (filter (\<lambda>v. \<not> (minMs \<le> v \<and> v \<le> maxMs)) vs)"
      "totalCount h' + bucketMissCount h' = length vs"
    using histogram_counts [OF a] by blast
  have "bcount (buckets h' ! (ms - minMs)) = count_list vs ms" if "minMs \<le> ms" "ms \<le> maxMs" for ms
  proof -
    have "ms - minMs < length (map bcount (buckets h'))" using that unfolding c by (simp del: upt_Suc)
    then have "bcount (buckets h' ! (ms - minMs)) = map bcount (buckets h') ! (ms - minMs)" by simp
    also have "\<dots> = count_list vs ms" using that unfolding c by (simp del: upt_Suc)
    finally show ?thesis .
  qed
  then show ?thesis using f inv rest by (auto simp: hist_inv_def)
qed

theorem histogram_counts_measurements_witness:
  "\<exists>h h'. ltn_histogram_alloc (\<lambda>_. True) timeval_zero (Some ''t'') 0 3 = Some h
    \<and> foldl (\<lambda>m v. do { h \<leftarrow> m; (h, r) \<leftarrow> ltn_histogram_interval_update_with_value timeval_zero h v; Some h })
        (Some h) [1, 2, 7, 1] = Some h'
    \<and> bcount (buckets h' ! 1) = 2 \<and> bucketMissCount h' = 1"
proof -
  obtain h where h: "ltn_histogram_alloc (\<lambda>_. True) timeval_zero (Some ''t'') 0 3 = Some h"
    by (simp add: ltn_histogram_alloc_def)
  from histogram_counts_measurements [OF h, of timeval_zero "[1, 2, 7, 1]"] h show ?thesis by auto
qed

subsection \<open>The summary\<close>

text \<open>Groups of \<open>s\<close> counts, each collected at its last place.\<close>

function grouped :: "nat \<Rightarrow> nat list \<Rightarrow> nat list" where
  "grouped s c =
     (if s = 0 \<or> c = [] then []
      else let m = min s (length c) in replicate (m - 1) 0 @ sum_list (take m c) # grouped s (drop m c))"
  by pat_completeness auto
termination grouped
  by (relation "measure (\<lambda>(s, c). length c)") auto

declare grouped.simps [simp del]

lemma sum_list_grouped: "0 < s \<Longrightarrow> sum_list (grouped s c) = sum_list c"
proof (induction s c rule: grouped.induct)
  case (1 s c)
  show ?case
  proof (cases "c = []")
    case False
    let ?m = "min s (length c)"
    have "sum_list (grouped s c) = sum_list (take ?m c) + sum_list (drop ?m c)"
      using 1 False by (subst grouped.simps) (simp add: Let_def sum_list_replicate)
    also have "\<dots> = sum_list (take ?m c @ drop ?m c)" by (simp only: sum_list_append)
    finally show ?thesis by (simp only: append_take_drop_id)
  qed (subst grouped.simps, simp)
qed

abbreviation counts :: "ltn_histogram_s \<Rightarrow> nat list" where
  "counts h \<equiv> map bcount (buckets h)"

lemma summary_inner_ok:
  assumes "hist_inv ctx" and "minValMs ctx \<le> j" and "j + n \<le> maxValMs ctx + 1"
    and "d < length (buckets h)"
  shows "mem_ok (summary_inner ctx d h j n) (\<lambda>h'.
    counts h' = (counts h)[d := counts h ! d + sum_list (take n (drop (j - minValMs ctx) (counts ctx)))]
    \<and> minValMs h' = minValMs h \<and> maxValMs h' = maxValMs h)"
  using assms(2-)
proof (induction n arbitrary: h j)
  case 0
  then show ?case by (simp del: nth_map)
next
  case (Suc n)
  let ?k = "j - minValMs ctx"
  have k: "ltn_histogram_bucket ctx j = ?k" "?k < length (buckets ctx)"
    using assms(1) Suc.prems by (auto simp: hist_inv_def bucket_index)
  let ?src = "buckets ctx ! ?k" let ?dst = "(buckets h ! d)\<lparr>bcount := bcount (buckets h ! d) + bcount ?src\<rparr>"
  define b where "b = (if compareTime (lastUpdate ?src) (lastUpdate ?dst) > 0 then ?dst\<lparr>lastUpdate := lastUpdate ?src\<rparr> else ?dst)"
  have bc: "bcount b = counts h ! d + counts ctx ! ?k" using k Suc.prems by (simp add: b_def)
  define h1 where "h1 = h\<lparr>buckets := (buckets h)[d := b]\<rparr>"
  have h1: "counts h1 = (counts h)[d := counts h ! d + counts ctx ! ?k]" "length (buckets h1) = length (buckets h)"
    "minValMs h1 = minValMs h" "maxValMs h1 = maxValMs h"
    using bc by (simp_all add: h1_def map_update)
  have "summary_inner ctx d h j (Suc n) = summary_inner ctx d h1 (Suc j) n"
    using k Suc.prems by (simp add: Let_def b_def h1_def)
  moreover have "take (Suc n) (drop ?k (counts ctx)) = counts ctx ! ?k # take n (drop (Suc j - minValMs ctx) (counts ctx))"
    using k Suc.prems by (simp add: Cons_nth_drop_Suc [symmetric] Suc_diff_le)
  ultimately show ?case
    using Suc.IH [of "Suc j" h1] Suc.prems h1 by (auto elim!: mem_ok_mono simp: add.assoc)
qed


lemma summary_bucketMax_eq:
  assumes "hist_inv ctx" "in_range ctx i" "0 < s" "s < 2 ^ 32"
  shows "summary_bucketMax ctx s i + 1 - i = min s (maxValMs ctx + 1 - i)" "in_range ctx (summary_bucketMax ctx s i)"
    "i \<le> summary_bucketMax ctx s i"
proof -
  have "i < 2 ^ 32" using assms(1,2) by (auto simp: hist_inv_def)
  then have "i + s - 1 < 2 ^ 64" using assms(4) by simp
  then have "(i + s - 1) mod 2 ^ 64 = i + s - 1" by simp
  then have e: "summary_bucketMax ctx s i = (if i + s - 1 > maxValMs ctx then maxValMs ctx else i + s - 1)"
    using assms(3) by (auto simp: summary_bucketMax_def Let_def)
  show "summary_bucketMax ctx s i + 1 - i = min s (maxValMs ctx + 1 - i)" "in_range ctx (summary_bucketMax ctx s i)"
      "i \<le> summary_bucketMax ctx s i"
    unfolding e using assms(2,3) by auto
qed

lemma update_in_zeros:
  assumes "0 < m" "m \<le> n" "length pre = k"
  shows "(pre @ replicate n 0)[k + m - 1 := v] = (pre @ replicate (m - 1) 0 @ [v]) @ replicate (n - m) (0 :: nat)"
proof -
  have "replicate n (0 :: nat) = replicate (m - 1) 0 @ 0 # replicate (n - m) 0"
  proof -
    obtain m' where "m = Suc m'" using assms(1) by (cases m) auto
    then show ?thesis
      using assms(2) by (simp add: replicate_Suc [symmetric] replicate_add [symmetric] del: replicate_Suc)
  qed
  moreover have "\<not> k + m - 1 < k" "k + m - 1 - k = m - 1" using assms(1) by simp_all
  ultimately show ?thesis using assms(3) by (simp add: list_update_append)
qed


lemma summary_outer_ok:
  assumes "hist_inv ctx" "0 < s" "s < 2 ^ 32" and "in_range ctx i"
    and "minValMs h = minValMs ctx" "maxValMs h = maxValMs ctx"
    and "counts h = pre @ replicate (length (counts ctx) - length pre) 0" "length pre = i - minValMs ctx"
  shows "mem_ok (summary_outer ctx s h i) (\<lambda>h'. counts h' = pre @ grouped s (drop (i - minValMs ctx) (counts ctx)))"
  using assms(4-)
proof (induction "maxValMs ctx - i" arbitrary: h i pre rule: less_induct)
  case (less i h pre)
  define k where "k = i - minValMs ctx"
  define m where "m = min s (maxValMs ctx + 1 - i)"
  define v where "v = sum_list (take m (drop k (counts ctx)))"
  define bm where "bm = summary_bucketMax ctx s i"
  define pre' where "pre' = pre @ replicate (m - 1) 0 @ [v]"
  have n: "length (counts ctx) = maxValMs ctx + 1 - minValMs ctx" "maxValMs ctx < 2 ^ 32"
    using assms(1) by (auto simp: hist_inv_def)
  have m: "0 < m" "k + m \<le> length (counts ctx)" using less.prems(1) assms(2) n by (auto simp: m_def k_def)
  have bm: "bm + 1 - i = m" "in_range ctx bm" "i \<le> bm"
    using summary_bucketMax_eq [OF assms(1) less.prems(1) assms(2,3)] by (simp_all add: bm_def m_def)
  have d: "ltn_histogram_bucket h bm = k + m - 1"
    using bm less.prems(1-3) n(2) by (subst bucket_index) (auto simp: k_def)
  have lh: "length (buckets h) = length (counts ctx)"
    using arg_cong [OF less.prems(4), of length] less.prems(5) m by (simp add: k_def)
  have lk: "length pre = k" using less.prems(5) by (simp add: k_def)
  have z: "counts h ! (k + m - 1) = 0"
  proof -
    have "\<not> k + m - 1 < k" "k + m - 1 - k < length (counts ctx) - k" using m by auto
    then show ?thesis using less.prems(4) lk by (simp add: nth_append)
  qed
  have up: "(counts h)[k + m - 1 := v] = pre' @ replicate (length (counts ctx) - (k + m)) 0"
    using update_in_zeros [OF m(1) _ lk, of "length (counts ctx) - k" v] m(2) less.prems(4) lk
    by (simp add: pre'_def)
  obtain h1 where h1: "summary_inner ctx (k + m - 1) h i m = Some h1"
    and c1: "counts h1 = pre' @ replicate (length (counts ctx) - (k + m)) 0"
    and r1: "minValMs h1 = minValMs ctx" "maxValMs h1 = maxValMs ctx"
  proof -
    have "i + m \<le> maxValMs ctx + 1" "k + m - 1 < length (buckets h)" "minValMs ctx \<le> i"
      using less.prems(1) m lh n by (auto simp: k_def)
    from summary_inner_ok [OF assms(1) this(3,1,2)] show thesis
      using that less.prems(2,3) by (auto simp: mem_ok_def z up v_def [symmetric] k_def [symmetric] simp del: nth_map One_nat_def)
  qed
  have g: "grouped s (drop k (counts ctx)) = replicate (m - 1) 0 @ v # grouped s (drop (k + m) (counts ctx))"
    using m assms(2) less.prems(1) n
    by (subst grouped.simps) (auto simp: Let_def v_def m_def k_def add.commute)
  have o: "summary_outer ctx s h i =
      (if maxValMs ctx - i < s then Some h1 else summary_outer ctx s h1 (i + s))"
    using assms(2) less.prems(1) h1 d bm(1)
    by (subst summary_outer.simps) (simp add: Let_def bm_def [symmetric])
  show ?case
  proof (cases "maxValMs ctx - i < s")
    case True
    then have "k + m = length (counts ctx)" using less.prems(1) n by (auto simp: m_def k_def)
    then have "drop (k + m) (counts ctx) = []" "replicate (length (counts ctx) - (k + m)) (0::nat) = []" by simp_all
    moreover have "grouped s [] = []" by (subst grouped.simps) simp
    ultimately show ?thesis using True o c1 g by (simp add: pre'_def k_def [symmetric])
  next
    case False
    then have ms: "m = s" "in_range ctx (i + s)" using less.prems(1) by (auto simp: m_def)
    have l: "length pre' = k + s" using lk ms(1) assms(2) by (simp add: pre'_def)
    have "mem_ok (summary_outer ctx s h1 (i + s)) (\<lambda>h'. counts h' = pre' @ grouped s (drop (i + s - minValMs ctx) (counts ctx)))"
      by (rule less.hyps) (use False less.prems(1) ms r1 c1 l assms(2) in \<open>auto simp: k_def\<close>)
    moreover have "i + s - minValMs ctx = k + m" using less.prems(1) ms(1) by (simp add: k_def)
    ultimately show ?thesis using False o g by (simp add: pre'_def k_def [symmetric])
  qed
qed

text \<open>
  The summary of a histogram into groups of any size is defined for every well-formed
  histogram, holds at the end of each group the sum of the group's counts and nothing
  elsewhere, and so counts exactly as many measurements as the histogram it summarises.
\<close>

theorem histogram_summary_groups:
  assumes "hist_inv ctx" and "0 < bucketSizeMs" "bucketSizeMs < 2 ^ 32" and "\<And>n. alloc n"
  shows "\<exists>h. ltn_histogram_summary alloc now ctx name bucketSizeMs = Some (Some h)
    \<and> counts h = grouped bucketSizeMs (counts ctx)
    \<and> sum_list (counts h) = totalCount ctx
    \<and> totalCount h = totalCount ctx \<and> bucketMissCount h = bucketMissCount ctx"
proof -
  have r: "minValMs ctx < maxValMs ctx" "maxValMs ctx < 2 ^ 32" "length (counts ctx) = maxValMs ctx - minValMs ctx + 1"
    using assms(1) by (simp_all add: hist_inv_def)
  obtain h0 where h0: "ltn_histogram_alloc alloc now (Some name) (minValMs ctx) (maxValMs ctx) = Some h0"
  proof -
    have "\<not> (2 ^ 32 - 1) - 1 < maxValMs ctx - minValMs ctx" using assms(1) by (simp add: hist_inv_def)
    then show thesis using that r(1) assms(4) by (simp add: ltn_histogram_alloc_def)
  qed
  note a = alloc_inv [OF h0 r(2)]
  have "mem_ok (summary_outer ctx bucketSizeMs h0 (minValMs ctx))
      (\<lambda>h'. counts h' = [] @ grouped bucketSizeMs (drop (minValMs ctx - minValMs ctx) (counts ctx)))"
    by (rule summary_outer_ok [OF assms(1-3)]) (use r a in simp_all)
  then obtain h1 where "summary_outer ctx bucketSizeMs h0 (minValMs ctx) = Some h1"
      "counts h1 = grouped bucketSizeMs (counts ctx)" by (auto simp: mem_ok_def)
  then show ?thesis
    using assms h0 by (simp add: ltn_histogram_summary_def sum_list_grouped hist_inv_def)
qed

theorem histogram_summary_groups_witness:
  "\<exists>h h'. ltn_histogram_alloc (\<lambda>_. True) timeval_zero (Some ''t'') 0 3 = Some h \<and>
     ltn_histogram_summary (\<lambda>_. True) timeval_zero h ''s'' 2 = Some (Some h')
     \<and> sum_list (counts h') = totalCount h"
proof -
  obtain h where h: "ltn_histogram_alloc (\<lambda>_. True) timeval_zero (Some ''t'') 0 3 = Some h"
    by (simp add: ltn_histogram_alloc_def)
  from histogram_summary_groups [OF alloc_inv(1) [OF h], of 2 "\<lambda>_. True" timeval_zero "''s''"] h
  show ?thesis by auto
qed

end
