(* ===== verification/Rtp.thy ===== *)
theory Rtp
  imports Ts Histogram
begin

text \<open>
  The RTP analyzer of \<open>src/src/rtp-analyzer.c\<close>: it watches the sequence numbers, timestamps
  and payload types of a stream of RTP headers, and it finds the RTP frames in a buffer.

  The header's bit-fields are laid out as the little-endian definition of
  \<open>libltntstools/rtp-analyzer.h\<close> has them. \<open>seq\<close>, \<open>ts\<close> and \<open>ssrc\<close> hold the bytes in network
  order as the little-endian host reads them; \<open>ntohs\<close> and \<open>ntohl\<close> swap them. Event counters
  are \<open>int\<close>. \<open>gettimeofday\<close> is an argument.
\<close>

unbundle bit_operations_syntax

subsection \<open>Headers\<close>

record rtp_hdr =
  cc :: u8
  x_bit :: u8
  p_bit :: u8
  version :: u8
  pt :: u8
  m_bit :: u8
  seq :: u16
  rtp_ts :: u32
  ssrc :: u32

definition ntohs :: "u16 \<Rightarrow> u16" where
  "ntohs w = push_bit 8 w OR drop_bit 8 w"

definition ntohl :: "u32 \<Rightarrow> u32" where
  "ntohl w = push_bit 24 w OR push_bit 8 (w AND 0xff00) OR (drop_bit 8 w AND 0xff00) OR drop_bit 24 w"

definition le16 :: "bytes \<Rightarrow> nat \<Rightarrow> u16" where
  "le16 b i = ucast (b ! i) OR push_bit 8 (ucast (b ! (i + 1)))"

definition le32 :: "bytes \<Rightarrow> nat \<Rightarrow> u32" where
  "le32 b i = ucast (b ! i) OR push_bit 8 (ucast (b ! (i + 1)))
     OR push_bit 16 (ucast (b ! (i + 2))) OR push_bit 24 (ucast (b ! (i + 3)))"

text \<open>The twelve bytes at \<open>i\<close> as a \<open>struct rtp_hdr\<close>.\<close>

definition rtp_hdr_at :: "bytes \<Rightarrow> nat \<Rightarrow> rtp_hdr" where
  "rtp_hdr_at b i =
     \<lparr>cc = b ! i AND 0x0f, x_bit = drop_bit 4 (b ! i) AND 1, p_bit = drop_bit 5 (b ! i) AND 1,
      version = drop_bit 6 (b ! i), pt = b ! (i + 1) AND 0x7f, m_bit = drop_bit 7 (b ! (i + 1)),
      seq = le16 b (i + 2), rtp_ts = le32 b (i + 4), ssrc = le32 b (i + 8)\<rparr>"

subsection \<open>The analyzer\<close>

record rtp_hdr_analyzer_s =
  last_hdr :: rtp_hdr
  totalPackets :: int
  totalFrames :: int
  discontinuityEvents :: int
  emptyPacketEvents :: int
  illegalPayloadTypeEvents :: int
  illegal2110TimestampMovementEvents :: int
  illegal2110TimestampStallEvents :: int
  illegalTSTimestampMovementEvents :: int
  illegalTSTimestampStallEvents :: int
  illegalTSCounterMovementEvents :: int
  tsInterval :: ltn_histogram_s
  tsArrival :: ltn_histogram_s

definition rtp_hdr_zero :: rtp_hdr where
  "rtp_hdr_zero = \<lparr>cc = 0, x_bit = 0, p_bit = 0, version = 0, pt = 0, m_bit = 0, seq = 0, rtp_ts = 0, ssrc = 0\<rparr>"

text \<open>\<open>None\<close> is a failed histogram allocation, which the code does not check and later writes through.\<close>

definition rtp_analyzer_init :: "allocator \<Rightarrow> timeval \<Rightarrow> rtp_hdr_analyzer_s mem" where
  "rtp_analyzer_init alloc now =
     do { arrival \<leftarrow> ltn_histogram_alloc_video_defaults alloc now
                      (Some ''RTP Header - Inter-RTP-Frame Arrival Times - IAT (ms)'');
          interval \<leftarrow> ltn_histogram_alloc_video_defaults alloc now
                      (Some ''RTP Header - Clock/Timestamp Intervals 90KHz (ms)'');
          Some \<lparr>last_hdr = rtp_hdr_zero, totalPackets = 0, totalFrames = 0, discontinuityEvents = 0,
                emptyPacketEvents = 0, illegalPayloadTypeEvents = 0, illegal2110TimestampMovementEvents = 0,
                illegal2110TimestampStallEvents = 0, illegalTSTimestampMovementEvents = 0,
                illegalTSTimestampStallEvents = 0, illegalTSCounterMovementEvents = 0,
                tsInterval = interval, tsArrival = arrival\<rparr> }"

definition rtp_hdr_is_payload_type_valid :: "rtp_hdr \<Rightarrow> bool" where
  "rtp_hdr_is_payload_type_valid hdr \<longleftrightarrow> \<not> ((pt hdr < 96 \<or> pt hdr > 127) \<and> pt hdr \<noteq> 33)"

definition rtp_hdr_is_continious :: "rtp_hdr_analyzer_s \<Rightarrow> rtp_hdr \<Rightarrow> rtp_hdr_analyzer_s \<times> bool" where
  "rtp_hdr_is_continious ctx hdr =
     (let match =
        (if seq (last_hdr ctx) > 0
         then (unat (ntohs (seq (last_hdr ctx))) + 1) mod 65536 = unat (ntohs (seq hdr))
         else True)
      in (ctx\<lparr>last_hdr := hdr\<rparr>, match))"

text \<open>The clock measurement; \<open>int64_t\<close> ticks are passed on as \<open>uint32_t\<close>.\<close>

definition rtp_clock_measurement :: "timeval \<Rightarrow> rtp_hdr_analyzer_s \<Rightarrow> rtp_hdr \<Rightarrow> rtp_hdr_analyzer_s mem" where
  "rtp_clock_measurement now ctx hdr =
     (if rtp_ts (last_hdr ctx) \<noteq> 0
      then let ticks = c_div (ltntstools_pts_diff (uint (ntohl (rtp_ts (last_hdr ctx)))) (uint (ntohl (rtp_ts hdr)))) 90
           in do { (h, r) \<leftarrow> ltn_histogram_interval_update_with_value now (tsInterval ctx) (nat (ticks mod 2 ^ 32));
                   let ctx = ctx\<lparr>tsInterval := h\<rparr>;
                   Some (if ticks = 0
                         then ctx\<lparr>illegalTSTimestampStallEvents := illegalTSTimestampStallEvents ctx + 1\<rparr>
                         else if ticks \<ge> 3
                         then ctx\<lparr>illegalTSTimestampMovementEvents := illegalTSTimestampMovementEvents ctx + 1\<rparr>
                         else ctx) }
      else Some ctx)"

text \<open>The checks of the header against the last one, in the code's order.\<close>

definition rtp_header_checks :: "rtp_hdr_analyzer_s \<Rightarrow> rtp_hdr \<Rightarrow> rtp_hdr_analyzer_s" where
  "rtp_header_checks ctx hdr =
     (let ctx =
            (if rtp_ts (last_hdr ctx) \<noteq> 0 \<and> rtp_ts (last_hdr ctx) \<noteq> rtp_ts hdr \<and> m_bit (last_hdr ctx) = 0
                \<and> pt hdr \<ge> 96 \<and> pt hdr \<le> 127
             then ctx\<lparr>illegal2110TimestampMovementEvents := illegal2110TimestampMovementEvents ctx + 1\<rparr> else ctx);
          ctx =
            (if rtp_ts (last_hdr ctx) \<noteq> 0 \<and> rtp_ts (last_hdr ctx) = rtp_ts hdr \<and> m_bit (last_hdr ctx) = 1
             then ctx\<lparr>illegal2110TimestampStallEvents := illegal2110TimestampStallEvents ctx + 1\<rparr> else ctx);
          (ctx, match) = rtp_hdr_is_continious ctx hdr;
          ctx = (if \<not> match then ctx\<lparr>discontinuityEvents := discontinuityEvents ctx + 1\<rparr> else ctx);
          ctx =
            (if rtp_ts (last_hdr ctx) \<noteq> 0 \<and> ntohs (seq hdr) \<noteq> 0 \<and> ntohs (seq hdr) < ntohs (seq (last_hdr ctx))
             then ctx\<lparr>illegalTSCounterMovementEvents := illegalTSCounterMovementEvents ctx + 1\<rparr> else ctx);
          ctx =
            (if \<not> rtp_hdr_is_payload_type_valid hdr
             then ctx\<lparr>illegalPayloadTypeEvents := illegalPayloadTypeEvents ctx + 1\<rparr> else ctx)
      in if m_bit hdr \<noteq> 0 then ctx\<lparr>totalFrames := totalFrames ctx + 1\<rparr> else ctx)"

text \<open>\<open>now'\<close> is the time the clock measurement is stamped with. The return code is always 0.\<close>

definition rtp_hdr_write :: "timeval \<Rightarrow> timeval \<Rightarrow> rtp_hdr_analyzer_s \<Rightarrow> rtp_hdr \<Rightarrow> rtp_hdr_analyzer_s mem" where
  "rtp_hdr_write now now' ctx hdr =
     do { let ctx = ctx\<lparr>totalPackets := totalPackets ctx + 1\<rparr>;
          (h, r) \<leftarrow> ltn_histogram_interval_update (tsArrival ctx) now;
          ctx \<leftarrow> rtp_clock_measurement now' (ctx\<lparr>tsArrival := h\<rparr>) hdr;
          Some (rtp_header_checks ctx hdr) }"

definition rtp_analyzer_reset :: "timeval \<Rightarrow> timeval \<Rightarrow> rtp_hdr_analyzer_s \<Rightarrow> rtp_hdr_analyzer_s" where
  "rtp_analyzer_reset now now' ctx =
     ctx\<lparr>totalPackets := 0, totalFrames := 0, discontinuityEvents := 0, illegalPayloadTypeEvents := 0,
         illegal2110TimestampMovementEvents := 0, illegal2110TimestampStallEvents := 0,
         illegalTSTimestampMovementEvents := 0, illegalTSTimestampStallEvents := 0,
         illegalTSCounterMovementEvents := 0,
         tsArrival := ltn_histogram_reset now (tsArrival ctx),
         tsInterval := ltn_histogram_reset now' (tsInterval ctx)\<rparr>"

subsection \<open>Finding frames in a buffer\<close>

record rtp_frame_position_s =
  offset :: nat
  lengthBytes :: nat
  frame :: rtp_hdr

text \<open>
  The tests at one position, with their reads in order; \<open>None\<close> is a read past the buffer.
\<close>

definition rtp_frame_at :: "bytes \<Rightarrow> u32 \<Rightarrow> nat \<Rightarrow> bool mem" where
  "rtp_frame_at buf ssrc_id i =
     do { need (i + 12) buf;
          let hdr = rtp_hdr_at buf i;
          if version hdr \<noteq> 2 then Some False
          else if pt hdr \<noteq> 33 then Some False
          else if x_bit hdr = 1 then Some False
          else if cc hdr \<noteq> 0 then Some False
          else if ssrc hdr \<noteq> ssrc_id then Some False
          else
     do { sync \<leftarrow> rd buf (i + 12);
          if sync \<noteq> 0x47 then Some False else
     do { b \<leftarrow> rd buf (i + 12 + 188);
          if b \<noteq> 0x47
          then if drop_bit 6 b \<noteq> 2 then Some False
               else do { sync \<leftarrow> rd buf (i + 12 + 188 + 12); Some (sync = 0x47) }
          else Some True }}}"

text \<open>The length of the frame before is known once the next one is found.\<close>

definition rtp_append_position ::
  "u64 \<Rightarrow> bytes \<Rightarrow> nat \<Rightarrow> rtp_frame_position_s list \<Rightarrow> rtp_frame_position_s list" where
  "rtp_append_position addr buf i arr =
     (let pos = unat (addr + word_of_nat i);
          new = \<lparr>offset = pos, lengthBytes = 0, frame = rtp_hdr_at buf i\<rparr>
      in if arr = [] then [new]
         else butlast arr
              @ [(last arr)\<lparr>lengthBytes := nat ((int pos - int (offset (last arr))) mod 2 ^ 32)\<rparr>, new])"

text \<open>
  The search loop; an \<open>rtp_frame_position_s\<close> takes 24 bytes. \<open>Some None\<close> is the return code
  -1 when the array cannot grow.
\<close>

function queryPositions_loop ::
  "allocator \<Rightarrow> bytes \<Rightarrow> int \<Rightarrow> u64 \<Rightarrow> u32 \<Rightarrow> nat \<Rightarrow> rtp_frame_position_s list
     \<Rightarrow> rtp_frame_position_s list option mem" where
  "queryPositions_loop alloc buf len addr ssrc_id i arr =
     (if int i < len - 2 * 188
      then do { hit \<leftarrow> rtp_frame_at buf ssrc_id i;
                if \<not> hit then queryPositions_loop alloc buf len addr ssrc_id (i + 1) arr
                else if \<not> alloc ((length arr + 1) * 24) then Some None
                else queryPositions_loop alloc buf len addr ssrc_id (i + (12 + 188 - 1) + 1)
                       (rtp_append_position addr buf i arr) }
      else Some (Some arr))"
  by pat_completeness auto
termination queryPositions_loop
  by (relation "measure (\<lambda>(alloc, buf, len, addr, ssrc_id, i, arr). nat (len - 2 * 188 - int i))") auto

definition rtp_frame_queryPositions ::
  "allocator \<Rightarrow> bytes \<Rightarrow> int \<Rightarrow> u64 \<Rightarrow> u32 \<Rightarrow> rtp_frame_position_s list option mem" where
  "rtp_frame_queryPositions alloc buf len addr ssrc_id = queryPositions_loop alloc buf len addr ssrc_id 0 []"

declare queryPositions_loop.simps [simp del]

subsection \<open>What the analyzer counts\<close>

text \<open>A break in the sequence as the analyzer sees it: a last sequence number of zero excuses any successor.\<close>

definition rtp_gap :: "rtp_hdr \<Rightarrow> rtp_hdr \<Rightarrow> bool" where
  "rtp_gap a b \<longleftrightarrow> seq a \<noteq> 0 \<and> ntohs (seq b) \<noteq> ntohs (seq a) + 1"

lemma is_continious_eq: "rtp_hdr_is_continious ctx hdr = (ctx\<lparr>last_hdr := hdr\<rparr>, \<not> rtp_gap (last_hdr ctx) hdr)"
proof -
  have "unat (w + 1) = (unat w + 1) mod 65536" for w :: u16
    by (simp add: unat_word_ariths)
  then have "(unat w + 1) mod 65536 = unat v \<longleftrightarrow> v = w + 1" for w v :: u16
    by (metis word_unat_eq_iff)
  then show ?thesis
    by (simp add: rtp_hdr_is_continious_def rtp_gap_def Let_def word_gt_0)
qed

lemma is_payload_type_valid_eq: "rtp_hdr_is_payload_type_valid hdr \<longleftrightarrow> 96 \<le> pt hdr \<and> pt hdr \<le> 127 \<or> pt hdr = 33"
  by (auto simp: rtp_hdr_is_payload_type_valid_def not_less)

definition rtp_wf :: "rtp_hdr_analyzer_s \<Rightarrow> bool" where
  "rtp_wf ctx \<longleftrightarrow> hist_inv (tsInterval ctx) \<and> hist_inv (tsArrival ctx)"

text \<open>What a write leaves behind; the sequence movement counter is never touched.\<close>

definition rtp_written :: "rtp_hdr_analyzer_s \<Rightarrow> rtp_hdr \<Rightarrow> rtp_hdr_analyzer_s \<Rightarrow> bool" where
  "rtp_written ctx hdr ctx' \<longleftrightarrow> rtp_wf ctx' \<and> last_hdr ctx' = hdr
     \<and> totalPackets ctx' = totalPackets ctx + 1
     \<and> totalFrames ctx' = totalFrames ctx + of_bool (m_bit hdr \<noteq> 0)
     \<and> discontinuityEvents ctx' = discontinuityEvents ctx + of_bool (rtp_gap (last_hdr ctx) hdr)
     \<and> illegalPayloadTypeEvents ctx' = illegalPayloadTypeEvents ctx + of_bool (\<not> rtp_hdr_is_payload_type_valid hdr)
     \<and> illegalTSCounterMovementEvents ctx' = illegalTSCounterMovementEvents ctx
     \<and> measurements (tsArrival ctx') = measurements (tsArrival ctx) + 1"

lemma clock_measurement_ok:
  assumes "rtp_wf ctx"
  shows "mem_ok (rtp_clock_measurement now ctx hdr) (\<lambda>ctx'. rtp_wf ctx' \<and> last_hdr ctx' = last_hdr ctx
    \<and> totalPackets ctx' = totalPackets ctx \<and> totalFrames ctx' = totalFrames ctx
    \<and> discontinuityEvents ctx' = discontinuityEvents ctx
    \<and> illegalPayloadTypeEvents ctx' = illegalPayloadTypeEvents ctx
    \<and> illegalTSCounterMovementEvents ctx' = illegalTSCounterMovementEvents ctx
    \<and> tsArrival ctx' = tsArrival ctx)"
proof (cases "rtp_ts (last_hdr ctx) = 0")
  case False
  define ticks where "ticks = c_div (ltntstools_pts_diff (uint (ntohl (rtp_ts (last_hdr ctx)))) (uint (ntohl (rtp_ts hdr)))) 90"
  obtain h r where "ltn_histogram_interval_update_with_value now (tsInterval ctx) (nat (ticks mod 2 ^ 32)) = Some (h, r)"
    and "hist_inv h"
    using value_recorder.upd_ok [of "tsInterval ctx" now "nat (ticks mod 2 ^ 32)"] assms by (auto simp: rtp_wf_def)
  then show ?thesis
    using assms False by (simp add: rtp_clock_measurement_def Let_def ticks_def [symmetric] rtp_wf_def)
qed (use assms in \<open>simp add: rtp_clock_measurement_def\<close>)

lemma header_checks_fields:
  "last_hdr (rtp_header_checks ctx hdr) = hdr"
  "totalPackets (rtp_header_checks ctx hdr) = totalPackets ctx"
  "totalFrames (rtp_header_checks ctx hdr) = totalFrames ctx + of_bool (m_bit hdr \<noteq> 0)"
  "discontinuityEvents (rtp_header_checks ctx hdr) = discontinuityEvents ctx + of_bool (rtp_gap (last_hdr ctx) hdr)"
  "illegalPayloadTypeEvents (rtp_header_checks ctx hdr)
     = illegalPayloadTypeEvents ctx + of_bool (\<not> rtp_hdr_is_payload_type_valid hdr)"
  "illegalTSCounterMovementEvents (rtp_header_checks ctx hdr) = illegalTSCounterMovementEvents ctx"
  "tsInterval (rtp_header_checks ctx hdr) = tsInterval ctx"
  "tsArrival (rtp_header_checks ctx hdr) = tsArrival ctx"
  by (simp_all add: rtp_header_checks_def Let_def is_continious_eq if_distrib [of last_hdr]
      if_distrib [of totalPackets] if_distrib [of totalFrames] if_distrib [of discontinuityEvents]
      if_distrib [of illegalPayloadTypeEvents] if_distrib [of illegalTSCounterMovementEvents]
      if_distrib [of tsInterval] if_distrib [of tsArrival] split del: if_split cong: if_cong)

lemma rtp_hdr_write_ok:
  assumes "rtp_wf ctx"
  shows "mem_ok (rtp_hdr_write now now' ctx hdr) (rtp_written ctx hdr)"
proof -
  obtain h r where h: "ltn_histogram_interval_update (tsArrival ctx) now = Some (h, r)"
    and i: "hist_inv h" "measurements h = measurements (tsArrival ctx) + 1"
    using interval_recorder.upd_ok [of "tsArrival ctx" now] assms by (auto simp: rtp_wf_def)
  define c where "c = ctx\<lparr>totalPackets := totalPackets ctx + 1, tsArrival := h\<rparr>"
  have "rtp_wf c" using assms i by (simp add: rtp_wf_def c_def)
  from clock_measurement_ok [OF this, of now' hdr] obtain c' where
      "rtp_clock_measurement now' c hdr = Some c'" "rtp_wf c'" "last_hdr c' = last_hdr c"
      "totalPackets c' = totalPackets c" "totalFrames c' = totalFrames c"
      "discontinuityEvents c' = discontinuityEvents c"
      "illegalPayloadTypeEvents c' = illegalPayloadTypeEvents c"
      "illegalTSCounterMovementEvents c' = illegalTSCounterMovementEvents c" "tsArrival c' = tsArrival c"
    by (auto simp: mem_ok_def)
  then show ?thesis
    using i by (simp add: rtp_hdr_write_def h rtp_written_def header_checks_fields rtp_wf_def c_def)
qed

fun adjacent :: "('a \<Rightarrow> 'a \<Rightarrow> bool) \<Rightarrow> 'a list \<Rightarrow> nat" where
  "adjacent R (a # b # xs) = of_bool (R a b) + adjacent R (b # xs)"
| "adjacent R _ = 0"

lemma rtp_hdr_writes:
  assumes "rtp_wf ctx"
  shows "mem_ok (foldl (\<lambda>m (now, now', hdr). do { ctx \<leftarrow> m; rtp_hdr_write now now' ctx hdr }) (Some ctx) hs)
    (\<lambda>ctx'. rtp_wf ctx' \<and> totalPackets ctx' = totalPackets ctx + int (length hs)
      \<and> totalFrames ctx' = totalFrames ctx + int (length (filter (\<lambda>h. m_bit h \<noteq> 0) (map (snd \<circ> snd) hs)))
      \<and> discontinuityEvents ctx' = discontinuityEvents ctx + int (adjacent rtp_gap (last_hdr ctx # map (snd \<circ> snd) hs))
      \<and> illegalPayloadTypeEvents ctx' = illegalPayloadTypeEvents ctx
          + int (length (filter (\<lambda>h. \<not> rtp_hdr_is_payload_type_valid h) (map (snd \<circ> snd) hs)))
      \<and> illegalTSCounterMovementEvents ctx' = illegalTSCounterMovementEvents ctx
      \<and> measurements (tsArrival ctx') = measurements (tsArrival ctx) + length hs)"
  using assms
proof (induction hs arbitrary: ctx)
  case (Cons p hs)
  obtain now now' h where p: "p = (now, now', h)" by (cases p)
  obtain c where c: "rtp_hdr_write now now' ctx h = Some c" and w: "rtp_written ctx h c"
    using rtp_hdr_write_ok [OF Cons.prems, of now now' h] by (auto simp: mem_ok_def)
  from w have "rtp_wf c" by (simp add: rtp_written_def)
  from Cons.IH [OF this] show ?case
    using w by (auto simp: p c rtp_written_def elim!: mem_ok_mono)
qed simp

text \<open>
  C32: An analyzer fed any sequence of headers counts every packet, every marked frame and every
  invalid payload type. It counts a discontinuity for every pair of neighbours whose sequence
  numbers do not follow on modulo \<open>2 ^ 16\<close>, except after a sequence number of zero, and it
  never counts a backward movement of the sequence.
\<close>

theorem rtp_analyzer_counts:
  assumes "rtp_analyzer_init alloc start = Some ctx"
  shows "\<exists>ctx'. foldl (\<lambda>m (now, now', hdr). do { ctx \<leftarrow> m; rtp_hdr_write now now' ctx hdr }) (Some ctx) hs = Some ctx'
    \<and> totalPackets ctx' = int (length hs)
    \<and> totalFrames ctx' = int (length (filter (\<lambda>h. m_bit h \<noteq> 0) (map (snd \<circ> snd) hs)))
    \<and> discontinuityEvents ctx' = int (adjacent rtp_gap (map (snd \<circ> snd) hs))
    \<and> illegalPayloadTypeEvents ctx'
        = int (length (filter (\<lambda>h. \<not> rtp_hdr_is_payload_type_valid h) (map (snd \<circ> snd) hs)))
    \<and> illegalTSCounterMovementEvents ctx' = 0
    \<and> measurements (tsArrival ctx') = length hs"
proof -
  obtain h1 h2 where a: "ltn_histogram_alloc_video_defaults alloc start
        (Some ''RTP Header - Inter-RTP-Frame Arrival Times - IAT (ms)'') = Some h1"
      "ltn_histogram_alloc_video_defaults alloc start
        (Some ''RTP Header - Clock/Timestamp Intervals 90KHz (ms)'') = Some h2"
    and f: "tsArrival ctx = h1" "tsInterval ctx = h2" "last_hdr ctx = rtp_hdr_zero"
      "totalPackets ctx = 0" "totalFrames ctx = 0" "discontinuityEvents ctx = 0"
      "illegalPayloadTypeEvents ctx = 0" "illegalTSCounterMovementEvents ctx = 0"
    using assms by (auto simp: rtp_analyzer_init_def bind_eq_Some_conv)
  have "(16 * 1000 :: nat) < 2 ^ 32" by simp
  note i = alloc_inv [OF a(1) [unfolded ltn_histogram_alloc_video_defaults_def] this]
    and j = alloc_inv [OF a(2) [unfolded ltn_histogram_alloc_video_defaults_def] this]
  have "rtp_wf ctx" using i j f by (simp add: rtp_wf_def)
  moreover have "adjacent rtp_gap (rtp_hdr_zero # xs) = adjacent rtp_gap xs" for xs
    by (cases xs) (simp_all add: rtp_gap_def rtp_hdr_zero_def)
  ultimately show ?thesis
    using rtp_hdr_writes [of ctx hs] i f by (auto simp: mem_ok_def measurements_def)
qed

theorem rtp_analyzer_counts_witness:
  "\<exists>ctx ctx'. rtp_analyzer_init (\<lambda>_. True) timeval_zero = Some ctx
    \<and> foldl (\<lambda>m (now, now', hdr). do { ctx \<leftarrow> m; rtp_hdr_write now now' ctx hdr }) (Some ctx)
        [(timeval_zero, timeval_zero, rtp_hdr_zero\<lparr>seq := 0x0100\<rparr>),
         (timeval_zero, timeval_zero, rtp_hdr_zero\<lparr>seq := 0x0300\<rparr>)] = Some ctx'
    \<and> discontinuityEvents ctx' = 1"
proof -
  obtain ctx where "rtp_analyzer_init (\<lambda>_. True) timeval_zero = Some ctx"
    by (simp add: rtp_analyzer_init_def ltn_histogram_alloc_video_defaults_def ltn_histogram_alloc_def)
  from rtp_analyzer_counts [OF this, of "[(timeval_zero, timeval_zero, rtp_hdr_zero\<lparr>seq := 0x0100\<rparr>),
         (timeval_zero, timeval_zero, rtp_hdr_zero\<lparr>seq := 0x0300\<rparr>)]"] this
  show ?thesis by (simp add: rtp_gap_def ntohs_def) blast
qed

subsection \<open>Which frames are found\<close>

text \<open>The array for frames at given positions: each length is the distance to the next frame.\<close>

definition frames_at :: "u64 \<Rightarrow> bytes \<Rightarrow> nat list \<Rightarrow> rtp_frame_position_s list" where
  "frames_at addr buf ps =
     map (\<lambda>k. \<lparr>offset = unat addr + ps ! k,
               lengthBytes = (if k + 1 < length ps then ps ! (k + 1) - ps ! k else 0),
               frame = rtp_hdr_at buf (ps ! k)\<rparr>) [0..<length ps]"

lemma frames_at_snoc:
  "frames_at addr buf (ps @ [i]) =
     (if ps = [] then [] else butlast (frames_at addr buf ps)
        @ [(last (frames_at addr buf ps))\<lparr>lengthBytes := i - last ps\<rparr>])
     @ [\<lparr>offset = unat addr + i, lengthBytes = 0, frame = rtp_hdr_at buf i\<rparr>]"
proof (cases ps rule: rev_cases)
  case (snoc qs q)
  have "frames_at addr buf (qs @ [q, i]) = map (\<lambda>k. \<lparr>offset = unat addr + (qs @ [q]) ! k,
               lengthBytes = (if k + 1 < length (qs @ [q]) then (qs @ [q]) ! (k + 1) - (qs @ [q]) ! k else 0),
               frame = rtp_hdr_at buf ((qs @ [q]) ! k)\<rparr>) [0..<length qs]
      @ [\<lparr>offset = unat addr + q, lengthBytes = i - q, frame = rtp_hdr_at buf q\<rparr>,
         \<lparr>offset = unat addr + i, lengthBytes = 0, frame = rtp_hdr_at buf i\<rparr>]"
    by (auto simp: frames_at_def nth_append nth_Cons')
  moreover have "frames_at addr buf (qs @ [q]) = map (\<lambda>k. \<lparr>offset = unat addr + (qs @ [q]) ! k,
               lengthBytes = (if k + 1 < length (qs @ [q]) then (qs @ [q]) ! (k + 1) - (qs @ [q]) ! k else 0),
               frame = rtp_hdr_at buf ((qs @ [q]) ! k)\<rparr>) [0..<length qs]
      @ [\<lparr>offset = unat addr + q, lengthBytes = 0, frame = rtp_hdr_at buf q\<rparr>]"
    by (auto simp: frames_at_def nth_append)
  ultimately show ?thesis using snoc by simp
qed (simp add: frames_at_def)

lemma frames_at_last: "ps \<noteq> [] \<Longrightarrow> offset (last (frames_at addr buf ps)) = unat addr + last ps"
  by (cases ps rule: rev_cases) (simp_all add: frames_at_snoc)

lemma append_position_eq:
  assumes "unat addr + i < 2 ^ 64" and "i < 2 ^ 31" and "\<And>p. p \<in> set ps \<Longrightarrow> p \<le> i"
  shows "rtp_append_position addr buf i (frames_at addr buf ps) = frames_at addr buf (ps @ [i])"
proof -
  have u: "unat (addr + word_of_nat i) = unat addr + i"
  proof -
    have "unat (word_of_nat i :: u64) = i" using assms(2) by (simp add: unsigned_of_nat take_bit_nat_eq_self)
    then show ?thesis using assms(1) by (subst unat_add_lem [THEN iffD1]) simp_all
  qed
  have e: "frames_at addr buf ps = [] \<longleftrightarrow> ps = []" by (simp add: frames_at_def)
  have l: "nat ((int (unat addr + i) - int (unat addr + last ps)) mod 2 ^ 32) = i - last ps" if "ps \<noteq> []"
    using assms(2) assms(3) [of "last ps"] that by (simp add: mod_pos_pos_trivial)
  have z: "frames_at addr buf [i] = [\<lparr>offset = unat addr + i, lengthBytes = 0, frame = rtp_hdr_at buf i\<rparr>]"
    by (simp add: frames_at_def)
  show ?thesis
  proof (cases "ps = []")
    case True
    moreover have "frames_at addr buf [] = []" by (simp add: frames_at_def)
    ultimately show ?thesis using z by (simp only: rtp_append_position_def u Let_def if_True append_Nil simp_thms)
  next
    case False
    then show ?thesis
      by (simp only: rtp_append_position_def u Let_def e frames_at_snoc frames_at_last l
          if_False append_assoc append_Cons append_Nil simp_thms)
  qed
qed

text \<open>At every position the search visits, its reads stay inside the buffer.\<close>

lemma rtp_frame_at_defined: "i + 2 * 188 < length buf \<Longrightarrow> \<exists>b. rtp_frame_at buf ssrc_id i = Some b"
  by (auto simp: rtp_frame_at_def Let_def need_def)

definition frame_positions :: "bytes \<Rightarrow> u32 \<Rightarrow> nat \<Rightarrow> nat list \<Rightarrow> bool" where
  "frame_positions buf ssrc_id n ps \<longleftrightarrow>
     (\<forall>p \<in> set ps. p < n \<and> rtp_frame_at buf ssrc_id p = Some True)
     \<and> sorted_wrt (\<lambda>p q. p + 200 \<le> q) ps
     \<and> (\<forall>j < n. rtp_frame_at buf ssrc_id j = Some True \<longrightarrow> (\<exists>p \<in> set ps. p \<le> j \<and> j < p + 200))"

lemma queryPositions_loop_ok:
  assumes "len \<le> int (length buf)" "len < 2 ^ 31" "unat addr + length buf < 2 ^ 64" "\<And>n. alloc n"
    and "\<forall>p \<in> set ps. int p < len - 2 * 188 \<and> p + 200 \<le> i \<and> rtp_frame_at buf ssrc_id p = Some True"
    and "sorted_wrt (\<lambda>p q. p + 200 \<le> q) ps"
    and "\<forall>j < i. rtp_frame_at buf ssrc_id j = Some True \<longrightarrow> (\<exists>p \<in> set ps. p \<le> j \<and> j < p + 200)"
  shows "\<exists>qs. queryPositions_loop alloc buf len addr ssrc_id i (frames_at addr buf ps) = Some (Some (frames_at addr buf qs))
    \<and> frame_positions buf ssrc_id (nat (len - 2 * 188)) qs"
  using assms(5-)
proof (induction "nat (len - 2 * 188 - int i)" arbitrary: i ps rule: less_induct)
  case less
  show ?case
  proof (cases "int i < len - 2 * 188")
    case True
    then obtain hit where hit: "rtp_frame_at buf ssrc_id i = Some hit"
      using rtp_frame_at_defined [of i buf ssrc_id] assms(1) by auto
    show ?thesis
    proof (cases hit)
      case False
      have "\<exists>qs. queryPositions_loop alloc buf len addr ssrc_id (i + 1) (frames_at addr buf ps) = Some (Some (frames_at addr buf qs))
        \<and> frame_positions buf ssrc_id (nat (len - 2 * 188)) qs"
        by (rule less.hyps) (use True hit False less.prems in \<open>auto simp: less_Suc_eq\<close>)
      then show ?thesis using True hit False by (subst queryPositions_loop.simps) simp
    next
      case h: True
      have "\<exists>qs. queryPositions_loop alloc buf len addr ssrc_id (i + 200) (frames_at addr buf (ps @ [i])) = Some (Some (frames_at addr buf qs))
        \<and> frame_positions buf ssrc_id (nat (len - 2 * 188)) qs"
      proof (rule less.hyps)
        show "\<forall>j < i + 200. rtp_frame_at buf ssrc_id j = Some True \<longrightarrow> (\<exists>p \<in> set (ps @ [i]). p \<le> j \<and> j < p + 200)"
        proof (intro allI impI)
          fix j assume "j < i + 200" "rtp_frame_at buf ssrc_id j = Some True"
          then show "\<exists>p \<in> set (ps @ [i]). p \<le> j \<and> j < p + 200"
            using less.prems(3) by (cases "j < i") auto
        qed
      qed (use True hit h less.prems in \<open>fastforce simp: sorted_wrt_append\<close>)+
      moreover have "rtp_append_position addr buf i (frames_at addr buf ps) = frames_at addr buf (ps @ [i])"
        using True assms(1-3) less.prems(1) by (intro append_position_eq) fastforce+
      ultimately show ?thesis using True hit h assms(4) by (subst queryPositions_loop.simps) (simp add: add.commute)
    qed
  next
    case False
    then have "frame_positions buf ssrc_id (nat (len - 2 * 188)) ps"
      using less.prems by (auto simp: frame_positions_def)
    then show ?thesis using False by (subst queryPositions_loop.simps) auto
  qed
qed


text \<open>
  C33: The frame search never reads outside the buffer. What it reports are exactly RTP headers
  of the stream followed by transport packets, in order and at least 200 bytes apart, each with
  the distance to the next as its length and zero for the last; and every such header in the
  searched part of the buffer is reported or lies within 200 bytes behind one that is.
\<close>

theorem queryPositions_sound_complete:
  assumes "len \<le> int (length buf)" "len < 2 ^ 31" "unat addr + length buf < 2 ^ 64" "\<And>n. alloc n"
  shows "\<exists>ps. rtp_frame_queryPositions alloc buf len addr ssrc_id = Some (Some (frames_at addr buf ps))
    \<and> frame_positions buf ssrc_id (nat (len - 2 * 188)) ps"
  using queryPositions_loop_ok [OF assms, of "[]" 0 ssrc_id]
  by (simp add: rtp_frame_queryPositions_def frames_at_def)

text \<open>A buffer of 400 bytes that begins with a header and two transport packets.\<close>

definition sample_rtp_buffer :: bytes where
  "sample_rtp_buffer = [0x80, 33] @ replicate 10 0 @ [0x47] @ replicate 187 0 @ [0x47] @ replicate 199 0"

theorem queryPositions_sound_complete_witness:
  "\<exists>ps. rtp_frame_queryPositions (\<lambda>_. True) sample_rtp_buffer 400 0 0 = Some (Some (frames_at 0 sample_rtp_buffer ps))
    \<and> 0 \<in> set ps"
proof -
  have l: "length sample_rtp_buffer = 400" by (simp add: sample_rtp_buffer_def)
  have b: "sample_rtp_buffer ! 12 = 0x47" "sample_rtp_buffer ! 200 = 0x47"
    by (simp_all add: sample_rtp_buffer_def nth_append nth_Cons')
  have "rtp_frame_at sample_rtp_buffer 0 0 = Some True"
    using l b by (simp add: rtp_frame_at_def Let_def, simp add: rtp_hdr_at_def le32_def sample_rtp_buffer_def nth_append nth_Cons')
  moreover obtain ps where q: "rtp_frame_queryPositions (\<lambda>_. True) sample_rtp_buffer 400 0 0
      = Some (Some (frames_at 0 sample_rtp_buffer ps))"
    and "frame_positions sample_rtp_buffer 0 (nat (400 - 2 * 188)) ps"
    using queryPositions_sound_complete [of 400 sample_rtp_buffer 0 "\<lambda>_. True" 0] l by auto
  ultimately have "\<exists>p \<in> set ps. p \<le> 0" unfolding frame_positions_def by fastforce
  then have "0 \<in> set ps" by simp
  with q show ?thesis by blast
qed

end
