(* ===== verification/Tr101290.thy ===== *)
theory Tr101290
  imports Clocks
begin

text \<open>
  The alarm machinery of the TR 101 290 monitor: \<open>src/src/tr101290-events.c\<close>,
  \<open>tr101290-alarms.c\<close>, \<open>tr101290-summary.c\<close>, the event pass of the thread in \<open>tr101290.c\<close>, and
  the checks of \<open>tr101290-p1.c\<close> and \<open>tr101290-p2.c\<close> that need no stream statistics: sync
  bytes (P1.1, P1.2), the PAT (P1.3) and section checksums (P2.2).

  An event is the number its enumerator has. The event table is the list the allocation copies
  from the static table, and an access past its end is \<open>None\<close>. The operations of the interface
  take the mutex; the thread and the checks of a write do not, and their calls interleave with
  those operations, each call a step of its own. Logging is output and left out. \<open>char arg[128]\<close> keeps 127 characters of a
  message.
\<close>

unbundle bit_operations_syntax

subsection \<open>Times\<close>

text \<open>The macros \<open>timeradd\<close> and \<open>timercmp(a, b, >=)\<close> of the C library.\<close>

definition timeradd :: "timeval \<Rightarrow> timeval \<Rightarrow> timeval" where
  "timeradd a b =
     (let sec = tv_sec a + tv_sec b; usec = tv_usec a + tv_usec b
      in if usec \<ge> 1000000 then \<lparr>tv_sec = sec + 1, tv_usec = usec - 1000000\<rparr>
         else \<lparr>tv_sec = sec, tv_usec = usec\<rparr>)"

definition timercmp_ge :: "timeval \<Rightarrow> timeval \<Rightarrow> bool" where
  "timercmp_ge a b \<longleftrightarrow> (if tv_sec a = tv_sec b then tv_usec a \<ge> tv_usec b else tv_sec a \<ge> tv_sec b)"

subsection \<open>Events\<close>

type_synonym event_e = nat

abbreviation (input) "E101290_UNDEFINED \<equiv> (0 :: event_e)"
abbreviation (input) "E101290_P1_1__TS_SYNC_LOSS \<equiv> (1 :: event_e)"
abbreviation (input) "E101290_P1_2__SYNC_BYTE_ERROR \<equiv> (2 :: event_e)"
abbreviation (input) "E101290_P1_3__PAT_ERROR \<equiv> (3 :: event_e)"
abbreviation (input) "E101290_P1_3a__PAT_ERROR_2 \<equiv> (4 :: event_e)"
abbreviation (input) "E101290_P1_4__CONTINUITY_COUNTER_ERROR \<equiv> (5 :: event_e)"
abbreviation (input) "E101290_P1_5__PMT_ERROR \<equiv> (6 :: event_e)"
abbreviation (input) "E101290_P1_5a__PMT_ERROR_2 \<equiv> (7 :: event_e)"
abbreviation (input) "E101290_P1_6__PID_ERROR \<equiv> (8 :: event_e)"
abbreviation (input) "E101290_P2_1__TRANSPORT_ERROR \<equiv> (9 :: event_e)"
abbreviation (input) "E101290_P2_2__CRC_ERROR \<equiv> (10 :: event_e)"
abbreviation (input) "E101290_P2_3__PCR_ERROR \<equiv> (11 :: event_e)"
abbreviation (input) "E101290_P2_3a__PCR_REPETITION_ERROR \<equiv> (12 :: event_e)"
abbreviation (input) "E101290_P2_4__PCR_ACCURACY_ERROR \<equiv> (13 :: event_e)"
abbreviation (input) "E101290_P2_5__PTS_ERROR \<equiv> (14 :: event_e)"
abbreviation (input) "E101290_P2_6__CAT_ERROR \<equiv> (15 :: event_e)"
abbreviation (input) "E101290_P4_1__UDP_DROPS \<equiv> (16 :: event_e)"

definition E101290_MAX :: event_e where
  "E101290_MAX = 17"

record tr_event_s =
  enabled :: bool
  priorityNr :: int
  ev_id :: event_e
  ev_name :: string
  raised :: bool
  lastChanged :: timeval
  lastReported :: timeval
  nextAlarm :: timeval
  reportInterval :: timeval
  autoClearAlarmAfterReport :: int
  timerRequired :: bool
  timerAlarmPeriodms :: int
  ev_arg :: string

definition tv0 :: timeval where
  "tv0 = \<lparr>tv_sec = 0, tv_usec = 0\<rparr>"

text \<open>One row of the table: what the rows share is written once.\<close>

definition tr_row :: "bool \<Rightarrow> int \<Rightarrow> event_e \<Rightarrow> string \<Rightarrow> int \<Rightarrow> tr_event_s" where
  "tr_row en prio i name autoclear =
     \<lparr>enabled = en, priorityNr = prio, ev_id = i, ev_name = name, raised = False, lastChanged = tv0,
      lastReported = tv0, nextAlarm = tv0, reportInterval = \<lparr>tv_sec = 1, tv_usec = 0\<rparr>,
      autoClearAlarmAfterReport = autoclear, timerRequired = False, timerAlarmPeriodms = 0, ev_arg = []\<rparr>"

definition tr_events_tbl :: "tr_event_s list" where
  "tr_events_tbl =
     [tr_row False 1 E101290_UNDEFINED ''E101290_UNDEFINED'' 0,
      tr_row True 1 E101290_P1_1__TS_SYNC_LOSS ''E101290_P1_1__TS_SYNC_LOSS'' 5000,
      tr_row True 1 E101290_P1_2__SYNC_BYTE_ERROR ''E101290_P1_2__SYNC_BYTE_ERROR'' 5000,
      tr_row True 1 E101290_P1_3__PAT_ERROR ''E101290_P1_3__PAT_ERROR'' 5000,
      tr_row True 1 E101290_P1_3a__PAT_ERROR_2 ''E101290_P1_3a__PAT_ERROR_2'' 5000,
      tr_row True 1 E101290_P1_4__CONTINUITY_COUNTER_ERROR ''E101290_P1_4__CONTINUITY_COUNTER_ERROR'' 5000,
      tr_row True 1 E101290_P1_5__PMT_ERROR ''E101290_P1_5__PMT_ERROR'' 5000,
      tr_row True 1 E101290_P1_5a__PMT_ERROR_2 ''E101290_P1_5a__PMT_ERROR_2'' 5000,
      tr_row True 1 E101290_P1_6__PID_ERROR ''E101290_P1_6__PID_ERROR'' 5000,
      tr_row True 2 E101290_P2_1__TRANSPORT_ERROR ''E101290_P2_1__TRANSPORT_ERROR'' 5000,
      tr_row True 2 E101290_P2_2__CRC_ERROR ''E101290_P2_2__CRC_ERROR'' 5000,
      tr_row True 2 E101290_P2_3__PCR_ERROR ''E101290_P2_3__PCR_ERROR'' 5000,
      tr_row True 2 E101290_P2_3a__PCR_REPETITION_ERROR ''E101290_P2_3a__PCR_REPETITION_ERROR'' 5000,
      tr_row False 2 E101290_P2_4__PCR_ACCURACY_ERROR ''E101290_P2_4__PCR_ACCURACY_ERROR'' 0,
      tr_row False 2 E101290_P2_5__PTS_ERROR ''E101290_P2_5__PTS_ERROR'' 0,
      tr_row True 2 E101290_P2_6__CAT_ERROR ''E101290_P2_6__CAT_ERROR'' 5000]"

record ltntstools_tr101290_alarm_s =
  al_id :: event_e
  al_priorityNr :: int
  al_timestamp :: timeval
  al_raised :: bool
  al_description :: string
  al_arg :: string

text \<open>The times of the last sections of each table (\<open>s->p2\<close>).\<close>

record tr_p2_s =
  p2_lastPAT :: timeval
  p2_lastPMT :: timeval
  p2_lastCAT :: timeval
  p2_lastSDT :: timeval
  p2_lastBAT :: timeval
  p2_lastNIT :: timeval
  p2_lastTOT :: timeval
  p2_lastEIT :: timeval

record ltntstools_tr101290_s =
  event_tbl :: "tr_event_s list"
  alarmCount :: nat
  alarm_tbl :: "ltntstools_tr101290_alarm_s option list option"
  consecutiveSyncBytes :: int
  consecutiveSyncErrors :: int
  tr_now :: timeval
  tr_lastPAT :: timeval
  p2 :: tr_p2_s

definition event_table_entry_count :: nat where
  "event_table_entry_count = length tr_events_tbl"

definition ltntstools_tr101290_event_table_copy :: "tr_event_s list" where
  "ltntstools_tr101290_event_table_copy = tr_events_tbl"

text \<open>The part of \<open>ltntstools_tr101290_alloc\<close> that sets this state up.\<close>

definition tr101290_initial :: ltntstools_tr101290_s where
  "tr101290_initial =
     \<lparr>event_tbl = ltntstools_tr101290_event_table_copy, alarmCount = 0, alarm_tbl = None,
      consecutiveSyncBytes = 0, consecutiveSyncErrors = 0, tr_now = tv0, tr_lastPAT = tv0,
      p2 = \<lparr>p2_lastPAT = tv0, p2_lastPMT = tv0, p2_lastCAT = tv0, p2_lastSDT = tv0,
            p2_lastBAT = tv0, p2_lastNIT = tv0, p2_lastTOT = tv0, p2_lastEIT = tv0\<rparr>\<rparr>"

definition ltntstools_tr101290_event_name_ascii :: "event_e \<Rightarrow> string mem" where
  "ltntstools_tr101290_event_name_ascii event =
     map_option ev_name (rd tr_events_tbl (if event \<ge> E101290_MAX then E101290_UNDEFINED else event))"

definition ltntstools_tr101290_event_priority :: "event_e \<Rightarrow> int mem" where
  "ltntstools_tr101290_event_priority event =
     map_option priorityNr (rd tr_events_tbl (if event \<ge> E101290_MAX then E101290_UNDEFINED else event))"

text \<open>An update in place of one entry of the table.\<close>

definition upd_event :: "event_e \<Rightarrow> (tr_event_s \<Rightarrow> tr_event_s) \<Rightarrow> ltntstools_tr101290_s \<Rightarrow> ltntstools_tr101290_s mem" where
  "upd_event event f s =
     do { ev \<leftarrow> rd (event_tbl s) event; Some (s\<lparr>event_tbl := (event_tbl s)[event := f ev]\<rparr>) }"

definition ltntstools_tr101290_event_processing_enable ::
  "ltntstools_tr101290_s \<Rightarrow> event_e \<Rightarrow> (ltntstools_tr101290_s \<times> int) mem" where
  "ltntstools_tr101290_event_processing_enable s event =
     (if event \<ge> E101290_MAX then Some (s, -1)
      else do { s \<leftarrow> upd_event event (\<lambda>ev. ev\<lparr>enabled := True\<rparr>) s; Some (s, 0) })"

definition ltntstools_tr101290_event_processing_disable ::
  "ltntstools_tr101290_s \<Rightarrow> event_e \<Rightarrow> (ltntstools_tr101290_s \<times> int) mem" where
  "ltntstools_tr101290_event_processing_disable s event =
     (if event \<ge> E101290_MAX then Some (s, -1)
      else do { s \<leftarrow> upd_event event (\<lambda>ev. ev\<lparr>enabled := False\<rparr>) s; Some (s, 0) })"

text \<open>The loops \<open>for (i = 1; i < E101290_MAX; i++)\<close>: an operation at each index in turn.\<close>

fun for_events :: "(event_e \<Rightarrow> 's \<Rightarrow> 's mem) \<Rightarrow> event_e list \<Rightarrow> 's \<Rightarrow> 's mem" where
  "for_events f [] s = Some s"
| "for_events f (i # is) s = do { s \<leftarrow> f i s; for_events f is s }"

definition ltntstools_tr101290_event_processing_disable_all ::
  "ltntstools_tr101290_s \<Rightarrow> (ltntstools_tr101290_s \<times> int) mem" where
  "ltntstools_tr101290_event_processing_disable_all s =
     do { s \<leftarrow> for_events (\<lambda>i. upd_event i (\<lambda>ev. ev\<lparr>enabled := False\<rparr>)) [1..<E101290_MAX] s; Some (s, 0) }"

definition ltntstools_tr101290_event_processing_enable_all ::
  "ltntstools_tr101290_s \<Rightarrow> (ltntstools_tr101290_s \<times> int) mem" where
  "ltntstools_tr101290_event_processing_enable_all s =
     do { s \<leftarrow> for_events (\<lambda>i. upd_event i (\<lambda>ev. ev\<lparr>enabled := True\<rparr>)) [1..<E101290_MAX] s; Some (s, 0) }"

definition tr101290_event_clear :: "ltntstools_tr101290_s \<Rightarrow> event_e \<Rightarrow> ltntstools_tr101290_s mem" where
  "tr101290_event_clear s event =
     (if event \<ge> E101290_MAX then Some s else upd_event event (\<lambda>ev. ev\<lparr>raised := False\<rparr>) s)"

definition ltntstools_tr101290_event_clear ::
  "ltntstools_tr101290_s \<Rightarrow> event_e \<Rightarrow> (ltntstools_tr101290_s \<times> int) mem" where
  "ltntstools_tr101290_event_clear s event =
     (if event \<ge> E101290_MAX then Some (s, -1)
      else do { s \<leftarrow> tr101290_event_clear s event; Some (s, 0) })"

text \<open>The computed \<open>nextReport\<close> is not used by the code.\<close>

definition ltntstools_tr101290_event_should_report ::
  "ltntstools_tr101290_s \<Rightarrow> event_e \<Rightarrow> (ltntstools_tr101290_s \<times> bool) mem" where
  "ltntstools_tr101290_event_should_report s event =
     (if event \<ge> E101290_MAX then Some (s, False) else
      do { ev \<leftarrow> rd (event_tbl s) event;
           if \<not> enabled ev then Some (s, False) else
      do { let ev = (if tv_sec (lastReported ev) = 0
                     then ev\<lparr>lastReported := (lastReported ev)\<lparr>tv_sec := tv_sec (lastChanged ev) - 1\<rparr>\<rparr>
                     else ev);
           Some (s\<lparr>event_tbl := (event_tbl s)[event := ev]\<rparr>,
                 \<not> timercmp_ge (lastReported ev) (lastChanged ev)) }})"

subsection \<open>Alarms\<close>

definition hold_interval :: "tr_event_s \<Rightarrow> timeval" where
  "hold_interval ev =
     \<lparr>tv_sec = c_div (autoClearAlarmAfterReport ev) 1000,
      tv_usec = c_mod (autoClearAlarmAfterReport ev * 1000) 1000000\<rparr>"

definition ltntstools_tr101290_alarm_raise_with_arg ::
  "ltntstools_tr101290_s \<Rightarrow> event_e \<Rightarrow> string \<Rightarrow> timeval \<Rightarrow> ltntstools_tr101290_s mem" where
  "ltntstools_tr101290_alarm_raise_with_arg s event msg time_now =
     (if event \<ge> E101290_MAX then Some s else
      upd_event event (\<lambda>ev.
        let ev = (if \<not> raised ev then ev\<lparr>raised := True, lastChanged := time_now\<rparr> else ev);
            ev = ev\<lparr>ev_arg := take 127 msg\<rparr>
        in ev\<lparr>nextAlarm := timeradd time_now (hold_interval ev)\<rparr>) s)"

definition ltntstools_tr101290_alarm_raise ::
  "ltntstools_tr101290_s \<Rightarrow> event_e \<Rightarrow> timeval \<Rightarrow> ltntstools_tr101290_s mem" where
  "ltntstools_tr101290_alarm_raise s event time_now =
     (if event \<ge> E101290_MAX then Some s else
      upd_event event (\<lambda>ev.
        let ev = (if \<not> raised ev then ev\<lparr>raised := True, lastChanged := time_now, ev_arg := []\<rparr> else ev)
        in ev\<lparr>nextAlarm := timeradd time_now (hold_interval ev)\<rparr>) s)"

definition ltntstools_tr101290_alarm_clear ::
  "ltntstools_tr101290_s \<Rightarrow> event_e \<Rightarrow> timeval \<Rightarrow> ltntstools_tr101290_s mem" where
  "ltntstools_tr101290_alarm_clear s event time_now =
     (if event \<ge> E101290_MAX then Some s else
      upd_event event (\<lambda>ev.
        let ev = (if raised ev \<and> timercmp_ge time_now (timeradd (hold_interval ev) (lastChanged ev))
                  then ev\<lparr>raised := False, lastChanged := time_now, ev_arg := []\<rparr> else ev)
        in ev\<lparr>nextAlarm := timeradd time_now (hold_interval ev)\<rparr>) s)"

text \<open>The loop raises the event whose number is stored at each index.\<close>

definition ltntstools_tr101290_alarm_raise_all :: "ltntstools_tr101290_s \<Rightarrow> ltntstools_tr101290_s mem" where
  "ltntstools_tr101290_alarm_raise_all s =
     for_events (\<lambda>i s. do { ev \<leftarrow> rd (event_tbl s) i; ltntstools_tr101290_alarm_raise s (ev_id ev) (tr_now s) })
       [1..<event_table_entry_count] s"

definition ltntstools_tr101290_reset_alarms :: "ltntstools_tr101290_s \<Rightarrow> (ltntstools_tr101290_s \<times> int) mem" where
  "ltntstools_tr101290_reset_alarms s = do { s \<leftarrow> ltntstools_tr101290_alarm_raise_all s; Some (s, 0) }"

subsection \<open>The summary\<close>

record ltntstools_tr101290_summary_item_s =
  si_id :: event_e
  si_enabled :: bool
  si_priorityNr :: int
  si_last_update :: timeval
  si_raised :: bool
  si_arg :: string

definition summary_item :: "tr_event_s \<Rightarrow> ltntstools_tr101290_summary_item_s" where
  "summary_item ev = \<lparr>si_id = ev_id ev, si_enabled = enabled ev, si_priorityNr = priorityNr ev,
     si_last_update = lastChanged ev, si_raised = raised ev, si_arg = ev_arg ev\<rparr>"

fun summary_items :: "tr_event_s list \<Rightarrow> nat list \<Rightarrow> ltntstools_tr101290_summary_item_s list mem" where
  "summary_items tbl [] = Some []"
| "summary_items tbl (i # is) =
     do { ev \<leftarrow> rd tbl (i + 1); rest \<leftarrow> summary_items tbl is; Some (summary_item ev # rest) }"

text \<open>\<open>Some None\<close> is the return code -1; a summary item takes 168 bytes.\<close>

definition ltntstools_tr101290_summary_get ::
  "allocator \<Rightarrow> ltntstools_tr101290_s \<Rightarrow> ltntstools_tr101290_summary_item_s list option mem" where
  "ltntstools_tr101290_summary_get alloc s =
     (if \<not> alloc (event_table_entry_count * 168) then Some None
      else map_option Some (summary_items (event_tbl s) [0..<event_table_entry_count - 1]))"

subsection \<open>The event pass of the thread\<close>

text \<open>
  What the thread does for the event at index \<open>i\<close>: first the report, then the alarm that falls
  due. \<open>p2_process_p2_2\<close> returns at once in the code. An alarm record takes 416 bytes; when the
  array cannot grow, the code loses it, keeps the count and goes on with the next event
  (\<open>False\<close>). An entry \<open>None\<close> of the array is memory that \<open>realloc\<close> granted and nothing has
  written: the entries below the count once the array was lost.
\<close>

definition thread_report ::
  "allocator \<Rightarrow> timeval \<Rightarrow> event_e \<Rightarrow> ltntstools_tr101290_s \<Rightarrow> (ltntstools_tr101290_s \<times> bool) mem" where
  "thread_report alloc now i s =
     do { s \<leftarrow> upd_event i (\<lambda>ev. ev\<lparr>lastReported := timeradd now \<lparr>tv_sec = 0, tv_usec = 1000\<rparr>\<rparr>) s;
          if \<not> alloc ((alarmCount s + 1) * 416) then Some (s\<lparr>alarm_tbl := None\<rparr>, False) else
     do { ev \<leftarrow> rd (event_tbl s) i;
          prio \<leftarrow> ltntstools_tr101290_event_priority (ev_id ev);
          name \<leftarrow> ltntstools_tr101290_event_name_ascii (ev_id ev);
          let alarm = \<lparr>al_id = ev_id ev, al_priorityNr = prio, al_timestamp = now,
                       al_raised = raised ev, al_description = take 255 name, al_arg = ev_arg ev\<rparr>;
          let tbl = (case alarm_tbl s of None \<Rightarrow> [] | Some t \<Rightarrow> t);
          Some (s\<lparr>alarm_tbl := Some (take (alarmCount s) (tbl @ replicate (alarmCount s) None) @ [Some alarm]),
                  alarmCount := alarmCount s + 1\<rparr>, True) }}"

definition thread_event ::
  "allocator \<Rightarrow> timeval \<Rightarrow> event_e \<Rightarrow> ltntstools_tr101290_s \<Rightarrow> ltntstools_tr101290_s mem" where
  "thread_event alloc now i s =
     do { ev \<leftarrow> rd (event_tbl s) i;
          if \<not> enabled ev then Some s else
     do { (s, report) \<leftarrow> ltntstools_tr101290_event_should_report s (ev_id ev);
          (s, go) \<leftarrow> if report then thread_report alloc now i s else Some (s, True);
          ev \<leftarrow> rd (event_tbl s) i;
          if go \<and> timercmp_ge now (nextAlarm ev) then ltntstools_tr101290_alarm_raise s (ev_id ev) now
          else Some s }}"

text \<open>One round of the thread over the events, and the alarms it then hands to the callback.\<close>

definition thread_pass ::
  "allocator \<Rightarrow> bool \<Rightarrow> timeval \<Rightarrow> ltntstools_tr101290_s
     \<Rightarrow> (ltntstools_tr101290_s \<times> ltntstools_tr101290_alarm_s option list option) mem" where
  "thread_pass alloc has_cb now s =
     do { s \<leftarrow> for_events (thread_event alloc now) [1..<E101290_MAX] s;
          if alarmCount s = 0 then Some (s, None)
          else if \<not> alloc (alarmCount s * 416) then None
          else do { tbl \<leftarrow> alarm_tbl s;
                    cpy \<leftarrow> rdn tbl 0 (alarmCount s);
                    Some (if has_cb then (s\<lparr>alarmCount := 0\<rparr>, Some cpy) else (s, None)) } }"

subsection \<open>Priority 1 and 2 checks\<close>

definition SYNC_LOSS_THRESHOLD :: int where
  "SYNC_LOSS_THRESHOLD = 2"

text \<open>P1.1 and P1.2 for one packet.\<close>

definition p1_sync_packet :: "timeval \<Rightarrow> bytes \<Rightarrow> ltntstools_tr101290_s \<Rightarrow> ltntstools_tr101290_s mem" where
  "p1_sync_packet time_now pkt s =
     (if ltntstools_sync_present pkt
      then do { let s = s\<lparr>consecutiveSyncBytes := consecutiveSyncBytes s + 1, consecutiveSyncErrors := 0\<rparr>;
                s \<leftarrow> if consecutiveSyncBytes s > 5
                     then do { s \<leftarrow> ltntstools_tr101290_alarm_clear s E101290_P1_2__SYNC_BYTE_ERROR time_now;
                               ltntstools_tr101290_alarm_clear s E101290_P1_1__TS_SYNC_LOSS time_now }
                     else Some s;
                Some (if consecutiveSyncBytes s \<ge> 50000 then s\<lparr>consecutiveSyncBytes := 16\<rparr> else s) }
      else do { let s = s\<lparr>consecutiveSyncBytes := 0, consecutiveSyncErrors := consecutiveSyncErrors s + 1\<rparr>;
                s \<leftarrow> ltntstools_tr101290_alarm_raise s E101290_P1_2__SYNC_BYTE_ERROR time_now;
                if consecutiveSyncErrors s \<ge> SYNC_LOSS_THRESHOLD
                then ltntstools_tr101290_alarm_raise s E101290_P1_1__TS_SYNC_LOSS time_now
                else Some s })"

fun p1_sync_loop :: "timeval \<Rightarrow> bytes \<Rightarrow> nat \<Rightarrow> ltntstools_tr101290_s \<Rightarrow> ltntstools_tr101290_s mem" where
  "p1_sync_loop time_now buf 0 s = Some s"
| "p1_sync_loop time_now buf (Suc n) s =
     do { need 1 buf; s \<leftarrow> p1_sync_packet time_now buf s; p1_sync_loop time_now (drop 188 buf) n s }"

text \<open>P1.3: the packets of the PAT, counted as \<open>(gotPAT, patIssue)\<close>.\<close>

fun p1_pat_scan :: "bytes \<Rightarrow> nat \<Rightarrow> bool \<times> nat \<Rightarrow> (bool \<times> nat) mem" where
  "p1_pat_scan buf 0 r = Some r"
| "p1_pat_scan buf (Suc n) (gotPAT, patIssue) =
     do { need 3 buf;
          if ltntstools_pid buf = 0
          then do { need 5 buf;
                    tableid \<leftarrow> ltntstools_get_section_tableid buf;
                    let patIssue = (if tableid \<noteq> 0 then patIssue + 1 else patIssue);
                    let patIssue = (if ltntstools_transport_scrambling_control buf \<noteq> 0
                                    then patIssue + 1 else patIssue);
                    p1_pat_scan (drop 188 buf) n (True, patIssue) }
          else p1_pat_scan (drop 188 buf) n (gotPAT, patIssue) }"

definition p1_process_p1_3 :: "timeval \<Rightarrow> bytes \<Rightarrow> nat \<Rightarrow> ltntstools_tr101290_s \<Rightarrow> ltntstools_tr101290_s mem" where
  "p1_process_p1_3 time_now buf packetCount s =
     do { (gotPAT, patIssue) \<leftarrow> p1_pat_scan buf packetCount (False, 0);
          let patIssue =
            (if \<not> gotPAT \<and> timercmp_ge time_now (timeradd (tr_lastPAT s) \<lparr>tv_sec = 0, tv_usec = 500 * 1000\<rparr>)
             then patIssue + 1 else patIssue);
          let s = (if gotPAT then s\<lparr>tr_lastPAT := time_now\<rparr> else s);
          if patIssue \<noteq> 0
          then do { s \<leftarrow> ltntstools_tr101290_alarm_raise s E101290_P1_3__PAT_ERROR time_now;
                    ltntstools_tr101290_alarm_raise s E101290_P1_3a__PAT_ERROR_2 time_now }
          else do { s \<leftarrow> ltntstools_tr101290_alarm_clear s E101290_P1_3__PAT_ERROR time_now;
                    ltntstools_tr101290_alarm_clear s E101290_P1_3a__PAT_ERROR_2 time_now } }"

text \<open>P2.2: the tables whose sections the stream model checks.\<close>

datatype streammodel_context =
  STREAMMODEL_CB_CONTEXT_PAT | STREAMMODEL_CB_CONTEXT_PMT | STREAMMODEL_CB_CONTEXT_CAT
| STREAMMODEL_CB_CONTEXT_SDT | STREAMMODEL_CB_CONTEXT_BAT | STREAMMODEL_CB_CONTEXT_NIT
| STREAMMODEL_CB_CONTEXT_TOT | STREAMMODEL_CB_CONTEXT_EIT | STREAMMODEL_CB_CONTEXT_OTHER

fun context_name :: "streammodel_context \<Rightarrow> string" where
  "context_name STREAMMODEL_CB_CONTEXT_PAT = ''PAT''"
| "context_name STREAMMODEL_CB_CONTEXT_PMT = ''PMT''"
| "context_name STREAMMODEL_CB_CONTEXT_CAT = ''CAT''"
| "context_name STREAMMODEL_CB_CONTEXT_SDT = ''SDT''"
| "context_name STREAMMODEL_CB_CONTEXT_BAT = ''BAT''"
| "context_name STREAMMODEL_CB_CONTEXT_NIT = ''NIT''"
| "context_name STREAMMODEL_CB_CONTEXT_TOT = ''TOT''"
| "context_name STREAMMODEL_CB_CONTEXT_EIT = ''EIT''"
| "context_name STREAMMODEL_CB_CONTEXT_OTHER = []"

fun p2_touch :: "streammodel_context \<Rightarrow> timeval \<Rightarrow> tr_p2_s \<Rightarrow> tr_p2_s" where
  "p2_touch STREAMMODEL_CB_CONTEXT_PAT t x = x\<lparr>p2_lastPAT := t\<rparr>"
| "p2_touch STREAMMODEL_CB_CONTEXT_PMT t x = x\<lparr>p2_lastPMT := t\<rparr>"
| "p2_touch STREAMMODEL_CB_CONTEXT_CAT t x = x\<lparr>p2_lastCAT := t\<rparr>"
| "p2_touch STREAMMODEL_CB_CONTEXT_SDT t x = x\<lparr>p2_lastSDT := t\<rparr>"
| "p2_touch STREAMMODEL_CB_CONTEXT_BAT t x = x\<lparr>p2_lastBAT := t\<rparr>"
| "p2_touch STREAMMODEL_CB_CONTEXT_NIT t x = x\<lparr>p2_lastNIT := t\<rparr>"
| "p2_touch STREAMMODEL_CB_CONTEXT_TOT t x = x\<lparr>p2_lastTOT := t\<rparr>"
| "p2_touch STREAMMODEL_CB_CONTEXT_EIT t x = x\<lparr>p2_lastEIT := t\<rparr>"
| "p2_touch STREAMMODEL_CB_CONTEXT_OTHER t x = x"

definition p2_streammodel_callback ::
  "ltntstools_tr101290_s \<Rightarrow> bool \<Rightarrow> streammodel_context \<Rightarrow> bool \<Rightarrow> ltntstools_tr101290_s mem" where
  "p2_streammodel_callback s crc_status ctx crc_invalid =
     (if \<not> crc_status then Some s
      else if ctx = STREAMMODEL_CB_CONTEXT_OTHER then Some s
      else let s = s\<lparr>p2 := p2_touch ctx (tr_now s) (p2 s)\<rparr>
           in if crc_invalid
              then ltntstools_tr101290_alarm_raise_with_arg s E101290_P2_2__CRC_ERROR (context_name ctx) (tr_now s)
              else ltntstools_tr101290_alarm_clear s E101290_P2_2__CRC_ERROR (tr_now s))"

text \<open>Has a table been silent for half a second?\<close>

definition raise_alarm_p2_table :: "ltntstools_tr101290_s \<Rightarrow> timeval \<Rightarrow> bool" where
  "raise_alarm_p2_table s tv \<longleftrightarrow> timercmp_ge (tr_now s) (timeradd tv \<lparr>tv_sec = 0, tv_usec = 500 * 1000\<rparr>)"

subsection \<open>Times as microseconds\<close>

definition normal :: "timeval \<Rightarrow> bool" where
  "normal tv \<longleftrightarrow> 0 \<le> tv_usec tv \<and> tv_usec tv < 1000000"

abbreviation us :: "timeval \<Rightarrow> int" where
  "us \<equiv> ltn_timeval_to_us"

lemma us_timeradd [simp]: "us (timeradd a b) = us a + us b"
  by (simp add: timeradd_def ltn_timeval_to_us_def Let_def)

lemma normal_timeradd: "normal a \<Longrightarrow> normal b \<Longrightarrow> normal (timeradd a b)"
  by (auto simp: timeradd_def normal_def Let_def)

lemma timercmp_ge_us: "normal a \<Longrightarrow> normal b \<Longrightarrow> timercmp_ge a b \<longleftrightarrow> us b \<le> us a"
  by (auto simp: timercmp_ge_def normal_def ltn_timeval_to_us_def)

lemma hold_interval_us:
  assumes "0 \<le> autoClearAlarmAfterReport ev"
  shows "normal (hold_interval ev)" "us (hold_interval ev) = autoClearAlarmAfterReport ev * 1000"
proof -
  let ?a = "autoClearAlarmAfterReport ev"
  have m: "(?a * 1000) mod 1000000 = (?a mod 1000) * 1000"
    using mod_mult_mult2 [of ?a 1000 1000] by simp
  show "normal (hold_interval ev)"
    using assms by (simp add: hold_interval_def normal_def)
  have "q * 1000000 + r * 1000 = (q * 1000 + r) * 1000" for q r :: int by simp
  from this [of "?a div 1000" "?a mod 1000"] have "?a div 1000 * 1000000 + ?a mod 1000 * 1000 = ?a * 1000"
    by (simp only: div_mult_mod_eq)
  then show "us (hold_interval ev) = ?a * 1000"
    using assms m by (simp add: hold_interval_def ltn_timeval_to_us_def)
qed

subsection \<open>The alarm state machine\<close>

text \<open>
  The operations that change the monitor. The thread runs its event loop without the mutex, so
  besides its whole treatment of an event the report decision and the report alone are steps
  too: with raising, which is a step of its own, they give every interleaving of the calls the
  thread makes with the operations of other threads. A call itself is one step.
\<close>

datatype tr_op =
  Op_raise event_e | Op_raise_with_arg event_e | Op_clear event_e | Op_enable event_e | Op_disable event_e
| Op_event_clear event_e | Op_should_report event_e | Op_report event_e | Op_thread event_e
| Op_sync | Op_pat | Op_crc | Op_reset | Op_time

inductive tr_step :: "timeval \<Rightarrow> tr_op \<Rightarrow> ltntstools_tr101290_s \<Rightarrow> ltntstools_tr101290_s \<Rightarrow> bool" where
  tr_raise: "ltntstools_tr101290_alarm_raise s e t = Some s' \<Longrightarrow> tr_step t (Op_raise e) s s'"
| tr_raise_arg: "ltntstools_tr101290_alarm_raise_with_arg s e msg t = Some s' \<Longrightarrow> tr_step t (Op_raise_with_arg e) s s'"
| tr_clear: "ltntstools_tr101290_alarm_clear s e t = Some s' \<Longrightarrow> tr_step t (Op_clear e) s s'"
| tr_enable: "ltntstools_tr101290_event_processing_enable s e = Some (s', r) \<Longrightarrow> tr_step t (Op_enable e) s s'"
| tr_disable: "ltntstools_tr101290_event_processing_disable s e = Some (s', r) \<Longrightarrow> tr_step t (Op_disable e) s s'"
| tr_event_clear: "ltntstools_tr101290_event_clear s e = Some (s', r) \<Longrightarrow> tr_step t (Op_event_clear e) s s'"
| tr_should_report: "ltntstools_tr101290_event_should_report s e = Some (s', b) \<Longrightarrow> tr_step t (Op_should_report e) s s'"
| tr_report: "thread_report alloc t i s = Some (s', b) \<Longrightarrow> tr_step t (Op_report i) s s'"
| tr_thread: "thread_event alloc t i s = Some s' \<Longrightarrow> tr_step t (Op_thread i) s s'"
| tr_sync: "p1_sync_loop t buf n s = Some s' \<Longrightarrow> tr_step t Op_sync s s'"
| tr_pat: "p1_process_p1_3 t buf n s = Some s' \<Longrightarrow> tr_step t Op_pat s s'"
| tr_crc: "tr_now s = t \<Longrightarrow> p2_streammodel_callback s st ctx bad = Some s' \<Longrightarrow> tr_step t Op_crc s s'"
| tr_reset: "tr_now s = t \<Longrightarrow> ltntstools_tr101290_reset_alarms s = Some (s', r) \<Longrightarrow> tr_step t Op_reset s s'"
| tr_time: "tr_step t Op_time s (s\<lparr>tr_now := t\<rparr>)"

inductive_cases tr_stepE: "tr_step t op s s'"

text \<open>The events that an operation may clear, by a good condition, or disable.\<close>

fun op_clears :: "tr_op \<Rightarrow> event_e set" where
  "op_clears (Op_clear e) = {e}"
| "op_clears (Op_disable e) = {e}"
| "op_clears Op_sync = {E101290_P1_1__TS_SYNC_LOSS, E101290_P1_2__SYNC_BYTE_ERROR}"
| "op_clears Op_pat = {E101290_P1_3__PAT_ERROR, E101290_P1_3a__PAT_ERROR_2}"
| "op_clears Op_crc = {E101290_P2_2__CRC_ERROR}"
| "op_clears _ = {}"

text \<open>
  The operations as far as the event table is concerned: updates in place of single entries,
  each in the relation \<open>R\<close> of the index, the old and the new entry. The operation \<open>m\<close> on the
  state \<open>s\<close> yields a result that holds the new state at \<open>st\<close>.
\<close>

type_synonym entry_rel = "nat \<Rightarrow> tr_event_s \<Rightarrow> tr_event_s \<Rightarrow> bool"

definition table_steps :: "entry_rel \<Rightarrow> tr_event_s list \<Rightarrow> tr_event_s list \<Rightarrow> bool" where
  "table_steps R = (\<lambda>x y. \<exists>i ev. i < length x \<and> R i (x ! i) ev \<and> y = x[i := ev])\<^sup>*\<^sup>*"

definition keeps :: "entry_rel \<Rightarrow> ltntstools_tr101290_s \<Rightarrow> ('a \<Rightarrow> ltntstools_tr101290_s) \<Rightarrow> 'a mem \<Rightarrow> bool" where
  "keeps R s st m \<longleftrightarrow> (\<forall>r. m = Some r \<longrightarrow> table_steps R (event_tbl s) (event_tbl (st r)))"

lemma table_steps_refl [simp]: "table_steps R x x"
  by (simp add: table_steps_def)

lemma table_steps_trans: "table_steps R x y \<Longrightarrow> table_steps R y z \<Longrightarrow> table_steps R x z"
  by (auto simp: table_steps_def)

lemma table_steps_update: "i < length x \<Longrightarrow> R i (x ! i) ev \<Longrightarrow> table_steps R x (x[i := ev])"
  unfolding table_steps_def by (rule r_into_rtranclp) blast

text \<open>What holds of a table after single updates holds after the operation.\<close>

lemma table_steps_invariant:
  assumes "table_steps R x y" and "P x"
    and "\<And>x i ev. P x \<Longrightarrow> i < length x \<Longrightarrow> R i (x ! i) ev \<Longrightarrow> P (x[i := ev])"
  shows "P y"
  using assms(1,2) unfolding table_steps_def
  by (induction rule: rtranclp_induct) (auto dest: assms(3))

lemma keepsD: "keeps R s st m \<Longrightarrow> m = Some r \<Longrightarrow> table_steps R (event_tbl s) (event_tbl (st r))"
  by (simp add: keeps_def)

text \<open>The rules follow the structure of the operations.\<close>

lemma keeps_Some: "event_tbl (st r) = event_tbl s \<Longrightarrow> keeps R s st (Some r)"
  by (simp add: keeps_def)

lemma keeps_bind: "keeps R s id m \<Longrightarrow> (\<And>r. keeps R r st (f r)) \<Longrightarrow> keeps R s st (m \<bind> f)"
  by (auto simp: keeps_def bind_eq_Some_conv intro: table_steps_trans)

lemma keeps_bind_pair:
  "keeps R s fst m \<Longrightarrow> (\<And>a b. keeps R a st (f a b)) \<Longrightarrow> keeps R s st (m \<bind> (\<lambda>(a, b). f a b))"
  by (auto simp: keeps_def bind_eq_Some_conv intro: table_steps_trans)

lemma keeps_read: "(\<And>r. keeps R s st (f r)) \<Longrightarrow> keeps R s st (m \<bind> f)"
  by (auto simp: keeps_def bind_eq_Some_conv)

lemma keeps_if: "keeps R s st a \<Longrightarrow> keeps R s st b \<Longrightarrow> keeps R s st (if c then a else b)"
  by simp

lemma keeps_same: "keeps R s' st m \<Longrightarrow> event_tbl s' = event_tbl s \<Longrightarrow> keeps R s st m"
  by (simp add: keeps_def)

lemma keeps_upd: "(\<And>ev. R i ev (f ev)) \<Longrightarrow> keeps R s id (upd_event i f s)"
  by (auto simp: keeps_def upd_event_def bind_eq_Some_conv rd_Some intro!: table_steps_update)

lemma keeps_for_events:
  assumes "\<And>i s. P s \<Longrightarrow> keeps R s id (f i s)" and "\<And>i s s'. P s \<Longrightarrow> f i s = Some s' \<Longrightarrow> P s'"
  shows "P s \<Longrightarrow> keeps R s id (for_events f is s)"
proof (induction "is" arbitrary: s)
  case (Cons i "is")
  show ?case
  proof (cases "f i s")
    case (Some s1)
    then have "table_steps R (event_tbl s) (event_tbl s1)" using assms(1) [OF Cons.prems, of i] by (simp add: keeps_def)
    moreover have "keeps R s1 id (for_events f is s1)" using Cons.IH assms(2) [OF Cons.prems Some] .
    ultimately show ?thesis using Some by (auto simp: keeps_def intro: table_steps_trans)
  qed (simp add: keeps_def)
qed (simp add: keeps_Some)

lemma alarm_raise_now: "ltntstools_tr101290_alarm_raise s e t = Some s' \<Longrightarrow> tr_now s' = tr_now s"
  by (auto simp: ltntstools_tr101290_alarm_raise_def upd_event_def bind_eq_Some_conv split: if_splits)

text \<open>
  What the operations at time \<open>t\<close> may do to an entry: raise it, note a report and enable it at
  every index, clear it by a good condition and disable it at the indexes in \<open>free\<close>, and clear
  it by request of the application at those in \<open>open\<close>. A relation that allows this holds of the
  entries across every operation that clears no others.
\<close>

locale entry_changes =
  fixes R :: entry_rel and t :: timeval and free :: "event_e set" and "open" :: "event_e set"
  assumes raises: "ev_id ev' = ev_id ev \<Longrightarrow> autoClearAlarmAfterReport ev' = autoClearAlarmAfterReport ev
      \<Longrightarrow> enabled ev' = enabled ev \<Longrightarrow> raised ev'
      \<Longrightarrow> lastChanged ev' = (if raised ev then lastChanged ev else t) \<Longrightarrow> R i ev ev'"
    and reports: "R i ev (ev\<lparr>lastReported := x\<rparr>)"
    and unchanged: "R i ev ev"
    and enables: "R i ev (ev\<lparr>enabled := True\<rparr>)"
    and disables: "i \<in> free \<Longrightarrow> R i ev (ev\<lparr>enabled := False\<rparr>)"
    and clears: "i \<in> free \<Longrightarrow> ev_id ev' = ev_id ev \<Longrightarrow> autoClearAlarmAfterReport ev' = autoClearAlarmAfterReport ev
      \<Longrightarrow> raised ev' = raised ev \<and> lastChanged ev' = lastChanged ev
          \<or> raised ev \<and> \<not> raised ev' \<and> timercmp_ge t (timeradd (hold_interval ev) (lastChanged ev))
      \<Longrightarrow> R i ev ev'"
    and event_clears: "i \<in> open \<Longrightarrow> R i ev (ev\<lparr>raised := False\<rparr>)"
begin

lemma keeps_raise:
  "keeps R s id (ltntstools_tr101290_alarm_raise s e t)"
  "keeps R s id (ltntstools_tr101290_alarm_raise_with_arg s e msg t)"
  unfolding ltntstools_tr101290_alarm_raise_def ltntstools_tr101290_alarm_raise_with_arg_def
  by (intro keeps_if keeps_upd raises keeps_Some; simp add: Let_def)+

lemma keeps_clear: "e \<in> free \<Longrightarrow> keeps R s id (ltntstools_tr101290_alarm_clear s e t)"
  unfolding ltntstools_tr101290_alarm_clear_def
  by (intro keeps_if keeps_upd clears keeps_Some; simp add: Let_def)

lemma keeps_processing:
  "keeps R s fst (ltntstools_tr101290_event_processing_enable s e)"
  "e \<in> free \<Longrightarrow> keeps R s fst (ltntstools_tr101290_event_processing_disable s e)"
  unfolding ltntstools_tr101290_event_processing_enable_def ltntstools_tr101290_event_processing_disable_def
  by (intro keeps_if keeps_bind keeps_upd keeps_Some; simp add: enables disables)+

lemma keeps_event_clear: "e \<in> open \<Longrightarrow> keeps R s fst (ltntstools_tr101290_event_clear s e)"
  unfolding ltntstools_tr101290_event_clear_def tr101290_event_clear_def
  by (intro keeps_if keeps_bind keeps_upd keeps_Some; simp add: event_clears)

lemma keeps_should_report: "keeps R s fst (ltntstools_tr101290_event_should_report s e)"
proof -
  have "keeps R s fst (Some (s\<lparr>event_tbl := (event_tbl s)[e := ev']\<rparr>, b))"
    if "rd (event_tbl s) e = Some ev" "R e ev ev'" for ev ev' b
    using that table_steps_update [of e "event_tbl s" R ev'] by (auto simp: keeps_def rd_Some)
  then show ?thesis
    unfolding ltntstools_tr101290_event_should_report_def
    by (auto simp: keeps_def Let_def bind_eq_Some_conv reports unchanged split: if_splits)
qed

lemma keeps_report: "keeps R s fst (thread_report alloc t i s)"
  unfolding thread_report_def Let_def
  by (intro keeps_bind keeps_upd keeps_if keeps_read keeps_Some) (simp_all add: reports)

lemma keeps_thread_event: "keeps R s id (thread_event alloc t i s)"
  unfolding thread_event_def
  by (intro keeps_read keeps_if keeps_bind_pair keeps_should_report keeps_report keeps_Some keeps_raise) simp_all

lemmas keeps_alarms_same = keeps_raise [THEN keeps_same] keeps_clear [THEN keeps_same]

lemma keeps_sync_loop:
  assumes "op_clears Op_sync \<subseteq> free"
  shows "keeps R s id (p1_sync_loop t buf n s)"
proof (induction n arbitrary: buf s)
  case (Suc n)
  have "keeps R s id (p1_sync_packet t buf s)" for s
    unfolding p1_sync_packet_def Let_def
    by (intro keeps_if keeps_bind keeps_alarms_same keeps_Some) (use assms in simp_all)
  then show ?case unfolding p1_sync_loop.simps by (intro keeps_read keeps_bind Suc.IH)
qed (simp add: keeps_Some)

lemma keeps_pat:
  assumes "op_clears Op_pat \<subseteq> free"
  shows "keeps R s id (p1_process_p1_3 t buf n s)"
proof -
  have "keeps R s id (case r of (gotPAT, patIssue) \<Rightarrow>
      let patIssue =
            (if \<not> gotPAT \<and> timercmp_ge t (timeradd (tr_lastPAT s) \<lparr>tv_sec = 0, tv_usec = 500 * 1000\<rparr>)
             then patIssue + 1 else patIssue);
          s = (if gotPAT then s\<lparr>tr_lastPAT := t\<rparr> else s)
      in if patIssue \<noteq> 0
         then do { s \<leftarrow> ltntstools_tr101290_alarm_raise s E101290_P1_3__PAT_ERROR t;
                   ltntstools_tr101290_alarm_raise s E101290_P1_3a__PAT_ERROR_2 t }
         else do { s \<leftarrow> ltntstools_tr101290_alarm_clear s E101290_P1_3__PAT_ERROR t;
                   ltntstools_tr101290_alarm_clear s E101290_P1_3a__PAT_ERROR_2 t })" for r
    unfolding case_prod_unfold Let_def by (intro keeps_if keeps_bind keeps_alarms_same) (use assms in simp_all)
  then show ?thesis unfolding p1_process_p1_3_def by (rule keeps_read)
qed

lemma keeps_crc:
  assumes "op_clears Op_crc \<subseteq> free" and now: "tr_now s = t"
  shows "keeps R s id (p2_streammodel_callback s st ctx bad)"
proof -
  have n: "tr_now (s\<lparr>p2 := x\<rparr>) = t" for x using now by simp
  show ?thesis
    unfolding p2_streammodel_callback_def Let_def n
    by (intro keeps_if keeps_Some keeps_alarms_same) (use assms(1) in simp_all)
qed

lemma keeps_reset:
  assumes now: "tr_now s = t"
  shows "keeps R s fst (ltntstools_tr101290_reset_alarms s)"
proof -
  have "keeps R s id (ltntstools_tr101290_alarm_raise_all s)"
    unfolding ltntstools_tr101290_alarm_raise_all_def
  proof (rule keeps_for_events [where P = "\<lambda>s. tr_now s = t"])
    show "keeps R s id (rd (event_tbl s) i \<bind> (\<lambda>ev. ltntstools_tr101290_alarm_raise s (ev_id ev) (tr_now s)))"
      if "tr_now s = t" for i s unfolding that by (intro keeps_read keeps_raise)
  qed (auto simp: now bind_eq_Some_conv dest: alarm_raise_now)
  then show ?thesis
    unfolding ltntstools_tr101290_reset_alarms_def by (rule keeps_bind) (simp add: keeps_Some)
qed

lemma step_changes:
  assumes "tr_step t op s s'" and "op_clears op \<subseteq> free" and "\<And>e. op = Op_event_clear e \<Longrightarrow> e \<in> open"
  shows "table_steps R (event_tbl s) (event_tbl s')"
  using assms
proof (cases rule: tr_step.cases)
  case (tr_raise e)
  then show ?thesis using keepsD [OF keeps_raise(1), of s e s'] by simp
next
  case (tr_raise_arg e msg)
  then show ?thesis using keepsD [OF keeps_raise(2), of s e msg s'] by simp
next
  case (tr_clear e)
  then show ?thesis using keepsD [OF keeps_clear, of e s s'] assms(2) by simp
next
  case (tr_enable e r)
  then show ?thesis using keepsD [OF keeps_processing(1), of s e "(s', r)"] by simp
next
  case (tr_disable e r)
  then show ?thesis using keepsD [OF keeps_processing(2), of e s "(s', r)"] assms(2) by simp
next
  case (tr_event_clear e r)
  then show ?thesis using keepsD [OF keeps_event_clear, of e s "(s', r)"] assms(3) by simp
next
  case (tr_should_report e b)
  then show ?thesis using keepsD [OF keeps_should_report, of s e "(s', b)"] by simp
next
  case (tr_report alloc i b)
  then show ?thesis using keepsD [OF keeps_report, of alloc i s "(s', b)"] by simp
next
  case (tr_thread alloc i)
  then show ?thesis using keepsD [OF keeps_thread_event, of alloc i s s'] by simp
next
  case (tr_sync buf n)
  then show ?thesis using keepsD [OF keeps_sync_loop, of buf n s s'] assms(2) by simp
next
  case (tr_pat buf n)
  then show ?thesis using keepsD [OF keeps_pat, of buf n s s'] assms(2) by simp
next
  case (tr_crc st ctx bad)
  then show ?thesis using keepsD [OF keeps_crc, of s st ctx bad s'] assms(2) by simp
next
  case (tr_reset r)
  then show ?thesis using keepsD [OF keeps_reset, of s "(s', r)"] by simp
qed simp

end

text \<open>
  Three relations of this kind: the identity of the entries, under all operations; the raised
  state of one event within its hold period, as long as the application does not clear it; and
  what is left of a clearing, as long as nothing clears or disables the event.
\<close>

definition same_entry :: entry_rel where
  "same_entry i ev ev' \<longleftrightarrow> ev_id ev' = ev_id ev \<and> autoClearAlarmAfterReport ev' = autoClearAlarmAfterReport ev"

definition held_entry :: "event_e \<Rightarrow> timeval \<Rightarrow> entry_rel" where
  "held_entry e t i ev ev' \<longleftrightarrow> same_entry i ev ev'
     \<and> (i = e \<longrightarrow> raised ev' = raised ev \<and> lastChanged ev' = lastChanged ev
        \<or> \<not> raised ev \<and> raised ev' \<and> lastChanged ev' = t
        \<or> raised ev \<and> \<not> raised ev' \<and> timercmp_ge t (timeradd (hold_interval ev) (lastChanged ev)))"

definition due_entry :: "event_e \<Rightarrow> entry_rel" where
  "due_entry e i ev ev' \<longleftrightarrow> same_entry i ev ev'
     \<and> (i = e \<longrightarrow> enabled ev \<longrightarrow> enabled ev' \<and> (raised ev' \<or> \<not> raised ev \<and> nextAlarm ev' = nextAlarm ev))"

interpretation same: entry_changes same_entry t UNIV UNIV for t
  by unfold_locales (auto simp: same_entry_def)

interpretation held: entry_changes "held_entry e t" t UNIV "- {e}" for e t
  by unfold_locales (auto simp: held_entry_def same_entry_def)

interpretation due: entry_changes "due_entry e" t "- {e}" "- {e}" for e t
  by unfold_locales (auto simp: due_entry_def same_entry_def)

definition held :: "event_e \<Rightarrow> timeval \<Rightarrow> int \<Rightarrow> tr_event_s list \<Rightarrow> bool" where
  "held e t0 a tbl \<longleftrightarrow> e < length tbl \<and> raised (tbl ! e) \<and> lastChanged (tbl ! e) = t0
     \<and> autoClearAlarmAfterReport (tbl ! e) = a"

lemma held_step:
  assumes "tr_step t op s s'" and "op \<noteq> Op_event_clear e" and "held e t0 a (event_tbl s)"
    and "normal t" "normal t0" "0 \<le> a" and "us t < us t0 + a * 1000"
  shows "held e t0 a (event_tbl s')"
proof (rule table_steps_invariant [where P = "held e t0 a", OF held.step_changes [OF assms(1), of e] assms(3)])
  fix x i ev assume h: "held e t0 a x" and i: "i < length x" and st: "held_entry e t i (x ! i) ev"
  have "\<not> timercmp_ge t (timeradd (hold_interval (x ! e)) (lastChanged (x ! e)))"
    using assms(4-7) h hold_interval_us [of "x ! e"]
    by (subst timercmp_ge_us) (auto simp: held_def intro: normal_timeradd)
  then show "held e t0 a (x[i := ev])"
    using h i st by (cases "i = e") (auto simp: held_def held_entry_def same_entry_def)
qed (use assms(2) in auto)

text \<open>
  C23: An alarm that was raised at \<open>t0\<close> stays raised, with the time of its raising, through every
  sequence of operations of the monitor within its hold period, in any interleaving, in which
  the application does not clear this very event by \<open>ltntstools_tr101290_event_clear\<close>: no
  clearing condition, no report, no treatment by the thread and no clearing of other events
  takes it back early. The application's own clearing does, at once.
\<close>

theorem alarm_held:
  assumes "held e t0 a (event_tbl s)" and "normal t0" "0 \<le> a" and "e < E101290_MAX"
    and "(\<lambda>s s'. \<exists>t op. normal t \<and> us t < us t0 + a * 1000 \<and> op \<noteq> Op_event_clear e \<and> tr_step t op s s')\<^sup>*\<^sup>* s s'"
  shows "raised (event_tbl s' ! e) \<and> lastChanged (event_tbl s' ! e) = t0
    \<and> (\<exists>s''. ltntstools_tr101290_event_clear s' e = Some (s'', 0) \<and> \<not> raised (event_tbl s'' ! e))"
proof -
  from assms(5) have "held e t0 a (event_tbl s')"
    by (induction rule: rtranclp_induct) (use assms(1-3) in \<open>auto intro: held_step\<close>)
  then show ?thesis
    using assms(4) by (simp add: held_def ltntstools_tr101290_event_clear_def tr101290_event_clear_def upd_event_def)
qed

definition tr_at :: "int \<Rightarrow> timeval" where
  "tr_at sec = \<lparr>tv_sec = sec, tv_usec = 0\<rparr>"

theorem alarm_held_witness:
  "\<exists>s s1 s2. ltntstools_tr101290_alarm_raise tr101290_initial E101290_P1_3__PAT_ERROR (tr_at 100) = Some s
    \<and> ltntstools_tr101290_alarm_clear s E101290_P1_3__PAT_ERROR (tr_at 102) = Some s1
    \<and> ltntstools_tr101290_event_clear s1 E101290_P1_4__CONTINUITY_COUNTER_ERROR = Some (s2, 0)
    \<and> raised (event_tbl s2 ! E101290_P1_3__PAT_ERROR)"
proof -
  obtain s where s: "ltntstools_tr101290_alarm_raise tr101290_initial E101290_P1_3__PAT_ERROR (tr_at 100) = Some s"
    and h: "held E101290_P1_3__PAT_ERROR (tr_at 100) 5000 (event_tbl s)" and l: "length (event_tbl s) = 16"
    by (simp add: ltntstools_tr101290_alarm_raise_def upd_event_def tr101290_initial_def E101290_MAX_def
        ltntstools_tr101290_event_table_copy_def tr_events_tbl_def tr_row_def held_def Let_def)
  obtain s1 where s1: "ltntstools_tr101290_alarm_clear s E101290_P1_3__PAT_ERROR (tr_at 102) = Some s1"
    and l1: "length (event_tbl s1) = 16"
    using l by (simp add: ltntstools_tr101290_alarm_clear_def upd_event_def E101290_MAX_def)
  obtain s2 where s2: "ltntstools_tr101290_event_clear s1 E101290_P1_4__CONTINUITY_COUNTER_ERROR = Some (s2, 0)"
    using l1 by (simp add: ltntstools_tr101290_event_clear_def tr101290_event_clear_def upd_event_def E101290_MAX_def)
  let ?R = "\<lambda>s s'. \<exists>t op. normal t \<and> us t < us (tr_at 100) + 5000 * 1000
    \<and> op \<noteq> Op_event_clear E101290_P1_3__PAT_ERROR \<and> tr_step t op s s'"
  have "normal (tr_at 102)" "us (tr_at 102) < us (tr_at 100) + 5000 * 1000"
    by (simp_all add: normal_def tr_at_def ltn_timeval_to_us_def)
  then have "?R s s1" "?R s1 s2"
    by (intro exI [of _ "tr_at 102"] exI [of _ "Op_clear E101290_P1_3__PAT_ERROR"] conjI tr_clear [OF s1]; simp)
      (intro exI [of _ "tr_at 102"] exI [of _ "Op_event_clear E101290_P1_4__CONTINUITY_COUNTER_ERROR"] conjI
        tr_event_clear [OF s2]; use \<open>normal (tr_at 102)\<close> \<open>us (tr_at 102) < us (tr_at 100) + 5000 * 1000\<close> in simp)
  then have "?R\<^sup>*\<^sup>* s s2" by (rule converse_rtranclp_into_rtranclp [OF _ r_into_rtranclp [of ?R]])
  from alarm_held [OF h _ _ _ this] s s1 s2 show ?thesis by (auto simp: normal_def tr_at_def E101290_MAX_def)
qed

subsection \<open>Events fall back into alarm\<close>

definition tr_wf :: "tr_event_s list \<Rightarrow> bool" where
  "tr_wf tbl \<longleftrightarrow> length tbl = event_table_entry_count
     \<and> (\<forall>i < length tbl. ev_id (tbl ! i) = i \<and> 0 \<le> autoClearAlarmAfterReport (tbl ! i))"

lemma entry_count [simp]: "event_table_entry_count = 16"
  by (simp add: event_table_entry_count_def tr_events_tbl_def)

lemma tr_wf_initial: "tr_wf (event_tbl tr101290_initial)"
  by (simp add: tr_wf_def tr101290_initial_def ltntstools_tr101290_event_table_copy_def tr_events_tbl_def
      tr_row_def All_less_Suc numeral_eq_Suc)

lemma tr_wf_step: "tr_step t op s s' \<Longrightarrow> tr_wf (event_tbl s) \<Longrightarrow> tr_wf (event_tbl s')"
  by (erule table_steps_invariant [where P = tr_wf, OF same.step_changes])
    (auto simp: tr_wf_def same_entry_def nth_list_update)

lemma names_defined:
  assumes "i < 16"
  shows "\<exists>p n. ltntstools_tr101290_event_priority i = Some p \<and> ltntstools_tr101290_event_name_ascii i = Some n"
  using assms by (simp add: ltntstools_tr101290_event_priority_def ltntstools_tr101290_event_name_ascii_def
      E101290_MAX_def rd_def tr_events_tbl_def)

lemma thread_report_ok:
  assumes "tr_wf (event_tbl s)" "i < 16" "\<And>n. alloc n"
  shows "mem_ok (thread_report alloc now i s) (\<lambda>(s', go). go
    \<and> nextAlarm (event_tbl s' ! i) = nextAlarm (event_tbl s ! i) \<and> tr_wf (event_tbl s'))"
proof -
  let ?ev = "(event_tbl s ! i)\<lparr>lastReported := timeradd now \<lparr>tv_sec = 0, tv_usec = 1000\<rparr>\<rparr>"
  obtain p n where "ltntstools_tr101290_event_priority i = Some p" "ltntstools_tr101290_event_name_ascii i = Some n"
    using names_defined [OF assms(2)] by blast
  moreover have "tr_wf ((event_tbl s)[i := ?ev])"
    using assms(1,2) by (auto simp: tr_wf_def nth_list_update)
  ultimately show ?thesis
    using assms by (simp add: thread_report_def upd_event_def tr_wf_def Let_def)
qed

lemma should_report_ok:
  assumes "tr_wf (event_tbl s)" "i < 16"
  shows "mem_ok (ltntstools_tr101290_event_should_report s i) (\<lambda>(s', b).
    nextAlarm (event_tbl s' ! i) = nextAlarm (event_tbl s ! i) \<and> tr_wf (event_tbl s'))"
proof -
  define ev where "ev = event_tbl s ! i"
  define ev' where "ev' = (if tv_sec (lastReported ev) = 0
    then ev\<lparr>lastReported := (lastReported ev)\<lparr>tv_sec := tv_sec (lastChanged ev) - 1\<rparr>\<rparr> else ev)"
  have "tr_wf ((event_tbl s)[i := ev'])" "nextAlarm ev' = nextAlarm ev"
    using assms by (auto simp: tr_wf_def nth_list_update ev'_def ev_def)
  then show ?thesis
    using assms
    by (simp add: ltntstools_tr101290_event_should_report_def E101290_MAX_def tr_wf_def Let_def
        flip: ev_def ev'_def)
qed

lemma alarm_raise_ok:
  "tr_wf (event_tbl s) \<Longrightarrow> i < 16 \<Longrightarrow> mem_ok (ltntstools_tr101290_alarm_raise s i t) (\<lambda>s'. raised (event_tbl s' ! i))"
  by (simp add: ltntstools_tr101290_alarm_raise_def upd_event_def E101290_MAX_def tr_wf_def Let_def)

lemma thread_event_eq:
  assumes "tr_wf (event_tbl s)" "i < 16" "enabled (event_tbl s ! i)" "\<And>n. alloc n"
  obtains s2 where "tr_wf (event_tbl s2)"
    "thread_event alloc now i s =
       (if timercmp_ge now (nextAlarm (event_tbl s ! i)) then ltntstools_tr101290_alarm_raise s2 i now else Some s2)"
proof -
  have ev: "rd (event_tbl s) i = Some (event_tbl s ! i)" "ev_id (event_tbl s ! i) = i"
    using assms(1,2) by (simp_all add: tr_wf_def)
  obtain s1 b where r: "ltntstools_tr101290_event_should_report s i = Some (s1, b)"
    and n1: "nextAlarm (event_tbl s1 ! i) = nextAlarm (event_tbl s ! i)" and w1: "tr_wf (event_tbl s1)"
    using should_report_ok [OF assms(1,2)] by (auto simp: mem_ok_def)
  obtain s2 where g: "(if b then thread_report alloc now i s1 else Some (s1, True)) = Some (s2, True)"
    and n2: "nextAlarm (event_tbl s2 ! i) = nextAlarm (event_tbl s ! i)" and w2: "tr_wf (event_tbl s2)"
    using thread_report_ok [where now = now and alloc = alloc, OF w1 assms(2,4)] n1 w1 by (cases b) (auto simp: mem_ok_def)
  have "rd (event_tbl s2) i = Some (event_tbl s2 ! i)" "ev_id (event_tbl s2 ! i) = i"
    using w2 assms(2) by (simp_all add: tr_wf_def)
  then show thesis using that [OF w2] assms(3) by (simp add: thread_event_def ev r g n2)
qed

lemma thread_event_raises:
  assumes "tr_wf (event_tbl s)" "i < 16" "enabled (event_tbl s ! i)" "\<And>n. alloc n"
    and "timercmp_ge now (nextAlarm (event_tbl s ! i))"
  shows "mem_ok (thread_event alloc now i s) (\<lambda>s'. raised (event_tbl s' ! i))"
  using thread_event_eq [where alloc = alloc, OF assms(1-4), of now] alarm_raise_ok [OF _ assms(2), of _ now] assms(5)
  by (metis (full_types))

lemma thread_event_defined:
  assumes "tr_wf (event_tbl s)" "i < 16" "enabled (event_tbl s ! i)" "\<And>n. alloc n"
  shows "\<exists>s'. thread_event alloc now i s = Some s'"
proof -
  obtain s2 where "tr_wf (event_tbl s2)" "thread_event alloc now i s =
      (if timercmp_ge now (nextAlarm (event_tbl s ! i)) then ltntstools_tr101290_alarm_raise s2 i now else Some s2)"
    using thread_event_eq [where alloc = alloc, OF assms] by blast
  then show ?thesis using alarm_raise_ok [OF _ assms(2), of s2 now] by (auto simp: mem_ok_def)
qed

text \<open>After a clearing at \<open>t\<close>: the event is enabled, and raised or due when its hold period is over.\<close>

definition due_after :: "event_e \<Rightarrow> timeval \<Rightarrow> int \<Rightarrow> tr_event_s list \<Rightarrow> bool" where
  "due_after e t a tbl \<longleftrightarrow> e < length tbl \<and> enabled (tbl ! e) \<and> autoClearAlarmAfterReport (tbl ! e) = a
     \<and> (raised (tbl ! e) \<or> nextAlarm (tbl ! e) = timeradd t (hold_interval (tbl ! e)))"

lemma hold_interval_same:
  "autoClearAlarmAfterReport ev' = autoClearAlarmAfterReport ev \<Longrightarrow> hold_interval ev' = hold_interval ev"
  by (simp add: hold_interval_def)

lemma due_step:
  assumes "tr_step t' op s s'" and "e \<notin> op_clears op" "op \<noteq> Op_event_clear e" and "due_after e t a (event_tbl s)"
  shows "due_after e t a (event_tbl s')"
proof (rule table_steps_invariant [where P = "due_after e t a", OF due.step_changes [OF assms(1), of e] assms(4)])
  fix x i ev assume h: "due_after e t a x" and i: "i < length x" and st: "due_entry e i (x ! i) ev"
  then show "due_after e t a (x[i := ev])"
    using hold_interval_same [of ev "x ! i"]
    by (cases "i = e") (auto simp: due_after_def due_entry_def same_entry_def)
qed (use assms(2,3) in auto)

lemma thread_event_keeps_raised:
  assumes "tr_wf (event_tbl s)" "i < 16" "enabled (event_tbl s ! i)" "raised (event_tbl s ! i)" "\<And>n. alloc n"
  shows "mem_ok (thread_event alloc now i s) (\<lambda>s'. raised (event_tbl s' ! i))"
proof -
  obtain s' where r: "thread_event alloc now i s = Some s'"
    using thread_event_defined [where alloc = alloc, OF assms(1-3,5)] by blast
  have "i < length (event_tbl s)" using assms(1,2) by (simp add: tr_wf_def)
  then have "i < length (event_tbl s') \<and> enabled (event_tbl s' ! i) \<and> raised (event_tbl s' ! i)"
    using assms(3,4)
    by (intro table_steps_invariant [where P = "\<lambda>x. i < length x \<and> enabled (x ! i) \<and> raised (x ! i)",
          OF keepsD [OF due.keeps_thread_event r, of i, unfolded id_apply]])
      (auto simp: due_entry_def nth_list_update split: if_splits)
  then show ?thesis using r by (simp add: mem_ok_def)
qed

text \<open>
  C24: An enabled event for which no clearing condition arrives falls back into alarm. After a
  clearing at \<open>t\<close> and any sequence of operations, in any interleaving, none of which may clear
  or disable this event, the thread's treatment of the event at a time past its hold period
  leaves it raised, when memory for the report is granted.
\<close>

theorem alarm_returns:
  assumes "tr_wf (event_tbl s)" "e < 16" "enabled (event_tbl s ! e)" "\<And>n. alloc n"
    and "normal t" "normal now" and "us t + autoClearAlarmAfterReport (event_tbl s ! e) * 1000 \<le> us now"
  shows "\<exists>s1. ltntstools_tr101290_alarm_clear s e t = Some s1
    \<and> (\<forall>s2. (\<lambda>s s'. \<exists>t op. e \<notin> op_clears op \<and> op \<noteq> Op_event_clear e \<and> tr_step t op s s')\<^sup>*\<^sup>* s1 s2
         \<longrightarrow> (\<exists>s3. thread_event alloc now e s2 = Some s3 \<and> raised (event_tbl s3 ! e)))"
proof -
  define a where "a = autoClearAlarmAfterReport (event_tbl s ! e)"
  obtain s1 where c: "ltntstools_tr101290_alarm_clear s e t = Some s1" and d1: "due_after e t a (event_tbl s1)"
    using assms(1-3) by (auto simp: ltntstools_tr101290_alarm_clear_def upd_event_def E101290_MAX_def tr_wf_def
        Let_def a_def due_after_def hold_interval_def)
  have w1: "tr_wf (event_tbl s1)" by (rule tr_wf_step [OF tr_clear [OF c] assms(1)])
  have "\<exists>s3. thread_event alloc now e s2 = Some s3 \<and> raised (event_tbl s3 ! e)"
    if "(\<lambda>s s'. \<exists>t op. e \<notin> op_clears op \<and> op \<noteq> Op_event_clear e \<and> tr_step t op s s')\<^sup>*\<^sup>* s1 s2" for s2
  proof -
    from that have "tr_wf (event_tbl s2) \<and> due_after e t a (event_tbl s2)"
      by (induction rule: rtranclp_induct) (use w1 d1 in \<open>auto intro: tr_wf_step due_step\<close>)
    then have w: "tr_wf (event_tbl s2)" and d: "enabled (event_tbl s2 ! e)" "autoClearAlarmAfterReport (event_tbl s2 ! e) = a"
        "raised (event_tbl s2 ! e) \<or> nextAlarm (event_tbl s2 ! e) = timeradd t (hold_interval (event_tbl s2 ! e))"
      by (auto simp: due_after_def)
    have "0 \<le> a" using w assms(2) d(2) by (auto simp: tr_wf_def)
    then have "timercmp_ge now (timeradd t (hold_interval (event_tbl s2 ! e)))"
      using hold_interval_us [of "event_tbl s2 ! e"] assms(5-7) d(2)
      by (subst timercmp_ge_us) (simp_all add: normal_timeradd a_def)
    then show ?thesis
      using d(3) thread_event_raises [where alloc = alloc, OF w assms(2) d(1) assms(4), of now]
        thread_event_keeps_raised [where alloc = alloc, OF w assms(2) d(1) _ assms(4), of now]
      by (auto simp: mem_ok_def)
  qed
  with c show ?thesis by blast
qed

theorem alarm_returns_witness:
  "\<exists>s1 s2 s3. ltntstools_tr101290_alarm_clear tr101290_initial E101290_P1_3__PAT_ERROR (tr_at 100) = Some s1
    \<and> ltntstools_tr101290_alarm_clear s1 E101290_P1_4__CONTINUITY_COUNTER_ERROR (tr_at 103) = Some s2
    \<and> thread_event (\<lambda>_. True) (tr_at 105) E101290_P1_3__PAT_ERROR s2 = Some s3
    \<and> raised (event_tbl s3 ! E101290_P1_3__PAT_ERROR)"
proof -
  obtain s1 where c: "ltntstools_tr101290_alarm_clear tr101290_initial E101290_P1_3__PAT_ERROR (tr_at 100) = Some s1"
    and r: "\<forall>s2. (\<lambda>s s'. \<exists>t op. E101290_P1_3__PAT_ERROR \<notin> op_clears op \<and> op \<noteq> Op_event_clear E101290_P1_3__PAT_ERROR
          \<and> tr_step t op s s')\<^sup>*\<^sup>* s1 s2
        \<longrightarrow> (\<exists>s3. thread_event (\<lambda>_. True) (tr_at 105) E101290_P1_3__PAT_ERROR s2 = Some s3
              \<and> raised (event_tbl s3 ! E101290_P1_3__PAT_ERROR))"
    using alarm_returns [OF tr_wf_initial, of E101290_P1_3__PAT_ERROR "\<lambda>_. True" "tr_at 100" "tr_at 105"]
    by (auto simp: normal_def tr_at_def ltn_timeval_to_us_def tr101290_initial_def
        ltntstools_tr101290_event_table_copy_def tr_events_tbl_def tr_row_def)
  have "tr_wf (event_tbl s1)" by (rule tr_wf_step [OF tr_clear [OF c] tr_wf_initial])
  then obtain s2 where s2: "ltntstools_tr101290_alarm_clear s1 E101290_P1_4__CONTINUITY_COUNTER_ERROR (tr_at 103) = Some s2"
    by (simp add: ltntstools_tr101290_alarm_clear_def upd_event_def E101290_MAX_def tr_wf_def)
  have "(\<lambda>s s'. \<exists>t op. E101290_P1_3__PAT_ERROR \<notin> op_clears op \<and> op \<noteq> Op_event_clear E101290_P1_3__PAT_ERROR
      \<and> tr_step t op s s')\<^sup>*\<^sup>* s1 s2"
    by (intro r_into_rtranclp exI [of _ "tr_at 103"] exI [of _ "Op_clear E101290_P1_4__CONTINUITY_COUNTER_ERROR"])
      (simp add: tr_clear [OF s2])
  with r c s2 show ?thesis by blast
qed

subsection \<open>The table has no entry for the last event\<close>

text \<open>
  \<open>E101290_P4_1__UDP_DROPS\<close> is smaller than \<open>E101290_MAX\<close>, but the static table ends before it.
\<close>

lemma for_events_None:
  assumes "\<And>i s s'. P s \<Longrightarrow> f i s = Some s' \<Longrightarrow> P s'" and "\<And>s. P s \<Longrightarrow> f k s = None"
  shows "k \<in> set is \<Longrightarrow> P s \<Longrightarrow> for_events f is s = None"
proof (induction "is" arbitrary: s)
  case (Cons i "is")
  show ?case
  proof (cases "f i s")
    case (Some s')
    then have "k \<noteq> i" using assms(2) [OF Cons.prems(2)] by auto
    then show ?thesis using Some Cons.IH [of s'] Cons.prems assms(1) [OF Cons.prems(2) Some] by simp
  qed simp
qed simp

lemma upd_event_length: "upd_event i f s = Some s' \<Longrightarrow> length (event_tbl s') = length (event_tbl s)"
  by (auto simp: upd_event_def bind_eq_Some_conv)

lemma reachable_wf:
  "(\<lambda>s s'. \<exists>t op. tr_step t op s s')\<^sup>*\<^sup>* tr101290_initial s \<Longrightarrow> tr_wf (event_tbl s)"
  by (induction rule: rtranclp_induct) (auto intro: tr_wf_initial tr_wf_step)

text \<open>
  C34: In every state the monitor can reach, enabling or disabling all events, and every round of
  its thread, access the event table past its end: the loops run up to \<open>E101290_MAX\<close>, the table
  ends one entry before. The single operations reject only numbers from \<open>E101290_MAX\<close> on (with
  -1 and an unchanged state) and have the same overrun for the last event.
\<close>

theorem event_table_overrun:
  assumes "(\<lambda>s s'. \<exists>t op. tr_step t op s s')\<^sup>*\<^sup>* tr101290_initial s"
  shows "ltntstools_tr101290_event_processing_enable_all s = None
    \<and> ltntstools_tr101290_event_processing_disable_all s = None
    \<and> thread_pass alloc has_cb now s = None
    \<and> ltntstools_tr101290_event_processing_enable s E101290_P4_1__UDP_DROPS = None
    \<and> ltntstools_tr101290_alarm_raise s E101290_P4_1__UDP_DROPS now = None
    \<and> (e \<ge> E101290_MAX \<longrightarrow> ltntstools_tr101290_event_processing_enable s e = Some (s, -1))"
proof -
  have l: "length (event_tbl s) = 16" using reachable_wf [OF assms] by (simp add: tr_wf_def)
  have m: "E101290_P4_1__UDP_DROPS \<in> set [1..<E101290_MAX]" by (simp add: E101290_MAX_def)
  have u: "upd_event E101290_P4_1__UDP_DROPS f s = None" if "length (event_tbl s) = 16" for f s
    using that by (simp add: upd_event_def rd_def)
  have all: "for_events (\<lambda>i. upd_event i f) [1..<E101290_MAX] s = None" for f
    by (rule for_events_None [where P = "\<lambda>s. length (event_tbl s) = 16" and k = E101290_P4_1__UDP_DROPS])
      (use l m u in \<open>auto dest: upd_event_length\<close>)
  have th: "thread_event alloc now E101290_P4_1__UDP_DROPS s = None" if "length (event_tbl s) = 16" for s
    using that by (simp add: thread_event_def rd_def)
  have "for_events (thread_event alloc now) [1..<E101290_MAX] s = None"
  proof (rule for_events_None [where P = "\<lambda>s. length (event_tbl s) = 16" and k = E101290_P4_1__UDP_DROPS])
    show "length (event_tbl s') = 16" if "length (event_tbl s) = 16" "thread_event alloc now i s = Some s'" for i s s'
      using table_steps_invariant [where P = "\<lambda>x. length x = 16", OF keepsD [OF same.keeps_thread_event that(2)]] that(1)
      by simp
  qed (use l m th in auto)
  then show ?thesis
    using all u [OF l]
    by (simp add: ltntstools_tr101290_event_processing_enable_all_def ltntstools_tr101290_event_processing_disable_all_def
        thread_pass_def ltntstools_tr101290_event_processing_enable_def ltntstools_tr101290_alarm_raise_def
        E101290_MAX_def)
qed

theorem event_table_overrun_witness:
  "ltntstools_tr101290_event_processing_enable_all tr101290_initial = None"
  using event_table_overrun [of tr101290_initial] by simp

subsection \<open>Loss of synchronisation\<close>

fun two_missing :: "bool list \<Rightarrow> bool" where
  "two_missing (x # y # xs) \<longleftrightarrow> \<not> x \<and> \<not> y \<or> two_missing (y # xs)"
| "two_missing _ \<longleftrightarrow> False"

lemma two_missing_nth: "two_missing xs \<longleftrightarrow> (\<exists>j. Suc j < length xs \<and> \<not> xs ! j \<and> \<not> xs ! Suc j)"
proof (induction xs rule: two_missing.induct)
  case (1 x y xs)
  have "(\<exists>j. Suc j < length (x # y # xs) \<and> \<not> (x # y # xs) ! j \<and> \<not> (x # y # xs) ! Suc j)
      \<longleftrightarrow> \<not> x \<and> \<not> y \<or> (\<exists>j. Suc j < length (y # xs) \<and> \<not> (y # xs) ! j \<and> \<not> (y # xs) ! Suc j)"
    (is "?l \<longleftrightarrow> ?r")
  proof
    assume ?l
    then obtain j where j: "Suc j < length (x # y # xs)" "\<not> (x # y # xs) ! j" "\<not> (x # y # xs) ! Suc j" by blast
    then show ?r by (cases j) auto
  next
    assume ?r
    then show ?l by (metis Suc_less_eq length_Cons nth_Cons_0 nth_Cons_Suc zero_less_Suc)
  qed
  then show ?case using 1 by simp
qed auto

text \<open>
  The state of the sync check within one write at time \<open>t\<close>: the number of sync errors in a row
  and whether the loss alarm is raised, which only this write has done.
\<close>

definition sync_state :: "timeval \<Rightarrow> int \<Rightarrow> bool \<Rightarrow> ltntstools_tr101290_s \<Rightarrow> bool" where
  "sync_state t k b s \<longleftrightarrow> 2 < length (event_tbl s) \<and> consecutiveSyncErrors s = k
     \<and> raised (event_tbl s ! 1) = b \<and> (b \<longrightarrow> lastChanged (event_tbl s ! 1) = t)
     \<and> 0 < autoClearAlarmAfterReport (event_tbl s ! 1)"

lemma alarm_other:
  assumes "e \<noteq> i" "e < length (event_tbl s)" "e < E101290_MAX"
  shows "mem_ok (ltntstools_tr101290_alarm_raise s e t) (\<lambda>s'. event_tbl s' ! i = event_tbl s ! i
      \<and> length (event_tbl s') = length (event_tbl s) \<and> consecutiveSyncErrors s' = consecutiveSyncErrors s)"
    and "mem_ok (ltntstools_tr101290_alarm_clear s e t) (\<lambda>s'. event_tbl s' ! i = event_tbl s ! i
      \<and> length (event_tbl s') = length (event_tbl s) \<and> consecutiveSyncErrors s' = consecutiveSyncErrors s)"
  using assms by (simp_all add: ltntstools_tr101290_alarm_raise_def ltntstools_tr101290_alarm_clear_def
      upd_event_def Let_def)

lemma sync_clear:
  assumes "sync_state t k b s" "normal t"
  shows "mem_ok (ltntstools_tr101290_alarm_clear s E101290_P1_1__TS_SYNC_LOSS t) (sync_state t k b)"
proof -
  let ?ev = "event_tbl s ! 1"
  have "\<not> timercmp_ge t (timeradd (hold_interval ?ev) (lastChanged ?ev))" if b
    using that assms hold_interval_us [of ?ev]
    by (subst timercmp_ge_us) (auto simp: sync_state_def intro: normal_timeradd)
  then show ?thesis
    using assms by (auto simp: ltntstools_tr101290_alarm_clear_def upd_event_def E101290_MAX_def sync_state_def Let_def
        hold_interval_def)
qed

lemma sync_raise:
  assumes "sync_state t k b s"
  shows "mem_ok (ltntstools_tr101290_alarm_raise s E101290_P1_1__TS_SYNC_LOSS t) (sync_state t k True)"
  using assms by (auto simp: ltntstools_tr101290_alarm_raise_def upd_event_def E101290_MAX_def sync_state_def Let_def)

lemma sync_byte_alarm:
  assumes "sync_state t k b s"
  shows "mem_ok (ltntstools_tr101290_alarm_raise s E101290_P1_2__SYNC_BYTE_ERROR t) (sync_state t k b)"
    and "mem_ok (ltntstools_tr101290_alarm_clear s E101290_P1_2__SYNC_BYTE_ERROR t) (sync_state t k b)"
  using alarm_other [of E101290_P1_2__SYNC_BYTE_ERROR 1 s t] assms
  by (auto simp: sync_state_def E101290_MAX_def elim!: mem_ok_mono)

lemma sync_packet_ok:
  assumes "sync_state t k b s" "normal t"
  shows "mem_ok (p1_sync_packet t pkt s)
    (if ltntstools_sync_present pkt then sync_state t 0 b else sync_state t (k + 1) (b \<or> k + 1 \<ge> SYNC_LOSS_THRESHOLD))"
proof (cases "ltntstools_sync_present pkt")
  case True
  define s1 where "s1 = s\<lparr>consecutiveSyncBytes := consecutiveSyncBytes s + 1, consecutiveSyncErrors := 0\<rparr>"
  have s1: "sync_state t 0 b s1" using assms(1) by (simp add: sync_state_def s1_def)
  have r: "sync_state t 0 b (x\<lparr>consecutiveSyncBytes := 16\<rparr>) = sync_state t 0 b x" for x
    by (simp add: sync_state_def)
  have "mem_ok (ltntstools_tr101290_alarm_clear s1 E101290_P1_2__SYNC_BYTE_ERROR t
      \<bind> (\<lambda>s. ltntstools_tr101290_alarm_clear s E101290_P1_1__TS_SYNC_LOSS t)) (sync_state t 0 b)"
    using sync_byte_alarm(2) [OF s1] by (auto elim!: mem_ok_mono intro: sync_clear assms(2) simp del: One_nat_def)
  then have "mem_ok (if consecutiveSyncBytes s1 > 5 then ltntstools_tr101290_alarm_clear s1 E101290_P1_2__SYNC_BYTE_ERROR t
      \<bind> (\<lambda>s. ltntstools_tr101290_alarm_clear s E101290_P1_1__TS_SYNC_LOSS t) else Some s1) (sync_state t 0 b)"
    using s1 by simp
  then obtain s2 where e: "(if consecutiveSyncBytes s1 > 5 then ltntstools_tr101290_alarm_clear s1 E101290_P1_2__SYNC_BYTE_ERROR t
      \<bind> (\<lambda>s. ltntstools_tr101290_alarm_clear s E101290_P1_1__TS_SYNC_LOSS t) else Some s1) = Some s2"
    and q: "sync_state t 0 b s2" by (auto simp: mem_ok_def simp del: One_nat_def)
  have "p1_sync_packet t pkt s
      = Some (if consecutiveSyncBytes s2 \<ge> 50000 then s2\<lparr>consecutiveSyncBytes := 16\<rparr> else s2)"
    unfolding p1_sync_packet_def Let_def s1_def [symmetric] e if_P [OF True] by simp
  then show ?thesis using True q r by simp
next
  case False
  define s1 where "s1 = s\<lparr>consecutiveSyncBytes := 0, consecutiveSyncErrors := consecutiveSyncErrors s + 1\<rparr>"
  have s1: "sync_state t (k + 1) b s1" using assms(1) by (simp add: sync_state_def s1_def)
  obtain s2 where s2: "ltntstools_tr101290_alarm_raise s1 E101290_P1_2__SYNC_BYTE_ERROR t = Some s2"
    and q: "sync_state t (k + 1) b s2"
    using sync_byte_alarm(1) [OF s1] by (auto simp: mem_ok_def)
  have "consecutiveSyncErrors s2 = k + 1" using q by (simp add: sync_state_def)
  then show ?thesis
    unfolding p1_sync_packet_def Let_def s1_def [symmetric]
    using q sync_raise [OF q] by (simp add: False s2)
qed


lemma sync_loop_ok:
  assumes "sync_state t k b s" "normal t" "0 \<le> k" "188 * n \<le> length buf"
  defines "flags \<equiv> map (\<lambda>i. ltntstools_sync_present (drop (188 * i) buf)) [0..<n]"
  shows "mem_ok (p1_sync_loop t buf n s) (\<lambda>s'. raised (event_tbl s' ! 1)
    \<longleftrightarrow> b \<or> k \<ge> 1 \<and> flags \<noteq> [] \<and> \<not> hd flags \<or> two_missing flags)"
  using assms(1-4) unfolding flags_def
proof (induction n arbitrary: k b s buf)
  case 0
  then show ?case by (simp add: sync_state_def)
next
  case (Suc n)
  let ?fs = "map (\<lambda>i. ltntstools_sync_present (drop (188 * i) (drop 188 buf))) [0..<n]"
  let ?f = "ltntstools_sync_present buf"
  have fl: "map (\<lambda>i. ltntstools_sync_present (drop (188 * i) buf)) [0..<Suc n] = ?f # ?fs"
    by (simp add: map_upt_Suc add.commute del: upt_Suc)
  obtain s1 where s1: "p1_sync_packet t buf s = Some s1"
    and q: "(if ?f then sync_state t 0 b else sync_state t (k + 1) (b \<or> k + 1 \<ge> SYNC_LOSS_THRESHOLD)) s1"
    using sync_packet_ok [OF Suc.prems(1,2), of buf] by (auto simp: mem_ok_def)
  have "buf \<noteq> []" using Suc.prems(4) by auto
  then have lp: "p1_sync_loop t buf (Suc n) s = p1_sync_loop t (drop 188 buf) n s1" by (simp add: s1)
  have two: "two_missing (False # xs) \<longleftrightarrow> xs \<noteq> [] \<and> \<not> hd xs \<or> two_missing xs"
    "two_missing (True # xs) \<longleftrightarrow> two_missing xs" for xs by (cases xs; simp)+
  show ?case
  proof (cases ?f)
    case True
    then have "sync_state t 0 b s1" using q by simp
    from Suc.IH [OF this Suc.prems(2), of "drop 188 buf"] have "mem_ok (p1_sync_loop t (drop 188 buf) n s1)
        (\<lambda>s'. raised (event_tbl s' ! 1) \<longleftrightarrow> b \<or> two_missing ?fs)" using Suc.prems(4) by simp
    then show ?thesis using True unfolding lp fl by (auto simp: two elim!: mem_ok_mono simp del: drop_drop)
  next
    case False
    then have "sync_state t (k + 1) (b \<or> k + 1 \<ge> SYNC_LOSS_THRESHOLD) s1" using q by simp
    from Suc.IH [OF this Suc.prems(2), of "drop 188 buf"] have "mem_ok (p1_sync_loop t (drop 188 buf) n s1)
        (\<lambda>s'. raised (event_tbl s' ! 1)
           \<longleftrightarrow> (b \<or> k + 1 \<ge> SYNC_LOSS_THRESHOLD) \<or> ?fs \<noteq> [] \<and> \<not> hd ?fs \<or> two_missing ?fs)"
      using Suc.prems(3,4) by simp
    then show ?thesis using False Suc.prems(3) unfolding lp fl
      by (auto simp: two SYNC_LOSS_THRESHOLD_def elim!: mem_ok_mono simp del: drop_drop)
  qed
qed

text \<open>
  C35: Within a write that starts in synchronisation, the loss alarm P1.1 is raised exactly when
  two consecutive packets lack the sync byte, wherever they are in the buffer and whatever
  follows them.
\<close>

theorem sync_loss_detected:
  assumes "tr_wf (event_tbl s)" and "consecutiveSyncErrors s = 0" and "\<not> raised (event_tbl s ! E101290_P1_1__TS_SYNC_LOSS)"
    and "0 < autoClearAlarmAfterReport (event_tbl s ! E101290_P1_1__TS_SYNC_LOSS)"
    and "normal t" "188 * n \<le> length buf"
  shows "\<exists>s'. p1_sync_loop t buf n s = Some s'
    \<and> (raised (event_tbl s' ! E101290_P1_1__TS_SYNC_LOSS)
       \<longleftrightarrow> (\<exists>j. Suc j < n \<and> buf ! (188 * j) \<noteq> 0x47 \<and> buf ! (188 * Suc j) \<noteq> 0x47))"
proof -
  have "sync_state t 0 False s" using assms(1-4) by (simp add: sync_state_def tr_wf_def)
  from sync_loop_ok [OF this assms(5) _ assms(6)]
  have m: "mem_ok (p1_sync_loop t buf n s) (\<lambda>s'. raised (event_tbl s' ! 1)
      \<longleftrightarrow> two_missing (map (\<lambda>i. ltntstools_sync_present (drop (188 * i) buf)) [0..<n]))" by simp
  have p: "ltntstools_sync_present (drop (188 * i) buf) \<longleftrightarrow> buf ! (188 * i) = 0x47" if "i < n" for i
    using that assms(6) by (simp add: ltntstools_sync_present_def)
  have "two_missing (map (\<lambda>i. ltntstools_sync_present (drop (188 * i) buf)) [0..<n])
      \<longleftrightarrow> (\<exists>j. Suc j < n \<and> buf ! (188 * j) \<noteq> 0x47 \<and> buf ! (188 * Suc j) \<noteq> 0x47)"
    unfolding two_missing_nth
  proof (intro ex_cong1)
    fix j
    show "(Suc j < length (map (\<lambda>i. ltntstools_sync_present (drop (188 * i) buf)) [0..<n])
        \<and> \<not> map (\<lambda>i. ltntstools_sync_present (drop (188 * i) buf)) [0..<n] ! j
        \<and> \<not> map (\<lambda>i. ltntstools_sync_present (drop (188 * i) buf)) [0..<n] ! Suc j)
      \<longleftrightarrow> (Suc j < n \<and> buf ! (188 * j) \<noteq> 0x47 \<and> buf ! (188 * Suc j) \<noteq> 0x47)"
      using p [of j] p [of "Suc j"] by (cases "Suc j < n") (simp_all del: mult_Suc_right)
  qed
  then show ?thesis using m by (auto simp: mem_ok_def)
qed

theorem sync_loss_detected_witness:
  "\<exists>s'. p1_sync_loop (tr_at 1) (replicate 376 0) 2 tr101290_initial = Some s'
    \<and> raised (event_tbl s' ! E101290_P1_1__TS_SYNC_LOSS)"
proof -
  have "\<exists>s'. p1_sync_loop (tr_at 1) (replicate 376 0) 2 tr101290_initial = Some s'
    \<and> (raised (event_tbl s' ! E101290_P1_1__TS_SYNC_LOSS)
       \<longleftrightarrow> (\<exists>j. Suc j < 2 \<and> replicate 376 0 ! (188 * j) \<noteq> (0x47 :: u8) \<and> replicate 376 0 ! (188 * Suc j) \<noteq> (0x47 :: u8)))"
    by (rule sync_loss_detected [OF tr_wf_initial])
      (simp_all add: normal_def tr_at_def tr101290_initial_def ltntstools_tr101290_event_table_copy_def
        tr_events_tbl_def tr_row_def)
  moreover have "\<exists>j. Suc j < 2 \<and> replicate 376 0 ! (188 * j) \<noteq> (0x47 :: u8) \<and> replicate 376 0 ! (188 * Suc j) \<noteq> (0x47 :: u8)"
    by (rule exI [of _ 0]) simp
  ultimately show ?thesis by blast
qed

end
