(* ===== verification/HistoryMetric.thy ===== *)
theory HistoryMetric
  imports TsPrelude
begin

text \<open>
  The history of a metric (\<open>src/src/history-metric.c\<close>): a list of time-stamped counts, the newest
  first, from which entries older than 25 hours are meant to be dropped.

  The intrusive list is the list of its entries; its lock makes an operation atomic. \<open>time\<close> is
  an argument, the time it reports. An access to a metric that was freed is \<open>None\<close>.
\<close>

subsection \<open>State and operations\<close>

record ltntstools_history_metric_s =
  hm_ts :: int
  hm_count :: u64

record ltntstools_history_metric_collection_s =
  hm_list :: "ltntstools_history_metric_s list"
  hm_name :: "string option"
  wasAlloc :: bool

text \<open>A metric takes 32 bytes, a collection 72. \<open>None\<close> is a \<open>NULL\<close> result.\<close>

definition ltntstools_history_metric_alloc ::
  "allocator \<Rightarrow> int \<Rightarrow> u64 \<Rightarrow> ltntstools_history_metric_s option" where
  "ltntstools_history_metric_alloc alloc now value =
     (if alloc 32 then Some \<lparr>hm_ts = now, hm_count = value\<rparr> else None)"

text \<open>The return code with the initialised collection; \<open>name\<close> is \<open>None\<close> for \<open>NULL\<close>.\<close>

definition ltntstools_history_metric_collection_init ::
  "allocator \<Rightarrow> string option \<Rightarrow> int \<times> ltntstools_history_metric_collection_s option" where
  "ltntstools_history_metric_collection_init alloc name =
     (case name of
        None \<Rightarrow> (-1, None)
      | Some n \<Rightarrow> (0, Some \<lparr>hm_list = [], hm_name = (if alloc (length n + 1) then Some n else None),
                            wasAlloc = False\<rparr>))"

definition ltntstools_history_metric_collection_alloc ::
  "allocator \<Rightarrow> string option \<Rightarrow> ltntstools_history_metric_collection_s option" where
  "ltntstools_history_metric_collection_alloc alloc name =
     (if name = None then None
      else if alloc 72
      then map_option (\<lambda>c. c\<lparr>wasAlloc := True\<rparr>) (snd (ltntstools_history_metric_collection_init alloc name))
      else None)"

text \<open>The loop that takes the first entry off the list until none is left.\<close>

fun metric_drain :: "ltntstools_history_metric_s list \<Rightarrow> ltntstools_history_metric_s list" where
  "metric_drain ms = (case ms of [] \<Rightarrow> [] | m # rest \<Rightarrow> metric_drain rest)"

declare metric_drain.simps [simp del]

definition ltntstools_history_metric_collection_reset ::
  "ltntstools_history_metric_collection_s option \<Rightarrow> ltntstools_history_metric_collection_s option" where
  "ltntstools_history_metric_collection_reset c =
     map_option (\<lambda>c. c\<lparr>hm_list := metric_drain (hm_list c)\<rparr>) c"

text \<open>
  The second half of \<open>add\<close>: the scan for entries older than \<open>window\<close>. The body of the loop
  unlinks and frees \<open>m\<close>, the metric just added, whichever entry \<open>e\<close> is too old. \<open>freed\<close> records
  that it has happened; doing it again reads the freed metric. The result is \<open>freed\<close>.
\<close>

fun history_expire :: "int \<Rightarrow> bool \<Rightarrow> ltntstools_history_metric_s list \<Rightarrow> bool mem" where
  "history_expire window freed [] = Some freed"
| "history_expire window freed (e # es) =
     (if hm_ts e < window
      then if freed then None else history_expire window True es
      else history_expire window freed es)"

definition ltntstools_history_metric_collection_add ::
  "int \<Rightarrow> ltntstools_history_metric_collection_s option \<Rightarrow> ltntstools_history_metric_s option
    \<Rightarrow> ltntstools_history_metric_collection_s option mem" where
  "ltntstools_history_metric_collection_add now c m =
     (case (c, m) of
        (Some c, Some m) \<Rightarrow>
          do { let added = m # hm_list c;
               freed \<leftarrow> history_expire (now - 25 * 60 * 60) False added;
               Some (Some (c\<lparr>hm_list := (if freed then hm_list c else added)\<rparr>)) }
      | _ \<Rightarrow> Some c)"

text \<open>The sum of \<open>count_until\<close>: the test in the loop does not look at the entry.\<close>

fun history_sum :: "int \<Rightarrow> int \<Rightarrow> ltntstools_history_metric_s list \<Rightarrow> u64 \<Rightarrow> u64" where
  "history_sum now window [] acc = acc"
| "history_sum now window (m # ms) acc =
     history_sum now window ms (if now \<le> window then acc + hm_count m else acc)"

text \<open>The return code with the stored result.\<close>

definition ltntstools_history_metric_collection_count_until ::
  "int \<Rightarrow> ltntstools_history_metric_collection_s option \<Rightarrow> int \<Rightarrow> int \<times> u64 option" where
  "ltntstools_history_metric_collection_count_until now c window =
     (case c of None \<Rightarrow> (-1, None) | Some c \<Rightarrow> (0, Some (history_sum now window (hm_list c) 0)))"

text \<open>\<open>time\<close> is read here for the window and again in \<open>count_until\<close>: \<open>t1\<close>, then \<open>t2\<close>.\<close>

definition ltntstools_history_metric_collection_count_until_1hr ::
  "int \<Rightarrow> int \<Rightarrow> ltntstools_history_metric_collection_s option \<Rightarrow> int \<times> u64 option" where
  "ltntstools_history_metric_collection_count_until_1hr t1 t2 c =
     (case c of None \<Rightarrow> (-1, None)
      | Some _ \<Rightarrow> ltntstools_history_metric_collection_count_until t2 c (t1 - 3600))"

definition ltntstools_history_metric_collection_count_until_24hr ::
  "int \<Rightarrow> int \<Rightarrow> ltntstools_history_metric_collection_s option \<Rightarrow> int \<times> u64 option" where
  "ltntstools_history_metric_collection_count_until_24hr t1 t2 c =
     (case c of None \<Rightarrow> (-1, None)
      | Some _ \<Rightarrow> ltntstools_history_metric_collection_count_until t2 c (t1 - 86400))"

subsection \<open>What the operations do\<close>

lemma metric_drain_Nil [simp]: "metric_drain ms = []"
  by (induction ms) (simp_all add: metric_drain.simps)

lemma history_sum_past: "window < now \<Longrightarrow> history_sum now window ms acc = acc"
  by (induction ms arbitrary: acc) auto

text \<open>The entries that \<open>add\<close> finds too old at the time \<open>now\<close>.\<close>

definition expired :: "int \<Rightarrow> ltntstools_history_metric_s list \<Rightarrow> ltntstools_history_metric_s list" where
  "expired now ms = filter (\<lambda>e. hm_ts e < now - 25 * 60 * 60) ms"

lemma history_expire_eq:
  "history_expire (now - 25 * 60 * 60) freed es =
     (if length (expired now es) + of_bool freed \<le> 1 then Some (freed \<or> expired now es \<noteq> []) else None)"
  by (induction es arbitrary: freed) (auto simp: expired_def)

lemma history_add_eq:
  "ltntstools_history_metric_collection_add now (Some c) (Some m) =
     (if length (expired now (m # hm_list c)) \<le> 1
      then Some (Some (if expired now (m # hm_list c) = [] then c\<lparr>hm_list := m # hm_list c\<rparr> else c))
      else None)"
  by (simp only: ltntstools_history_metric_collection_add_def prod.case option.case Let_def history_expire_eq)
     (auto simp: history_expire_eq)

lemma history_add_fresh:
  assumes "\<forall>e \<in> set (m # hm_list c). now - 90000 \<le> hm_ts e"
  shows "ltntstools_history_metric_collection_add now (Some c) (Some m) = Some (Some (c\<lparr>hm_list := m # hm_list c\<rparr>))"
proof -
  have "expired now (m # hm_list c) = []" using assms by (auto simp: expired_def filter_empty_conv)
  then show ?thesis by (simp add: history_add_eq)
qed

subsection \<open>A history over time\<close>

text \<open>Events at the given times, each recorded with a count of one when it happens.\<close>

fun history_run :: "allocator \<Rightarrow> ltntstools_history_metric_collection_s \<Rightarrow> int list
    \<Rightarrow> ltntstools_history_metric_collection_s mem" where
  "history_run alloc c [] = Some c"
| "history_run alloc c (t # ts) =
     do { c \<leftarrow> ltntstools_history_metric_collection_add t (Some c) (ltntstools_history_metric_alloc alloc t 1);
          history_run alloc (the c) ts }"

abbreviation event :: "int \<Rightarrow> ltntstools_history_metric_s" where
  "event t \<equiv> \<lparr>hm_ts = t, hm_count = 1\<rparr>"

lemma history_run_append:
  "history_run alloc c (ts @ us) = do { c \<leftarrow> history_run alloc c ts; history_run alloc c us }"
  by (induction ts arbitrary: c) (simp_all add: bind_assoc)

lemma history_run_snoc:
  assumes "alloc 32" "history_run alloc c ts = Some c'"
  shows "history_run alloc c (ts @ [t]) =
    (if length (expired t (hm_list c')) \<le> 1
     then Some (if expired t (hm_list c') = [] then c'\<lparr>hm_list := event t # hm_list c'\<rparr> else c') else None)"
proof -
  have "expired t (event t # hm_list c') = expired t (hm_list c')" by (simp add: expired_def)
  then show ?thesis
    using assms(2) by (simp add: history_run_append ltntstools_history_metric_alloc_def assms(1) history_add_eq)
qed

lemma history_run_None: "history_run alloc c ts = None \<Longrightarrow> history_run alloc c (ts @ us) = None"
  by (simp add: history_run_append)

text \<open>What is too old at \<open>t\<close> among the events kept from a sorted sequence.\<close>

lemma expired_kept:
  assumes "sorted (t0 # t1 # ts @ [t])" and "t1 \<le> t0 + 90000"
  defines "kept \<equiv> filter (\<lambda>x. x \<le> t0 + 90000) (t0 # t1 # ts)"
  shows "t \<le> t0 + 90000 \<Longrightarrow> expired t (rev (map event kept)) = []"
    and "t0 + 90000 < t \<Longrightarrow> t \<le> t1 + 90000 \<Longrightarrow> expired t (rev (map event kept)) = [event t0]"
    and "t1 + 90000 < t \<Longrightarrow> \<not> length (expired t (rev (map event kept))) \<le> 1"
proof -
  have e: "expired t (rev (map event kept)) = rev (map event (filter (\<lambda>x. x < t - 90000) kept))"
    by (simp add: expired_def filter_map o_def flip: rev_filter)
  have o: "\<forall>x \<in> set ts. t1 \<le> x" "t0 \<le> t1" using assms(1) by auto
  show "t \<le> t0 + 90000 \<Longrightarrow> expired t (rev (map event kept)) = []"
    unfolding e using o by (auto simp: kept_def filter_empty_conv)
  show "t0 + 90000 < t \<Longrightarrow> t \<le> t1 + 90000 \<Longrightarrow> expired t (rev (map event kept)) = [event t0]"
    unfolding e using o assms(2) by (auto simp: kept_def filter_empty_conv)
  show "t1 + 90000 < t \<Longrightarrow> \<not> length (expired t (rev (map event kept))) \<le> 1"
    unfolding e using o assms(2) by (auto simp: kept_def)
qed

lemma history_run_sorted:
  assumes "alloc 32" "hm_list c = []" "t1 \<le> t0 + 90000"
  shows "sorted (t0 # t1 # ts) \<Longrightarrow> history_run alloc c (t0 # t1 # ts) =
    (if \<forall>t \<in> set ts. t \<le> t1 + 90000
     then Some (c\<lparr>hm_list := rev (map event (filter (\<lambda>x. x \<le> t0 + 90000) (t0 # t1 # ts)))\<rparr>) else None)"
proof (induction ts rule: rev_induct)
  case Nil
  then show ?case using assms
    by (simp add: ltntstools_history_metric_alloc_def history_add_eq expired_def)
next
  case (snoc t ts)
  let ?pre = "t0 # t1 # ts" let ?kept = "filter (\<lambda>x. x \<le> t0 + 90000) ?pre"
  have s: "sorted (t0 # t1 # ts @ [t])" and p: "sorted ?pre"
    using snoc.prems sorted_append [of ?pre "[t]"] by simp_all
  show ?case
  proof (cases "\<forall>t \<in> set ts. t \<le> t1 + 90000")
    case True
    then have r: "history_run alloc c ?pre = Some (c\<lparr>hm_list := rev (map event ?kept)\<rparr>)"
      using snoc.IH [OF p] by simp
    note run = history_run_snoc [OF assms(1) r, of t, simplified select_convs update_convs]
    consider "t \<le> t0 + 90000" | "t0 + 90000 < t" "t \<le> t1 + 90000" | "t1 + 90000 < t" by linarith
    then show ?thesis
    proof cases
      case 1
      then show ?thesis using run expired_kept(1) [OF s assms(3) 1] True s by simp
    next
      case 2
      then show ?thesis using run expired_kept(2) [OF s assms(3) 2] True s by simp
    next
      case 3
      then show ?thesis using run expired_kept(3) [OF s assms(3) 3] by simp
    qed
  next
    case False
    then show ?thesis using snoc.IH [OF p] history_run_None [of alloc c ?pre "[t]"] by auto
  qed
qed



end
