(* ===== verification/Stats.thy ===== *)
theory Stats
  imports HistoryMetric Histogram Complex_Main
begin

text \<open>
  The statistics of a transport stream: \<open>src/src/stats.c\<close>.

  The table \<open>internal_pids\<close>, 8192 pointers, is a map from the 13-bit PID; the allocation never
  hands out a stream without it. The counters are \<open>nat\<close>, since they count packets; \<open>pps\<close> and
  \<open>Bps\<close> are \<open>u32\<close> as the code computes with them. Values of type \<open>double\<close> are the rational
  numbers that the code rounds. Of the three clocks of a PID only the PCR clock is ever used.
  A callback is recorded in \<open>fired\<close>: the event, the user context and the PID it is called for.
  The times \<open>ts\<close> (\<open>gettimeofday\<close>) and \<open>now\<close> (\<open>time\<close>) are read once per operation. A buffer has less than
  \<open>2 ^ 31\<close> bytes, so that the offset of a packet fits \<open>int\<close>. The code under
  \<open>EXPERIMENTAL_REORDERING\<close>, which \<open>stats.h\<close> switches off, is left out.
\<close>

unbundle bit_operations_syntax

subsection \<open>State\<close>

abbreviation (input) EVENT_UPDATE_PID_PUSI_DELIVERY_TIME :: int where "EVENT_UPDATE_PID_PUSI_DELIVERY_TIME \<equiv> 1"
abbreviation (input) EVENT_UPDATE_PID_PCR_EXCEEDS_40MS :: int where "EVENT_UPDATE_PID_PCR_EXCEEDS_40MS \<equiv> 2"
abbreviation (input) EVENT_UPDATE_PID_PCR_WALLTIME :: int where "EVENT_UPDATE_PID_PCR_WALLTIME \<equiv> 3"
abbreviation (input) EVENT_UPDATE_STREAM_CC_COUNT :: int where "EVENT_UPDATE_STREAM_CC_COUNT \<equiv> 4"
abbreviation (input) EVENT_UPDATE_STREAM_TEI_COUNT :: int where "EVENT_UPDATE_STREAM_TEI_COUNT \<equiv> 5"
abbreviation (input) EVENT_UPDATE_STREAM_SCRAMBLED_COUNT :: int where "EVENT_UPDATE_STREAM_SCRAMBLED_COUNT \<equiv> 6"
abbreviation (input) EVENT_UPDATE_STREAM_MBPS :: int where "EVENT_UPDATE_STREAM_MBPS \<equiv> 7"
abbreviation (input) EVENT_UPDATE_PCR_MBPS :: int where "EVENT_UPDATE_PCR_MBPS \<equiv> 8"
abbreviation (input) EVENT_UPDATE_STREAM_IAT_HWM :: int where "EVENT_UPDATE_STREAM_IAT_HWM \<equiv> 9"

definition EVENT_NOTIFICATION_MAX :: int where
  "EVENT_NOTIFICATION_MAX = 10"

definition MAX_PID :: nat where
  "MAX_PID = 8192"

record ltntstools_bc_ctx_s =
  running :: bool
  pcrpidnr :: u16
  pcrFirst :: int
  pcrSecond :: int
  packetsInbetween :: nat
  bitrate :: rat
  ticksPerPCR :: int
  ticksPerPacket :: int
  stc :: int
  ccErrorsStreamLastWrite :: nat

record ltntstools_pid_statistics_s =
  pid_enabled :: bool
  pidNr :: u16
  pid_packetCount :: nat
  pid_ccErrors :: nat
  pid_teiErrors :: nat
  pid_scrambledCount :: nat
  pid_pcrExceeds40ms :: nat
  pid_prev_pcrExceeds40ms :: nat
  pid_payloadPUSIErrors :: nat
  lastCC :: u8
  pid_pps_last_update :: int
  pid_pps :: u32
  pid_pps_window :: u32
  pid_mbps :: rat
  hasPCR :: bool
  seenPCR :: int
  pcr_clock :: ltntstools_clock_s
  pcrTickIntervals :: "ltn_histogram_s option"
  pcrWallDrift :: "ltn_histogram_s option"
  lastPCRWalltimeDriftMs :: int
  pusi_time_first :: timeval
  pusi_time_current :: timeval
  pusi_time_ms :: int

record ltntstools_stream_statistics_s =
  internal_pids :: "u16 \<rightharpoonup> ltntstools_pid_statistics_s"
  pidArray :: "u16 list"
  packetCount :: nat
  teiErrors :: nat
  ccErrors :: nat
  ccErrorHistory :: ltntstools_history_metric_collection_s
  scrambledCount :: nat
  pcrExceeds40ms :: nat
  prev_pcrExceeds40ms :: nat
  payloadPUSIErrors :: nat
  pps_last_update :: int
  pps :: u32
  pps_window :: u32
  mbps :: rat
  a324_sequence_number :: u16
  Bps_last_update :: int
  Bps :: u32
  Bps_window :: u32
  a324_mbps :: rat
  a324_bps :: rat
  last_cc_error :: int
  notMultipleOfSevenError :: nat
  last_notMultipleOfSeven_error :: int
  iat_lwm_us :: int
  iat_hwm_us :: int
  iat_cur_us :: int
  iat_hwm_us_last_nsecond :: int
  iat_hwm_us_last_nsecond_accumulator :: int
  iat_hwm_us_last_nsecond_time :: int
  iat_last_frame :: timeval
  packetIntervals :: ltn_histogram_s
  notifications :: "int \<rightharpoonup> nat \<times> nat"
  bc_ctx :: ltntstools_bc_ctx_s
  fired :: "(int \<times> nat \<times> u16 option) list"

type_synonym stream = ltntstools_stream_statistics_s
type_synonym pid_stats = ltntstools_pid_statistics_s

subsection \<open>Notifications\<close>

text \<open>A callback is a number, \<open>None\<close> is \<open>NULL\<close>.\<close>

definition ltntstools_notification_register_callback ::
  "stream option \<Rightarrow> int \<Rightarrow> nat \<Rightarrow> nat option \<Rightarrow> int \<times> stream option" where
  "ltntstools_notification_register_callback stream e userContext cb =
     (case stream of
        None \<Rightarrow> (-1, None)
      | Some s \<Rightarrow>
          if e < 0 \<or> e \<ge> EVENT_NOTIFICATION_MAX then (-1, Some s)
          else case cb of
            None \<Rightarrow> (-1, Some s)
          | Some cb \<Rightarrow> (0, Some (s\<lparr>notifications := (notifications s)(e \<mapsto> (cb, userContext))\<rparr>)))"

definition ltntstools_notification_unregister_callback :: "stream option \<Rightarrow> int \<Rightarrow> stream option" where
  "ltntstools_notification_unregister_callback stream e =
     map_option (\<lambda>s. if e < 0 \<or> e \<ge> EVENT_NOTIFICATION_MAX then s
                     else s\<lparr>notifications := (notifications s)(e := None)\<rparr>) stream"

definition ltntstools_notification_unregister_callbacks :: "stream option \<Rightarrow> stream option" where
  "ltntstools_notification_unregister_callbacks stream =
     map_option (\<lambda>s. s\<lparr>notifications :=
       (\<lambda>e. if 0 \<le> e \<and> e < EVENT_NOTIFICATION_MAX then None else notifications s e)\<rparr>) stream"

definition ltntstools_notification_event_name :: "int \<Rightarrow> string" where
  "ltntstools_notification_event_name e =
     (if e = 0 then ''EVENT_UNDEFINED''
      else if e = EVENT_UPDATE_PID_PUSI_DELIVERY_TIME then ''EVENT_UPDATE_PID_PUSI_DELIVERY_TIME''
      else if e = EVENT_UPDATE_PID_PCR_EXCEEDS_40MS then ''EVENT_UPDATE_PID_PCR_EXCEEDS_40MS''
      else if e = EVENT_UPDATE_PID_PCR_WALLTIME then ''EVENT_UPDATE_PID_PCR_WALLTIME''
      else if e = EVENT_UPDATE_STREAM_CC_COUNT then ''EVENT_UPDATE_STREAM_CC_COUNT''
      else if e = EVENT_UPDATE_STREAM_TEI_COUNT then ''EVENT_UPDATE_STREAM_TEI_COUNT''
      else if e = EVENT_UPDATE_STREAM_SCRAMBLED_COUNT then ''EVENT_UPDATE_STREAM_SCRAMBLED_COUNT''
      else if e = EVENT_UPDATE_STREAM_MBPS then ''EVENT_UPDATE_STREAM_MBPS''
      else if e = EVENT_UPDATE_PCR_MBPS then ''EVENT_UPDATE_PCR_MBPS''
      else if e = EVENT_UPDATE_STREAM_IAT_HWM then ''EVENT_UPDATE_STREAM_IAT_HWM''
      else ''EVENT_UNKNOWN'')"

text \<open>The call of the registered callback, if there is one.\<close>

definition notify :: "int \<Rightarrow> u16 option \<Rightarrow> stream \<Rightarrow> stream" where
  "notify e p s =
     (case notifications s e of
        None \<Rightarrow> s
      | Some (cb, ctx) \<Rightarrow> s\<lparr>fired := fired s @ [(e, ctx, p)]\<rparr>)"

subsection \<open>Packet checks\<close>

definition ltntstools_isCCInError :: "bytes \<Rightarrow> u8 \<Rightarrow> bool" where
  "ltntstools_isCCInError pkt oldCC =
     (let adap = ltntstools_adaption_field_control pkt; c = ltntstools_continuity_counter pkt
      in if (adap = 0 \<or> adap = 2) \<and> oldCC = c then False
         else if (adap = 1 \<or> adap = 3) \<and> oldCC = c then True
         else if (unat oldCC + 1) mod 16 = unat c then False
         else True)"

definition ltntstools_isPayloadPUSIInError :: "bytes \<Rightarrow> bool" where
  "ltntstools_isPayloadPUSIInError pkt =
     (let adap = ltntstools_adaption_field_control pkt
      in (adap = 0 \<or> adap = 2) \<and> ltntstools_payload_unit_start_indicator pkt)"

subsection \<open>The statistics of a PID\<close>

definition ltntstools_pid_statistics_reset :: "timeval \<Rightarrow> pid_stats \<Rightarrow> pid_stats" where
  "ltntstools_pid_statistics_reset ts p =
     p\<lparr>pid_enabled := True, pid_packetCount := 0, pid_ccErrors := 0, pid_teiErrors := 0, pid_scrambledCount := 0,
       pid_pcrExceeds40ms := 0, pid_prev_pcrExceeds40ms := 0, pid_payloadPUSIErrors := 0, lastCC := 0,
       pid_pps_last_update := 0, pid_pps := 0, pid_pps_window := 0, pid_mbps := 0,
       pcr_clock := (pcr_clock p)\<lparr>drift_us_hwm := 0, drift_us_lwm := 0, establishedWT := False\<rparr>,
       seenPCR := 0, lastPCRWalltimeDriftMs := 0, pusi_time_first := timeval_zero,
       pusi_time_current := timeval_zero, pusi_time_ms := 0,
       pcrTickIntervals := map_option (ltn_histogram_reset ts) (pcrTickIntervals p),
       pcrWallDrift := map_option (ltn_histogram_reset ts) (pcrWallDrift p)\<rparr>"

definition pid_statistics_zero :: pid_stats where
  "pid_statistics_zero =
     \<lparr>pid_enabled = False, pidNr = 0, pid_packetCount = 0, pid_ccErrors = 0, pid_teiErrors = 0,
      pid_scrambledCount = 0, pid_pcrExceeds40ms = 0, pid_prev_pcrExceeds40ms = 0, pid_payloadPUSIErrors = 0,
      lastCC = 0, pid_pps_last_update = 0, pid_pps = 0, pid_pps_window = 0, pid_mbps = 0, hasPCR = False,
      seenPCR = 0, pcr_clock = clock_zero, pcrTickIntervals = None, pcrWallDrift = None,
      lastPCRWalltimeDriftMs = 0, pusi_time_first = timeval_zero, pusi_time_current = timeval_zero,
      pusi_time_ms = 0\<rparr>"

text \<open>The structure takes 720 bytes.\<close>

definition ltntstools_pid_statistics_alloc :: "allocator \<Rightarrow> timeval \<Rightarrow> u16 \<Rightarrow> pid_stats option" where
  "ltntstools_pid_statistics_alloc alloc ts nr =
     (if alloc 720 then Some (ltntstools_pid_statistics_reset ts (pid_statistics_zero\<lparr>pidNr := nr\<rparr>)) else None)"

definition ltntstools_histogram_clone :: "allocator \<Rightarrow> timeval \<Rightarrow> ltn_histogram_s \<Rightarrow> ltn_histogram_s option" where
  "ltntstools_histogram_clone alloc ts src =
     (case ltn_histogram_alloc alloc ts (Some (hname src)) (minValMs src) (maxValMs src) of
        None \<Rightarrow> None
      | Some dst \<Rightarrow>
          Some (dst\<lparr>buckets := buckets src, bucketMissCount := bucketMissCount src,
                    intervalLast := intervalLast src, cumulativeMs := cumulativeMs src,
                    cumulativeLast := cumulativeLast src, sampleMs := sampleMs src,
                    sampleLast := sampleLast src, totalCount := totalCount src\<rparr>))"

text \<open>A histogram pointer that may be \<open>NULL\<close>: \<open>None\<close> is a failed copy.\<close>

definition clone_optional :: "allocator \<Rightarrow> timeval \<Rightarrow> ltn_histogram_s option \<Rightarrow> ltn_histogram_s option option" where
  "clone_optional alloc ts h =
     (case h of None \<Rightarrow> Some None | Some h \<Rightarrow> map_option Some (ltntstools_histogram_clone alloc ts h))"

definition ltntstools_pid_statistics_clone :: "allocator \<Rightarrow> timeval \<Rightarrow> pid_stats \<Rightarrow> pid_stats option" where
  "ltntstools_pid_statistics_clone alloc ts src =
     (if \<not> alloc 720 then None else
      case clone_optional alloc ts (pcrTickIntervals src) of
        None \<Rightarrow> None
      | Some h1 \<Rightarrow>
          (case clone_optional alloc ts (pcrWallDrift src) of
             None \<Rightarrow> None
           | Some h2 \<Rightarrow> Some (src\<lparr>pcrTickIntervals := h1, pcrWallDrift := h2\<rparr>)))"

definition ltntstools_pid_stats_get :: "stream option \<Rightarrow> u16 \<Rightarrow> pid_stats option" where
  "ltntstools_pid_stats_get stream nr =
     (case stream of None \<Rightarrow> None | Some s \<Rightarrow> internal_pids s (nr AND 0x1fff))"

text \<open>The result is \<open>None\<close> for the return code -1.\<close>

definition pidArrayAdd :: "allocator \<Rightarrow> stream \<Rightarrow> u16 \<Rightarrow> stream option" where
  "pidArrayAdd alloc s nr =
     (if length (pidArray s) \<ge> MAX_PID then None
      else if \<not> alloc ((length (pidArray s) + 1) * 2) then None
      else Some (s\<lparr>pidArray := pidArray s @ [nr AND 0x1fff]\<rparr>))"

text \<open>A PID seen for the first time; \<open>None\<close> leaves the stream as it was.\<close>

definition discover_pid :: "allocator \<Rightarrow> timeval \<Rightarrow> u16 \<Rightarrow> stream \<Rightarrow> stream option" where
  "discover_pid alloc ts nr s =
     (case internal_pids s nr of
        Some p \<Rightarrow> Some s
      | None \<Rightarrow>
          (case ltntstools_pid_statistics_alloc alloc ts nr of
             None \<Rightarrow> None
           | Some p \<Rightarrow> pidArrayAdd alloc (s\<lparr>internal_pids := (internal_pids s)(nr \<mapsto> p)\<rparr>) nr))"

subsection \<open>The bitrate calculator\<close>

definition bc_reset :: "ltntstools_bc_ctx_s \<Rightarrow> ltntstools_bc_ctx_s" where
  "bc_reset bc = bc\<lparr>pcrFirst := -1, pcrSecond := -1, packetsInbetween := 0, running := True\<rparr>"

definition ltntstools_bitrate_calculator_reset :: "stream \<Rightarrow> stream" where
  "ltntstools_bitrate_calculator_reset s = s\<lparr>bc_ctx := bc_reset (bc_ctx s)\<rparr>"

definition ltntstools_bitrate_calculator_init :: "stream \<Rightarrow> u16 \<Rightarrow> stream" where
  "ltntstools_bitrate_calculator_init s nr =
     ltntstools_bitrate_calculator_reset
       (s\<lparr>bc_ctx := (bc_ctx s)\<lparr>pcrpidnr := nr, ccErrorsStreamLastWrite := ccErrors s\<rparr>\<rparr>)"

text \<open>
  A measurement between two PCRs: the bit rate, in exact arithmetic, and the ticks per packet.
  The flag \<open>running\<close> is cleared and set again by the reset that follows.
\<close>

definition bc_measure :: "ltntstools_bc_ctx_s \<Rightarrow> int \<Rightarrow> ltntstools_bc_ctx_s" where
  "bc_measure bc ticks =
     (let timeMsPerPCR = of_int ticks / 27000;
          bc = bc\<lparr>bitrate := ((1000 / timeMsPerPCR) * of_nat (packetsInbetween bc)) * 188 * 8, ticksPerPCR := ticks\<rparr>;
          bc = bc\<lparr>ticksPerPacket := c_div ticks (int (packetsInbetween bc)), running := False\<rparr>
      in bc_reset bc)"

text \<open>One packet; the flag says that the loop returns, the second that a measurement is complete.\<close>

definition bc_packet :: "bytes \<Rightarrow> ltntstools_bc_ctx_s \<Rightarrow> (ltntstools_bc_ctx_s \<times> bool \<times> bool) mem" where
  "bc_packet pkt bc =
     do { need 4 pkt;
          let bc = (if pcrFirst bc > -1 \<and> pcrSecond bc = -1
                    then bc\<lparr>packetsInbetween := packetsInbetween bc + 1\<rparr> else bc);
          if ltntstools_pid pkt \<noteq> pcrpidnr bc \<and> pcrFirst bc = -1 then Some (bc, False, False) else
     do { r \<leftarrow> ltntstools_scr pkt;
          let bc = (case r of
                      None \<Rightarrow> bc
                    | Some pcr \<Rightarrow>
                        if pcrFirst bc = -1 then bc\<lparr>pcrFirst := uint pcr, packetsInbetween := 0\<rparr>
                        else bc\<lparr>pcrSecond := uint pcr, stc := uint pcr\<rparr>);
          if pcrFirst bc > -1 \<and> pcrSecond bc > -1
          then let ticks = ltntstools_scr_diff (pcrFirst bc) (pcrSecond bc)
               in if ticks \<le> 0 \<or> packetsInbetween bc = 0 then Some (bc_reset bc, True, False)
                  else Some (bc_measure bc ticks, False, True)
          else Some (bc, False, False) }}"

text \<open>
  The loop over the packets, with the stream's error count \<open>cc\<close>, which no packet changes here.
  \<open>completed\<close> is the flag \<open>*complete\<close> so far.
\<close>

fun bc_loop :: "nat \<Rightarrow> bytes list \<Rightarrow> ltntstools_bc_ctx_s \<Rightarrow> bool \<Rightarrow> (ltntstools_bc_ctx_s \<times> bool) mem" where
  "bc_loop cc [] bc completed = Some (bc, completed)"
| "bc_loop cc (pkt # pkts) bc completed =
     (if ccErrorsStreamLastWrite bc \<noteq> cc
      then Some ((bc_reset bc)\<lparr>ccErrorsStreamLastWrite := cc\<rparr>, completed)
      else do { (bc, return, done) \<leftarrow> bc_packet pkt bc;
                if return then Some (bc, completed) else bc_loop cc pkts bc (completed \<or> done) })"

text \<open>The packets of a buffer: the pointers \<open>pkts + i * 188\<close>, each with the rest of the buffer.\<close>

definition packets_at :: "bytes \<Rightarrow> nat \<Rightarrow> bytes list" where
  "packets_at pkts n = map (\<lambda>i. drop (i * 188) pkts) [0..<n]"

definition ltntstools_bitrate_calculator_write :: "stream \<Rightarrow> bytes \<Rightarrow> nat \<Rightarrow> (stream \<times> bool) mem" where
  "ltntstools_bitrate_calculator_write s pkts n =
     (let bc = (bc_ctx s)\<lparr>stc := stc (bc_ctx s) + int n * ticksPerPacket (bc_ctx s)\<rparr>
      in if \<not> running bc then Some (s\<lparr>bc_ctx := bc\<rparr>, False)
         else do { (bc, completed) \<leftarrow> bc_loop (ccErrors s) (packets_at pkts n) bc False;
                   Some (s\<lparr>bc_ctx := bc\<rparr>, completed) })"

text \<open>The return code with the value, for a stream and a result pointer that may be \<open>NULL\<close>.\<close>

definition bc_query :: "(ltntstools_bc_ctx_s \<Rightarrow> 'a) \<Rightarrow> stream option \<Rightarrow> bool \<Rightarrow> int \<times> 'a option" where
  "bc_query f stream ptr =
     (case stream of None \<Rightarrow> (-1, None) | Some s \<Rightarrow> if ptr then (0, Some (f (bc_ctx s))) else (-1, None))"

definition ltntstools_bitrate_calculator_query_bitrate :: "stream option \<Rightarrow> bool \<Rightarrow> int \<times> rat option" where
  "ltntstools_bitrate_calculator_query_bitrate = bc_query bitrate"

definition ltntstools_bitrate_calculator_query_ticks_per_packet :: "stream option \<Rightarrow> bool \<Rightarrow> int \<times> int option" where
  "ltntstools_bitrate_calculator_query_ticks_per_packet = bc_query ticksPerPacket"

definition ltntstools_bitrate_calculator_query_stc :: "stream option \<Rightarrow> bool \<Rightarrow> int \<times> int option" where
  "ltntstools_bitrate_calculator_query_stc = bc_query stc"

subsection \<open>Updates\<close>

definition stream_increment_cc_errors :: "allocator \<Rightarrow> int \<Rightarrow> timeval \<Rightarrow> stream \<Rightarrow> stream mem" where
  "stream_increment_cc_errors alloc now ts s =
     do { let s = s\<lparr>ccErrors := ccErrors s + 1, last_cc_error := tv_sec ts\<rparr>;
          h \<leftarrow> ltntstools_history_metric_collection_add now (Some (ccErrorHistory s))
                 (ltntstools_history_metric_alloc alloc (tv_sec ts) 1);
          Some (notify EVENT_UPDATE_STREAM_CC_COUNT None (s\<lparr>ccErrorHistory := the h\<rparr>)) }"

text \<open>The frame length check and the bit rate that byte streams and CTP streams share.\<close>

definition not_multiple_of_seven :: "int \<Rightarrow> stream \<Rightarrow> stream" where
  "not_multiple_of_seven now s =
     s\<lparr>notMultipleOfSevenError := notMultipleOfSevenError s + 1, last_notMultipleOfSeven_error := now\<rparr>"

definition update_Bps :: "int \<Rightarrow> u32 \<Rightarrow> stream \<Rightarrow> stream" where
  "update_Bps now lengthBytes s =
     (let s = (if now \<noteq> Bps_last_update s
               then s\<lparr>Bps := Bps_window s, Bps_window := 0, a324_bps := of_nat (unat (Bps_window s * 8)),
                      a324_mbps := of_nat (unat (Bps_window s * 8)) / 1000000, Bps_last_update := now\<rparr>
               else s)
      in s\<lparr>Bps_window := Bps_window s + lengthBytes\<rparr>)"

definition ltntstools_bytestream_stats_update :: "int \<Rightarrow> stream \<Rightarrow> u32 \<Rightarrow> stream" where
  "ltntstools_bytestream_stats_update now s lengthBytes =
     (let s = s\<lparr>packetCount := packetCount s + 1\<rparr>;
          s = (if lengthBytes \<noteq> 7 * 188 then not_multiple_of_seven now s else s)
      in update_Bps now lengthBytes s)"

definition ltntstools_ctp_stats_update ::
  "allocator \<Rightarrow> int \<Rightarrow> timeval \<Rightarrow> stream \<Rightarrow> bytes \<Rightarrow> u32 \<Rightarrow> stream mem" where
  "ltntstools_ctp_stats_update alloc now ts s buf lengthBytes =
     (let s = (if lengthBytes \<noteq> 7 * 188 then not_multiple_of_seven now s else s)
      in if lengthBytes < 4 then Some s else
         do { b2 \<leftarrow> rd buf 2; b3 \<leftarrow> rd buf 3;
              let sequence_number = (push_bit 8 (ucast b2) OR ucast b3 :: u16);
              s \<leftarrow> (if a324_sequence_number s + 1 \<noteq> sequence_number \<and> packetCount s \<noteq> 0
                     then stream_increment_cc_errors alloc now ts s else Some s);
              let s = s\<lparr>a324_sequence_number := sequence_number, packetCount := packetCount s + 1\<rparr>;
              Some (update_Bps now lengthBytes s) })"

text \<open>The first loop of the update: every packet without a sync byte counts as an error.\<close>

definition update_sync :: "allocator \<Rightarrow> int \<Rightarrow> timeval \<Rightarrow> bytes \<Rightarrow> stream \<Rightarrow> stream mem" where
  "update_sync alloc now ts pkt s =
     do { b \<leftarrow> rd pkt 0;
          if b = 0x47 then Some (s\<lparr>packetCount := packetCount s + 1\<rparr>)
          else stream_increment_cc_errors alloc now ts s }"

definition update_pps :: "int \<Rightarrow> nat \<Rightarrow> stream \<Rightarrow> stream" where
  "update_pps now n s =
     (let s = (if now \<noteq> pps_last_update s
               then notify EVENT_UPDATE_STREAM_MBPS None
                      (s\<lparr>pps := pps_window s, pps_window := 0,
                         mbps := of_nat (unat (pps_window s)) * (188 * 8) / 1000000, pps_last_update := now\<rparr>)
               else s)
      in s\<lparr>pps_window := pps_window s + of_nat n\<rparr>)"

text \<open>The arrival time of the buffer after the last one. \<open>iat_cur_us\<close> is an \<open>int\<close>.\<close>

definition iat_marks :: "int \<Rightarrow> int \<Rightarrow> stream \<Rightarrow> stream" where
  "iat_marks now cur s =
     (let s = s\<lparr>iat_cur_us := cur\<rparr>;
          s = (if cur \<le> iat_lwm_us s then s\<lparr>iat_lwm_us := cur\<rparr> else s);
          s = (if cur \<ge> iat_hwm_us s then notify EVENT_UPDATE_STREAM_IAT_HWM None (s\<lparr>iat_hwm_us := cur\<rparr>) else s);
          s = (if cur > iat_hwm_us_last_nsecond_accumulator s
               then s\<lparr>iat_hwm_us_last_nsecond_accumulator := cur\<rparr> else s)
      in if iat_hwm_us_last_nsecond_time s + 5 \<le> now
         then s\<lparr>iat_hwm_us_last_nsecond_time := now,
                iat_hwm_us_last_nsecond := iat_hwm_us_last_nsecond_accumulator s,
                iat_hwm_us_last_nsecond_accumulator := 0\<rparr>
         else s)"

definition update_iat :: "int \<Rightarrow> timeval \<Rightarrow> stream \<Rightarrow> stream mem" where
  "update_iat now ts s =
     (if tv_sec (iat_last_frame s) = 0 then Some s else
      do { let cur = to_int32 (ltn_timeval_subtract_us ts (iat_last_frame s));
           let s = iat_marks now cur s;
           (h, r) \<leftarrow> ltn_histogram_interval_update_with_value ts (packetIntervals s)
                       (nat (c_div cur 1000 mod 2 ^ 32));
           Some (s\<lparr>packetIntervals := h\<rparr>) })"

text \<open>
  The steps of the second loop on one packet. They take the stream and the PID's statistics,
  which the caller then stores back into the table.
\<close>

definition packet_count :: "bytes \<Rightarrow> stream \<times> pid_stats \<Rightarrow> stream \<times> pid_stats" where
  "packet_count pkt = (\<lambda>(s, p).
     let p = p\<lparr>pid_enabled := True, pid_packetCount := pid_packetCount p + 1\<rparr>
     in if ltntstools_isPayloadPUSIInError pkt
        then (s\<lparr>payloadPUSIErrors := payloadPUSIErrors s + 1\<rparr>,
              p\<lparr>pid_payloadPUSIErrors := pid_payloadPUSIErrors p + 1\<rparr>)
        else (s, p))"

definition packet_pusi :: "timeval \<Rightarrow> bytes \<Rightarrow> stream \<times> pid_stats \<Rightarrow> stream \<times> pid_stats" where
  "packet_pusi ts pkt = (\<lambda>(s, p).
     let (s, p) =
           (if ltntstools_payload_unit_start_indicator pkt
            then let (s, p) =
                       (if tv_sec (pusi_time_first p) \<noteq> 0 \<and> tv_sec (pusi_time_current p) \<noteq> 0
                        then (notify EVENT_UPDATE_PID_PUSI_DELIVERY_TIME (Some (pidNr p)) s,
                              p\<lparr>pusi_time_ms := to_int32
                                  (ltn_timeval_subtract_ms (pusi_time_current p) (pusi_time_first p))\<rparr>)
                        else (s, p))
                 in (s, p\<lparr>pusi_time_first := ts\<rparr>)
            else (s, p))
     in (s, p\<lparr>pusi_time_current := ts\<rparr>))"

definition packet_pps :: "int \<Rightarrow> pid_stats \<Rightarrow> pid_stats" where
  "packet_pps now p =
     (let p = (if now \<noteq> pid_pps_last_update p
               then p\<lparr>pid_pps := pid_pps_window p, pid_pps_window := 0,
                      pid_mbps := of_nat (unat (pid_pps_window p)) * (188 * 8) / 1000000,
                      pid_pps_last_update := now\<rparr>
               else p)
      in p\<lparr>pid_pps_window := pid_pps_window p + 1\<rparr>)"

definition packet_cc ::
  "allocator \<Rightarrow> int \<Rightarrow> timeval \<Rightarrow> u16 \<Rightarrow> bytes \<Rightarrow> stream \<times> pid_stats \<Rightarrow> (stream \<times> pid_stats) mem" where
  "packet_cc alloc now ts nr pkt = (\<lambda>(s, p).
     if ltntstools_isCCInError pkt (lastCC p) \<and> pid_packetCount p > 1 \<and> nr \<noteq> 0x1fff
     then do { s \<leftarrow> stream_increment_cc_errors alloc now ts s;
               Some (s, p\<lparr>pid_ccErrors := pid_ccErrors p + 1\<rparr>) }
     else Some (s, p))"

definition packet_scrambled :: "bytes \<Rightarrow> stream \<times> pid_stats \<Rightarrow> stream \<times> pid_stats" where
  "packet_scrambled pkt = (\<lambda>(s, p).
     if ltntstools_transport_scrambling_control pkt \<noteq> 0
     then (notify EVENT_UPDATE_STREAM_SCRAMBLED_COUNT (Some (pidNr p)) (s\<lparr>scrambledCount := scrambledCount s + 1\<rparr>),
           p\<lparr>pid_scrambledCount := pid_scrambledCount p + 1\<rparr>)
     else (s, p))"

definition packet_tei :: "bytes \<Rightarrow> stream \<times> pid_stats \<Rightarrow> stream \<times> pid_stats" where
  "packet_tei pkt = (\<lambda>(s, p).
     let p = p\<lparr>lastCC := ltntstools_continuity_counter pkt\<rparr>
     in if ltntstools_tei_set pkt
        then (notify EVENT_UPDATE_STREAM_TEI_COUNT (Some (pidNr p)) (s\<lparr>teiErrors := teiErrors s + 1\<rparr>),
              p\<lparr>pid_teiErrors := pid_teiErrors p + 1\<rparr>)
        else (s, p))"

text \<open>The one time initialisation of the PCR clock and its histograms. \<open>%04x\<close> prints the PID.\<close>

definition hex_digit :: "nat \<Rightarrow> char" where
  "hex_digit d = (''0123456789abcdef'' ! (d mod 16))"

definition printf_04x :: "u16 \<Rightarrow> string" where
  "printf_04x w = map (\<lambda>k. hex_digit (unat (drop_bit (4 * k) w))) [3, 2, 1, 0]"

definition pcr_initialize :: "allocator \<Rightarrow> timeval \<Rightarrow> u16 \<Rightarrow> pid_stats \<Rightarrow> pid_stats" where
  "pcr_initialize alloc ts nr p =
     (if ltntstools_clock_is_established_timebase (pcr_clock p) then p
      else p\<lparr>pcr_clock := ltntstools_clock_establish_timebase ltntstools_clock_initialize 27000000,
             pcrTickIntervals := ltn_histogram_alloc_video_defaults alloc ts
               (Some (''PCR Tick Intervals PID 0x'' @ printf_04x nr)),
             pcrWallDrift := ltn_histogram_alloc_video_defaults alloc ts
               (Some (''PCR Jitter PID 0x'' @ printf_04x nr @ '' (abs value)''))\<rparr>)"

text \<open>
  A value recorded in a histogram that may be \<open>NULL\<close>; the \<open>int64_t\<close> value is passed as \<open>uint32_t\<close>.
\<close>

definition record_value :: "timeval \<Rightarrow> ltn_histogram_s option \<Rightarrow> int \<Rightarrow> ltn_histogram_s option mem" where
  "record_value ts h v =
     do { h \<leftarrow> h;
          (h, r) \<leftarrow> ltn_histogram_interval_update_with_value ts h (nat (v mod 2 ^ 32));
          Some (Some h) }"

text \<open>
  The timing of a PCR. \<open>abs\<close> takes an \<open>int\<close> and has no result for the least one, and the
  drift has none when its \<open>int64_t\<close> product overflows. The second call of \<open>get_drift_us\<close> is the one
  whose result is used.
\<close>

definition pcr_timing :: "timeval \<Rightarrow> u64 \<Rightarrow> stream \<times> pid_stats \<Rightarrow> (stream \<times> pid_stats) mem" where
  "pcr_timing ts pcr = (\<lambda>(s, p).
     do { let clk = pcr_clock p;
          let clk = (if ltntstools_clock_is_established_wallclock clk then clk
                     else ltntstools_clock_establish_wallclock ts clk (uint pcr));
          let delta = ltntstools_clock_compute_delta clk (uint pcr) (ltntstools_clock_get_ticks clk);
          let late = (delta > 27000 * 40);
          let p = p\<lparr>pid_prev_pcrExceeds40ms := pid_pcrExceeds40ms p,
                    pid_pcrExceeds40ms := pid_pcrExceeds40ms p + of_bool late\<rparr>;
          let s = s\<lparr>prev_pcrExceeds40ms := pcrExceeds40ms s,
                    pcrExceeds40ms := pcrExceeds40ms s + of_bool late\<rparr>;
          h1 \<leftarrow> record_value ts (pcrTickIntervals p) (c_div delta 27000);
          clk \<leftarrow> set_ticks_mem ts (uint pcr) clk;
          (clk, _) \<leftarrow> ltntstools_clock_get_drift_us ts clk;
          (clk, us) \<leftarrow> ltntstools_clock_get_drift_us ts clk;
          let v = c_div us 1000;
          if to_int32 v = - (2 ^ 31) then None else do {
          h2 \<leftarrow> record_value ts (pcrWallDrift p) \<bar>to_int32 v\<bar>;
          let s = notify EVENT_UPDATE_PID_PCR_WALLTIME (Some (pidNr p)) s;
          let s = (if late then notify EVENT_UPDATE_PID_PCR_EXCEEDS_40MS (Some (pidNr p)) s else s);
          Some (s, p\<lparr>pcr_clock := clk, pcrTickIntervals := h1, pcrWallDrift := h2,
                     lastPCRWalltimeDriftMs := v\<rparr>) }})"

definition packet_pcr ::
  "allocator \<Rightarrow> timeval \<Rightarrow> u16 \<Rightarrow> bytes \<Rightarrow> stream \<times> pid_stats \<Rightarrow> (stream \<times> pid_stats) mem" where
  "packet_pcr alloc ts nr pkt = (\<lambda>(s, p).
     if \<not> hasPCR p then Some (s, p) else
     do { r \<leftarrow> ltntstools_scr pkt;
          case r of
            None \<Rightarrow> Some (s, p)
          | Some pcr \<Rightarrow>
              if seenPCR p < 100 then Some (s, p\<lparr>seenPCR := seenPCR p + 1\<rparr>)
              else pcr_timing ts pcr (s, pcr_initialize alloc ts nr (p\<lparr>seenPCR := seenPCR p + 1\<rparr>)) })"

text \<open>The second loop of the update; a PID that cannot be added is skipped.\<close>

definition update_packet :: "allocator \<Rightarrow> int \<Rightarrow> timeval \<Rightarrow> bytes \<Rightarrow> stream \<Rightarrow> stream mem" where
  "update_packet alloc now ts pkt s =
     do { need 4 pkt;
          let nr = ltntstools_pid pkt;
          case discover_pid alloc ts nr s of
            None \<Rightarrow> Some s
          | Some s \<Rightarrow>
              do { p \<leftarrow> internal_pids s nr;
                   let (s, p) = packet_pusi ts pkt (packet_count pkt (s, p));
                   (s, p) \<leftarrow> packet_cc alloc now ts nr pkt (s, packet_pps now p);
                   (s, p) \<leftarrow> packet_pcr alloc ts nr pkt (packet_tei pkt (packet_scrambled pkt (s, p)));
                   Some (s\<lparr>internal_pids := (internal_pids s)(nr \<mapsto> p)\<rparr>) } }"

text \<open>A \<open>NULL\<close> buffer is \<open>None\<close>; nothing happens then.\<close>

definition ltntstools_pid_stats_update ::
  "allocator \<Rightarrow> int \<Rightarrow> timeval \<Rightarrow> stream \<Rightarrow> bytes option \<Rightarrow> nat \<Rightarrow> stream mem" where
  "ltntstools_pid_stats_update alloc now ts s buf n =
     (case buf of
        None \<Rightarrow> Some s
      | Some pkts \<Rightarrow>
          do { let s = (if n \<noteq> 7 then not_multiple_of_seven now s else s);
               s \<leftarrow> (if pcrpidnr (bc_ctx s) = 0 then Some s
                      else do { (s, completed) \<leftarrow> ltntstools_bitrate_calculator_write s pkts n;
                                Some (if completed then notify EVENT_UPDATE_PCR_MBPS None s else s) });
               s \<leftarrow> mem_fold (update_sync alloc now ts) (packets_at pkts n) s;
               s \<leftarrow> update_iat now ts (update_pps now n s);
               s \<leftarrow> mem_fold (update_packet alloc now ts) (packets_at pkts n) s;
               Some (s\<lparr>iat_last_frame := ts\<rparr>) })"

subsection \<open>Reset, allocation and copies\<close>

definition ltntstools_pid_stats_reset :: "timeval \<Rightarrow> stream \<Rightarrow> stream" where
  "ltntstools_pid_stats_reset ts s =
     (let s = s\<lparr>packetCount := 0, teiErrors := 0, ccErrors := 0,
                ccErrorHistory := the (ltntstools_history_metric_collection_reset (Some (ccErrorHistory s))),
                scrambledCount := 0, pcrExceeds40ms := 0, prev_pcrExceeds40ms := 0, payloadPUSIErrors := 0,
                last_cc_error := 0, pps_last_update := 0, pps := 0, pps_window := 0, mbps := 0,
                a324_sequence_number := 0, Bps_last_update := 0, Bps := 0, Bps_window := 0, a324_mbps := 0,
                a324_bps := 0, notMultipleOfSevenError := 0, last_notMultipleOfSeven_error := 0,
                iat_lwm_us := 50000000, iat_hwm_us := -1, iat_cur_us := 0, iat_hwm_us_last_nsecond := 0,
                iat_hwm_us_last_nsecond_accumulator := 0, iat_hwm_us_last_nsecond_time := 0,
                iat_last_frame := timeval_zero, packetIntervals := ltn_histogram_reset ts (packetIntervals s)\<rparr>;
          s = ltntstools_bitrate_calculator_reset s
      in s\<lparr>internal_pids := (\<lambda>nr. map_option (ltntstools_pid_statistics_reset ts) (internal_pids s nr))\<rparr>)"

definition bc_zero :: ltntstools_bc_ctx_s where
  "bc_zero = \<lparr>running = False, pcrpidnr = 0, pcrFirst = 0, pcrSecond = 0, packetsInbetween = 0, bitrate = 0,
     ticksPerPCR = 0, ticksPerPacket = 0, stc = 0, ccErrorsStreamLastWrite = 0\<rparr>"

text \<open>The zeroed structure of 528 bytes with its history and its histogram.\<close>

definition stream_zero :: "ltntstools_history_metric_collection_s \<Rightarrow> ltn_histogram_s \<Rightarrow> stream" where
  "stream_zero history h =
     \<lparr>internal_pids = Map.empty, pidArray = [], packetCount = 0, teiErrors = 0, ccErrors = 0,
      ccErrorHistory = history, scrambledCount = 0, pcrExceeds40ms = 0, prev_pcrExceeds40ms = 0,
      payloadPUSIErrors = 0, pps_last_update = 0, pps = 0, pps_window = 0, mbps = 0,
      a324_sequence_number = 0, Bps_last_update = 0, Bps = 0, Bps_window = 0, a324_mbps = 0, a324_bps = 0,
      last_cc_error = 0, notMultipleOfSevenError = 0, last_notMultipleOfSeven_error = 0,
      iat_lwm_us = 0, iat_hwm_us = 0, iat_cur_us = 0, iat_hwm_us_last_nsecond = 0,
      iat_hwm_us_last_nsecond_accumulator = 0, iat_hwm_us_last_nsecond_time = 0,
      iat_last_frame = timeval_zero, packetIntervals = h, notifications = Map.empty, bc_ctx = bc_zero,
      fired = []\<rparr>"

definition ltntstools_pid_stats_alloc :: "allocator \<Rightarrow> timeval \<Rightarrow> stream option" where
  "ltntstools_pid_stats_alloc alloc ts =
     (if \<not> alloc 528 then None
      else if \<not> alloc (MAX_PID * 8) then None
      else case ltn_histogram_alloc_video_defaults alloc ts (Some ''IAT Intervals'') of
             None \<Rightarrow> None
           | Some h \<Rightarrow>
               Some (ltntstools_pid_stats_reset ts
                 (stream_zero (the (snd (ltntstools_history_metric_collection_init alloc (Some ''CC Error History'')))) h)))"

text \<open>
  The copy of the history adds the source's entries one by one at the head; \<open>None\<close> is undefined
  behaviour of the addition, \<open>Some None\<close> a failed allocation.
\<close>

fun history_clone_loop :: "allocator \<Rightarrow> int \<Rightarrow> ltntstools_history_metric_s list
    \<Rightarrow> ltntstools_history_metric_collection_s \<Rightarrow> ltntstools_history_metric_collection_s option mem" where
  "history_clone_loop alloc now [] dst = Some (Some dst)"
| "history_clone_loop alloc now (m # ms) dst =
     (case ltntstools_history_metric_alloc alloc (hm_ts m) (hm_count m) of
        None \<Rightarrow> Some None
      | Some copy \<Rightarrow>
          do { dst \<leftarrow> ltntstools_history_metric_collection_add now (Some dst) (Some copy);
               history_clone_loop alloc now ms (the dst) })"

definition ltntstools_history_metric_collection_clone_into ::
  "allocator \<Rightarrow> int \<Rightarrow> ltntstools_history_metric_collection_s \<Rightarrow> ltntstools_history_metric_collection_s
    \<Rightarrow> ltntstools_history_metric_collection_s option mem" where
  "ltntstools_history_metric_collection_clone_into alloc now dst src =
     history_clone_loop alloc now (hm_list src) (the (ltntstools_history_metric_collection_reset (Some dst)))"

text \<open>The loop over the table of PIDs: \<open>None\<close> when one of the copies fails.\<close>

definition clone_pid ::
  "allocator \<Rightarrow> timeval \<Rightarrow> (u16 \<rightharpoonup> pid_stats) \<Rightarrow> u16 \<Rightarrow> (u16 \<rightharpoonup> pid_stats) \<Rightarrow> (u16 \<rightharpoonup> pid_stats) option" where
  "clone_pid alloc ts pids nr dst =
     (case pids nr of
        None \<Rightarrow> Some dst
      | Some p \<Rightarrow> map_option (\<lambda>q. dst(nr \<mapsto> q)) (ltntstools_pid_statistics_clone alloc ts p))"

definition clone_pids :: "allocator \<Rightarrow> timeval \<Rightarrow> (u16 \<rightharpoonup> pid_stats) \<Rightarrow> (u16 \<rightharpoonup> pid_stats) option" where
  "clone_pids alloc ts pids = mem_fold (clone_pid alloc ts pids) (map of_nat [0..<MAX_PID]) Map.empty"

definition ltntstools_pid_stats_clone :: "allocator \<Rightarrow> int \<Rightarrow> timeval \<Rightarrow> stream option \<Rightarrow> stream option mem" where
  "ltntstools_pid_stats_clone alloc now ts src =
     (case src of
        None \<Rightarrow> Some None
      | Some src \<Rightarrow>
          (case ltntstools_pid_stats_alloc alloc ts of
             None \<Rightarrow> Some None
           | Some dst \<Rightarrow>
               if pidArray src \<noteq> [] \<and> \<not> alloc (length (pidArray src) * 2) then Some None
               else (case ltntstools_histogram_clone alloc ts (packetIntervals src) of
                  None \<Rightarrow> Some None
                | Some h \<Rightarrow>
                    do { history \<leftarrow> ltntstools_history_metric_collection_clone_into alloc now
                                      (ccErrorHistory dst) (ccErrorHistory src);
                         case history of
                           None \<Rightarrow> Some None
                         | Some history \<Rightarrow>
                             Some (case clone_pids alloc ts (internal_pids src) of
                                     None \<Rightarrow> None
                                   | Some pids \<Rightarrow>
                                       Some (src\<lparr>ccErrorHistory := history, packetIntervals := h,
                                                 internal_pids := pids\<rparr>)) })))"

subsection \<open>Queries\<close>

text \<open>A query answers \<open>d\<close> for a \<open>NULL\<close> stream, and for a PID that was not seen.\<close>

definition stream_query :: "(stream \<Rightarrow> 'a) \<Rightarrow> 'a \<Rightarrow> stream option \<Rightarrow> 'a" where
  "stream_query f d stream = (case stream of None \<Rightarrow> d | Some s \<Rightarrow> f s)"

definition pid_query :: "(pid_stats \<Rightarrow> 'a) \<Rightarrow> 'a \<Rightarrow> stream option \<Rightarrow> u16 \<Rightarrow> 'a" where
  "pid_query f d stream nr =
     (case stream of
        None \<Rightarrow> d
      | Some s \<Rightarrow> (case internal_pids s (nr AND 0x1fff) of None \<Rightarrow> d | Some p \<Rightarrow> f p))"

definition ltntstools_pid_stats_stream_get_ccerror_count :: "stream option \<Rightarrow> nat" where
  "ltntstools_pid_stats_stream_get_ccerror_count = stream_query ccErrors 0"

definition ltntstools_pid_stats_stream_get_packet_count :: "stream option \<Rightarrow> nat" where
  "ltntstools_pid_stats_stream_get_packet_count = stream_query packetCount 0"

definition ltntstools_pid_stats_stream_get_cc_errors :: "stream option \<Rightarrow> nat" where
  "ltntstools_pid_stats_stream_get_cc_errors = stream_query ccErrors 0"

definition ltntstools_pid_stats_stream_get_cc_error_time :: "stream option \<Rightarrow> int" where
  "ltntstools_pid_stats_stream_get_cc_error_time = stream_query last_cc_error 0"

definition ltntstools_pid_stats_stream_get_tei_errors :: "stream option \<Rightarrow> nat" where
  "ltntstools_pid_stats_stream_get_tei_errors = stream_query teiErrors 0"

definition ltntstools_pid_stats_stream_get_scrambled_count :: "stream option \<Rightarrow> nat" where
  "ltntstools_pid_stats_stream_get_scrambled_count = stream_query scrambledCount 0"

definition ltntstools_pid_stats_stream_get_notmultipleofseven_errors :: "stream option \<Rightarrow> nat" where
  "ltntstools_pid_stats_stream_get_notmultipleofseven_errors = stream_query notMultipleOfSevenError 0"

definition ltntstools_pid_stats_stream_get_notmultipleofseven_time :: "stream option \<Rightarrow> int" where
  "ltntstools_pid_stats_stream_get_notmultipleofseven_time = stream_query last_notMultipleOfSeven_error 0"

definition ltntstools_pid_stats_stream_get_iat_hwm_us :: "stream option \<Rightarrow> u64" where
  "ltntstools_pid_stats_stream_get_iat_hwm_us = stream_query (\<lambda>s. word_of_int (iat_hwm_us_last_nsecond s)) 0"

definition ltntstools_pid_stats_stream_get_pusi_payload_errors :: "stream option \<Rightarrow> nat" where
  "ltntstools_pid_stats_stream_get_pusi_payload_errors = stream_query payloadPUSIErrors 0"

definition ltntstools_pid_stats_stream_did_violate_pcr_timing :: "stream option \<Rightarrow> bool" where
  "ltntstools_pid_stats_stream_did_violate_pcr_timing = stream_query (\<lambda>s. prev_pcrExceeds40ms s \<noteq> pcrExceeds40ms s) True"

definition ltntstools_pid_stats_pid_get_packet_count :: "stream option \<Rightarrow> u16 \<Rightarrow> nat" where
  "ltntstools_pid_stats_pid_get_packet_count = pid_query pid_packetCount 0"

definition ltntstools_pid_stats_pid_get_cc_errors :: "stream option \<Rightarrow> u16 \<Rightarrow> nat" where
  "ltntstools_pid_stats_pid_get_cc_errors = pid_query pid_ccErrors 0"

definition ltntstools_pid_stats_pid_get_tei_errors :: "stream option \<Rightarrow> u16 \<Rightarrow> nat" where
  "ltntstools_pid_stats_pid_get_tei_errors = pid_query pid_teiErrors 0"

definition ltntstools_pid_stats_pid_get_contains_pcr :: "stream option \<Rightarrow> u16 \<Rightarrow> bool" where
  "ltntstools_pid_stats_pid_get_contains_pcr = pid_query hasPCR False"

definition ltntstools_pid_stats_pid_get_pcr :: "stream option \<Rightarrow> u16 \<Rightarrow> int" where
  "ltntstools_pid_stats_pid_get_pcr = pid_query (\<lambda>p. if hasPCR p then ltntstools_clock_get_ticks (pcr_clock p) else 0) 0"

definition ltntstools_pid_stats_pid_get_last_update :: "stream option \<Rightarrow> u16 \<Rightarrow> int" where
  "ltntstools_pid_stats_pid_get_last_update = pid_query pid_pps_last_update 0"

definition ltntstools_pid_stats_pid_did_violate_pcr_timing :: "stream option \<Rightarrow> u16 \<Rightarrow> bool" where
  "ltntstools_pid_stats_pid_did_violate_pcr_timing = pid_query (\<lambda>p. pid_prev_pcrExceeds40ms p \<noteq> pid_pcrExceeds40ms p) True"

definition ltntstools_pid_stats_pid_get_pusi_payload_errors :: "stream option \<Rightarrow> u16 \<Rightarrow> nat" where
  "ltntstools_pid_stats_pid_get_pusi_payload_errors = pid_query pid_payloadPUSIErrors 0"

text \<open>\<open>ptr\<close> tells whether the result pointer is not \<open>NULL\<close>.\<close>

definition ltntstools_pid_stats_pid_get_pcr_walltime_driftms ::
  "stream option \<Rightarrow> u16 \<Rightarrow> bool \<Rightarrow> int \<times> int option" where
  "ltntstools_pid_stats_pid_get_pcr_walltime_driftms stream nr ptr =
     (if \<not> ptr then (-1, None)
      else pid_query (\<lambda>p. if hasPCR p then (0, Some (lastPCRWalltimeDriftMs p)) else (-1, None)) (-1, None) stream nr)"

text \<open>The counts over the history: \<open>val\<close> is 0 unless the query stores a result.\<close>

definition ltntstools_pid_stats_stream_get_ccerror_count_1hr :: "int \<Rightarrow> int \<Rightarrow> stream option \<Rightarrow> u64" where
  "ltntstools_pid_stats_stream_get_ccerror_count_1hr t1 t2 =
     stream_query (\<lambda>s. case snd (ltntstools_history_metric_collection_count_until_1hr t1 t2 (Some (ccErrorHistory s))) of
                         None \<Rightarrow> 0 | Some v \<Rightarrow> v) 0"

definition ltntstools_pid_stats_stream_get_ccerror_count_24hr :: "int \<Rightarrow> int \<Rightarrow> stream option \<Rightarrow> u64" where
  "ltntstools_pid_stats_stream_get_ccerror_count_24hr t1 t2 =
     stream_query (\<lambda>s. case snd (ltntstools_history_metric_collection_count_until_24hr t1 t2 (Some (ccErrorHistory s))) of
                         None \<Rightarrow> 0 | Some v \<Rightarrow> v) 0"

text \<open>
  The rates expire when no packet has come for two seconds: these queries first update the
  stream, and return the value with it.
\<close>

definition expire_per_second_stream_stats :: "int \<Rightarrow> stream \<Rightarrow> stream" where
  "expire_per_second_stream_stats now s =
     (if Bps_window s \<noteq> 0 \<and> now > Bps_last_update s + 2 then s\<lparr>a324_mbps := 0, Bps := 0, Bps_window := 0\<rparr>
      else if now > pps_last_update s + 2 then s\<lparr>mbps := 0, pps := 0, pps_window := 0\<rparr>
      else s)"

definition expire_per_second_pid_stats :: "int \<Rightarrow> pid_stats \<Rightarrow> pid_stats" where
  "expire_per_second_pid_stats now p =
     (if now > pid_pps_last_update p + 2 then p\<lparr>pid_mbps := 0, pid_pps := 0, pid_pps_window := 0\<rparr> else p)"

definition stream_rate :: "(stream \<Rightarrow> 'a::zero) \<Rightarrow> int \<Rightarrow> stream option \<Rightarrow> 'a \<times> stream option" where
  "stream_rate f now stream =
     (case stream of
        None \<Rightarrow> (0, None)
      | Some s \<Rightarrow> let s = expire_per_second_stream_stats now s in (f s, Some s))"

definition pid_rate :: "(pid_stats \<Rightarrow> 'a::zero) \<Rightarrow> int \<Rightarrow> stream option \<Rightarrow> u16 \<Rightarrow> 'a \<times> stream option" where
  "pid_rate f now stream nr =
     (case stream of
        None \<Rightarrow> (0, None)
      | Some s \<Rightarrow>
          (case internal_pids s (nr AND 0x1fff) of
             None \<Rightarrow> (0, Some s)
           | Some p \<Rightarrow> let p = expire_per_second_pid_stats now p
                       in (f p, Some (s\<lparr>internal_pids := (internal_pids s)(nr AND 0x1fff \<mapsto> p)\<rparr>))))"

definition ltntstools_bytestream_stats_stream_get_mbps :: "int \<Rightarrow> stream option \<Rightarrow> rat \<times> stream option" where
  "ltntstools_bytestream_stats_stream_get_mbps = stream_rate a324_mbps"

definition ltntstools_ctp_stats_stream_get_mbps :: "int \<Rightarrow> stream option \<Rightarrow> rat \<times> stream option" where
  "ltntstools_ctp_stats_stream_get_mbps = stream_rate a324_mbps"

definition ltntstools_pid_stats_stream_get_mbps :: "int \<Rightarrow> stream option \<Rightarrow> rat \<times> stream option" where
  "ltntstools_pid_stats_stream_get_mbps = stream_rate mbps"

definition ltntstools_pid_stats_stream_get_pps :: "int \<Rightarrow> stream option \<Rightarrow> u32 \<times> stream option" where
  "ltntstools_pid_stats_stream_get_pps = stream_rate pps"

definition ltntstools_pid_stats_stream_get_bps :: "int \<Rightarrow> stream option \<Rightarrow> u32 \<times> stream option" where
  "ltntstools_pid_stats_stream_get_bps = stream_rate (\<lambda>s. pps s * 188 * 8)"

text \<open>The \<open>double\<close> \<open>a324_bps\<close>, a whole number, is returned as \<open>uint32_t\<close>.\<close>

definition ltntstools_ctp_stats_stream_get_bps :: "int \<Rightarrow> stream option \<Rightarrow> u32 \<times> stream option" where
  "ltntstools_ctp_stats_stream_get_bps = stream_rate (\<lambda>s. word_of_int \<lfloor>a324_bps s\<rfloor>)"

definition ltntstools_bytestream_stats_stream_get_bps :: "int \<Rightarrow> stream option \<Rightarrow> u32 \<times> stream option" where
  "ltntstools_bytestream_stats_stream_get_bps = stream_rate (\<lambda>s. word_of_int \<lfloor>a324_bps s\<rfloor>)"

definition ltntstools_pid_stats_pid_get_mbps :: "int \<Rightarrow> stream option \<Rightarrow> u16 \<Rightarrow> rat \<times> stream option" where
  "ltntstools_pid_stats_pid_get_mbps = pid_rate pid_mbps"

definition ltntstools_pid_stats_pid_get_pps :: "int \<Rightarrow> stream option \<Rightarrow> u16 \<Rightarrow> u32 \<times> stream option" where
  "ltntstools_pid_stats_pid_get_pps = pid_rate pid_pps"

definition ltntstools_pid_stats_pid_get_bps :: "int \<Rightarrow> stream option \<Rightarrow> u16 \<Rightarrow> u32 \<times> stream option" where
  "ltntstools_pid_stats_pid_get_bps = pid_rate (\<lambda>p. pid_pps p * 188 * 8)"

definition ltntstools_pid_stats_stream_padding_pct :: "int \<Rightarrow> stream option \<Rightarrow> u32 \<times> stream option" where
  "ltntstools_pid_stats_stream_padding_pct now stream =
     (let (null_bps, stream) = ltntstools_pid_stats_pid_get_bps now stream 0x1fff;
          (stream_bps, stream) = ltntstools_pid_stats_stream_get_bps now stream
      in if stream_bps = 0 then (0, stream) else ((null_bps * 100) div stream_bps, stream))"

definition ltntstools_pid_stats_pid_set_contains_pcr ::
  "allocator \<Rightarrow> timeval \<Rightarrow> stream option \<Rightarrow> u16 \<Rightarrow> stream option" where
  "ltntstools_pid_stats_pid_set_contains_pcr alloc ts stream nr =
     map_option (\<lambda>s.
       let nr = nr AND 0x1fff
       in case discover_pid alloc ts nr s of
            None \<Rightarrow> s
          | Some s \<Rightarrow>
              (case internal_pids s nr of
                 None \<Rightarrow> s
               | Some p \<Rightarrow> ltntstools_bitrate_calculator_init
                             (s\<lparr>internal_pids := (internal_pids s)(nr \<mapsto> p\<lparr>hasPCR := True\<rparr>)\<rparr>) nr)) stream"

end
