(* ===== verification/StatsCounting.thy ===== *)
theory StatsCounting
  imports Stats
begin

text \<open>
  What the statistics of \<open>src/src/stats.c\<close> count. The lemmas take the update of one packet apart,
  relate each PID's entry and the stream's totals to the list of packets fed since the last
  reset, and show when an update is defined at all.
\<close>

unbundle bit_operations_syntax

subsection \<open>What one packet does\<close>

lemma notify_frame [simp]:
  "internal_pids (notify e q s) = internal_pids s" "pidArray (notify e q s) = pidArray s"
  "packetCount (notify e q s) = packetCount s" "teiErrors (notify e q s) = teiErrors s"
  "ccErrors (notify e q s) = ccErrors s" "scrambledCount (notify e q s) = scrambledCount s"
  "ccErrorHistory (notify e q s) = ccErrorHistory s" "packetIntervals (notify e q s) = packetIntervals s"
  "notifications (notify e q s) = notifications s" "bc_ctx (notify e q s) = bc_ctx s"
  "iat_last_frame (notify e q s) = iat_last_frame s" "pps_window (notify e q s) = pps_window s"
  by (simp_all add: notify_def split: option.split)

text \<open>The parts of a stream and of a PID that the counting is about.\<close>

definition tables :: "stream \<Rightarrow> (u16 \<rightharpoonup> pid_stats) \<times> u16 list \<times> ltn_histogram_s \<times> ltntstools_bc_ctx_s" where
  "tables s = (internal_pids s, pidArray s, packetIntervals s, bc_ctx s)"

definition counts :: "stream \<Rightarrow> nat \<times> nat \<times> nat \<times> nat" where
  "counts s = (packetCount s, ccErrors s, teiErrors s, scrambledCount s)"

definition pid_counts :: "pid_stats \<Rightarrow> nat \<times> nat \<times> nat \<times> nat" where
  "pid_counts p = (pid_packetCount p, pid_ccErrors p, pid_teiErrors p, pid_scrambledCount p)"

lemma tables_notify [simp]: "tables (notify e q s) = tables s" "counts (notify e q s) = counts s"
  by (simp_all add: tables_def counts_def)

lemma increment_spec:
  assumes "stream_increment_cc_errors alloc now ts s = Some s'"
  shows "tables s' = tables s" "ccErrors s' = ccErrors s + 1" "packetCount s' = packetCount s"
    "teiErrors s' = teiErrors s" "scrambledCount s' = scrambledCount s"
  using assms by (auto simp: stream_increment_cc_errors_def tables_def Let_def bind_eq_Some_conv)

lemma record_value_pcr_timing:
  assumes "pcr_timing ts pcr (s, p) = Some (s', p')"
  shows "tables s' = tables s" "counts s' = counts s" "ccErrorHistory s' = ccErrorHistory s"
    "pid_counts p' = pid_counts p" "pidNr p' = pidNr p" "lastCC p' = lastCC p" "hasPCR p' = hasPCR p"
  using assms
  by (auto simp: pcr_timing_def Let_def bind_eq_Some_conv pid_counts_def tables_def counts_def split: if_splits)


lemma packet_pcr_cases:
  assumes "packet_pcr alloc ts nr pkt (s, p) = Some (s', p')"
  obtains "s' = s" "p' = p"
  | "s' = s" "p' = p\<lparr>seenPCR := seenPCR p + 1\<rparr>"
  | pcr where "pcr_timing ts pcr (s, pcr_initialize alloc ts nr (p\<lparr>seenPCR := seenPCR p + 1\<rparr>)) = Some (s', p')"
proof (cases "hasPCR p")
  case True
  then obtain r where r: "ltntstools_scr pkt = Some r" using assms by (auto simp: packet_pcr_def bind_eq_Some_conv)
  show thesis
  proof (cases r)
    case None
    then show ?thesis using assms True r that(1) by (simp add: packet_pcr_def)
  next
    case (Some pcr)
    then show ?thesis using assms True r that(2,3) by (cases "seenPCR p < 100") (simp_all add: packet_pcr_def)
  qed
next
  case False
  then show thesis using assms that(1) by (simp add: packet_pcr_def)
qed

lemma pcr_initialize_frame:
  "pid_counts (pcr_initialize alloc ts nr p) = pid_counts p" "pidNr (pcr_initialize alloc ts nr p) = pidNr p"
  "lastCC (pcr_initialize alloc ts nr p) = lastCC p" "hasPCR (pcr_initialize alloc ts nr p) = hasPCR p"
  by (simp_all add: pcr_initialize_def pid_counts_def)

lemma packet_pcr_frame:
  assumes "packet_pcr alloc ts nr pkt (s, p) = Some (s', p')"
  shows "tables s' = tables s" "counts s' = counts s" "ccErrorHistory s' = ccErrorHistory s"
    "pid_counts p' = pid_counts p" "pidNr p' = pidNr p" "lastCC p' = lastCC p" "hasPCR p' = hasPCR p"
proof -
  have c: "pid_counts (p\<lparr>seenPCR := n\<rparr>) = pid_counts p" for n by (simp add: pid_counts_def)
  show "tables s' = tables s" "counts s' = counts s" "ccErrorHistory s' = ccErrorHistory s"
    "pid_counts p' = pid_counts p" "pidNr p' = pidNr p" "lastCC p' = lastCC p" "hasPCR p' = hasPCR p"
    by (cases rule: packet_pcr_cases [OF assms]; auto simp: c pcr_initialize_frame dest: record_value_pcr_timing)+
qed

text \<open>The steps before the PCR, in one equation each.\<close>

lemma packet_count_eq:
  "packet_count pkt (s, p) =
     (s\<lparr>payloadPUSIErrors := payloadPUSIErrors s + of_bool (ltntstools_isPayloadPUSIInError pkt)\<rparr>,
      p\<lparr>pid_enabled := True, pid_packetCount := pid_packetCount p + 1,
        pid_payloadPUSIErrors := pid_payloadPUSIErrors p + of_bool (ltntstools_isPayloadPUSIInError pkt)\<rparr>)"
  by (simp add: packet_count_def)

lemma packet_pusi_frame:
  "tables (fst (packet_pusi ts pkt (s, p))) = tables s" "counts (fst (packet_pusi ts pkt (s, p))) = counts s"
  "pid_counts (snd (packet_pusi ts pkt (s, p))) = pid_counts p" "pidNr (snd (packet_pusi ts pkt (s, p))) = pidNr p"
  "lastCC (snd (packet_pusi ts pkt (s, p))) = lastCC p" "hasPCR (snd (packet_pusi ts pkt (s, p))) = hasPCR p"
  "ccErrorHistory (fst (packet_pusi ts pkt (s, p))) = ccErrorHistory s"
  by (simp_all add: packet_pusi_def pid_counts_def)

lemma packet_pps_frame:
  "pid_counts (packet_pps now p) = pid_counts p" "pidNr (packet_pps now p) = pidNr p"
  "lastCC (packet_pps now p) = lastCC p" "hasPCR (packet_pps now p) = hasPCR p"
  by (simp_all add: packet_pps_def pid_counts_def)

definition cc_error :: "u16 \<Rightarrow> bytes \<Rightarrow> pid_stats \<Rightarrow> nat" where
  "cc_error nr pkt p = of_bool (ltntstools_isCCInError pkt (lastCC p) \<and> pid_packetCount p > 1 \<and> nr \<noteq> 0x1fff)"

lemma packet_cc_spec:
  assumes "packet_cc alloc now ts nr pkt (s, p) = Some (s', p')"
  shows "tables s' = tables s" "ccErrors s' = ccErrors s + cc_error nr pkt p" "packetCount s' = packetCount s"
    "teiErrors s' = teiErrors s" "scrambledCount s' = scrambledCount s"
    "p' = p\<lparr>pid_ccErrors := pid_ccErrors p + cc_error nr pkt p\<rparr>"
  using assms by (auto simp: packet_cc_def cc_error_def bind_eq_Some_conv increment_spec split: if_splits)

lemma packet_tail_eq:
  "counts (fst (packet_tei pkt (packet_scrambled pkt (s, p)))) =
     (packetCount s, ccErrors s, teiErrors s + of_bool (ltntstools_tei_set pkt),
      scrambledCount s + of_bool (ltntstools_transport_scrambling_control pkt \<noteq> 0))"
  "tables (fst (packet_tei pkt (packet_scrambled pkt (s, p)))) = tables s"
  "ccErrorHistory (fst (packet_tei pkt (packet_scrambled pkt (s, p)))) = ccErrorHistory s"
  "pid_counts (snd (packet_tei pkt (packet_scrambled pkt (s, p)))) =
     (pid_packetCount p, pid_ccErrors p, pid_teiErrors p + of_bool (ltntstools_tei_set pkt),
      pid_scrambledCount p + of_bool (ltntstools_transport_scrambling_control pkt \<noteq> 0))"
  "lastCC (snd (packet_tei pkt (packet_scrambled pkt (s, p)))) = ltntstools_continuity_counter pkt"
  "pidNr (snd (packet_tei pkt (packet_scrambled pkt (s, p)))) = pidNr p"
  "hasPCR (snd (packet_tei pkt (packet_scrambled pkt (s, p)))) = hasPCR p"
  by (simp_all add: packet_tei_def packet_scrambled_def counts_def tables_def pid_counts_def Let_def)

text \<open>The steps of an update, with the states between them.\<close>

lemma update_packet_elim:
  assumes "update_packet alloc now ts pkt s0 = Some s'" and "discover_pid alloc ts (ltntstools_pid pkt) s0 = Some s"
  obtains p s1 p1 s2 p2 s3 p3 s4 p4 where "internal_pids s (ltntstools_pid pkt) = Some p"
    and "packet_pusi ts pkt (packet_count pkt (s, p)) = (s1, p1)"
    and "packet_cc alloc now ts (ltntstools_pid pkt) pkt (s1, packet_pps now p1) = Some (s2, p2)"
    and "packet_tei pkt (packet_scrambled pkt (s2, p2)) = (s3, p3)"
    and "packet_pcr alloc ts (ltntstools_pid pkt) pkt (s3, p3) = Some (s4, p4)"
    and "s' = s4\<lparr>internal_pids := (internal_pids s4)(ltntstools_pid pkt \<mapsto> p4)\<rparr>"
proof -
  let ?nr = "ltntstools_pid pkt"
  obtain p where p: "internal_pids s ?nr = Some p"
    using assms by (auto simp: update_packet_def Let_def bind_eq_Some_conv)
  obtain s1 p1 where 1: "packet_pusi ts pkt (packet_count pkt (s, p)) = (s1, p1)" by fastforce
  obtain s2 p2 where 2: "packet_cc alloc now ts ?nr pkt (s1, packet_pps now p1) = Some (s2, p2)"
    using assms p 1 by (auto simp: update_packet_def Let_def bind_eq_Some_conv)
  obtain s3 p3 where 3: "packet_tei pkt (packet_scrambled pkt (s2, p2)) = (s3, p3)" by fastforce
  show thesis
    using assms p 1 2 3 that [OF p 1 2 3] by (auto simp: update_packet_def Let_def bind_eq_Some_conv)
qed

lemma update_packet_spec:
  assumes "update_packet alloc now ts pkt s0 = Some s'" and "discover_pid alloc ts (ltntstools_pid pkt) s0 = Some s"
  defines "nr \<equiv> ltntstools_pid pkt"
    and "tei \<equiv> of_bool (ltntstools_tei_set pkt) :: nat"
    and "scr \<equiv> of_bool (ltntstools_transport_scrambling_control pkt \<noteq> 0) :: nat"
  obtains p p' err where "internal_pids s nr = Some p"
    and "err = of_bool (ltntstools_isCCInError pkt (lastCC p) \<and> 0 < pid_packetCount p \<and> nr \<noteq> 0x1fff)"
    and "tables s' = ((internal_pids s)(nr \<mapsto> p'), pidArray s, packetIntervals s, bc_ctx s)"
    and "counts s' = (packetCount s, ccErrors s + err, teiErrors s + tei, scrambledCount s + scr)"
    and "pid_counts p' = (pid_packetCount p + 1, pid_ccErrors p + err, pid_teiErrors p + tei, pid_scrambledCount p + scr)"
    and "lastCC p' = ltntstools_continuity_counter pkt" and "pidNr p' = pidNr p" and "hasPCR p' = hasPCR p"
proof -
  obtain p s1 p1 s2 p2 s4 p4 s3 p3 where p: "internal_pids s nr = Some p"
    and 1: "packet_pusi ts pkt (packet_count pkt (s, p)) = (s1, p1)"
    and 2: "packet_cc alloc now ts nr pkt (s1, packet_pps now p1) = Some (s2, p2)"
    and 4: "packet_tei pkt (packet_scrambled pkt (s2, p2)) = (s4, p4)"
    and 3: "packet_pcr alloc ts nr pkt (s4, p4) = Some (s3, p3)"
    and s': "s' = s3\<lparr>internal_pids := (internal_pids s3)(nr \<mapsto> p3)\<rparr>"
    unfolding nr_def by (rule update_packet_elim [OF assms(1,2)])
  have f1: "tables s1 = tables s" "counts s1 = counts s" "lastCC p1 = lastCC p" "pidNr p1 = pidNr p" "hasPCR p1 = hasPCR p"
    "pid_counts p1 = (pid_packetCount p + 1, pid_ccErrors p, pid_teiErrors p, pid_scrambledCount p)"
    using packet_pusi_frame [of ts pkt "fst (packet_count pkt (s, p))" "snd (packet_count pkt (s, p))"] 1
    by (simp_all add: packet_count_eq tables_def counts_def pid_counts_def)
  note f2 = packet_cc_spec [OF 2] packet_pps_frame [of now p1]
  note f3 = packet_pcr_frame [OF 3] packet_tail_eq [of pkt s2 p2, unfolded 4 fst_conv snd_conv]
  have c: "cc_error nr pkt (packet_pps now p1)
      = of_bool (ltntstools_isCCInError pkt (lastCC p) \<and> 0 < pid_packetCount p \<and> nr \<noteq> 0x1fff)"
    using f1 f2 by (simp add: cc_error_def pid_counts_def)
  show thesis
  proof (rule that [OF p refl])
    show "tables s' = ((internal_pids s)(nr \<mapsto> p3), pidArray s, packetIntervals s, bc_ctx s)"
      using f1 f2 f3 by (simp add: s' tables_def)
    show "counts s' = (packetCount s, ccErrors s +
        of_bool (ltntstools_isCCInError pkt (lastCC p) \<and> 0 < pid_packetCount p \<and> nr \<noteq> 0x1fff),
        teiErrors s + tei, scrambledCount s + scr)"
      using f1 f2 f3 c by (simp add: s' counts_def tei_def scr_def)
    show "pid_counts p3 = (pid_packetCount p + 1, pid_ccErrors p +
        of_bool (ltntstools_isCCInError pkt (lastCC p) \<and> 0 < pid_packetCount p \<and> nr \<noteq> 0x1fff),
        pid_teiErrors p + tei, pid_scrambledCount p + scr)"
      using f1 f2 f3 c by (simp add: pid_counts_def tei_def scr_def)
    show "lastCC p3 = ltntstools_continuity_counter pkt" "pidNr p3 = pidNr p" "hasPCR p3 = hasPCR p"
      using f1 f2 f3 by simp_all
  qed
qed

subsection \<open>The table of PIDs\<close>

text \<open>
  Every PID of the table is listed once in \<open>pidArray\<close>, is a 13-bit number, and its entry carries
  that number.
\<close>

definition pids_inv :: "stream \<Rightarrow> bool" where
  "pids_inv s \<longleftrightarrow> distinct (pidArray s) \<and> set (pidArray s) = dom (internal_pids s)
     \<and> (\<forall>nr \<in> set (pidArray s). unat nr < MAX_PID) \<and> (\<forall>nr p. internal_pids s nr = Some p \<longrightarrow> pidNr p = nr)"

lemma pid_bound: "unat (ltntstools_pid pkt) < MAX_PID"
proof -
  have "(0x1fff :: u16) = mask 13" by (simp add: mask_eq_exp_minus_1)
  then show ?thesis
    using unat_and_mask_lt [of "ltntstools_pid pkt" 13] by (simp add: ltntstools_pid_def MAX_PID_def and.assoc)
qed

lemma pid_masked: "unat (nr AND 0x1fff :: u16) < MAX_PID"
proof -
  have "(0x1fff :: u16) = mask 13" by (simp add: mask_eq_exp_minus_1)
  then show ?thesis using unat_and_mask_lt [of nr 13] by (simp add: MAX_PID_def)
qed

lemma mask_pid: "unat nr < MAX_PID \<Longrightarrow> nr AND 0x1fff = (nr :: u16)"
proof -
  assume "unat nr < MAX_PID"
  then have "take_bit 13 nr = nr" by (intro take_bit_word_id) (simp add: MAX_PID_def)
  then show ?thesis by (simp add: take_bit_eq_mask mask_eq_exp_minus_1)
qed

lemma pids_room:
  assumes "pids_inv s" "internal_pids s nr = None" "unat nr < MAX_PID"
  shows "length (pidArray s) < MAX_PID"
proof -
  have "nr \<notin> set (pidArray s)" using assms(1,2) by (auto simp: pids_inv_def dom_def)
  then have "distinct (map unat (nr # pidArray s))"
    using assms(1) by (auto simp: pids_inv_def distinct_map inj_on_def simp flip: word_unat_eq_iff)
  from distinct_card [OF this, symmetric] have "length (nr # pidArray s) = card (set (map unat (nr # pidArray s)))"
    by simp
  also have "\<dots> \<le> card {..<MAX_PID}"
    using assms(1,3) by (intro card_mono) (auto simp: pids_inv_def)
  finally show ?thesis by simp
qed

text \<open>The entry of a PID seen for the first time.\<close>

lemma fresh_pid:
  assumes "ltntstools_pid_statistics_alloc alloc ts nr = Some p"
  shows "pid_counts p = (0, 0, 0, 0)" "pidNr p = nr" "\<not> hasPCR p" "lastCC p = 0"
    "pcrTickIntervals p = None" "pcrWallDrift p = None"
  using assms by (auto simp: ltntstools_pid_statistics_alloc_def ltntstools_pid_statistics_reset_def
      pid_statistics_zero_def pid_counts_def split: if_splits)

lemma discover_pid_cases:
  assumes "discover_pid alloc ts nr s = Some s'" "unat nr < MAX_PID"
  obtains p where "internal_pids s nr = Some p" "s' = s"
  | p where "internal_pids s nr = None" "ltntstools_pid_statistics_alloc alloc ts nr = Some p"
      "s' = s\<lparr>internal_pids := (internal_pids s)(nr \<mapsto> p), pidArray := pidArray s @ [nr]\<rparr>"
  using assms that
  by (auto simp: discover_pid_def pidArrayAdd_def mask_pid split: option.splits if_splits)

lemma discover_pid_inv:
  assumes "pids_inv s" "discover_pid alloc ts nr s = Some s'" "unat nr < MAX_PID"
  shows "pids_inv s'"
  using assms(2,3)
proof (cases rule: discover_pid_cases)
  case (2 p)
  moreover have "nr \<notin> set (pidArray s)" using 2(1) assms(1) by (auto simp: pids_inv_def dom_def)
  ultimately show ?thesis using assms(1,3) fresh_pid(2) [OF 2(2)] by (auto simp: pids_inv_def)
qed (use assms(1) in simp)

lemma discover_pid_granted:
  assumes "pids_inv s" "unat nr < MAX_PID" "\<And>n. alloc n"
  shows "\<exists>s'. discover_pid alloc ts nr s = Some s'"
  using assms pids_room [OF assms(1) _ assms(2)]
  by (cases "internal_pids s nr")
     (auto simp: discover_pid_def pidArrayAdd_def ltntstools_pid_statistics_alloc_def not_le)

subsection \<open>Counting packets\<close>

definition of_pid :: "u16 \<Rightarrow> bytes list \<Rightarrow> bytes list" where
  "of_pid nr pkts = filter (\<lambda>k. ltntstools_pid k = nr) pkts"

text \<open>
  When a packet follows another of its PID: the counter goes up by one modulo 16; without payload it
  may also stay.
\<close>

definition cc_follows :: "bytes \<Rightarrow> bytes \<Rightarrow> bool" where
  "cc_follows a b \<longleftrightarrow>
     (let c = unat (ltntstools_continuity_counter a); d = unat (ltntstools_continuity_counter b)
      in d = (c + 1) mod 16 \<or> d = c \<and> ltntstools_adaption_field_control b \<in> {0, 2})"

fun cc_breaks :: "bytes list \<Rightarrow> nat" where
  "cc_breaks (a # b # pkts) = of_bool (\<not> cc_follows a b) + cc_breaks (b # pkts)"
| "cc_breaks _ = 0"

lemma cc_breaks_snoc:
  "cc_breaks (pkts @ [b]) = cc_breaks pkts + of_bool (pkts \<noteq> [] \<and> \<not> cc_follows (last pkts) b)"
  by (induction pkts rule: cc_breaks.induct) auto

lemma cc_lt: "unat (ltntstools_continuity_counter a) < 16"
proof -
  have "(0x0f :: u8) = mask 4" by (simp add: mask_eq_exp_minus_1)
  then show ?thesis using unat_and_mask_lt [of "a ! 3" 4] by (simp add: ltntstools_continuity_counter_def)
qed

lemma adap_cases: "ltntstools_adaption_field_control b \<in> {0, 1, 2, 3}"
proof -
  have "(0x03 :: u8) = mask 2" by (simp add: mask_eq_exp_minus_1)
  then have "unat (ltntstools_adaption_field_control b) < 4"
    using unat_and_mask_lt [of "drop_bit 4 (b ! 3)" 2] by (simp add: ltntstools_adaption_field_control_def)
  then have "unat (ltntstools_adaption_field_control b) \<in> {0, 1, 2, 3}" by auto
  then show ?thesis by (auto simp: word_unat_eq_iff)
qed

lemma isCCInError_iff:
  "ltntstools_isCCInError b (ltntstools_continuity_counter a) \<longleftrightarrow> \<not> cc_follows a b"
proof -
  have "(unat (ltntstools_continuity_counter a) + 1) mod 16 \<noteq> unat (ltntstools_continuity_counter a)"
    using cc_lt [of a] by presburger
  then show ?thesis using adap_cases [of b]
    by (auto simp: ltntstools_isCCInError_def cc_follows_def Let_def word_unat_eq_iff)
qed

text \<open>The checks read the first four bytes only.\<close>

lemma header_take [simp]:
  "ltntstools_pid (take 188 pkt) = ltntstools_pid pkt"
  "ltntstools_continuity_counter (take 188 pkt) = ltntstools_continuity_counter pkt"
  "ltntstools_adaption_field_control (take 188 pkt) = ltntstools_adaption_field_control pkt"
  "ltntstools_tei_set (take 188 pkt) = ltntstools_tei_set pkt"
  "ltntstools_sync_present (take 188 pkt) = ltntstools_sync_present pkt"
  "ltntstools_transport_scrambling_control (take 188 pkt) = ltntstools_transport_scrambling_control pkt"
  by (simp_all add: pkt_defs)

lemma cc_follows_take [simp]: "cc_follows a (take 188 b) = cc_follows a b"
  by (simp add: cc_follows_def)

text \<open>What the entry of a PID says after the packets \<open>hs\<close>, and what the stream says.\<close>

definition tallied :: "bytes list \<Rightarrow> u16 \<Rightarrow> pid_stats \<Rightarrow> bool" where
  "tallied hs nr p \<longleftrightarrow>
     pid_counts p = (length (of_pid nr hs), if nr = 0x1fff then 0 else cc_breaks (of_pid nr hs),
        length (filter ltntstools_tei_set (of_pid nr hs)),
        length (filter (\<lambda>k. ltntstools_transport_scrambling_control k \<noteq> 0) (of_pid nr hs)))
     \<and> (of_pid nr hs \<noteq> [] \<longrightarrow> lastCC p = ltntstools_continuity_counter (last (of_pid nr hs)))"

definition cc_total :: "stream \<Rightarrow> nat" where
  "cc_total s = (\<Sum>nr \<in> set (pidArray s). pid_ccErrors (the (internal_pids s nr)))"

definition tally :: "bytes list \<Rightarrow> nat \<Rightarrow> nat \<Rightarrow> stream \<Rightarrow> bool" where
  "tally hs good bad s \<longleftrightarrow> pids_inv s
     \<and> (\<forall>nr p. internal_pids s nr = Some p \<longrightarrow> tallied hs nr p)
     \<and> (\<forall>nr. internal_pids s nr = None \<longrightarrow> of_pid nr hs = [])
     \<and> counts s = (good, bad + cc_total s, length (filter ltntstools_tei_set hs),
         length (filter (\<lambda>k. ltntstools_transport_scrambling_control k \<noteq> 0) hs))"

lemma of_pid_snoc:
  "of_pid nr (hs @ [k]) = (if ltntstools_pid k = nr then of_pid nr hs @ [k] else of_pid nr hs)"
  by (simp add: of_pid_def)

text \<open>A PID that is new has no packets and no errors yet.\<close>

lemma tally_discover:
  assumes "tally hs good bad s" "discover_pid alloc ts nr s = Some s'" "unat nr < MAX_PID"
  shows "tally hs good bad s'"
  using assms(2,3)
proof (cases rule: discover_pid_cases)
  case (2 p)
  have n: "nr \<notin> set (pidArray s)" and e: "of_pid nr hs = []"
    using 2(1) assms(1) by (auto simp: tally_def pids_inv_def dom_def)
  have "cc_total s' = cc_total s"
    using n fresh_pid(1) [OF 2(2)] unfolding cc_total_def 2(3)
    by (simp add: pid_counts_def) (rule sum.cong, auto)
  then show ?thesis
    using assms(1) discover_pid_inv [OF _ assms(2,3)] fresh_pid(1) [OF 2(2)] e
    by (auto simp: tally_def 2(3) tallied_def counts_def)
qed (use assms(1) in simp)

lemma tally_packet:
  assumes "tally hs good bad s0" "update_packet alloc now ts pkt s0 = Some s'" "\<And>n. alloc n"
  shows "tally (hs @ [take 188 pkt]) good bad s'"
proof -
  let ?nr = "ltntstools_pid pkt"
  obtain s where s: "discover_pid alloc ts ?nr s0 = Some s"
    using discover_pid_granted [where alloc = alloc, OF _ pid_bound assms(3)] assms(1) unfolding tally_def by blast
  have t: "tally hs good bad s" by (rule tally_discover [OF assms(1) s pid_bound])
  obtain p p' err where p: "internal_pids s ?nr = Some p"
    and err: "err = of_bool (ltntstools_isCCInError pkt (lastCC p) \<and> 0 < pid_packetCount p \<and> ?nr \<noteq> 0x1fff)"
    and tab: "tables s' = ((internal_pids s)(?nr \<mapsto> p'), pidArray s, packetIntervals s, bc_ctx s)"
    and c: "counts s' = (packetCount s, ccErrors s + err, teiErrors s + of_bool (ltntstools_tei_set pkt),
        scrambledCount s + of_bool (ltntstools_transport_scrambling_control pkt \<noteq> 0))"
    and pc: "pid_counts p' = (pid_packetCount p + 1, pid_ccErrors p + err,
        pid_teiErrors p + of_bool (ltntstools_tei_set pkt),
        pid_scrambledCount p + of_bool (ltntstools_transport_scrambling_control pkt \<noteq> 0))"
    and cc: "lastCC p' = ltntstools_continuity_counter pkt" and nr: "pidNr p' = pidNr p"
    by (rule update_packet_spec [OF assms(2) s]) blast
  let ?o = "of_pid ?nr hs"
  have tp: "tallied hs ?nr p" using t p by (simp add: tally_def)
  then have e: "err = of_bool (?o \<noteq> [] \<and> \<not> cc_follows (last ?o) pkt \<and> ?nr \<noteq> 0x1fff)"
    using isCCInError_iff [of pkt "last ?o"] by (auto simp: err tallied_def pid_counts_def)
  have tp': "tallied (hs @ [take 188 pkt]) ?nr p'"
    using tp pc cc by (simp add: tallied_def of_pid_snoc cc_breaks_snoc e pid_counts_def)
  have old: "tallied (hs @ [take 188 pkt]) nr q" if "internal_pids s nr = Some q" "nr \<noteq> ?nr" for nr q
    using t that by (auto simp: tally_def tallied_def of_pid_snoc)
  have inv: "pids_inv s'" using t p tab nr by (auto simp: tally_def pids_inv_def tables_def)
  have i: "?nr \<in> set (pidArray s)" and f: "finite (set (pidArray s))"
    using t p by (auto simp: tally_def pids_inv_def)
  have "cc_total s' = cc_total s + err"
    using tab pc p unfolding cc_total_def sum.remove [OF f i]
    by (simp add: tables_def pid_counts_def sum.remove [OF f i])
  then show ?thesis
    using t tab c inv tp' old by (auto simp: tally_def tables_def counts_def of_pid_snoc split: if_splits)
qed

lemma tally_sync:
  assumes "tally hs good bad s" "update_sync alloc now ts pkt s = Some s'"
  shows "tally hs (good + of_bool (ltntstools_sync_present pkt)) (bad + of_bool (\<not> ltntstools_sync_present pkt)) s'"
proof (cases "ltntstools_sync_present pkt")
  case True
  then have "s' = s\<lparr>packetCount := packetCount s + 1\<rparr>"
    using assms(2) by (auto simp: update_sync_def bind_eq_Some_conv rd_Some ltntstools_sync_present_def)
  then show ?thesis using assms(1) True by (simp add: tally_def counts_def pids_inv_def cc_total_def)
next
  case False
  then have "stream_increment_cc_errors alloc now ts s = Some s'"
    using assms(2) by (auto simp: update_sync_def bind_eq_Some_conv rd_Some ltntstools_sync_present_def split: if_splits)
  from increment_spec [OF this] show ?thesis
    using assms(1) False by (simp add: tally_def counts_def pids_inv_def cc_total_def tables_def)
qed

text \<open>Loops: an invariant that takes note of the elements.\<close>

lemma mem_fold_history:
  assumes "\<And>hs x s s'. I hs s \<Longrightarrow> body x s = Some s' \<Longrightarrow> I (hs @ [x]) s'"
  shows "I hs s \<Longrightarrow> mem_fold body xs s = Some s' \<Longrightarrow> I (hs @ xs) s'"
proof (induction xs arbitrary: hs s)
  case (Cons x xs)
  from Cons.prems(2) obtain t where t: "body x s = Some t" "mem_fold body xs t = Some s'"
    by (auto simp: bind_eq_Some_conv)
  from Cons.IH [OF assms [OF Cons.prems(1) t(1)] t(2)] show ?case by simp
qed simp

lemma tally_packets:
  assumes "tally hs good bad s" "mem_fold (update_packet alloc now ts) pkts s = Some s'" "\<And>n. alloc n"
  shows "tally (hs @ map (take 188) pkts) good bad s'"
proof -
  have "tally (hs @ map (take 188) ([] @ pkts)) good bad s'"
    using assms(2)
    by (rule mem_fold_history [where I = "\<lambda>us s. tally (hs @ map (take 188) us) good bad s", rotated 2])
       (use assms(1) tally_packet [where alloc = alloc, OF _ _ assms(3)] in \<open>simp_all flip: append_assoc\<close>)
  then show ?thesis by simp
qed

lemma tally_syncs:
  assumes "tally hs good bad s" "mem_fold (update_sync alloc now ts) pkts s = Some s'"
  shows "tally hs (good + length (filter ltntstools_sync_present pkts))
    (bad + length (filter (\<lambda>k. \<not> ltntstools_sync_present k) pkts)) s'"
proof -
  let ?I = "\<lambda>us s. tally hs (good + length (filter ltntstools_sync_present us))
    (bad + length (filter (\<lambda>k. \<not> ltntstools_sync_present k) us)) s"
  have "?I ([] @ pkts) s'"
  proof (rule mem_fold_history [where I = ?I and body = "update_sync alloc now ts"])
    show "?I (us @ [k]) u'" if "?I us u" "update_sync alloc now ts k u = Some u'" for us k u u'
      using tally_sync [OF that] by (cases "ltntstools_sync_present k") simp_all
  qed (use assms in simp_all)
  then show ?thesis by simp
qed

subsection \<open>Whole operations\<close>

lemma tally_cong:
  assumes "internal_pids s' = internal_pids s" "pidArray s' = pidArray s" "counts s' = counts s"
  shows "tally hs good bad s' = tally hs good bad s"
  using assms by (simp add: tally_def pids_inv_def cc_total_def)

lemma bc_write_frame:
  assumes "ltntstools_bitrate_calculator_write s pkts n = Some (s', c)"
  obtains bc where "s' = s\<lparr>bc_ctx := bc\<rparr>"
  using assms by (auto simp: ltntstools_bitrate_calculator_write_def Let_def bind_eq_Some_conv split: if_splits)

lemma update_pps_frame:
  "internal_pids (update_pps now n s) = internal_pids s" "pidArray (update_pps now n s) = pidArray s"
  "counts (update_pps now n s) = counts s" "bc_ctx (update_pps now n s) = bc_ctx s"
  "packetIntervals (update_pps now n s) = packetIntervals s" "ccErrorHistory (update_pps now n s) = ccErrorHistory s"
  by (simp_all add: update_pps_def counts_def Let_def)

lemma iat_marks_frame:
  "tables (iat_marks now cur s) = tables s" "counts (iat_marks now cur s) = counts s"
  "ccErrorHistory (iat_marks now cur s) = ccErrorHistory s"
  by (simp_all add: iat_marks_def tables_def counts_def Let_def)

lemma update_iat_frame:
  assumes "update_iat now ts s = Some s'"
  shows "internal_pids s' = internal_pids s" "pidArray s' = pidArray s" "counts s' = counts s"
    "bc_ctx s' = bc_ctx s" "ccErrorHistory s' = ccErrorHistory s"
  using assms iat_marks_frame [of now _ s]
  by (auto simp: update_iat_def Let_def bind_eq_Some_conv tables_def counts_def split: if_splits)

lemma update_iat_ok:
  assumes "hist_inv (packetIntervals s)"
  shows "mem_ok (update_iat now ts s) (\<lambda>s'. hist_inv (packetIntervals s'))"
proof (cases "tv_sec (iat_last_frame s) = 0")
  case False
  let ?cur = "to_int32 (ltn_timeval_subtract_us ts (iat_last_frame s))"
  have "hist_inv (packetIntervals (iat_marks now ?cur s))"
    using assms iat_marks_frame(1) [of now ?cur s] by (simp add: tables_def)
  from value_recorder.upd_mem_ok [OF this, of ts "nat (c_div ?cur 1000 mod 2 ^ 32)"] show ?thesis
    using False by (simp add: update_iat_def Let_def) (erule mem_ok_mono, auto)
qed (use assms in \<open>simp add: update_iat_def\<close>)

text \<open>The packets of a buffer as 188-byte packets.\<close>

definition packets_in :: "bytes \<Rightarrow> nat \<Rightarrow> bytes list" where
  "packets_in buf n = map (take 188) (packets_at buf n)"

lemma tally_update:
  assumes "tally hs good bad s" "ltntstools_pid_stats_update alloc now ts s (Some buf) n = Some s'" "\<And>n. alloc n"
  shows "tally (hs @ packets_in buf n) (good + length (filter ltntstools_sync_present (packets_in buf n)))
    (bad + length (filter (\<lambda>k. \<not> ltntstools_sync_present k) (packets_in buf n))) s'"
proof -
  let ?p = "packets_at buf n"
  let ?s = "if n \<noteq> 7 then not_multiple_of_seven now s else s"
  obtain s1 s2 s3 s4 where
    1: "(if pcrpidnr (bc_ctx ?s) = 0 then Some ?s
         else do { (s, completed) \<leftarrow> ltntstools_bitrate_calculator_write ?s buf n;
                   Some (if completed then notify EVENT_UPDATE_PCR_MBPS None s else s) }) = Some s1"
    and 2: "mem_fold (update_sync alloc now ts) ?p s1 = Some s2"
    and 3: "update_iat now ts (update_pps now n s2) = Some s3"
    and 4: "mem_fold (update_packet alloc now ts) ?p s3 = Some s4"
    and 5: "s' = s4\<lparr>iat_last_frame := ts\<rparr>"
    using assms(2) by (auto simp: ltntstools_pid_stats_update_def Let_def bind_eq_Some_conv)
  have f1: "internal_pids s1 = internal_pids s" "pidArray s1 = pidArray s" "counts s1 = counts s"
    using 1 by (auto simp: bind_eq_Some_conv not_multiple_of_seven_def counts_def
        elim!: bc_write_frame split: if_splits)
  from assms(1) have "tally hs good bad s1" by (simp add: tally_cong [OF f1])
  note 6 = tally_syncs [OF this 2]
  have f3: "internal_pids s3 = internal_pids s2" "pidArray s3 = pidArray s2" "counts s3 = counts s2"
    using update_iat_frame [OF 3] by (simp_all add: update_pps_frame)
  have f5: "internal_pids s' = internal_pids s4" "pidArray s' = pidArray s4" "counts s' = counts s4"
    by (simp_all add: 5 counts_def)
  from tally_packets [OF 6 [folded tally_cong [OF f3]] 4 assms(3)] show ?thesis
    by (simp add: tally_cong [OF f5] packets_in_def filter_map o_def)
qed

lemma tally_declare_pcr:
  assumes "tally hs good bad s"
  shows "tally hs good bad (the (ltntstools_pid_stats_pid_set_contains_pcr alloc ts (Some s) nr))"
proof (cases "discover_pid alloc ts (nr AND 0x1fff) s")
  case None
  then show ?thesis using assms by (simp add: ltntstools_pid_stats_pid_set_contains_pcr_def)
next
  case (Some t)
  note t = tally_discover [OF assms Some pid_masked]
  show ?thesis
  proof (cases "internal_pids t (nr AND 0x1fff)")
    case None
    then show ?thesis using Some t by (simp add: ltntstools_pid_stats_pid_set_contains_pcr_def)
  next
    case (Some p)
    let ?t = "t\<lparr>internal_pids := (internal_pids t)(nr AND 0x1fff \<mapsto> p\<lparr>hasPCR := True\<rparr>)\<rparr>"
    have "cc_total ?t = cc_total t" using Some by (auto simp: cc_total_def intro!: sum.cong)
    then have "tally hs good bad ?t"
      using t Some by (auto simp: tally_def pids_inv_def tallied_def pid_counts_def counts_def)
    then show ?thesis using \<open>discover_pid _ _ _ _ = Some t\<close> Some
      by (simp add: ltntstools_pid_stats_pid_set_contains_pcr_def Let_def ltntstools_bitrate_calculator_init_def
          ltntstools_bitrate_calculator_reset_def tally_def pids_inv_def cc_total_def counts_def)
  qed
qed

lemma tally_reset:
  assumes "pids_inv s"
  shows "tally [] 0 0 (ltntstools_pid_stats_reset ts s)"
proof -
  have "cc_total (ltntstools_pid_stats_reset ts s) = 0"
    using assms by (auto simp: cc_total_def pids_inv_def ltntstools_pid_stats_reset_def Let_def
        ltntstools_bitrate_calculator_reset_def ltntstools_pid_statistics_reset_def)
  then show ?thesis using assms
    by (auto simp: tally_def pids_inv_def tallied_def of_pid_def pid_counts_def counts_def dom_def
        ltntstools_pid_stats_reset_def Let_def ltntstools_bitrate_calculator_reset_def
        ltntstools_pid_statistics_reset_def)
qed

subsection \<open>When an update is defined\<close>

text \<open>
  A stream that measures no PCR, whose histogram is well-formed and whose history holds nothing
  older than \<open>t0\<close>.
\<close>

definition calm :: "int \<Rightarrow> stream \<Rightarrow> bool" where
  "calm t0 s \<longleftrightarrow> pids_inv s \<and> pcrpidnr (bc_ctx s) = 0 \<and> (\<forall>nr p. internal_pids s nr = Some p \<longrightarrow> \<not> hasPCR p)
     \<and> hist_inv (packetIntervals s) \<and> (\<forall>e \<in> set (hm_list (ccErrorHistory s)). t0 \<le> hm_ts e)"

lemma calm_tables:
  "tables s' = tables s \<Longrightarrow> ccErrorHistory s' = ccErrorHistory s \<Longrightarrow> calm t0 s' = calm t0 s"
  by (simp add: calm_def tables_def pids_inv_def)

text \<open>The times of an operation: nothing recorded from \<open>t0\<close> on has expired at \<open>now\<close>.\<close>

definition in_window :: "int \<Rightarrow> int \<Rightarrow> timeval \<Rightarrow> bool" where
  "in_window t0 now ts \<longleftrightarrow> t0 \<le> tv_sec ts \<and> now \<le> t0 + 90000"

definition granted :: "allocator \<Rightarrow> bool" where
  "granted alloc \<longleftrightarrow> (\<forall>n. alloc n)"

lemma increment_ok:
  assumes "granted alloc" "in_window t0 now ts" "calm t0 s"
  shows "mem_ok (stream_increment_cc_errors alloc now ts s) (\<lambda>s'. calm t0 s' \<and> tables s' = tables s)"
proof -
  let ?m = "\<lparr>hm_ts = tv_sec ts, hm_count = 1\<rparr>"
  have "\<forall>e \<in> set (?m # hm_list (ccErrorHistory s)). now - 90000 \<le> hm_ts e"
    using assms(2,3) by (auto simp: calm_def in_window_def intro: order_trans [of _ t0])
  from history_add_fresh [OF this] show ?thesis
    using assms
    by (simp add: stream_increment_cc_errors_def Let_def ltntstools_history_metric_alloc_def granted_def in_window_def
        calm_def pids_inv_def tables_def)
qed

lemma packet_ok:
  assumes "granted alloc" "in_window t0 now ts" "calm t0 s" "4 \<le> length pkt"
  shows "mem_ok (update_packet alloc now ts pkt s) (calm t0)"
proof -
  let ?nr = "ltntstools_pid pkt"
  obtain s0 where s0: "discover_pid alloc ts ?nr s = Some s0"
    using discover_pid_granted [of s ?nr alloc ts] pid_bound assms(1,3) unfolding calm_def granted_def by blast
  have c0: "calm t0 s0" using s0 pid_bound
  proof (cases rule: discover_pid_cases)
    case (2 p)
    then show ?thesis using assms(3) discover_pid_inv [OF _ s0 pid_bound] fresh_pid(3) [OF 2(2)]
      by (auto simp: calm_def split: if_splits)
  qed (use assms(3) in simp)
  obtain p where p: "internal_pids s0 ?nr = Some p" using s0 pid_bound
    by (cases rule: discover_pid_cases) auto
  obtain s1 p1 where 1: "packet_pusi ts pkt (packet_count pkt (s0, p)) = (s1, p1)" by fastforce
  have t1: "tables s1 = tables s0" "ccErrorHistory s1 = ccErrorHistory s0" "hasPCR p1 = hasPCR p" "pidNr p1 = pidNr p"
    using packet_pusi_frame [of ts pkt "fst (packet_count pkt (s0, p))" "snd (packet_count pkt (s0, p))"] 1
    by (simp_all add: packet_count_eq tables_def)
  have c1: "calm t0 s1" using c0 by (simp add: calm_tables [OF t1(1,2)])
  obtain s2 p2 where 2: "packet_cc alloc now ts ?nr pkt (s1, packet_pps now p1) = Some (s2, p2)"
    and c2: "calm t0 s2" and t2: "tables s2 = tables s1" and p2: "hasPCR p2 = hasPCR p1" "pidNr p2 = pidNr p1"
  proof -
    have "mem_ok (packet_cc alloc now ts ?nr pkt (s1, packet_pps now p1))
        (\<lambda>(s2, p2). calm t0 s2 \<and> tables s2 = tables s1 \<and> hasPCR p2 = hasPCR p1 \<and> pidNr p2 = pidNr p1)"
      using increment_ok [OF assms(1,2) c1] c1 by (auto simp: packet_cc_def packet_pps_frame elim: mem_ok_mono)
    then show thesis using that by (auto elim!: mem_okE)
  qed
  obtain s3 p3 where 3: "packet_tei pkt (packet_scrambled pkt (s2, p2)) = (s3, p3)" by fastforce
  note t3 = packet_tail_eq(2,3,6,7) [of pkt s2 p2, unfolded 3 fst_conv snd_conv]
  have h: "\<not> hasPCR p3" using c0 p t1 p2 t3 by (auto simp: calm_def)
  have n: "pidNr p3 = ?nr" using c0 p t1 p2 t3 by (auto simp: calm_def pids_inv_def)
  have "calm t0 s3" using c2 by (simp add: calm_tables [OF t3(1,2)])
  moreover have "internal_pids s3 ?nr = Some p" using p t1 t2 t3 by (simp add: tables_def)
  ultimately have "calm t0 (s3\<lparr>internal_pids := (internal_pids s3)(?nr \<mapsto> p3)\<rparr>)"
    using h n by (auto simp: calm_def pids_inv_def)
  then show ?thesis
    using assms(4) s0 p 1 2 3 h by (simp add: update_packet_def Let_def packet_pcr_def)
qed

lemma sync_ok:
  assumes "granted alloc" "in_window t0 now ts" "calm t0 s" "4 \<le> length pkt"
  shows "mem_ok (update_sync alloc now ts pkt s) (calm t0)"
proof (cases "pkt ! 0 = 0x47")
  case True
  then show ?thesis using assms by (cases pkt) (simp_all add: update_sync_def rd_def calm_def pids_inv_def)
next
  case False
  then show ?thesis using assms increment_ok [OF assms(1-3)]
    by (cases pkt) (auto simp: update_sync_def rd_def elim: mem_ok_mono)
qed

lemma fold_ok:
  assumes "\<And>x s. x \<in> set xs \<Longrightarrow> I s \<Longrightarrow> mem_ok (body x s) I"
  shows "I s \<Longrightarrow> mem_ok (mem_fold body xs s) I"
  using assms
proof (induction xs arbitrary: s)
  case (Cons x xs)
  from Cons.prems(2) [of x s] Cons.prems(1) obtain t where "body x s = Some t" "I t"
    by (auto elim: mem_okE)
  then show ?case using Cons.IH [of t] Cons.prems(2) by simp
qed simp

lemma update_ok:
  assumes "granted alloc" "in_window t0 now ts" "calm t0 s" "188 * n \<le> length buf"
  shows "mem_ok (ltntstools_pid_stats_update alloc now ts s (Some buf) n) (calm t0)"
proof -
  let ?p = "packets_at buf n" and ?s = "if n \<noteq> 7 then not_multiple_of_seven now s else s"
  have l: "4 \<le> length k" if "k \<in> set ?p" for k using that assms(4) by (auto simp: packets_at_def)
  have c: "calm t0 ?s" using assms(3) by (simp add: not_multiple_of_seven_def calm_def pids_inv_def)
  then have z: "pcrpidnr (bc_ctx ?s) = 0" by (simp add: calm_def)
  obtain s2 where 2: "mem_fold (update_sync alloc now ts) ?p ?s = Some s2" and c2: "calm t0 s2"
    using fold_ok [of ?p "calm t0" "update_sync alloc now ts", OF sync_ok [OF assms(1,2) _ l] c] by (auto elim: mem_okE)
  have "hist_inv (packetIntervals (update_pps now n s2))" using c2 by (simp add: calm_def update_pps_frame)
  from update_iat_ok [OF this, of now ts]
  obtain s3 where 3: "update_iat now ts (update_pps now n s2) = Some s3" and "hist_inv (packetIntervals s3)"
    by (auto elim: mem_okE)
  then have c3: "calm t0 s3"
    using update_iat_frame [OF 3] c2 by (simp add: calm_def pids_inv_def update_pps_frame)
  obtain s4 where 4: "mem_fold (update_packet alloc now ts) ?p s3 = Some s4" and c4: "calm t0 s4"
    using fold_ok [of ?p "calm t0" "update_packet alloc now ts", OF packet_ok [OF assms(1,2) _ l] c3] by (auto elim: mem_okE)
  have "calm t0 (s4\<lparr>iat_last_frame := ts\<rparr>)" using c4 by (simp add: calm_def pids_inv_def)
  then show ?thesis using z 2 3 4 by (simp add: ltntstools_pid_stats_update_def Let_def del: split_paired_All)
qed

lemma reset_calm:
  assumes "pids_inv s" "pcrpidnr (bc_ctx s) = 0" "\<forall>nr p. internal_pids s nr = Some p \<longrightarrow> \<not> hasPCR p"
    "hist_inv (packetIntervals s)"
  shows "calm t0 (ltntstools_pid_stats_reset ts s)"
  using assms
  by (auto simp: calm_def pids_inv_def ltntstools_pid_stats_reset_def Let_def ltntstools_bitrate_calculator_reset_def
      bc_reset_def ltntstools_pid_statistics_reset_def ltntstools_history_metric_collection_reset_def
      ltn_histogram_reset_def hist_inv_def bucket_zero_def sum_list_replicate dom_def)

lemma alloc_calm:
  assumes "ltntstools_pid_stats_alloc alloc ts = Some s"
  shows "calm t0 s" "tally [] 0 0 s"
proof -
  obtain h where h: "ltn_histogram_alloc_video_defaults alloc ts (Some ''IAT Intervals'') = Some h"
    and s: "s = ltntstools_pid_stats_reset ts (stream_zero (the (snd
      (ltntstools_history_metric_collection_init alloc (Some ''CC Error History'')))) h)"
    using assms by (auto simp: ltntstools_pid_stats_alloc_def split: if_splits option.splits)
  have z: "pids_inv (stream_zero c h)" "pcrpidnr (bc_ctx (stream_zero c h)) = 0"
    "internal_pids (stream_zero c h) = Map.empty" "packetIntervals (stream_zero c h) = h" for c
    by (simp_all add: stream_zero_def pids_inv_def bc_zero_def)
  have "hist_inv h" using alloc_inv(1) h unfolding ltn_histogram_alloc_video_defaults_def by fastforce
  then show "calm t0 s" unfolding s by (intro reset_calm) (simp_all add: z)
  show "tally [] 0 0 s" unfolding s by (intro tally_reset z)
qed

subsection \<open>Runs\<close>

text \<open>What an application does with a stream, and the packets it has fed since the last reset.\<close>

datatype stats_op = Packets int timeval bytes nat | Declare_PCR timeval u16 | Reset timeval

fun stats_run :: "allocator \<Rightarrow> stream \<Rightarrow> stats_op list \<Rightarrow> stream mem" where
  "stats_run alloc s [] = Some s"
| "stats_run alloc s (Packets now ts buf n # ops) =
     do { s \<leftarrow> ltntstools_pid_stats_update alloc now ts s (Some buf) n; stats_run alloc s ops }"
| "stats_run alloc s (Declare_PCR ts nr # ops) =
     stats_run alloc (the (ltntstools_pid_stats_pid_set_contains_pcr alloc ts (Some s) nr)) ops"
| "stats_run alloc s (Reset ts # ops) = stats_run alloc (ltntstools_pid_stats_reset ts s) ops"

fun fed :: "bytes list \<Rightarrow> stats_op list \<Rightarrow> bytes list" where
  "fed hs [] = hs"
| "fed hs (Packets now ts buf n # ops) = fed (hs @ packets_in buf n) ops"
| "fed hs (Declare_PCR ts nr # ops) = fed hs ops"
| "fed hs (Reset ts # ops) = fed [] ops"

lemma tally_run:
  assumes "granted alloc" "stats_run alloc s ops = Some s'"
    and "tally hs (length (filter ltntstools_sync_present hs)) (length (filter (\<lambda>k. \<not> ltntstools_sync_present k) hs)) s"
  shows "tally (fed hs ops) (length (filter ltntstools_sync_present (fed hs ops)))
    (length (filter (\<lambda>k. \<not> ltntstools_sync_present k) (fed hs ops))) s'"
  using assms(2,3)
proof (induction hs ops arbitrary: s rule: fed.induct)
  case (2 hs now ts buf n ops)
  from 2(2) obtain t where t: "ltntstools_pid_stats_update alloc now ts s (Some buf) n = Some t"
    and r: "stats_run alloc t ops = Some s'" by (auto simp: bind_eq_Some_conv)
  from 2(1) [OF r] tally_update [OF 2(3) t] assms(1) show ?case by (simp add: granted_def)
next
  case (3 hs ts nr ops)
  then show ?case using tally_declare_pcr by simp
next
  case (4 hs ts ops)
  then show ?case using tally_reset [of s ts] by (simp add: tally_def)
qed simp

text \<open>
  A session that stays in one window of 25 hours, hands in whole packets and asks for no PCR
  measurement.
\<close>

fun in_session :: "int \<Rightarrow> stats_op list \<Rightarrow> bool" where
  "in_session t0 [] \<longleftrightarrow> True"
| "in_session t0 (Packets now ts buf n # ops) \<longleftrightarrow> in_window t0 now ts \<and> 188 * n \<le> length buf \<and> in_session t0 ops"
| "in_session t0 (Declare_PCR ts nr # ops) \<longleftrightarrow> False"
| "in_session t0 (Reset ts # ops) \<longleftrightarrow> in_session t0 ops"

lemma run_ok:
  assumes "granted alloc"
  shows "calm t0 s \<Longrightarrow> in_session t0 ops \<Longrightarrow> \<exists>s'. stats_run alloc s ops = Some s'"
proof (induction ops arbitrary: s rule: in_session.induct)
  case (2 t0 now ts buf n ops)
  from 2(3) have "in_window t0 now ts" "188 * n \<le> length buf" "in_session t0 ops" by simp_all
  from update_ok [OF assms this(1) 2(2) this(2)] 2(1) this(3) show ?case by (auto elim!: mem_okE)
next
  case (4 t0 ts ops)
  have "calm t0 (ltntstools_pid_stats_reset ts s)" using 4(2) by (intro reset_calm) (auto simp: calm_def)
  then show ?case using 4 by simp
qed simp_all

lemma tally_pid_query:
  assumes "tally hs good bad s"
  shows "ltntstools_pid_stats_pid_get_packet_count (Some s) nr = length (of_pid (nr AND 0x1fff) hs)"
    "ltntstools_pid_stats_pid_get_cc_errors (Some s) nr
       = (if nr AND 0x1fff = 0x1fff then 0 else cc_breaks (of_pid (nr AND 0x1fff) hs))"
    "ltntstools_pid_stats_pid_get_tei_errors (Some s) nr
       = length (filter ltntstools_tei_set (of_pid (nr AND 0x1fff) hs))"
proof -
  note d = ltntstools_pid_stats_pid_get_packet_count_def ltntstools_pid_stats_pid_get_cc_errors_def
    ltntstools_pid_stats_pid_get_tei_errors_def pid_query_def
  show "ltntstools_pid_stats_pid_get_packet_count (Some s) nr = length (of_pid (nr AND 0x1fff) hs)"
    "ltntstools_pid_stats_pid_get_cc_errors (Some s) nr
       = (if nr AND 0x1fff = 0x1fff then 0 else cc_breaks (of_pid (nr AND 0x1fff) hs))"
    "ltntstools_pid_stats_pid_get_tei_errors (Some s) nr
       = length (filter ltntstools_tei_set (of_pid (nr AND 0x1fff) hs))"
    using assms
    by (cases "internal_pids s (nr AND 0x1fff)"; auto simp: d tally_def tallied_def pid_counts_def)+
qed

lemma tally_stream_query:
  assumes "tally hs good bad s"
  shows "ltntstools_pid_stats_stream_get_packet_count (Some s) = good"
    "ltntstools_pid_stats_stream_get_tei_errors (Some s) = length (filter ltntstools_tei_set hs)"
    "ltntstools_pid_stats_stream_get_scrambled_count (Some s)
       = length (filter (\<lambda>k. ltntstools_transport_scrambling_control k \<noteq> 0) hs)"
    "ltntstools_pid_stats_stream_get_cc_errors (Some s)
       = bad + (\<Sum>nr \<in> set (pidArray s). ltntstools_pid_stats_pid_get_cc_errors (Some s) nr)"
proof -
  have "cc_total s = (\<Sum>nr \<in> set (pidArray s). ltntstools_pid_stats_pid_get_cc_errors (Some s) nr)"
    unfolding cc_total_def
  proof (rule sum.cong)
    fix nr assume "nr \<in> set (pidArray s)"
    then have "unat nr < MAX_PID" "internal_pids s nr \<noteq> None" using assms by (auto simp: tally_def pids_inv_def)
    then show "pid_ccErrors (the (internal_pids s nr)) = ltntstools_pid_stats_pid_get_cc_errors (Some s) nr"
      by (auto simp: ltntstools_pid_stats_pid_get_cc_errors_def pid_query_def mask_pid)
  qed simp
  then show "ltntstools_pid_stats_stream_get_packet_count (Some s) = good"
    "ltntstools_pid_stats_stream_get_tei_errors (Some s) = length (filter ltntstools_tei_set hs)"
    "ltntstools_pid_stats_stream_get_scrambled_count (Some s)
       = length (filter (\<lambda>k. ltntstools_transport_scrambling_control k \<noteq> 0) hs)"
    "ltntstools_pid_stats_stream_get_cc_errors (Some s)
       = bad + (\<Sum>nr \<in> set (pidArray s). ltntstools_pid_stats_pid_get_cc_errors (Some s) nr)"
    using assms by (simp_all add: tally_def counts_def stream_query_def
        ltntstools_pid_stats_stream_get_packet_count_def ltntstools_pid_stats_stream_get_tei_errors_def
        ltntstools_pid_stats_stream_get_scrambled_count_def ltntstools_pid_stats_stream_get_cc_errors_def)
qed

text \<open>
  C2: The statistics count exactly what was fed. For any session of packet buffers, PCR
  declarations and resets on a new stream that runs to its end, each PID reports, since the last
  reset, the number of its packets, of its continuity breaks between one packet and the next of
  the same PID, and of its packets with the transport error indicator; null packets have no
  breaks. The stream reports the packets that have a sync byte, the transport errors, the scrambled
  packets, and as continuity errors the packets that lack the sync byte together with the breaks
  of all PIDs discovered. A session of whole buffers within 25 hours that asks for no PCR
  measurement does run to its end.
\<close>

theorem stats_count_packets:
  assumes "granted alloc" and "ltntstools_pid_stats_alloc alloc ts0 = Some s0"
  shows "(in_session t0 ops \<longrightarrow> (\<exists>s. stats_run alloc s0 ops = Some s))
    \<and> (\<forall>s. stats_run alloc s0 ops = Some s \<longrightarrow>
         (\<forall>nr. ltntstools_pid_stats_pid_get_packet_count (Some s) nr = length (of_pid (nr AND 0x1fff) (fed [] ops))
          \<and> ltntstools_pid_stats_pid_get_cc_errors (Some s) nr
              = (if nr AND 0x1fff = 0x1fff then 0 else cc_breaks (of_pid (nr AND 0x1fff) (fed [] ops)))
          \<and> ltntstools_pid_stats_pid_get_tei_errors (Some s) nr
              = length (filter ltntstools_tei_set (of_pid (nr AND 0x1fff) (fed [] ops))))
       \<and> ltntstools_pid_stats_stream_get_packet_count (Some s) = length (filter ltntstools_sync_present (fed [] ops))
       \<and> ltntstools_pid_stats_stream_get_tei_errors (Some s) = length (filter ltntstools_tei_set (fed [] ops))
       \<and> ltntstools_pid_stats_stream_get_scrambled_count (Some s)
           = length (filter (\<lambda>k. ltntstools_transport_scrambling_control k \<noteq> 0) (fed [] ops))
       \<and> ltntstools_pid_stats_stream_get_cc_errors (Some s)
           = length (filter (\<lambda>k. \<not> ltntstools_sync_present k) (fed [] ops))
             + (\<Sum>nr \<in> set (pidArray s). ltntstools_pid_stats_pid_get_cc_errors (Some s) nr))"
proof -
  have t: "tally (fed [] ops) (length (filter ltntstools_sync_present (fed [] ops)))
      (length (filter (\<lambda>k. \<not> ltntstools_sync_present k) (fed [] ops))) s" if "stats_run alloc s0 ops = Some s" for s
    using tally_run [OF assms(1) that, of "[]"] alloc_calm(2) [OF assms(2)] by simp
  have "in_session t0 ops \<Longrightarrow> \<exists>s. stats_run alloc s0 ops = Some s"
    using run_ok [OF assms(1) alloc_calm(1) [OF assms(2)]] .
  then show ?thesis using tally_pid_query [OF t] tally_stream_query [OF t] by blast
qed

lemma drop_concat_packets:
  "\<forall>p \<in> set ps. length p = 188 \<Longrightarrow> drop (i * 188) (concat ps) = concat (drop i ps)"
proof (induction ps arbitrary: i)
  case (Cons p ps)
  then show ?case by (cases i) (simp_all add: drop_append add.commute)
qed simp

lemma packets_in_concat:
  assumes "\<forall>p \<in> set ps. length p = 188" "n = length ps"
  shows "packets_in (concat ps) n = ps"
proof (rule nth_equalityI)
  fix i assume "i < length (packets_in (concat ps) n)"
  then have i: "i < length ps" using assms(2) by (simp add: packets_in_def packets_at_def)
  then have "concat (drop i ps) = ps ! i @ concat (drop (Suc i) ps)" by (simp flip: Cons_nth_drop_Suc)
  then show "packets_in (concat ps) n ! i = ps ! i"
    using assms i by (simp add: packets_in_def packets_at_def drop_concat_packets)
qed (simp add: packets_in_def packets_at_def assms(2))

lemma alloc_granted:
  assumes "granted alloc"
  shows "ltntstools_pid_stats_alloc alloc ts = Some (the (ltntstools_pid_stats_alloc alloc ts))"
  using assms by (simp add: ltntstools_pid_stats_alloc_def ltn_histogram_alloc_video_defaults_def
      ltn_histogram_alloc_def granted_def)

text \<open>Three packets of PID 0x31 with the counters 5, 6 and 8; the second one has the error indicator set.\<close>

definition sample_packets :: "bytes list" where
  "sample_packets =
     [[0x47, 0x00, 0x31, 0x15] @ replicate 184 0xff, [0x47, 0x80, 0x31, 0x16] @ replicate 184 0xff,
      [0x47, 0x00, 0x31, 0x18] @ replicate 184 0xff]"

theorem stats_count_packets_witness:
  "\<exists>s. stats_run (\<lambda>_. True) (the (ltntstools_pid_stats_alloc (\<lambda>_. True) timeval_zero))
         [Packets 7 \<lparr>tv_sec = 7, tv_usec = 0\<rparr> (concat sample_packets) 3] = Some s
     \<and> ltntstools_pid_stats_pid_get_packet_count (Some s) 0x31 = 3
     \<and> ltntstools_pid_stats_pid_get_cc_errors (Some s) 0x31 = 1
     \<and> ltntstools_pid_stats_stream_get_tei_errors (Some s) = 1"
proof -
  let ?ops = "[Packets 7 \<lparr>tv_sec = 7, tv_usec = 0\<rparr> (concat sample_packets) 3]"
  have g: "granted (\<lambda>_. True)" by (simp add: granted_def)
  have p: "packets_in (concat sample_packets) 3 = sample_packets"
    by (rule packets_in_concat) (simp_all add: sample_packets_def)
  have s: "in_session 0 ?ops" by (simp add: in_window_def sample_packets_def)
  have e: "length (of_pid 0x31 sample_packets) = 3" "cc_breaks (of_pid 0x31 sample_packets) = 1"
    "length (filter ltntstools_tei_set sample_packets) = 1"
    by (simp_all add: sample_packets_def of_pid_def cc_follows_def pkt_defs)
  from stats_count_packets [OF g alloc_granted [OF g], of 0 ?ops timeval_zero] s e show ?thesis
    by (auto simp: p)
qed

end
