(* ===== verification/StatsInvariant.thy ===== *)
theory StatsInvariant
  imports StatsCounting
begin

text \<open>
  The invariant of the statistics of \<open>src/src/stats.c\<close> over all their operations: the table and
  the array of discovered PIDs agree, and every histogram is well-formed. With it, copies of a
  stream and the arithmetic of the rates.
\<close>

unbundle bit_operations_syntax

subsection \<open>Loops over the PIDs\<close>

text \<open>
  The two macros of \<open>stats.h\<close> as the lists of what they visit: all 8192 entries of the table, or
  the array of discovered PIDs up to the first one out of range. An entry that is \<open>NULL\<close> is passed over.
\<close>

definition visit :: "stream \<Rightarrow> u16 list \<Rightarrow> (u16 \<times> pid_stats) list" where
  "visit s nrs = List.map_filter (\<lambda>nr. map_option (Pair nr) (internal_pids s nr)) nrs"

definition ltntstools_stats_for_each_pid :: "stream \<Rightarrow> (u16 \<times> pid_stats) list" where
  "ltntstools_stats_for_each_pid s = visit s (map of_nat [0..<MAX_PID])"

definition ltntstools_stats_for_each_discovered_pid :: "stream \<Rightarrow> (u16 \<times> pid_stats) list" where
  "ltntstools_stats_for_each_discovered_pid s = visit s (takeWhile (\<lambda>nr. unat nr < MAX_PID) (pidArray s))"

lemma set_visit: "set (visit s nrs) = {(nr, p). nr \<in> set nrs \<and> internal_pids s nr = Some p}"
  by (force simp: visit_def List.map_filter_def)

lemma map_fst_visit: "map fst (visit s nrs) = filter (\<lambda>nr. internal_pids s nr \<noteq> None) nrs"
  by (induction nrs) (auto simp: visit_def List.map_filter_def)

lemma distinct_visit: "distinct nrs \<Longrightarrow> distinct (map fst (visit s nrs))"
  by (simp add: map_fst_visit)

lemma visit_same:
  assumes "pids_inv s"
  shows "set (ltntstools_stats_for_each_discovered_pid s) = set (ltntstools_stats_for_each_pid s)"
    "distinct (map fst (ltntstools_stats_for_each_discovered_pid s))"
    "distinct (map fst (ltntstools_stats_for_each_pid s))"
proof -
  have t: "takeWhile (\<lambda>nr. unat nr < MAX_PID) (pidArray s) = pidArray s"
    using assms by (auto simp: pids_inv_def takeWhile_eq_all_conv)
  have all: "nr \<in> set (map of_nat [0..<MAX_PID])" if "internal_pids s nr = Some p" for nr p
  proof -
    have "unat nr < MAX_PID" using assms that by (auto simp: pids_inv_def dom_def)
    then show ?thesis by (auto simp: image_iff intro!: bexI [of _ "unat nr"])
  qed
  show "set (ltntstools_stats_for_each_discovered_pid s) = set (ltntstools_stats_for_each_pid s)"
    unfolding ltntstools_stats_for_each_discovered_pid_def ltntstools_stats_for_each_pid_def set_visit t
    using assms all by (auto simp: pids_inv_def)
  show "distinct (map fst (ltntstools_stats_for_each_discovered_pid s))"
    unfolding ltntstools_stats_for_each_discovered_pid_def t
    using assms by (intro distinct_visit) (simp add: pids_inv_def)
  have "inj_on (of_nat :: nat \<Rightarrow> u16) {0..<MAX_PID}"
    by (rule inj_on_inverseI [of _ unat]) (simp add: MAX_PID_def unsigned_of_nat take_bit_nat_eq_self)
  then show "distinct (map fst (ltntstools_stats_for_each_pid s))"
    unfolding ltntstools_stats_for_each_pid_def by (intro distinct_visit) (simp add: distinct_map)
qed

subsection \<open>The invariant of the statistics\<close>

definition hist_ok :: "ltn_histogram_s \<Rightarrow> bool" where
  "hist_ok h \<longleftrightarrow> hist_inv h \<and> length (hname h) \<le> 128"

definition hists_ok :: "pid_stats \<Rightarrow> bool" where
  "hists_ok p \<longleftrightarrow> pred_option hist_ok (pcrTickIntervals p) \<and> pred_option hist_ok (pcrWallDrift p)"

definition stats_inv :: "stream \<Rightarrow> bool" where
  "stats_inv s \<longleftrightarrow> pids_inv s \<and> hist_ok (packetIntervals s) \<and> (\<forall>nr p. internal_pids s nr = Some p \<longrightarrow> hists_ok p)"

lemma stats_inv_tables: "tables s' = tables s \<Longrightarrow> stats_inv s' = stats_inv s"
  by (simp add: stats_inv_def tables_def pids_inv_def)

lemma video_defaults_ok: "ltn_histogram_alloc_video_defaults alloc ts name = Some h \<Longrightarrow> hist_ok h"
  using alloc_inv(1) [of alloc ts name 0 "16 * 1000" h]
  by (auto simp: hist_ok_def ltn_histogram_alloc_video_defaults_def ltn_histogram_alloc_def ltn_histogram_reset_def
      split: if_splits option.splits)

lemma hist_ok_reset: "hist_ok h \<Longrightarrow> hist_ok (ltn_histogram_reset ts h)"
  by (simp add: hist_ok_def ltn_histogram_reset_def hist_inv_def bucket_zero_def sum_list_replicate)

lemma hist_ok_value:
  assumes "hist_ok h" "ltn_histogram_interval_update_with_value ts h v = Some (h', r)"
  shows "hist_ok h'"
proof -
  have "hist_inv h'" using value_recorder.upd_ok [of h ts v] assms by (auto simp: hist_ok_def)
  moreover have "hname h' = hname h"
    using assms(2) by (auto simp: ltn_histogram_interval_update_with_value_def histogram_count_def bind_eq_Some_conv
        split: if_splits)
  ultimately show ?thesis using assms(1) by (simp add: hist_ok_def)
qed

lemma record_value_ok:
  "record_value ts h v = Some h' \<Longrightarrow> pred_option hist_ok h \<Longrightarrow> pred_option hist_ok h'"
  by (auto simp: record_value_def bind_eq_Some_conv dest: hist_ok_value)

lemma packet_pcr_hists:
  assumes "packet_pcr alloc ts nr pkt (s, p) = Some (s', p')" "hists_ok p"
  shows "hists_ok p'"
  using assms(1)
proof (cases rule: packet_pcr_cases)
  case (3 pcr)
  let ?p = "pcr_initialize alloc ts nr (p\<lparr>seenPCR := seenPCR p + 1\<rparr>)"
  have "hists_ok ?p"
    using assms(2) by (auto simp: pcr_initialize_def hists_ok_def pred_option_def intro: video_defaults_ok)
  then show ?thesis using 3
    by (auto simp: pcr_timing_def Let_def bind_eq_Some_conv hists_ok_def split: if_splits dest: record_value_ok)
qed (use assms(2) in \<open>simp_all add: hists_ok_def\<close>)

lemma hists_frame:
  "hists_ok (snd (packet_pusi ts pkt (packet_count pkt (s, p)))) = hists_ok p"
  "hists_ok (packet_pps now p) = hists_ok p"
  "hists_ok (snd (packet_tei pkt (packet_scrambled pkt (s, p)))) = hists_ok p"
  by (simp_all add: hists_ok_def packet_pusi_def packet_count_eq packet_pps_def packet_tei_def packet_scrambled_def Let_def)

lemma stats_inv_discover:
  assumes "stats_inv s" "discover_pid alloc ts nr s = Some s'" "unat nr < MAX_PID"
  shows "stats_inv s'"
  using assms(2,3)
proof (cases rule: discover_pid_cases)
  case (2 p)
  then show ?thesis using assms(1) discover_pid_inv [OF _ assms(2,3)] fresh_pid(5,6) [OF 2(2)]
    by (auto simp: stats_inv_def hists_ok_def)
qed (use assms(1) in simp)

lemma stats_inv_put:
  assumes "stats_inv s" "internal_pids s nr = Some p" "hists_ok p'" "pidNr p' = pidNr p"
  shows "stats_inv (s\<lparr>internal_pids := (internal_pids s)(nr \<mapsto> p')\<rparr>)"
  using assms by (auto simp: stats_inv_def pids_inv_def)

lemma stats_inv_packet:
  assumes "update_packet alloc now ts pkt s0 = Some s'" "stats_inv s0"
  shows "stats_inv s'"
proof (cases "discover_pid alloc ts (ltntstools_pid pkt) s0")
  case None
  then show ?thesis using assms by (auto simp: update_packet_def Let_def bind_eq_Some_conv)
next
  case (Some s)
  have i: "stats_inv s" by (rule stats_inv_discover [OF assms(2) Some pid_bound])
  obtain p s1 p1 s2 p2 s3 p3 s4 p4 where p: "internal_pids s (ltntstools_pid pkt) = Some p"
    and 1: "packet_pusi ts pkt (packet_count pkt (s, p)) = (s1, p1)"
    and 2: "packet_cc alloc now ts (ltntstools_pid pkt) pkt (s1, packet_pps now p1) = Some (s2, p2)"
    and 3: "packet_tei pkt (packet_scrambled pkt (s2, p2)) = (s3, p3)"
    and 4: "packet_pcr alloc ts (ltntstools_pid pkt) pkt (s3, p3) = Some (s4, p4)"
    and s': "s' = s4\<lparr>internal_pids := (internal_pids s4)(ltntstools_pid pkt \<mapsto> p4)\<rparr>"
    by (rule update_packet_elim [OF assms(1) Some])
  have t1: "tables s1 = tables s" "pidNr p1 = pidNr p" "hists_ok p1 = hists_ok p"
    using packet_pusi_frame [of ts pkt "fst (packet_count pkt (s, p))" "snd (packet_count pkt (s, p))"]
      hists_frame(1) [of ts pkt s p] 1 by (simp_all add: packet_count_eq tables_def)
  note t2 = packet_cc_spec [OF 2] and t3 = packet_tail_eq [of pkt s2 p2, unfolded 3 fst_conv snd_conv]
  have h3: "hists_ok p3"
    using hists_frame(3) [of pkt s2 p2] 3 t2(6) t1(3) i p hists_frame(2) [of now p1]
    by (simp add: hists_ok_def stats_inv_def)
  note t4 = packet_pcr_frame [OF 4] and h4 = packet_pcr_hists [OF 4 h3]
  have t: "tables s4 = tables s" using t1(1) t2(1) t3(2) t4(1) by simp
  then have "stats_inv s4" "internal_pids s4 (ltntstools_pid pkt) = Some p"
    using i p stats_inv_tables [OF t] by (simp_all add: tables_def)
  moreover have "pidNr p4 = pidNr p" using t1(2) t2(6) t3(6) t4(5) by (simp add: packet_pps_frame)
  ultimately show ?thesis unfolding s' by (intro stats_inv_put [OF _ _ h4])
qed

lemma stats_inv_sync:
  assumes "update_sync alloc now ts pkt s = Some s'" "stats_inv s"
  shows "stats_inv s'"
proof (cases "ltntstools_sync_present pkt")
  case True
  then have "s' = s\<lparr>packetCount := packetCount s + 1\<rparr>"
    using assms(1) by (auto simp: update_sync_def bind_eq_Some_conv rd_Some ltntstools_sync_present_def)
  then show ?thesis using assms(2) by (simp add: stats_inv_def pids_inv_def)
next
  case False
  then have "stream_increment_cc_errors alloc now ts s = Some s'"
    using assms(1) by (auto simp: update_sync_def bind_eq_Some_conv rd_Some ltntstools_sync_present_def split: if_splits)
  from stats_inv_tables [OF increment_spec(1) [OF this]] show ?thesis using assms(2) by simp
qed

lemma mem_fold_keeps:
  assumes "\<And>x s s'. body x s = Some s' \<Longrightarrow> I s \<Longrightarrow> I s'"
  shows "mem_fold body xs s = Some s' \<Longrightarrow> I s \<Longrightarrow> I s'"
  by (induction xs arbitrary: s) (auto simp: bind_eq_Some_conv intro: assms)

lemma stats_inv_update:
  assumes "ltntstools_pid_stats_update alloc now ts s buf n = Some s'" "stats_inv s"
  shows "stats_inv s'"
proof (cases buf)
  case (Some pkts)
  let ?s = "if n \<noteq> 7 then not_multiple_of_seven now s else s"
  obtain s1 s2 s3 s4 where
    1: "(if pcrpidnr (bc_ctx ?s) = 0 then Some ?s
         else do { (s, completed) \<leftarrow> ltntstools_bitrate_calculator_write ?s pkts n;
                   Some (if completed then notify EVENT_UPDATE_PCR_MBPS None s else s) }) = Some s1"
    and 2: "mem_fold (update_sync alloc now ts) (packets_at pkts n) s1 = Some s2"
    and 3: "update_iat now ts (update_pps now n s2) = Some s3"
    and 4: "mem_fold (update_packet alloc now ts) (packets_at pkts n) s3 = Some s4"
    and 5: "s' = s4\<lparr>iat_last_frame := ts\<rparr>"
    using assms(1) Some by (auto simp: ltntstools_pid_stats_update_def Let_def bind_eq_Some_conv)
  have i1: "stats_inv s1"
    using 1 assms(2) by (auto simp: bind_eq_Some_conv not_multiple_of_seven_def stats_inv_def pids_inv_def
        elim!: bc_write_frame split: if_splits)
  have i2: "stats_inv s2" by (rule mem_fold_keeps [where I = stats_inv, OF stats_inv_sync 2 i1])
  have "hist_ok (packetIntervals s3)"
    using 3 i2 iat_marks_frame(1) [of now _ "update_pps now n s2"]
    by (auto simp: update_iat_def Let_def bind_eq_Some_conv stats_inv_def update_pps_frame tables_def
        split: if_splits intro: hist_ok_value)
  then have i3: "stats_inv s3"
    using update_iat_frame [OF 3] i2 by (simp add: stats_inv_def pids_inv_def update_pps_frame)
  have "stats_inv s4" by (rule mem_fold_keeps [where I = stats_inv, OF stats_inv_packet 4 i3])
  then show ?thesis by (simp add: 5 stats_inv_def pids_inv_def)
qed (use assms in \<open>simp add: ltntstools_pid_stats_update_def\<close>)

lemma stats_inv_declare_pcr:
  assumes "ltntstools_pid_stats_pid_set_contains_pcr alloc ts (Some s) nr = Some s'" "stats_inv s"
  shows "stats_inv s'"
proof (cases "discover_pid alloc ts (nr AND 0x1fff) s")
  case None
  then show ?thesis using assms by (simp add: ltntstools_pid_stats_pid_set_contains_pcr_def)
next
  case (Some t)
  note i = stats_inv_discover [OF assms(2) Some pid_masked]
  show ?thesis
  proof (cases "internal_pids t (nr AND 0x1fff)")
    case None
    then show ?thesis using Some assms(1) i by (simp add: ltntstools_pid_stats_pid_set_contains_pcr_def)
  next
    case (Some p)
    have "hists_ok (p\<lparr>hasPCR := True\<rparr>)" using i Some by (simp add: stats_inv_def hists_ok_def)
    from stats_inv_put [OF i Some this] show ?thesis
      using \<open>discover_pid _ _ _ _ = Some t\<close> Some assms(1)
      by (simp add: ltntstools_pid_stats_pid_set_contains_pcr_def Let_def ltntstools_bitrate_calculator_init_def
          ltntstools_bitrate_calculator_reset_def) (auto simp: stats_inv_def pids_inv_def)
  qed
qed

lemma stats_inv_reset: "stats_inv s \<Longrightarrow> stats_inv (ltntstools_pid_stats_reset ts s)"
  by (auto simp: stats_inv_def pids_inv_def ltntstools_pid_stats_reset_def Let_def ltntstools_bitrate_calculator_reset_def
      ltntstools_pid_statistics_reset_def hists_ok_def dom_def pred_option_def hist_ok_reset)

lemma stats_inv_zero: "hist_ok h \<Longrightarrow> stats_inv (stream_zero c h)"
  by (simp add: stats_inv_def pids_inv_def stream_zero_def)

lemma stats_inv_alloc:
  assumes "ltntstools_pid_stats_alloc alloc ts = Some s"
  shows "stats_inv s"
  using assms
  by (auto simp: ltntstools_pid_stats_alloc_def split: if_splits option.splits
      intro!: stats_inv_reset stats_inv_zero dest: video_defaults_ok)

subsection \<open>Copies\<close>

lemma histogram_clone_same:
  assumes "hist_ok h"
  shows "ltntstools_histogram_clone alloc ts h = Some h' \<Longrightarrow> h' = h"
    and "granted alloc \<Longrightarrow> ltntstools_histogram_clone alloc ts h = Some h"
  using assms
  by (auto simp: ltntstools_histogram_clone_def ltn_histogram_alloc_def ltn_histogram_reset_def hist_ok_def hist_inv_def
      granted_def split: if_splits option.splits)

lemma clone_optional_same:
  assumes "pred_option hist_ok h"
  shows "clone_optional alloc ts h = Some h' \<Longrightarrow> h' = h"
    and "granted alloc \<Longrightarrow> clone_optional alloc ts h = Some h"
  using assms histogram_clone_same by (cases h; auto simp: clone_optional_def)+

lemma pid_clone_same:
  assumes "hists_ok p"
  shows "ltntstools_pid_statistics_clone alloc ts p = Some p' \<Longrightarrow> p' = p"
    and "granted alloc \<Longrightarrow> ltntstools_pid_statistics_clone alloc ts p = Some p"
proof -
  have h: "pred_option hist_ok (pcrTickIntervals p)" "pred_option hist_ok (pcrWallDrift p)"
    using assms by (simp_all add: hists_ok_def)
  show "ltntstools_pid_statistics_clone alloc ts p = Some p' \<Longrightarrow> p' = p"
    by (auto simp: ltntstools_pid_statistics_clone_def split: if_splits option.splits
        dest!: clone_optional_same(1) [OF h(1)] clone_optional_same(1) [OF h(2)])
  show "granted alloc \<Longrightarrow> ltntstools_pid_statistics_clone alloc ts p = Some p"
    by (simp add: ltntstools_pid_statistics_clone_def clone_optional_same(2) [OF h(1)] clone_optional_same(2) [OF h(2)])
       (simp add: granted_def)
qed

text \<open>The loop over the table copies the entries it visits.\<close>

lemma clone_pids_loop:
  assumes "\<And>nr p. pids nr = Some p \<Longrightarrow> hists_ok p"
  shows "mem_fold (clone_pid alloc ts pids) nrs dst = Some dst'
      \<Longrightarrow> dst' = (\<lambda>nr. if nr \<in> set nrs \<and> pids nr \<noteq> None then pids nr else dst nr)"
    and "granted alloc \<Longrightarrow> mem_fold (clone_pid alloc ts pids) nrs dst \<noteq> None"
proof (induction nrs arbitrary: dst)
  case (Cons nr nrs)
  have b: "d = (if pids nr = None then dst else dst(nr \<mapsto> the (pids nr)))"
    if "clone_pid alloc ts pids nr dst = Some d" for d dst
    using that pid_clone_same(1) [OF assms] by (auto simp: clone_pid_def split: option.splits)
  { case 1
    then obtain d where d: "clone_pid alloc ts pids nr dst = Some d" "mem_fold (clone_pid alloc ts pids) nrs d = Some dst'"
      by (auto simp: bind_eq_Some_conv)
    show ?case using Cons.IH(1) [OF d(2)] b [OF d(1)] by (auto simp: fun_eq_iff) }
  { case 2
    then have "clone_pid alloc ts pids nr dst \<noteq> None"
      using pid_clone_same(2) [OF assms] by (auto simp: clone_pid_def split: option.splits)
    then show ?case using Cons.IH(2) [OF 2] by auto }
qed (simp_all add: fun_eq_iff)

lemma clone_pids_same:
  assumes "stats_inv s"
  shows "clone_pids alloc ts (internal_pids s) = Some pids \<Longrightarrow> pids = internal_pids s"
    and "granted alloc \<Longrightarrow> clone_pids alloc ts (internal_pids s) = Some (internal_pids s)"
proof -
  have h: "hists_ok p" if "internal_pids s nr = Some p" for nr p using assms that by (auto simp: stats_inv_def)
  have d: "nr \<in> set (map of_nat [0..<MAX_PID])" if "internal_pids s nr = Some p" for nr p
  proof -
    have "unat nr < MAX_PID" using assms that by (auto simp: stats_inv_def pids_inv_def dom_def)
    then show ?thesis by (auto simp: image_iff intro!: bexI [of _ "unat nr"])
  qed
  have same: "pids = internal_pids s" if "clone_pids alloc ts (internal_pids s) = Some pids" for pids
  proof
    fix nr
    from clone_pids_loop(1) [OF h that [unfolded clone_pids_def]] show "pids nr = internal_pids s nr"
      using d [of nr] by (cases "internal_pids s nr") simp_all
  qed
  then show "clone_pids alloc ts (internal_pids s) = Some pids \<Longrightarrow> pids = internal_pids s" .
  have "granted alloc \<Longrightarrow> clone_pids alloc ts (internal_pids s) \<noteq> None"
    unfolding clone_pids_def by (rule clone_pids_loop(2)) (rule h)
  then show "granted alloc \<Longrightarrow> clone_pids alloc ts (internal_pids s) = Some (internal_pids s)"
    using same by blast
qed

lemma history_clone_reversed:
  assumes "granted alloc" "\<forall>e \<in> set ms \<union> set (hm_list dst). now - 90000 \<le> hm_ts e"
  shows "history_clone_loop alloc now ms dst = Some (Some (dst\<lparr>hm_list := rev ms @ hm_list dst\<rparr>))"
  using assms(2)
proof (induction ms arbitrary: dst)
  case (Cons m ms)
  have m: "ltntstools_history_metric_alloc alloc (hm_ts m) (hm_count m) = Some m"
    using assms(1) by (simp add: ltntstools_history_metric_alloc_def granted_def)
  have "ltntstools_history_metric_collection_add now (Some dst) (Some m) = Some (Some (dst\<lparr>hm_list := m # hm_list dst\<rparr>))"
    using Cons.prems by (intro history_add_fresh) simp
  then show ?case using Cons.IH [of "dst\<lparr>hm_list := m # hm_list dst\<rparr>"] Cons.prems by (simp add: m)
qed simp

lemma clone_shape:
  assumes "ltntstools_pid_stats_clone alloc now ts (Some s) = Some (Some s')" "stats_inv s"
  obtains history where "s' = s\<lparr>ccErrorHistory := history\<rparr>"
proof -
  obtain dst where 1: "ltntstools_pid_stats_alloc alloc ts = Some dst"
    using assms(1) by (cases "ltntstools_pid_stats_alloc alloc ts") (simp_all add: ltntstools_pid_stats_clone_def)
  have 2: "\<not> (pidArray s \<noteq> [] \<and> \<not> alloc (length (pidArray s) * 2))"
    using assms(1) 1 by (auto simp: ltntstools_pid_stats_clone_def split: if_splits)
  obtain h where 3: "ltntstools_histogram_clone alloc ts (packetIntervals s) = Some h"
    using assms(1) 1 2
    by (cases "ltntstools_histogram_clone alloc ts (packetIntervals s)") (simp_all add: ltntstools_pid_stats_clone_def)
  obtain history where 4: "ltntstools_history_metric_collection_clone_into alloc now
      (ccErrorHistory dst) (ccErrorHistory s) = Some (Some history)"
    using assms(1) 1 2 3
    by (cases "ltntstools_history_metric_collection_clone_into alloc now (ccErrorHistory dst) (ccErrorHistory s)")
       (auto simp: ltntstools_pid_stats_clone_def split: option.splits)
  obtain pids where 5: "clone_pids alloc ts (internal_pids s) = Some pids"
    using assms(1) 1 2 3 4 by (cases "clone_pids alloc ts (internal_pids s)") (simp_all add: ltntstools_pid_stats_clone_def)
  have "h = packetIntervals s" "pids = internal_pids s"
    using assms(2) histogram_clone_same(1) [OF _ 3] clone_pids_same(1) [OF assms(2) 5] by (simp_all add: stats_inv_def)
  then have "s' = s\<lparr>ccErrorHistory := history\<rparr>"
    using assms(1) 1 2 3 4 5 by (simp add: ltntstools_pid_stats_clone_def)
  then show thesis by (rule that)
qed

subsection \<open>Reachable statistics\<close>

inductive stats_step :: "stream \<Rightarrow> stream \<Rightarrow> bool" where
  step_update: "ltntstools_pid_stats_update alloc now ts s buf n = Some s' \<Longrightarrow> stats_step s s'"
| step_ctp: "ltntstools_ctp_stats_update alloc now ts s b len = Some s' \<Longrightarrow> stats_step s s'"
| step_bytestream: "stats_step s (ltntstools_bytestream_stats_update now s len)"
| step_declare: "ltntstools_pid_stats_pid_set_contains_pcr alloc ts (Some s) nr = Some s' \<Longrightarrow> stats_step s s'"
| step_reset: "stats_step s (ltntstools_pid_stats_reset ts s)"
| step_register: "ltntstools_notification_register_callback (Some s) e ctx cb = (r, Some s') \<Longrightarrow> stats_step s s'"
| step_unregister: "ltntstools_notification_unregister_callback (Some s) e = Some s' \<Longrightarrow> stats_step s s'"
| step_unregister_all: "ltntstools_notification_unregister_callbacks (Some s) = Some s' \<Longrightarrow> stats_step s s'"
| step_stream_rate: "stats_step s (expire_per_second_stream_stats now s)"
| step_pid_rate: "ltntstools_pid_stats_pid_get_pps now (Some s) nr = (v, Some s') \<Longrightarrow> stats_step s s'"
| step_clone: "ltntstools_pid_stats_clone alloc now ts (Some s) = Some (Some s') \<Longrightarrow> stats_step s s'"

lemma stats_inv_tables': "internal_pids s' = internal_pids s \<Longrightarrow> pidArray s' = pidArray s
    \<Longrightarrow> packetIntervals s' = packetIntervals s \<Longrightarrow> stats_inv s' = stats_inv s"
  by (simp add: stats_inv_def pids_inv_def)

lemma update_Bps_frame:
  "internal_pids (update_Bps now len s) = internal_pids s" "pidArray (update_Bps now len s) = pidArray s"
  "packetIntervals (update_Bps now len s) = packetIntervals s"
  by (simp_all add: update_Bps_def Let_def)

lemma stats_inv_ctp:
  assumes "ltntstools_ctp_stats_update alloc now ts s b len = Some s'" "stats_inv s"
  shows "stats_inv s'"
proof -
  let ?s = "if len \<noteq> 7 * 188 then not_multiple_of_seven now s else s"
  have i: "stats_inv ?s" using assms(2) by (simp add: not_multiple_of_seven_def stats_inv_def pids_inv_def)
  show ?thesis
  proof (cases "len < 4")
    case True
    then show ?thesis using assms(1) i by (simp add: ltntstools_ctp_stats_update_def Let_def)
  next
    case False
    then obtain t n where t: "t = ?s \<or> stream_increment_cc_errors alloc now ts ?s = Some t"
      and s': "s' = update_Bps now len (t\<lparr>a324_sequence_number := n, packetCount := packetCount t + 1\<rparr>)"
      using assms(1) by (auto simp: ltntstools_ctp_stats_update_def Let_def bind_eq_Some_conv split: if_splits)
    have "stats_inv t" using t i stats_inv_tables [OF increment_spec(1)] by blast
    then show ?thesis unfolding s' by (simp add: stats_inv_def pids_inv_def update_Bps_frame)
  qed
qed

lemma stats_inv_pid_rate:
  assumes "ltntstools_pid_stats_pid_get_pps now (Some s) nr = (v, Some s')" "stats_inv s"
  shows "stats_inv s'"
proof (cases "internal_pids s (nr AND 0x1fff)")
  case (Some p)
  have "hists_ok (expire_per_second_pid_stats now p)" "pidNr (expire_per_second_pid_stats now p) = pidNr p"
    using assms(2) Some by (auto simp: stats_inv_def hists_ok_def expire_per_second_pid_stats_def)
  from stats_inv_put [OF assms(2) Some this] show ?thesis
    using assms(1) Some by (simp add: ltntstools_pid_stats_pid_get_pps_def pid_rate_def Let_def)
qed (use assms in \<open>simp add: ltntstools_pid_stats_pid_get_pps_def pid_rate_def\<close>)

lemma stats_inv_small_step:
  "stats_inv s \<Longrightarrow> stats_inv (ltntstools_bytestream_stats_update now s len)"
  "stats_inv s \<Longrightarrow> ltntstools_notification_register_callback (Some s) e ctx cb = (r, Some s') \<Longrightarrow> stats_inv s'"
  "stats_inv s \<Longrightarrow> ltntstools_notification_unregister_callback (Some s) e = Some s' \<Longrightarrow> stats_inv s'"
  "stats_inv s \<Longrightarrow> ltntstools_notification_unregister_callbacks (Some s) = Some s' \<Longrightarrow> stats_inv s'"
  "stats_inv s \<Longrightarrow> stats_inv (expire_per_second_stream_stats now s)"
  by (auto simp: ltntstools_bytestream_stats_update_def not_multiple_of_seven_def Let_def update_Bps_frame
      ltntstools_notification_register_callback_def ltntstools_notification_unregister_callback_def
      ltntstools_notification_unregister_callbacks_def expire_per_second_stream_stats_def
      stats_inv_def pids_inv_def split: if_splits option.splits)

lemma stats_inv_step: "stats_step s s' \<Longrightarrow> stats_inv s \<Longrightarrow> stats_inv s'"
proof (induction rule: stats_step.induct)
  case (step_clone alloc now ts s s')
  obtain h where "s' = s\<lparr>ccErrorHistory := h\<rparr>" by (rule clone_shape [OF step_clone])
  then show ?case using step_clone(2) by (simp add: stats_inv_def pids_inv_def)
qed (blast intro: stats_inv_update stats_inv_ctp stats_inv_declare_pcr stats_inv_reset stats_inv_pid_rate
    stats_inv_small_step)+

text \<open>
  C13: Walking the discovered PIDs is the same as walking the whole table. In every state that
  allocation and any sequence of operations on a stream reach, with an allocator that may fail at
  any time, the loop over the array of discovered PIDs visits exactly the entries that the loop
  over all 8192 PIDs visits, each once, and every entry carries its own number.
\<close>

theorem discovered_pids_complete:
  assumes "ltntstools_pid_stats_alloc alloc ts = Some s0" and "stats_step\<^sup>*\<^sup>* s0 s"
  shows "set (ltntstools_stats_for_each_discovered_pid s) = set (ltntstools_stats_for_each_pid s)
    \<and> distinct (map fst (ltntstools_stats_for_each_discovered_pid s))
    \<and> distinct (map fst (ltntstools_stats_for_each_pid s))
    \<and> (\<forall>(nr, p) \<in> set (ltntstools_stats_for_each_discovered_pid s). pidNr p = nr \<and> unat nr < MAX_PID)"
proof -
  from assms(2) have "stats_inv s"
    by (induction rule: rtranclp_induct) (use stats_inv_alloc [OF assms(1)] stats_inv_step in blast)+
  then have i: "pids_inv s" by (simp add: stats_inv_def)
  then have "\<forall>(nr, p) \<in> set (ltntstools_stats_for_each_discovered_pid s). pidNr p = nr \<and> unat nr < MAX_PID"
    by (auto simp: ltntstools_stats_for_each_discovered_pid_def set_visit pids_inv_def dest: set_takeWhileD)
  with visit_same [OF i] show ?thesis by blast
qed

theorem discovered_pids_complete_witness:
  "\<exists>s. ltntstools_pid_stats_pid_set_contains_pcr (\<lambda>_. True) timeval_zero
         (ltntstools_pid_stats_alloc (\<lambda>_. True) timeval_zero) 0x2031 = Some s
     \<and> map fst (ltntstools_stats_for_each_discovered_pid s) = [0x31]
     \<and> fst ` set (ltntstools_stats_for_each_pid s) = {0x31}"
proof -
  have g: "granted (\<lambda>_. True)" by (simp add: granted_def)
  let ?s0 = "the (ltntstools_pid_stats_alloc (\<lambda>_. True) timeval_zero)"
  note a = alloc_granted [OF g, of timeval_zero]
  obtain s where s: "ltntstools_pid_stats_pid_set_contains_pcr (\<lambda>_. True) timeval_zero (Some ?s0) 0x2031 = Some s"
    by (simp add: ltntstools_pid_stats_pid_set_contains_pcr_def)
  have z: "internal_pids ?s0 = Map.empty" "pidArray ?s0 = []"
    by (simp_all add: ltntstools_pid_stats_alloc_def ltn_histogram_alloc_video_defaults_def ltn_histogram_alloc_def
        ltntstools_pid_stats_reset_def Let_def ltntstools_bitrate_calculator_reset_def stream_zero_def)
  have "map fst (ltntstools_stats_for_each_discovered_pid s) = [0x31]"
    using s by (auto simp: ltntstools_pid_stats_pid_set_contains_pcr_def Let_def discover_pid_def z
        ltntstools_pid_statistics_alloc_def pidArrayAdd_def MAX_PID_def ltntstools_bitrate_calculator_init_def
        ltntstools_bitrate_calculator_reset_def ltntstools_stats_for_each_discovered_pid_def map_fst_visit)
  moreover from discovered_pids_complete [OF a r_into_rtranclp, OF step_declare [OF s]]
  have "set (ltntstools_stats_for_each_pid s) = set (ltntstools_stats_for_each_discovered_pid s)" by simp
  ultimately show ?thesis using s a by (metis list.set_map list.simps(15) list.set(1))
qed

text \<open>
  A copy of the statistics equals the original. When memory is granted and no recorded error
  is older than 25 hours, the copy of a reachable stream exists and agrees with it in every field,
  deep copies of all PIDs and histograms included, except that the history of errors is in reverse
  order.
\<close>

theorem stats_clone_equal:
  assumes "ltntstools_pid_stats_alloc alloc ts = Some s0" and "stats_step\<^sup>*\<^sup>* s0 s" and "granted alloc'"
    and "\<forall>e \<in> set (hm_list (ccErrorHistory s)). now - 90000 \<le> hm_ts e"
  shows "\<exists>history. ltntstools_pid_stats_clone alloc' now ts' (Some s) = Some (Some (s\<lparr>ccErrorHistory := history\<rparr>))
    \<and> hm_list history = rev (hm_list (ccErrorHistory s))"
proof -
  from assms(2) have i: "stats_inv s"
    by (induction rule: rtranclp_induct) (use stats_inv_alloc [OF assms(1)] stats_inv_step in blast)+
  obtain dst where d: "ltntstools_pid_stats_alloc alloc' ts' = Some dst" using alloc_granted [OF assms(3)] by blast
  have "ltntstools_histogram_clone alloc' ts' (packetIntervals s) = Some (packetIntervals s)"
    using i histogram_clone_same(2) assms(3) by (simp add: stats_inv_def)
  moreover have "ltntstools_history_metric_collection_clone_into alloc' now (ccErrorHistory dst) (ccErrorHistory s)
      = Some (Some ((ccErrorHistory dst)\<lparr>hm_list := rev (hm_list (ccErrorHistory s))\<rparr>))"
    using history_clone_reversed [OF assms(3), of "hm_list (ccErrorHistory s)" "(ccErrorHistory dst)\<lparr>hm_list := []\<rparr>" now] assms(4)
    by (simp add: ltntstools_history_metric_collection_clone_into_def ltntstools_history_metric_collection_reset_def)
  ultimately show ?thesis
    using d clone_pids_same(2) [OF i assms(3)] assms(3)
    by (intro exI [of _ "(ccErrorHistory dst)\<lparr>hm_list := rev (hm_list (ccErrorHistory s))\<rparr>"])
       (simp add: ltntstools_pid_stats_clone_def granted_def)
qed

theorem stats_clone_equal_witness:
  "\<exists>history. ltntstools_pid_stats_clone (\<lambda>_. True) 0 timeval_zero (ltntstools_pid_stats_alloc (\<lambda>_. True) timeval_zero)
     = Some (Some ((the (ltntstools_pid_stats_alloc (\<lambda>_. True) timeval_zero))\<lparr>ccErrorHistory := history\<rparr>))"
proof -
  have g: "granted (\<lambda>_. True)" by (simp add: granted_def)
  note a = alloc_granted [OF g, of timeval_zero]
  have "hm_list (ccErrorHistory (the (ltntstools_pid_stats_alloc (\<lambda>_. True) timeval_zero))) = []"
    by (simp add: ltntstools_pid_stats_alloc_def ltn_histogram_alloc_video_defaults_def ltn_histogram_alloc_def
        ltntstools_pid_stats_reset_def Let_def ltntstools_bitrate_calculator_reset_def
        ltntstools_history_metric_collection_reset_def)
  with stats_clone_equal [OF a rtranclp.rtrancl_refl g, of 0 timeval_zero] show ?thesis by (auto simp flip: a)
qed

subsection \<open>Rates\<close>

lemma unat_times_lit:
  "unat (w * 188 * 8 :: u32) = unat w * 1504 mod 2 ^ 32"
  "unat (w * 188 * 8 * 100 :: u32) = unat w * 150400 mod 2 ^ 32"
proof -
  have "w * 188 * 8 = w * (1504 :: u32)" "w * 188 * 8 * 100 = w * (150400 :: u32)" by simp_all
  then show "unat (w * 188 * 8 :: u32) = unat w * 1504 mod 2 ^ 32"
    "unat (w * 188 * 8 * 100 :: u32) = unat w * 150400 mod 2 ^ 32"
    by (simp_all only: unat_word_ariths) simp_all
qed

text \<open>The rates of a stream that were updated within the last two seconds.\<close>

definition live :: "int \<Rightarrow> stream \<Rightarrow> bool" where
  "live now s \<longleftrightarrow> now \<le> pps_last_update s + 2 \<and> (Bps_window s = 0 \<or> now \<le> Bps_last_update s + 2)"

lemma live_expire: "live now s \<Longrightarrow> expire_per_second_stream_stats now s = s"
proof -
  assume "live now s"
  then have "\<not> (Bps_window s \<noteq> 0 \<and> now > Bps_last_update s + 2)" "\<not> now > pps_last_update s + 2"
    by (auto simp: live_def)
  then show ?thesis unfolding expire_per_second_stream_stats_def by (simp only: if_False)
qed

text \<open>
  The padding percentage is right below 43 Mb/s of null packets and wrong from there on.
  With current rates, a bit rate that fits 32 bits and a positive packet rate, the query returns the
  percentage of null packets when they are at most 28556 per second; in general it returns the
  quotient of their bit rate times 100 modulo \<open>2 ^ 32\<close>.
\<close>

theorem padding_pct_bound:
  assumes "internal_pids s 0x1fff = Some p" and "now \<le> pid_pps_last_update p + 2" and "live now s"
    and "0 < unat (pps s)" and "unat (pps s) * 1504 < 2 ^ 32"
  shows "unat (fst (ltntstools_pid_stats_stream_padding_pct now (Some s)))
      = (unat (pid_pps p) * 150400 mod 2 ^ 32) div (unat (pps s) * 1504)
    \<and> (unat (pid_pps p) \<le> 28556 \<longrightarrow>
        unat (fst (ltntstools_pid_stats_stream_padding_pct now (Some s))) = 100 * unat (pid_pps p) div unat (pps s))"
proof -
  let ?t = "s\<lparr>internal_pids := (internal_pids s)(0x1fff \<mapsto> p)\<rparr>"
  have "expire_per_second_pid_stats now p = p" using assms(2) by (simp add: expire_per_second_pid_stats_def)
  then have 1: "ltntstools_pid_stats_pid_get_bps now (Some s) 0x1fff = (pid_pps p * 188 * 8, Some ?t)"
    using assms(1) by (simp add: ltntstools_pid_stats_pid_get_bps_def pid_rate_def)
  have "expire_per_second_stream_stats now ?t = ?t" using assms(3) by (intro live_expire) (simp add: live_def)
  then have 2: "ltntstools_pid_stats_stream_get_bps now (Some ?t) = (pps s * 188 * 8, Some ?t)"
    by (simp add: ltntstools_pid_stats_stream_get_bps_def stream_rate_def)
  have b: "unat (pps s * 188 * 8) = unat (pps s) * 1504" using assms(5) by (simp only: unat_times_lit mod_less)
  have "pps s * 188 * 8 \<noteq> 0"
  proof
    assume "pps s * 188 * 8 = 0"
    with b have "unat (pps s) * 1504 = 0" by (simp only: unat_0)
    then show False using assms(4) by simp
  qed
  then have "fst (ltntstools_pid_stats_stream_padding_pct now (Some s)) = (pid_pps p * 188 * 8 * 100) div (pps s * 188 * 8)"
    unfolding ltntstools_pid_stats_stream_padding_pct_def Let_def 1 2 prod.case by (simp only: if_False fst_conv)
  then have r: "unat (fst (ltntstools_pid_stats_stream_padding_pct now (Some s)))
      = (unat (pid_pps p) * 150400 mod 2 ^ 32) div (unat (pps s) * 1504)"
    by (simp only: unat_div b unat_times_lit(2))
  have "(unat (pid_pps p) * 150400 mod 2 ^ 32) div (unat (pps s) * 1504) = 100 * unat (pid_pps p) div unat (pps s)"
    if "unat (pid_pps p) \<le> 28556"
  proof -
    have "unat (pid_pps p) * 150400 mod 2 ^ 32 = (100 * unat (pid_pps p)) * 1504" using that by simp
    then show ?thesis by (simp only: div_mult_mult2 [of "1504 :: nat", OF zero_neq_numeral [symmetric]])
  qed
  note q = this
  show ?thesis by (intro conjI impI, rule r, simp only: r q)
qed

text \<open>A stream of null packets only: right at 28556 per second, zero percent at 28557.\<close>

theorem padding_pct_bound_witness:
  "\<forall>h c. unat (fst (ltntstools_pid_stats_stream_padding_pct 0 (Some ((stream_zero c h)\<lparr>pps := 28556,
       internal_pids := [0x1fff \<mapsto> pid_statistics_zero\<lparr>pid_pps := 28556\<rparr>]\<rparr>)))) = 100
   \<and> unat (fst (ltntstools_pid_stats_stream_padding_pct 0 (Some ((stream_zero c h)\<lparr>pps := 28557,
       internal_pids := [0x1fff \<mapsto> pid_statistics_zero\<lparr>pid_pps := 28557\<rparr>]\<rparr>)))) = 0"
  using padding_pct_bound [of "(stream_zero c h)\<lparr>pps := 28556,
       internal_pids := [0x1fff \<mapsto> pid_statistics_zero\<lparr>pid_pps := 28556\<rparr>]\<rparr>" "pid_statistics_zero\<lparr>pid_pps := 28556\<rparr>" 0 for c h]
    padding_pct_bound [of "(stream_zero c h)\<lparr>pps := 28557,
       internal_pids := [0x1fff \<mapsto> pid_statistics_zero\<lparr>pid_pps := 28557\<rparr>]\<rparr>" "pid_statistics_zero\<lparr>pid_pps := 28557\<rparr>" 0 for c h]
  by (simp add: pid_statistics_zero_def stream_zero_def live_def)

end
