(* ===== verification/PesExtractor.thy ===== *)
theory PesExtractor
  imports StatsCounting RingBuffer Pes
begin

text \<open>
  The PES extractor: \<open>src/src/pes-extractor.c\<close>. It counts every packet in statistics of its own,
  gathers the payloads of one PID in a ring buffer and, at the next start indicator, parses
  the ring and hands the packet to the callback, at once or through a window ordered by time.

  The callback is a flag, whether it is there, and the list \<open>px_delivered\<close> of the packets it was
  called with. The list of cached packets and the list of PCRs hold their items in order; an
  item that could not be allocated is missing. A \<open>NULL\<close> ring or statistics is \<open>None\<close>. \<open>abort\<close> and
  reading memory that nothing has written are \<open>None\<close>, as all undefined behaviour. \<open>now\<close> and \<open>ts\<close>
  are the times an operation reads. The code under \<open>LOCAL_DEBUG\<close> and \<open>SIMULATE_TS_PACKET_LOSS\<close>,
  which the file switches off, and the mutex, which is never taken, are left out.
\<close>

unbundle bit_operations_syntax

subsection \<open>State\<close>

definition ORDERED_LIST_DEPTH :: nat where
  "ORDERED_LIST_DEPTH = 60"

definition MAX_PCR_ITEMS :: nat where
  "MAX_PCR_ITEMS = 12"

record pcr_item_s =
  pcr_value :: int
  ringPos :: nat
  updateTime :: int

record item_s =
  correctedPTS :: int
  item_pes :: "ltn_pes_packet option"

record pes_extractor_s =
  px_pid :: u16
  px_rb :: "KLRingBuffer option"
  px_appending :: bool
  px_streamId :: u8
  px_skipDataExtraction :: bool
  px_cb :: bool
  px_orderedOutput :: bool
  px_listOrdered :: "item_s list"
  px_correctedClock :: ltntstools_corrected_clock_s
  px_computedRingSize :: int
  px_largestRingFrame :: int
  px_lastCCCounter :: nat
  px_libstats :: "stream option"
  px_pcrList :: "pcr_item_s list"
  px_pusi_time_ms :: u32
  px_preventWrites :: bool
  px_delivered :: "ltn_pes_packet list"

subsection \<open>Allocation and settings\<close>

definition notification_callback :: "pes_extractor_s \<Rightarrow> int \<Rightarrow> pid_stats \<Rightarrow> pes_extractor_s" where
  "notification_callback ctx e pid =
     (if e = EVENT_UPDATE_PID_PUSI_DELIVERY_TIME
      then ctx\<lparr>px_pusi_time_ms := word_of_int (pusi_time_ms pid)\<rparr> else ctx)"

text \<open>
  The structure takes 232 bytes, an item of the two lists 32 and 40. Only a failed allocation of
  the structure stops the call, by a store through \<open>NULL\<close>. The sizes of the ring are converted to
  \<open>size_t\<close>. The callback and the context that are registered are both given the number 0.
\<close>

definition ltntstools_pes_extractor_alloc ::
  "allocator \<Rightarrow> int \<Rightarrow> timeval \<Rightarrow> u16 \<Rightarrow> u8 \<Rightarrow> bool \<Rightarrow> int \<Rightarrow> int \<Rightarrow> pes_extractor_s mem" where
  "ltntstools_pes_extractor_alloc alloc now ts pid streamId cb buffer_min buffer_max =
     (if \<not> alloc 232 then None else
      let buffer_min = (if buffer_min = -1 then 4 * 1048576 else buffer_min);
          buffer_max = (if buffer_max = -1 then 32 * 1048576 else buffer_max);
          stats = snd (ltntstools_notification_register_callback (ltntstools_pid_stats_alloc alloc ts)
                    EVENT_UPDATE_PID_PUSI_DELIVERY_TIME 0 (Some 0))
      in Some \<lparr>px_pid = pid, px_rb = rb_new alloc (nat (buffer_min mod 2 ^ 64)) (nat (buffer_max mod 2 ^ 64)),
            px_appending = False, px_streamId = streamId, px_skipDataExtraction = False, px_cb = cb,
            px_orderedOutput = False,
            px_listOrdered = (if alloc 32 then replicate ORDERED_LIST_DEPTH \<lparr>correctedPTS = 0, item_pes = None\<rparr> else []),
            px_correctedClock = fst (ltntstools_corrected_clock_init corrected_zero 90000),
            px_computedRingSize = 0, px_largestRingFrame = 0, px_lastCCCounter = 0, px_libstats = stats,
            px_pcrList = (if alloc 40
              then replicate MAX_PCR_ITEMS \<lparr>pcr_value = 0, ringPos = 0, updateTime = now\<rparr> else []),
            px_pusi_time_ms = 0, px_preventWrites = False, px_delivered = []\<rparr>)"

definition ltntstools_pes_extractor_set_ordered_output :: "pes_extractor_s \<Rightarrow> bool \<Rightarrow> pes_extractor_s \<times> int" where
  "ltntstools_pes_extractor_set_ordered_output ctx tf = (ctx\<lparr>px_orderedOutput := tf\<rparr>, 0)"

definition ltntstools_pes_extractor_set_skip_data :: "pes_extractor_s \<Rightarrow> bool \<Rightarrow> pes_extractor_s \<times> int" where
  "ltntstools_pes_extractor_set_skip_data ctx tf = (ctx\<lparr>px_skipDataExtraction := tf\<rparr>, 0)"

definition ltntstools_pes_extractor_set_pcr_pid ::
  "allocator \<Rightarrow> timeval \<Rightarrow> pes_extractor_s \<Rightarrow> u16 \<Rightarrow> pes_extractor_s \<times> int" where
  "ltntstools_pes_extractor_set_pcr_pid alloc ts ctx nr =
     (ctx\<lparr>px_libstats := ltntstools_pid_stats_pid_set_contains_pcr alloc ts (px_libstats ctx) (nr AND 0x1fff)\<rparr>, 0)"

subsection \<open>The window of cached packets\<close>

fun list_insert :: "item_s \<Rightarrow> item_s list \<Rightarrow> item_s list" where
  "list_insert newitem [] = [newitem]"
| "list_insert newitem (e # es) =
     (if correctedPTS newitem < correctedPTS e then newitem # e # es
      else if item_pes e = None then newitem # e # es
      else e # list_insert newitem es)"

text \<open>The position of the oldest item with the item: the first one of the least time.\<close>

fun find_oldest_loop :: "nat \<Rightarrow> item_s list \<Rightarrow> (nat \<times> item_s) option \<Rightarrow> (nat \<times> item_s) option" where
  "find_oldest_loop i [] oldest = oldest"
| "find_oldest_loop i (e # es) oldest =
     find_oldest_loop (Suc i) es
       (case oldest of
          None \<Rightarrow> Some (i, e)
        | Some (j, old) \<Rightarrow> if correctedPTS e < correctedPTS old then Some (i, e) else Some (j, old))"

definition list_find_oldest :: "item_s list \<Rightarrow> (nat \<times> item_s) option" where
  "list_find_oldest items = find_oldest_loop 0 items None"

definition list_del :: "nat \<Rightarrow> 'a list \<Rightarrow> 'a list" where
  "list_del i xs = take i xs @ drop (Suc i) xs"

lemma length_list_del [simp]: "i < length xs \<Longrightarrow> length (list_del i xs) = length xs - 1"
  by (simp add: list_del_def)

lemma find_oldest_loop_SomeD:
  assumes "find_oldest_loop i xs o' = Some (j, e)"
  shows "o' = Some (j, e) \<or> (i \<le> j \<and> j < i + length xs \<and> xs ! (j - i) = e)"
  using assms
proof (induction i xs o' rule: find_oldest_loop.induct)
  case (2 i x xs o')
  have "(case o' of None \<Rightarrow> Some (i, x) | Some (j, old) \<Rightarrow> if correctedPTS x < correctedPTS old then Some (i, x) else Some (j, old))
     = Some (i, x) \<or> (case o' of None \<Rightarrow> Some (i, x) | Some (j, old) \<Rightarrow> if correctedPTS x < correctedPTS old then Some (i, x) else Some (j, old))
     = o'" by (auto split: option.splits)
  with 2 show ?case by (auto simp: nth_Cons' Suc_le_eq)
qed simp

lemma list_find_oldest_bound: "list_find_oldest xs = Some (j, e) \<Longrightarrow> j < length xs \<and> xs ! j = e"
  using find_oldest_loop_SomeD [of 0 xs None j e] by (auto simp: list_find_oldest_def)

text \<open>\<open>_flushOrderedOutput\<close>: the packets that are handed to the callback, which is called unchecked.\<close>

function flush_loop :: "bool \<Rightarrow> item_s list \<Rightarrow> ltn_pes_packet list mem" where
  "flush_loop cb items =
     (case list_find_oldest items of
        None \<Rightarrow> Some []
      | Some (i, item) \<Rightarrow>
          (case item_pes item of
             None \<Rightarrow> flush_loop cb (list_del i items)
           | Some pes \<Rightarrow>
               if cb then do { rest \<leftarrow> flush_loop cb (list_del i items); Some (pes # rest) } else None))"
  by pat_completeness auto
termination
  by (relation "measure (\<lambda>(cb, items). length items)")
    (auto dest!: list_find_oldest_bound)

declare flush_loop.simps [simp del]

text \<open>
  The end of an extractor: the ring is freed through its lock, the cached packets are flushed when
  the output is ordered. What the callback got is the result.
\<close>

definition ltntstools_pes_extractor_free :: "pes_extractor_s \<Rightarrow> ltn_pes_packet list mem" where
  "ltntstools_pes_extractor_free ctx =
     do { rb \<leftarrow> px_rb ctx;
          rb_free rb;
          if px_orderedOutput ctx
          then do { rest \<leftarrow> flush_loop (px_cb ctx) (px_listOrdered ctx); Some (px_delivered ctx @ rest) }
          else Some (px_delivered ctx) }"

subsection \<open>The PCR of a ring position\<close>

text \<open>The last item moves to the front. Taking it from an empty list is undefined.\<close>

definition updatePcrList :: "int \<Rightarrow> pes_extractor_s \<Rightarrow> int \<Rightarrow> nat \<Rightarrow> pes_extractor_s mem" where
  "updatePcrList now ctx pcr pos =
     (if px_pcrList ctx = [] then None
      else Some (ctx\<lparr>px_pcrList := \<lparr>pcr_value = pcr, ringPos = pos, updateTime = now\<rparr> # butlast (px_pcrList ctx)\<rparr>))"

definition findPcrFromPosition :: "pes_extractor_s \<Rightarrow> nat \<Rightarrow> int" where
  "findPcrFromPosition ctx pos =
     (case find (\<lambda>e. ringPos e = pos) (px_pcrList ctx) of None \<Rightarrow> -1 | Some e \<Rightarrow> pcr_value e)"

subsection \<open>Processing the ring\<close>

text \<open>A packet that was parsed is handed to the callback, or swapped for the oldest of the window.\<close>

definition deliver :: "pes_extractor_s \<Rightarrow> ltn_pes_packet \<Rightarrow> pes_extractor_s" where
  "deliver ctx pes =
     (if \<not> px_orderedOutput ctx then ctx\<lparr>px_delivered := px_delivered ctx @ [pes]\<rparr>
      else case list_find_oldest (px_listOrdered ctx) of
        None \<Rightarrow> ctx
      | Some (i, item) \<Rightarrow>
          let ctx = (case item_pes item of None \<Rightarrow> ctx | Some old \<Rightarrow> ctx\<lparr>px_delivered := px_delivered ctx @ [old]\<rparr>);
              clk = fst (ltntstools_corrected_clock_update (Some (px_correctedClock ctx)) (sint (pes_PTS pes)));
              item = \<lparr>correctedPTS = sint (ltntstools_corrected_clock_unwrapped clk), item_pes = Some pes\<rparr>
          in ctx\<lparr>px_correctedClock := the clk, px_listOrdered := list_insert item (list_del i (px_listOrdered ctx))\<rparr>)"

text \<open>The parse of the bytes in the ring, with the code the function returns.\<close>

definition process_bytes :: "allocator \<Rightarrow> pes_extractor_s \<Rightarrow> nat \<Rightarrow> bytes \<Rightarrow> (int \<times> pes_extractor_s) mem" where
  "process_bytes alloc ctx pos buf =
     do { pes \<leftarrow> ltn_pes_packet_alloc alloc;
          (bits, pes, bs) \<leftarrow> ltn_pes_packet_parse alloc pes (klbs_read_set_buffer buf (length buf))
                              (px_skipDataExtraction ctx);
          let pes = pes\<lparr>pes_pcr := word_of_int (findPcrFromPosition ctx pos), pes_arrivalMs := px_pusi_time_ms ctx\<rparr>;
          if kb_overrun bs then Some (-2, ctx)
          else if to_int32 bits \<noteq> 0 \<and> px_cb ctx
          then if alloc (length buf)
               then Some (0, deliver ctx (pes\<lparr>pes_rawLength := of_nat (length buf), pes_raw := Some buf\<rparr>))
               else None
          else Some (0, ctx) }"

text \<open>The return value is the first component: -1 for an empty ring.\<close>

definition processRing :: "allocator \<Rightarrow> pes_extractor_s \<Rightarrow> (int \<times> pes_extractor_s) mem" where
  "processRing alloc ctx =
     do { rb \<leftarrow> px_rb ctx;
          (used, rb) \<leftarrow> rb_used rb;
          let rlen = to_int32 (int used);
          let ctx = ctx\<lparr>px_rb := Some rb\<rparr>;
          if rlen = 0 then Some (-1, ctx)
          else if px_computedRingSize ctx \<noteq> rlen then None
          else if rlen < 16 then None
          else if \<not> alloc (nat rlen) then Some (0, ctx)
          else do { (cells, rb) \<leftarrow> rb_peek alloc rb (nat rlen);
                    let ctx = ctx\<lparr>px_rb := Some rb\<rparr>;
                    if int (length cells) \<noteq> rlen then Some (0, ctx)
                    else do { buf \<leftarrow> those cells;
                              let ctx = (if rlen > px_largestRingFrame ctx then ctx\<lparr>px_largestRingFrame := rlen\<rparr> else ctx);
                              process_bytes alloc ctx (rb_get_read_pos rb) buf } } }"

subsection \<open>Writing packets\<close>

text \<open>
  The statistics count the packet; the callback runs for every event they record. The one event
  it is registered for always comes with a PID.
\<close>

definition notified :: "(u16 \<rightharpoonup> pid_stats) \<Rightarrow> pes_extractor_s \<Rightarrow> int \<times> nat \<times> u16 option \<Rightarrow> pes_extractor_s" where
  "notified pids ctx = (\<lambda>(e, user, nr).
     case Option.bind nr pids of None \<Rightarrow> ctx | Some pid \<Rightarrow> notification_callback ctx e pid)"

definition update_stats :: "allocator \<Rightarrow> int \<Rightarrow> timeval \<Rightarrow> pes_extractor_s \<Rightarrow> bytes \<Rightarrow> pes_extractor_s mem" where
  "update_stats alloc now ts ctx pkt =
     (case px_libstats ctx of
        None \<Rightarrow> Some ctx
      | Some s \<Rightarrow>
          do { s' \<leftarrow> ltntstools_pid_stats_update alloc now ts s (Some pkt) 1;
               Some (foldl (notified (internal_pids s')) (ctx\<lparr>px_libstats := Some s'\<rparr>)
                      (drop (length (fired s)) (fired s'))) })"

definition empty_ring :: "pes_extractor_s \<Rightarrow> pes_extractor_s mem" where
  "empty_ring ctx =
     do { rb \<leftarrow> px_rb ctx; rb \<leftarrow> rb_empty rb; Some (ctx\<lparr>px_rb := Some rb, px_computedRingSize := 0\<rparr>) }"

definition check_cc :: "pes_extractor_s \<Rightarrow> pes_extractor_s mem" where
  "check_cc ctx =
     do { let c = ltntstools_pid_stats_stream_get_cc_errors (px_libstats ctx);
          ctx \<leftarrow> (if px_lastCCCounter ctx \<noteq> c then empty_ring (ctx\<lparr>px_appending := False\<rparr>) else Some ctx);
          Some (ctx\<lparr>px_lastCCCounter := c\<rparr>) }"

text \<open>
  Writing the payload: the overflow flag and the extractor. With an adaptation field of more than
  183 bytes the size is negative, as \<open>size_t\<close> more than any packet holds.
\<close>

definition payload_offset :: "bytes \<Rightarrow> nat" where
  "payload_offset pkt =
     (if ltntstools_has_adaption pkt then 5 + unat (ltntstools_adaption_field_length pkt) else 4)"

definition write_payload :: "allocator \<Rightarrow> pes_extractor_s \<Rightarrow> bytes \<Rightarrow> (bool \<times> pes_extractor_s) mem" where
  "write_payload alloc ctx pkt =
     do { let off = payload_offset pkt;
          if off > 188 then None else do {
          d \<leftarrow> rdn pkt off (188 - off);
          rb \<leftarrow> px_rb ctx;
          (didOverflow, rb) \<leftarrow> rb_write_with_state alloc rb d True;
          Some (didOverflow, ctx\<lparr>px_rb := Some rb, px_computedRingSize := px_computedRingSize ctx + (188 - int off)\<rparr>) }}"

text \<open>A packet with the start indicator, while appending.\<close>

definition begin_pes :: "allocator \<Rightarrow> int \<Rightarrow> pes_extractor_s \<Rightarrow> bytes \<Rightarrow> pes_extractor_s mem" where
  "begin_pes alloc now ctx pkt =
     do { (_, ctx) \<leftarrow> processRing alloc ctx;
          ctx \<leftarrow> empty_ring ctx;
          pcr \<leftarrow> snd (ltntstools_bitrate_calculator_query_stc (px_libstats ctx) True);
          rb \<leftarrow> px_rb ctx;
          pos \<leftarrow> rb_get_write_pos rb;
          ctx \<leftarrow> updatePcrList now ctx pcr pos;
          (didOverflow, ctx) \<leftarrow> write_payload alloc ctx pkt;
          if didOverflow then None else Some ctx }"

text \<open>A packet of the PID, then any packet.\<close>

definition gather_packet :: "allocator \<Rightarrow> int \<Rightarrow> bytes \<Rightarrow> pes_extractor_s \<Rightarrow> pes_extractor_s mem" where
  "gather_packet alloc now pkt ctx =
     (if ltntstools_adaption_field_control pkt = 0x02 then Some ctx
      else if \<not> ltntstools_payload_unit_start_indicator pkt \<and> \<not> px_appending ctx then Some ctx else do {
      ctx \<leftarrow> (if ltntstools_payload_unit_start_indicator pkt \<and> \<not> px_appending ctx
               then empty_ring (ctx\<lparr>px_appending := True\<rparr>) else Some ctx);
      if ltntstools_payload_unit_start_indicator pkt then begin_pes alloc now ctx pkt
      else do { (_, ctx) \<leftarrow> write_payload alloc ctx pkt; Some ctx } })"

definition write_packet :: "allocator \<Rightarrow> int \<Rightarrow> timeval \<Rightarrow> bytes \<Rightarrow> pes_extractor_s \<Rightarrow> pes_extractor_s mem" where
  "write_packet alloc now ts pkt ctx =
     do { ctx \<leftarrow> update_stats alloc now ts ctx pkt;
          need 4 pkt;
          if ltntstools_pid pkt \<noteq> px_pid ctx then Some ctx
          else do { ctx \<leftarrow> check_cc ctx; gather_packet alloc now pkt ctx } }"

definition ltntstools_pes_extractor_write ::
  "allocator \<Rightarrow> int \<Rightarrow> timeval \<Rightarrow> pes_extractor_s \<Rightarrow> bytes \<Rightarrow> nat \<Rightarrow> (nat \<times> pes_extractor_s) mem" where
  "ltntstools_pes_extractor_write alloc now ts ctx pkts n =
     (if px_preventWrites ctx then Some (0, ctx)
      else do { ctx \<leftarrow> mem_fold (write_packet alloc now ts) (packets_at pkts n) ctx; Some (n, ctx) })"

end
