(* ===== verification/PesExtraction.thy ===== *)
theory PesExtraction
  imports PesExtractor "HOL-Library.Multiset"
begin

text \<open>
  What the PES extractor of \<open>src/src/pes-extractor.c\<close> delivers. An abstract extractor says which
  bytes make up a unit and when one is dropped; the model of the code simulates it. The window
  of ordered output is related to a sorted list.
\<close>

unbundle bit_operations_syntax

subsection \<open>What the extractor is to do\<close>

text \<open>
  The errors of a stream: packets without a sync byte and continuity breaks on any PID. This is
  what the extractor watches.
\<close>

definition stream_errors :: "bytes list \<Rightarrow> nat" where
  "stream_errors hs = length (filter (\<lambda>k. \<not> ltntstools_sync_present k) hs)
     + (\<Sum>nr \<in> ltntstools_pid ` set hs. if nr = 0x1fff then 0 else cc_breaks (of_pid nr hs))"

definition watched :: "int \<Rightarrow> bytes list \<Rightarrow> stream \<Rightarrow> bool" where
  "watched t0 hs s \<longleftrightarrow> calm t0 s
     \<and> tally hs (length (filter ltntstools_sync_present hs)) (length (filter (\<lambda>k. \<not> ltntstools_sync_present k) hs)) s"

lemma watched_errors:
  assumes "watched t0 hs s"
  shows "ltntstools_pid_stats_stream_get_cc_errors (Some s) = stream_errors hs"
proof -
  let ?b = "\<lambda>nr. if nr = 0x1fff then 0 else cc_breaks (of_pid nr hs)"
  have t: "tally hs (length (filter ltntstools_sync_present hs)) (length (filter (\<lambda>k. \<not> ltntstools_sync_present k) hs)) s"
    using assms by (simp add: watched_def)
  have p: "set (pidArray s) = dom (internal_pids s)" using t by (simp add: tally_def pids_inv_def)
  have "ltntstools_pid ` set hs \<subseteq> set (pidArray s)"
    using t by (force simp: tally_def p of_pid_def filter_empty_conv)
  moreover have "of_pid nr hs = []" if "nr \<notin> ltntstools_pid ` set hs" for nr
    using that by (auto simp: of_pid_def filter_empty_conv)
  ultimately have "sum ?b (ltntstools_pid ` set hs) = sum ?b (set (pidArray s))"
    by (intro sum.mono_neutral_left) auto
  also have "\<dots> = cc_total s"
    using t by (auto simp: cc_total_def tally_def p tallied_def pid_counts_def intro!: sum.cong)
  finally show ?thesis
    using t by (simp add: stream_errors_def ltntstools_pid_stats_stream_get_cc_errors_def stream_query_def tally_def counts_def)
qed

lemma watched_update:
  assumes "granted alloc" "in_window t0 now ts" "watched t0 hs s" "188 \<le> length pkt"
  shows "mem_ok (ltntstools_pid_stats_update alloc now ts s (Some pkt) 1) (watched t0 (hs @ [take 188 pkt]))"
proof -
  have "188 * 1 \<le> length pkt" using assms(4) by simp
  then obtain s' where u: "ltntstools_pid_stats_update alloc now ts s (Some pkt) 1 = Some s'" "calm t0 s'"
    using update_ok [OF assms(1,2) _ \<open>188 * 1 \<le> length pkt\<close>, of s] assms(3) by (auto simp: watched_def elim: mem_okE)
  have k: "packets_in pkt 1 = [take 188 pkt]" by (simp add: packets_in_def packets_at_def)
  have "watched t0 (hs @ [take 188 pkt]) s'"
    using tally_update [OF _ u(1), of hs] u(2) assms(1,3) k by (simp add: watched_def granted_def)
  with u show ?thesis by simp
qed

lemma watched_start: "ltntstools_pid_stats_alloc alloc ts = Some s \<Longrightarrow> watched t0 [] s"
  using alloc_calm by (simp add: watched_def)

text \<open>
  The abstract extractor holds the bytes gathered since the last start indicator, if it has seen
  one, the error count at the last packet of its PID, and the finished units. It has no result
  where the code aborts or leaves a packet: a unit of less than 16 bytes, a unit that does not fit the ring,
  an adaptation field longer than the packet. A write may make a ring grow by 128 times its length.
\<close>

definition px_payload :: "bytes \<Rightarrow> bytes" where
  "px_payload pkt = take (188 - payload_offset pkt) (drop (payload_offset pkt) pkt)"

definition RING_STEP :: nat where
  "RING_STEP = 184 * 129"

type_synonym px_spec = "bytes option \<times> nat \<times> bytes list"

definition spec_gather :: "nat \<Rightarrow> bytes \<Rightarrow> bytes option \<Rightarrow> (bytes option \<times> bytes list) option" where
  "spec_gather M pkt acc =
     (if ltntstools_adaption_field_control pkt = 2 then Some (acc, [])
      else if ltntstools_payload_unit_start_indicator pkt
      then if payload_offset pkt > 188 then None
           else case acc of
             None \<Rightarrow> Some (Some (px_payload pkt), [])
           | Some u \<Rightarrow> if u = [] then Some (Some (px_payload pkt), [])
                       else if length u < 16 then None
                       else Some (Some (px_payload pkt), [u])
      else case acc of
        None \<Rightarrow> Some (None, [])
      | Some u \<Rightarrow> if payload_offset pkt > 188 \<or> length u + RING_STEP > M then None
                  else Some (Some (u @ px_payload pkt), []))"

definition spec_packet :: "nat \<Rightarrow> u16 \<Rightarrow> nat \<Rightarrow> bytes \<Rightarrow> px_spec \<Rightarrow> px_spec option" where
  "spec_packet M pid errors pkt = (\<lambda>(acc, prev, out).
     if ltntstools_pid pkt \<noteq> pid then Some (acc, prev, out)
     else do { (acc, new) \<leftarrow> spec_gather M pkt (if errors \<noteq> prev then None else acc);
               Some (acc, errors, out @ new) })"

fun spec_run :: "nat \<Rightarrow> u16 \<Rightarrow> bytes list \<Rightarrow> bytes list \<Rightarrow> px_spec \<Rightarrow> px_spec option" where
  "spec_run M pid hs [] st = Some st"
| "spec_run M pid hs (p # ps) st =
     do { st \<leftarrow> spec_packet M pid (stream_errors (hs @ [p])) p st; spec_run M pid (hs @ [p]) ps st }"

text \<open>What the callback gets for a unit: the parsed packet with the bytes and two times.\<close>

definition pes_parsed :: "allocator \<Rightarrow> bool \<Rightarrow> bytes \<Rightarrow> ltn_pes_packet option mem" where
  "pes_parsed alloc skip u =
     do { (bits, pes, bs) \<leftarrow> ltn_pes_packet_parse alloc ltn_pes_packet_init (klbs_read_set_buffer u (length u)) skip;
          Some (if kb_overrun bs \<or> to_int32 bits = 0 then None else Some pes) }"

definition parsed_units :: "allocator \<Rightarrow> bool \<Rightarrow> bytes list \<Rightarrow> (bytes \<times> ltn_pes_packet) list" where
  "parsed_units alloc skip out =
     concat (map (\<lambda>u. case pes_parsed alloc skip u of Some (Some pes) \<Rightarrow> [(u, pes)] | _ \<Rightarrow> []) out)"

definition received :: "bytes \<times> ltn_pes_packet \<Rightarrow> ltn_pes_packet \<Rightarrow> bool" where
  "received = (\<lambda>(u, pes) d. \<exists>pcr ms.
     d = pes\<lparr>pes_pcr := pcr, pes_arrivalMs := ms, pes_rawLength := of_nat (length u), pes_raw := Some u\<rparr>)"

subsection \<open>The extractor does it\<close>

text \<open>What delivery works on; nothing else touches it.\<close>

definition outlet :: "pes_extractor_s \<Rightarrow> bool \<times> bool \<times> bool \<times> item_s list \<times> ltntstools_corrected_clock_s \<times> ltn_pes_packet list" where
  "outlet ctx = (px_cb ctx, px_skipDataExtraction ctx, px_orderedOutput ctx, px_listOrdered ctx, px_correctedClock ctx, px_delivered ctx)"

text \<open>The rest of the state, which delivery leaves alone.\<close>

definition intake :: "pes_extractor_s \<Rightarrow> u16 \<times> KLRingBuffer option \<times> bool \<times> int \<times> nat \<times> stream option \<times> pcr_item_s list \<times> bool" where
  "intake ctx = (px_pid ctx, px_rb ctx, px_appending ctx, px_computedRingSize ctx, px_lastCCCounter ctx, px_libstats ctx, px_pcrList ctx, px_preventWrites ctx)"

lemma deliver_frame:
  fixes pes :: ltn_pes_packet
  assumes "px_orderedOutput ctx" "list_find_oldest (px_listOrdered ctx) = Some (i, item)"
  defines "clk \<equiv> fst (ltntstools_corrected_clock_update (Some (px_correctedClock ctx)) (sint (pes_PTS pes)))"
  shows "outlet (deliver ctx pes) = (px_cb ctx, px_skipDataExtraction ctx, True,
      list_insert \<lparr>correctedPTS = sint (ltntstools_corrected_clock_unwrapped clk), item_pes = Some pes\<rparr>
        (list_del i (px_listOrdered ctx)), the clk,
      px_delivered ctx @ (case item_pes item of None \<Rightarrow> [] | Some old \<Rightarrow> [old]))"
    and "intake (deliver ctx pes) = intake ctx"
  using assms by (cases "item_pes item"; simp add: deliver_def outlet_def intake_def Let_def)+

lemma deliver_cases [case_names now full swap]:
  obtains "\<not> px_orderedOutput ctx" | "px_orderedOutput ctx" "list_find_oldest (px_listOrdered ctx) = None"
  | i item where "px_orderedOutput ctx" "list_find_oldest (px_listOrdered ctx) = Some (i, item)"
  by (cases "list_find_oldest (px_listOrdered ctx)") auto

lemma deliver_outlet: "outlet a = outlet b \<Longrightarrow> outlet (deliver a pes) = outlet (deliver b pes)"
proof -
  assume o: "outlet a = outlet b"
  show ?thesis
  proof (cases b rule: deliver_cases)
    case (swap i item)
    with o show ?thesis by (simp add: deliver_frame(1) outlet_def [of a] outlet_def [of b])
  qed (use o in \<open>simp_all add: deliver_def outlet_def\<close>)
qed

lemma deliver_intake [simp]: "intake (deliver ctx pes) = intake ctx"
proof (cases ctx rule: deliver_cases)
  case (swap i item)
  then show ?thesis by (rule deliver_frame(2))
qed (simp_all add: deliver_def intake_def)

lemma foldl_deliver_outlet: "outlet a = outlet b \<Longrightarrow> outlet (foldl deliver a ds) = outlet (foldl deliver b ds)"
proof (induction ds arbitrary: a b)
  case (Cons d ds)
  show ?case unfolding foldl_Cons by (rule Cons.IH [OF deliver_outlet [OF Cons.prems]])
qed simp

text \<open>The ring holds the bytes gathered, or nothing before the first start indicator.\<close>

definition bytes_of :: "bytes option \<Rightarrow> bytes" where
  "bytes_of acc = (case acc of None \<Rightarrow> [] | Some u \<Rightarrow> u)"

definition gathering :: "nat \<Rightarrow> bytes option \<Rightarrow> pes_extractor_s \<Rightarrow> bool" where
  "gathering M acc ctx \<longleftrightarrow>
     (\<exists>rb. px_rb ctx = Some rb \<and> rb_inv rb \<and> rb_head rb = 0 \<and> rb_size_max rb = M
        \<and> rb_contents rb = map Some (bytes_of acc))
     \<and> px_computedRingSize ctx = int (length (bytes_of acc)) \<and> px_appending ctx = (acc \<noteq> None)
     \<and> px_pcrList ctx \<noteq> []"

definition context_of :: "pes_extractor_s \<Rightarrow> u16 \<times> nat \<times> stream option \<times> bool" where
  "context_of ctx = (px_pid ctx, px_lastCCCounter ctx, px_libstats ctx, px_preventWrites ctx)"

lemma intake_frame:
  "intake a = intake b \<Longrightarrow> gathering M acc a = gathering M acc b \<and> context_of a = context_of b"
  by (simp add: intake_def gathering_def context_of_def)

lemma gathering_length:
  assumes "gathering M acc ctx"
  obtains rb where "px_rb ctx = Some rb" "rb_inv rb" "rb_fill rb = length (bytes_of acc)" "length (bytes_of acc) \<le> M"
    "rb_head rb = 0" "rb_size_max rb = M" "rb_contents rb = map Some (bytes_of acc)"
proof -
  obtain rb where r: "px_rb ctx = Some rb" "rb_inv rb" "rb_head rb = 0" "rb_size_max rb = M"
      "rb_contents rb = map Some (bytes_of acc)"
    using assms by (auto simp: gathering_def)
  have "rb_fill rb = length (bytes_of acc)" using length_rb_contents [OF r(2)] r(5) by simp
  then show thesis using r by (intro that [of rb]) (auto simp: rb_inv_def)
qed

lemma empty_ring_ok:
  assumes "gathering M acc ctx"
  shows "mem_ok (empty_ring (ctx\<lparr>px_appending := a\<rparr>))
    (\<lambda>ctx'. gathering M (if a then Some [] else None) ctx' \<and> context_of ctx' = context_of ctx \<and> outlet ctx' = outlet ctx)"
proof -
  obtain rb where r: "px_rb ctx = Some rb" "rb_inv rb" "rb_size_max rb = M" by (rule gathering_length [OF assms])
  obtain rb' where "rb_empty rb = Some rb'" "rb_inv rb'" "rb_contents rb' = []" "rb_head rb' = 0" "rb_size_max rb' = M"
    using rb_empty_inv [OF r(2)] r(3) by auto
  then show ?thesis
    using r(1) assms by (simp add: empty_ring_def gathering_def context_of_def outlet_def bytes_of_def)
qed

lemma write_payload_ok:
  assumes "granted alloc" "gathering M (Some u) ctx" "payload_offset pkt \<le> 188" "188 \<le> length pkt" "length u + RING_STEP \<le> M"
  shows "mem_ok (write_payload alloc ctx pkt) (\<lambda>(overflow, ctx'). \<not> overflow \<and> gathering M (Some (u @ px_payload pkt)) ctx'
    \<and> context_of ctx' = context_of ctx \<and> outlet ctx' = outlet ctx)"
proof -
  obtain rb where r: "px_rb ctx = Some rb" "rb_inv rb" "rb_fill rb = length u" "rb_head rb = 0" "rb_size_max rb = M"
      "rb_contents rb = map Some u"
    by (rule gathering_length [OF assms(2)]) (simp add: bytes_of_def)
  have l: "length (px_payload pkt) = 188 - payload_offset pkt" using assms(3,4) by (simp add: px_payload_def)
  have "4 \<le> payload_offset pkt" by (simp add: payload_offset_def)
  then have "length (px_payload pkt) * 129 \<le> RING_STEP" unfolding l RING_STEP_def by simp
  then have "rb_fill rb + length (px_payload pkt) * 129 \<le> rb_size_max rb" using r(3,5) assms(5) by simp
  moreover have "\<And>n. alloc n" using assms(1) by (simp add: granted_def)
  ultimately obtain rb' where w: "rb_write_with_state alloc rb (px_payload pkt) True = Some (False, rb')" "rb_inv rb'"
      "rb_contents rb' = map Some (u @ px_payload pkt)" "rb_head rb' = 0" "rb_size_max rb' = M"
    using rb_write_from_origin [OF r(2,4), of alloc "px_payload pkt"] r(5,6) by auto
  have d: "rdn pkt (payload_offset pkt) (188 - payload_offset pkt) = Some (px_payload pkt)"
    using assms(3,4) by (simp add: rdn_def px_payload_def)
  show ?thesis
    using assms(2,3) r(1) w d l
    by (simp add: write_payload_def gathering_def context_of_def outlet_def bytes_of_def)
qed

lemma parsed_units_single:
  "parsed_units alloc skip [u] = (case pes_parsed alloc skip u of Some (Some pes) \<Rightarrow> [(u, pes)] | _ \<Rightarrow> [])"
  by (simp add: parsed_units_def)

lemma parsed_units_append:
  "parsed_units alloc skip (us @ vs) = parsed_units alloc skip us @ parsed_units alloc skip vs"
  by (simp add: parsed_units_def)

text \<open>The packets that were handed on since \<open>ctx0\<close>.\<close>

definition handed :: "allocator \<Rightarrow> pes_extractor_s \<Rightarrow> bytes list \<Rightarrow> pes_extractor_s \<Rightarrow> bool" where
  "handed alloc ctx0 us ctx \<longleftrightarrow>
     (\<exists>ds. outlet ctx = outlet (foldl deliver ctx0 ds)
        \<and> list_all2 received (parsed_units alloc (px_skipDataExtraction ctx0) us) ds)"

lemma process_bytes_ok:
  assumes "granted alloc" "px_cb ctx" "pes_parsed alloc (px_skipDataExtraction ctx) u \<noteq> None"
  shows "mem_ok (process_bytes alloc ctx pos u) (\<lambda>(_, ctx'). intake ctx' = intake ctx \<and> handed alloc ctx [u] ctx')"
proof -
  obtain bits pes bs where p: "ltn_pes_packet_parse alloc ltn_pes_packet_init (klbs_read_set_buffer u (length u))
      (px_skipDataExtraction ctx) = Some (bits, pes, bs)"
    using assms(3) by (auto simp: pes_parsed_def bind_eq_None_conv)
  let ?d = "pes\<lparr>pes_pcr := word_of_int (findPcrFromPosition ctx pos), pes_arrivalMs := px_pusi_time_ms ctx,
      pes_rawLength := of_nat (length u), pes_raw := Some u\<rparr>"
  have r: "received (u, pes) ?d" by (auto simp: received_def)
  have a: "alloc n" for n using assms(1) by (simp add: granted_def)
  show ?thesis
  proof (cases "kb_overrun bs \<or> to_int32 bits = 0")
    case True
    then have "handed alloc ctx [u] ctx"
      by (auto simp: handed_def parsed_units_single pes_parsed_def p intro!: exI [of _ "[]"])
    with True show ?thesis by (auto simp: process_bytes_def ltn_pes_packet_alloc_def a p)
  next
    case False
    then have "handed alloc ctx [u] (deliver ctx ?d)"
      using r by (auto simp: handed_def parsed_units_single pes_parsed_def p intro!: exI [of _ "[?d]"])
    with False assms(2) show ?thesis by (simp add: process_bytes_def ltn_pes_packet_alloc_def a p)
  qed
qed

lemma handed_Nil: "outlet ctx = outlet ctx0 \<Longrightarrow> handed alloc ctx0 [] ctx"
  by (auto simp: handed_def parsed_units_def intro!: exI [of _ "[]"])

lemma handed_outlet:
  assumes "handed alloc ctx0 us ctx" "outlet ctx1 = outlet ctx0" "outlet ctx2 = outlet ctx"
  shows "handed alloc ctx1 us ctx2"
proof -
  obtain ds where d: "outlet ctx = outlet (foldl deliver ctx0 ds)"
      "list_all2 received (parsed_units alloc (px_skipDataExtraction ctx0) us) ds"
    using assms(1) by (auto simp: handed_def)
  have "px_skipDataExtraction ctx1 = px_skipDataExtraction ctx0" using assms(2) by (simp add: outlet_def)
  then show ?thesis
    using d assms(3) foldl_deliver_outlet [OF assms(2), of ds] unfolding handed_def by (intro exI [of _ ds]) simp
qed

lemma handed_trans:
  assumes "handed alloc ctx0 us ctx1" "handed alloc ctx1 vs ctx2"
  shows "handed alloc ctx0 (us @ vs) ctx2"
proof -
  obtain ds where d: "outlet ctx1 = outlet (foldl deliver ctx0 ds)"
      "list_all2 received (parsed_units alloc (px_skipDataExtraction ctx0) us) ds"
    using assms(1) by (auto simp: handed_def)
  obtain es where e: "outlet ctx2 = outlet (foldl deliver ctx1 es)"
      "list_all2 received (parsed_units alloc (px_skipDataExtraction ctx1) vs) es"
    using assms(2) by (auto simp: handed_def)
  have "px_skipDataExtraction (foldl deliver ctx0 ds) = px_skipDataExtraction ctx0"
  proof (induction ds arbitrary: ctx0)
    case (Cons d ds)
    have "px_skipDataExtraction (deliver ctx0 d) = px_skipDataExtraction ctx0"
      by (cases ctx0 rule: deliver_cases) (auto simp: deliver_def Let_def split: option.splits)
    then show ?case using Cons by simp
  qed simp
  then have s: "px_skipDataExtraction ctx1 = px_skipDataExtraction ctx0" using d(1) by (simp add: outlet_def)
  have "outlet ctx2 = outlet (foldl deliver ctx0 (ds @ es))"
    using e(1) foldl_deliver_outlet [OF d(1), of es] by simp
  then show ?thesis
    using d(2) e(2) s by (auto simp: handed_def parsed_units_append intro!: exI [of _ "ds @ es"] list_all2_appendI)
qed

lemma those_map_Some [simp]: "those (map Some xs) = Some xs"
  by (induction xs) auto

lemma processRing_ok:
  assumes "granted alloc" "px_cb ctx" "gathering M (Some u) ctx" "M < 2 ^ 31"
    and "u \<noteq> [] \<Longrightarrow> 16 \<le> length u \<and> pes_parsed alloc (px_skipDataExtraction ctx) u \<noteq> None"
  shows "mem_ok (processRing alloc ctx) (\<lambda>(_, ctx'). gathering M (Some u) ctx' \<and> context_of ctx' = context_of ctx
    \<and> handed alloc ctx (if u = [] then [] else [u]) ctx')"
proof -
  obtain rb where r: "px_rb ctx = Some rb" "rb_inv rb" "rb_fill rb = length u" "length u \<le> M"
      "rb_contents rb = map Some u"
    by (rule gathering_length [OF assms(3)]) (simp add: bytes_of_def)
  have same: "ctx\<lparr>px_rb := Some rb\<rparr> = ctx" using r(1) by (cases ctx) simp
  have i: "to_int32 (int (length u)) = int (length u)" using r(4) assms(4) by (intro to_int32_id) auto
  have size: "px_computedRingSize ctx = int (length u)" using assms(3) by (simp add: gathering_def bytes_of_def)
  show ?thesis
  proof (cases "u = []")
    case True
    then show ?thesis
      using r(1) assms(3) i by (simp add: processRing_def rb_used_eq [OF r(2)] r(3) handed_Nil same)
  next
    case False
    then have u: "16 \<le> length u" "pes_parsed alloc (px_skipDataExtraction ctx) u \<noteq> None" using assms(5) by auto
    define c where "c = (if int (length u) > px_largestRingFrame ctx then ctx\<lparr>px_largestRingFrame := int (length u)\<rparr> else ctx)"
    have c: "outlet c = outlet ctx" "intake c = intake ctx" by (simp_all add: c_def outlet_def intake_def)
    then have cb: "px_cb c" "px_skipDataExtraction c = px_skipDataExtraction ctx" using assms(2) by (simp_all add: outlet_def)
    have p: "mem_ok (process_bytes alloc c (rb_get_read_pos rb) u) (\<lambda>(_, ctx'). intake ctx' = intake c \<and> handed alloc c [u] ctx')"
      by (rule process_bytes_ok [OF assms(1)]) (use cb u(2) in simp_all)
    have "processRing alloc ctx = process_bytes alloc c (rb_get_read_pos rb) u"
    proof -
      have k: "rb_peek alloc rb (length u) = Some (map Some u, rb)" using False rb_peek_all [OF r(2), of alloc] r(3,5) by simp
      have g: "alloc n" for n using assms(1) by (simp add: granted_def)
      have z: "int (length u) \<noteq> 0" "\<not> int (length u) < 16" using u(1) False by simp_all
      show ?thesis
        unfolding processRing_def r(1) rb_used_eq [OF r(2)] r(3) bind.bind_lunit prod.case i Let_def same size nat_int k
          length_map those_map_Some by (simp only: z g c_def not_True_eq_False refl if_False if_True)
    qed
    then show ?thesis
      using p
    proof (elim mem_okE, clarify)
      fix k c' assume r: "processRing alloc ctx = process_bytes alloc c (rb_get_read_pos rb) u"
        "process_bytes alloc c (rb_get_read_pos rb) u = Some (k, c')" and i: "intake c' = intake c" and h: "handed alloc c [u] c'"
      have "gathering M (Some u) c'" "context_of c' = context_of ctx" using intake_frame [of c' ctx] i c(2) assms(3) by auto
      then show ?thesis using r handed_outlet [OF h c(1) [symmetric] refl] False by simp
    qed
  qed
qed

lemma begin_pes_ok:
  assumes "granted alloc" "px_cb ctx" "gathering M (Some u) ctx" "M < 2 ^ 31" "RING_STEP \<le> M"
    and "u \<noteq> [] \<Longrightarrow> 16 \<le> length u \<and> pes_parsed alloc (px_skipDataExtraction ctx) u \<noteq> None"
    and "payload_offset pkt \<le> 188" "188 \<le> length pkt" "px_libstats ctx = Some s"
  shows "mem_ok (begin_pes alloc now ctx pkt) (\<lambda>ctx'. gathering M (Some (px_payload pkt)) ctx'
    \<and> context_of ctx' = context_of ctx \<and> handed alloc ctx (if u = [] then [] else [u]) ctx')"
proof -
  let ?us = "if u = [] then [] else [u]"
  obtain r c1 where 1: "processRing alloc ctx = Some (r, c1)" and g1: "gathering M (Some u) c1"
      and x1: "context_of c1 = context_of ctx" and h1: "handed alloc ctx ?us c1"
    using processRing_ok [OF assms(1-4,6)] by (auto elim!: mem_okE)
  have "c1\<lparr>px_appending := True\<rparr> = c1" using g1 by (simp add: gathering_def)
  then obtain c2 where 2: "empty_ring c1 = Some c2" and g2: "gathering M (Some []) c2"
      and x2: "context_of c2 = context_of ctx" and o2: "outlet c2 = outlet c1"
    using empty_ring_ok [OF g1, of True] x1 by (auto elim!: mem_okE)
  obtain rb where rb: "px_rb c2 = Some rb" "rb_inv rb" by (rule gathering_length [OF g2])
  obtain pos where pos: "rb_get_write_pos rb = Some pos" using rb(2) by (auto simp: rb_get_write_pos_def rb_inv_def)
  let ?c3 = "c2\<lparr>px_pcrList := \<lparr>pcr_value = stc (bc_ctx s), ringPos = pos, updateTime = now\<rparr> # butlast (px_pcrList c2)\<rparr>"
  have g3: "gathering M (Some []) ?c3" and x3: "context_of ?c3 = context_of ctx" and o3: "outlet ?c3 = outlet c1"
    using g2 x2 o2 by (simp_all add: gathering_def context_of_def outlet_def)
  have l: "px_libstats c2 = Some s" using x2 assms(9) by (simp add: context_of_def)
  obtain c4 where 4: "write_payload alloc ?c3 pkt = Some (False, c4)" and g4: "gathering M (Some (px_payload pkt)) c4"
      and x4: "context_of c4 = context_of ctx" and o4: "outlet c4 = outlet c1"
    using write_payload_ok [OF assms(1) g3 assms(7,8)] assms(5) x3 o3 by (auto elim!: mem_okE)
  have "begin_pes alloc now ctx pkt = Some c4"
    using g2 by (simp add: begin_pes_def 1 2 l rb(1) pos updatePcrList_def 4 gathering_def
        ltntstools_bitrate_calculator_query_stc_def bc_query_def)
  then show ?thesis using g4 x4 handed_outlet [OF h1 refl o4] by simp
qed

text \<open>One packet of the PID, after the error check.\<close>

lemma gather_packet_ok:
  assumes "granted alloc" "px_cb ctx" "gathering M acc ctx" "M < 2 ^ 31" "RING_STEP \<le> M" "188 \<le> length pkt"
    and "px_libstats ctx = Some s" "spec_gather M pkt acc = Some (acc', us)"
    and "\<forall>u \<in> set us. pes_parsed alloc (px_skipDataExtraction ctx) u \<noteq> None"
  shows "mem_ok (gather_packet alloc now pkt ctx)
     (\<lambda>ctx'. gathering M acc' ctx' \<and> context_of ctx' = context_of ctx \<and> handed alloc ctx us ctx')"
proof (cases "ltntstools_adaption_field_control pkt = 2")
  case True
  then show ?thesis using assms(3,8) by (simp add: gather_packet_def spec_gather_def handed_Nil)
next
  case af: False
  have app: "px_appending ctx \<longleftrightarrow> acc \<noteq> None" using assms(3) by (simp add: gathering_def)
  show ?thesis
  proof (cases "ltntstools_payload_unit_start_indicator pkt")
    case True
    have off: "payload_offset pkt \<le> 188" using assms(8) af True by (auto simp: spec_gather_def split: if_splits)
    show ?thesis
    proof (cases acc)
      case None
      then have s: "acc' = Some (px_payload pkt)" "us = []" using assms(8) af True off by (auto simp: spec_gather_def)
      obtain c1 where 1: "empty_ring (ctx\<lparr>px_appending := True\<rparr>) = Some c1" and g1: "gathering M (Some []) c1"
          and x1: "context_of c1 = context_of ctx" and o1: "outlet c1 = outlet ctx"
        using empty_ring_ok [OF assms(3), of True] by (auto elim!: mem_okE)
      have p: "px_cb c1" "px_libstats c1 = Some s" using x1 o1 assms(2,7) by (simp_all add: context_of_def outlet_def)
      show ?thesis
        using begin_pes_ok [OF assms(1) p(1) g1 assms(4,5) _ off assms(6) p(2), of now] True af app None s 1 x1
          handed_outlet [OF _ o1 [symmetric] refl] by (auto elim!: mem_ok_mono simp: gather_packet_def)
    next
      case (Some u)
      then have s: "acc' = Some (px_payload pkt)" "us = (if u = [] then [] else [u])" "u \<noteq> [] \<Longrightarrow> 16 \<le> length u"
        using assms(8) af True off by (auto simp: spec_gather_def split: if_splits)
      show ?thesis
        using begin_pes_ok [OF assms(1,2) assms(3) [unfolded Some] assms(4,5) _ off assms(6,7), of now] True af app Some s assms(9)
        by (auto simp: gather_packet_def)
    qed
  next
    case False
    show ?thesis
    proof (cases acc)
      case None
      then show ?thesis using assms(3,8) af False app by (simp add: gather_packet_def spec_gather_def handed_Nil)
    next
      case (Some u)
      then have s: "acc' = Some (u @ px_payload pkt)" "us = []" "payload_offset pkt \<le> 188" "length u + RING_STEP \<le> M"
        using assms(8) af False by (auto simp: spec_gather_def split: if_splits)
      show ?thesis
        using write_payload_ok [OF assms(1) assms(3) [unfolded Some] s(3) assms(6) s(4)] af False app Some s
        by (auto elim!: mem_ok_mono simp: gather_packet_def handed_Nil mem_ok_bind)
    qed
  qed
qed

lemma notified_frame [simp]:
  "outlet (notified pids ctx e) = outlet ctx" "intake (notified pids ctx e) = intake ctx"
  by (auto simp: notified_def notification_callback_def outlet_def intake_def split: prod.splits option.splits)

lemma foldl_notified_frame:
  "outlet (foldl (notified pids) ctx es) = outlet ctx" "intake (foldl (notified pids) ctx es) = intake ctx"
  by (induction es arbitrary: ctx) simp_all

lemma update_stats_ok:
  assumes "granted alloc" "in_window t0 now ts" "px_libstats ctx = Some s" "watched t0 hs s" "188 \<le> length pkt"
  obtains ctx' s' where "update_stats alloc now ts ctx pkt = Some ctx'" "watched t0 (hs @ [take 188 pkt]) s'"
    "outlet ctx' = outlet ctx" "intake ctx' = intake (ctx\<lparr>px_libstats := Some s'\<rparr>)"
proof -
  obtain s' where u: "ltntstools_pid_stats_update alloc now ts s (Some pkt) 1 = Some s'" "watched t0 (hs @ [take 188 pkt]) s'"
    using watched_update [OF assms(1,2,4,5)] by (rule mem_okE)
  show thesis
  proof (rule that [OF _ u(2)])
    let ?c = "foldl (notified (internal_pids s')) (ctx\<lparr>px_libstats := Some s'\<rparr>) (drop (length (fired s)) (fired s'))"
    show "update_stats alloc now ts ctx pkt = Some ?c" by (simp add: update_stats_def assms(3) u(1) del: One_nat_def)
    show "outlet ?c = outlet ctx" by (simp add: foldl_notified_frame) (simp add: outlet_def)
  qed (simp add: foldl_notified_frame)
qed

lemma check_cc_ok:
  assumes "gathering M acc ctx"
  defines "e \<equiv> ltntstools_pid_stats_stream_get_cc_errors (px_libstats ctx)"
  shows "mem_ok (check_cc ctx) (\<lambda>ctx'. gathering M (if e \<noteq> px_lastCCCounter ctx then None else acc) ctx'
    \<and> context_of ctx' = (px_pid ctx, e, px_libstats ctx, px_preventWrites ctx) \<and> outlet ctx' = outlet ctx)"
proof (cases "e = px_lastCCCounter ctx")
  case True
  then show ?thesis
    using assms(1) by (simp add: check_cc_def e_def [symmetric] gathering_def context_of_def outlet_def)
next
  case False
  obtain c where "empty_ring (ctx\<lparr>px_appending := False\<rparr>) = Some c" "gathering M None c"
      "context_of c = context_of ctx" "outlet c = outlet ctx"
    using empty_ring_ok [OF assms(1), of False] by (auto elim!: mem_okE)
  with False show ?thesis
    by (simp add: check_cc_def e_def [symmetric] gathering_def context_of_def outlet_def)
qed

text \<open>Only the first 188 bytes count.\<close>

lemma payload_take [simp]:
  "payload_offset (take 188 pkt) = payload_offset pkt" "px_payload (take 188 pkt) = px_payload pkt"
  "ltntstools_payload_unit_start_indicator (take 188 pkt) = ltntstools_payload_unit_start_indicator pkt"
  by (simp_all add: payload_offset_def px_payload_def pkt_defs drop_take)

lemma spec_take [simp]:
  "spec_gather M (take 188 pkt) = spec_gather M pkt" "spec_packet M pid e (take 188 pkt) = spec_packet M pid e pkt"
proof -
  show g: "spec_gather M (take 188 pkt) = spec_gather M pkt" by (simp add: fun_eq_iff spec_gather_def cong: option.case_cong if_cong)
  show "spec_packet M pid e (take 188 pkt) = spec_packet M pid e pkt" by (simp only: spec_packet_def g header_take)
qed

text \<open>The extractor \<open>ctx\<close>, which began as \<open>ctx0\<close>, is where the abstract one is after the packets \<open>hs\<close>.\<close>

definition extracting :: "allocator \<Rightarrow> int \<Rightarrow> nat \<Rightarrow> u16 \<Rightarrow> pes_extractor_s \<Rightarrow> bytes list \<Rightarrow> px_spec \<Rightarrow> pes_extractor_s \<Rightarrow> bool" where
  "extracting alloc t0 M pid ctx0 hs = (\<lambda>(acc, prev, out) ctx.
     gathering M acc ctx \<and> handed alloc ctx0 out ctx
     \<and> (\<exists>s. context_of ctx = (pid, prev, Some s, False) \<and> watched t0 hs s))"

lemma handed_settings:
  assumes "handed alloc ctx0 us ctx"
  shows "px_cb ctx = px_cb ctx0" "px_skipDataExtraction ctx = px_skipDataExtraction ctx0"
    "px_orderedOutput ctx = px_orderedOutput ctx0"
proof -
  have d: "px_cb (deliver c p) = px_cb c \<and> px_skipDataExtraction (deliver c p) = px_skipDataExtraction c
      \<and> px_orderedOutput (deliver c p) = px_orderedOutput c" for c p
    by (cases c rule: deliver_cases) (auto simp: deliver_def Let_def split: option.splits)
  have "px_cb (foldl deliver c ds) = px_cb c \<and> px_skipDataExtraction (foldl deliver c ds) = px_skipDataExtraction c
      \<and> px_orderedOutput (foldl deliver c ds) = px_orderedOutput c" for c ds
    by (induction ds arbitrary: c) (simp_all add: d)
  then show "px_cb ctx = px_cb ctx0" "px_skipDataExtraction ctx = px_skipDataExtraction ctx0"
      "px_orderedOutput ctx = px_orderedOutput ctx0"
    using assms by (auto simp: handed_def outlet_def)
qed

lemma write_packet_ok:
  assumes "granted alloc" "in_window t0 now ts" "px_cb ctx0" "M < 2 ^ 31" "RING_STEP \<le> M" "188 \<le> length pkt"
    and "extracting alloc t0 M pid ctx0 hs st ctx"
    and "spec_packet M pid (stream_errors (hs @ [take 188 pkt])) pkt st = Some (acc', prev', out')"
    and "\<forall>u \<in> set out'. pes_parsed alloc (px_skipDataExtraction ctx0) u \<noteq> None"
  shows "mem_ok (write_packet alloc now ts pkt ctx) (extracting alloc t0 M pid ctx0 (hs @ [take 188 pkt]) (acc', prev', out'))"
proof -
  let ?hs = "hs @ [take 188 pkt]"
  obtain acc prev out where st: "st = (acc, prev, out)" by (metis prod_cases3)
  obtain s where g: "gathering M acc ctx" and h: "handed alloc ctx0 out ctx"
      and x: "context_of ctx = (pid, prev, Some s, False)" and cs: "watched t0 hs s"
    using assms(7) by (auto simp: extracting_def st)
  have "px_libstats ctx = Some s" using x by (simp add: context_of_def)
  then obtain c1 s1 where 1: "update_stats alloc now ts ctx pkt = Some c1" and cs1: "watched t0 ?hs s1"
      and o1: "outlet c1 = outlet ctx" and i1: "intake c1 = intake (ctx\<lparr>px_libstats := Some s1\<rparr>)"
    by (rule update_stats_ok [OF assms(1,2) _ cs assms(6)])
  have g1: "gathering M acc c1" and x1: "context_of c1 = (pid, prev, Some s1, False)"
    using intake_frame [OF i1] g x by (auto simp: gathering_def context_of_def)
  have h1: "handed alloc ctx0 out c1" using handed_outlet [OF h refl o1] .
  have f1: "px_pid c1 = pid" "px_lastCCCounter c1 = prev" "px_libstats c1 = Some s1" "\<not> px_preventWrites c1"
    using x1 by (simp_all add: context_of_def)
  have n: "need 4 pkt = Some ()" using assms(6) by simp
  show ?thesis
  proof (cases "ltntstools_pid pkt = pid")
    case False
    then have "acc' = acc \<and> prev' = prev \<and> out' = out" using assms(8) by (simp add: spec_packet_def st)
    then show ?thesis using False 1 n f1(1) g1 x1 h1 cs1 by (simp add: write_packet_def extracting_def)
  next
    case True
    let ?e = "stream_errors ?hs"
    obtain us where sp: "spec_gather M pkt (if ?e \<noteq> prev then None else acc) = Some (acc', us)" "prev' = ?e" "out' = out @ us"
      using assms(8) True by (auto simp: spec_packet_def st bind_eq_Some_conv)
    obtain c2 where 2: "check_cc c1 = Some c2" and g2: "gathering M (if ?e \<noteq> prev then None else acc) c2"
        and x2: "context_of c2 = (pid, ?e, Some s1, False)" and o2: "outlet c2 = outlet c1"
      using check_cc_ok [OF g1, unfolded f1(1-3) watched_errors [OF cs1]] f1(4) by (auto elim!: mem_okE)
    have h2: "handed alloc ctx0 out c2" using handed_outlet [OF h1 refl o2] .
    have f2: "px_cb c2" "px_libstats c2 = Some s1" using handed_settings [OF h2] x2 assms(3) by (simp_all add: context_of_def)
    have p: "\<forall>u \<in> set us. pes_parsed alloc (px_skipDataExtraction c2) u \<noteq> None"
      using assms(9) sp(3) handed_settings [OF h2] by simp
    from gather_packet_ok [OF assms(1) f2(1) g2 assms(4-6) f2(2) sp(1) p, of now]
    show ?thesis
      using True 1 n f1(1) 2 x2 cs1 handed_trans [OF h2] sp(2,3)
      by (simp add: write_packet_def extracting_def) (auto elim!: mem_ok_mono)
  qed
qed

lemma spec_packet_out: "spec_packet M pid e pkt (acc, prev, out) = Some (acc', prev', out') \<Longrightarrow> \<exists>us. out' = out @ us"
  by (auto simp: spec_packet_def bind_eq_Some_conv split: if_splits)

lemma spec_run_out: "spec_run M pid hs ps (acc, prev, out) = Some (acc', prev', out') \<Longrightarrow> \<exists>us. out' = out @ us"
proof (induction ps arbitrary: hs acc prev out)
  case (Cons p ps)
  then obtain a l o1 where "spec_packet M pid (stream_errors (hs @ [p])) p (acc, prev, out) = Some (a, l, o1)"
      and r: "spec_run M pid (hs @ [p]) ps (a, l, o1) = Some (acc', prev', out')"
    by (auto simp: bind_eq_Some_conv)
  then show ?case using spec_packet_out Cons.IH [OF r] by fastforce
qed simp

lemma spec_run_append:
  "spec_run M pid hs (ps @ qs) st = do { st \<leftarrow> spec_run M pid hs ps st; spec_run M pid (hs @ ps) qs st }"
proof (induction ps arbitrary: hs st)
  case (Cons p ps)
  show ?case by (cases "spec_packet M pid (stream_errors (hs @ [p])) p st") (simp_all add: Cons.IH)
qed simp

lemma write_packets_ok:
  assumes "granted alloc" "in_window t0 now ts" "px_cb ctx0" "M < 2 ^ 31" "RING_STEP \<le> M"
  shows "extracting alloc t0 M pid ctx0 hs st ctx \<Longrightarrow> \<forall>q \<in> set qs. 188 \<le> length q
    \<Longrightarrow> spec_run M pid hs (map (take 188) qs) st = Some (acc', prev', out')
    \<Longrightarrow> \<forall>u \<in> set out'. pes_parsed alloc (px_skipDataExtraction ctx0) u \<noteq> None
    \<Longrightarrow> mem_ok (mem_fold (write_packet alloc now ts) qs ctx)
          (extracting alloc t0 M pid ctx0 (hs @ map (take 188) qs) (acc', prev', out'))"
proof (induction qs arbitrary: hs st ctx)
  case (Cons q qs)
  obtain a l o1 where 1: "spec_packet M pid (stream_errors (hs @ [take 188 q])) q st = Some (a, l, o1)"
      and r: "spec_run M pid (hs @ [take 188 q]) (map (take 188) qs) (a, l, o1) = Some (acc', prev', out')"
    using Cons.prems(3) by (auto simp: bind_eq_Some_conv)
  have "\<forall>u \<in> set o1. pes_parsed alloc (px_skipDataExtraction ctx0) u \<noteq> None"
    using spec_run_out [OF r] Cons.prems(4) by auto
  from write_packet_ok [OF assms _ Cons.prems(1) 1 this]
  obtain c where "write_packet alloc now ts q ctx = Some c"
      and e: "extracting alloc t0 M pid ctx0 (hs @ [take 188 q]) (a, l, o1) c"
    using Cons.prems(2) by (auto elim!: mem_okE)
  then show ?case using Cons.IH [OF e _ r Cons.prems(4)] Cons.prems(2) by simp
qed simp

text \<open>A session: write calls with their times, and the packets they hold.\<close>

type_synonym write_call = "int \<times> timeval \<times> bytes \<times> nat"

fun extractor_run :: "allocator \<Rightarrow> pes_extractor_s \<Rightarrow> write_call list \<Rightarrow> pes_extractor_s mem" where
  "extractor_run alloc ctx [] = Some ctx"
| "extractor_run alloc ctx ((now, ts, buf, n) # calls) =
     do { (_, ctx) \<leftarrow> ltntstools_pes_extractor_write alloc now ts ctx buf n; extractor_run alloc ctx calls }"

definition packets_of :: "write_call list \<Rightarrow> bytes list" where
  "packets_of calls = concat (map (\<lambda>(now, ts, buf, n). packets_in buf n) calls)"

definition whole_calls :: "int \<Rightarrow> write_call list \<Rightarrow> bool" where
  "whole_calls t0 calls \<longleftrightarrow> (\<forall>(now, ts, buf, n) \<in> set calls. in_window t0 now ts \<and> 188 * n \<le> length buf)"

lemma extractor_run_ok:
  assumes "granted alloc" "px_cb ctx0" "M < 2 ^ 31" "RING_STEP \<le> M"
  shows "extracting alloc t0 M pid ctx0 hs st ctx \<Longrightarrow> whole_calls t0 calls
    \<Longrightarrow> spec_run M pid hs (packets_of calls) st = Some (acc', prev', out')
    \<Longrightarrow> \<forall>u \<in> set out'. pes_parsed alloc (px_skipDataExtraction ctx0) u \<noteq> None
    \<Longrightarrow> mem_ok (extractor_run alloc ctx calls) (extracting alloc t0 M pid ctx0 (hs @ packets_of calls) (acc', prev', out'))"
proof (induction calls arbitrary: hs st ctx)
  case (Cons c calls)
  obtain now ts buf n where c: "c = (now, ts, buf, n)" by (metis prod_cases4)
  have w: "in_window t0 now ts" "188 * n \<le> length buf" "whole_calls t0 calls" using Cons.prems(2) by (auto simp: whole_calls_def c)
  let ?p = "packets_in buf n"
  obtain a l o1 where 1: "spec_run M pid hs ?p st = Some (a, l, o1)"
      and r: "spec_run M pid (hs @ ?p) (packets_of calls) (a, l, o1) = Some (acc', prev', out')"
    using Cons.prems(3) by (auto simp: packets_of_def c spec_run_append bind_eq_Some_conv)
  have o: "\<forall>u \<in> set o1. pes_parsed alloc (px_skipDataExtraction ctx0) u \<noteq> None"
    using spec_run_out [OF r] Cons.prems(4) by auto
  have l: "\<forall>q \<in> set (packets_at buf n). 188 \<le> length q" using w(2) by (auto simp: packets_at_def)
  obtain d where "mem_fold (write_packet alloc now ts) (packets_at buf n) ctx = Some d"
      and e: "extracting alloc t0 M pid ctx0 (hs @ ?p) (a, l, o1) d"
    using write_packets_ok [OF assms(1) w(1) assms(2-4) Cons.prems(1) l _ o] 1 by (auto simp: packets_in_def elim!: mem_okE)
  moreover have "\<not> px_preventWrites ctx"
    using Cons.prems(1) by (cases st) (auto simp: extracting_def context_of_def)
  ultimately have "ltntstools_pes_extractor_write alloc now ts ctx buf n = Some (n, d)"
    by (simp add: ltntstools_pes_extractor_write_def)
  then show ?case using Cons.IH [OF e w(3) r Cons.prems(4)] by (simp add: c packets_of_def)
qed (simp add: packets_of_def)

lemma extractor_start:
  assumes "granted alloc" "ltntstools_pes_extractor_alloc alloc now ts pid sid True bmin bmax = Some ctx"
    and "px_rb ctx = Some rb" "rb_size_max rb < 2 ^ 31"
    and "outlet ctx' = outlet (ctx\<lparr>px_orderedOutput := ord, px_skipDataExtraction := sk\<rparr>)" "intake ctx' = intake ctx"
  shows "extracting alloc t0 (rb_size_max rb) pid ctx' [] (None, 0, []) ctx'"
    "px_cb ctx'" "px_skipDataExtraction ctx' = sk" "px_orderedOutput ctx' = ord"
proof -
  have a: "alloc n" for n using assms(1) by (simp add: granted_def)
  obtain s where s: "ltntstools_pid_stats_alloc alloc ts = Some s" using alloc_granted [OF assms(1)] by blast
  let ?n = "s\<lparr>notifications := (notifications s)(1 \<mapsto> (0, 0))\<rparr>"
  have "watched t0 [] s" by (rule watched_start [OF s])
  then have w: "watched t0 [] ?n"
    by (simp add: watched_def calm_def tally_def counts_def cc_total_def pids_inv_def)
  have l: "px_libstats ctx = Some ?n"
    using assms(2) s
    by (auto simp: ltntstools_pes_extractor_alloc_def a Let_def ltntstools_notification_register_callback_def EVENT_NOTIFICATION_MAX_def)
  have f: "context_of ctx = (pid, 0, px_libstats ctx, False)" "px_computedRingSize ctx = 0" "\<not> px_appending ctx"
    "px_pcrList ctx \<noteq> []" "px_cb ctx"
    using assms(2) a by (auto simp: ltntstools_pes_extractor_alloc_def Let_def context_of_def MAX_PCR_ITEMS_def)
  have r: "\<exists>n m. px_rb ctx = rb_new alloc n m"
    using assms(2) a by (simp add: ltntstools_pes_extractor_alloc_def Let_def split del: if_split) (auto intro!: exI)
  have "rb_inv rb \<and> rb_head rb = 0 \<and> rb_contents rb = []"
    using r assms(3,4) a by (auto simp: rb_new_def rb_inv_def rb_contents_def SZ_LIM_def split: if_splits)
  then have "gathering (rb_size_max rb) None ctx" using f assms(3) by (simp add: gathering_def bytes_of_def)
  then show "extracting alloc t0 (rb_size_max rb) pid ctx' [] (None, 0, []) ctx'"
    using intake_frame [OF assms(6)] f(1) l w by (simp add: extracting_def handed_Nil)
  show "px_cb ctx'" "px_skipDataExtraction ctx' = sk" "px_orderedOutput ctx' = ord"
    using assms(5) f(5) by (simp_all add: outlet_def)
qed

subsection \<open>Packets in the order of their time\<close>

text \<open>A window of cached packets with their times: in ascending order, then the unused items.\<close>

definition timed_item :: "int \<times> ltn_pes_packet \<Rightarrow> item_s" where
  "timed_item x = \<lparr>correctedPTS = fst x, item_pes = Some (snd x)\<rparr>"

lemma timed_item_simps [simp]: "correctedPTS (timed_item x) = fst x" "item_pes (timed_item x) = Some (snd x)"
  by (simp_all add: timed_item_def)

definition window :: "(int \<times> ltn_pes_packet) list \<Rightarrow> nat \<Rightarrow> item_s list" where
  "window w k = map timed_item w @ replicate k \<lparr>correctedPTS = 0, item_pes = None\<rparr>"

fun late_insert :: "int \<times> 'a \<Rightarrow> (int \<times> 'a) list \<Rightarrow> (int \<times> 'a) list" where
  "late_insert x [] = [x]"
| "late_insert x (y # ys) = (if fst x < fst y then x # y # ys else y # late_insert x ys)"

lemma late_insert_props:
  "mset (late_insert x w) = add_mset x (mset w)" "length (late_insert x w) = Suc (length w)"
  "set (late_insert x w) = insert x (set w)"
  "sorted (map fst w) \<Longrightarrow> sorted (map fst (late_insert x w))"
proof -
  show "mset (late_insert x w) = add_mset x (mset w)" "length (late_insert x w) = Suc (length w)"
    and s: "set (late_insert x w) = insert x (set w)" for w by (induction w) auto
  show "sorted (map fst w) \<Longrightarrow> sorted (map fst (late_insert x w))"
    by (induction w) (auto simp: s)
qed

lemma find_oldest_keep:
  "\<forall>z \<in> set zs. correctedPTS y \<le> correctedPTS z \<Longrightarrow> find_oldest_loop i zs (Some (j, y)) = Some (j, y)"
  by (induction zs arbitrary: i) auto

lemma find_oldest_first:
  assumes "\<forall>z \<in> set zs. correctedPTS y \<le> correctedPTS z"
  shows "\<forall>x \<in> set xs. correctedPTS y < correctedPTS x
    \<Longrightarrow> (case best of None \<Rightarrow> True | Some (j, q) \<Rightarrow> correctedPTS y < correctedPTS q)
    \<Longrightarrow> find_oldest_loop i (xs @ y # zs) best = Some (i + length xs, y)"
proof (induction xs arbitrary: i best)
  case Nil
  then show ?case using find_oldest_keep [OF assms] by (auto split: option.splits)
next
  case (Cons x xs)
  have "case (case best of None \<Rightarrow> Some (i, x) | Some (j, q) \<Rightarrow> if correctedPTS x < correctedPTS q then Some (i, x) else Some (j, q))
      of None \<Rightarrow> True | Some (j, q) \<Rightarrow> correctedPTS y < correctedPTS q"
    using Cons.prems by (auto split: option.splits)
  from Cons.IH [OF _ this, of "Suc i"] show ?case using Cons.prems(1) by simp
qed

lemma list_find_oldest_first:
  assumes "\<forall>x \<in> set xs. correctedPTS y < correctedPTS x" "\<forall>z \<in> set zs. correctedPTS y \<le> correctedPTS z"
  shows "list_find_oldest (xs @ y # zs) = Some (length xs, y)"
  using find_oldest_first [OF assms(2,1), of None 0] by (simp add: list_find_oldest_def)

lemma window_oldest:
  assumes "\<forall>x \<in> set w. 0 < fst x"
  shows "list_find_oldest (window w (Suc k)) = Some (length w, \<lparr>correctedPTS = 0, item_pes = None\<rparr>)"
    "list_del (length w) (window w (Suc k)) = window w k"
proof -
  show "list_find_oldest (window w (Suc k)) = Some (length w, \<lparr>correctedPTS = 0, item_pes = None\<rparr>)"
    using list_find_oldest_first [of "map timed_item w" "\<lparr>correctedPTS = 0, item_pes = None\<rparr>"
        "replicate k \<lparr>correctedPTS = 0, item_pes = None\<rparr>"] assms
    by (simp add: window_def)
qed (simp add: window_def list_del_def)

lemma window_full:
  assumes "sorted (map fst (x # w))"
  shows "list_find_oldest (window (x # w) 0) = Some (0, timed_item x)" "list_del 0 (window (x # w) 0) = window w 0"
proof -
  show "list_find_oldest (window (x # w) 0) = Some (0, timed_item x)"
    using list_find_oldest_first [of "[]" "timed_item x" "map timed_item w"] assms
    by (simp add: window_def)
qed (simp add: window_def list_del_def)

lemma window_insert:
  "0 \<le> t \<Longrightarrow> list_insert \<lparr>correctedPTS = t, item_pes = Some p\<rparr> (window w k) = window (late_insert (t, p) w) k"
proof (induction w)
  case Nil
  then show ?case by (cases k) (simp_all add: window_def timed_item_def)
next
  case (Cons x w)
  then show ?case by (simp add: window_def)
qed

lemma flush_window:
  assumes "\<forall>x \<in> set w. 0 < fst x" "sorted (map fst w)"
  shows "flush_loop True (window w k) = Some (map snd w)"
proof (induction k)
  case 0
  show ?case using assms(2)
  proof (induction w)
    case Nil
    then show ?case by (simp add: flush_loop.simps window_def list_find_oldest_def)
  next
    case (Cons x w)
    then have "flush_loop True (window w 0) = Some (map snd w)" by simp
    then show ?case
      by (subst flush_loop.simps) (simp add: window_full [OF Cons.prems])
  qed
next
  case (Suc k)
  then show ?case by (subst flush_loop.simps) (simp add: window_oldest [OF assms(1)])
qed

text \<open>The effect of one delivery on the times: what was handed out so far and what waits.\<close>

definition window_step :: "'a \<Rightarrow> int \<Rightarrow> (int \<times> 'a) list \<times> (int \<times> 'a) list \<Rightarrow> (int \<times> 'a) list \<times> (int \<times> 'a) list" where
  "window_step p t = (\<lambda>(d, w).
     if length w < ORDERED_LIST_DEPTH then (d, late_insert (t, p) w) else (d @ [hd w], late_insert (t, p) (tl w)))"

text \<open>Where the clock of the window is: at its start, or at the time of the last packet.\<close>

definition clock_ready :: "int option \<Rightarrow> int \<Rightarrow> ltntstools_corrected_clock_s \<Rightarrow> bool" where
  "clock_ready now t clk \<longleftrightarrow> 0 < t \<and> t < 2 ^ 63 \<and>
     (case now of
        None \<Rightarrow> clk = fst (ltntstools_corrected_clock_init corrected_zero 90000) \<and> t < 2 ^ 33
      | Some t' \<Rightarrow> (\<exists>m. corrected_at t' m clk \<and> 0 \<le> m \<and> m < 2 ^ 63) \<and> - (2 ^ 32) \<le> t - t' \<and> t - t' < 2 ^ 32)"

lemma clock_ready_update:
  assumes "clock_ready now t clk"
  shows "\<exists>clk' m. fst (ltntstools_corrected_clock_update (Some clk) (t mod 2 ^ 33)) = Some clk' \<and> corrected_at t m clk'
    \<and> 0 \<le> m \<and> m < 2 ^ 63 \<and> sint (ltntstools_corrected_clock_unwrapped (Some clk')) = t"
proof -
  have "\<exists>clk' m. fst (ltntstools_corrected_clock_update (Some clk) (t mod 2 ^ 33)) = Some clk' \<and> corrected_at t m clk'
      \<and> 0 \<le> m \<and> m < 2 ^ 63"
  proof (cases now)
    case None
    then have "t < 2 ^ 33" "0 < t" "clk = fst (ltntstools_corrected_clock_init corrected_zero 90000)" "t < 2 ^ 63"
      using assms by (simp_all add: clock_ready_def)
    then show ?thesis using corrected_first_update [of t corrected_zero]
      by (metis fst_conv less_imp_le)
  next
    case (Some t')
    then obtain m where m: "corrected_at t' m clk" "0 \<le> m" "m < 2 ^ 63" and n: "- (2 ^ 32) \<le> t - t'" "t - t' < 2 ^ 32"
        "0 < t" "t < 2 ^ 63"
      using assms by (auto simp: clock_ready_def)
    obtain clk' where c: "ltntstools_corrected_clock_update (Some clk) (t mod 2 ^ 33) = (Some clk', 0)" "corrected_at t (max m t) clk'"
      using corrected_update_step [OF m(1) n(1,2) _ n(4) m(2,3)] n(3) by auto
    then show ?thesis using m n by (intro exI [of _ clk'] exI [of _ "max m t"]) auto
  qed
  then obtain clk' m where c: "fst (ltntstools_corrected_clock_update (Some clk) (t mod 2 ^ 33)) = Some clk'"
      "corrected_at t m clk'" "0 \<le> m" "m < 2 ^ 63" by blast
  have "sint (word_of_int t :: u64) = t"
    using assms by (simp add: clock_ready_def signed_of_int signed_take_bit_int_eq_self)
  then have "sint (ltntstools_corrected_clock_unwrapped (Some clk')) = t"
    using c(2) by (simp add: ltntstools_corrected_clock_unwrapped_def corrected_at_def)
  with c show ?thesis by blast
qed


lemma window_deliver:
  assumes "px_orderedOutput ctx" "px_listOrdered ctx = window w (ORDERED_LIST_DEPTH - length w)"
    and "px_delivered ctx = map snd d" "sorted (map fst w)" "\<forall>x \<in> set w. 0 < fst x" "length w \<le> ORDERED_LIST_DEPTH"
    and "clock_ready now t (px_correctedClock ctx)" "sint (pes_PTS p) = t mod 2 ^ 33"
  defines "d' \<equiv> fst (window_step p t (d, w))" and "w' \<equiv> snd (window_step p t (d, w))"
  shows "\<exists>clk. outlet (deliver ctx p) = (px_cb ctx, px_skipDataExtraction ctx, True,
      window w' (ORDERED_LIST_DEPTH - length w'), clk, map snd d') \<and> (\<exists>m. corrected_at t m clk \<and> 0 \<le> m \<and> m < 2 ^ 63)
    \<and> sorted (map fst w') \<and> (\<forall>x \<in> set w'. 0 < fst x) \<and> length w' \<le> ORDERED_LIST_DEPTH"
proof -
  obtain clk m where c: "fst (ltntstools_corrected_clock_update (Some (px_correctedClock ctx)) (t mod 2 ^ 33)) = Some clk"
      "corrected_at t m clk" "0 \<le> m" "m < 2 ^ 63" "sint (ltntstools_corrected_clock_unwrapped (Some clk)) = t"
    using clock_ready_update [OF assms(7)] by blast
  have t: "0 < t" using assms(7) by (simp add: clock_ready_def)
  show ?thesis
  proof (cases "length w < ORDERED_LIST_DEPTH")
    case True
    then obtain k where k: "ORDERED_LIST_DEPTH - length w = Suc k" "ORDERED_LIST_DEPTH - Suc (length w) = k"
      by (metis Suc_diff_Suc)
    have "list_find_oldest (px_listOrdered ctx) = Some (length w, \<lparr>correctedPTS = 0, item_pes = None\<rparr>)"
      using window_oldest(1) [OF assms(5)] k assms(2) by simp
    from deliver_frame(1) [OF assms(1) this, of p] show ?thesis
      using True c t k assms(2-6) late_insert_props [where x = "(t, p)" and w = w]
      by (auto simp: d'_def w'_def window_step_def assms(8) window_oldest(2) window_insert)
  next
    case False
    then obtain x w1 where w: "w = x # w1" "ORDERED_LIST_DEPTH - length w = 0" by (cases w) (auto simp: ORDERED_LIST_DEPTH_def)
    have s: "sorted (map fst (x # w1))" using assms(4) w by simp
    have "list_find_oldest (px_listOrdered ctx) = Some (0, timed_item x)" using window_full(1) [OF s] w assms(2) by simp
    from deliver_frame(1) [OF assms(1) this, of p] show ?thesis
      using False c t w assms(2-6) late_insert_props [where x = "(t, p)" and w = w1] window_full(2) [OF s]
      by (auto simp: d'_def w'_def window_step_def assms(8) window_insert)
  qed
qed

text \<open>
  The times of a sequence of packets: positive, each less than half the range of the time
  stamps from the one before, and the first within the range.
\<close>

definition timeline :: "int option \<Rightarrow> int list \<Rightarrow> bool" where
  "timeline now ts \<longleftrightarrow> (\<forall>t \<in> set ts. 0 < t) \<and>
     (case now of
        None \<Rightarrow> (case ts of [] \<Rightarrow> True | t # ts \<Rightarrow> t < 2 ^ 33 \<and> near t ts)
      | Some t \<Rightarrow> near t ts)"

definition window_run :: "(int \<times> 'a) list \<Rightarrow> (int \<times> 'a) list \<times> (int \<times> 'a) list \<Rightarrow> (int \<times> 'a) list \<times> (int \<times> 'a) list" where
  "window_run ps = fold (\<lambda>(t, p). window_step p t) ps"

lemma window_delivers:
  assumes "px_orderedOutput ctx" "px_listOrdered ctx = window w (ORDERED_LIST_DEPTH - length w)"
    and "px_delivered ctx = map snd d" "sorted (map fst w)" "\<forall>x \<in> set w. 0 < fst x" "length w \<le> ORDERED_LIST_DEPTH"
    and "timeline now (map fst ps)" "\<forall>(t, p) \<in> set ps. sint (pes_PTS p) = t mod 2 ^ 33"
    and "case now of None \<Rightarrow> px_correctedClock ctx = fst (ltntstools_corrected_clock_init corrected_zero 90000)
         | Some t \<Rightarrow> \<exists>m. corrected_at t m (px_correctedClock ctx) \<and> 0 \<le> m \<and> m < 2 ^ 63"
  defines "r \<equiv> window_run ps (d, w)"
  shows "px_listOrdered (foldl deliver ctx (map snd ps)) = window (snd r) (ORDERED_LIST_DEPTH - length (snd r))
    \<and> px_delivered (foldl deliver ctx (map snd ps)) = map snd (fst r)
    \<and> sorted (map fst (snd r)) \<and> (\<forall>x \<in> set (snd r). 0 < fst x) \<and> length (snd r) \<le> ORDERED_LIST_DEPTH"
  using assms(1-9) unfolding r_def
proof (induction ps arbitrary: ctx w d now)
  case (Cons q ps)
  obtain t p where q: "q = (t, p)" by fastforce
  have tl: "timeline (Some t) (map fst ps)" and r: "clock_ready now t (px_correctedClock ctx)" and s: "sint (pes_PTS p) = t mod 2 ^ 33"
    using Cons.prems(7-9) by (auto simp: timeline_def clock_ready_def q split: option.splits)
  obtain d1 w1 where dw: "window_step p t (d, w) = (d1, w1)" by fastforce
  obtain clk where o: "outlet (deliver ctx p) = (px_cb ctx, px_skipDataExtraction ctx, True,
        window w1 (ORDERED_LIST_DEPTH - length w1), clk, map snd d1)"
      and k: "\<exists>m. corrected_at t m clk \<and> 0 \<le> m \<and> m < 2 ^ 63"
      and w1: "sorted (map fst w1)" "\<forall>x \<in> set w1. 0 < fst x" "length w1 \<le> ORDERED_LIST_DEPTH"
    using window_deliver [OF Cons.prems(1-6) r s] by (auto simp: dw)
  have "px_orderedOutput (deliver ctx p)" "px_listOrdered (deliver ctx p) = window w1 (ORDERED_LIST_DEPTH - length w1)"
      "px_delivered (deliver ctx p) = map snd d1" "px_correctedClock (deliver ctx p) = clk"
    using o by (simp_all add: outlet_def)
  from Cons.IH [OF this(1-3) w1 tl] this(4) k Cons.prems(8) show ?case
    by (simp add: q window_run_def dw)
qed (simp add: window_run_def)

text \<open>No packet comes \<open>ORDERED_LIST_DEPTH\<close> or more places after one of a later time.\<close>

definition punctual :: "int list \<Rightarrow> bool" where
  "punctual ts \<longleftrightarrow> (\<forall>i j. j < length ts \<and> i + ORDERED_LIST_DEPTH \<le> j \<longrightarrow> ts ! i \<le> ts ! j)"

lemma punctual_append: "punctual (xs @ ys) \<Longrightarrow> punctual xs"
proof (unfold punctual_def, intro allI impI)
  fix i j assume p: "\<forall>i j. j < length (xs @ ys) \<and> i + ORDERED_LIST_DEPTH \<le> j \<longrightarrow> (xs @ ys) ! i \<le> (xs @ ys) ! j"
    and j: "j < length xs \<and> i + ORDERED_LIST_DEPTH \<le> j"
  then have "(xs @ ys) ! i \<le> (xs @ ys) ! j" "i < length xs" by auto
  then show "xs ! i \<le> xs ! j" using j by (simp add: nth_append)
qed

lemma punctual_snoc:
  assumes "punctual (ts @ [t])" "ORDERED_LIST_DEPTH \<le> length ts"
  shows "length (filter (\<lambda>s. t < s) ts) < ORDERED_LIST_DEPTH"
proof -
  let ?k = "Suc (length ts - ORDERED_LIST_DEPTH)"
  have "\<not> t < s" if s: "s \<in> set (take ?k ts)" for s
  proof -
    obtain i where i: "i < ?k" "i < length ts" "s = ts ! i" using s by (auto simp: in_set_conv_nth)
    then have "i + ORDERED_LIST_DEPTH \<le> length ts" using assms(2) by simp
    then have "(ts @ [t]) ! i \<le> (ts @ [t]) ! length ts" using assms(1) unfolding punctual_def by (metis length_append_singleton lessI)
    then show ?thesis using i by (simp add: nth_append)
  qed
  then have "filter (\<lambda>s. t < s) (take ?k ts) = []" by (simp add: filter_empty_conv)
  then have "filter (\<lambda>s. t < s) ts = filter (\<lambda>s. t < s) (drop ?k ts)"
    by (metis append_Nil append_take_drop_id filter_append)
  also have "length \<dots> \<le> length ts - ?k" using length_filter_le [of _ "drop ?k ts"] by simp
  also have "\<dots> < ORDERED_LIST_DEPTH" using assms(2) by (simp add: ORDERED_LIST_DEPTH_def)
  finally show ?thesis .
qed

lemma sorted_handout:
  assumes "sorted (map fst (d @ m # w))" "fst m \<le> fst x"
  shows "sorted (map fst ((d @ [m]) @ late_insert x w))"
proof -
  have "\<forall>y \<in> set (d @ [m]). fst y \<le> fst m" using assms(1) by (auto simp: sorted_append)
  then have "\<forall>y \<in> set (d @ [m]). fst y \<le> fst x" using assms(2) by force
  then show ?thesis using assms(1) late_insert_props(3,4) [where x = x and w = w] by (auto simp: sorted_append)
qed

lemma window_run_order:
  assumes "punctual (map fst ps)"
  shows "sorted (map fst (fst (window_run ps ([], [])) @ snd (window_run ps ([], []))))
    \<and> mset (fst (window_run ps ([], [])) @ snd (window_run ps ([], []))) = mset ps
    \<and> length (fst (window_run ps ([], []))) = length ps - ORDERED_LIST_DEPTH"
  using assms
proof (induction ps rule: rev_induct)
  case (snoc x ps)
  obtain d w where r: "window_run ps ([], []) = (d, w)" by fastforce
  have "punctual (map fst ps)" using snoc.prems punctual_append by simp
  then have ih: "sorted (map fst (d @ w))" "mset (d @ w) = mset ps" "length d = length ps - ORDERED_LIST_DEPTH"
    using snoc.IH by (simp_all add: r)
  have "length d + length w = length ps" using ih(2) by (metis length_append size_mset)
  then have lw: "length w = (if length ps < ORDERED_LIST_DEPTH then length ps else ORDERED_LIST_DEPTH)"
    using ih(3) by auto
  have st: "window_run (ps @ [x]) ([], []) = window_step (snd x) (fst x) (d, w)"
    using r by (simp add: window_run_def split: prod.splits)
  show ?case
  proof (cases "length ps < ORDERED_LIST_DEPTH")
    case True
    then have "d = []" using ih(3) by simp
    then show ?thesis
      using True lw ih late_insert_props [where x = x and w = w] by (simp add: st window_step_def)
  next
    case False
    then obtain m w1 where w: "w = m # w1" using lw by (cases w) (auto simp: ORDERED_LIST_DEPTH_def)
    have "fst m \<le> fst x"
    proof (rule ccontr)
      assume "\<not> fst m \<le> fst x"
      then have "\<forall>y \<in> set w. fst x < fst y" using ih(1) w by (auto simp: sorted_append)
      then have "filter (\<lambda>y. fst x < fst y) w = w" by (simp add: filter_id_conv)
      then have "length w \<le> length (filter (\<lambda>y. fst x < fst y) (d @ w))" by simp
      also have "\<dots> = length (filter (\<lambda>y. fst x < fst y) ps)" using ih(2) by (metis mset_filter size_mset)
      also have "\<dots> = length (filter (\<lambda>s. fst x < s) (map fst ps))" by (simp add: filter_map comp_def)
      also have "\<dots> < ORDERED_LIST_DEPTH" using punctual_snoc [of "map fst ps" "fst x"] snoc.prems False by simp
      finally show False using lw False by simp
    qed
    then have "sorted (map fst ((d @ [m]) @ late_insert x w1))" using sorted_handout ih(1) w by blast
    moreover have "mset ((d @ [m]) @ late_insert x w1) = mset (ps @ [x])"
      using ih(2) w late_insert_props(1) [where x = x and w = w1] by (simp flip: ih(2))
    moreover have "length (d @ [m]) = length (ps @ [x]) - ORDERED_LIST_DEPTH" using ih(3) False by simp
    ultimately show ?thesis using False lw w by (simp add: st window_step_def)
  qed
qed (simp add: window_run_def)

subsection \<open>Properties\<close>

lemma deliver_unordered: "\<not> px_orderedOutput ctx \<Longrightarrow> px_delivered (foldl deliver ctx ds) = px_delivered ctx @ ds"
  by (induction ds arbitrary: ctx) (simp_all add: deliver_def)

lemma extractor_delivers:
  assumes "granted alloc" and "ltntstools_pes_extractor_alloc alloc now0 ts0 pid sid True bmin bmax = Some ctx0"
    and "px_rb ctx0 = Some rb" and "RING_STEP \<le> rb_size_max rb" and "rb_size_max rb < 2 ^ 31"
    and "whole_calls t0 calls"
    and "spec_run (rb_size_max rb) pid [] (packets_of calls) (None, 0, []) = Some (acc, errors, units)"
    and "\<forall>u \<in> set units. pes_parsed alloc skip u \<noteq> None"
  shows "\<exists>ctx. extractor_run alloc (fst (ltntstools_pes_extractor_set_skip_data ctx0 skip)) calls = Some ctx
    \<and> list_all2 received (parsed_units alloc skip units) (px_delivered ctx)"
proof -
  let ?c = "fst (ltntstools_pes_extractor_set_skip_data ctx0 skip)"
  have o: "outlet ?c = outlet (ctx0\<lparr>px_orderedOutput := False, px_skipDataExtraction := skip\<rparr>)" and i: "intake ?c = intake ctx0"
    and z: "px_delivered ?c = []"
    using assms(2) by (auto simp: ltntstools_pes_extractor_set_skip_data_def ltntstools_pes_extractor_alloc_def Let_def outlet_def
        intake_def split: if_splits)
  note st = extractor_start [OF assms(1-3,5) o i]
  obtain ctx where r: "extractor_run alloc ?c calls = Some ctx"
      and e: "extracting alloc t0 (rb_size_max rb) pid ?c ([] @ packets_of calls) (acc, errors, units) ctx"
    using extractor_run_ok [OF assms(1) st(2) assms(5,4) st(1) assms(6,7)] assms(8) st(3) by (auto elim!: mem_okE)
  then obtain ds where "outlet ctx = outlet (foldl deliver ?c ds)" "list_all2 received (parsed_units alloc skip units) ds"
    using st(3) by (auto simp: extracting_def handed_def)
  then show ?thesis using r z deliver_unordered [of ?c ds] st(4) by (auto simp: outlet_def)
qed


text \<open>
  C3: The extractor implements its specification on the streams that the specification covers: no
  unit of its PID is shorter than 16 bytes or larger than the ring has room for, no adaptation field
  is longer than 183 bytes (otherwise \<open>spec_run\<close> has no result), the parser stays inside every
  finished unit, memory is granted, and the calls are whole packets within 25 hours. Given such
  packets, of any PIDs and in calls of any size, a new extractor never leaves its buffers and its
  callback gets, in order, exactly the packets parsed from the finished units of its PID, each with
  the bytes of the unit: a unit is all the payload from one start indicator to the next, adaptation
  fields removed, and it is dropped when between two packets of the PID the stream had an error.
\<close>

theorem pes_extractor_refines:
  assumes "granted alloc" and "ltntstools_pes_extractor_alloc alloc now0 ts0 pid sid True bmin bmax = Some ctx0"
    and "px_rb ctx0 = Some rb" and "RING_STEP \<le> rb_size_max rb" and "rb_size_max rb < 2 ^ 31"
    and "whole_calls t0 calls"
    and "spec_run (rb_size_max rb) pid [] (packets_of calls) (None, 0, []) = Some (acc, errors, units)"
    and "\<forall>u \<in> set units. pes_parsed alloc skip u \<noteq> None"
  shows "\<exists>ctx. extractor_run alloc (fst (ltntstools_pes_extractor_set_skip_data ctx0 skip)) calls = Some ctx
    \<and> list_all2 received (parsed_units alloc skip units) (px_delivered ctx)"
  by (rule extractor_delivers [OF assms])

text \<open>
  C4: Ordered output is in the order of time. When the time stamps of the finished units follow a timeline,
  across any number of wraps of their 33 bits, and no packet comes 60 or more places after one
  of a later time, the callback gets every packet exactly once, in ascending order of the true
  time, when the extractor is freed at the end; until then all but the last 60 are delivered.
\<close>

theorem pes_extractor_orders:
  assumes "granted alloc" and "ltntstools_pes_extractor_alloc alloc now0 ts0 pid sid True bmin bmax = Some ctx0"
    and "px_rb ctx0 = Some rb" and "RING_STEP \<le> rb_size_max rb" and "rb_size_max rb < 2 ^ 31"
    and "whole_calls t0 calls"
    and "spec_run (rb_size_max rb) pid [] (packets_of calls) (None, 0, []) = Some (acc, errors, units)"
    and "\<forall>u \<in> set units. pes_parsed alloc False u \<noteq> None"
    and "map (\<lambda>(u, p). sint (pes_PTS p)) (parsed_units alloc False units) = map (\<lambda>t. t mod 2 ^ 33) line"
    and "timeline None line" and "punctual line"
  shows "\<exists>ctx out sent. extractor_run alloc (fst (ltntstools_pes_extractor_set_ordered_output ctx0 True)) calls = Some ctx
    \<and> ltntstools_pes_extractor_free ctx = Some (map snd out)
    \<and> list_all2 received (parsed_units alloc False units) sent \<and> mset out = mset (zip line sent)
    \<and> sorted (map fst out) \<and> px_delivered ctx = take (length line - ORDERED_LIST_DEPTH) (map snd out)"
proof -
  let ?c = "fst (ltntstools_pes_extractor_set_ordered_output ctx0 True)"
  have o: "outlet ?c = outlet (ctx0\<lparr>px_orderedOutput := True, px_skipDataExtraction := False\<rparr>)" and i: "intake ?c = intake ctx0"
    and z: "px_delivered ?c = map snd []" "px_correctedClock ?c = fst (ltntstools_corrected_clock_init corrected_zero 90000)"
      "px_listOrdered ?c = window [] (ORDERED_LIST_DEPTH - length [])"
    using assms(1,2) by (auto simp: ltntstools_pes_extractor_set_ordered_output_def ltntstools_pes_extractor_alloc_def Let_def
        outlet_def intake_def granted_def window_def split: if_splits)
  note st = extractor_start [OF assms(1-3,5) o i]
  obtain ctx where r: "extractor_run alloc ?c calls = Some ctx"
      and e: "extracting alloc t0 (rb_size_max rb) pid ?c ([] @ packets_of calls) (acc, errors, units) ctx"
    using extractor_run_ok [OF assms(1) st(2) assms(5,4) st(1) assms(6,7)] assms(8) st(3) by (auto elim!: mem_okE)
  then obtain ds where od: "outlet ctx = outlet (foldl deliver ?c ds)"
      and ds: "list_all2 received (parsed_units alloc False units) ds" and h: "handed alloc ?c units ctx"
    using st(3) by (auto simp: extracting_def handed_def)
  have len: "length ds = length line"
    using list_all2_lengthD [OF ds] arg_cong [OF assms(9), of length] by simp
  let ?ps = "zip line ds"
  have m: "map snd ?ps = ds" "map fst ?ps = line" using len by simp_all
  have pts: "\<forall>(t, p) \<in> set ?ps. sint (pes_PTS p) = t mod 2 ^ 33"
  proof -
    have "list_all2 (\<lambda>x d. (\<lambda>(u, p). sint (pes_PTS p)) x = sint (pes_PTS d)) (parsed_units alloc False units) ds"
      using ds by (rule list_all2_mono) (auto simp: received_def)
    then have "map (\<lambda>(u, p). sint (pes_PTS p)) (parsed_units alloc False units) = map (\<lambda>p. sint (pes_PTS p)) ds"
      by (simp add: list_all2_conv_all_nth list_eq_iff_nth_eq)
    then have "map (\<lambda>p. sint (pes_PTS p)) ds = map (\<lambda>t. t mod 2 ^ 33) line" using assms(9) by simp
    then show ?thesis using len by (auto simp: set_zip list_eq_iff_nth_eq)
  qed
  define d w where "d = fst (window_run ?ps ([], []))" and "w = snd (window_run ?ps ([], []))"
  have wd: "px_listOrdered (foldl deliver ?c ds) = window w (ORDERED_LIST_DEPTH - length w)"
      "px_delivered (foldl deliver ?c ds) = map snd d" "sorted (map fst w)" "\<forall>x \<in> set w. 0 < fst x"
    using window_delivers [where now = None and ctx = ?c and ps = ?ps and w = "[]" and d = "[]"] st(4) z assms(10) pts
    unfolding m d_def w_def by simp_all
  have wo: "sorted (map fst (d @ w))" "mset (d @ w) = mset ?ps" "length d = length line - ORDERED_LIST_DEPTH"
    using window_run_order [of ?ps] assms(11) len unfolding m d_def w_def by simp_all
  have "flush_loop True (px_listOrdered ctx) = Some (map snd w)"
    using flush_window [OF wd(4,3)] wd(1) od by (simp add: outlet_def)
  moreover obtain rb' where "px_rb ctx = Some rb'" "rb_inv rb'"
    using e gathering_length [of "rb_size_max rb" acc ctx] by (auto simp: extracting_def)
  moreover have "px_orderedOutput ctx" "px_cb ctx" using handed_settings [OF h] st(2,4) by simp_all
  moreover have dl: "px_delivered ctx = map snd d" using od wd(2) by (simp add: outlet_def)
  ultimately have "ltntstools_pes_extractor_free ctx = Some (map snd (d @ w))"
    by (simp add: ltntstools_pes_extractor_free_def rb_free_def RB_LOCK_bind rb_inv_def)
  then show ?thesis using r ds wo dl
    by (intro exI [of _ ctx] exI [of _ "d @ w"] exI [of _ ds]) (simp add: take_map)
qed

text \<open>Three packets, each the start of a PES packet with the time stamp 90000 and 170 bytes of data.\<close>

definition sample_start :: "u8 \<Rightarrow> bytes" where
  "sample_start c =
     [0x47, 0x40, 0x31, 0x10 OR c, 0, 0, 1, 0xE0, 0, 0, 0x80, 0x80, 5, 0x21, 0, 5, 0xBF, 0x21] @ replicate 170 0xAA"

definition sample_calls :: "write_call list" where
  "sample_calls = [(7, \<lparr>tv_sec = 7, tv_usec = 0\<rparr>, concat [sample_start 1, sample_start 2, sample_start 3], 3)]"

abbreviation sample_extractor :: pes_extractor_s where
  "sample_extractor \<equiv> the (ltntstools_pes_extractor_alloc (\<lambda>_. True) 7 timeval_zero 0x31 0xE0 True (-1) (-1))"

lemma sample_extractor_ring:
  "ltntstools_pes_extractor_alloc (\<lambda>_. True) 7 timeval_zero 0x31 0xE0 True (-1) (-1) = Some sample_extractor"
  "\<exists>rb. px_rb sample_extractor = Some rb \<and> rb_size_max rb = 33554432"
  by (simp_all add: ltntstools_pes_extractor_alloc_def rb_new_def)

lemma sample_session:
  "whole_calls 0 sample_calls" "packets_of sample_calls = [sample_start 1, sample_start 2, sample_start 3]"
proof -
  have l: "length (sample_start c) = 188" for c by (simp add: sample_start_def)
  show "whole_calls 0 sample_calls" by (simp add: whole_calls_def sample_calls_def in_window_def l)
  show "packets_of sample_calls = [sample_start 1, sample_start 2, sample_start 3]"
    using packets_in_concat [of "[sample_start 1, sample_start 2, sample_start 3]" 3] l
    by (simp add: packets_of_def sample_calls_def)
qed

lemma sample_fields:
  "ltntstools_pid (sample_start c) = 0x31" "ltntstools_payload_unit_start_indicator (sample_start c)"
  "ltntstools_sync_present (sample_start c)" "px_payload (sample_start c) = drop 4 (sample_start 0) \<or> c \<notin> {1, 2, 3}"
  "payload_offset (sample_start c) = 4 \<or> c \<notin> {1, 2, 3}" "ltntstools_adaption_field_control (sample_start c) = 1 \<or> c \<notin> {1, 2, 3}"
  "ltntstools_continuity_counter (sample_start c) = c \<or> c \<notin> {1, 2, 3}"
  by (auto simp: pkt_defs sample_start_def px_payload_def payload_offset_def)

lemma sample_units:
  "spec_run 33554432 0x31 [] [sample_start 1, sample_start 2, sample_start 3] (None, 0, [])
     = Some (Some (drop 4 (sample_start 0)), 0, [drop 4 (sample_start 0), drop 4 (sample_start 0)])"
  using sample_fields [of 1] sample_fields [of 2] sample_fields [of 3]
  by (simp add: spec_packet_def spec_gather_def stream_errors_def of_pid_def cc_follows_def)
    (simp add: sample_start_def)

lemma sample_parsed:
  "\<exists>p. pes_parsed (\<lambda>_. True) False (drop 4 (sample_start 0)) = Some (Some p) \<and> pes_PTS p = 90000 \<and> pes_dataLength p = 170"
proof -
  have "map_option (map_option (\<lambda>p. (pes_PTS p, pes_dataLength p))) (pes_parsed (\<lambda>_. True) False (drop 4 (sample_start 0)))
      = Some (Some (90000, 170))" by code_simp
  then show ?thesis by auto
qed

theorem pes_extractor_refines_witness:
  "\<exists>ctx. extractor_run (\<lambda>_. True) (fst (ltntstools_pes_extractor_set_skip_data sample_extractor False)) sample_calls = Some ctx
    \<and> map pes_PTS (px_delivered ctx) = [90000, 90000] \<and> map pes_raw (px_delivered ctx) = replicate 2 (Some (drop 4 (sample_start 0)))"
proof -
  obtain rb where rb: "px_rb sample_extractor = Some rb" "rb_size_max rb = 33554432" using sample_extractor_ring(2) by blast
  obtain p where p: "pes_parsed (\<lambda>_. True) False (drop 4 (sample_start 0)) = Some (Some p)" "pes_PTS p = 90000"
    using sample_parsed by blast
  have "granted (\<lambda>_. True)" by (simp add: granted_def)
  from pes_extractor_refines [OF this sample_extractor_ring(1) rb(1) _ _ sample_session(1), of _ _ _ False,
      unfolded rb(2) sample_session(2), OF _ _ sample_units]
  obtain ctx where "extractor_run (\<lambda>_. True) (fst (ltntstools_pes_extractor_set_skip_data sample_extractor False)) sample_calls = Some ctx"
      "list_all2 received [(drop 4 (sample_start 0), p), (drop 4 (sample_start 0), p)] (px_delivered ctx)"
    using p(1) by (auto simp: RING_STEP_def parsed_units_def)
  then show ?thesis
    using p(2) by (intro exI [of _ ctx]) (auto simp: list_all2_Cons1 received_def numeral_2_eq_2)
qed

theorem pes_extractor_orders_witness:
  "\<exists>ctx out. extractor_run (\<lambda>_. True) (fst (ltntstools_pes_extractor_set_ordered_output sample_extractor True)) sample_calls = Some ctx
    \<and> ltntstools_pes_extractor_free ctx = Some out \<and> length out = 2 \<and> px_delivered ctx = []"
proof -
  obtain rb where rb: "px_rb sample_extractor = Some rb" "rb_size_max rb = 33554432" using sample_extractor_ring(2) by blast
  obtain p where p: "pes_parsed (\<lambda>_. True) False (drop 4 (sample_start 0)) = Some (Some p)" "pes_PTS p = 90000"
    using sample_parsed by blast
  have "granted (\<lambda>_. True)" by (simp add: granted_def)
  from pes_extractor_orders [OF this sample_extractor_ring(1) rb(1) _ _ sample_session(1),
      unfolded rb(2) sample_session(2), OF _ _ sample_units, of "[90000, 90000]"]
  obtain ctx out sent where r: "extractor_run (\<lambda>_. True) (fst (ltntstools_pes_extractor_set_ordered_output sample_extractor True)) sample_calls = Some ctx"
      "ltntstools_pes_extractor_free ctx = Some (map snd out)" "mset out = mset (zip [90000 :: int, 90000] sent)"
      "list_all2 received [(drop 4 (sample_start 0), p), (drop 4 (sample_start 0), p)] sent"
      "px_delivered ctx = take (length [90000 :: int, 90000] - ORDERED_LIST_DEPTH) (map snd out)"
    using p by (auto simp: RING_STEP_def parsed_units_def timeline_def punctual_def ORDERED_LIST_DEPTH_def)
  have "length sent = 2" using list_all2_lengthD [OF r(4)] by simp
  then have "length out = 2" using arg_cong [OF r(3), of size] by simp
  then show ?thesis using r(1,2,5) by (intro exI [of _ ctx] exI [of _ "map snd out"]) (simp add: ORDERED_LIST_DEPTH_def)
qed

subsection \<open>Where the extractor stops the program\<close>

text \<open>A unit of less than 16 bytes, which a single crafted packet can make, ends in \<open>abort\<close>.\<close>

lemma processRing_short:
  assumes "gathering M (Some u) ctx" "u \<noteq> []" "length u < 16"
  shows "processRing alloc ctx = None"
proof -
  obtain rb where r: "px_rb ctx = Some rb" "rb_inv rb" "rb_fill rb = length u"
    by (rule gathering_length [OF assms(1)]) (simp add: bytes_of_def)
  have "to_int32 (int (length u)) = int (length u)" using assms(3) by (intro to_int32_id) auto
  then show ?thesis using assms(2,3) r by (simp add: processRing_def rb_used_eq Let_def)
qed

text \<open>An error on any PID drops what was gathered of this one, though none of its packets is missing.\<close>

lemma other_pid_drops_unit:
  assumes "errors \<noteq> prev" "ltntstools_pid pkt = pid" "\<not> ltntstools_payload_unit_start_indicator pkt"
  shows "spec_packet M pid errors pkt (Some u, prev, out) = Some (None, errors, out)"
  using assms by (simp add: spec_packet_def spec_gather_def)

end
