(* ===== verification/Descriptor.thy ===== *)
theory Descriptor
  imports Ts
begin

text \<open>
  The descriptor lists of \<open>src/src/descriptor.c\<close> and \<open>src/src/libltntstools/descriptor.h\<close>: the
  table of tag names, the bounded list of sixteen descriptors that the PAT and the PMT embed,
  and the queries for particular descriptors.

  A list is its counter and its array, as in C. The counter is a \<open>uint32_t\<close>, so that nothing
  in the type keeps it within the array: a query reads the array at every index below it, and
  an index past the array is undefined behaviour. The 256 bytes of an entry are a list; a
  query reads them at fixed small offsets only.

  Both this list and the tables of the PAT are filled by appending to an array until it is
  full. That contract is the locale \<open>bounded_table\<close>, interpreted here for descriptors and in the theory
  of the PAT for programs and streams.
\<close>

unbundle bit_operations_syntax

subsection \<open>Tag names\<close>

definition descriptor_tag_descriptions :: "(u8 \<times> string) list" where
  "descriptor_tag_descriptions =
     [(0x00, ''Reserved''),
      (0x01, ''Forbidden''),
      (0x02, ''Video stream descriptor''),
      (0x03, ''Audio stream descriptor''),
      (0x04, ''Hierarchy descriptor''),
      (0x05, ''Registration descriptor (ATSC GA94, DTS, SMPTE registrations)''),
      (0x06, ''Data stream alignment descriptor''),
      (0x07, ''Target background grid descriptor''),
      (0x08, ''Video window descriptor''),
      (0x09, ''CA descriptor / Conditional Access descriptor''),
      (0x0a, ''ISO 639 language descriptor (audio language)''),
      (0x0b, ''System clock descriptor''),
      (0x0c, ''Multiplex buffer utilization descriptor''),
      (0x0d, ''Copyright descriptor''),
      (0x0e, ''Maximum bitrate descriptor (max ES bitrate)''),
      (0x0f, ''Private data indicator descriptor''),
      (0x10, ''Smoothing buffer descriptor''),
      (0x11, ''STD descriptor''),
      (0x12, ''IBP descriptor''),
      (0x13, ''Carousel identifier descriptor''),
      (0x14, ''Association tag descriptor''),
      (0x15, ''Deferred association tags descriptor''),
      (0x16, ''ISO/IEC 13818-1 reserved''),
      (0x17, ''NPT reference descriptor''),
      (0x18, ''NPT endpoint descriptor''),
      (0x19, ''Stream mode descriptor''),
      (0x1a, ''Stream event descriptor''),
      (0x1b, ''MPEG-4 video descriptor''),
      (0x1c, ''MPEG-4 audio descriptor''),
      (0x1d, ''IOD descriptor''),
      (0x1e, ''SL descriptor''),
      (0x1f, ''FMC descriptor''),
      (0x20, ''External ES ID descriptor''),
      (0x21, ''MuxCode descriptor''),
      (0x22, ''FmxBufferSize descriptor''),
      (0x23, ''MultiplexBuffer descriptor''),
      (0x24, ''Content labeling descriptor''),
      (0x25, ''Metadata pointer descriptor''),
      (0x26, ''Metadata descriptor''),
      (0x27, ''Metadata STD descriptor''),
      (0x28, ''AVC video descriptor''),
      (0x29, ''IPMP descriptor''),
      (0x2a, ''AVC timing and HRD descriptor''),
      (0x2b, ''MPEG-2 AAC audio descriptor''),
      (0x2c, ''FlexMuxTiming descriptor''),
      (0x2d, ''MPEG-4 text descriptor''),
      (0x2e, ''MPEG-4 audio extension descriptor''),
      (0x2f, ''Auxiliary video stream descriptor''),
      (0x30, ''SVC extension descriptor''),
      (0x31, ''MVC extension descriptor''),
      (0x32, ''J2K video descriptor''),
      (0x33, ''MVC operation point descriptor''),
      (0x34, ''MPEG-2 stereoscopic video format descriptor''),
      (0x35, ''Stereoscopic program info descriptor''),
      (0x36, ''Stereoscopic video info descriptor''),
      (0x3f, ''Extension descriptor''),
      (0x40, ''Network name descriptor (DVB)''),
      (0x41, ''Service list descriptor (DVB)''),
      (0x42, ''Stuffing descriptor (DVB)''),
      (0x43, ''Satellite delivery system descriptor (DVB)''),
      (0x44, ''Cable delivery system descriptor (DVB)''),
      (0x45, ''VBI data descriptor (DVB)''),
      (0x46, ''VBI teletext descriptor (DVB)''),
      (0x47, ''Bouquet name descriptor (DVB)''),
      (0x48, ''Service descriptor (DVB)''),
      (0x49, ''Country availability descriptor (DVB)''),
      (0x4a, ''Linkage descriptor (DVB)''),
      (0x4b, ''NVOD reference descriptor (DVB)''),
      (0x4c, ''Time shifted service descriptor (DVB)''),
      (0x4d, ''Short event descriptor (DVB)''),
      (0x4e, ''Extended event descriptor (DVB)''),
      (0x4f, ''Time shifted event descriptor (DVB)''),
      (0x50, ''Component descriptor (DVB)''),
      (0x51, ''Mosaic descriptor (DVB)''),
      (0x52, ''Stream identifier descriptor (DVB)''),
      (0x53, ''CA identifier descriptor (DVB)''),
      (0x54, ''Content descriptor (DVB)''),
      (0x55, ''Parental rating descriptor (DVB)''),
      (0x56, ''Teletext descriptor (DVB)''),
      (0x57, ''Telephone descriptor (DVB)''),
      (0x58, ''Local time offset descriptor (DVB)''),
      (0x59, ''Subtitling descriptor (DVB)''),
      (0x5a, ''Terrestrial delivery system descriptor (DVB)''),
      (0x5b, ''Multilingual network name descriptor (DVB)''),
      (0x5c, ''Multilingual bouquet name descriptor (DVB)''),
      (0x5d, ''Multilingual service name descriptor (DVB)''),
      (0x5e, ''Multilingual component descriptor (DVB)''),
      (0x5f, ''Private data specifier descriptor (DVB)''),
      (0x60, ''Service move descriptor (DVB)''),
      (0x61, ''Short smoothing buffer descriptor (DVB)''),
      (0x62, ''Frequency list descriptor (DVB)''),
      (0x63, ''Partial transport stream descriptor (DVB)''),
      (0x64, ''Data broadcast descriptor (DVB)''),
      (0x65, ''CA system descriptor (DVB)''),
      (0x66, ''Data broadcast id descriptor (DVB)''),
      (0x67, ''Transport stream descriptor (DVB)''),
      (0x68, ''DSNG descriptor (DVB)''),
      (0x69, ''PDC descriptor (DVB)''),
      (0x6a, ''AC-3 descriptor (DVB)''),
      (0x6b, ''Ancillary data descriptor (DVB)''),
      (0x6c, ''Cell list descriptor (DVB)''),
      (0x6d, ''Cell frequency link descriptor (DVB)''),
      (0x6e, ''Announcement support descriptor (DVB)''),
      (0x6f, ''Application signalling descriptor (DVB)''),
      (0x70, ''Adaptation field data descriptor (DVB)''),
      (0x71, ''Service identifier descriptor (DVB)''),
      (0x72, ''Service availability descriptor (DVB)''),
      (0x73, ''Default authority descriptor (DVB)''),
      (0x74, ''Related content descriptor (DVB)''),
      (0x75, ''TVA id descriptor (DVB)''),
      (0x76, ''Content identifier descriptor (DVB)''),
      (0x77, ''Time slice FEC identifier descriptor (DVB)''),
      (0x78, ''ECM repetition rate descriptor (DVB)''),
      (0x79, ''S2 satellite delivery system descriptor (DVB)''),
      (0x7a, ''Enhanced AC-3 descriptor (DVB)''),
      (0x7b, ''DTS descriptor (DVB)''),
      (0x7c, ''AAC descriptor (DVB)''),
      (0x7d, ''XAIT location descriptor (DVB)''),
      (0x7e, ''FTA content management descriptor (DVB)''),
      (0x7f, ''Extension descriptor (DVB)''),
      (0x80, ''Stuffing descriptor (ATSC A/65)''),
      (0x81, ''AC-3 descriptor (ATSC/private usage)''),
      (0x86, ''Caption service descriptor (ATSC 608/708 captions)''),
      (0x87, ''Content advisory descriptor (ATSC A/65)''),
      (0xa0, ''Extended channel name descriptor (ATSC A/65)''),
      (0xa1, ''Service location descriptor (ATSC A/65)''),
      (0xa2, ''Time shifted service descriptor (ATSC A/65)''),
      (0xa3, ''Component name descriptor (ATSC A/65)''),
      (0xa8, ''DCC departing request descriptor (ATSC A/65)''),
      (0xa9, ''DCC arriving request descriptor (ATSC A/65)''),
      (0xaa, ''Redistribution control descriptor (ATSC A/65)''),
      (0xab, ''Genre descriptor (ATSC A/65)''),
      (0xad, ''ATSC private information descriptor''),
      (0xb6, ''Content identifier descriptor (ATSC A/57/A65)''),
      (0xcc, ''E-AC-3 audio stream descriptor (ATSC A/65)'')]"

definition ltntstools_descriptor_tag_description :: "u8 \<Rightarrow> string" where
  "ltntstools_descriptor_tag_description tag =
     (case map_of descriptor_tag_descriptions tag of
        Some d \<Rightarrow> d
      | None \<Rightarrow>
          if tag < 0x40 then ''ISO/IEC 13818-1 reserved''
          else if tag \<ge> 0xa0 \<and> tag \<le> 0xaf then ''Vendor/private descriptor''
          else ''User Private'')"

subsection \<open>Lists\<close>

record descriptor_entry_s =
  descr_tag :: u8
  descr_len :: u8
  descr_data :: bytes

record descriptor_list_s =
  descr_count :: u32
  descr_array :: "descriptor_entry_s list"

definition LTNTSTOOLS_DESCRIPTOR_ENTRIES_MAX :: nat where
  "LTNTSTOOLS_DESCRIPTOR_ENTRIES_MAX = 16"

text \<open>
  The list is dereferenced before it is compared with \<open>NULL\<close>, and a \<open>uint8_t\<close> is never above
  255. The results are the list and the return code.
\<close>

definition ltntstools_descriptor_list_add ::
  "descriptor_list_s option \<Rightarrow> u8 \<Rightarrow> bytes option \<Rightarrow> u8 \<Rightarrow> (descriptor_list_s \<times> int) mem" where
  "ltntstools_descriptor_list_add listp tag src lengthBytes =
     do { list \<leftarrow> listp;
          if unat (descr_count list) = LTNTSTOOLS_DESCRIPTOR_ENTRIES_MAX then Some (list, -1)
          else if unat lengthBytes > 255 then Some (list, -1)
          else case src of
            None \<Rightarrow> Some (list, -1)
          | Some src \<Rightarrow>
     do { d \<leftarrow> rd (descr_array list) (unat (descr_count list));
          src \<leftarrow> rdn src 0 (unat lengthBytes);
          data \<leftarrow> wr (descr_data d) 0 src;
          let d = d\<lparr>descr_tag := tag, descr_len := lengthBytes, descr_data := data\<rparr>;
          Some (list\<lparr>descr_array := (descr_array list)[unat (descr_count list) := d],
                     descr_count := descr_count list + 1\<rparr>, 0) }}"

text \<open>
  The loop of the queries: the first entry that \<open>P\<close> accepts, from index \<open>i\<close> on, with \<open>n\<close>
  indices left.
\<close>

fun descriptor_find :: "(descriptor_entry_s \<Rightarrow> bool) \<Rightarrow> descriptor_list_s \<Rightarrow> nat \<Rightarrow> nat
    \<Rightarrow> descriptor_entry_s option mem" where
  "descriptor_find P list i 0 = Some None"
| "descriptor_find P list i (Suc n) =
     do { d \<leftarrow> rd (descr_array list) i;
          if P d then Some (Some d) else descriptor_find P list (i + 1) n }"

definition descriptor_list_first ::
  "(descriptor_entry_s \<Rightarrow> bool) \<Rightarrow> descriptor_list_s \<Rightarrow> descriptor_entry_s option mem" where
  "descriptor_list_first P list = descriptor_find P list 0 (unat (descr_count list))"

definition descriptor_list_contains ::
  "(descriptor_entry_s \<Rightarrow> bool) \<Rightarrow> descriptor_list_s \<Rightarrow> bool mem" where
  "descriptor_list_contains P list = map_option (\<lambda>r. r \<noteq> None) (descriptor_list_first P list)"

text \<open>The characters of a format identifier at the start of the data.\<close>

definition data_is :: "descriptor_entry_s \<Rightarrow> string \<Rightarrow> bool" where
  "data_is d s \<longleftrightarrow> take (length s) (descr_data d) = map of_char s"

definition ltntstools_descriptor_list_contains_smpte2064_registration :: "descriptor_list_s \<Rightarrow> bool mem" where
  "ltntstools_descriptor_list_contains_smpte2064_registration =
     descriptor_list_contains (\<lambda>d. descr_tag d = 0x05 \<and> descr_len d = 0x04 \<and> data_is d ''LIPS'')"

definition ltntstools_descriptor_list_contains_scte35_cue_registration :: "descriptor_list_s \<Rightarrow> bool mem" where
  "ltntstools_descriptor_list_contains_scte35_cue_registration =
     descriptor_list_contains (\<lambda>d. descr_tag d = 0x05 \<and> descr_len d = 0x04 \<and> data_is d ''CUEI'')"

definition ltntstools_descriptor_list_contains_video_av1_registration :: "descriptor_list_s \<Rightarrow> bool mem" where
  "ltntstools_descriptor_list_contains_video_av1_registration =
     descriptor_list_contains (\<lambda>d. descr_tag d = 0x05 \<and> descr_len d \<ge> 0x04 \<and> data_is d ''AV01'')"

definition ltntstools_descriptor_list_contains_teletext :: "descriptor_list_s \<Rightarrow> bool mem" where
  "ltntstools_descriptor_list_contains_teletext =
     descriptor_list_contains (\<lambda>d. descr_tag d = 0x56 \<and> descr_len d = 0x05)"

definition ltntstools_descriptor_list_contains_smpte2038_registration :: "descriptor_list_s \<Rightarrow> bool mem" where
  "ltntstools_descriptor_list_contains_smpte2038_registration =
     descriptor_list_contains (\<lambda>d.
       if descr_tag d = 0xc4 \<and> descr_len d = 0x09 then data_is d ''SMPTE2038''
       else if descr_tag d = 0x05 \<and> descr_len d = 0x04 then data_is d ''VANC''
       else descr_tag d = 0xc4 \<and> descr_len d = 0)"

text \<open>\<open>Some None\<close> is \<open>found = 0\<close>, with nothing written through the result pointers.\<close>

definition ltntstools_descriptor_list_contains_ltn_encoder_sw_version ::
  "descriptor_list_s \<Rightarrow> (u32 \<times> u32 \<times> u32) option mem" where
  "ltntstools_descriptor_list_contains_ltn_encoder_sw_version list =
     map_option (map_option (\<lambda>d. (ucast (descr_data d ! 1), ucast (descr_data d ! 2), ucast (descr_data d ! 3))))
       (descriptor_list_first (\<lambda>d. descr_tag d = 0xa2 \<and> descr_len d = 0x04 \<and> descr_data d ! 0 = 0x01) list)"

definition ltntstools_descriptor_list_contains_iso639_audio_descriptor ::
  "descriptor_list_s \<Rightarrow> (bytes \<times> u32) option mem" where
  "ltntstools_descriptor_list_contains_iso639_audio_descriptor list =
     map_option (map_option (\<lambda>d. (take 3 (descr_data d), ucast (descr_data d ! 3))))
       (descriptor_list_first (\<lambda>d. descr_tag d = 0x0a \<and> descr_len d = 0x04) list)"

subsection \<open>Bounded tables\<close>

text \<open>
  A table that takes entries until it is full: \<open>add\<close> appends to the entries or, when there are
  \<open>cap\<close> of them already, changes nothing.
\<close>

locale bounded_table =
  fixes add :: "'t \<Rightarrow> 'x \<Rightarrow> 't mem"
    and wf :: "'t \<Rightarrow> bool"
    and fits :: "'x \<Rightarrow> bool"
    and entries :: "'t \<Rightarrow> 'x list"
    and cap :: nat
  assumes add_room: "wf t \<Longrightarrow> fits x \<Longrightarrow> length (entries t) < cap
      \<Longrightarrow> \<exists>t'. add t x = Some t' \<and> wf t' \<and> entries t' = entries t @ [x]"
    and add_full: "wf t \<Longrightarrow> length (entries t) = cap \<Longrightarrow> add t x = Some t"
    and entries_cap: "wf t \<Longrightarrow> length (entries t) \<le> cap"
begin

primrec add_all :: "'t \<Rightarrow> 'x list \<Rightarrow> 't mem" where
  "add_all t [] = Some t"
| "add_all t (x # xs) = do { t \<leftarrow> add t x; add_all t xs }"

lemma add_all_ok:
  assumes "wf t" and "list_all fits xs"
  shows "\<exists>t'. add_all t xs = Some t' \<and> wf t' \<and> entries t' = take cap (entries t @ xs)"
  using assms
proof (induction xs arbitrary: t)
  case Nil
  then show ?case using entries_cap by simp
next
  case (Cons x xs)
  show ?case
  proof (cases "length (entries t) = cap")
    case True
    then obtain t' where "add_all t xs = Some t'" "wf t'" "entries t' = take cap (entries t @ xs)"
      using Cons.IH [of t] Cons.prems by auto
    with True Cons.prems add_full show ?thesis by simp
  next
    case False
    then have "length (entries t) < cap" using entries_cap Cons.prems(1) le_neq_implies_less by blast
    from add_room [OF Cons.prems(1) _ this, of x] Cons.prems(2)
    obtain t1 where t1: "add t x = Some t1" "wf t1" "entries t1 = entries t @ [x]" by auto
    with Cons.IH [of t1] Cons.prems(2) show ?thesis by auto
  qed
qed

end

subsection \<open>The descriptors of a list\<close>

text \<open>
  The invariant: the array has its sixteen entries of 256 bytes and the counter is within it.
  What the list means is the tags with the bytes in use.
\<close>

definition descr_inv :: "descriptor_list_s \<Rightarrow> bool" where
  "descr_inv list \<longleftrightarrow> length (descr_array list) = 16 \<and> unat (descr_count list) \<le> 16
     \<and> list_all (\<lambda>d. length (descr_data d) = 256) (descr_array list)"

definition descr_value :: "descriptor_entry_s \<Rightarrow> u8 \<times> bytes" where
  "descr_value d = (descr_tag d, take (unat (descr_len d)) (descr_data d))"

definition descriptors :: "descriptor_list_s \<Rightarrow> (u8 \<times> bytes) list" where
  "descriptors list = map descr_value (take (unat (descr_count list)) (descr_array list))"

text \<open>One descriptor of \<open>libdvbpsi\<close>: its tag and its data, which has at most 255 bytes.\<close>

definition descr_fits :: "u8 \<times> bytes \<Rightarrow> bool" where
  "descr_fits x \<longleftrightarrow> length (snd x) \<le> 255"

definition descriptor_list_put :: "descriptor_list_s \<Rightarrow> u8 \<times> bytes \<Rightarrow> descriptor_list_s mem" where
  "descriptor_list_put list x =
     map_option fst (ltntstools_descriptor_list_add (Some list) (fst x) (Some (snd x)) (of_nat (length (snd x))))"

lemma unat_Suc_16: "unat (c :: u32) < 16 \<Longrightarrow> unat (c + 1) = Suc (unat c)"
  by (simp add: unat_word_ariths)

lemma descriptors_length: "descr_inv list \<Longrightarrow> length (descriptors list) = unat (descr_count list)"
  by (simp add: descr_inv_def descriptors_def)

lemma descriptor_list_put_room:
  assumes inv: "descr_inv list" and fits: "descr_fits x" and room: "length (descriptors list) < 16"
  shows "\<exists>list'. descriptor_list_put list x = Some list' \<and> descr_inv list'
    \<and> descriptors list' = descriptors list @ [x]"
proof -
  let ?n = "unat (descr_count list)" and ?a = "descr_array list"
  define d where "d = (?a ! ?n)\<lparr>descr_tag := fst x, descr_len := of_nat (length (snd x)),
      descr_data := blit (descr_data (?a ! ?n)) 0 (snd x)\<rparr>"
  define l where "l = list\<lparr>descr_array := ?a[?n := d], descr_count := descr_count list + 1\<rparr>"
  have n: "?n < 16" using room descriptors_length [OF inv] by simp
  have a: "length ?a = 16" "list_all (\<lambda>d. length (descr_data d) = 256) ?a" using inv by (auto simp: descr_inv_def)
  then have d256: "length (descr_data (?a ! ?n)) = 256" using n by (simp add: list_all_length)
  have len: "unat (of_nat (length (snd x)) :: u8) = length (snd x)"
    using fits by (simp add: descr_fits_def unsigned_of_nat take_bit_nat_eq_self)
  have put: "descriptor_list_put list x = Some l"
    using n a d256 len fits
    by (simp add: descriptor_list_put_def ltntstools_descriptor_list_add_def descr_fits_def
        LTNTSTOOLS_DESCRIPTOR_ENTRIES_MAX_def l_def d_def Let_def)
  have "length (descr_data d) = 256" using d256 fits by (simp add: d_def descr_fits_def)
  then have inv': "descr_inv l"
    using a n by (auto simp: descr_inv_def l_def unat_Suc_16 list_all_length nth_list_update)
  have "descr_value d = x"
    using len d256 fits by (simp add: descr_value_def d_def blit_0 descr_fits_def)
  then have "descriptors l = descriptors list @ [x]"
    using n a by (simp add: descriptors_def l_def unat_Suc_16 take_Suc_conv_app_nth)
  with put inv' show ?thesis by blast
qed

interpretation dl: bounded_table descriptor_list_put descr_inv descr_fits descriptors 16
proof
  fix list and x
  assume inv: "descr_inv list"
  show "length (descriptors list) \<le> 16" using inv by (simp add: descriptors_length descr_inv_def)
  show "descriptor_list_put list x = Some list" if "length (descriptors list) = 16"
    using that descriptors_length [OF inv]
    by (simp add: descriptor_list_put_def ltntstools_descriptor_list_add_def LTNTSTOOLS_DESCRIPTOR_ENTRIES_MAX_def)
  show "\<exists>t'. descriptor_list_put list x = Some t' \<and> descr_inv t' \<and> descriptors t' = descriptors list @ [x]"
    if "descr_fits x" "length (descriptors list) < 16"
    using descriptor_list_put_room [OF inv that] .
qed

subsection \<open>The queries\<close>

lemma descriptor_find_list:
  assumes "i + n \<le> length (descr_array list)"
  shows "descriptor_find P list i n = Some (find P (take n (drop i (descr_array list))))"
  using assms
proof (induction n arbitrary: i)
  case (Suc n)
  then have "drop i (descr_array list) = descr_array list ! i # drop (Suc i) (descr_array list)"
    by (simp add: Cons_nth_drop_Suc)
  with Suc show ?case by simp
qed simp

lemma descriptor_list_first_find:
  assumes "descr_inv list"
  shows "descriptor_list_first P list = Some (find P (take (unat (descr_count list)) (descr_array list)))"
  using assms descriptor_find_list [of 0 "unat (descr_count list)" list P]
  by (simp add: descriptor_list_first_def descr_inv_def)

lemma find_some_iff: "find P xs \<noteq> None \<longleftrightarrow> (\<exists>x \<in> set xs. P x)"
  by (auto simp: find_None_iff)

text \<open>The value of an entry, by its tag, its length and its bytes.\<close>

lemma fst_descr_value [simp]: "fst (descr_value d) = descr_tag d"
  by (simp add: descr_value_def)

lemma length_descr_value [simp]:
  assumes "length (descr_data d) = 256"
  shows "length (snd (descr_value d)) = unat (descr_len d)"
proof -
  have "unat (descr_len d) < 256" using unsigned_less [of "descr_len d"] by simp
  with assms show ?thesis by (simp add: descr_value_def)
qed

lemma descr_value_eq:
  assumes "length (descr_data d) = 256"
  shows "descr_value d = (t, map of_char s) \<longleftrightarrow>
    descr_tag d = t \<and> unat (descr_len d) = length s \<and> data_is d s"
proof -
  have "unat (descr_len d) = length s" if "snd (descr_value d) = map of_char s"
    using length_descr_value [OF assms] arg_cong [OF that, of length] by simp
  then show ?thesis by (auto simp: descr_value_def data_is_def)
qed

lemma descriptor_list_contains_iff:
  assumes "descr_inv list" and "\<And>d. length (descr_data d) = 256 \<Longrightarrow> P d \<longleftrightarrow> Q (descr_value d)"
  shows "descriptor_list_contains P list = Some (\<exists>x \<in> set (descriptors list). Q x)"
proof -
  let ?ds = "take (unat (descr_count list)) (descr_array list)"
  have "length (descr_data d) = 256" if "d \<in> set ?ds" for d
    using assms(1) in_set_takeD [OF that] by (auto simp: descr_inv_def list_all_iff)
  then have "(\<exists>d \<in> set ?ds. P d) \<longleftrightarrow> (\<exists>x \<in> set (descriptors list). Q x)"
    using assms(2) by (auto simp: descriptors_def)
  then show ?thesis
    using find_some_iff [of P ?ds] descriptor_list_first_find [OF assms(1), of P]
    by (simp add: descriptor_list_contains_def del: not_None_eq)
qed

text \<open>The queries, in terms of the descriptors the list holds.\<close>

lemma u8_eq_unat: "(w :: u8) = numeral k \<longleftrightarrow> unat w = unat (numeral k :: u8)"
  by (simp only: word_unat_eq_iff)

lemma contains_teletext_iff:
  assumes "descr_inv list"
  shows "ltntstools_descriptor_list_contains_teletext list =
    Some (\<exists>x \<in> set (descriptors list). fst x = 0x56 \<and> length (snd x) = 5)"
  unfolding ltntstools_descriptor_list_contains_teletext_def
  by (rule descriptor_list_contains_iff [OF assms]) (simp add: u8_eq_unat [of "descr_len _"])

text \<open>A registration whose data is exactly one identifier.\<close>

lemma contains_registration_iff:
  assumes "descr_inv list" and "\<And>d. P d \<longleftrightarrow> descr_tag d = t \<and> unat (descr_len d) = length s \<and> data_is d s"
  shows "descriptor_list_contains P list = Some ((t, map of_char s) \<in> set (descriptors list))"
proof -
  have "descriptor_list_contains P list = Some (\<exists>x \<in> set (descriptors list). x = (t, map of_char s))"
    by (rule descriptor_list_contains_iff [OF assms(1)]) (simp only: descr_value_eq assms(2))
  then show ?thesis by simp
qed

lemma contains_scte35_iff:
  assumes "descr_inv list"
  shows "ltntstools_descriptor_list_contains_scte35_cue_registration list =
    Some ((0x05, map of_char ''CUEI'') \<in> set (descriptors list))"
  unfolding ltntstools_descriptor_list_contains_scte35_cue_registration_def
  by (rule contains_registration_iff [OF assms]) (simp add: u8_eq_unat [of "descr_len _"], simp add: eval_nat_numeral)

lemma contains_smpte2064_iff:
  assumes "descr_inv list"
  shows "ltntstools_descriptor_list_contains_smpte2064_registration list =
    Some ((0x05, map of_char ''LIPS'') \<in> set (descriptors list))"
  unfolding ltntstools_descriptor_list_contains_smpte2064_registration_def
  by (rule contains_registration_iff [OF assms]) (simp add: u8_eq_unat [of "descr_len _"], simp add: eval_nat_numeral)

lemma contains_smpte2038_iff:
  assumes "descr_inv list"
  shows "ltntstools_descriptor_list_contains_smpte2038_registration list =
    Some (\<exists>x \<in> set (descriptors list).
      x \<in> {(0xc4, map of_char ''SMPTE2038''), (0x05, map of_char ''VANC''), (0xc4, map of_char [])})"
  unfolding ltntstools_descriptor_list_contains_smpte2038_registration_def
proof (rule descriptor_list_contains_iff [OF assms])
  fix d :: descriptor_entry_s assume l: "length (descr_data d) = 256"
  have "descr_len d = 0x09 \<longleftrightarrow> unat (descr_len d) = length ''SMPTE2038''"
    "descr_len d = 0x04 \<longleftrightarrow> unat (descr_len d) = length ''VANC''"
    "descr_len d = 0 \<longleftrightarrow> unat (descr_len d) = length ([] :: string)"
    by (simp_all add: word_unat_eq_iff, simp_all add: eval_nat_numeral)
  moreover have "data_is d []" by (simp add: data_is_def)
  ultimately show "(if descr_tag d = 0xc4 \<and> descr_len d = 0x09 then data_is d ''SMPTE2038''
     else if descr_tag d = 0x05 \<and> descr_len d = 0x04 then data_is d ''VANC''
     else descr_tag d = 0xc4 \<and> descr_len d = 0)
    \<longleftrightarrow> descr_value d \<in> {(0xc4, map of_char ''SMPTE2038''), (0x05, map of_char ''VANC''), (0xc4, map of_char [])}"
    unfolding insert_iff empty_iff descr_value_eq [OF l] by auto
qed

end
