(* ===== verification/Pat.thy ===== *)
theory Pat
  imports Descriptor SectionExtractor
begin

text \<open>
  The program tables of \<open>src/src/pat.c\<close> and \<open>src/src/libltntstools/pat.h\<close>: the PAT with its 64
  program slots, each with its PMT of 16 stream slots, built from what \<open>libdvbpsi\<close> parsed,
  compared, searched, edited and written as transport packets.

  The structures are records with the counters and arrays of the C code; a slot index past an
  array is undefined behaviour (\<open>None\<close>). A pointer to a PMT inside a PAT is the index of its
  program. The linked lists of \<open>libdvbpsi\<close> are lists; of that library only the fields that the
  code reads appear, as arguments. An array that a query allocates and fills from the front is
  the list of the elements written: there are never more of them than the streams it was
  allocated for.
\<close>

unbundle bit_operations_syntax

subsection \<open>The tables\<close>

record pmt_entry_s =
  stream_type :: u32
  elementary_PID :: u32
  es_descr_list :: descriptor_list_s

record pmt_s =
  pmt_version_number :: u32
  pmt_program_number :: u32
  pmt_current_next_indicator :: u32
  PCR_PID :: u32
  stream_count :: u32
  streams :: "pmt_entry_s list"
  pmt_descr_list :: descriptor_list_s

record pat_program_s =
  program_number :: u32
  program_map_PID :: u32
  program_pmt :: pmt_s
  service_id :: u16
  service_type :: u8
  service_name :: bytes
  service_provider :: bytes

record pat_s =
  transport_stream_id :: u32
  pat_version_number :: u32
  pat_current_next_indicator :: u32
  pat_descr_list :: descriptor_list_s
  program_count :: u32
  programs :: "pat_program_s list"

definition LTNTSTOOLS_PMT_ENTRIES_MAX :: nat where
  "LTNTSTOOLS_PMT_ENTRIES_MAX = 16"

definition LTNTSTOOLS_PAT_ENTRIES_MAX :: nat where
  "LTNTSTOOLS_PAT_ENTRIES_MAX = 64"

text \<open>What \<open>calloc\<close> returns, and how much the code asks it for.\<close>

definition zero_descr_list :: descriptor_list_s where
  "zero_descr_list = \<lparr>descr_count = 0,
     descr_array = replicate LTNTSTOOLS_DESCRIPTOR_ENTRIES_MAX
       \<lparr>descr_tag = 0, descr_len = 0, descr_data = replicate 256 0\<rparr>\<rparr>"

definition zero_pmt :: pmt_s where
  "zero_pmt = \<lparr>pmt_version_number = 0, pmt_program_number = 0, pmt_current_next_indicator = 0,
     PCR_PID = 0, stream_count = 0,
     streams = replicate LTNTSTOOLS_PMT_ENTRIES_MAX
       \<lparr>stream_type = 0, elementary_PID = 0, es_descr_list = zero_descr_list\<rparr>,
     pmt_descr_list = zero_descr_list\<rparr>"

definition zero_program :: pat_program_s where
  "zero_program = \<lparr>program_number = 0, program_map_PID = 0, program_pmt = zero_pmt, service_id = 0,
     service_type = 0, service_name = replicate 32 0, service_provider = replicate 32 0\<rparr>"

definition zero_pat :: pat_s where
  "zero_pat = \<lparr>transport_stream_id = 0, pat_version_number = 0, pat_current_next_indicator = 0,
     pat_descr_list = zero_descr_list, program_count = 0,
     programs = replicate LTNTSTOOLS_PAT_ENTRIES_MAX zero_program\<rparr>"

definition pat_size :: nat where
  "pat_size = 4514100"

definition ltntstools_pat_alloc :: "allocator \<Rightarrow> pat_s option" where
  "ltntstools_pat_alloc alloc = (if alloc pat_size then Some zero_pat else None)"

definition ltntstools_pat_clone :: "allocator \<Rightarrow> pat_s option \<Rightarrow> pat_s option" where
  "ltntstools_pat_clone alloc patp =
     (case patp of None \<Rightarrow> None | Some pat \<Rightarrow> if alloc pat_size then Some pat else None)"

subsection \<open>From libdvbpsi\<close>

text \<open>The fields of the parsed tables that the conversion reads.\<close>

type_synonym dvbpsi_descriptors = "(u8 \<times> bytes) list"
type_synonym dvbpsi_es = "u8 \<times> u16 \<times> dvbpsi_descriptors"

record dvbpsi_pat =
  i_ts_id :: u16
  pat_i_version :: u8
  pat_b_current_next :: bool
  p_first_program :: "(u16 \<times> u16) list"

record dvbpsi_pmt =
  i_program_number :: u16
  pmt_i_version :: u8
  pmt_b_current_next :: bool
  i_pcr_pid :: u16
  p_first_descriptor :: dvbpsi_descriptors
  p_first_es :: "dvbpsi_es list"

primrec pat_add_programs :: "pat_s \<Rightarrow> (u16 \<times> u16) list \<Rightarrow> pat_s mem" where
  "pat_add_programs p [] = Some p"
| "pat_add_programs p (e # es) =
     (if unat (program_count p) < LTNTSTOOLS_PAT_ENTRIES_MAX
      then do { g \<leftarrow> rd (programs p) (unat (program_count p));
                let g = g\<lparr>program_number := ucast (fst e), program_map_PID := ucast (snd e)\<rparr>;
                pat_add_programs (p\<lparr>programs := (programs p)[unat (program_count p) := g],
                                    program_count := program_count p + 1\<rparr>) es }
      else Some p)"

text \<open>The allocation is not checked before it is written to.\<close>

definition ltntstools_pat_alloc_from_existing ::
  "allocator \<Rightarrow> dvbpsi_pat option \<Rightarrow> pat_s option mem" where
  "ltntstools_pat_alloc_from_existing alloc patp =
     (case patp of
        None \<Rightarrow> Some None
      | Some d \<Rightarrow>
          do { p \<leftarrow> ltntstools_pat_alloc alloc;
               let p = p\<lparr>transport_stream_id := ucast (i_ts_id d),
                         pat_version_number := ucast (pat_i_version d),
                         pat_current_next_indicator := of_bool (pat_b_current_next d)\<rparr>;
               p \<leftarrow> pat_add_programs p (p_first_program d);
               Some (Some p) })"

text \<open>The return code of the insertion is ignored.\<close>

primrec pat_add_descriptors :: "descriptor_list_s \<Rightarrow> dvbpsi_descriptors \<Rightarrow> descriptor_list_s mem" where
  "pat_add_descriptors list [] = Some list"
| "pat_add_descriptors list (x # xs) =
     do { (list, ret) \<leftarrow>
            ltntstools_descriptor_list_add (Some list) (fst x) (Some (snd x)) (of_nat (length (snd x)));
          pat_add_descriptors list xs }"

primrec pmt_add_streams :: "pmt_s \<Rightarrow> dvbpsi_es list \<Rightarrow> pmt_s mem" where
  "pmt_add_streams e [] = Some e"
| "pmt_add_streams e (x # xs) =
     (if unat (stream_count e) < LTNTSTOOLS_PMT_ENTRIES_MAX
      then do { es \<leftarrow> rd (streams e) (unat (stream_count e));
                let es = es\<lparr>stream_type := ucast (fst x), elementary_PID := ucast (fst (snd x))\<rparr>;
                list \<leftarrow> pat_add_descriptors (es_descr_list es) (snd (snd x));
                let es = es\<lparr>es_descr_list := list\<rparr>;
                pmt_add_streams (e\<lparr>streams := (streams e)[unat (stream_count e) := es],
                                   stream_count := stream_count e + 1\<rparr>) xs }
      else Some e)"

text \<open>The search for the program of a PMT: from index \<open>i\<close> on, with \<open>n\<close> indices left.\<close>

fun pat_find_program :: "u32 \<Rightarrow> pat_s \<Rightarrow> nat \<Rightarrow> nat \<Rightarrow> nat option mem" where
  "pat_find_program num pat i 0 = Some None"
| "pat_find_program num pat i (Suc n) =
     do { g \<leftarrow> rd (programs pat) i;
          if program_number g = num then Some (Some i) else pat_find_program num pat (i + 1) n }"

definition pmt_add_dvbpsi :: "pmt_s \<Rightarrow> dvbpsi_pmt \<Rightarrow> pmt_s mem" where
  "pmt_add_dvbpsi e d =
     do { let e = e\<lparr>pmt_version_number := ucast (pmt_i_version d),
                    pmt_program_number := ucast (i_program_number d),
                    pmt_current_next_indicator := of_bool (pmt_b_current_next d),
                    PCR_PID := ucast (i_pcr_pid d)\<rparr>;
          list \<leftarrow> pat_add_descriptors (pmt_descr_list e) (p_first_descriptor d);
          pmt_add_streams (e\<lparr>pmt_descr_list := list\<rparr>) (p_first_es d) }"

definition ltntstools_pat_add_from_existing ::
  "pat_s option \<Rightarrow> dvbpsi_pmt option \<Rightarrow> pat_s option mem" where
  "ltntstools_pat_add_from_existing patp pmtp =
     (case (patp, pmtp) of
        (Some pat, Some d) \<Rightarrow>
          do { r \<leftarrow> pat_find_program (ucast (i_program_number d)) pat 0 (unat (program_count pat));
               case r of
                 None \<Rightarrow> Some (Some pat)
               | Some i \<Rightarrow>
                   do { pp \<leftarrow> rd (programs pat) i;
                        e \<leftarrow> pmt_add_dvbpsi (program_pmt pp) d;
                        Some (Some (pat\<lparr>programs := (programs pat)[i := pp\<lparr>program_pmt := e\<rparr>]\<rparr>)) }}
      | _ \<Rightarrow> Some patp)"

subsection \<open>Comparison\<close>

text \<open>0 is equality, -1 is difference.\<close>

definition ltntstools_pmt_entry_compare :: "pmt_entry_s \<Rightarrow> pmt_entry_s \<Rightarrow> int" where
  "ltntstools_pmt_entry_compare a b =
     (if stream_type a \<noteq> stream_type b then -1
      else if elementary_PID a \<noteq> elementary_PID b then -1 else 0)"

fun pmt_compare_loop :: "pmt_s \<Rightarrow> pmt_s \<Rightarrow> nat \<Rightarrow> nat \<Rightarrow> int mem" where
  "pmt_compare_loop a b i 0 = Some 0"
| "pmt_compare_loop a b i (Suc n) =
     do { x \<leftarrow> rd (streams a) i;
          y \<leftarrow> rd (streams b) i;
          if ltntstools_pmt_entry_compare x y \<noteq> 0 then Some (-1) else pmt_compare_loop a b (i + 1) n }"

definition ltntstools_pmt_compare :: "pmt_s \<Rightarrow> pmt_s \<Rightarrow> int mem" where
  "ltntstools_pmt_compare a b =
     (if pmt_version_number a \<noteq> pmt_version_number b then Some (-1)
      else if pmt_program_number a \<noteq> pmt_program_number b then Some (-1)
      else if PCR_PID a \<noteq> PCR_PID b then Some (-1)
      else if pmt_current_next_indicator a \<noteq> pmt_current_next_indicator b then Some (-1)
      else if stream_count a \<noteq> stream_count b then Some (-1)
      else pmt_compare_loop a b 0 (unat (stream_count a)))"

definition ltntstools_pat_program_compare :: "pat_program_s \<Rightarrow> pat_program_s \<Rightarrow> int mem" where
  "ltntstools_pat_program_compare a b =
     (if program_number a \<noteq> program_number b then Some (-1)
      else if program_map_PID a \<noteq> program_map_PID b then Some (-1)
      else ltntstools_pmt_compare (program_pmt a) (program_pmt b))"

fun pat_compare_loop :: "pat_s \<Rightarrow> pat_s \<Rightarrow> nat \<Rightarrow> nat \<Rightarrow> int mem" where
  "pat_compare_loop a b i 0 = Some 0"
| "pat_compare_loop a b i (Suc n) =
     do { x \<leftarrow> rd (programs a) i;
          y \<leftarrow> rd (programs b) i;
          r \<leftarrow> ltntstools_pat_program_compare x y;
          if r \<noteq> 0 then Some (-1) else pat_compare_loop a b (i + 1) n }"

definition ltntstools_pat_compare :: "pat_s \<Rightarrow> pat_s \<Rightarrow> int mem" where
  "ltntstools_pat_compare a b =
     (if transport_stream_id a \<noteq> transport_stream_id b then Some (-1)
      else if pat_version_number a \<noteq> pat_version_number b then Some (-1)
      else if pat_current_next_indicator a \<noteq> pat_current_next_indicator b then Some (-1)
      else if program_count a \<noteq> program_count b then Some (-1)
      else pat_compare_loop a b 0 (unat (program_count a)))"

subsection \<open>Queries on one PMT\<close>

text \<open>
  The loop over the streams of a PMT: the first stream that \<open>P\<close> accepts, and all of them.
  Testing a stream may itself read memory.
\<close>

fun stream_find :: "(pmt_entry_s \<Rightarrow> bool mem) \<Rightarrow> pmt_s \<Rightarrow> nat \<Rightarrow> nat \<Rightarrow> pmt_entry_s option mem" where
  "stream_find P e j 0 = Some None"
| "stream_find P e j (Suc n) =
     do { s \<leftarrow> rd (streams e) j;
          b \<leftarrow> P s;
          if b then Some (Some s) else stream_find P e (j + 1) n }"

definition stream_first :: "(pmt_entry_s \<Rightarrow> bool mem) \<Rightarrow> pmt_s \<Rightarrow> pmt_entry_s option mem" where
  "stream_first P e = stream_find P e 0 (unat (stream_count e))"

fun stream_collect :: "(pmt_entry_s \<Rightarrow> bool mem) \<Rightarrow> pmt_s \<Rightarrow> nat \<Rightarrow> nat \<Rightarrow> (nat \<times> pmt_entry_s) list mem" where
  "stream_collect P e j 0 = Some []"
| "stream_collect P e j (Suc n) =
     do { s \<leftarrow> rd (streams e) j;
          b \<leftarrow> P s;
          ss \<leftarrow> stream_collect P e (j + 1) n;
          Some (if b then (j, s) # ss else ss) }"

definition stream_all :: "(pmt_entry_s \<Rightarrow> bool mem) \<Rightarrow> pmt_s \<Rightarrow> (nat \<times> pmt_entry_s) list mem" where
  "stream_all P e = stream_collect P e 0 (unat (stream_count e))"

definition is_video :: "pmt_entry_s \<Rightarrow> bool mem" where
  "is_video s = Some (ltntstools_is_ESPayloadType_Video (ucast (stream_type s)))"

definition is_teletext :: "pmt_entry_s \<Rightarrow> bool mem" where
  "is_teletext s = ltntstools_descriptor_list_contains_teletext (es_descr_list s)"

text \<open>\<open>Some None\<close> is the return code -1; otherwise \<open>*pid\<close> and \<open>*estype\<close>.\<close>

definition ltntstools_pmt_query_video_pid :: "pmt_s option \<Rightarrow> (u16 \<times> u8) option mem" where
  "ltntstools_pmt_query_video_pid ep =
     (case ep of
        None \<Rightarrow> Some None
      | Some e \<Rightarrow>
          map_option (map_option (\<lambda>s. (ucast (elementary_PID s), ucast (stream_type s)))) (stream_first is_video e))"

definition audio_descriptor_tags :: "u8 set" where
  "audio_descriptor_tags = {0x03, 0x1c, 0x2b, 0x6a, 0x7a, 0x7c}"

text \<open>1, 0, or the tag of the descriptor that marks private data as audio.\<close>

definition ltntstools_pmt_entry_is_audio :: "pmt_entry_s \<Rightarrow> int mem" where
  "ltntstools_pmt_entry_is_audio s =
     (if ltntstools_is_ESPayloadType_Audio (ucast (stream_type s)) then Some 1
      else if stream_type s \<noteq> 0x06 then Some 0
      else do { r \<leftarrow> descriptor_list_first (\<lambda>d. descr_tag d \<in> audio_descriptor_tags) (es_descr_list s);
                Some (case r of None \<Rightarrow> 0 | Some d \<Rightarrow> uint (descr_tag d)) })"

definition is_audio :: "pmt_entry_s \<Rightarrow> bool mem" where
  "is_audio s = map_option (\<lambda>r. r \<noteq> 0) (ltntstools_pmt_entry_is_audio s)"

text \<open>
  The array of pointers to the audio streams, as their indices, and \<open>*pid_count\<close>; the array
  is \<open>None\<close> (\<open>NULL\<close>) when there are none or it cannot be allocated.
\<close>

definition ltntstools_pmt_enum_services_audio :: "allocator \<Rightarrow> pmt_s \<Rightarrow> (nat list option \<times> int) mem" where
  "ltntstools_pmt_enum_services_audio alloc e =
     (if \<not> alloc (unat (stream_count e) * 8) then Some (None, 0)
      else do { ss \<leftarrow> stream_all is_audio e;
                Some (if ss = [] then None else Some (map fst ss), int (length ss)) })"

text \<open>
  The removal of a stream: the streams behind it are moved up by one place. The slot that
  becomes free keeps what was in it.
\<close>

fun pmt_remove_loop :: "u32 \<Rightarrow> pmt_s \<Rightarrow> nat \<Rightarrow> nat \<Rightarrow> pmt_s mem" where
  "pmt_remove_loop pid e i 0 = Some e"
| "pmt_remove_loop pid e i (Suc n) =
     do { s \<leftarrow> rd (streams e) i;
          if elementary_PID s = pid
          then if (of_nat i :: u32) = stream_count e - 1
               then Some (e\<lparr>stream_count := stream_count e - 1\<rparr>)
               else do { src \<leftarrow> rdn (streams e) (i + 1) (unat (stream_count e) - i - 1);
                         ss \<leftarrow> wr (streams e) i src;
                         Some (e\<lparr>streams := ss, stream_count := stream_count e - 1\<rparr>) }
          else pmt_remove_loop pid e (i + 1) n }"

definition ltntstools_pmt_remove_es_for_pid :: "pmt_s option \<Rightarrow> u16 \<Rightarrow> (pmt_s option \<times> int) mem" where
  "ltntstools_pmt_remove_es_for_pid ep pid =
     (case ep of
        None \<Rightarrow> Some (None, -1)
      | Some e \<Rightarrow> do { e \<leftarrow> pmt_remove_loop (ucast pid) e 0 (unat (stream_count e)); Some (Some e, 0) })"

subsection \<open>Enumerations over the programs\<close>

text \<open>
  The caller keeps the position \<open>*e\<close>, an \<open>int\<close>, and calls until the return code is -1. The
  comparisons with the program counter are unsigned. A result is the return code, \<open>*e\<close> and
  the index of the program whose PMT \<open>*pmtptr\<close> points to, if it was set.
\<close>

definition enum_past_end :: "pat_s \<Rightarrow> int \<Rightarrow> bool mem" where
  "enum_past_end pat e =
     (if e + 1 < 2 ^ 31 then Some ((word_of_int (e + 1) :: u32) > program_count pat) else None)"

text \<open>The iterations of \<open>for (int i = *e; i < pat->program_count; i++)\<close>.\<close>

definition enum_span :: "pat_s \<Rightarrow> int \<Rightarrow> nat" where
  "enum_span pat e = unat (program_count pat) - unat (word_of_int e :: u32)"

definition program_at :: "pat_s \<Rightarrow> int \<Rightarrow> pat_program_s mem" where
  "program_at pat e = (if 0 \<le> e then rd (programs pat) (nat e) else None)"

fun enum_loop :: "(pat_program_s \<Rightarrow> bool mem) \<Rightarrow> pat_s \<Rightarrow> int \<Rightarrow> nat \<Rightarrow> (int \<times> int \<times> nat option) mem" where
  "enum_loop P pat e 0 = Some (-1, e, None)"
| "enum_loop P pat e (Suc n) =
     do { g \<leftarrow> program_at pat e;
          b \<leftarrow> P g;
          if b then Some (0, e + 1, Some (nat e)) else enum_loop P pat (e + 1) n }"

definition pat_enum :: "(pat_program_s \<Rightarrow> bool mem) \<Rightarrow> pat_s \<Rightarrow> int \<Rightarrow> (int \<times> int \<times> nat option) mem" where
  "pat_enum P pat e =
     do { done \<leftarrow> enum_past_end pat e;
          if done then Some (-1, e, None) else enum_loop P pat e (enum_span pat e) }"

definition has_stream :: "(pmt_entry_s \<Rightarrow> bool mem) \<Rightarrow> pat_program_s \<Rightarrow> bool mem" where
  "has_stream P g = map_option (\<lambda>r. r \<noteq> None) (stream_first P (program_pmt g))"

text \<open>
  \<open>given\<close> tells whether both \<open>e\<close> and \<open>pmtptr\<close> are there; without one of them the code returns -1 and
  touches nothing. The table itself is not checked here. The enumerations further down check it
  too: their \<open>None\<close> is any argument that is \<open>NULL\<close>.
\<close>

definition ltntstools_pat_enum_services_video :: "pat_s \<Rightarrow> bool \<Rightarrow> int \<Rightarrow> (int \<times> int \<times> nat option) mem" where
  "ltntstools_pat_enum_services_video pat given e =
     (if \<not> given then Some (-1, e, None) else pat_enum (has_stream is_video) pat e)"

definition ltntstools_pat_enum_services_teletext :: "pat_s \<Rightarrow> bool \<Rightarrow> int \<Rightarrow> (int \<times> int \<times> nat option) mem" where
  "ltntstools_pat_enum_services_teletext pat given e =
     (if \<not> given then Some (-1, e, None) else pat_enum (has_stream is_teletext) pat e)"

definition ltntstools_pat_enum_services :: "pat_s \<Rightarrow> u16 \<Rightarrow> bool \<Rightarrow> int \<Rightarrow> (int \<times> int \<times> nat option) mem" where
  "ltntstools_pat_enum_services pat pid given e =
     (if \<not> given then Some (-1, e, None)
      else pat_enum (\<lambda>g. Some (program_map_PID g = ucast pid)) pat e)"

text \<open>The enumeration of SMPTE 2038 services, which yields the PID of the stream too.\<close>

definition is_smpte2038 :: "pmt_entry_s \<Rightarrow> bool mem" where
  "is_smpte2038 s =
     (if stream_type s \<noteq> 0x06 then Some False
      else ltntstools_descriptor_list_contains_smpte2038_registration (es_descr_list s))"

fun enum_smpte2038_loop :: "pat_s \<Rightarrow> int \<Rightarrow> int \<Rightarrow> nat \<Rightarrow> (int \<times> int \<times> (nat \<times> u16) option) mem" where
  "enum_smpte2038_loop pat i e 0 = Some (-1, e, None)"
| "enum_smpte2038_loop pat i e (Suc n) =
     do { g \<leftarrow> program_at pat i;
          if pmt_program_number (program_pmt g) = 0 then enum_smpte2038_loop pat (i + 1) (e + 1) n
          else do { r \<leftarrow> stream_first is_smpte2038 (program_pmt g);
                    case r of
                      Some s \<Rightarrow> Some (0, e + 1, Some (nat i, ucast (elementary_PID s)))
                    | None \<Rightarrow> enum_smpte2038_loop pat (i + 1) (e + 1) n } }"

definition ltntstools_pat_enum_services_smpte2038 ::
  "pat_s option \<Rightarrow> int \<Rightarrow> (int \<times> int \<times> (nat \<times> u16) option) mem" where
  "ltntstools_pat_enum_services_smpte2038 patp e =
     (case patp of
        None \<Rightarrow> Some (-1, e, None)
      | Some pat \<Rightarrow>
          do { done \<leftarrow> enum_past_end pat e;
               if done then Some (-1, e, None) else enum_smpte2038_loop pat e e (enum_span pat e) })"

text \<open>
  The enumerations of SCTE-35 and audio services run over all programs, from 0, but look at
  program \<open>*e\<close>. Their results carry the collected PIDs (and stream types).
\<close>

definition is_scte35 :: "pmt_entry_s \<Rightarrow> bool mem" where
  "is_scte35 s = Some (stream_type s = 0x86)"

fun enum_scte35_loop :: "allocator \<Rightarrow> pat_s \<Rightarrow> int \<Rightarrow> nat \<Rightarrow> (int \<times> int \<times> (nat \<times> u16 list) option) mem" where
  "enum_scte35_loop alloc pat e 0 = Some (-1, e, None)"
| "enum_scte35_loop alloc pat e (Suc n) =
     do { g \<leftarrow> program_at pat e;
          let m = program_pmt g;
          cue \<leftarrow> ltntstools_descriptor_list_contains_scte35_cue_registration (pmt_descr_list m);
          if \<not> cue then enum_scte35_loop alloc pat (e + 1) n
          else if \<not> alloc (unat (stream_count m) * 2) then Some (-1, e, None)
          else do { ss \<leftarrow> stream_all is_scte35 m;
                    if ss \<noteq> [] then Some (0, e + 1, Some (nat e, map (\<lambda>(j, s). ucast (elementary_PID s)) ss))
                    else enum_scte35_loop alloc pat e n } }"

definition ltntstools_pat_enum_services_scte35 ::
  "allocator \<Rightarrow> pat_s option \<Rightarrow> int \<Rightarrow> (int \<times> int \<times> (nat \<times> u16 list) option) mem" where
  "ltntstools_pat_enum_services_scte35 alloc patp e =
     (case patp of
        None \<Rightarrow> Some (-1, e, None)
      | Some pat \<Rightarrow>
          do { done \<leftarrow> enum_past_end pat e;
               if done then Some (-1, e, None) else enum_scte35_loop alloc pat e (unat (program_count pat)) })"

fun enum_audio_loop :: "allocator \<Rightarrow> pat_s \<Rightarrow> int \<Rightarrow> nat \<Rightarrow> (int \<times> int \<times> (nat \<times> (u32 \<times> u16) list) option) mem" where
  "enum_audio_loop alloc pat e 0 = Some (-1, e, None)"
| "enum_audio_loop alloc pat e (Suc n) =
     do { g \<leftarrow> program_at pat e;
          let m = program_pmt g;
          if \<not> alloc (unat (stream_count m) * 2) then Some (-1, e, None)
          else if \<not> alloc (unat (stream_count m) * 4) then Some (-1, e, None)
          else do { ss \<leftarrow> stream_all is_audio m;
                    if ss \<noteq> []
                    then Some (0, e + 1, Some (nat e, map (\<lambda>(j, s). (stream_type s, ucast (elementary_PID s))) ss))
                    else enum_audio_loop alloc pat (e + 1) n } }"

definition ltntstools_pat_enum_services_audio ::
  "allocator \<Rightarrow> pat_s option \<Rightarrow> int \<Rightarrow> (int \<times> int \<times> (nat \<times> (u32 \<times> u16) list) option) mem" where
  "ltntstools_pat_enum_services_audio alloc patp e =
     (case patp of
        None \<Rightarrow> Some (-1, e, None)
      | Some pat \<Rightarrow>
          do { done \<leftarrow> enum_past_end pat e;
               if done then Some (-1, e, None) else enum_audio_loop alloc pat e (unat (program_count pat)) })"

text \<open>The teletext PIDs of all programs: one pass to count them, one to copy them.\<close>

fun teletext_pass :: "pat_s \<Rightarrow> nat \<Rightarrow> nat \<Rightarrow> u16 list mem" where
  "teletext_pass pat i 0 = Some []"
| "teletext_pass pat i (Suc n) =
     do { g \<leftarrow> rd (programs pat) i;
          ss \<leftarrow> stream_all is_teletext (program_pmt g);
          rest \<leftarrow> teletext_pass pat (i + 1) n;
          Some (map (\<lambda>(j, s). ucast (elementary_PID s)) ss @ rest) }"

definition ltntstools_pat_get_services_teletext ::
  "allocator \<Rightarrow> pat_s option \<Rightarrow> (int \<times> u16 list option \<times> int) mem" where
  "ltntstools_pat_get_services_teletext alloc patp =
     (case patp of
        None \<Rightarrow> Some (-1, None, 0)
      | Some pat \<Rightarrow>
          do { counted \<leftarrow> teletext_pass pat 0 (unat (program_count pat));
               if \<not> alloc (length counted * 2) then Some (-1, None, 0)
               else do { pids \<leftarrow> teletext_pass pat 0 (unat (program_count pat));
                         Some (0, Some pids, int (length counted)) } })"

subsection \<open>Packets\<close>

text \<open>
  A run of \<open>p[i++] = b\<close>: the buffer and the index behind the last byte written. The caller's
  buffer may be longer than the packet; a write is undefined when it leaves the buffer.
\<close>

definition put :: "bytes \<times> nat \<Rightarrow> bytes \<Rightarrow> (bytes \<times> nat) mem" where
  "put w bs = map_option (\<lambda>p. (p, snd w + length bs)) (wr (fst w) (snd w) bs)"

definition put_crc :: "bytes \<times> nat \<Rightarrow> (bytes \<times> nat) mem" where
  "put_crc w =
     do { r \<leftarrow> ltntstools_getCRC32 (Some (drop 5 (fst w))) (int (snd w) - 5) True;
          crc \<leftarrow> r;
          put w [ucast (drop_bit 24 crc AND 0xff), ucast (drop_bit 16 crc AND 0xff),
                 ucast (drop_bit 8 crc AND 0xff), ucast (crc AND 0xff)] }"

text \<open>
  The byte with the version: the version is compared with 1 where it should be shifted by 1.
\<close>

definition version_byte :: "u32 \<Rightarrow> u32 \<Rightarrow> u8" where
  "version_byte version current_next = ucast (0xc0 OR of_bool (version AND 0x1f < 1) OR current_next :: u32)"

fun put_programs :: "pat_s \<Rightarrow> bytes \<times> nat \<Rightarrow> nat \<Rightarrow> nat \<Rightarrow> (bytes \<times> nat) mem" where
  "put_programs pat w j 0 = Some w"
| "put_programs pat w j (Suc n) =
     do { g \<leftarrow> rd (programs pat) j;
          w \<leftarrow> put w [ucast (drop_bit 8 (pmt_program_number (program_pmt g))),
                       ucast (pmt_program_number (program_pmt g)),
                       ucast (0xe0 OR (drop_bit 8 (program_map_PID g) AND 0x1f)),
                       ucast (program_map_PID g AND 0xff)];
          put_programs pat w (j + 1) n }"

definition ltntstools_pat_create_packet_ts ::
  "pat_s option \<Rightarrow> u8 \<Rightarrow> bytes option \<Rightarrow> int \<Rightarrow> (bytes option \<times> int) mem" where
  "ltntstools_pat_create_packet_ts patp cc packetp packetLength =
     (case (patp, packetp) of
        (Some pat, Some packet) \<Rightarrow>
          if packetLength \<noteq> 188 then Some (packetp, -1)
          else do { p \<leftarrow> wr packet 0 (replicate 188 0xff);
                    w \<leftarrow> put (p, 0)
                      [0x47, 0x40, 0x00, 0x10 OR (cc AND 0x0f), 0x00,
                       0x00, 0xb0, ucast (9 + program_count pat * 4),
                       ucast (drop_bit 8 (transport_stream_id pat)), ucast (transport_stream_id pat),
                       version_byte (pat_version_number pat) (pat_current_next_indicator pat), 0x00, 0x00];
                    w \<leftarrow> put_programs pat w 0 (unat (program_count pat));
                    w \<leftarrow> put_crc w;
                    Some (Some (fst w), 0) }
      | _ \<Rightarrow> Some (packetp, -1))"

text \<open>The bytes that a list of descriptors takes, and the loop that writes them.\<close>

fun descr_list_length :: "descriptor_list_s \<Rightarrow> nat \<Rightarrow> nat \<Rightarrow> nat mem" where
  "descr_list_length list j 0 = Some 0"
| "descr_list_length list j (Suc n) =
     do { d \<leftarrow> rd (descr_array list) j;
          l \<leftarrow> descr_list_length list (j + 1) n;
          Some (unat (descr_len d) + 2 + l) }"

fun put_descriptors :: "descriptor_list_s \<Rightarrow> bytes \<times> nat \<Rightarrow> nat \<Rightarrow> nat \<Rightarrow> (bytes \<times> nat) mem" where
  "put_descriptors list w j 0 = Some w"
| "put_descriptors list w j (Suc n) =
     do { d \<leftarrow> rd (descr_array list) j;
          w \<leftarrow> put w [descr_tag d, descr_len d];
          data \<leftarrow> rdn (descr_data d) 0 (unat (descr_len d));
          w \<leftarrow> put w data;
          put_descriptors list w (j + 1) n }"

fun streams_descr_length :: "pmt_s \<Rightarrow> nat \<Rightarrow> nat \<Rightarrow> nat mem" where
  "streams_descr_length e j 0 = Some 0"
| "streams_descr_length e j (Suc n) =
     do { s \<leftarrow> rd (streams e) j;
          l \<leftarrow> descr_list_length (es_descr_list s) 0 (unat (descr_count (es_descr_list s)));
          ls \<leftarrow> streams_descr_length e (j + 1) n;
          Some (l + ls) }"

fun put_streams :: "pmt_s \<Rightarrow> bytes \<times> nat \<Rightarrow> nat \<Rightarrow> nat \<Rightarrow> (bytes \<times> nat) mem" where
  "put_streams e w j 0 = Some w"
| "put_streams e w j (Suc n) =
     do { s \<leftarrow> rd (streams e) j;
          w \<leftarrow> put w [ucast (stream_type s), ucast (0xe0 OR drop_bit 8 (elementary_PID s AND 0x1fff)),
                       ucast (elementary_PID s)];
          innerLen \<leftarrow> descr_list_length (es_descr_list s) 0 (unat (descr_count (es_descr_list s)));
          w \<leftarrow> put w [ucast (0xf0 OR drop_bit 8 ((of_nat innerLen :: u32) AND 0xfff)), of_nat innerLen];
          w \<leftarrow> put_descriptors (es_descr_list s) w 0 (unat (descr_count (es_descr_list s)));
          put_streams e w (j + 1) n }"

definition ltntstools_pmt_create_packet_ts ::
  "pmt_s option \<Rightarrow> u16 \<Rightarrow> u8 \<Rightarrow> bytes option \<Rightarrow> int \<Rightarrow> (bytes option \<times> int) mem" where
  "ltntstools_pmt_create_packet_ts ep pid cc packetp packetLength =
     (case (ep, packetp) of
        (Some e, Some packet) \<Rightarrow>
          if packetLength \<noteq> 188 then Some (packetp, -1)
          else do { p \<leftarrow> wr packet 0 (replicate 188 0xff);
                    outerLen \<leftarrow> descr_list_length (pmt_descr_list e) 0 (unat (descr_count (pmt_descr_list e)));
                    innerLenTotal \<leftarrow> streams_descr_length e 0 (unat (stream_count e));
                    w \<leftarrow> put (p, 0)
                      [0x47, ucast (0x40 OR drop_bit 8 (pid AND 0x1fff)), ucast (pid AND 0xff),
                       0x10 OR (cc AND 0x0f), 0x00,
                       0x02, 0xb0,
                       ucast (9 + 4 + stream_count e * 5 + of_nat outerLen + of_nat innerLenTotal),
                       ucast (drop_bit 8 (pmt_program_number e)), ucast (pmt_program_number e),
                       version_byte (pmt_version_number e) (pmt_current_next_indicator e), 0x00, 0x00,
                       ucast (0xe0 OR drop_bit 8 (PCR_PID e AND 0x1fff)), ucast (PCR_PID e),
                       ucast (0xf0 OR drop_bit 8 ((of_nat outerLen :: u32) AND 0xfff)), of_nat outerLen];
                    w \<leftarrow> put_descriptors (pmt_descr_list e) w 0 (unat (descr_count (pmt_descr_list e)));
                    w \<leftarrow> put_streams e w 0 (unat (stream_count e));
                    w \<leftarrow> put_crc w;
                    Some (Some (fst w), 0) }
      | _ \<Rightarrow> Some (packetp, -1))"

text \<open>
  The variant that leaves the coding of the section to \<open>libdvbpsi\<close>. A section of that library
  is its bytes from \<open>p_data\<close> on, the offset of \<open>p_payload_end\<close> in them and its syntax indicator.
  \<open>writePSI\<close> writes every packet of every section over the same 188 bytes.
\<close>

record dvbpsi_psi_section =
  p_data :: bytes
  p_payload_end :: nat
  b_syntax_indicator :: bool

definition psi_fill :: "bytes \<Rightarrow> nat \<Rightarrow> bytes \<Rightarrow> bytes mem" where
  "psi_fill packet pos bs =
     wr packet pos (take (188 - pos) bs @ replicate (188 - pos - length bs) 0xff)"

definition psi_set :: "bytes \<Rightarrow> nat \<Rightarrow> (u8 \<Rightarrow> u8) \<Rightarrow> bytes mem" where
  "psi_set packet i f = do { b \<leftarrow> rd packet i; Some (packet[i := f b]) }"

function writePSI_rest :: "bytes \<Rightarrow> bytes \<Rightarrow> bytes mem" where
  "writePSI_rest packet bs =
     (if bs = [] then Some packet
      else do { packet \<leftarrow> psi_set packet 1 (\<lambda>b. b AND 0xbf);
                packet \<leftarrow> psi_set packet 3 (\<lambda>b. (b AND 0x0f) OR 0x10);
                packet \<leftarrow> psi_fill packet 4 bs;
                packet \<leftarrow> psi_set packet 3 (\<lambda>b. (b + 1) AND 0x0f);
                writePSI_rest packet (drop 184 bs) })"
  by pat_completeness auto
termination
  by (relation "measure (\<lambda>(packet, bs). length bs)") auto

definition writePSI_section :: "bytes \<Rightarrow> dvbpsi_psi_section \<Rightarrow> bytes mem" where
  "writePSI_section packet sec =
     do { bs \<leftarrow> rdn (p_data sec) 0 (p_payload_end sec + (if b_syntax_indicator sec then 4 else 0));
          packet \<leftarrow> psi_set packet 1 (\<lambda>b. b OR 0x40);
          packet \<leftarrow> psi_set packet 3 (\<lambda>b. (b AND 0x0f) OR 0x10);
          packet \<leftarrow> psi_set packet 4 (\<lambda>b. 0x00);
          packet \<leftarrow> psi_fill packet 5 bs;
          packet \<leftarrow> psi_set packet 3 (\<lambda>b. (b + 1) AND 0x0f);
          writePSI_rest packet (drop 183 bs) }"

primrec writePSI_sections :: "bytes \<Rightarrow> dvbpsi_psi_section list \<Rightarrow> bytes mem" where
  "writePSI_sections packet [] = Some packet"
| "writePSI_sections packet (sec # secs) =
     do { packet \<leftarrow> writePSI_section packet sec; writePSI_sections packet secs }"

definition writePSI :: "bytes \<Rightarrow> dvbpsi_psi_section list \<Rightarrow> bytes mem" where
  "writePSI packet secs = do { packet \<leftarrow> psi_set packet 0 (\<lambda>b. 0x47); writePSI_sections packet secs }"

text \<open>
  What the function calls in \<open>libdvbpsi\<close>: the constructor of a PMT, the operations that add to
  it, where a stream is the handle they return, and the generator of its sections.
\<close>

record ('p, 'h) dvbpsi_api =
  dvbpsi_pmt_new :: "u16 \<Rightarrow> u8 \<Rightarrow> bool \<Rightarrow> u16 \<Rightarrow> 'p"
  dvbpsi_pmt_descriptor_add :: "'p \<Rightarrow> u8 \<Rightarrow> u8 \<Rightarrow> bytes \<Rightarrow> 'p"
  dvbpsi_pmt_es_add :: "'p \<Rightarrow> u8 \<Rightarrow> u16 \<Rightarrow> 'p \<times> 'h"
  dvbpsi_pmt_es_descriptor_add :: "'p \<Rightarrow> 'h \<Rightarrow> u8 \<Rightarrow> u8 \<Rightarrow> bytes \<Rightarrow> 'p"
  dvbpsi_pmt_sections_generate :: "'p \<Rightarrow> dvbpsi_psi_section list"

fun ts2_descriptors :: "('p \<Rightarrow> u8 \<Rightarrow> u8 \<Rightarrow> bytes \<Rightarrow> 'p) \<Rightarrow> descriptor_list_s \<Rightarrow> 'p \<Rightarrow> nat \<Rightarrow> nat \<Rightarrow> 'p mem" where
  "ts2_descriptors add list p j 0 = Some p"
| "ts2_descriptors add list p j (Suc n) =
     do { d \<leftarrow> rd (descr_array list) j;
          ts2_descriptors add list (add p (descr_tag d) (descr_len d) (descr_data d)) (j + 1) n }"

fun ts2_streams :: "('p, 'h) dvbpsi_api \<Rightarrow> pmt_s \<Rightarrow> 'p \<Rightarrow> nat \<Rightarrow> nat \<Rightarrow> 'p mem" where
  "ts2_streams api e p i 0 = Some p"
| "ts2_streams api e p i (Suc n) =
     do { s \<leftarrow> rd (streams e) i;
          let (p, h) = dvbpsi_pmt_es_add api p (ucast (stream_type s)) (ucast (elementary_PID s));
          p \<leftarrow> ts2_descriptors (\<lambda>p. dvbpsi_pmt_es_descriptor_add api p h) (es_descr_list s) p 0
                 (unat (descr_count (es_descr_list s)));
          ts2_streams api e p (i + 1) n }"

definition ltntstools_pmt_create_packet_ts2 ::
  "('p, 'h) dvbpsi_api \<Rightarrow> pmt_s option \<Rightarrow> u16 \<Rightarrow> u8 \<Rightarrow> bytes option \<Rightarrow> int \<Rightarrow> (bytes option \<times> int) mem" where
  "ltntstools_pmt_create_packet_ts2 api ep pid cc packetp packetLength =
     (case (ep, packetp) of
        (Some e, Some packet) \<Rightarrow>
          if packetLength \<noteq> 188 then Some (packetp, -1)
          else do { let p = dvbpsi_pmt_new api (ucast (pmt_program_number e)) (ucast (pmt_version_number e))
                              (pmt_current_next_indicator e \<noteq> 0) (ucast (PCR_PID e));
                    p \<leftarrow> ts2_descriptors (dvbpsi_pmt_descriptor_add api) (pmt_descr_list e) p 0
                           (unat (descr_count (pmt_descr_list e)));
                    p \<leftarrow> ts2_streams api e p 0 (unat (stream_count e));
                    packet \<leftarrow> wr packet 0 (replicate 188 0);
                    packet \<leftarrow> wr packet 0 [0x47, ucast (drop_bit 8 (pid AND 0x1fff)), ucast (pid AND 0xff),
                                           0x00 OR (cc AND 0x0f)];
                    packet \<leftarrow> writePSI packet (dvbpsi_pmt_sections_generate api p);
                    Some (Some packet, 0) }
      | _ \<Rightarrow> Some (packetp, -1))"

subsection \<open>The invariant\<close>

text \<open>
  The arrays have their sizes, the counters are within them, and the stream slots that are not
  in use hold no descriptors. What a PMT lists is its streams; what a PAT lists is its programs.
\<close>

definition es_value :: "pmt_entry_s \<Rightarrow> u32 \<times> u32 \<times> (u8 \<times> bytes) list" where
  "es_value s = (stream_type s, elementary_PID s, descriptors (es_descr_list s))"

definition listed_streams :: "pmt_s \<Rightarrow> pmt_entry_s list" where
  "listed_streams e = take (unat (stream_count e)) (streams e)"

definition pmt_inv :: "pmt_s \<Rightarrow> bool" where
  "pmt_inv e \<longleftrightarrow> length (streams e) = 16 \<and> unat (stream_count e) \<le> 16
     \<and> list_all (\<lambda>s. descr_inv (es_descr_list s)) (streams e) \<and> descr_inv (pmt_descr_list e)"

definition pmt_fresh :: "pmt_s \<Rightarrow> bool" where
  "pmt_fresh e \<longleftrightarrow> list_all (\<lambda>s. descr_count (es_descr_list s) = 0) (drop (unat (stream_count e)) (streams e))"

definition listed_programs :: "pat_s \<Rightarrow> pat_program_s list" where
  "listed_programs pat = take (unat (program_count pat)) (programs pat)"

definition pat_inv :: "pat_s \<Rightarrow> bool" where
  "pat_inv pat \<longleftrightarrow> length (programs pat) = 64 \<and> unat (program_count pat) \<le> 64
     \<and> list_all (\<lambda>g. pmt_inv (program_pmt g)) (programs pat)"

lemma zero_inv: "descr_inv zero_descr_list" "pmt_inv zero_pmt" "pmt_fresh zero_pmt" "pat_inv zero_pat"
  by (simp_all add: descr_inv_def zero_descr_list_def pmt_inv_def zero_pmt_def pmt_fresh_def pat_inv_def
      zero_pat_def zero_program_def LTNTSTOOLS_PMT_ENTRIES_MAX_def LTNTSTOOLS_PAT_ENTRIES_MAX_def
      LTNTSTOOLS_DESCRIPTOR_ENTRIES_MAX_def list_all_iff)

lemma zero_lists [simp]: "descriptors zero_descr_list = []" "listed_streams zero_pmt = []" "listed_programs zero_pat = []"
  by (simp_all add: descriptors_def zero_descr_list_def listed_streams_def zero_pmt_def listed_programs_def zero_pat_def)

subsection \<open>Filling the tables\<close>

text \<open>The loops over the lists of \<open>libdvbpsi\<close> are the insertions of the bounded tables.\<close>

lemma pat_add_descriptors_all: "pat_add_descriptors list xs = dl.add_all list xs"
  by (induction xs arbitrary: list) (auto simp: descriptor_list_put_def map_option_case split: option.split)

lemma pat_add_descriptors_ok:
  assumes "descr_inv list" and "list_all descr_fits xs"
  shows "\<exists>list'. pat_add_descriptors list xs = Some list' \<and> descr_inv list'
    \<and> descriptors list' = take 16 (descriptors list @ xs)"
  using dl.add_all_ok [OF assms] by (simp add: pat_add_descriptors_all)

lemma unat_Suc_small: "unat (c :: u32) < 2 ^ 32 - 1 \<Longrightarrow> unat (c + 1) = Suc (unat c)"
  by (simp add: unat_word_ariths)

definition program_key :: "pat_program_s \<Rightarrow> u32 \<times> u32" where
  "program_key g = (program_number g, program_map_PID g)"

definition pat_put :: "pat_s \<Rightarrow> u32 \<times> u32 \<Rightarrow> pat_s mem" where
  "pat_put p x =
     (if unat (program_count p) < LTNTSTOOLS_PAT_ENTRIES_MAX
      then do { g \<leftarrow> rd (programs p) (unat (program_count p));
                let g = g\<lparr>program_number := fst x, program_map_PID := snd x\<rparr>;
                Some (p\<lparr>programs := (programs p)[unat (program_count p) := g],
                        program_count := program_count p + 1\<rparr>) }
      else Some p)"

interpretation pp: bounded_table pat_put pat_inv "\<lambda>x. True" "\<lambda>p. map program_key (listed_programs p)" 64
proof
  fix p and x
  assume inv: "pat_inv p"
  let ?n = "unat (program_count p)"
  have l: "length (map program_key (listed_programs p)) = ?n" using inv by (simp add: pat_inv_def listed_programs_def)
  show "length (map program_key (listed_programs p)) \<le> 64" using inv l by (simp add: pat_inv_def)
  show "pat_put p x = Some p" if "length (map program_key (listed_programs p)) = 64"
    using that unfolding l by (simp add: pat_put_def LTNTSTOOLS_PAT_ENTRIES_MAX_def)
  show "\<exists>t'. pat_put p x = Some t' \<and> pat_inv t'
      \<and> map program_key (listed_programs t') = map program_key (listed_programs p) @ [x]"
    if room: "length (map program_key (listed_programs p)) < 64"
  proof -
    have n: "?n < 64" using room unfolding l .
    have a: "length (programs p) = 64" "list_all (\<lambda>g. pmt_inv (program_pmt g)) (programs p)"
      using inv by (auto simp: pat_inv_def)
    define g where "g = (programs p ! ?n)\<lparr>program_number := fst x, program_map_PID := snd x\<rparr>"
    define q where "q = p\<lparr>programs := (programs p)[?n := g], program_count := program_count p + 1\<rparr>"
    have "pat_put p x = Some q" using n a by (simp add: pat_put_def LTNTSTOOLS_PAT_ENTRIES_MAX_def q_def g_def)
    moreover have "pat_inv q"
      using n a by (auto simp: pat_inv_def q_def unat_Suc_small list_all_length nth_list_update g_def)
    moreover have "map program_key (listed_programs q) = map program_key (listed_programs p) @ [x]"
      using n a by (simp add: listed_programs_def q_def unat_Suc_small take_Suc_conv_app_nth program_key_def g_def)
    ultimately show ?thesis by blast
  qed
qed

lemma pat_add_programs_all:
  "pat_add_programs p es = pp.add_all p (map (\<lambda>e. (ucast (fst e), ucast (snd e))) es)"
proof (induction es arbitrary: p)
  case (Cons e es)
  have "pp.add_all p xs = Some p" if "\<not> unat (program_count p) < LTNTSTOOLS_PAT_ENTRIES_MAX" for p xs
    using that by (induction xs) (simp_all add: pat_put_def)
  with Cons show ?case by (simp add: pat_put_def [of p] Let_def Option.bind_assoc)
qed simp

definition pmt_put :: "pmt_s \<Rightarrow> u32 \<times> u32 \<times> (u8 \<times> bytes) list \<Rightarrow> pmt_s mem" where
  "pmt_put e x =
     (if unat (stream_count e) < LTNTSTOOLS_PMT_ENTRIES_MAX
      then do { es \<leftarrow> rd (streams e) (unat (stream_count e));
                let es = es\<lparr>stream_type := fst x, elementary_PID := fst (snd x)\<rparr>;
                list \<leftarrow> pat_add_descriptors (es_descr_list es) (snd (snd x));
                let es = es\<lparr>es_descr_list := list\<rparr>;
                Some (e\<lparr>streams := (streams e)[unat (stream_count e) := es],
                        stream_count := stream_count e + 1\<rparr>) }
      else Some e)"

definition es_fits :: "u32 \<times> u32 \<times> (u8 \<times> bytes) list \<Rightarrow> bool" where
  "es_fits x \<longleftrightarrow> list_all descr_fits (snd (snd x)) \<and> length (snd (snd x)) \<le> 16"

definition pmt_ready :: "pmt_s \<Rightarrow> bool" where
  "pmt_ready e \<longleftrightarrow> pmt_inv e \<and> pmt_fresh e"

lemma pmt_put_room:
  assumes ready: "pmt_ready e" and fits: "es_fits x" and n: "unat (stream_count e) < 16"
  shows "\<exists>e'. pmt_put e x = Some e' \<and> pmt_ready e'
    \<and> map es_value (listed_streams e') = map es_value (listed_streams e) @ [x]"
proof -
  let ?n = "unat (stream_count e)" let ?s = "streams e ! ?n"
  have a: "length (streams e) = 16" "list_all (\<lambda>s. descr_inv (es_descr_list s)) (streams e)"
      "list_all (\<lambda>s. descr_count (es_descr_list s) = 0) (drop ?n (streams e))" "descr_inv (pmt_descr_list e)"
    using ready by (auto simp: pmt_ready_def pmt_inv_def pmt_fresh_def)
  then have "drop ?n (streams e) = ?s # drop (Suc ?n) (streams e)" using n by (simp add: Cons_nth_drop_Suc)
  then have z: "descr_count (es_descr_list ?s) = 0"
      "list_all (\<lambda>s. descr_count (es_descr_list s) = 0) (drop (Suc ?n) (streams e))"
    using a(3) by simp_all
  have "descr_inv (es_descr_list ?s)" using a n by (simp add: list_all_length)
  then obtain l where l: "pat_add_descriptors (es_descr_list ?s) (snd (snd x)) = Some l" "descr_inv l"
      "descriptors l = snd (snd x)"
    using pat_add_descriptors_ok [of "es_descr_list ?s" "snd (snd x)"] fits z
    by (auto simp: es_fits_def descriptors_def)
  define s where "s = ?s\<lparr>stream_type := fst x, elementary_PID := fst (snd x), es_descr_list := l\<rparr>"
  define e' where "e' = e\<lparr>streams := (streams e)[?n := s], stream_count := stream_count e + 1\<rparr>"
  have "pmt_put e x = Some e'"
    using n a l(1) by (simp add: pmt_put_def LTNTSTOOLS_PMT_ENTRIES_MAX_def e'_def s_def)
  moreover have "pmt_ready e'"
    using n a z l(2)
    by (auto simp: pmt_ready_def pmt_inv_def pmt_fresh_def e'_def unat_Suc_small list_all_length nth_list_update s_def)
  moreover have "map es_value (listed_streams e') = map es_value (listed_streams e) @ [x]"
    using n a l(3)
    by (simp add: listed_streams_def e'_def unat_Suc_small take_Suc_conv_app_nth es_value_def s_def)
  ultimately show ?thesis by blast
qed

interpretation ps: bounded_table pmt_put pmt_ready es_fits "\<lambda>e. map es_value (listed_streams e)" 16
proof
  fix e and x
  assume ready: "pmt_ready e"
  have l: "length (map es_value (listed_streams e)) = unat (stream_count e)"
    using ready by (simp add: pmt_ready_def pmt_inv_def listed_streams_def)
  show "length (map es_value (listed_streams e)) \<le> 16"
    using ready unfolding l by (simp add: pmt_ready_def pmt_inv_def)
  show "pmt_put e x = Some e" if "length (map es_value (listed_streams e)) = 16"
    using that unfolding l by (simp add: pmt_put_def LTNTSTOOLS_PMT_ENTRIES_MAX_def)
  show "\<exists>t'. pmt_put e x = Some t' \<and> pmt_ready t'
      \<and> map es_value (listed_streams t') = map es_value (listed_streams e) @ [x]"
    if "es_fits x" "length (map es_value (listed_streams e)) < 16"
    using pmt_put_room [OF ready that(1)] that(2) unfolding l by simp
qed

definition es_of_dvbpsi :: "dvbpsi_es \<Rightarrow> u32 \<times> u32 \<times> (u8 \<times> bytes) list" where
  "es_of_dvbpsi x = (ucast (fst x), ucast (fst (snd x)), snd (snd x))"

lemma pmt_add_streams_all: "pmt_add_streams e xs = ps.add_all e (map es_of_dvbpsi xs)"
proof (induction xs arbitrary: e)
  case (Cons x xs)
  have "ps.add_all e ys = Some e" if "\<not> unat (stream_count e) < LTNTSTOOLS_PMT_ENTRIES_MAX" for e ys
    using that by (induction ys) (simp_all add: pmt_put_def)
  with Cons show ?case by (simp add: pmt_put_def [of e] Let_def Option.bind_assoc es_of_dvbpsi_def [of x])
qed simp

lemma pmt_put_frame:
  "pmt_put e x = Some e' \<Longrightarrow> pmt_version_number e' = pmt_version_number e
    \<and> pmt_program_number e' = pmt_program_number e \<and> pmt_current_next_indicator e' = pmt_current_next_indicator e
    \<and> PCR_PID e' = PCR_PID e \<and> pmt_descr_list e' = pmt_descr_list e"
  by (auto simp: pmt_put_def bind_eq_Some_conv split: if_splits)

lemma pmt_put_all_frame:
  "ps.add_all e xs = Some e' \<Longrightarrow> pmt_version_number e' = pmt_version_number e
    \<and> pmt_program_number e' = pmt_program_number e \<and> pmt_current_next_indicator e' = pmt_current_next_indicator e
    \<and> PCR_PID e' = PCR_PID e \<and> pmt_descr_list e' = pmt_descr_list e"
proof (induction xs arbitrary: e)
  case (Cons x xs)
  then obtain e1 where "pmt_put e x = Some e1" "ps.add_all e1 xs = Some e'" by (auto simp: bind_eq_Some_conv)
  with Cons.IH pmt_put_frame show ?case by metis
qed simp

text \<open>A parsed PMT whose tables fit the arrays, and what a PMT says of it.\<close>

definition dvbpsi_pmt_fits :: "dvbpsi_pmt \<Rightarrow> bool" where
  "dvbpsi_pmt_fits d \<longleftrightarrow> list_all descr_fits (p_first_descriptor d)
     \<and> list_all (\<lambda>x. list_all descr_fits (snd (snd x)) \<and> length (snd (snd x)) \<le> 16) (p_first_es d)"

definition pmt_says :: "pmt_s \<Rightarrow> dvbpsi_pmt \<Rightarrow> bool" where
  "pmt_says e d \<longleftrightarrow> pmt_version_number e = ucast (pmt_i_version d)
     \<and> pmt_program_number e = ucast (i_program_number d)
     \<and> pmt_current_next_indicator e = of_bool (pmt_b_current_next d)
     \<and> PCR_PID e = ucast (i_pcr_pid d)"

lemma pmt_add_dvbpsi_ok:
  assumes ready: "pmt_ready e" and fits: "dvbpsi_pmt_fits d"
  shows "\<exists>e'. pmt_add_dvbpsi e d = Some e' \<and> pmt_ready e' \<and> pmt_says e' d
    \<and> descriptors (pmt_descr_list e') = take 16 (descriptors (pmt_descr_list e) @ p_first_descriptor d)
    \<and> map es_value (listed_streams e') = take 16 (map es_value (listed_streams e) @ map es_of_dvbpsi (p_first_es d))"
proof -
  define e0 where "e0 = e\<lparr>pmt_version_number := ucast (pmt_i_version d),
      pmt_program_number := ucast (i_program_number d),
      pmt_current_next_indicator := of_bool (pmt_b_current_next d), PCR_PID := ucast (i_pcr_pid d)\<rparr>"
  obtain l where l: "pat_add_descriptors (pmt_descr_list e) (p_first_descriptor d) = Some l" "descr_inv l"
      "descriptors l = take 16 (descriptors (pmt_descr_list e) @ p_first_descriptor d)"
    using pat_add_descriptors_ok [of "pmt_descr_list e" "p_first_descriptor d"] ready fits
    by (auto simp: pmt_ready_def pmt_inv_def dvbpsi_pmt_fits_def)
  let ?e1 = "e0\<lparr>pmt_descr_list := l\<rparr>"
  have r1: "pmt_ready ?e1" "listed_streams ?e1 = listed_streams e"
    using ready l(2) by (simp_all add: e0_def pmt_ready_def pmt_inv_def pmt_fresh_def listed_streams_def)
  have "list_all es_fits (map es_of_dvbpsi (p_first_es d))"
    using fits by (auto simp: dvbpsi_pmt_fits_def es_fits_def es_of_dvbpsi_def list_all_iff)
  from ps.add_all_ok [OF r1(1) this] obtain e' where e':
      "ps.add_all ?e1 (map es_of_dvbpsi (p_first_es d)) = Some e'" "pmt_ready e'"
      "map es_value (listed_streams e') = take 16 (map es_value (listed_streams e) @ map es_of_dvbpsi (p_first_es d))"
    by (auto simp: r1(2))
  have "pmt_add_dvbpsi e d = Some e'"
    using l(1) e'(1) by (simp add: pmt_add_dvbpsi_def pmt_add_streams_all e0_def)
  moreover have "pmt_says e' d" "pmt_descr_list e' = l"
    using pmt_put_all_frame [OF e'(1)] by (simp_all add: pmt_says_def e0_def)
  ultimately show ?thesis using e' l(3) by auto
qed

lemma pat_find_program_find:
  assumes "i + n \<le> length (programs pat)"
  shows "pat_find_program num pat i n =
    Some (find (\<lambda>k. program_number (programs pat ! k) = num) [i ..< i + n])"
  using assms
proof (induction n arbitrary: i)
  case (Suc n)
  then have "[i ..< i + Suc n] = i # [Suc i ..< Suc i + n]" by (simp add: upt_conv_Cons)
  with Suc.IH [of "Suc i"] Suc.prems show ?case by (simp del: upt_Suc)
qed simp

lemma find_append: "find P (xs @ ys) = (case find P xs of None \<Rightarrow> find P ys | Some x \<Rightarrow> Some x)"
  by (induction xs) auto

lemma pat_find_program_at:
  assumes inv: "pat_inv pat" and i: "i < unat (program_count pat)"
    and first: "program_number (programs pat ! i) = num" "\<forall>j < i. program_number (programs pat ! j) \<noteq> num"
  shows "pat_find_program num pat 0 (unat (program_count pat)) = Some (Some i)"
proof -
  have "pat_find_program num pat 0 (unat (program_count pat)) =
      Some (find (\<lambda>k. program_number (programs pat ! k) = num) [0 ..< unat (program_count pat)])"
    using inv pat_find_program_find [of 0 "unat (program_count pat)" pat num] by (simp add: pat_inv_def)
  also have "find (\<lambda>k. program_number (programs pat ! k) = num) [0 ..< unat (program_count pat)] = Some i"
    using i first by (auto simp: find_Some_iff)
  finally show ?thesis .
qed

text \<open>A PMT is added to the first program with its number, and nothing else changes.\<close>

lemma pat_add_from_existing_ok:
  assumes inv: "pat_inv pat" and i: "i < unat (program_count pat)"
    and first: "program_number (programs pat ! i) = ucast (i_program_number d)"
      "\<forall>j < i. program_number (programs pat ! j) \<noteq> ucast (i_program_number d)"
    and ready: "pmt_ready (program_pmt (programs pat ! i))" and fits: "dvbpsi_pmt_fits d"
  shows "\<exists>e'. ltntstools_pat_add_from_existing (Some pat) (Some d) =
      Some (Some (pat\<lparr>programs := (programs pat)[i := (programs pat ! i)\<lparr>program_pmt := e'\<rparr>]\<rparr>))
    \<and> pmt_ready e' \<and> pmt_says e' d
    \<and> descriptors (pmt_descr_list e')
      = take 16 (descriptors (pmt_descr_list (program_pmt (programs pat ! i))) @ p_first_descriptor d)
    \<and> map es_value (listed_streams e')
      = take 16 (map es_value (listed_streams (program_pmt (programs pat ! i))) @ map es_of_dvbpsi (p_first_es d))"
proof -
  have l: "i < length (programs pat)" using inv i by (simp add: pat_inv_def)
  show ?thesis
    using pat_find_program_at [OF inv i first] pmt_add_dvbpsi_ok [OF ready fits] l
    by (auto simp: ltntstools_pat_add_from_existing_def)
qed

text \<open>The tables of a stream: its PAT, and then the PMTs in the order they arrive.\<close>

primrec pat_load :: "pat_s option \<Rightarrow> dvbpsi_pmt list \<Rightarrow> pat_s option mem" where
  "pat_load patp [] = Some patp"
| "pat_load patp (d # ds) = do { patp \<leftarrow> ltntstools_pat_add_from_existing patp (Some d); pat_load patp ds }"

definition describes :: "pmt_s \<Rightarrow> dvbpsi_pmt \<Rightarrow> bool" where
  "describes e d \<longleftrightarrow> pmt_says e d \<and> descriptors (pmt_descr_list e) = take 16 (p_first_descriptor d)
     \<and> map es_value (listed_streams e) = take 16 (map es_of_dvbpsi (p_first_es d))"

definition program_of :: "dvbpsi_pmt list \<Rightarrow> pat_program_s \<Rightarrow> dvbpsi_pmt option" where
  "program_of ds g = find (\<lambda>d. ucast (i_program_number d) = program_number g) ds"

definition loaded :: "dvbpsi_pat \<Rightarrow> dvbpsi_pmt list \<Rightarrow> pat_s \<Rightarrow> bool" where
  "loaded dp ds p \<longleftrightarrow> pat_inv p
     \<and> transport_stream_id p = ucast (i_ts_id dp) \<and> pat_version_number p = ucast (pat_i_version dp)
     \<and> pat_current_next_indicator p = of_bool (pat_b_current_next dp)
     \<and> map program_key (listed_programs p) = map (\<lambda>e. (ucast (fst e), ucast (snd e))) (p_first_program dp)
     \<and> list_all (\<lambda>g. case program_of ds g of None \<Rightarrow> program_pmt g = zero_pmt
                      | Some d \<Rightarrow> describes (program_pmt g) d) (listed_programs p)"

lemma pat_put_frame:
  "pat_put p x = Some p' \<Longrightarrow> transport_stream_id p' = transport_stream_id p
    \<and> pat_version_number p' = pat_version_number p \<and> pat_current_next_indicator p' = pat_current_next_indicator p
    \<and> map program_pmt (programs p') = map program_pmt (programs p)"
  by (auto simp: pat_put_def bind_eq_Some_conv rd_Some map_update list_update_same_conv split: if_splits)

lemma pat_put_all_frame:
  "pp.add_all p xs = Some p' \<Longrightarrow> transport_stream_id p' = transport_stream_id p
    \<and> pat_version_number p' = pat_version_number p \<and> pat_current_next_indicator p' = pat_current_next_indicator p
    \<and> map program_pmt (programs p') = map program_pmt (programs p)"
proof (induction xs arbitrary: p)
  case (Cons x xs)
  then obtain p1 where "pat_put p x = Some p1" "pp.add_all p1 xs = Some p'" by (auto simp: bind_eq_Some_conv)
  with Cons.IH pat_put_frame show ?case by metis
qed simp

lemma pat_alloc_from_existing_ok:
  assumes "alloc pat_size" and "length (p_first_program dp) \<le> 64"
  shows "\<exists>p. ltntstools_pat_alloc_from_existing alloc (Some dp) = Some (Some p) \<and> loaded dp [] p"
proof -
  define p0 where "p0 = zero_pat\<lparr>transport_stream_id := ucast (i_ts_id dp),
      pat_version_number := ucast (pat_i_version dp),
      pat_current_next_indicator := of_bool (pat_b_current_next dp)\<rparr>"
  have "pat_inv p0" "listed_programs p0 = []"
    using zero_inv(4) zero_lists(3) by (simp_all add: p0_def pat_inv_def listed_programs_def)
  with pp.add_all_ok [of p0 "map (\<lambda>e. (ucast (fst e), ucast (snd e))) (p_first_program dp)"] assms(2)
  obtain p where p: "pp.add_all p0 (map (\<lambda>e. (ucast (fst e), ucast (snd e))) (p_first_program dp)) = Some p"
      "pat_inv p" "map program_key (listed_programs p) = map (\<lambda>e. (ucast (fst e), ucast (snd e))) (p_first_program dp)"
    by (auto simp: list_all_iff)
  note frame = pat_put_all_frame [OF p(1)]
  then have "set (map program_pmt (programs p)) = {zero_pmt}"
    by (simp add: p0_def zero_pat_def zero_program_def LTNTSTOOLS_PAT_ENTRIES_MAX_def)
  then have "list_all (\<lambda>g. program_pmt g = zero_pmt) (listed_programs p)"
    by (auto simp: list_all_iff listed_programs_def dest: in_set_takeD)
  then have "loaded dp [] p" using p frame by (simp add: loaded_def p0_def program_of_def)
  moreover have "ltntstools_pat_alloc_from_existing alloc (Some dp) = Some (Some p)"
    using assms(1) p(1)
    by (simp add: ltntstools_pat_alloc_from_existing_def ltntstools_pat_alloc_def pat_add_programs_all p0_def)
  ultimately show ?thesis by blast
qed

lemma loaded_numbers:
  assumes "loaded dp ds p"
  shows "map program_number (listed_programs p) = map (\<lambda>e. ucast (fst e)) (p_first_program dp)"
proof -
  have "map program_number (listed_programs p) = map fst (map program_key (listed_programs p))"
    by (simp add: program_key_def)
  also have "map program_key (listed_programs p) = map (\<lambda>e. (ucast (fst e), ucast (snd e))) (p_first_program dp)"
    using assms by (simp add: loaded_def)
  finally show ?thesis by (simp add: comp_def)
qed

lemma ucast_u16_u32_inject: "(ucast (a :: u16) :: u32) = ucast b \<longleftrightarrow> a = b"
proof
  have u: "unat (ucast c :: u32) = unat c" for c :: u16
  proof -
    have "unat c < 65536" using unsigned_less [of c] by simp
    then show ?thesis by (simp add: unsigned_ucast_eq take_bit_nat_eq_self)
  qed
  assume "(ucast a :: u32) = ucast b"
  then show "a = b" using u [of a] u [of b] by (simp add: word_unat_eq_iff)
qed simp

text \<open>Each PMT that arrives is added to its program; the program had none before.\<close>

lemma load_step:
  assumes l: "loaded dp ds p" and fits: "dvbpsi_pmt_fits d"
    and nums: "distinct (map fst (p_first_program dp))" "i_program_number d \<in> fst ` set (p_first_program dp)"
    and new: "i_program_number d \<notin> i_program_number ` set ds"
  shows "\<exists>p'. ltntstools_pat_add_from_existing (Some p) (Some d) = Some (Some p') \<and> loaded dp (ds @ [d]) p'"
proof -
  let ?ns = "map program_number (listed_programs p)" and ?num = "ucast (i_program_number d) :: u32"
  have inv: "pat_inv p" using l by (simp add: loaded_def)
  then have lp: "length (listed_programs p) = unat (program_count p)" "unat (program_count p) \<le> length (programs p)"
    by (simp_all add: pat_inv_def listed_programs_def)
  have ns: "?ns = map (\<lambda>e. ucast (fst e)) (p_first_program dp)" by (rule loaded_numbers [OF l])
  have "?ns = map ucast (map fst (p_first_program dp))" using ns by simp
  then have dist: "distinct ?ns"
    using nums(1) by (simp add: distinct_map inj_on_def ucast_u16_u32_inject)
  have "?num \<in> set ?ns" using nums(2) ns by force
  then obtain i where i: "i < unat (program_count p)" "program_number (listed_programs p ! i) = ?num"
    using lp by (auto simp: in_set_conv_nth)
  have at: "listed_programs p ! j = programs p ! j" if "j < unat (program_count p)" for j
    using that by (simp add: listed_programs_def)
  have other: "program_number (programs p ! j) \<noteq> ?num" if "j < unat (program_count p)" "j \<noteq> i" for j
    using nth_eq_iff_index_eq [OF dist, of i j] that i lp at by auto
  let ?g = "programs p ! i"
  have new': "\<forall>x \<in> set ds. i_program_number x \<noteq> i_program_number d" using new by (metis image_eqI)
  have "program_of ds ?g = None"
    using new' i at by (auto simp: program_of_def find_None_iff ucast_u16_u32_inject)
  moreover have "?g \<in> set (listed_programs p)" using i(1) lp at nth_mem [of i "listed_programs p"] by simp
  then have "case program_of ds ?g of None \<Rightarrow> program_pmt ?g = zero_pmt | Some d \<Rightarrow> describes (program_pmt ?g) d"
    using l by (simp add: loaded_def list_all_iff)
  ultimately have z: "program_pmt ?g = zero_pmt" by simp
  have "\<forall>j < i. program_number (programs p ! j) \<noteq> ?num" using other i(1) by auto
  moreover have "pmt_ready (program_pmt ?g)" using z zero_inv by (simp add: pmt_ready_def)
  ultimately obtain e' where e': "ltntstools_pat_add_from_existing (Some p) (Some d) =
        Some (Some (p\<lparr>programs := (programs p)[i := ?g\<lparr>program_pmt := e'\<rparr>]\<rparr>))"
      "pmt_ready e'" "describes e' d"
    using pat_add_from_existing_ok [OF inv i(1), of d] fits i at z
    by (auto simp: describes_def zero_pmt_def [THEN arg_cong, of pmt_descr_list])
  let ?p' = "p\<lparr>programs := (programs p)[i := ?g\<lparr>program_pmt := e'\<rparr>]\<rparr>"
  have "pat_inv ?p'"
    using inv e'(2) i(1) by (auto simp: pat_inv_def list_all_length nth_list_update pmt_ready_def)
  moreover have "map program_key (listed_programs ?p') = map program_key (listed_programs p)"
    using lp i(1) by (intro nth_equalityI) (auto simp: listed_programs_def nth_list_update program_key_def)
  moreover have "list_all (\<lambda>g. case program_of (ds @ [d]) g of None \<Rightarrow> program_pmt g = zero_pmt
                      | Some d \<Rightarrow> describes (program_pmt g) d) (listed_programs ?p')"
    unfolding list_all_length
  proof (intro allI impI)
    fix j assume "j < length (listed_programs ?p')"
    then have j: "j < unat (program_count p)" using lp by (simp add: listed_programs_def)
    show "case program_of (ds @ [d]) (listed_programs ?p' ! j) of None \<Rightarrow> program_pmt (listed_programs ?p' ! j) = zero_pmt
        | Some d \<Rightarrow> describes (program_pmt (listed_programs ?p' ! j)) d"
    proof (cases "j = i")
      case True
      then have "listed_programs ?p' ! j = ?g\<lparr>program_pmt := e'\<rparr>" using j lp by (simp add: listed_programs_def)
      moreover have "program_of (ds @ [d]) (?g\<lparr>program_pmt := e'\<rparr>) = Some d"
        using \<open>program_of ds ?g = None\<close> i at by (simp add: program_of_def find_append)
      ultimately show ?thesis using e'(3) by simp
    next
      case False
      then have same: "listed_programs ?p' ! j = listed_programs p ! j" using j lp by (simp add: listed_programs_def)
      have kept: "program_of (ds @ [d]) (listed_programs p ! j) = program_of ds (listed_programs p ! j)"
        using other [OF j False] at [OF j] by (simp add: program_of_def find_append split: option.split)
      have "listed_programs p ! j \<in> set (listed_programs p)" using j lp by (intro nth_mem) simp
      with l show ?thesis unfolding same kept loaded_def list_all_iff by blast
    qed
  qed
  ultimately have "loaded dp (ds @ [d]) ?p'" using l by (simp add: loaded_def)
  with e'(1) show ?thesis by blast
qed

lemma load_all:
  assumes "loaded dp done p" and "distinct (map fst (p_first_program dp))"
    and "list_all dvbpsi_pmt_fits ds" "i_program_number ` set ds \<subseteq> fst ` set (p_first_program dp)"
    and "distinct (map i_program_number (done @ ds))"
  shows "\<exists>p'. pat_load (Some p) ds = Some (Some p') \<and> loaded dp (done @ ds) p'"
  using assms
proof (induction ds arbitrary: p "done")
  case (Cons d ds)
  from Cons.prems obtain p1 where p1: "ltntstools_pat_add_from_existing (Some p) (Some d) = Some (Some p1)"
      "loaded dp (done @ [d]) p1"
    using load_step [of dp "done" p d] by auto
  with Cons.IH [OF p1(2)] Cons.prems show ?case by auto
qed simp



text \<open>
  C8: The tables that the library builds from what \<open>libdvbpsi\<close> parsed. A PAT of at most 64
  programs with distinct numbers, and one PMT for any of them in any order, give a PAT with
  the same identifiers and the same programs, where each program whose PMT arrived has its
  version, its PCR PID, the first sixteen of its descriptors and the first sixteen of its
  streams, in order, and every other program has an empty PMT.
\<close>

theorem tables_from_dvbpsi:
  assumes "alloc pat_size" and "length (p_first_program dp) \<le> 64" and "distinct (map fst (p_first_program dp))"
    and "list_all dvbpsi_pmt_fits ds" "i_program_number ` set ds \<subseteq> fst ` set (p_first_program dp)"
    and "distinct (map i_program_number ds)"
  shows "\<exists>p0 p. ltntstools_pat_alloc_from_existing alloc (Some dp) = Some (Some p0)
    \<and> pat_load (Some p0) ds = Some (Some p) \<and> pat_inv p
    \<and> transport_stream_id p = ucast (i_ts_id dp) \<and> pat_version_number p = ucast (pat_i_version dp)
    \<and> map program_key (listed_programs p) = map (\<lambda>e. (ucast (fst e), ucast (snd e))) (p_first_program dp)
    \<and> list_all (\<lambda>g. case find (\<lambda>d. ucast (i_program_number d) = program_number g) ds of
          None \<Rightarrow> program_pmt g = zero_pmt
        | Some d \<Rightarrow> pmt_says (program_pmt g) d
            \<and> descriptors (pmt_descr_list (program_pmt g)) = take 16 (p_first_descriptor d)
            \<and> map es_value (listed_streams (program_pmt g)) = take 16 (map es_of_dvbpsi (p_first_es d)))
        (listed_programs p)"
proof -
  obtain p0 where p0: "ltntstools_pat_alloc_from_existing alloc (Some dp) = Some (Some p0)" "loaded dp [] p0"
    using pat_alloc_from_existing_ok [of alloc dp] assms(1,2) by blast
  from load_all [OF p0(2) assms(3-5)] assms(6) obtain p where
    "pat_load (Some p0) ds = Some (Some p)" "loaded dp ds p" by auto
  with p0(1) show ?thesis unfolding loaded_def program_of_def describes_def by blast
qed

text \<open>A stream of two programs, with the PMT of the second.\<close>

definition sample_dvbpsi_pat :: dvbpsi_pat where
  "sample_dvbpsi_pat = \<lparr>i_ts_id = 1, pat_i_version = 0, pat_b_current_next = True,
     p_first_program = [(1, 0x30), (2, 0x31)]\<rparr>"

definition sample_dvbpsi_pmt :: dvbpsi_pmt where
  "sample_dvbpsi_pmt = \<lparr>i_program_number = 2, pmt_i_version = 0, pmt_b_current_next = True, i_pcr_pid = 0x41,
     p_first_descriptor = [(5, [67, 85, 69, 73])],
     p_first_es = [(0x1b, 0x41, []), (0x06, 0x42, [(0x6a, [0])])]\<rparr>"

theorem tables_from_dvbpsi_witness:
  "\<exists>p0 p. ltntstools_pat_alloc_from_existing (\<lambda>n. True) (Some sample_dvbpsi_pat) = Some (Some p0)
    \<and> pat_load (Some p0) [sample_dvbpsi_pmt] = Some (Some p)
    \<and> map program_key (listed_programs p) = [(1, 0x30), (2, 0x31)]"
  using tables_from_dvbpsi [of "\<lambda>n. True" sample_dvbpsi_pat "[sample_dvbpsi_pmt]"]
  by (auto simp: sample_dvbpsi_pat_def sample_dvbpsi_pmt_def dvbpsi_pmt_fits_def descr_fits_def)

subsection \<open>Comparison\<close>

text \<open>What two tables must agree in to compare as equal. Descriptors and services are not part of it.\<close>

definition es_key :: "pmt_entry_s \<Rightarrow> u32 \<times> u32" where
  "es_key s = (stream_type s, elementary_PID s)"

definition pmt_key :: "pmt_s \<Rightarrow> (u32 \<times> u32 \<times> u32 \<times> u32) \<times> (u32 \<times> u32) list" where
  "pmt_key e = ((pmt_version_number e, pmt_program_number e, PCR_PID e, pmt_current_next_indicator e),
     map es_key (listed_streams e))"

definition program_full_key :: "pat_program_s \<Rightarrow> (u32 \<times> u32) \<times> (u32 \<times> u32 \<times> u32 \<times> u32) \<times> (u32 \<times> u32) list" where
  "program_full_key g = (program_key g, pmt_key (program_pmt g))"

definition pat_key :: "pat_s \<Rightarrow> (u32 \<times> u32 \<times> u32) \<times> ((u32 \<times> u32) \<times> (u32 \<times> u32 \<times> u32 \<times> u32) \<times> (u32 \<times> u32) list) list" where
  "pat_key p = ((transport_stream_id p, pat_version_number p, pat_current_next_indicator p),
     map program_full_key (listed_programs p))"

lemma pmt_compare_loop_eq:
  assumes "i + n \<le> length (streams a)" "i + n \<le> length (streams b)"
  shows "pmt_compare_loop a b i n =
    Some (if map es_key (take n (drop i (streams a))) = map es_key (take n (drop i (streams b))) then 0 else -1)"
  using assms
proof (induction n arbitrary: i)
  case (Suc n)
  have "drop i (streams c) = streams c ! i # drop (Suc i) (streams c)" if "i < length (streams c)" for c :: pmt_s
    using that by (simp add: Cons_nth_drop_Suc)
  with Suc show ?case by (simp add: ltntstools_pmt_entry_compare_def es_key_def)
qed simp

lemma pmt_compare_eq:
  assumes "pmt_inv a" "pmt_inv b"
  shows "ltntstools_pmt_compare a b = Some (if pmt_key a = pmt_key b then 0 else -1)"
proof -
  have "length (map es_key (listed_streams c)) = unat (stream_count c)" if "pmt_inv c" for c
    using that by (simp add: pmt_inv_def listed_streams_def)
  then have "map es_key (listed_streams a) = map es_key (listed_streams b) \<Longrightarrow> stream_count a = stream_count b"
    using assms by (metis word_unat_eq_iff)
  then show ?thesis
    using assms pmt_compare_loop_eq [of 0 "unat (stream_count a)" a b]
    by (auto simp: ltntstools_pmt_compare_def pmt_key_def pmt_inv_def listed_streams_def)
qed

lemma program_compare_eq:
  assumes "pmt_inv (program_pmt a)" "pmt_inv (program_pmt b)"
  shows "ltntstools_pat_program_compare a b = Some (if program_full_key a = program_full_key b then 0 else -1)"
  using pmt_compare_eq [OF assms]
  by (simp add: ltntstools_pat_program_compare_def program_full_key_def program_key_def)

lemma pat_compare_loop_eq:
  assumes "i + n \<le> length (programs a)" "i + n \<le> length (programs b)"
    and "list_all (\<lambda>g. pmt_inv (program_pmt g)) (programs a)" "list_all (\<lambda>g. pmt_inv (program_pmt g)) (programs b)"
  shows "pat_compare_loop a b i n =
    Some (if map program_full_key (take n (drop i (programs a))) = map program_full_key (take n (drop i (programs b)))
          then 0 else -1)"
  using assms
proof (induction n arbitrary: i)
  case (Suc n)
  have "drop i (programs c) = programs c ! i # drop (Suc i) (programs c)" if "i < length (programs c)" for c :: pat_s
    using that by (simp add: Cons_nth_drop_Suc)
  moreover have "ltntstools_pat_program_compare (programs a ! i) (programs b ! i)
      = Some (if program_full_key (programs a ! i) = program_full_key (programs b ! i) then 0 else -1)"
    using Suc.prems by (intro program_compare_eq) (auto simp: list_all_length)
  ultimately show ?case using Suc by simp
qed simp

text \<open>
  Comparing two PATs tells whether they have the same identifier, version and indicator and
  list the same programs, with PMTs of the same version, number, PCR PID and indicator that
  list the same streams. Descriptors are ignored, and so is everything in unused slots.
\<close>

theorem pat_compare_eq:
  assumes "pat_inv a" "pat_inv b"
  shows "ltntstools_pat_compare a b = Some (if pat_key a = pat_key b then 0 else -1)"
proof -
  have "length (map program_full_key (listed_programs c)) = unat (program_count c)" if "pat_inv c" for c
    using that by (simp add: pat_inv_def listed_programs_def)
  then have "map program_full_key (listed_programs a) = map program_full_key (listed_programs b)
      \<Longrightarrow> program_count a = program_count b"
    using assms by (metis word_unat_eq_iff)
  then show ?thesis
    using assms pat_compare_loop_eq [of 0 "unat (program_count a)" a b]
    by (auto simp: ltntstools_pat_compare_def pat_key_def pat_inv_def listed_programs_def)
qed

theorem pat_compare_eq_witness:
  "ltntstools_pat_compare zero_pat (zero_pat\<lparr>transport_stream_id := 7\<rparr>) = Some (-1)"
  using pat_compare_eq [of zero_pat "zero_pat\<lparr>transport_stream_id := 7\<rparr>"] zero_inv(4)
  by (simp add: pat_inv_def pat_key_def) (simp add: zero_pat_def)

subsection \<open>Removing a stream\<close>

text \<open>The first element that is not \<open>P\<close>, taken out of a list.\<close>

definition without_first :: "('a \<Rightarrow> bool) \<Rightarrow> 'a list \<Rightarrow> 'a list" where
  "without_first P xs = takeWhile P xs @ drop 1 (dropWhile P xs)"

lemma without_first_all: "\<forall>x \<in> set xs. P x \<Longrightarrow> without_first P xs = xs"
  by (induction xs) (simp_all add: without_first_def)

lemma without_first_at:
  assumes "i < length xs" "\<not> P (xs ! i)" "\<forall>x \<in> set (take i xs). P x"
  shows "without_first P xs = take i xs @ drop (Suc i) xs"
proof -
  have "P (xs ! j)" if "j < i" for j
    using assms(1,3) that nth_mem [of j "take i xs"] by simp
  then have "takeWhile P xs = take i xs" using assms(2) by (intro takeWhile_eq_take_P_nth) auto
  then show ?thesis using assms(1) by (simp add: without_first_def dropWhile_eq_drop)
qed

lemma pmt_remove_hit:
  assumes inv: "pmt_inv e" and i: "i < unat (stream_count e)" "elementary_PID (streams e ! i) = pid"
  shows "\<exists>e'. pmt_remove_loop pid e i (Suc n) = Some e' \<and> pmt_inv e'
    \<and> listed_streams e' = take i (listed_streams e) @ drop (Suc i) (listed_streams e)"
proof -
  let ?c = "unat (stream_count e)"
  have l: "length (streams e) = 16" "?c \<le> 16" using inv by (auto simp: pmt_inv_def)
  have c1: "unat (stream_count e - 1) = ?c - 1" using i(1) by (simp add: unat_sub_if')
  have of_i: "(of_nat i :: u32) = stream_count e - 1 \<longleftrightarrow> i = ?c - 1"
    using l i(1) c1 by (auto simp: word_unat_eq_iff unsigned_of_nat take_bit_nat_eq_self)
  show ?thesis
  proof (cases "i = ?c - 1")
    case True
    then have "take (?c - 1) (streams e) = take i (listed_streams e) @ drop (Suc i) (listed_streams e)"
      using i(1) l by (simp add: listed_streams_def min_def)
    then show ?thesis using inv i l of_i c1 True by (simp add: pmt_inv_def listed_streams_def)
  next
    case False
    then have "i < ?c - 1" using i(1) by linarith
    let ?ss = "blit (streams e) i (take (?c - i - 1) (drop (i + 1) (streams e)))"
    have "pmt_remove_loop pid e i (Suc n) = Some (e\<lparr>streams := ?ss, stream_count := stream_count e - 1\<rparr>)"
      using i False l of_i by simp
    moreover have "length ?ss = 16" "set ?ss \<subseteq> set (streams e)"
      using i l by (auto simp: blit_def dest: in_set_takeD in_set_dropD)
    moreover have "take (?c - 1) ?ss = take i (listed_streams e) @ drop (Suc i) (listed_streams e)"
      using i(1) l \<open>i < ?c - 1\<close> by (simp add: blit_def listed_streams_def min_def drop_take)
    ultimately show ?thesis
      using inv c1 by (auto simp: pmt_inv_def listed_streams_def list_all_iff)
  qed
qed

lemma pmt_remove_loop_eq:
  assumes "i + n = unat (stream_count e)" and "pmt_inv e"
    and "\<forall>s \<in> set (take i (listed_streams e)). elementary_PID s \<noteq> pid"
  shows "\<exists>e'. pmt_remove_loop pid e i n = Some e' \<and> pmt_inv e'
    \<and> listed_streams e' = without_first (\<lambda>s. elementary_PID s \<noteq> pid) (listed_streams e)"
  using assms
proof (induction n arbitrary: i)
  case 0
  then have "take i (listed_streams e) = listed_streams e" by (simp add: listed_streams_def)
  with 0 show ?case by (simp add: without_first_all)
next
  case (Suc n)
  let ?L = "listed_streams e"
  have l: "i < length ?L" "i < unat (stream_count e)" "?L ! i = streams e ! i" "i < length (streams e)"
    using Suc.prems by (auto simp: pmt_inv_def listed_streams_def)
  show ?case
  proof (cases "elementary_PID (streams e ! i) = pid")
    case True
    have "without_first (\<lambda>s. elementary_PID s \<noteq> pid) ?L = take i ?L @ drop (Suc i) ?L"
      using l True Suc.prems(3) by (intro without_first_at) simp_all
    with pmt_remove_hit [OF Suc.prems(2) l(2) True, of n] show ?thesis by simp
  next
    case False
    have "\<forall>s \<in> set (take (Suc i) ?L). elementary_PID s \<noteq> pid"
      using Suc.prems(3) False l by (simp add: take_Suc_conv_app_nth)
    with Suc.IH [of "Suc i"] Suc.prems(1,2) False l show ?thesis by simp
  qed
qed

lemma pmt_remove_es_for_pid_ok:
  assumes "pmt_inv e"
  shows "\<exists>e'. ltntstools_pmt_remove_es_for_pid (Some e) pid = Some (Some e', 0) \<and> pmt_inv e'
    \<and> listed_streams e' = without_first (\<lambda>s. elementary_PID s \<noteq> ucast pid) (listed_streams e)"
  using pmt_remove_loop_eq [of 0 "unat (stream_count e)" e "ucast pid"] assms
  by (auto simp: ltntstools_pmt_remove_es_for_pid_def)

text \<open>
  The slot that a removal frees keeps its descriptors, so that the next stream added from
  \<open>libdvbpsi\<close> starts with the descriptors of another one.
\<close>

lemma removal_leaves_descriptors:
  assumes "pmt_inv e" "stream_count e = 1" "elementary_PID (streams e ! 0) = ucast pid"
    and "descriptors (es_descr_list (streams e ! 0)) = [x]"
  shows "\<exists>e' e''. ltntstools_pmt_remove_es_for_pid (Some e) pid = Some (Some e', 0) \<and> listed_streams e' = []
    \<and> pmt_add_streams e' [(0x1b, 0x41, [])] = Some e''
    \<and> map es_value (listed_streams e'') = [(0x1b, 0x41, [x])]"
proof -
  have l: "length (streams e) = 16" using assms(1) by (simp add: pmt_inv_def)
  then obtain s ss where ss: "streams e = s # ss" by (cases "streams e") auto
  with l assms show ?thesis
    by (simp add: ltntstools_pmt_remove_es_for_pid_def listed_streams_def LTNTSTOOLS_PMT_ENTRIES_MAX_def es_value_def)
qed

end
