(* ===== verification/PatServices.thy ===== *)
theory PatServices
  imports Pat
begin

text \<open>
  The enumerations of \<open>src/src/pat.c\<close>: the caller keeps a position and calls until no further
  program is found. Their common contract is the locale \<open>enumeration\<close>, interpreted for the video,
  teletext, PID, SMPTE 2038, audio and SCTE-35 enumerations; the last two only hold it under
  conditions, and what they do outside them is stated at the end.
\<close>

unbundle bit_operations_syntax

text \<open>The loops over streams and programs as searches of the lists.\<close>

lemma stream_find_find:
  assumes "j + n \<le> length (streams e)" and "\<forall>s \<in> set (streams e). P s = Some (Q s)"
  shows "stream_find P e j n = Some (find Q (take n (drop j (streams e))))"
  using assms
proof (induction n arbitrary: j)
  case (Suc n)
  then have "drop j (streams e) = streams e ! j # drop (Suc j) (streams e)" by (simp add: Cons_nth_drop_Suc)
  moreover have "P (streams e ! j) = Some (Q (streams e ! j))" using Suc.prems by simp
  ultimately show ?case using Suc.IH [of "Suc j"] Suc.prems by simp
qed simp

lemma stream_first_find:
  assumes "pmt_inv e" and "\<forall>s \<in> set (streams e). P s = Some (Q s)"
  shows "stream_first P e = Some (find Q (listed_streams e))"
  using stream_find_find [of 0 "unat (stream_count e)" e P Q] assms
  by (simp add: stream_first_def pmt_inv_def listed_streams_def)

lemma stream_collect_filter:
  assumes "j + n \<le> length (streams e)" and "\<forall>s \<in> set (streams e). P s = Some (Q s)"
  shows "\<exists>ss. stream_collect P e j n = Some ss \<and> map snd ss = filter Q (take n (drop j (streams e)))"
  using assms
proof (induction n arbitrary: j)
  case (Suc n)
  then have "drop j (streams e) = streams e ! j # drop (Suc j) (streams e)" by (simp add: Cons_nth_drop_Suc)
  moreover have "P (streams e ! j) = Some (Q (streams e ! j))" using Suc.prems by simp
  ultimately show ?case using Suc.IH [of "Suc j"] Suc.prems by auto
qed simp

lemma stream_all_filter:
  assumes "pmt_inv e" and "\<forall>s \<in> set (streams e). P s = Some (Q s)"
  shows "\<exists>ss. stream_all P e = Some ss \<and> map snd ss = filter Q (listed_streams e)"
  using stream_collect_filter [of 0 "unat (stream_count e)" e P Q] assms
  by (simp add: stream_all_def pmt_inv_def listed_streams_def)

lemma map_snd_case: "map (\<lambda>(j, s). f s) ss = map f (map snd ss)"
  by (induction ss) auto

text \<open>
  The caller's loop, \<open>int e = 0; while (enum(pat, &e, ..) == 0) ..\<close>, with fuel for as many calls:
  what the calls report, in order.
\<close>

primrec enum_all :: "(int \<Rightarrow> (int \<times> int \<times> 'r option) mem) \<Rightarrow> nat \<Rightarrow> int \<Rightarrow> 'r list mem" where
  "enum_all step 0 e = None"
| "enum_all step (Suc n) e =
     do { (ret, e, r) \<leftarrow> step e;
          if ret \<noteq> 0 then Some []
          else do { r \<leftarrow> r; rs \<leftarrow> enum_all step n e; Some (r # rs) } }"

text \<open>
  The contract of an enumeration, for a caller that starts at 0 and calls until the return code
  is -1: a call from position \<open>i\<close> yields the next program that is wanted, with what the
  enumeration reports of it, and the position behind it, or -1 when there is none.
\<close>

locale enumeration =
  fixes step :: "'c \<Rightarrow> int \<Rightarrow> (int \<times> int \<times> 'r option) mem"
    and wf :: "'c \<Rightarrow> bool"
    and size :: "'c \<Rightarrow> nat"
    and wanted :: "'c \<Rightarrow> nat \<Rightarrow> bool"
    and report :: "'c \<Rightarrow> nat \<Rightarrow> 'r"
  assumes step_found: "wf c \<Longrightarrow> i \<le> size c \<Longrightarrow> find (wanted c) [i ..< size c] = Some k
      \<Longrightarrow> step c (int i) = Some (0, int k + 1, Some (report c k))"
    and step_none: "wf c \<Longrightarrow> i \<le> size c \<Longrightarrow> find (wanted c) [i ..< size c] = None
      \<Longrightarrow> \<exists>e'. step c (int i) = Some (-1, e', None)"
begin

lemma run_from:
  assumes "wf c" and "i \<le> size c" and "size c - i < n"
  shows "enum_all (step c) n (int i) = Some (map (report c) (filter (wanted c) [i ..< size c]))"
  using assms(2,3)
proof (induction n arbitrary: i)
  case (Suc n)
  show ?case
  proof (cases "find (wanted c) [i ..< size c]")
    case None
    then have "filter (wanted c) [i ..< size c] = []" by (auto simp: find_None_iff filter_empty_conv)
    with step_none [OF assms(1) Suc.prems(1) None] show ?thesis by auto
  next
    case (Some k)
    then obtain m where m: "m < size c - i" "wanted c (i + m)" "k = i + m" "\<forall>j < m. \<not> wanted c (i + j)"
      by (auto simp: find_Some_iff)
    have "[i ..< size c] = [i ..< k] @ k # [Suc k ..< size c]"
      using m(1,3) upt_add_eq_append [of i k "size c - k"] by (simp add: upt_conv_Cons)
    moreover have "filter (wanted c) [i ..< k] = []"
    proof -
      have "\<not> wanted c x" if "i \<le> x" "x < k" for x using m(3,4) that le_Suc_ex [of i x] by auto
      then show ?thesis by (auto simp: filter_empty_conv)
    qed
    ultimately have f: "filter (wanted c) [i ..< size c] = k # filter (wanted c) [Suc k ..< size c]"
      using m by simp
    have "enum_all (step c) n (int (Suc k)) = Some (map (report c) (filter (wanted c) [Suc k ..< size c]))"
      using Suc.prems m by (intro Suc.IH) auto
    then show ?thesis
      using step_found [OF assms(1) Suc.prems(1) Some] f by (simp add: add.commute)
  qed
qed simp

lemma run_all: "wf c \<Longrightarrow> enum_all (step c) (Suc (size c)) 0 = Some (map (report c) (filter (wanted c) [0 ..< size c]))"
  using run_from [of c 0 "Suc (size c)"] by simp

end

lemma enum_bounds:
  assumes "pat_inv pat" and "i \<le> unat (program_count pat)"
  shows "enum_past_end pat (int i) = Some (i = unat (program_count pat))"
    and "enum_span pat (int i) = unat (program_count pat) - i"
proof -
  have c: "unat (program_count pat) \<le> 64" using assms(1) by (simp add: pat_inv_def)
  have u: "unat (word_of_int (int k) :: u32) = k" if "k \<le> 65" for k
    using that by (simp add: unsigned_of_nat take_bit_nat_eq_self)
  have "(word_of_int (int i + 1) :: u32) > program_count pat \<longleftrightarrow> i + 1 > unat (program_count pat)"
    using u [of "i + 1"] assms(2) c by (simp add: word_less_nat_alt add.commute)
  then show "enum_past_end pat (int i) = Some (i = unat (program_count pat))"
    using assms(2) c by (auto simp: enum_past_end_def)
  show "enum_span pat (int i) = unat (program_count pat) - i"
    using u [of i] assms(2) c by (simp add: enum_span_def)
qed

lemma program_at_int: "i < length (programs pat) \<Longrightarrow> program_at pat (int i) = Some (programs pat ! i)"
  by (simp add: program_at_def)

lemma enum_loop_find:
  assumes "i + n \<le> length (programs pat)" and "\<forall>g \<in> set (programs pat). P g = Some (Q g)"
  shows "enum_loop P pat (int i) n =
    (case find (\<lambda>k. Q (programs pat ! k)) [i ..< i + n] of
       None \<Rightarrow> Some (-1, int (i + n), None)
     | Some k \<Rightarrow> Some (0, int k + 1, Some k))"
  using assms
proof (induction n arbitrary: i)
  case (Suc n)
  have "[i ..< i + Suc n] = i # [Suc i ..< Suc i + n]" by (simp add: upt_conv_Cons)
  moreover have "P (programs pat ! i) = Some (Q (programs pat ! i))" using Suc.prems by simp
  moreover have "enum_loop P pat (int i + 1) n = enum_loop P pat (int (Suc i)) n" by (simp add: add.commute)
  ultimately show ?case
    using Suc.IH [of "Suc i"] Suc.prems by (simp add: program_at_int del: upt_Suc split: option.split)
qed simp

lemma pat_enum_find:
  assumes inv: "pat_inv pat" and i: "i \<le> unat (program_count pat)"
    and P: "\<forall>g \<in> set (programs pat). P g = Some (Q g)"
  shows "find (\<lambda>k. Q (programs pat ! k)) [i ..< unat (program_count pat)] = Some k
      \<Longrightarrow> pat_enum P pat (int i) = Some (0, int k + 1, Some k)"
    and "find (\<lambda>k. Q (programs pat ! k)) [i ..< unat (program_count pat)] = None
      \<Longrightarrow> \<exists>e'. pat_enum P pat (int i) = Some (-1, e', None)"
proof -
  have "i + (unat (program_count pat) - i) \<le> length (programs pat)" using inv i by (simp add: pat_inv_def)
  note loop = enum_loop_find [OF this P]
  show "pat_enum P pat (int i) = Some (0, int k + 1, Some k)"
    if "find (\<lambda>k. Q (programs pat ! k)) [i ..< unat (program_count pat)] = Some k"
    using loop that i by (auto simp: pat_enum_def enum_bounds [OF inv i])
  show "\<exists>e'. pat_enum P pat (int i) = Some (-1, e', None)"
    if "find (\<lambda>k. Q (programs pat ! k)) [i ..< unat (program_count pat)] = None"
    using loop that i by (auto simp: pat_enum_def enum_bounds [OF inv i])
qed

text \<open>What the tests of the streams find, in terms of types and descriptors.\<close>

definition video_stream :: "pmt_entry_s \<Rightarrow> bool" where
  "video_stream s \<longleftrightarrow> ltntstools_is_ESPayloadType_Video (ucast (stream_type s))"

definition teletext_stream :: "pmt_entry_s \<Rightarrow> bool" where
  "teletext_stream s \<longleftrightarrow> (\<exists>x \<in> set (descriptors (es_descr_list s)). fst x = 0x56 \<and> length (snd x) = 5)"

definition smpte2038_stream :: "pmt_entry_s \<Rightarrow> bool" where
  "smpte2038_stream s \<longleftrightarrow> stream_type s = 0x06 \<and> (\<exists>x \<in> set (descriptors (es_descr_list s)).
      x \<in> {(0xc4, map of_char ''SMPTE2038''), (0x05, map of_char ''VANC''), (0xc4, map of_char [])})"

definition audio_stream :: "pmt_entry_s \<Rightarrow> bool" where
  "audio_stream s \<longleftrightarrow> ltntstools_is_ESPayloadType_Audio (ucast (stream_type s))
     \<or> stream_type s = 0x06 \<and> (\<exists>x \<in> set (descriptors (es_descr_list s)). fst x \<in> audio_descriptor_tags)"

lemma is_video_eq: "is_video s = Some (video_stream s)"
  by (simp add: is_video_def video_stream_def)

lemma is_teletext_eq: "descr_inv (es_descr_list s) \<Longrightarrow> is_teletext s = Some (teletext_stream s)"
  by (simp add: is_teletext_def teletext_stream_def contains_teletext_iff)

lemma is_smpte2038_eq: "descr_inv (es_descr_list s) \<Longrightarrow> is_smpte2038 s = Some (smpte2038_stream s)"
  by (simp add: is_smpte2038_def smpte2038_stream_def contains_smpte2038_iff)

lemma audio_tags: "0 \<notin> audio_descriptor_tags"
  by (simp add: audio_descriptor_tags_def)

lemma is_audio_eq:
  assumes "descr_inv (es_descr_list s)"
  shows "is_audio s = Some (audio_stream s)"
proof -
  let ?T = "\<lambda>d. descr_tag d \<in> audio_descriptor_tags"
    and ?ds = "take (unat (descr_count (es_descr_list s))) (descr_array (es_descr_list s))"
  have tag: "uint (descr_tag d) \<noteq> 0" if "?T d" for d :: descriptor_entry_s
    using that audio_tags by (metis uint_0_iff)
  have "(case find ?T ?ds of None \<Rightarrow> 0 | Some d \<Rightarrow> uint (descr_tag d)) \<noteq> 0 \<longleftrightarrow> find ?T ?ds \<noteq> None"
  proof (cases "find ?T ?ds")
    case (Some d)
    then have "?T d" by (auto simp: find_Some_iff)
    with tag Some show ?thesis by simp
  qed simp
  also have "\<dots> \<longleftrightarrow> (\<exists>d \<in> set ?ds. ?T d)" by (rule find_some_iff)
  finally have "(case find ?T ?ds of None \<Rightarrow> 0 | Some d \<Rightarrow> uint (descr_tag d)) \<noteq> 0 \<longleftrightarrow> (\<exists>d \<in> set ?ds. ?T d)" .
  then have "(case find ?T ?ds of None \<Rightarrow> 0 | Some d \<Rightarrow> uint (descr_tag d)) \<noteq> 0
      \<longleftrightarrow> (\<exists>x \<in> set (descriptors (es_descr_list s)). fst x \<in> audio_descriptor_tags)"
    by (simp add: descriptors_def)
  then show ?thesis
    using descriptor_list_first_find [OF assms, of ?T]
    by (simp add: is_audio_def ltntstools_pmt_entry_is_audio_def audio_stream_def)
qed

text \<open>The streams of a program of a table.\<close>

abbreviation streams_at :: "pat_s \<Rightarrow> nat \<Rightarrow> pmt_entry_s list" where
  "streams_at pat k \<equiv> listed_streams (program_pmt (programs pat ! k))"

lemma pat_inv_streams:
  assumes "pat_inv pat" "g \<in> set (programs pat)"
  shows "pmt_inv (program_pmt g)" "\<forall>s \<in> set (streams (program_pmt g)). descr_inv (es_descr_list s)"
proof -
  show "pmt_inv (program_pmt g)" using assms by (simp add: pat_inv_def list_all_iff)
  then show "\<forall>s \<in> set (streams (program_pmt g)). descr_inv (es_descr_list s)" by (simp add: pmt_inv_def list_all_iff)
qed

lemma has_stream_eq:
  assumes "pat_inv pat" "g \<in> set (programs pat)" and "\<And>s. descr_inv (es_descr_list s) \<Longrightarrow> P s = Some (Q s)"
  shows "has_stream P g = Some (\<exists>s \<in> set (listed_streams (program_pmt g)). Q s)"
  using stream_first_find [of "program_pmt g" P Q] pat_inv_streams [OF assms(1,2)] assms(3)
    find_some_iff [of Q "listed_streams (program_pmt g)"]
  by (simp add: has_stream_def del: not_None_eq)

interpretation vid: enumeration "\<lambda>pat. ltntstools_pat_enum_services_video pat True" pat_inv "\<lambda>pat. unat (program_count pat)"
  "\<lambda>pat k. \<exists>s \<in> set (streams_at pat k). video_stream s" "\<lambda>pat k. k"
  unfolding ltntstools_pat_enum_services_video_def not_True_eq_False if_False
  by (unfold_locales; rule pat_enum_find) (simp_all add: has_stream_eq is_video_eq)

interpretation ttx: enumeration "\<lambda>pat. ltntstools_pat_enum_services_teletext pat True" pat_inv "\<lambda>pat. unat (program_count pat)"
  "\<lambda>pat k. \<exists>s \<in> set (streams_at pat k). teletext_stream s" "\<lambda>pat k. k"
  unfolding ltntstools_pat_enum_services_teletext_def not_True_eq_False if_False
  by (unfold_locales; rule pat_enum_find) (simp_all add: has_stream_eq is_teletext_eq)

interpretation svc: enumeration "\<lambda>c. ltntstools_pat_enum_services (fst c) (snd c) True" "\<lambda>c. pat_inv (fst c)"
  "\<lambda>c. unat (program_count (fst c))" "\<lambda>c k. program_map_PID (programs (fst c) ! k) = ucast (snd c)" "\<lambda>c k. k"
  unfolding ltntstools_pat_enum_services_def not_True_eq_False if_False
  by (unfold_locales; rule pat_enum_find) simp_all

text \<open>SMPTE 2038 services: the program and its first SMPTE 2038 stream.\<close>

definition smpte2038_at :: "pat_s \<Rightarrow> nat \<Rightarrow> bool" where
  "smpte2038_at pat k \<longleftrightarrow> pmt_program_number (program_pmt (programs pat ! k)) \<noteq> 0
     \<and> (\<exists>s \<in> set (streams_at pat k). smpte2038_stream s)"

definition smpte2038_report :: "pat_s \<Rightarrow> nat \<Rightarrow> nat \<times> u16" where
  "smpte2038_report pat k = (k, ucast (elementary_PID (hd (filter smpte2038_stream (streams_at pat k)))))"

lemma find_hd_filter: "find Q xs = Some x \<Longrightarrow> hd (filter Q xs) = x"
  by (induction xs) (auto split: if_splits)

lemma enum_smpte2038_loop_find:
  assumes "i + n \<le> length (programs pat)" and "pat_inv pat"
  shows "enum_smpte2038_loop pat (int i) (int i) n =
    (case find (smpte2038_at pat) [i ..< i + n] of
       None \<Rightarrow> Some (-1, int (i + n), None)
     | Some k \<Rightarrow> Some (0, int k + 1, Some (smpte2038_report pat k)))"
  using assms
proof (induction n arbitrary: i)
  case (Suc n)
  let ?g = "programs pat ! i"
  have i: "i < length (programs pat)" "?g \<in> set (programs pat)" using Suc.prems by simp_all
  have upt: "[i ..< i + Suc n] = i # [Suc i ..< Suc i + n]" by (simp add: upt_conv_Cons)
  have rec: "enum_smpte2038_loop pat (int i + 1) (int i + 1) n = enum_smpte2038_loop pat (int (Suc i)) (int (Suc i)) n"
    by (simp add: add.commute)
  note IH = Suc.IH [of "Suc i"]
  have f: "stream_first is_smpte2038 (program_pmt ?g) = Some (find smpte2038_stream (streams_at pat i))"
    using pat_inv_streams [OF Suc.prems(2) i(2)] by (intro stream_first_find) (simp_all add: is_smpte2038_eq)
  show ?case
  proof (cases "smpte2038_at pat i")
    case True
    then obtain s where s: "find smpte2038_stream (streams_at pat i) = Some s"
      using find_some_iff [of smpte2038_stream "streams_at pat i"] by (auto simp: smpte2038_at_def)
    then show ?thesis
      unfolding upt using True i f find_hd_filter [OF s]
      by (simp add: program_at_int smpte2038_at_def smpte2038_report_def)
  next
    case False
    then have "pmt_program_number (program_pmt ?g) = 0 \<or> find smpte2038_stream (streams_at pat i) = None"
      by (auto simp: smpte2038_at_def find_None_iff)
    then show ?thesis
      unfolding upt using False i f rec IH Suc.prems
      by (auto simp: program_at_int del: upt_Suc split: option.split)
  qed
qed simp

interpretation anc: enumeration "\<lambda>pat. ltntstools_pat_enum_services_smpte2038 (Some pat)" pat_inv
  "\<lambda>pat. unat (program_count pat)" smpte2038_at smpte2038_report
proof
  fix pat :: pat_s and i k
  assume inv: "pat_inv pat" and i: "i \<le> unat (program_count pat)"
  have "i + (unat (program_count pat) - i) \<le> length (programs pat)" using inv i by (simp add: pat_inv_def)
  note loop = enum_smpte2038_loop_find [OF this inv]
  show "ltntstools_pat_enum_services_smpte2038 (Some pat) (int i) = Some (0, int k + 1, Some (smpte2038_report pat k))"
    if "find (smpte2038_at pat) [i ..< unat (program_count pat)] = Some k"
    using loop that i by (auto simp: ltntstools_pat_enum_services_smpte2038_def enum_bounds [OF inv i])
  show "\<exists>e'. ltntstools_pat_enum_services_smpte2038 (Some pat) (int i) = Some (-1, e', None)"
    if "find (smpte2038_at pat) [i ..< unat (program_count pat)] = None"
    using loop that i by (auto simp: ltntstools_pat_enum_services_smpte2038_def enum_bounds [OF inv i])
qed

text \<open>
  The enumerations of audio and SCTE-35 services count their iterations from 0 while they
  look at the programs from \<open>*e\<close> on: they read up to as many slots behind the last program as there
  are programs. They are correct while these slots exist and are blank.
\<close>

definition blank :: "pat_program_s \<Rightarrow> bool" where
  "blank g \<longleftrightarrow> stream_count (program_pmt g) = 0 \<and> descr_count (pmt_descr_list (program_pmt g)) = 0"

definition roomy :: "allocator \<times> pat_s \<Rightarrow> bool" where
  "roomy c \<longleftrightarrow> (\<forall>n. fst c n) \<and> pat_inv (snd c) \<and> unat (program_count (snd c)) \<le> 32
     \<and> list_all blank (drop (unat (program_count (snd c))) (programs (snd c)))"

lemma blank_behind:
  "list_all blank (drop n gs) \<Longrightarrow> n \<le> k \<Longrightarrow> k < length gs \<Longrightarrow> blank (gs ! k)"
  by (auto simp: list_all_length dest: spec [of _ "k - n"])

text \<open>A search that runs on past the programs finds nothing there.\<close>

lemma find_past_end:
  assumes "\<And>k. n \<le> k \<Longrightarrow> k < i + n \<Longrightarrow> \<not> Q k" and "i \<le> n"
  shows "find Q [i ..< i + n] = find Q [i ..< n]"
proof -
  have "[i ..< i + n] = [i ..< n] @ [n ..< i + n]"
    using assms(2) upt_add_eq_append [of i n i] by (simp add: add.commute)
  moreover have "find Q [n ..< i + n] = None" using assms(1) by (auto simp: find_None_iff)
  ultimately show ?thesis by (simp add: find_append split: option.split)
qed

definition audio_report :: "pat_s \<Rightarrow> nat \<Rightarrow> nat \<times> (u32 \<times> u16) list" where
  "audio_report pat k =
     (k, map (\<lambda>s. (stream_type s, ucast (elementary_PID s))) (filter audio_stream (streams_at pat k)))"

lemma enum_audio_loop_find:
  assumes "i + n \<le> length (programs pat)" and "pat_inv pat"
  shows "enum_audio_loop (\<lambda>n. True) pat (int i) n =
    (case find (\<lambda>k. \<exists>s \<in> set (streams_at pat k). audio_stream s) [i ..< i + n] of
       None \<Rightarrow> Some (-1, int (i + n), None)
     | Some k \<Rightarrow> Some (0, int k + 1, Some (audio_report pat k)))"
  using assms(1)
proof (induction n arbitrary: i)
  case (Suc n)
  let ?g = "programs pat ! i"
  have i: "i < length (programs pat)" "?g \<in> set (programs pat)" using Suc.prems by simp_all
  have upt: "[i ..< i + Suc n] = i # [Suc i ..< Suc i + n]" by (simp add: upt_conv_Cons)
  have rec: "int (Suc i) = int i + 1" by simp
  obtain ss where ss: "stream_all is_audio (program_pmt ?g) = Some ss" "map snd ss = filter audio_stream (streams_at pat i)"
    using stream_all_filter [of "program_pmt ?g" is_audio audio_stream] pat_inv_streams [OF assms(2) i(2)]
    by (auto simp: is_audio_eq)
  have "ss \<noteq> [] \<longleftrightarrow> (\<exists>s \<in> set (streams_at pat i). audio_stream s)"
    using ss(2) by (metis filter_empty_conv map_is_Nil_conv)
  moreover have "map (\<lambda>(j, s). (stream_type s, ucast (elementary_PID s) :: u16)) ss
      = map (\<lambda>s. (stream_type s, ucast (elementary_PID s))) (filter audio_stream (streams_at pat i))"
    by (simp only: map_snd_case ss(2))
  ultimately show ?case
    unfolding upt using Suc.IH [of "Suc i", unfolded rec] Suc.prems i ss(1)
    by (simp add: program_at_int audio_report_def Let_def del: upt_Suc split: option.split)
qed simp

interpretation aud: enumeration "\<lambda>c. ltntstools_pat_enum_services_audio (fst c) (Some (snd c))" roomy
  "\<lambda>c. unat (program_count (snd c))" "\<lambda>c k. \<exists>s \<in> set (streams_at (snd c) k). audio_stream s"
  "\<lambda>c. audio_report (snd c)"
proof
  fix c :: "allocator \<times> pat_s" and i k
  assume roomy: "roomy c" and i: "i \<le> unat (program_count (snd c))"
  obtain pat where c: "c = (\<lambda>n. True, pat)" using roomy by (cases c) (auto simp: roomy_def)
  let ?n = "unat (program_count pat)" and ?Q = "\<lambda>k. \<exists>s \<in> set (streams_at pat k). audio_stream s"
  have inv: "pat_inv pat" and le: "?n \<le> 32" and b: "list_all blank (drop ?n (programs pat))"
    using roomy by (simp_all add: c roomy_def)
  have i: "i \<le> ?n" and len: "length (programs pat) = 64" using i inv by (simp_all add: c pat_inv_def)
  have "\<not> ?Q k" if "?n \<le> k" "k < i + ?n" for k
    using blank_behind [OF b, of k] that i le len by (simp add: blank_def listed_streams_def)
  from find_past_end [of ?n i ?Q, OF this i] enum_audio_loop_find [OF _ inv, of i ?n]
  have loop: "enum_audio_loop (\<lambda>n. True) pat (int i) ?n =
      (case find ?Q [i ..< ?n] of None \<Rightarrow> Some (-1, int (i + ?n), None)
       | Some k \<Rightarrow> Some (0, int k + 1, Some (audio_report pat k)))"
    using i le len by simp
  show "ltntstools_pat_enum_services_audio (fst c) (Some (snd c)) (int i) =
      Some (0, int k + 1, Some (audio_report (snd c) k))"
    if "find (\<lambda>k. \<exists>s \<in> set (streams_at (snd c) k). audio_stream s) [i ..< unat (program_count (snd c))] = Some k"
    using loop that by (auto simp: c ltntstools_pat_enum_services_audio_def enum_bounds [OF inv i])
  show "\<exists>e'. ltntstools_pat_enum_services_audio (fst c) (Some (snd c)) (int i) = Some (-1, e', None)"
    if "find (\<lambda>k. \<exists>s \<in> set (streams_at (snd c) k). audio_stream s) [i ..< unat (program_count (snd c))] = None"
    using loop that by (auto simp: c ltntstools_pat_enum_services_audio_def enum_bounds [OF inv i])
qed

definition cue_program :: "pat_program_s \<Rightarrow> bool" where
  "cue_program g \<longleftrightarrow> (0x05, map of_char ''CUEI'') \<in> set (descriptors (pmt_descr_list (program_pmt g)))"

definition scte35_stream :: "pmt_entry_s \<Rightarrow> bool" where
  "scte35_stream s \<longleftrightarrow> stream_type s = 0x86"

definition scte35_report :: "pat_s \<Rightarrow> nat \<Rightarrow> nat \<times> u16 list" where
  "scte35_report pat k = (k, map (\<lambda>s. ucast (elementary_PID s)) (filter scte35_stream (streams_at pat k)))"

text \<open>Every program registered for cues has a stream that carries them.\<close>

definition cues_carried :: "pat_s \<Rightarrow> bool" where
  "cues_carried pat \<longleftrightarrow> list_all (\<lambda>g. cue_program g \<longrightarrow>
     (\<exists>s \<in> set (listed_streams (program_pmt g)). scte35_stream s)) (programs pat)"

text \<open>One iteration of the SCTE-35 loop.\<close>

lemma enum_scte35_step:
  assumes i: "i < length (programs pat)" and inv: "pat_inv pat"
  shows "enum_scte35_loop (\<lambda>n. True) pat (int i) (Suc n) =
    (if \<not> cue_program (programs pat ! i) then enum_scte35_loop (\<lambda>n. True) pat (int i + 1) n
     else if \<exists>s \<in> set (streams_at pat i). scte35_stream s
     then Some (0, int i + 1, Some (scte35_report pat i))
     else enum_scte35_loop (\<lambda>n. True) pat (int i) n)"
proof -
  let ?g = "programs pat ! i"
  have g: "?g \<in> set (programs pat)" using i by simp
  have "descr_inv (pmt_descr_list (program_pmt ?g))" using pat_inv_streams(1) [OF inv g] by (simp add: pmt_inv_def)
  from contains_scte35_iff [OF this]
  have cue: "ltntstools_descriptor_list_contains_scte35_cue_registration (pmt_descr_list (program_pmt ?g))
      = Some (cue_program ?g)" by (simp add: cue_program_def)
  obtain ss where ss: "stream_all is_scte35 (program_pmt ?g) = Some ss"
      "map snd ss = filter scte35_stream (streams_at pat i)"
    using stream_all_filter [of "program_pmt ?g" is_scte35 scte35_stream] pat_inv_streams(1) [OF inv g]
    by (auto simp: is_scte35_def scte35_stream_def)
  have "ss \<noteq> [] \<longleftrightarrow> (\<exists>s \<in> set (streams_at pat i). scte35_stream s)"
    using ss(2) by (metis filter_empty_conv map_is_Nil_conv)
  moreover have "map (\<lambda>(j, s). ucast (elementary_PID s) :: u16) ss
      = map (\<lambda>s. ucast (elementary_PID s)) (filter scte35_stream (streams_at pat i))"
    by (simp only: map_snd_case ss(2))
  ultimately show ?thesis
    using i ss(1) cue by (simp add: program_at_int scte35_report_def Let_def)
qed

lemma enum_scte35_loop_find:
  assumes "i + n \<le> length (programs pat)" and "pat_inv pat" and "cues_carried pat"
  shows "enum_scte35_loop (\<lambda>n. True) pat (int i) n =
    (case find (\<lambda>k. cue_program (programs pat ! k)) [i ..< i + n] of
       None \<Rightarrow> Some (-1, int (i + n), None)
     | Some k \<Rightarrow> Some (0, int k + 1, Some (scte35_report pat k)))"
  using assms(1)
proof (induction n arbitrary: i)
  case (Suc n)
  have i: "i < length (programs pat)" using Suc.prems by simp
  have upt: "[i ..< i + Suc n] = i # [Suc i ..< Suc i + n]" by (simp add: upt_conv_Cons)
  have rec: "int (Suc i) = int i + 1" by simp
  have "\<exists>s \<in> set (streams_at pat i). scte35_stream s" if "cue_program (programs pat ! i)"
    using assms(3) i that by (simp add: cues_carried_def list_all_length)
  then show ?case
    unfolding upt enum_scte35_step [OF i assms(2)] using Suc.IH [of "Suc i", unfolded rec] Suc.prems
    by (simp del: upt_Suc split: option.split)
qed simp

interpretation cue: enumeration "\<lambda>c. ltntstools_pat_enum_services_scte35 (fst c) (Some (snd c))"
  "\<lambda>c. roomy c \<and> cues_carried (snd c)" "\<lambda>c. unat (program_count (snd c))"
  "\<lambda>c k. cue_program (programs (snd c) ! k)" "\<lambda>c. scte35_report (snd c)"
proof
  fix c :: "allocator \<times> pat_s" and i k
  assume wf: "roomy c \<and> cues_carried (snd c)" and i: "i \<le> unat (program_count (snd c))"
  obtain pat where c: "c = (\<lambda>n. True, pat)" using wf by (cases c) (auto simp: roomy_def)
  let ?n = "unat (program_count pat)" and ?Q = "\<lambda>k. cue_program (programs pat ! k)"
  have inv: "pat_inv pat" and le: "?n \<le> 32" and b: "list_all blank (drop ?n (programs pat))"
    and carried: "cues_carried pat"
    using wf by (simp_all add: c roomy_def)
  have i: "i \<le> ?n" and len: "length (programs pat) = 64" using i inv by (simp_all add: c pat_inv_def)
  have "\<not> ?Q k" if "?n \<le> k" "k < i + ?n" for k
    using blank_behind [OF b, of k] that i le len by (simp add: blank_def cue_program_def descriptors_def)
  from find_past_end [of ?n i ?Q, OF this i] enum_scte35_loop_find [OF _ inv carried, of i ?n]
  have loop: "enum_scte35_loop (\<lambda>n. True) pat (int i) ?n =
      (case find ?Q [i ..< ?n] of None \<Rightarrow> Some (-1, int (i + ?n), None)
       | Some k \<Rightarrow> Some (0, int k + 1, Some (scte35_report pat k)))"
    using i le len by simp
  show "ltntstools_pat_enum_services_scte35 (fst c) (Some (snd c)) (int i) =
      Some (0, int k + 1, Some (scte35_report (snd c) k))"
    if "find (\<lambda>k. cue_program (programs (snd c) ! k)) [i ..< unat (program_count (snd c))] = Some k"
    using loop that by (auto simp: c ltntstools_pat_enum_services_scte35_def enum_bounds [OF inv i])
  show "\<exists>e'. ltntstools_pat_enum_services_scte35 (fst c) (Some (snd c)) (int i) = Some (-1, e', None)"
    if "find (\<lambda>k. cue_program (programs (snd c) ! k)) [i ..< unat (program_count (snd c))] = None"
    using loop that by (auto simp: c ltntstools_pat_enum_services_scte35_def enum_bounds [OF inv i])
qed

subsection \<open>What a caller gets\<close>

text \<open>
  C15: A caller that enumerates the services of a table from position 0 until the return code is
  -1 gets, in order and each once, exactly the programs with a video stream, the programs with
  a teletext stream, the programs on a given PID, and the programs with a SMPTE 2038 stream
  together with the PID of the first such stream.
\<close>

theorem services_enumerated:
  assumes "pat_inv pat"
  shows "enum_all (ltntstools_pat_enum_services_video pat True) (Suc (unat (program_count pat))) 0
      = Some (filter (\<lambda>k. \<exists>s \<in> set (streams_at pat k). video_stream s) [0 ..< unat (program_count pat)])
    \<and> enum_all (ltntstools_pat_enum_services_teletext pat True) (Suc (unat (program_count pat))) 0
      = Some (filter (\<lambda>k. \<exists>s \<in> set (streams_at pat k). teletext_stream s) [0 ..< unat (program_count pat)])
    \<and> enum_all (ltntstools_pat_enum_services pat pid True) (Suc (unat (program_count pat))) 0
      = Some (filter (\<lambda>k. program_map_PID (programs pat ! k) = ucast pid) [0 ..< unat (program_count pat)])
    \<and> enum_all (ltntstools_pat_enum_services_smpte2038 (Some pat)) (Suc (unat (program_count pat))) 0
      = Some (map (smpte2038_report pat) (filter (smpte2038_at pat) [0 ..< unat (program_count pat)]))"
  using vid.run_all [of pat] ttx.run_all [of pat] svc.run_all [of "(pat, pid)"] anc.run_all [of pat] assms by simp

text \<open>A table of two programs, the second with a video stream.\<close>

definition sample_video_pmt :: pmt_s where
  "sample_video_pmt = zero_pmt\<lparr>stream_count := 1, streams := (streams zero_pmt)
     [0 := \<lparr>stream_type = 0x1b, elementary_PID = 0x41, es_descr_list = zero_descr_list\<rparr>]\<rparr>"

definition sample_services :: pat_s where
  "sample_services = zero_pat\<lparr>program_count := 2,
     programs := (programs zero_pat)[1 := zero_program\<lparr>program_pmt := sample_video_pmt\<rparr>]\<rparr>"

lemma sample_services_inv: "pat_inv sample_services"
proof -
  have "pmt_inv sample_video_pmt"
    using zero_inv(1,2)
    by (auto simp: sample_video_pmt_def pmt_inv_def list_all_iff dest!: set_update_subset_insert [THEN subsetD])
  then show ?thesis
    using zero_inv(4)
    by (auto simp: sample_services_def pat_inv_def list_all_iff dest!: set_update_subset_insert [THEN subsetD])
qed

lemma sample_services_streams:
  "streams_at sample_services 0 = []" "map stream_type (streams_at sample_services 1) = [0x1b]"
  "unat (program_count sample_services) = 2"
proof -
  have l: "length (programs zero_pat) = 64" "programs zero_pat ! 0 = zero_program" "length (streams zero_pmt) = 16"
    using zero_inv(2,4) by (simp_all add: pat_inv_def pmt_inv_def) (simp add: zero_pat_def LTNTSTOOLS_PAT_ENTRIES_MAX_def)
  then obtain s ss where ss: "streams zero_pmt = s # ss" by (cases "streams zero_pmt") auto
  show "streams_at sample_services 0 = []"
    using l by (simp add: sample_services_def zero_program_def listed_streams_def) (simp add: zero_pmt_def)
  show "map stream_type (streams_at sample_services 1) = [0x1b]" "unat (program_count sample_services) = 2"
    using l ss by (simp_all add: sample_services_def listed_streams_def sample_video_pmt_def)
qed

theorem services_enumerated_witness:
  "enum_all (ltntstools_pat_enum_services_video sample_services True) 3 0 = Some [1]"
proof -
  have "\<exists>s \<in> set (streams_at sample_services 1). video_stream s"
    using sample_services_streams(2) by (auto simp: video_stream_def ltntstools_is_ESPayloadType_Video_def)
  moreover have "[0 ..< 2] = [0, 1 :: nat]" by (simp add: upt_rec)
  ultimately show ?thesis
    using services_enumerated [OF sample_services_inv, of 0] sample_services_streams by (simp add: eval_nat_numeral)
qed

text \<open>
  The enumerations of audio and of SCTE-35 services report every such program of a table, once and in
  order, with the types and PIDs of its audio streams or the PIDs of its SCTE-35 streams, as
  long as the table has at most 32 programs, the slots behind them are blank, every allocation succeeds and
  every program that is registered for cues has a SCTE-35 stream.
\<close>

theorem pid_services_enumerated:
  assumes "roomy (alloc, pat)" and "cues_carried pat"
  shows "enum_all (ltntstools_pat_enum_services_audio alloc (Some pat)) (Suc (unat (program_count pat))) 0
      = Some (map (audio_report pat)
          (filter (\<lambda>k. \<exists>s \<in> set (streams_at pat k). audio_stream s) [0 ..< unat (program_count pat)]))
    \<and> enum_all (ltntstools_pat_enum_services_scte35 alloc (Some pat)) (Suc (unat (program_count pat))) 0
      = Some (map (scte35_report pat) (filter (\<lambda>k. cue_program (programs pat ! k)) [0 ..< unat (program_count pat)]))"
  using aud.run_all [of "(alloc, pat)"] cue.run_all [of "(alloc, pat)"] assms by simp

theorem pid_services_enumerated_witness:
  "enum_all (ltntstools_pat_enum_services_audio (\<lambda>n. True) (Some zero_pat)) 1 0 = Some []"
proof -
  have b: "blank zero_program" "\<not> cue_program zero_program"
    by (simp_all add: blank_def zero_program_def zero_pmt_def cue_program_def)
       (simp_all add: zero_descr_list_def)
  have "roomy (\<lambda>n. True, zero_pat)" "cues_carried zero_pat"
    using zero_inv(4) b by (simp_all add: roomy_def cues_carried_def list_all_iff) (simp_all add: zero_pat_def)
  from pid_services_enumerated [OF this] show ?thesis by (simp add: zero_pat_def)
qed

subsection \<open>Outside the conditions\<close>

text \<open>
  A program that is registered for cues and has no SCTE-35 stream stops the enumeration: the
  call fails and leaves the position where it was, whatever programs follow.
\<close>

lemma scte35_stuck:
  assumes inv: "pat_inv pat" and i: "i < unat (program_count pat)" and cue: "cue_program (programs pat ! i)"
    and none: "\<not> (\<exists>s \<in> set (streams_at pat i). scte35_stream s)"
  shows "ltntstools_pat_enum_services_scte35 (\<lambda>n. True) (Some pat) (int i) = Some (-1, int i, None)"
proof -
  have "i < length (programs pat)" using inv i by (simp add: pat_inv_def)
  then have "enum_scte35_loop (\<lambda>n. True) pat (int i) n = Some (-1, int i, None)" for n
    using enum_scte35_step [OF _ inv, of i] cue none by (induction n) (simp_all del: enum_scte35_loop.simps(2))
  then show ?thesis using enum_bounds(1) [OF inv, of i] i by (simp add: ltntstools_pat_enum_services_scte35_def)
qed

text \<open>
  With all 64 programs in use, the call that looks for the next audio service behind the last
  one reads past the table.
\<close>

lemma audio_overreads:
  assumes inv: "pat_inv pat" and full: "unat (program_count pat) = 64" and i: "0 < i" "i < 64"
    and none: "\<forall>k. i \<le> k \<and> k < 64 \<longrightarrow> \<not> (\<exists>s \<in> set (streams_at pat k). audio_stream s)"
  shows "ltntstools_pat_enum_services_audio (\<lambda>n. True) (Some pat) (int i) = None"
proof -
  have len: "length (programs pat) = 64" using inv by (simp add: pat_inv_def)
  have "enum_audio_loop (\<lambda>n. True) pat (int j) n = None" if "i \<le> j" "j \<le> 64" "64 < j + n" for j n
    using that
  proof (induction n arbitrary: j)
    case (Suc n)
    show ?case
    proof (cases "j = 64")
      case True
      then show ?thesis using len by (simp add: program_at_def rd_def)
    next
      case False
      then have "enum_audio_loop (\<lambda>n. True) pat (int j) 1 = Some (-1, int j + 1, None)"
        using enum_audio_loop_find [of j 1 pat] inv len none Suc.prems by simp
      moreover have "enum_audio_loop (\<lambda>n. True) pat (int (Suc j)) n = None"
        by (rule Suc.IH) (use Suc.prems False in simp_all)
      ultimately show ?thesis
        by (auto simp: Let_def add.commute bind_eq_Some_conv split: if_splits option.splits)
    qed
  qed simp
  from this [of i 64] show ?thesis
    using enum_bounds(1) [OF inv, of i] i full by (simp add: ltntstools_pat_enum_services_audio_def)
qed

end
