(* ===== verification/PatPackets.thy ===== *)
theory PatPackets
  imports PatServices
begin

text \<open>
  The PAT and PMT packets of \<open>src/src/pat.c\<close>: what \<open>ltntstools_pat_create_packet_ts\<close> and
  \<open>ltntstools_pmt_create_packet_ts\<close> write is taken by the section extractor and decoded by a reference decoder
  that follows ISO/IEC 13818-1. Also the bounds past which they overrun the packet, the way from parsed
  tables to a packet and back, and the packets that \<open>writePSI\<close> leaves behind.
\<close>

unbundle bit_operations_syntax

subsection \<open>Writing a packet\<close>

text \<open>A packet under construction: what has been written, and the stuffing of \<open>memset\<close>.\<close>

definition filled :: "bytes \<Rightarrow> bytes" where
  "filled pre = pre @ replicate (188 - length pre) 0xff"

lemma length_filled [simp]: "length pre \<le> 188 \<Longrightarrow> length (filled pre) = 188"
  by (simp add: filled_def)

lemma filled_start: "length packet = 188 \<Longrightarrow> wr packet 0 (replicate 188 0xff) = Some (filled [])"
  by (simp add: filled_def blit_def)

lemma put_filled:
  assumes "length pre \<le> 188"
  shows "put (filled pre, length pre) bs =
    (if length pre + length bs \<le> 188 then Some (filled (pre @ bs), length (pre @ bs)) else None)"
proof -
  have "wr (filled pre) (length pre) bs = Some (filled (pre @ bs))" if "length pre + length bs \<le> 188"
    using that assms replicate_split [of "length bs" "188 - length pre" "0xff :: u8"]
    by (simp add: filled_def)
  then show ?thesis using assms by (simp add: put_def wr_def)
qed

lemma ucast_low_byte: "(ucast (w AND 0xff :: u32) :: u8) = ucast w"
proof -
  have m: "(0xff :: u32) = mask 8" by (simp add: mask_eq_exp_minus_1)
  show ?thesis by (rule bit_word_eqI) (auto simp: m bit_simps)
qed

lemma put_crc_filled:
  assumes "5 < length pre" "length pre \<le> 188"
  shows "put_crc (filled pre, length pre) =
    (if length pre + 4 \<le> 188
     then Some (filled (pre @ be32 (crc32_loop 0xffffffff (drop 5 pre))), length pre + 4) else None)"
proof -
  define crc where "crc = crc32_loop 0xffffffff (drop 5 pre)"
  have n: "nat (int (length pre) - 5) = length pre - 5" by simp
  have "take (length pre - 5) (drop 5 (filled pre)) = drop 5 pre" using assms(1) by (simp add: filled_def)
  then have g: "ltntstools_getCRC32 (Some (drop 5 (filled pre))) (int (length pre) - 5) True = Some (Some crc)"
    using assms by (simp add: ltntstools_getCRC32_def rdn_def n crc_def)
  have "put_crc (filled pre, length pre) = put (filled pre, length pre) (be32 crc)"
    unfolding put_crc_def fst_conv snd_conv g by (simp add: ucast_low_byte be32_def)
  then show ?thesis using put_filled [OF assms(2), of "be32 crc"] by (simp add: length_be32 flip: crc_def)
qed

subsection \<open>The tables as bytes\<close>

definition program_bytes :: "pat_program_s \<Rightarrow> bytes" where
  "program_bytes g = [ucast (drop_bit 8 (pmt_program_number (program_pmt g))),
     ucast (pmt_program_number (program_pmt g)),
     ucast (0xe0 OR (drop_bit 8 (program_map_PID g) AND 0x1f)), ucast (program_map_PID g AND 0xff)]"

lemma length_programs_bytes: "length (concat (map program_bytes gs)) = 4 * length gs"
  by (induction gs) (simp_all add: program_bytes_def)

lemma put_programs_filled:
  assumes "j + n \<le> length (programs pat)" and "length pre \<le> 188"
  shows "put_programs pat (filled pre, length pre) j n =
    (if length pre + 4 * n \<le> 188
     then Some (filled (pre @ concat (map program_bytes (take n (drop j (programs pat))))), length pre + 4 * n)
     else None)"
  using assms
proof (induction n arbitrary: j pre)
  case (Suc n)
  let ?g = "programs pat ! j"
  have d: "drop j (programs pat) = ?g # drop (Suc j) (programs pat)" using Suc.prems by (simp add: Cons_nth_drop_Suc)
  have "put (filled pre, length pre) (program_bytes ?g) =
      (if length pre + 4 \<le> 188 then Some (filled (pre @ program_bytes ?g), length (pre @ program_bytes ?g)) else None)"
    using put_filled [OF Suc.prems(2), of "program_bytes ?g"] by (simp add: program_bytes_def)
  moreover have "length (program_bytes ?g) = 4" by (simp add: program_bytes_def)
  ultimately show ?case
    using Suc.IH [of "Suc j" "pre @ program_bytes ?g"] Suc.prems d
    by (simp flip: program_bytes_def)
qed simp

definition descr_bytes :: "u8 \<times> bytes \<Rightarrow> bytes" where
  "descr_bytes x = fst x # of_nat (length (snd x)) # snd x"

definition descrs_bytes :: "descriptor_list_s \<Rightarrow> bytes" where
  "descrs_bytes list = concat (map descr_bytes (descriptors list))"

lemma descr_bytes_value:
  assumes "length (descr_data d) = 256"
  shows "descr_bytes (descr_value d) = [descr_tag d, descr_len d] @ take (unat (descr_len d)) (descr_data d)"
  using length_descr_value [OF assms] by (simp add: descr_bytes_def descr_value_def)

lemma descr_inv_nth:
  assumes "descr_inv list" "j < 16"
  shows "j < length (descr_array list)" "length (descr_data (descr_array list ! j)) = 256"
    "unat (descr_len (descr_array list ! j)) < 256"
proof -
  show "j < length (descr_array list)" "length (descr_data (descr_array list ! j)) = 256"
    using assms by (auto simp: descr_inv_def list_all_length)
  show "unat (descr_len (descr_array list ! j)) < 256" using unsigned_less [of "descr_len (descr_array list ! j)"] by simp
qed

lemma descr_list_length_loop:
  assumes "descr_inv list" "j + n \<le> 16"
  shows "descr_list_length list j n =
    Some (length (concat (map descr_bytes (map descr_value (take n (drop j (descr_array list)))))))"
  using assms(2)
proof (induction n arbitrary: j)
  case (Suc n)
  note nth = descr_inv_nth [OF assms(1), of j]
  have "drop j (descr_array list) = descr_array list ! j # drop (Suc j) (descr_array list)"
    using nth(1) Suc.prems by (simp add: Cons_nth_drop_Suc)
  with Suc nth show ?case by (simp add: descr_bytes_value)
qed simp

lemma descr_list_length_eq:
  "descr_inv list \<Longrightarrow> descr_list_length list 0 (unat (descr_count list)) = Some (length (descrs_bytes list))"
  using descr_list_length_loop [of list 0 "unat (descr_count list)"]
  by (simp add: descrs_bytes_def descriptors_def descr_inv_def)

lemma put_descriptors_loop:
  assumes "descr_inv list" "j + n \<le> 16" "length pre \<le> 188"
  shows "put_descriptors list (filled pre, length pre) j n =
    (let bs = concat (map descr_bytes (map descr_value (take n (drop j (descr_array list))))) in
     if length pre + length bs \<le> 188 then Some (filled (pre @ bs), length pre + length bs) else None)"
  using assms(2,3)
proof (induction n arbitrary: j pre)
  case (Suc n)
  let ?d = "descr_array list ! j"
  note nth = descr_inv_nth [OF assms(1), of j]
  have d: "drop j (descr_array list) = ?d # drop (Suc j) (descr_array list)"
    using nth(1) Suc.prems by (simp add: Cons_nth_drop_Suc)
  define bs where "bs = take (unat (descr_len ?d)) (descr_data ?d)"
  have bs: "length bs = unat (descr_len ?d)" using nth Suc.prems by (simp add: bs_def)
  have v: "descr_bytes (descr_value ?d) = [descr_tag ?d, descr_len ?d] @ bs"
    using nth Suc.prems by (simp add: descr_bytes_value bs_def)
  have data: "rdn (descr_data ?d) 0 (unat (descr_len ?d)) = Some bs" using nth Suc.prems by (simp add: bs_def)
  show ?case
  proof (cases "length pre + 2 + length bs \<le> 188")
    case True
    have "put (filled pre, length pre) [descr_tag ?d, descr_len ?d]
        = Some (filled (pre @ [descr_tag ?d, descr_len ?d]), length (pre @ [descr_tag ?d, descr_len ?d]))"
      using True Suc.prems by (simp add: put_filled)
    moreover have "put (filled (pre @ [descr_tag ?d, descr_len ?d]), length (pre @ [descr_tag ?d, descr_len ?d])) bs
        = Some (filled (pre @ [descr_tag ?d, descr_len ?d] @ bs), length (pre @ [descr_tag ?d, descr_len ?d] @ bs))"
      using True by (subst put_filled) simp_all
    ultimately show ?thesis
      using Suc.IH [of "Suc j" "pre @ [descr_tag ?d, descr_len ?d] @ bs"] Suc.prems True nth d v data
      by (simp add: Let_def)
  next
    case False
    then have "put (filled pre, length pre) [descr_tag ?d, descr_len ?d] \<bind> (\<lambda>w. put w bs) = None"
      using Suc.prems put_filled [of pre "[descr_tag ?d, descr_len ?d]"]
        put_filled [of "pre @ [descr_tag ?d, descr_len ?d]" bs] by simp
    then show ?thesis using False nth d v data Suc.prems
      by (cases "put (filled pre, length pre) [descr_tag ?d, descr_len ?d]") (simp_all add: Let_def)
  qed
qed simp

lemma put_descriptors_filled:
  assumes "descr_inv list" "length pre \<le> 188"
  shows "put_descriptors list (filled pre, length pre) 0 (unat (descr_count list)) =
    (if length pre + length (descrs_bytes list) \<le> 188
     then Some (filled (pre @ descrs_bytes list), length pre + length (descrs_bytes list)) else None)"
  using put_descriptors_loop [of list 0 "unat (descr_count list)" pre] assms
  by (simp add: descrs_bytes_def descriptors_def descr_inv_def Let_def)

definition es_bytes :: "pmt_entry_s \<Rightarrow> bytes" where
  "es_bytes s = [ucast (stream_type s), ucast (0xe0 OR drop_bit 8 (elementary_PID s AND 0x1fff)),
     ucast (elementary_PID s),
     ucast (0xf0 OR drop_bit 8 ((of_nat (length (descrs_bytes (es_descr_list s))) :: u32) AND 0xfff)),
     of_nat (length (descrs_bytes (es_descr_list s)))] @ descrs_bytes (es_descr_list s)"

lemma pmt_inv_nth:
  assumes "pmt_inv e" "j < 16"
  shows "j < length (streams e)" "descr_inv (es_descr_list (streams e ! j))"
  using assms by (auto simp: pmt_inv_def list_all_length)

lemma streams_descr_length_loop:
  assumes "pmt_inv e" "j + n \<le> 16"
  shows "\<exists>l. streams_descr_length e j n = Some l
    \<and> 5 * n + l = length (concat (map es_bytes (take n (drop j (streams e)))))"
  using assms(2)
proof (induction n arbitrary: j)
  case (Suc n)
  note nth = pmt_inv_nth [OF assms(1), of j]
  have "drop j (streams e) = streams e ! j # drop (Suc j) (streams e)"
    using nth(1) Suc.prems by (simp add: Cons_nth_drop_Suc)
  with Suc.IH [of "Suc j"] Suc.prems nth show ?case by (auto simp: descr_list_length_eq es_bytes_def)
qed simp

lemma put_streams_loop:
  assumes "pmt_inv e" "j + n \<le> 16" "length pre \<le> 188"
  shows "put_streams e (filled pre, length pre) j n =
    (let bs = concat (map es_bytes (take n (drop j (streams e)))) in
     if length pre + length bs \<le> 188 then Some (filled (pre @ bs), length pre + length bs) else None)"
  using assms(2,3)
proof (induction n arbitrary: j pre)
  case (Suc n)
  let ?s = "streams e ! j"
  note nth = pmt_inv_nth [OF assms(1), of j]
  have d: "drop j (streams e) = ?s # drop (Suc j) (streams e)"
    using nth(1) Suc.prems by (simp add: Cons_nth_drop_Suc)
  have inv: "descr_inv (es_descr_list ?s)" using nth Suc.prems by simp
  define a where "a = [ucast (stream_type ?s), ucast (0xe0 OR drop_bit 8 (elementary_PID ?s AND 0x1fff)),
      ucast (elementary_PID ?s) :: u8]"
  define b where "b = [ucast (0xf0 OR drop_bit 8 ((of_nat (length (descrs_bytes (es_descr_list ?s))) :: u32) AND 0xfff)),
      of_nat (length (descrs_bytes (es_descr_list ?s))) :: u8]"
  define c where "c = descrs_bytes (es_descr_list ?s)"
  have l: "length a = 3" "length b = 2" by (simp_all add: a_def b_def)
  have v: "es_bytes ?s = a @ b @ c" by (simp add: es_bytes_def a_def b_def c_def)
  have step: "put_streams e (filled pre, length pre) j (Suc n) =
      put (filled pre, length pre) a \<bind> (\<lambda>w. put w b \<bind>
        (\<lambda>w. put_descriptors (es_descr_list ?s) w 0 (unat (descr_count (es_descr_list ?s))) \<bind>
        (\<lambda>w. put_streams e w (j + 1) n)))"
    using nth Suc.prems by (simp add: descr_list_length_eq [OF inv] a_def b_def)
  show ?case
  proof (cases "length pre + 5 \<le> 188")
    case True
    have "put (filled pre, length pre) a = Some (filled (pre @ a), length (pre @ a))"
      using True Suc.prems l by (simp add: put_filled)
    moreover have "put (filled (pre @ a), length (pre @ a)) b = Some (filled (pre @ a @ b), length (pre @ a @ b))"
      using True l by (subst put_filled) simp_all
    moreover have "put_descriptors (es_descr_list ?s) (filled (pre @ a @ b), length (pre @ a @ b)) 0
          (unat (descr_count (es_descr_list ?s))) =
        (if length pre + 5 + length c \<le> 188 then Some (filled (pre @ a @ b @ c), length (pre @ a @ b @ c)) else None)"
      using put_descriptors_filled [OF inv, of "pre @ a @ b"] True l by (simp add: c_def ac_simps)
    ultimately show ?thesis
      unfolding step using Suc.IH [of "Suc j" "pre @ a @ b @ c"] Suc.prems d v l by (simp add: Let_def)
  next
    case False
    then have "put (filled pre, length pre) a \<bind> (\<lambda>w. put w b) = None"
      using Suc.prems l put_filled [of pre a] put_filled [of "pre @ a" b] by simp
    then have "put (filled pre, length pre) a \<bind> (\<lambda>w. put w b \<bind> f) = None" for f :: "bytes \<times> nat \<Rightarrow> (bytes \<times> nat) mem"
      by (cases "put (filled pre, length pre) a") simp_all
    then show ?thesis unfolding step using False d v l by (simp add: Let_def)
  qed
qed simp

subsection \<open>The packets\<close>

definition table_section :: "bytes \<Rightarrow> bytes" where
  "table_section body = body @ be32 (crc32_loop 0xffffffff body)"

lemma length_table_section [simp]: "length (table_section body) = length body + 4"
  by (simp add: table_section_def length_be32)

definition pat_body :: "pat_s \<Rightarrow> bytes" where
  "pat_body pat = [0x00, 0xb0, ucast (9 + program_count pat * 4),
     ucast (drop_bit 8 (transport_stream_id pat)), ucast (transport_stream_id pat),
     version_byte (pat_version_number pat) (pat_current_next_indicator pat), 0x00, 0x00]
     @ concat (map program_bytes (listed_programs pat))"

lemma length_pat_body: "pat_inv pat \<Longrightarrow> length (pat_body pat) = 8 + 4 * unat (program_count pat)"
  by (simp add: pat_body_def length_programs_bytes listed_programs_def pat_inv_def)

lemma pat_create_packet_eq:
  assumes inv: "pat_inv pat" and len: "length packet = 188"
  shows "ltntstools_pat_create_packet_ts (Some pat) cc (Some packet) 188 =
    (if unat (program_count pat) \<le> 42
     then Some (Some (filled ([0x47, 0x40, 0x00, 0x10 OR (cc AND 0x0f), 0x00] @ table_section (pat_body pat))), 0)
     else None)"
proof -
  let ?n = "unat (program_count pat)"
  define pre where "pre = [0x47, 0x40, 0x00, 0x10 OR (cc AND 0x0f), 0x00, 0x00, 0xb0,
      ucast (9 + program_count pat * 4), ucast (drop_bit 8 (transport_stream_id pat)), ucast (transport_stream_id pat),
      version_byte (pat_version_number pat) (pat_current_next_indicator pat), 0x00, 0x00 :: u8]"
  have l: "length pre = 13" by (simp add: pre_def)
  have p: "put (filled [], 0) pre = Some (filled pre, length pre)"
    using put_filled [of "[]" pre] l by simp
  have n: "?n \<le> length (programs pat)" "?n \<le> 64" using inv by (simp_all add: pat_inv_def)
  define q where "q = pre @ concat (map program_bytes (listed_programs pat))"
  have lq: "length q = 13 + 4 * ?n" using l n by (simp add: q_def length_programs_bytes listed_programs_def)
  have g: "put_programs pat (filled pre, length pre) 0 ?n
      = (if 13 + 4 * ?n \<le> 188 then Some (filled q, length q) else None)"
    using put_programs_filled [of 0 ?n pat pre] n l lq by (simp add: q_def listed_programs_def)
  have q5: "drop 5 q = pat_body pat" "take 5 q = [0x47, 0x40, 0x00, 0x10 OR (cc AND 0x0f), 0x00]"
    by (simp_all add: q_def pre_def pat_body_def)
  have "ltntstools_pat_create_packet_ts (Some pat) cc (Some packet) 188 =
      put_programs pat (filled pre, length pre) 0 ?n \<bind> (\<lambda>w. put_crc w \<bind> (\<lambda>w. Some (Some (fst w), 0)))"
    using p by (simp add: ltntstools_pat_create_packet_ts_def filled_start [OF len] pre_def)
  also have "\<dots> = (if ?n \<le> 42 then Some (Some (filled (q @ be32 (crc32_loop 0xffffffff (drop 5 q)))), 0) else None)"
    unfolding g using put_crc_filled [of q] lq by simp
  also have "q @ be32 (crc32_loop 0xffffffff (drop 5 q))
      = [0x47, 0x40, 0x00, 0x10 OR (cc AND 0x0f), 0x00] @ table_section (pat_body pat)"
    using append_take_drop_id [of 5 q] unfolding q5 by (simp add: table_section_def)
  finally show ?thesis .
qed

definition pmt_body :: "pmt_s \<Rightarrow> bytes" where
  "pmt_body e =
     (let outer = descrs_bytes (pmt_descr_list e); inner = concat (map es_bytes (listed_streams e)) in
      [0x02, 0xb0, of_nat (13 + length outer + length inner),
       ucast (drop_bit 8 (pmt_program_number e)), ucast (pmt_program_number e),
       version_byte (pmt_version_number e) (pmt_current_next_indicator e), 0x00, 0x00,
       ucast (0xe0 OR drop_bit 8 (PCR_PID e AND 0x1fff)), ucast (PCR_PID e),
       ucast (0xf0 OR drop_bit 8 ((of_nat (length outer) :: u32) AND 0xfff)), of_nat (length outer)]
      @ outer @ inner)"

lemma pmt_create_packet_eq:
  assumes inv: "pmt_inv e" and len: "length packet = 188"
  shows "ltntstools_pmt_create_packet_ts (Some e) pid cc (Some packet) 188 =
    (if length (pmt_body e) + 4 \<le> 183
     then Some (Some (filled ([0x47, ucast (0x40 OR drop_bit 8 (pid AND 0x1fff)), ucast (pid AND 0xff),
                               0x10 OR (cc AND 0x0f), 0x00] @ table_section (pmt_body e))), 0)
     else None)"
proof -
  define outer where "outer = descrs_bytes (pmt_descr_list e)"
  define inner where "inner = concat (map es_bytes (listed_streams e))"
  have c: "unat (stream_count e) \<le> 16" and dinv: "descr_inv (pmt_descr_list e)" using inv by (simp_all add: pmt_inv_def)
  obtain l where l: "streams_descr_length e 0 (unat (stream_count e)) = Some l"
      "5 * unat (stream_count e) + l = length inner"
    using streams_descr_length_loop [OF inv, of 0 "unat (stream_count e)"] c by (auto simp: inner_def listed_streams_def)
  have byte: "(ucast (9 + 4 + stream_count e * 5 + of_nat (length outer) + of_nat l :: u32) :: u8)
      = of_nat (13 + length outer + length inner)"
  proof -
    have "9 + 4 + stream_count e * 5 + of_nat (length outer) + of_nat l
        = (of_nat (13 + length outer + length inner) :: u32)" unfolding l(2) [symmetric] by simp
    moreover have "(ucast (of_nat k :: u32) :: u8) = of_nat k" for k
      by (simp add: unsigned_of_nat word_of_nat_eq_iff)
    ultimately show ?thesis by (simp only:)
  qed
  define pre where "pre = [0x47, ucast (0x40 OR drop_bit 8 (pid AND 0x1fff)), ucast (pid AND 0xff),
      0x10 OR (cc AND 0x0f), 0x00, 0x02, 0xb0, of_nat (13 + length outer + length inner),
      ucast (drop_bit 8 (pmt_program_number e)), ucast (pmt_program_number e),
      version_byte (pmt_version_number e) (pmt_current_next_indicator e), 0x00, 0x00,
      ucast (0xe0 OR drop_bit 8 (PCR_PID e AND 0x1fff)), ucast (PCR_PID e),
      ucast (0xf0 OR drop_bit 8 ((of_nat (length outer) :: u32) AND 0xfff)), of_nat (length outer) :: u8]"
  have lp: "length pre = 17" by (simp add: pre_def)
  have p: "put (filled [], 0) pre = Some (filled pre, length pre)" using put_filled [of "[]" pre] lp by simp
  define q where "q = pre @ outer @ inner"
  have q5: "drop 5 q = pmt_body e" "length (pmt_body e) = 12 + length outer + length inner"
      "take 5 q = [0x47, ucast (0x40 OR drop_bit 8 (pid AND 0x1fff)), ucast (pid AND 0xff), 0x10 OR (cc AND 0x0f), 0x00]"
    by (simp_all add: q_def pre_def pmt_body_def outer_def inner_def Let_def)
  have lq: "length q = 17 + length outer + length inner" using lp by (simp add: q_def)
  have step: "ltntstools_pmt_create_packet_ts (Some e) pid cc (Some packet) 188 =
      put_descriptors (pmt_descr_list e) (filled pre, length pre) 0 (unat (descr_count (pmt_descr_list e))) \<bind>
      (\<lambda>w. put_streams e w 0 (unat (stream_count e)) \<bind> (\<lambda>w. put_crc w \<bind> (\<lambda>w. Some (Some (fst w), 0))))"
    using p unfolding pre_def
    by (simp add: ltntstools_pmt_create_packet_ts_def filled_start [OF len] descr_list_length_eq [OF dinv] l(1) byte [simplified]
        flip: outer_def)
  have pd: "put_descriptors (pmt_descr_list e) (filled pre, length pre) 0 (unat (descr_count (pmt_descr_list e)))
      = (if 17 + length outer \<le> 188 then Some (filled (pre @ outer), length (pre @ outer)) else None)"
    using put_descriptors_filled [OF dinv, of pre] lp by (simp add: outer_def)
  have "ltntstools_pmt_create_packet_ts (Some e) pid cc (Some packet) 188 =
      (if length q + 4 \<le> 188 then Some (Some (filled (q @ be32 (crc32_loop 0xffffffff (drop 5 q)))), 0) else None)"
  proof (cases "17 + length outer \<le> 188")
    case True
    have s: "put_streams e (filled (pre @ outer), length (pre @ outer)) 0 (unat (stream_count e))
        = (if length q \<le> 188 then Some (filled q, length q) else None)"
      using put_streams_loop [OF inv, of 0 "unat (stream_count e)" "pre @ outer"] c True lp lq
      by (simp add: q_def inner_def listed_streams_def Let_def)
    have "5 < length q" using lq by simp
    with put_crc_filled [of q] have "put_crc (filled q, length q) =
        (if length q + 4 \<le> 188 then Some (filled (q @ be32 (crc32_loop 0xffffffff (drop 5 q))), length q + 4) else None)"
      if "length q \<le> 188" using that by simp
    then show ?thesis unfolding step pd using True s by (simp del: length_append)
  next
    case False
    then show ?thesis unfolding step pd using lq by simp
  qed
  also have "q @ be32 (crc32_loop 0xffffffff (drop 5 q)) =
      [0x47, ucast (0x40 OR drop_bit 8 (pid AND 0x1fff)), ucast (pid AND 0xff), 0x10 OR (cc AND 0x0f), 0x00]
      @ table_section (pmt_body e)"
    using append_take_drop_id [of 5 q] unfolding q5 by (simp add: table_section_def)
  finally show ?thesis using q5(2) lq by simp
qed

subsection \<open>A reference decoder\<close>

text \<open>The tables as ISO/IEC 13818-1 lays them out; it reads the section and nothing behind it.\<close>

definition be16 :: "u8 \<Rightarrow> u8 \<Rightarrow> u16" where
  "be16 a b = push_bit 8 (ucast a) OR ucast b"

fun decode_programs :: "bytes \<Rightarrow> (u16 \<times> u16) list" where
  "decode_programs (a # b # c # d # rest) = (be16 a b, be16 c d AND 0x1fff) # decode_programs rest"
| "decode_programs _ = []"

definition decode_pat :: "bytes \<Rightarrow> u8 \<times> u16 \<times> u8 \<times> bool \<times> (u16 \<times> u16) list" where
  "decode_pat s = (s ! 0, be16 (s ! 3) (s ! 4), drop_bit 1 (s ! 5) AND 0x1f, bit (s ! 5) 0,
     decode_programs (drop 8 (take (unat (section_length_at s 0) - 4) s)))"

fun decode_descrs :: "bytes \<Rightarrow> (u8 \<times> bytes) list" where
  "decode_descrs (t # l # rest) = (t, take (unat l) rest) # decode_descrs (drop (unat l) rest)"
| "decode_descrs _ = []"

fun decode_streams :: "bytes \<Rightarrow> (u8 \<times> u16 \<times> (u8 \<times> bytes) list) list" where
  "decode_streams (t # a # b # c # d # rest) =
     (t, be16 a b AND 0x1fff, decode_descrs (take (unat (be16 c d AND 0xfff)) rest))
     # decode_streams (drop (unat (be16 c d AND 0xfff)) rest)"
| "decode_streams _ = []"

definition decode_pmt ::
  "bytes \<Rightarrow> u8 \<times> u16 \<times> u8 \<times> bool \<times> u16 \<times> (u8 \<times> bytes) list \<times> (u8 \<times> u16 \<times> (u8 \<times> bytes) list) list" where
  "decode_pmt s =
     (let info = unat (be16 (s ! 10) (s ! 11) AND 0xfff); body = drop 12 (take (unat (section_length_at s 0) - 4) s) in
      (s ! 0, be16 (s ! 3) (s ! 4), drop_bit 1 (s ! 5) AND 0x1f, bit (s ! 5) 0, be16 (s ! 8) (s ! 9) AND 0x1fff,
       decode_descrs (take info body), decode_streams (drop info body)))"

text \<open>The fields of two bytes, and the byte with the version.\<close>

lemma masks16: "(0x1fff :: u16) = mask 13" "(0xfff :: u16) = mask 12"
  by (simp_all add: mask_eq_exp_minus_1)

lemma masks32: "(0x1fff :: u32) = mask 13" "(0xfff :: u32) = mask 12" "(0x1f :: u32) = mask 5" "(0xff :: u32) = mask 8"
  by (simp_all add: mask_eq_exp_minus_1)

lemma be16_halves: "be16 (ucast (drop_bit 8 x)) (ucast x) = (ucast (x :: u32) :: u16)"
proof (rule bit_word_eqI)
  fix n assume "n < LENGTH(16)"
  then show "bit (be16 (ucast (drop_bit 8 x)) (ucast x)) n = bit (ucast x :: u16) n"
    by (cases "n < 8") (auto simp: be16_def bit_simps)
qed

lemma be16_pid:
  assumes "\<And>k. k < 5 \<Longrightarrow> bit a k = bit (x :: u32) (k + 8)" and "b = ucast x"
  shows "be16 a b AND 0x1fff = ucast x AND 0x1fff"
proof (rule bit_word_eqI)
  fix n assume "n < LENGTH(16)"
  consider "n < 8" | "8 \<le> n" "n < 13" | "13 \<le> n" by linarith
  then show "bit (be16 a b AND 0x1fff) n = bit (ucast x AND 0x1fff :: u16) n"
  proof cases
    case 2
    then have "bit a (n - 8) = bit x n" "n - 8 < 16" using assms(1) [of "n - 8"] by simp_all
    with 2 show ?thesis by (simp add: be16_def masks16 bit_simps)
  qed (simp_all add: be16_def masks16 bit_simps assms(2))
qed

lemma low_bits_clear: "k < n \<Longrightarrow> \<not> bit (push_bit n a :: 'a::semiring_bit_operations) k"
  by (simp add: bit_push_bit_iff)

lemma bit_e0: "k < 5 \<Longrightarrow> \<not> bit (0xe0 :: int) k" "k < 5 \<Longrightarrow> \<not> bit (0xe0 :: nat) k" "k < 5 \<Longrightarrow> \<not> bit (0xe0 :: u32) k"
  using low_bits_clear [of k 5 "7 :: int"] low_bits_clear [of k 5 "7 :: nat"] low_bits_clear [of k 5 "7 :: u32"]
  by (simp_all add: push_bit_eq_mult)

lemma bit_b000: "k < 12 \<Longrightarrow> \<not> bit (0xb000 :: int) k" "k < 12 \<Longrightarrow> \<not> bit (0xb000 :: nat) k" "k < 12 \<Longrightarrow> \<not> bit (0xb000 :: u32) k"
  using low_bits_clear [of k 12 "11 :: int"] low_bits_clear [of k 12 "11 :: nat"] low_bits_clear [of k 12 "11 :: u32"]
  by (simp_all add: push_bit_eq_mult)

lemma bit_f000: "k < 12 \<Longrightarrow> \<not> bit (0xf000 :: int) k" "k < 12 \<Longrightarrow> \<not> bit (0xf000 :: nat) k" "k < 12 \<Longrightarrow> \<not> bit (0xf000 :: u16) k"
  using low_bits_clear [of k 12 "15 :: int"] low_bits_clear [of k 12 "15 :: nat"] low_bits_clear [of k 12 "15 :: u16"]
  by (simp_all add: push_bit_eq_mult)

lemma pid_high_bits:
  "k < 5 \<Longrightarrow> bit (ucast (0xe0 OR (drop_bit 8 x AND 0x1f)) :: u8) k = bit (x :: u32) (k + 8)"
  "k < 5 \<Longrightarrow> bit (ucast (0xe0 OR drop_bit 8 (x AND 0x1fff)) :: u8) k = bit (x :: u32) (k + 8)"
  by (auto simp: bit_simps masks32 bit_e0 add.commute)

lemma be16_length:
  assumes "n < 256"
  shows "unat (be16 (ucast (0xf0 OR drop_bit 8 ((of_nat n :: u32) AND 0xfff))) (of_nat n) AND 0xfff) = n"
proof -
  have "unat ((of_nat n :: u32) AND 0xfff) = n"
    using assms by (simp add: masks32 unsigned_take_bit_eq unsigned_of_nat take_bit_nat_eq_self flip: take_bit_eq_mask)
  then have "drop_bit 8 ((of_nat n :: u32) AND 0xfff) = 0"
    using assms by (simp only: word_unat_eq_iff unsigned_drop_bit_eq) (simp add: drop_bit_eq_div take_bit_nat_eq_self)
  then have "be16 (ucast (0xf0 OR drop_bit 8 ((of_nat n :: u32) AND 0xfff))) (of_nat n) AND 0xfff
      = be16 0xf0 (of_nat n) AND 0xfff" by simp
  also have "\<dots> = ucast (of_nat n :: u8)"
    by (rule bit_word_eqI) (auto simp: be16_def masks16 bit_simps bit_f000)
  finally show ?thesis using assms by (simp add: unsigned_ucast_eq unsigned_of_nat take_bit_nat_eq_self)
qed

lemma version_byte_fields:
  assumes "cni < 2"
  shows "drop_bit 1 (version_byte v cni) AND 0x1f = 0"
    and "bit (version_byte v cni) 0 \<longleftrightarrow> v AND 0x1f = 0 \<or> cni = 1"
proof -
  have "cni = 0 \<or> cni = 1" using assms by (auto simp: word_less_nat_alt word_unat_eq_iff)
  moreover have "v AND 0x1f < 1 \<longleftrightarrow> v AND 0x1f = 0" by (simp add: word_less_nat_alt word_unat_eq_iff)
  ultimately show "drop_bit 1 (version_byte v cni) AND 0x1f = 0"
    and "bit (version_byte v cni) 0 \<longleftrightarrow> v AND 0x1f = 0 \<or> cni = 1"
    by (auto simp: version_byte_def)
qed

lemma section_length_b0:
  assumes "s ! 1 = 0xb0"
  shows "unat (section_length_at s 0) = unat (s ! 2) + 3"
proof -
  have "(push_bit 8 (ucast (0xb0 :: u8)) OR ucast (s ! 2)) AND 0xfff = (ucast (s ! 2) :: u32)"
  proof (rule bit_word_eqI)
    fix n assume "n < LENGTH(32)"
    show "bit ((push_bit 8 (ucast (0xb0 :: u8)) OR ucast (s ! 2)) AND 0xfff :: u32) n = bit (ucast (s ! 2) :: u32) n"
      by (cases "n < 12") (auto simp: bit_simps masks32 bit_b000)
  qed
  moreover have "unat (s ! 2) < 256" using unsigned_less [of "s ! 2"] by simp
  ultimately show ?thesis
    using assms
    by (simp add: section_length_at_def numeral_2_eq_2 [symmetric] unat_word_ariths unsigned_ucast_eq take_bit_nat_eq_self)
qed

text \<open>Decoding what the writers wrote.\<close>

lemma decode_programs_bytes:
  "decode_programs (concat (map program_bytes gs)) =
    map (\<lambda>g. (ucast (pmt_program_number (program_pmt g)), ucast (program_map_PID g) AND 0x1fff)) gs"
proof (induction gs)
  case (Cons g gs)
  have "be16 (ucast (0xe0 OR (drop_bit 8 (program_map_PID g) AND 0x1f))) (ucast (program_map_PID g AND 0xff)) AND 0x1fff
      = ucast (program_map_PID g) AND 0x1fff"
    by (rule be16_pid) (simp_all only: pid_high_bits ucast_low_byte)
  with Cons show ?case by (simp only: list.map concat.simps) (simp only: program_bytes_def [of g] append.simps decode_programs.simps be16_halves)
qed simp

lemma descriptors_fit:
  assumes "descr_inv list"
  shows "list_all descr_fits (descriptors list)"
proof -
  have "unat (l :: u8) < 256" for l using unsigned_less [of l] by simp
  then have "unat (l :: u8) \<le> 255" for l using le_simps(2) [of "unat l" 255] by simp
  then have "descr_fits (descr_value d)" for d by (simp add: descr_fits_def descr_value_def min.coboundedI2)
  then show ?thesis by (simp add: descriptors_def list_all_iff)
qed

lemma decode_descrs_bytes:
  "list_all descr_fits ds \<Longrightarrow> decode_descrs (concat (map descr_bytes ds)) = ds"
proof (induction ds)
  case (Cons x ds)
  then have "unat (of_nat (length (snd x)) :: u8) = length (snd x)"
    by (simp add: descr_fits_def unsigned_of_nat take_bit_nat_eq_self)
  with Cons show ?case by (simp add: descr_bytes_def)
qed simp

lemma decode_descrs_list: "descr_inv list \<Longrightarrow> decode_descrs (descrs_bytes list) = descriptors list"
  by (simp add: descrs_bytes_def decode_descrs_bytes descriptors_fit)

definition es_coded :: "pmt_entry_s \<Rightarrow> u8 \<times> u16 \<times> (u8 \<times> bytes) list" where
  "es_coded s = (ucast (stream_type s), ucast (elementary_PID s) AND 0x1fff, descriptors (es_descr_list s))"

lemma decode_streams_bytes:
  assumes "list_all (\<lambda>s. descr_inv (es_descr_list s)) ss" and "length (concat (map es_bytes ss)) < 256"
  shows "decode_streams (concat (map es_bytes ss)) = map es_coded ss"
  using assms
proof (induction ss)
  case (Cons s ss)
  define n where "n = length (descrs_bytes (es_descr_list s))"
  have n: "n < 256" using Cons.prems(2) by (simp add: es_bytes_def n_def)
  have pid: "be16 (ucast (0xe0 OR drop_bit 8 (elementary_PID s AND 0x1fff))) (ucast (elementary_PID s)) AND 0x1fff
      = ucast (elementary_PID s) AND 0x1fff"
    by (rule be16_pid) (simp_all only: pid_high_bits)
  show ?case
    using Cons.IH Cons.prems be16_length [OF n] pid
    by (simp only: list.map concat.simps es_bytes_def n_def append.simps append_assoc decode_streams.simps)
      (simp add: decode_descrs_list es_coded_def)
qed simp

lemma decode_pat_section:
  assumes inv: "pat_inv pat" and n: "unat (program_count pat) \<le> 42" and cni: "pat_current_next_indicator pat < 2"
  shows "decode_pat (table_section (pat_body pat) @ rest) =
    (0, ucast (transport_stream_id pat), 0, pat_version_number pat AND 0x1f = 0 \<or> pat_current_next_indicator pat = 1,
     map (\<lambda>g. (ucast (pmt_program_number (program_pmt g)), ucast (program_map_PID g) AND 0x1fff)) (listed_programs pat))"
    and "unat (section_length_at (table_section (pat_body pat) @ rest) 0) = length (table_section (pat_body pat))"
proof -
  let ?s = "table_section (pat_body pat) @ rest"
  have fields: "?s ! 0 = 0" "?s ! 1 = 0xb0" "?s ! 2 = ucast (9 + program_count pat * 4)"
    "?s ! 3 = ucast (drop_bit 8 (transport_stream_id pat))" "?s ! 4 = ucast (transport_stream_id pat)"
    "?s ! 5 = version_byte (pat_version_number pat) (pat_current_next_indicator pat)"
    by (simp_all add: table_section_def pat_body_def)
  have "unat (9 + program_count pat * 4) = 9 + unat (program_count pat) * 4"
    using n by (simp add: unat_word_ariths)
  then have "unat (?s ! 2) = 9 + 4 * unat (program_count pat)"
    unfolding fields using n by (simp add: unsigned_ucast_eq take_bit_nat_eq_self)
  then have l: "unat (section_length_at ?s 0) = 12 + 4 * unat (program_count pat)"
    using section_length_b0 [OF fields(2)] by simp
  then show "unat (section_length_at ?s 0) = length (table_section (pat_body pat))"
    by (simp add: length_pat_body [OF inv])
  have "take (unat (section_length_at ?s 0) - 4) ?s = pat_body pat"
    unfolding l using length_pat_body [OF inv] by (simp add: table_section_def)
  then have "drop 8 (take (unat (section_length_at ?s 0) - 4) ?s) = concat (map program_bytes (listed_programs pat))"
    by (simp add: pat_body_def)
  then show "decode_pat ?s = (0, ucast (transport_stream_id pat), 0,
      pat_version_number pat AND 0x1f = 0 \<or> pat_current_next_indicator pat = 1,
      map (\<lambda>g. (ucast (pmt_program_number (program_pmt g)), ucast (program_map_PID g) AND 0x1fff)) (listed_programs pat))"
    unfolding decode_pat_def fields
    by (simp only: decode_programs_bytes be16_halves version_byte_fields [OF cni])
qed

lemma decode_pmt_section:
  assumes inv: "pmt_inv e" and n: "length (pmt_body e) + 4 \<le> 183" and cni: "pmt_current_next_indicator e < 2"
  shows "decode_pmt (table_section (pmt_body e) @ rest) =
    (2, ucast (pmt_program_number e), 0, pmt_version_number e AND 0x1f = 0 \<or> pmt_current_next_indicator e = 1,
     ucast (PCR_PID e) AND 0x1fff, descriptors (pmt_descr_list e), map es_coded (listed_streams e))"
    and "unat (section_length_at (table_section (pmt_body e) @ rest) 0) = length (table_section (pmt_body e))"
proof -
  let ?s = "table_section (pmt_body e) @ rest"
  define outer where "outer = descrs_bytes (pmt_descr_list e)"
  define inner where "inner = concat (map es_bytes (listed_streams e))"
  have lb: "length (pmt_body e) = 12 + length outer + length inner"
    by (simp add: pmt_body_def Let_def outer_def inner_def)
  have fields: "?s ! 0 = 2" "?s ! 1 = 0xb0" "?s ! 2 = of_nat (13 + length outer + length inner)"
    "?s ! 3 = ucast (drop_bit 8 (pmt_program_number e))" "?s ! 4 = ucast (pmt_program_number e)"
    "?s ! 5 = version_byte (pmt_version_number e) (pmt_current_next_indicator e)"
    "?s ! 8 = ucast (0xe0 OR drop_bit 8 (PCR_PID e AND 0x1fff))" "?s ! 9 = ucast (PCR_PID e)"
    "?s ! 10 = ucast (0xf0 OR drop_bit 8 ((of_nat (length outer) :: u32) AND 0xfff))" "?s ! 11 = of_nat (length outer)"
    by (simp_all add: table_section_def pmt_body_def Let_def flip: outer_def inner_def)
  have small: "length outer < 256" "length inner < 256" "13 + length outer + length inner < 256" using n lb by simp_all
  have "unat (?s ! 2) = 13 + length outer + length inner"
    unfolding fields(3) unsigned_of_nat using small by (simp add: take_bit_nat_eq_self)
  then have l: "unat (section_length_at ?s 0) = length (pmt_body e) + 4"
    using section_length_b0 [OF fields(2)] lb by simp
  then show "unat (section_length_at ?s 0) = length (table_section (pmt_body e))" by simp
  have "take (unat (section_length_at ?s 0) - 4) ?s = pmt_body e" unfolding l by (simp add: table_section_def)
  then have body: "drop 12 (take (unat (section_length_at ?s 0) - 4) ?s) = outer @ inner"
    by (simp add: pmt_body_def Let_def flip: outer_def inner_def)
  have pcr: "be16 (?s ! 8) (?s ! 9) AND 0x1fff = ucast (PCR_PID e) AND 0x1fff"
    unfolding fields by (rule be16_pid) (simp_all only: pid_high_bits)
  have info: "unat (be16 (?s ! 10) (?s ! 11) AND 0xfff) = length outer" unfolding fields by (rule be16_length [OF small(1)])
  have "list_all (\<lambda>s. descr_inv (es_descr_list s)) (listed_streams e)"
    using inv by (auto simp: pmt_inv_def listed_streams_def list_all_iff dest: in_set_takeD)
  then have ss: "decode_streams inner = map es_coded (listed_streams e)"
    using decode_streams_bytes small(2) by (simp add: inner_def)
  have ds: "decode_descrs outer = descriptors (pmt_descr_list e)"
    using inv by (simp add: outer_def decode_descrs_list pmt_inv_def)
  show "decode_pmt ?s =
    (2, ucast (pmt_program_number e), 0, pmt_version_number e AND 0x1f = 0 \<or> pmt_current_next_indicator e = 1,
     ucast (PCR_PID e) AND 0x1fff, descriptors (pmt_descr_list e), map es_coded (listed_streams e))"
    unfolding decode_pmt_def Let_def body pcr info
    by (simp only: fields(1,4-6) be16_halves version_byte_fields [OF cni]) (simp add: ss ds)
qed

subsection \<open>The packets through the extractor\<close>

text \<open>An extractor that waits for a section of one table on one PID, with its buffer.\<close>

definition idle_extractor :: "u16 \<Rightarrow> u8 \<Rightarrow> sectionextractor_ctx_s \<Rightarrow> bool" where
  "idle_extractor pid tid ctx \<longleftrightarrow> PID ctx = pid \<and> tableID ctx = tid \<and> \<not> appending ctx \<and> \<not> complete ctx
     \<and> (case section_buf ctx of None \<Rightarrow> False | Some sec \<Rightarrow> length sec = 4096)"

definition delivers :: "sectionextractor_ctx_s \<Rightarrow> bytes \<Rightarrow> bytes \<Rightarrow> bytes \<Rightarrow> bool" where
  "delivers ctx p d d' \<longleftrightarrow> (\<exists>ctx' ctx'' n. ltntstools_sectionextractor_write ctx p 1 False = Some (ctx', n, True, True)
     \<and> ltntstools_sectionextractor_query ctx' (Some d) (int (length d)) = Some (ctx'', Some d', n + 3))"

lemma crc_ok_section: "crc_ok (table_section body)"
  by (simp add: crc_ok_def table_section_def crc32_loop_append crc32_loop_own_crc length_be32)

lemma table_packet_delivered:
  assumes p: "p = filled ([0x47, h1, h2, 0x10 OR (cc AND 0x0f), 0x00] @ table_section body)"
    and pid: "ltntstools_pid p = pid" and pusi: "ltntstools_payload_unit_start_indicator p"
    and ext: "idle_extractor pid tid ctx" and tid: "table_section body ! 0 = tid"
    and len: "\<And>rest. unat (section_length_at (table_section body @ rest) 0) = length (table_section body)"
    and l: "3 \<le> length body" "length body + 4 \<le> 183" and d: "length body + 7 \<le> length d" "length d < 2 ^ 31"
  shows "\<exists>rest. delivers ctx p d (table_section body @ rest)"
proof -
  let ?s = "table_section body"
  have lp: "length p = 188" using l p by simp
  have drop5: "drop 5 p = ?s @ replicate (188 - (5 + length ?s)) 0xff" using p by (simp add: filled_def)
  have nth: "p ! (5 + k) = ?s ! k" if "k < 4" for k
    using that l by (simp add: p filled_def nth_append)
  have "\<not> ltntstools_has_adaption p"
    by (simp add: p filled_def pkt_defs cc_of_flags)
  then have start: "start_packet (PID ctx) p"
    using lp pid pusi ext p by (simp add: start_packet_def idle_extractor_def filled_def)
  obtain sec where sec: "section_buf ctx = Some sec" "length sec = 4096"
    using ext by (auto simp: idle_extractor_def split: option.splits)
  have idle: "\<not> appending ctx" "\<not> complete ctx" "p ! 5 = tableID ctx"
    using ext tid nth [of 0] by (simp_all add: idle_extractor_def)
  have sl: "unat (section_length_at p 5) = length ?s"
    using len [of "[]"] nth [of 1] nth [of 2] by (simp add: section_length_at_def numeral_2_eq_2)
  have t: "take (length ?s) (assembled p []) = ?s" using l drop5 by (simp add: assembled_def)
  have "length ?s \<le> 4096" "183 * length [] < length ?s" "length ?s \<le> 183 * (length [] + 1)" using l by simp_all
  from write_assembles [OF start idle(3) _ idle(1,2) sec sl this(1), of "[]" False] this(2,3)
  obtain ctx' where w: "ltntstools_sectionextractor_write ctx p 1 False = Some (ctx', int (length ?s), True, crc_ok ?s)"
    and c: "section_buf ctx' = Some (?s @ drop (length ?s) sec)" "complete ctx'" "unat (sectionLength ctx') = length ?s"
    by (auto simp: t simp del: length_table_section)
  have "length (?s @ drop (length ?s) sec) = 4096" using l sec by simp
  from query_complete [OF c(2,1) this, of d, unfolded c(3)] l d
  obtain ctx'' rest where "ltntstools_sectionextractor_query ctx' (Some d) (int (length d))
      = Some (ctx'', Some (?s @ rest), int (length ?s) + 3)"
    by auto
  with w show ?thesis by (auto simp: delivers_def crc_ok_section)
qed

lemma pat_packet_delivered:
  assumes inv: "pat_inv pat" and n: "unat (program_count pat) \<le> 42" and cni: "pat_current_next_indicator pat < 2"
    and len: "length packet = 188" and ext: "idle_extractor 0 0 ctx" and d: "186 \<le> length d" "length d < 2 ^ 31"
  shows "\<exists>p d'. ltntstools_pat_create_packet_ts (Some pat) cc (Some packet) 188 = Some (Some p, 0)
    \<and> length p = 188 \<and> delivers ctx p d d'
    \<and> decode_pat d' = (0, ucast (transport_stream_id pat), 0,
        pat_version_number pat AND 0x1f = 0 \<or> pat_current_next_indicator pat = 1,
        map (\<lambda>g. (ucast (pmt_program_number (program_pmt g)), ucast (program_map_PID g) AND 0x1fff)) (listed_programs pat))"
proof -
  define p where "p = filled ([0x47, 0x40, 0x00, 0x10 OR (cc AND 0x0f), 0x00] @ table_section (pat_body pat))"
  note lb = length_pat_body [OF inv]
  have "ltntstools_pid p = 0" "ltntstools_payload_unit_start_indicator p"
    by (simp_all add: p_def filled_def pkt_defs)
  moreover have "table_section (pat_body pat) ! 0 = 0" by (simp add: table_section_def pat_body_def)
  ultimately obtain rest where "delivers ctx p d (table_section (pat_body pat) @ rest)"
    using table_packet_delivered [OF p_def _ _ ext _ decode_pat_section(2) [OF inv n cni], of d] n lb d by auto
  moreover have "ltntstools_pat_create_packet_ts (Some pat) cc (Some packet) 188 = Some (Some p, 0)" "length p = 188"
    using pat_create_packet_eq [OF inv len] n lb by (simp_all add: p_def)
  ultimately show ?thesis using decode_pat_section(1) [OF inv n cni] by blast
qed

lemma bit_40: "k < 5 \<Longrightarrow> \<not> bit (0x40 :: int) k" "k < 5 \<Longrightarrow> \<not> bit (0x40 :: nat) k" "k < 5 \<Longrightarrow> \<not> bit (0x40 :: u16) k"
  using low_bits_clear [of k 5 "2 :: int"] low_bits_clear [of k 5 "2 :: nat"] low_bits_clear [of k 5 "2 :: u16"]
  by (simp_all add: push_bit_eq_mult)

lemma pmt_packet_pid:
  fixes pid :: u16
  shows "ltntstools_pid (0x47 # ucast (0x40 OR drop_bit 8 (pid AND 0x1fff)) # ucast (pid AND 0xff) # rest) = pid AND 0x1fff"
    and "ltntstools_payload_unit_start_indicator
      (0x47 # ucast (0x40 OR drop_bit 8 (pid AND 0x1fff)) # ucast (pid AND 0xff) # rest)"
proof -
  have m: "(0x1fff :: u16) = mask 13" "(0x1f :: u8) = mask 5" "(0xff :: u16) = mask 8"
    by (simp_all add: mask_eq_exp_minus_1)
  have "ucast (0x40 OR drop_bit 8 (pid AND 0x1fff)) AND 0x1f = (ucast (drop_bit 8 (pid AND 0x1fff)) :: u8)"
    by (rule bit_word_eqI) (auto simp: m bit_simps bit_40)
  moreover have "ucast (pid AND 0xff) = (ucast pid :: u8)" by (rule bit_word_eqI) (auto simp: m bit_simps)
  ultimately show "ltntstools_pid (0x47 # ucast (0x40 OR drop_bit 8 (pid AND 0x1fff)) # ucast (pid AND 0xff) # rest)
      = pid AND 0x1fff"
    by (intro pid_of_bytes) simp_all
  define h where "h = (ucast (0x40 OR drop_bit 8 (pid AND 0x1fff)) :: u8)"
  have "bit (h AND 0x40) 6" by (simp add: h_def bit_simps)
  then have "h AND 0x40 \<noteq> 0" by (metis bit_0_eq bot_apply bot_bool_def)
  then show "ltntstools_payload_unit_start_indicator
      (0x47 # ucast (0x40 OR drop_bit 8 (pid AND 0x1fff)) # ucast (pid AND 0xff) # rest)"
    by (simp add: pkt_defs h_def)
qed

lemma pmt_packet_delivered:
  assumes inv: "pmt_inv e" and n: "length (pmt_body e) \<le> 179" and cni: "pmt_current_next_indicator e < 2"
    and len: "length packet = 188" and ext: "idle_extractor (pid AND 0x1fff) 2 ctx" and d: "186 \<le> length d" "length d < 2 ^ 31"
  shows "\<exists>p d'. ltntstools_pmt_create_packet_ts (Some e) pid cc (Some packet) 188 = Some (Some p, 0)
    \<and> length p = 188 \<and> delivers ctx p d d'
    \<and> decode_pmt d' = (2, ucast (pmt_program_number e), 0,
        pmt_version_number e AND 0x1f = 0 \<or> pmt_current_next_indicator e = 1,
        ucast (PCR_PID e) AND 0x1fff, descriptors (pmt_descr_list e), map es_coded (listed_streams e))"
proof -
  define p where "p = filled ([0x47, ucast (0x40 OR drop_bit 8 (pid AND 0x1fff)), ucast (pid AND 0xff),
      0x10 OR (cc AND 0x0f), 0x00] @ table_section (pmt_body e))"
  have n4: "length (pmt_body e) + 4 \<le> 183" using n by simp
  have "ltntstools_pid p = pid AND 0x1fff" "ltntstools_payload_unit_start_indicator p"
    unfolding p_def filled_def append.simps by (rule pmt_packet_pid)+
  moreover have "table_section (pmt_body e) ! 0 = 2" "3 \<le> length (pmt_body e)"
    by (simp_all add: table_section_def pmt_body_def Let_def)
  ultimately obtain rest where "delivers ctx p d (table_section (pmt_body e) @ rest)"
    using table_packet_delivered [OF p_def _ _ ext _ decode_pmt_section(2) [OF inv n4 cni], of d] n4 d by auto
  moreover have "ltntstools_pmt_create_packet_ts (Some e) pid cc (Some packet) 188 = Some (Some p, 0)" "length p = 188"
    using pmt_create_packet_eq [OF inv len] n4 by (simp_all add: p_def)
  ultimately show ?thesis using decode_pmt_section(1) [OF inv n4 cni] by blast
qed

definition sample_pat_extractor :: "u16 \<Rightarrow> u8 \<Rightarrow> sectionextractor_ctx_s" where
  "sample_pat_extractor pid tid = \<lparr>tableID = tid, PID = pid, complete = False, appending = False,
     section_buf = Some (replicate 4096 0), sectionLength = 0, sectionLengthCurrent = 0\<rparr>"

lemma sample_idle: "idle_extractor pid tid (sample_pat_extractor pid tid)"
  by (simp add: idle_extractor_def sample_pat_extractor_def)

text \<open>
  C10: A PMT written as a packet and read back. For a table whose descriptors and streams take at most
  167 bytes, the packet that \<open>ltntstools_pmt_create_packet_ts\<close> writes on a PID is taken by a
  section extractor for that PID and table 2 as one complete section with a valid checksum, and
  a standard decoder finds in it the program number, the PCR PID, the descriptors of the
  program and every stream with its type, its PID and its descriptors, all in order. The
  version is not carried.
\<close>

theorem pmt_packet_roundtrip:
  assumes "pmt_inv e"
    and "length (descrs_bytes (pmt_descr_list e)) + length (concat (map es_bytes (listed_streams e))) \<le> 167"
    and "pmt_current_next_indicator e < 2"
    and "length packet = 188" and "idle_extractor (pid AND 0x1fff) 2 ctx" and "186 \<le> length d" "length d < 2 ^ 31"
  shows "\<exists>p d'. ltntstools_pmt_create_packet_ts (Some e) pid cc (Some packet) 188 = Some (Some p, 0)
    \<and> length p = 188 \<and> delivers ctx p d d'
    \<and> decode_pmt d' = (2, ucast (pmt_program_number e), 0,
        pmt_version_number e AND 0x1f = 0 \<or> pmt_current_next_indicator e = 1,
        ucast (PCR_PID e) AND 0x1fff, descriptors (pmt_descr_list e), map es_coded (listed_streams e))"
proof -
  have "length (pmt_body e) \<le> 179" using assms(2) by (simp add: pmt_body_def Let_def)
  from pmt_packet_delivered [OF assms(1) this assms(3-7)] show ?thesis .
qed

theorem pmt_packet_roundtrip_witness:
  "\<exists>p d'. ltntstools_pmt_create_packet_ts (Some (zero_pmt\<lparr>pmt_program_number := 7, PCR_PID := 0x41\<rparr>)) 0x30 0
      (Some (replicate 188 0)) 188 = Some (Some p, 0)
    \<and> delivers (sample_pat_extractor 0x30 2) p (replicate 200 0) d' \<and> decode_pmt d' = (2, 7, 0, True, 0x41, [], [])"
proof -
  let ?e = "zero_pmt\<lparr>pmt_program_number := 7, PCR_PID := 0x41\<rparr>"
  have "pmt_inv ?e" using zero_inv(2) by (simp add: pmt_inv_def)
  moreover have "pmt_descr_list zero_pmt = zero_descr_list" "listed_streams ?e = []"
    "pmt_current_next_indicator zero_pmt = 0" "pmt_version_number zero_pmt = 0"
    by (simp_all add: listed_streams_def zero_pmt_def)
  ultimately show ?thesis
    using pmt_packet_roundtrip [of ?e "replicate 188 0" "0x30" "sample_pat_extractor 0x30 2" "replicate 200 0" 0]
      sample_idle [of "0x30" 2] by (simp add: descrs_bytes_def) blast
qed

text \<open>
  C36: What does not fit a packet is written all the same. With a buffer of exactly one packet,
  writing a PAT of more than 42 programs, or a PMT whose descriptors and streams take more
  than 167 bytes, writes past the end of the buffer.
\<close>

theorem table_packets_overrun:
  assumes "length packet = 188" and "pat_inv pat" and "pmt_inv e"
  shows "(ltntstools_pat_create_packet_ts (Some pat) cc (Some packet) 188 = None
      \<longleftrightarrow> 42 < unat (program_count pat))
    \<and> (ltntstools_pmt_create_packet_ts (Some e) pid cc (Some packet) 188 = None
      \<longleftrightarrow> 167 < length (descrs_bytes (pmt_descr_list e)) + length (concat (map es_bytes (listed_streams e))))"
proof -
  have "length (pmt_body e) = 12 + length (descrs_bytes (pmt_descr_list e)) + length (concat (map es_bytes (listed_streams e)))"
    by (simp add: pmt_body_def Let_def)
  then show ?thesis
    using pat_create_packet_eq [OF assms(2,1), of cc] pmt_create_packet_eq [OF assms(3,1), of pid cc] by auto
qed

theorem table_packets_overrun_witness:
  "ltntstools_pat_create_packet_ts (Some (zero_pat\<lparr>program_count := 64\<rparr>)) 0 (Some (replicate 188 0)) 188 = None"
proof -
  have "pat_inv (zero_pat\<lparr>program_count := 64\<rparr>)" using zero_inv(4) by (simp add: pat_inv_def)
  from table_packets_overrun [of "replicate 188 0", OF _ this zero_inv(2)] show ?thesis by simp
qed

text \<open>When every program has its PMT, the PMTs carry the numbers of their programs.\<close>

lemma ucast_up_down: "(ucast (ucast (a :: u16) :: u32) :: u16) = a"
  by (rule bit_word_eqI) (auto simp: bit_simps)

lemma loaded_pmt_numbers:
  assumes l: "loaded dp ds pat" and full: "i_program_number ` set ds = fst ` set (p_first_program dp)"
    and g: "g \<in> set (listed_programs pat)"
  shows "pmt_program_number (program_pmt g) = program_number g"
proof -
  have "program_number g \<in> (\<lambda>e. ucast (fst e)) ` set (p_first_program dp)"
    using loaded_numbers [OF l] g by (metis imageI list.set_map)
  then obtain n where "n \<in> fst ` set (p_first_program dp)" "program_number g = ucast n" by auto
  then obtain d where "d \<in> set ds" "program_number g = ucast (i_program_number d)" using full by (metis imageE)
  then obtain d' where d': "program_of ds g = Some d'"
    by (cases "program_of ds g") (auto simp: program_of_def find_None_iff)
  then have "ucast (i_program_number d') = program_number g" by (auto simp: program_of_def find_Some_iff)
  moreover have "describes (program_pmt g) d'" using l g d' by (auto simp: loaded_def list_all_iff split: option.splits)
  ultimately show ?thesis by (simp add: describes_def pmt_says_def)
qed

text \<open>
  C5: From parsed tables to a packet and back. When \<open>libdvbpsi\<close> has parsed a PAT of at most 42
  programs with distinct numbers and a PMT for each of them, the PAT built from them and
  written as a packet is read back by the section extractor with the transport stream id
  and exactly the programs that were parsed, in their order. The version is not carried: the
  decoder always finds version 0.
\<close>

theorem parsed_pat_repacketized:
  assumes "alloc pat_size" and "length (p_first_program dp) \<le> 42" and "distinct (map fst (p_first_program dp))"
    and "list_all dvbpsi_pmt_fits ds" "i_program_number ` set ds = fst ` set (p_first_program dp)"
    and "distinct (map i_program_number ds)"
    and "length packet = 188" and "idle_extractor 0 0 ctx" and "186 \<le> length d" "length d < 2 ^ 31"
  shows "\<exists>p0 pat p d' cni. ltntstools_pat_alloc_from_existing alloc (Some dp) = Some (Some p0)
    \<and> pat_load (Some p0) ds = Some (Some pat)
    \<and> ltntstools_pat_create_packet_ts (Some pat) cc (Some packet) 188 = Some (Some p, 0)
    \<and> delivers ctx p d d'
    \<and> decode_pat d' = (0, i_ts_id dp, 0, cni, map (\<lambda>(n, pid). (n, pid AND 0x1fff)) (p_first_program dp))"
proof -
  obtain p0 where p0: "ltntstools_pat_alloc_from_existing alloc (Some dp) = Some (Some p0)" "loaded dp [] p0"
    using pat_alloc_from_existing_ok [of alloc dp] assms(1,2) by auto
  from load_all [OF p0(2) assms(3,4)] assms(5,6) obtain pat where
    pat: "pat_load (Some p0) ds = Some (Some pat)" "loaded dp ds pat" by auto
  have inv: "pat_inv pat" using pat(2) by (simp add: loaded_def)
  have keys: "map program_key (listed_programs pat) = map (\<lambda>e. (ucast (fst e), ucast (snd e))) (p_first_program dp)"
    using pat(2) by (simp add: loaded_def)
  have "length (listed_programs pat) = length (p_first_program dp)" using arg_cong [OF keys, of length] by simp
  then have n: "unat (program_count pat) \<le> 42"
    using assms(2) inv by (simp add: listed_programs_def pat_inv_def)
  have cni: "pat_current_next_indicator pat < 2" using pat(2) by (simp add: loaded_def)
  have tsid: "ucast (transport_stream_id pat) = i_ts_id dp" using pat(2) by (simp add: loaded_def ucast_up_down)
  have "map (\<lambda>g. (ucast (pmt_program_number (program_pmt g)), ucast (program_map_PID g) AND 0x1fff)) (listed_programs pat)
      = map (\<lambda>k. (ucast (fst k), ucast (snd k) AND 0x1fff)) (map program_key (listed_programs pat))"
    using loaded_pmt_numbers [OF pat(2)] assms(5) by (simp add: program_key_def)
  also have "\<dots> = map (\<lambda>(n, pid). (n, pid AND 0x1fff)) (p_first_program dp)"
    unfolding keys by (simp add: ucast_up_down split_beta)
  finally show ?thesis
    using pat_packet_delivered [OF inv n cni assms(7-10), of cc] p0(1) pat(1) unfolding tsid by fastforce
qed

theorem parsed_pat_repacketized_witness:
  "\<exists>p0 pat p d' cni. ltntstools_pat_alloc_from_existing (\<lambda>n. True) (Some sample_dvbpsi_pat) = Some (Some p0)
    \<and> pat_load (Some p0) [sample_dvbpsi_pmt, sample_dvbpsi_pmt\<lparr>i_program_number := 1\<rparr>] = Some (Some pat)
    \<and> ltntstools_pat_create_packet_ts (Some pat) 0 (Some (replicate 188 0)) 188 = Some (Some p, 0)
    \<and> delivers (sample_pat_extractor 0 0) p (replicate 200 0) d'
    \<and> decode_pat d' = (0, 1, 0, cni, [(1, 0x30), (2, 0x31)])"
proof -
  have "list_all dvbpsi_pmt_fits [sample_dvbpsi_pmt, sample_dvbpsi_pmt\<lparr>i_program_number := 1\<rparr>]"
    by (simp add: sample_dvbpsi_pmt_def dvbpsi_pmt_fits_def descr_fits_def)
  from parsed_pat_repacketized [of "\<lambda>n. True" sample_dvbpsi_pat, OF _ _ _ this, of "replicate 188 0"
      "sample_pat_extractor 0 0" "replicate 200 0" 0] sample_idle
  show ?thesis by (simp add: sample_dvbpsi_pat_def sample_dvbpsi_pmt_def insert_commute)
qed

subsection \<open>The packets of libdvbpsi's sections\<close>

text \<open>
  \<open>writePSI\<close> advances the continuity counter after each packet by overwriting the byte that
  holds it, so that the packet it leaves behind announces neither a payload nor an adaptation
  field, whatever sections \<open>libdvbpsi\<close> generates.
\<close>

lemma psi_set_Some: "psi_set p i f = Some q \<longleftrightarrow> i < length p \<and> q = p[i := f (p ! i)]"
  by (auto simp: psi_set_def rd_Some bind_eq_Some_conv)

lemma psi_fill_length: "psi_fill p pos bs = Some q \<Longrightarrow> length q = length p"
  by (auto simp: psi_fill_def wr_def split: if_splits)

lemma low_nibble: "((b + 1) AND 0x0f) AND 0xf0 = (0 :: u8)"
  by (simp add: and.assoc)

lemma writePSI_rest_flag:
  assumes "writePSI_rest p bs = Some q" and "3 < length p" "p ! 3 AND 0xf0 = 0"
  shows "3 < length q \<and> q ! 3 AND 0xf0 = 0"
  using assms
proof (induction p bs rule: writePSI_rest.induct)
  case (1 p bs)
  show ?case
  proof (cases "bs = []")
    case False
    from "1.prems"(1) False obtain p1 p2 p3 p4 where steps:
        "psi_set p 1 (\<lambda>b. b AND 0xbf) = Some p1" "psi_set p1 3 (\<lambda>b. (b AND 0x0f) OR 0x10) = Some p2"
        "psi_fill p2 4 bs = Some p3" "psi_set p3 3 (\<lambda>b. (b + 1) AND 0x0f) = Some p4"
        "writePSI_rest p4 (drop 184 bs) = Some q"
      by (subst (asm) writePSI_rest.simps) (auto simp: bind_eq_Some_conv)
    then have "3 < length p4" "p4 ! 3 AND 0xf0 = 0" by (auto simp: psi_set_Some low_nibble)
    then show ?thesis using "1.IH" [OF False steps(1-4)] steps(5) by blast
  qed (use 1 in simp)
qed

lemma writePSI_section_flag:
  assumes "writePSI_section p sec = Some q"
  shows "3 < length q \<and> q ! 3 AND 0xf0 = 0"
proof -
  from assms obtain bs p3 p4 where
      "psi_set p3 3 (\<lambda>b. (b + 1) AND 0x0f) = Some p4" "writePSI_rest p4 (drop 183 bs) = Some q"
    by (auto simp: writePSI_section_def bind_eq_Some_conv simp del: writePSI_rest.simps)
  then show ?thesis using writePSI_rest_flag by (auto simp: psi_set_Some low_nibble simp del: writePSI_rest.simps)
qed

lemma writePSI_no_payload_flag:
  assumes "writePSI packet secs = Some q" and "secs \<noteq> []"
  shows "q ! 3 AND 0xf0 = 0"
proof -
  have "writePSI_sections p secs = Some q \<Longrightarrow> secs \<noteq> [] \<Longrightarrow> q ! 3 AND 0xf0 = 0" for p
  proof (induction secs arbitrary: p)
    case (Cons sec secs)
    then show ?case using writePSI_section_flag by (cases "secs = []") (auto simp: bind_eq_Some_conv)
  qed simp
  then show ?thesis using assms by (auto simp: writePSI_def bind_eq_Some_conv)
qed

lemma pmt_create_packet_ts2_no_payload:
  assumes "ltntstools_pmt_create_packet_ts2 api (Some e) pid cc (Some packet) 188 = Some (Some q, 0)"
    and "\<And>p. dvbpsi_pmt_sections_generate api p \<noteq> []"
  shows "q ! 3 AND 0xf0 = 0"
  using assms writePSI_no_payload_flag
  by (auto simp: ltntstools_pmt_create_packet_ts2_def bind_eq_Some_conv)

end
