(* ===== verification/NalUnits.thy ===== *)
theory NalUnits
  imports Ts NalBitReader
begin

text \<open>
  Start code search and H.264 NAL units: \<open>src/src/memmem.h\<close>, \<open>src/src/nal_h264.c\<close>,
  \<open>src/src/libltntstools/nals.h\<close> and \<open>nal_h264.h\<close>.

  A pointer into the caller's buffer is its offset; \<open>lengthBytes\<close> is what the caller says of the buffer,
  which may be longer. The names of the tables are strings, \<open>NULL\<close> is \<open>None\<close>, and an index
  past a table is undefined behaviour. The reader of slice headers gets the four bytes it is
  initialised with as the rest of the buffer, so that a read past the buffer is undefined exactly where it
  happens.
\<close>

unbundle bit_operations_syntax

subsection \<open>Substring search\<close>

text \<open>
  The search of \<open>memmem.h\<close> for a needle \<open>x\<close> of at least two bytes: it compares the second byte
  first, and steps over two positions when that alone excludes the next one.
\<close>

function memmem_loop :: "bytes \<Rightarrow> bytes \<Rightarrow> nat \<Rightarrow> nat option" where
  "memmem_loop y x j =
     (if j \<le> length y - length x then
        if x ! 1 \<noteq> y ! (j + 1) then memmem_loop y x (j + (if x ! 0 = x ! 1 then 2 else 1))
        else if drop 2 x = take (length x - 2) (drop (j + 2) y) \<and> x ! 0 = y ! j then Some j
        else memmem_loop y x (j + (if x ! 0 = x ! 1 then 1 else 2))
      else None)"
  by pat_completeness auto
termination
  by (relation "measure (\<lambda>(y, x, j). Suc (length y) - j)") auto

declare memmem_loop.simps [simp del]

definition ltn_memmem :: "bytes \<Rightarrow> bytes \<Rightarrow> nat option" where
  "ltn_memmem y x =
     (if length x > length y \<or> length x = 0 \<or> length y = 0 then None
      else if length x > 1 then memmem_loop y x 0
      else find (\<lambda>j. y ! j = x ! 0) [0 ..< length y])"

text \<open>Where \<open>x\<close> occurs in \<open>y\<close>.\<close>

definition occurs :: "bytes \<Rightarrow> bytes \<Rightarrow> nat \<Rightarrow> bool" where
  "occurs x y j \<longleftrightarrow> j + length x \<le> length y \<and> take (length x) (drop j y) = x"

lemma occurs_nth: "occurs x y j \<Longrightarrow> i < length x \<Longrightarrow> y ! (j + i) = x ! i"
proof -
  assume "occurs x y j" "i < length x"
  then have "x ! i = take (length x) (drop j y) ! i" "j + length x \<le> length y" by (simp_all add: occurs_def)
  with \<open>i < length x\<close> show ?thesis by simp
qed

lemma occurs_split:
  assumes "2 \<le> length x" "j + length x \<le> length y"
  shows "occurs x y j \<longleftrightarrow> x ! 0 = y ! j \<and> x ! 1 = y ! (j + 1) \<and> drop 2 x = take (length x - 2) (drop (j + 2) y)"
proof -
  obtain a b xs where x: "x = a # b # xs" using assms(1) by (cases x; cases "tl x") auto
  have "drop j y = y ! j # y ! (j + 1) # drop (j + 2) y"
    using assms x by (simp add: Cons_nth_drop_Suc)
  then show ?thesis using assms by (auto simp: occurs_def x)
qed

lemma find_upt_skip:
  assumes "\<not> Q j" "n = 2 \<Longrightarrow> \<not> Q (j + 1)" "n \<in> {1, 2}"
  shows "find Q [j ..< m] = find Q [j + n ..< m]"
proof -
  have s: "find Q [i ..< m] = find Q [Suc i ..< m]" if "\<not> Q i" for i
    using that by (cases "i < m") (simp_all add: upt_conv_Cons)
  show ?thesis using assms s [of j] s [of "Suc j"] by (auto simp: numeral_2_eq_2)
qed

lemma memmem_loop_find:
  assumes "2 \<le> length x" "length x \<le> length y"
  shows "memmem_loop y x j = find (occurs x y) [j ..< Suc (length y - length x)]"
  using assms
proof (induction y x j rule: memmem_loop.induct)
  case (1 y x j)
  let ?e = "Suc (length y - length x)"
  show ?case
  proof (cases "j \<le> length y - length x")
    case False
    then show ?thesis by (subst memmem_loop.simps) simp
  next
    case True
    then have room: "j + length x \<le> length y" using "1.prems" by simp
    have "x \<noteq> []" using "1.prems"(1) by auto
    then have x: "occurs x y (Suc j) \<Longrightarrow> y ! (j + 1) = x ! 0" "occurs x y j \<Longrightarrow> y ! (j + 1) = x ! 1"
      using occurs_nth [of x y "Suc j" 0] occurs_nth [of x y j 1] "1.prems"(1) by simp_all
    consider (second) "x ! 1 \<noteq> y ! (j + 1)"
      | (found) "x ! 1 = y ! (j + 1)" "drop 2 x = take (length x - 2) (drop (j + 2) y) \<and> x ! 0 = y ! j"
      | (other) "x ! 1 = y ! (j + 1)" "\<not> (drop 2 x = take (length x - 2) (drop (j + 2) y) \<and> x ! 0 = y ! j)"
      by blast
    then show ?thesis
    proof cases
      case second
      then have "find (occurs x y) [j ..< ?e] = find (occurs x y) [j + (if x ! 0 = x ! 1 then 2 else 1) ..< ?e]"
        using x by (intro find_upt_skip) auto
      then show ?thesis using "1.IH"(1) [OF True second "1.prems"] True second by (subst memmem_loop.simps) simp
    next
      case found
      then have "occurs x y j" using occurs_split [OF "1.prems"(1) room] by simp
      then have "find (occurs x y) [j ..< ?e] = Some j" using True by (simp add: upt_conv_Cons del: upt_Suc)
      then show ?thesis using True found by (subst memmem_loop.simps) simp
    next
      case other
      then have "find (occurs x y) [j ..< ?e] = find (occurs x y) [j + (if x ! 0 = x ! 1 then 1 else 2) ..< ?e]"
        using x occurs_split [OF "1.prems"(1) room] by (intro find_upt_skip) auto
      moreover have "memmem_loop y x j = memmem_loop y x (j + (if x ! 0 = x ! 1 then 1 else 2))"
        unfolding memmem_loop.simps [of y x j] using True other by (simp only: if_True if_False simp_thms)
      ultimately show ?thesis using "1.IH"(2) [OF True _ other(2) "1.prems"] other(1) by (simp only: simp_thms)
    qed
  qed
qed

text \<open>
  The substring search finds the first occurrence. For every needle and every buffer,
  \<open>ltn_memmem\<close> returns the least position at which the needle occurs, and nothing exactly when
  the needle is empty or occurs nowhere.
\<close>

lemma ltn_memmem_first:
  "ltn_memmem y x = (if x = [] then None else find (occurs x y) [0 ..< Suc (length y) - length x])"
proof -
  consider "length x = 0" | "0 < length x" "length y < length x" | "length x = 1" "1 \<le> length y"
    | "2 \<le> length x" "length x \<le> length y" by linarith
  then show ?thesis
  proof cases
    case 3
    then obtain a where x: "x = [a]" by (cases x) auto
    have "occurs x y j \<longleftrightarrow> y ! j = x ! 0" if "j < length y" for j
      using that by (auto simp: occurs_def x take_Suc_conv_app_nth [of 0, simplified] hd_drop_conv_nth take_Suc)
    then have "find (occurs x y) [0 ..< length y] = find (\<lambda>j. y ! j = x ! 0) [0 ..< length y]"
      by (intro find_cong) simp_all
    then show ?thesis using 3 x by (auto simp: ltn_memmem_def)
  next
    case 4
    then show ?thesis using memmem_loop_find [of x y 0] by (auto simp: ltn_memmem_def Suc_diff_le)
  qed (auto simp: ltn_memmem_def)
qed

subsection \<open>Units and names\<close>

record nal_headers_s =
  nal_ptr :: nat
  nal_lengthBytes :: u32
  nalType :: u8
  nalName :: "string option"

record sei_headers_s =
  sei_ptr :: nat
  sei_lengthBytes :: u32
  seiType :: u8
  seiName :: "string option"

text \<open>The table of unit names, by type; the two types in the gap have no name.\<close>

definition h264Nals :: "(string \<times> string) option list" where
  "h264Nals =
     [Some (''UNSPECIFIED'', ''AUTO''),
      Some (''slice_layer_without_partitioning_rbsp non-IDR'', ''P''),
      Some (''slice_data_partition_a_layer_rbsp('', ''P''),
      Some (''slice_data_partition_b_layer_rbsp('', ''P''),
      Some (''slice_data_partition_c_layer_rbsp('', ''P''),
      Some (''slice_layer_without_partitioning_rbsp IDR'', ''IDR''),
      Some (''SEI'', []), Some (''SPS'', []), Some (''PPS'', []), Some (''AUD'', []),
      Some (''EO SEQ'', []), Some (''EO STREAM'', []), Some (''FILLER'', []), Some (''SPS-EX'', []),
      Some (''PNU'', []), Some (''SSPS'', []), Some (''DPS'', []), None, None,
      Some (''ACP'', []), Some (''CSE'', []), Some (''CSEDV'', [])]"

definition h264Nals_lookupName :: "int \<Rightarrow> string option mem" where
  "h264Nals_lookupName ty = (if ty < 0 then None else map_option (map_option fst) (rd h264Nals (nat ty)))"

definition h264Nals_lookupType :: "int \<Rightarrow> string option mem" where
  "h264Nals_lookupType ty = (if ty < 0 then None else map_option (map_option snd) (rd h264Nals (nat ty)))"

subsection \<open>The headers of a buffer\<close>

text \<open>
  The array grows by doubling. \<open>Some None\<close> is the return code -1. The length of a header is
  written when the next one is found, and the last one at the end; until then it is 0 here.
\<close>

definition nal_headers_size :: nat where
  "nal_headers_size = 24"

definition close_last :: "nal_headers_s list \<Rightarrow> nat \<Rightarrow> nal_headers_s list" where
  "close_last a p =
     (if a = [] then [] else butlast a @ [(last a)\<lparr>nal_lengthBytes := of_nat (p - nal_ptr (last a))\<rparr>])"

lemma memmem_bound: "ltn_memmem y x = Some j \<Longrightarrow> j + length x \<le> length y"
  by (auto simp: ltn_memmem_first occurs_def find_Some_iff split: if_splits)

function h264_find_loop ::
  "allocator \<Rightarrow> bytes \<Rightarrow> nat \<Rightarrow> nat \<Rightarrow> nal_headers_s list \<Rightarrow> nat \<Rightarrow> nal_headers_s list option mem" where
  "h264_find_loop alloc buf n p a maxitems =
     (if \<not> p + 3 < n then Some (Some a)
      else do { y \<leftarrow> rdn buf p (n - p);
                case ltn_memmem y [0, 0, 1] of
                  None \<Rightarrow> Some (Some a)
                | Some j \<Rightarrow>
                    let p = p + j;
                        grow = (maxitems \<le> length a);
                        maxitems = (if grow then maxitems * 2 else maxitems)
                    in if grow \<and> \<not> alloc (nal_headers_size * maxitems) then Some None
                       else do { b \<leftarrow> rd buf (p + 3);
                                 let ty = b AND 0x1f;
                                 name \<leftarrow> h264Nals_lookupName (uint ty);
                                 h264_find_loop alloc buf n (p + 3)
                                   (close_last a p @ [\<lparr>nal_ptr = p, nal_lengthBytes = 0, nalType = ty, nalName = name\<rparr>])
                                   maxitems } })"
  by pat_completeness auto
termination
  by (relation "measure (\<lambda>(alloc, buf, n, p, a, maxitems). n - p)") auto

declare h264_find_loop.simps [simp del]

definition ltn_nal_h264_find_headers :: "allocator \<Rightarrow> bytes \<Rightarrow> int \<Rightarrow> nal_headers_s list option mem" where
  "ltn_nal_h264_find_headers alloc buf lengthBytes =
     (if \<not> alloc (nal_headers_size * 64) then Some None
      else do { r \<leftarrow> h264_find_loop alloc buf (nat lengthBytes) 0 [] 64;
                Some (map_option (\<lambda>a. close_last a (nat lengthBytes)) r) })"

text \<open>
  The next header whose forbidden bit is clear, behind \<open>*offset\<close>: from index \<open>i\<close> on, with \<open>n\<close>
  indices left. \<open>Some None\<close> is the return code -1. The function is the same for both codecs.
\<close>

fun find_header_loop :: "bytes \<Rightarrow> nat \<Rightarrow> nat \<Rightarrow> nat option mem" where
  "find_header_loop buf i 0 = Some None"
| "find_header_loop buf i (Suc n) =
     do { sig \<leftarrow> rdn buf i 3;
          if sig = [0, 0, 1]
          then do { b \<leftarrow> rd buf (i + 3);
                    if b AND 0x80 \<noteq> 0 then find_header_loop buf (i + 1) n else Some (Some i) }
          else find_header_loop buf (i + 1) n }"

definition ltn_nal_h264_findHeader :: "bytes \<Rightarrow> int \<Rightarrow> int \<Rightarrow> nat option mem" where
  "ltn_nal_h264_findHeader buf lengthBytes offset =
     (if offset + 1 \<ge> lengthBytes - 3 then Some None
      else if offset + 1 < 0 then None
      else find_header_loop buf (nat (offset + 1)) (nat (lengthBytes - 3 - (offset + 1))))"

text \<open>
  The names of the units of a buffer, written with \<open>sprintf\<close> into 128 bytes: text that does
  not fit is undefined, and so is a name that is \<open>NULL\<close>. The result is \<open>None\<close> when there is no
  unit. The allocation is not checked.
\<close>

definition append_text :: "string \<Rightarrow> string \<Rightarrow> string mem" where
  "append_text arr t = (if length (arr @ t) < 128 then Some (arr @ t) else None)"

lemma find_header_bound:
  "find_header_loop buf i n = Some (Some k) \<Longrightarrow> i \<le> k \<and> k < i + n"
proof (induction n arbitrary: i)
  case (Suc n)
  then show ?case using Suc.IH [of "i + 1"] by (auto simp: bind_eq_Some_conv split: if_splits) fastforce+
qed simp

function find_nal_types_loop ::
  "(u8 \<Rightarrow> int) \<Rightarrow> (int \<Rightarrow> string option mem) \<Rightarrow> bytes \<Rightarrow> int \<Rightarrow> int \<Rightarrow> string \<Rightarrow> nat \<Rightarrow> (string \<times> nat) mem" where
  "find_nal_types_loop ty name buf n offset arr items =
     (case ltn_nal_h264_findHeader buf n offset of
        None \<Rightarrow> None
      | Some None \<Rightarrow> Some (arr, items)
      | Some (Some k) \<Rightarrow>
          do { b \<leftarrow> rd buf (k + 3);
               nm \<leftarrow> name (ty b);
               nm \<leftarrow> nm;
               arr \<leftarrow> (if items > 0 then append_text arr '', '' else Some arr);
               arr \<leftarrow> append_text arr nm;
               find_nal_types_loop ty name buf n (int k) arr (items + 1) })"
  by pat_completeness auto
termination
  by (relation "measure (\<lambda>(ty, name, buf, n, offset, arr, items). nat (n - offset))")
    (auto simp: ltn_nal_h264_findHeader_def dest!: find_header_bound split: if_splits)

declare find_nal_types_loop.simps [simp del]

definition ltn_nal_h264_findNalTypes :: "allocator \<Rightarrow> bytes \<Rightarrow> int \<Rightarrow> string option mem" where
  "ltn_nal_h264_findNalTypes alloc buf lengthBytes =
     (if \<not> alloc 128 then None
      else do { (arr, items) \<leftarrow>
                  find_nal_types_loop (\<lambda>b. uint (b AND 0x1f)) h264Nals_lookupName buf lengthBytes (-1) [] 0;
                Some (if items = 0 then None else Some arr) })"

text \<open>
  Emulation prevention: each \<open>00 00 03\<close> loses its last byte. \<open>memcpy\<close> is given overlapping regions, which is
  undefined unless at most one byte is moved. The results are the buffer, the length
  and the return code; \<open>None\<close> for \<open>ptr\<close> is \<open>NULL\<close>. A unit is shorter than \<open>2 ^ 32 - 2\<close> bytes, as
  the search for headers makes it, so that \<open>i + 2\<close> does not wrap.
\<close>

definition c_memcpy :: "bytes \<Rightarrow> nat \<Rightarrow> nat \<Rightarrow> nat \<Rightarrow> bytes mem" where
  "c_memcpy p dst src n =
     (if n \<noteq> 0 \<and> dst < src + n \<and> src < dst + n then None else do { bs \<leftarrow> rdn p src n; wr p dst bs })"

fun strip_loop :: "bytes \<Rightarrow> nat \<Rightarrow> nat \<Rightarrow> nat \<Rightarrow> nat \<Rightarrow> (bytes \<times> nat) mem" where
  "strip_loop p len i 0 dropped = Some (p, dropped)"
| "strip_loop p len i (Suc n) dropped =
     (if \<not> i + 2 < len then strip_loop p len (i + 1) n dropped
      else do { sig \<leftarrow> rdn p i 3;
                if sig = [0, 0, 3]
                then do { p \<leftarrow> c_memcpy p (i + 2) (i + 3) (len - i - 3); strip_loop p len (i + 1) n (dropped + 1) }
                else strip_loop p len (i + 1) n dropped })"

definition ltn_nal_h264_strip_emulation_prevention :: "(bytes option \<times> u32) option \<Rightarrow> ((bytes option \<times> u32) option \<times> int) mem" where
  "ltn_nal_h264_strip_emulation_prevention h =
     (case h of
        None \<Rightarrow> Some (None, -1)
      | Some (ptr, len) \<Rightarrow>
          (case ptr of
             None \<Rightarrow> Some (h, -1)
           | Some p \<Rightarrow>
               if len < 4 then Some (h, -1)
               else do { (p, dropped) \<leftarrow> strip_loop p (unat len) 1 (unat len - 1) 0;
                         Some (Some (Some p, len - of_nat dropped), 0) }))"


subsection \<open>Slices\<close>

record h264_slice_data_s =
  sd_slice_type :: u32
  sd_count :: u64
  sd_name :: string

definition MAX_H264_SLICE_TYPES :: nat where
  "MAX_H264_SLICE_TYPES = 10"

definition slice_defaults :: "h264_slice_data_s list" where
  "slice_defaults =
     [\<lparr>sd_slice_type = 0, sd_count = 0, sd_name = ''P''\<rparr>, \<lparr>sd_slice_type = 1, sd_count = 0, sd_name = ''B''\<rparr>,
      \<lparr>sd_slice_type = 2, sd_count = 0, sd_name = ''I''\<rparr>, \<lparr>sd_slice_type = 3, sd_count = 0, sd_name = ''p''\<rparr>,
      \<lparr>sd_slice_type = 4, sd_count = 0, sd_name = ''i''\<rparr>, \<lparr>sd_slice_type = 5, sd_count = 0, sd_name = ''P''\<rparr>,
      \<lparr>sd_slice_type = 6, sd_count = 0, sd_name = ''B''\<rparr>, \<lparr>sd_slice_type = 7, sd_count = 0, sd_name = ''I''\<rparr>,
      \<lparr>sd_slice_type = 8, sd_count = 0, sd_name = ''p''\<rparr>, \<lparr>sd_slice_type = 9, sd_count = 0, sd_name = ''i''\<rparr>]"

definition h264_is_slice_type_iframe :: "u32 \<Rightarrow> bool" where
  "h264_is_slice_type_iframe sliceType \<longleftrightarrow> sliceType = 2 \<or> sliceType = 4 \<or> sliceType = 7 \<or> sliceType = 9"

definition h264_is_slice_type_pframe :: "u32 \<Rightarrow> bool" where
  "h264_is_slice_type_pframe sliceType \<longleftrightarrow> sliceType = 0 \<or> sliceType = 3 \<or> sliceType = 5 \<or> sliceType = 8"

definition h264_is_slice_type_bframe :: "u32 \<Rightarrow> bool" where
  "h264_is_slice_type_bframe sliceType \<longleftrightarrow> sliceType = 1 \<or> sliceType = 6"

text \<open>An array at a C \<open>int\<close> index; a negative index is undefined.\<close>

definition rd_int :: "'a list \<Rightarrow> int \<Rightarrow> 'a mem" where
  "rd_int xs i = (if i < 0 then None else rd xs (nat i))"

definition h264_slice_name_ascii :: "int \<Rightarrow> string mem" where
  "h264_slice_name_ascii slice_type = map_option sd_name (rd_int slice_defaults (c_mod slice_type 10))"

text \<open>
  The four bytes behind a unit's header byte, given as the buffer from there on: the second
  Exp-Golomb code is the slice type. An error of the reader gives -1 here as in the code.
\<close>

definition read_slice_type :: "bytes \<Rightarrow> int mem" where
  "read_slice_type bs =
     do { (first_mb, br) \<leftarrow> NALBitReader_read_ue (NALBitReader_init bs 4);
          (st, br) \<leftarrow> NALBitReader_read_ue br;
          Some st }"

definition has_slice_header :: "nat \<Rightarrow> bool" where
  "has_slice_header ty \<longleftrightarrow> ty = 1 \<or> ty = 2 \<or> ty = 5 \<or> ty = 19"

text \<open>The results: the return code, and \<open>*sliceType\<close> when it is written.\<close>

definition h264_nal_get_slice_type_for_nal :: "bytes \<Rightarrow> nal_headers_s option \<Rightarrow> bool \<Rightarrow> (int \<times> u32 option) mem" where
  "h264_nal_get_slice_type_for_nal buf hdr out =
     (case hdr of
        None \<Rightarrow> Some (-1, None)
      | Some h \<Rightarrow>
          if \<not> out then Some (-1, None)
          else if has_slice_header (unat (nalType h)) then
            do { need (nal_ptr h + 4) buf;
                 st \<leftarrow> read_slice_type (drop (nal_ptr h + 4) buf);
                 Some (if st < 10 then (0, Some (word_of_int st)) else (-1, None)) }
          else Some (-1, None))"

text \<open>
  The \<open>uint32_t\<close> length becomes an \<open>int\<close> argument. The slice type is read behind the start of the
  unit, not behind the header found.
\<close>

definition h264_nal_get_slice_type :: "bytes \<Rightarrow> nal_headers_s \<Rightarrow> (int \<times> string option) mem" where
  "h264_nal_get_slice_type buf h =
     do { need (nal_ptr h) buf;
          let b = drop (nal_ptr h) buf;
          r \<leftarrow> ltn_nal_h264_findHeader b (sint (nal_lengthBytes h)) (-1);
          case r of
            None \<Rightarrow> Some (-1, None)
          | Some offset \<Rightarrow>
              do { t \<leftarrow> rd b (offset + 3);
                   if has_slice_header (unat (t AND 0x1f)) then
                     do { need 4 b;
                          slice_type \<leftarrow> read_slice_type (drop 4 b);
                          if slice_type < 10
                          then do { name \<leftarrow> h264_slice_name_ascii slice_type; Some (0, Some name) }
                          else Some (0, None) }
                   else Some (-1, None) } }"

subsection \<open>The slice counter\<close>

definition H264_SLICE_COUNTER_HISTORY_LENGTH :: nat where
  "H264_SLICE_COUNTER_HISTORY_LENGTH = 20"

record h264_slice_counter_s =
  hc_pid :: u16
  hc_slice :: "h264_slice_data_s list"
  nextHistoryPos :: int
  sliceHistory :: string

definition h264_slice_counter_reset :: "h264_slice_counter_s \<Rightarrow> h264_slice_counter_s" where
  "h264_slice_counter_reset s =
     s\<lparr>hc_slice := slice_defaults,
       sliceHistory := replicate H264_SLICE_COUNTER_HISTORY_LENGTH (CHR '' '') @ [CHR 0x00]\<rparr>"

text \<open>
  \<open>malloc\<close> leaves the history position as it is in memory: \<open>m\<close> is the memory the allocator
  returns, \<open>None\<close> is \<open>NULL\<close>, which the code does not check.
\<close>

definition h264_slice_counter_alloc :: "h264_slice_counter_s option \<Rightarrow> u16 \<Rightarrow> h264_slice_counter_s mem" where
  "h264_slice_counter_alloc m pid =
     do { s \<leftarrow> m; Some (h264_slice_counter_reset (s\<lparr>hc_pid := pid\<rparr>)) }"

definition h264_slice_counter_get_pid :: "h264_slice_counter_s \<Rightarrow> u16" where
  "h264_slice_counter_get_pid s = hc_pid s"

definition h264_slice_counter_reset_pid :: "h264_slice_counter_s \<Rightarrow> u16 \<Rightarrow> h264_slice_counter_s" where
  "h264_slice_counter_reset_pid s pid = h264_slice_counter_reset (s\<lparr>hc_pid := pid\<rparr>)"

text \<open>
  \<open>array[pos++ % n] = c\<close> for an \<open>int\<close> position: the increment overflows at the largest
  \<open>int\<close>, and a negative position gives a negative index.
\<close>

definition put_history :: "string \<Rightarrow> int \<Rightarrow> nat \<Rightarrow> char \<Rightarrow> (string \<times> int) mem" where
  "put_history h pos n c =
     (if \<not> in_int (pos + 1) \<or> c_mod pos (int n) < 0 \<or> length h \<le> nat (c_mod pos (int n)) then None
      else Some (h[nat (c_mod pos (int n)) := c], pos + 1))"

definition h264_slice_counter_update :: "h264_slice_counter_s \<Rightarrow> int \<Rightarrow> h264_slice_counter_s mem" where
  "h264_slice_counter_update s slice_type =
     do { d \<leftarrow> rd_int (hc_slice s) slice_type;
          c \<leftarrow> rd (sd_name d @ [CHR 0x00]) 0;
          (h, pos) \<leftarrow> put_history (sliceHistory s) (nextHistoryPos s) H264_SLICE_COUNTER_HISTORY_LENGTH c;
          Some (s\<lparr>hc_slice := (hc_slice s)[nat slice_type := d\<lparr>sd_count := sd_count d + 1\<rparr>],
                  sliceHistory := h, nextHistoryPos := pos\<rparr>) }"

text \<open>
  The loop over the units of a packet. \<open>pkt\<close> is the buffer from the packet on: the reader of a
  slice header may leave the packet.
\<close>

definition h264_count_unit :: "bytes \<Rightarrow> h264_slice_counter_s \<Rightarrow> nat \<Rightarrow> h264_slice_counter_s mem" where
  "h264_count_unit pkt s offset =
     do { t \<leftarrow> rd pkt (offset + 3);
          if has_slice_header (unat (t AND 0x1f)) then
            do { need (offset + 4) pkt;
                 slice_type \<leftarrow> read_slice_type (drop (offset + 4) pkt);
                 if slice_type < int MAX_H264_SLICE_TYPES then h264_slice_counter_update s slice_type else Some s }
          else Some s }"

lemma findHeader_bound:
  "ltn_nal_h264_findHeader buf n offset = Some (Some k) \<Longrightarrow> offset < int k \<and> int k < n - 3"
  by (auto simp: ltn_nal_h264_findHeader_def dest!: find_header_bound split: if_splits)

text \<open>The counter's loop over one packet, for a routine that treats one unit.\<close>

function packet_units_loop :: "(bytes \<Rightarrow> 's \<Rightarrow> nat \<Rightarrow> 's mem) \<Rightarrow> bytes \<Rightarrow> 's \<Rightarrow> int \<Rightarrow> 's mem" where
  "packet_units_loop f pkt s offset =
     (if offset < 188 - 5 then
        (case ltn_nal_h264_findHeader pkt 188 offset of
           None \<Rightarrow> None
         | Some None \<Rightarrow> Some s
         | Some (Some k) \<Rightarrow>
             (case f pkt s k of None \<Rightarrow> None | Some s \<Rightarrow> packet_units_loop f pkt s (int k)))
      else Some s)"
  by pat_completeness auto
termination
  by (relation "measure (\<lambda>(f, pkt, s, offset). nat (188 - offset))") (auto dest!: findHeader_bound)

declare packet_units_loop.simps [simp del]

definition h264_slice_counter_write_packet :: "h264_slice_counter_s \<Rightarrow> bytes \<Rightarrow> h264_slice_counter_s mem" where
  "h264_slice_counter_write_packet s pkt = packet_units_loop h264_count_unit pkt s (-1)"

text \<open>The loop over the packets: \<open>i\<close> is the next one, \<open>n\<close> counts what is left.\<close>

fun h264_write_loop :: "bytes \<Rightarrow> nat \<Rightarrow> nat \<Rightarrow> h264_slice_counter_s \<Rightarrow> h264_slice_counter_s mem" where
  "h264_write_loop pkts i 0 s = Some s"
| "h264_write_loop pkts i (Suc n) s =
     do { let pkt = drop (i * 188) pkts;
          need 3 pkt;
          let pid = ltntstools_pid pkt;
          s \<leftarrow> (if hc_pid s = 0x2000 \<or> pid = hc_pid s then h264_slice_counter_write_packet s pkt else Some s);
          h264_write_loop pkts (i + 1) n s }"

definition h264_slice_counter_write :: "h264_slice_counter_s \<Rightarrow> bytes \<Rightarrow> int \<Rightarrow> h264_slice_counter_s mem" where
  "h264_slice_counter_write s pkts pktCount = h264_write_loop pkts 0 (nat pktCount) s"

record h264_slice_counter_results_s =
  res_i :: u64
  res_b :: u64
  res_p :: u64
  res_si :: u64
  res_sp :: u64
  res_sliceHistory :: string

text \<open>The history is read from the next position on; the text ends with a zero.\<close>

fun get_history :: "string \<Rightarrow> int \<Rightarrow> nat \<Rightarrow> nat \<Rightarrow> string mem" where
  "get_history h p n 0 = Some []"
| "get_history h p n (Suc k) =
     (if \<not> in_int (p + 1) then None
      else do { c \<leftarrow> rd_int h (c_mod p (int n)); cs \<leftarrow> get_history h (p + 1) n k; Some (c # cs) })"

definition h264_slice_counter_query :: "h264_slice_counter_s \<Rightarrow> h264_slice_counter_results_s mem" where
  "h264_slice_counter_query s =
     do { cs \<leftarrow> get_history (sliceHistory s) (nextHistoryPos s)
                 H264_SLICE_COUNTER_HISTORY_LENGTH H264_SLICE_COUNTER_HISTORY_LENGTH;
          need MAX_H264_SLICE_TYPES (hc_slice s);
          let n = (\<lambda>k. sd_count (hc_slice s ! k));
          Some \<lparr>res_i = n 2 + n 7, res_b = n 1 + n 6, res_p = n 0 + n 5, res_si = n 4 + n 9, res_sp = n 3 + n 8,
                res_sliceHistory = cs @ [CHR 0x00]\<rparr> }"

subsection \<open>SEI messages\<close>

text \<open>The names up to type 18; the entry at 64 stands for every other type.\<close>

definition h264SEIs :: "string list" where
  "h264SEIs =
     [''buffer_period'', ''pic_timing'', ''pan_scan_rect'', ''filler_payload'', ''user_data_registered_itu_t_t35'',
      ''user_data_unregistered'', ''recovery_point'', ''dec_ref_pic_marking_repetition'', ''spare_pic'', ''scene_info'',
      ''sub_seq_info'', ''sub_seq_layer_characteristics'', ''sub_seq_characteristics'', ''full_frame_freeze'',
      ''full_frame_freeze_release'', ''full_frame_snapshot'', ''progressive_refinement_segment_start'',
      ''progressive_refinement_segment_end'', ''motion_constrained_slice_group_set'']"

definition ltn_sei_h264_lookupName :: "int \<Rightarrow> string mem" where
  "ltn_sei_h264_lookupName ty =
     (if ty \<le> 18 then rd_int h264SEIs ty else Some ''undefined in spec 2004'')"

text \<open>
  The array has 64 entries and does not grow; a failed allocation is noticed by no test, and
  its first write is undefined. \<open>is_sei\<close> and \<open>name\<close> are what the two codecs differ in.
\<close>

definition MAX_SEI_ITEMS :: nat where
  "MAX_SEI_ITEMS = 64"

fun sei_loop ::
  "(u8 \<Rightarrow> bool) \<Rightarrow> (int \<Rightarrow> string mem) \<Rightarrow> bytes \<Rightarrow> nat \<Rightarrow> nal_headers_s list \<Rightarrow> sei_headers_s list \<Rightarrow> sei_headers_s list mem" where
  "sei_loop is_sei name buf room [] a = Some a"
| "sei_loop is_sei name buf room (h # hs) a =
     (if is_sei (nalType h) then
        do { t \<leftarrow> rd buf (nal_ptr h + 4);
             nm \<leftarrow> name (uint t);
             if room \<le> length a then None
             else sei_loop is_sei name buf room hs
                    (a @ [\<lparr>sei_ptr = nal_ptr h, sei_lengthBytes = nal_lengthBytes h, seiType = t, seiName = Some nm\<rparr>]) }
      else sei_loop is_sei name buf room hs a)"

definition ltn_sei_h264_find_headers ::
  "allocator \<Rightarrow> bytes \<Rightarrow> nal_headers_s list option \<Rightarrow> nat \<Rightarrow> bool \<Rightarrow> (int \<times> sei_headers_s list) mem" where
  "ltn_sei_h264_find_headers alloc buf nals nalArrayLength arrayLength =
     (if \<not> arrayLength then Some (-1, [])
      else case nals of
             None \<Rightarrow> Some (-1, [])
           | Some nals \<Rightarrow>
               do { hs \<leftarrow> rdn nals 0 nalArrayLength;
                    a \<leftarrow> sei_loop (\<lambda>t. t = 6) ltn_sei_h264_lookupName buf
                           (if alloc (nal_headers_size * MAX_SEI_ITEMS) then MAX_SEI_ITEMS else 0) hs [];
                    Some (0, a) })"

subsection \<open>Where the units are\<close>

definition start_code_at :: "bytes \<Rightarrow> nat \<Rightarrow> bool" where
  "start_code_at buf j \<longleftrightarrow> take 3 (drop j buf) = [0, 0, 1]"

lemma start_code_nth:
  "start_code_at buf j \<longleftrightarrow> j + 2 < length buf \<and> buf ! j = 0 \<and> buf ! (j + 1) = 0 \<and> buf ! (j + 2) = 1"
proof (cases "j + 2 < length buf")
  case True
  then have "drop j buf = buf ! j # buf ! (j + 1) # buf ! (j + 2) # drop (j + 3) buf"
    by (simp add: Cons_nth_drop_Suc numeral_3_eq_3)
  then show ?thesis using True by (simp add: start_code_at_def numeral_3_eq_3)
next
  case False
  then have "length (take 3 (drop j buf)) \<noteq> length [0, 0, 1 :: u8]" by simp
  then have "take 3 (drop j buf) \<noteq> [0, 0, 1]" by (rule contrapos_nn) (simp only:)
  then show ?thesis using False by (auto simp: start_code_at_def)
qed

lemma start_codes_apart: "start_code_at buf j \<Longrightarrow> \<not> start_code_at buf (j + 1) \<and> \<not> start_code_at buf (j + 2)"
  by (auto simp: start_code_nth numeral_3_eq_3)

lemma occurs_start_code:
  assumes "n \<le> length buf" "p \<le> n"
  shows "occurs [0, 0, 1] (take (n - p) (drop p buf)) j \<longleftrightarrow> start_code_at buf (p + j) \<and> p + j + 3 \<le> n"
proof (cases "p + j + 3 \<le> n")
  case True
  then have "take 3 (drop j (take (n - p) (drop p buf))) = take 3 (drop (p + j) buf)"
    by (simp add: drop_take min_def add.commute)
  then show ?thesis using True assms by (auto simp: occurs_def start_code_at_def simp flip: numeral_3_eq_3)
next
  case False
  then show ?thesis using assms by (simp add: occurs_def)
qed

lemma filter_upt_skip: "(\<And>i. p \<le> i \<Longrightarrow> i < q \<Longrightarrow> \<not> P i) \<Longrightarrow> p \<le> q \<Longrightarrow> filter P [p ..< m] = filter P [q ..< m]"
proof (induction "q - p" arbitrary: q)
  case (Suc d)
  then have "filter P [p ..< m] = filter P [q - 1 ..< m]" "\<not> P (q - 1)" "Suc (q - 1) = q" by simp_all
  then show ?case by (cases "q - 1 < m") (simp_all add: upt_conv_Cons)
qed simp

lemma filter_start_code:
  assumes "start_code_at buf q" "p \<le> q" "q < m" "\<And>i. p \<le> i \<Longrightarrow> i < q \<Longrightarrow> \<not> start_code_at buf i"
  shows "filter (start_code_at buf) [p ..< m] = q # filter (start_code_at buf) [q + 3 ..< m]"
proof -
  have "\<not> start_code_at buf i" if "q + 1 \<le> i" "i < q + 3" for i
  proof -
    from that have "i = q + 1 \<or> i = q + 2" by arith
    then show ?thesis using start_codes_apart [OF assms(1)] by auto
  qed
  then have "filter (start_code_at buf) [q + 1 ..< m] = filter (start_code_at buf) [q + 3 ..< m]"
    by (intro filter_upt_skip) auto
  then show ?thesis
    using filter_upt_skip [of p q "start_code_at buf" m] assms by (simp add: upt_conv_Cons)
qed

text \<open>The unit of length \<open>l\<close> at \<open>p\<close>, and the units that start at the positions \<open>ps\<close> of \<open>n\<close> bytes.\<close>

definition unit_at :: "(u8 \<Rightarrow> u8) \<Rightarrow> (int \<Rightarrow> string option mem) \<Rightarrow> bytes \<Rightarrow> nat \<Rightarrow> nat \<Rightarrow> nal_headers_s" where
  "unit_at ty name buf p l =
     \<lparr>nal_ptr = p, nal_lengthBytes = of_nat l, nalType = ty (buf ! (p + 3)),
      nalName = the (name (uint (ty (buf ! (p + 3)))))\<rparr>"

definition units :: "(u8 \<Rightarrow> u8) \<Rightarrow> (int \<Rightarrow> string option mem) \<Rightarrow> bytes \<Rightarrow> nat list \<Rightarrow> nat \<Rightarrow> nal_headers_s list" where
  "units ty name buf ps n = map2 (\<lambda>p q. unit_at ty name buf p (q - p)) ps (tl ps @ [n])"

abbreviation add_unit :: "(u8 \<Rightarrow> u8) \<Rightarrow> (int \<Rightarrow> string option mem) \<Rightarrow> bytes \<Rightarrow> nat \<Rightarrow> nal_headers_s list \<Rightarrow> nal_headers_s list" where
  "add_unit ty name buf q a \<equiv> close_last a q @ [unit_at ty name buf q 0]"

lemma units_snoc: "units ty name buf (ps @ [q]) n = units ty name buf ps q @ [unit_at ty name buf q (n - q)]"
proof (cases ps)
  case (Cons p qs)
  then have "zip (ps @ [q]) (tl (ps @ [q]) @ [n]) = zip ps (tl ps @ [q]) @ zip [q] [n]"
    using zip_append [of ps "tl ps @ [q]" "[q]" "[n]"] by simp
  then show ?thesis by (simp add: units_def)
qed (simp add: units_def)

lemma close_added: "close_last (a @ [unit_at ty name buf q 0]) n = a @ [unit_at ty name buf q (n - q)]"
  by (simp add: close_last_def unit_at_def)

lemma fold_units: "close_last (fold (add_unit ty name buf) ps []) n = units ty name buf ps n"
proof (induction ps arbitrary: n rule: rev_induct)
  case Nil
  then show ?case by (simp add: close_last_def units_def)
next
  case (snoc q ps)
  then show ?case by (simp add: close_added units_snoc)
qed

lemma units_cover:
  assumes "sorted (ps @ [n])" "n \<le> length buf" "n < 2 ^ 32" "ps \<noteq> []"
  shows "concat (map (\<lambda>h. take (unat (nal_lengthBytes h)) (drop (nal_ptr h) buf)) (units ty name buf ps n))
    = take (n - hd ps) (drop (hd ps) buf)"
  using assms
proof (induction ps arbitrary: n rule: rev_induct)
  case (snoc q ps)
  have len: "unat (of_nat (n - q) :: u32) = n - q" using snoc.prems(3) by (simp add: unat_of_nat take_bit_nat_eq_self)
  show ?case
  proof (cases "ps = []")
    case True
    then show ?thesis using len by (simp add: units_def unit_at_def)
  next
    case False
    have s: "sorted (ps @ [q])" "hd ps \<le> q" "q \<le> n"
      using snoc.prems(1) False by (auto simp: sorted_append)
    have "take (n - hd ps) (drop (hd ps) buf) = take (q - hd ps) (drop (hd ps) buf) @ take (n - q) (drop q buf)"
      using s take_add [of "q - hd ps" "n - q" "drop (hd ps) buf"] by simp
    moreover have "concat (map (\<lambda>h. take (unat (nal_lengthBytes h)) (drop (nal_ptr h) buf)) (units ty name buf ps q))
        = take (q - hd ps) (drop (hd ps) buf)"
      using snoc.prems(2,3) s(3) False by (intro snoc.IH [OF s(1)]) simp_all
    moreover have "hd (ps @ [q]) = hd ps" using False by simp
    ultimately show ?thesis using len by (simp only: units_snoc) (simp add: unit_at_def)
  qed
qed simp

definition h264_type :: "u8 \<Rightarrow> u8" where
  "h264_type b = b AND 0x1f"

lemma h264_name: "ty \<le> 21 \<Longrightarrow> h264Nals_lookupName (uint (ty :: u8)) = Some (the (h264Nals_lookupName (uint ty)))"
proof -
  assume "ty \<le> 21"
  then have "nat (uint ty) < length h264Nals" by (simp add: h264Nals_def word_le_nat_alt)
  then show ?thesis by (simp add: h264Nals_lookupName_def not_less)
qed

lemma h264_find_loop_units:
  assumes "alloc = (\<lambda>_. True)" "n \<le> length buf" "3 \<le> n \<longrightarrow> \<not> start_code_at buf (n - 3)"
    "\<forall>j < n - 3. start_code_at buf j \<longrightarrow> h264_type (buf ! (j + 3)) \<le> 21"
  shows "h264_find_loop alloc buf n p a m
    = Some (Some (fold (add_unit h264_type h264Nals_lookupName buf) (filter (start_code_at buf) [p ..< n - 3]) a))"
  using assms
proof (induction alloc buf n p a m rule: h264_find_loop.induct)
  case (1 alloc buf n p a m)
  show ?case
  proof (cases "p + 3 < n")
    case False
    then show ?thesis by (subst h264_find_loop.simps) simp
  next
    case True
    let ?y = "take (n - p) (drop p buf)"
    have y: "rdn buf p (n - p) = Some ?y" "length ?y = n - p" using True "1.prems"(2) by simp_all
    have oc: "occurs [0, 0, 1] ?y j \<longleftrightarrow> start_code_at buf (p + j) \<and> p + j + 3 \<le> n" for j
      using True "1.prems"(2) by (intro occurs_start_code) simp_all
    have f: "ltn_memmem ?y [0, 0, 1] = find (occurs [0, 0, 1] ?y) [0 ..< n - p - 2]"
      using True y(2) by (simp add: ltn_memmem_first Suc_diff_le)
    show ?thesis
    proof (cases "ltn_memmem ?y [0, 0, 1]")
      case None
      then have "\<not> start_code_at buf i" if "p \<le> i" "i < n - 3" for i
        using that oc [of "i - p"] by (auto simp: f find_None_iff)
      then have "filter (start_code_at buf) [p ..< n - 3] = []" by simp
      then show ?thesis using True y None by (subst h264_find_loop.simps) simp
    next
      case (Some j)
      then have j: "start_code_at buf (p + j)" "p + j + 3 \<le> n" "\<And>i. i < j \<Longrightarrow> \<not> occurs [0, 0, 1] ?y i"
        using oc by (auto simp: f find_Some_iff)
      then have lt: "p + j < n - 3" using "1.prems"(3) True by (cases "p + j = n - 3") auto
      have "\<not> start_code_at buf i" if "p \<le> i" "i < p + j" for i
        using j(2) j(3) [of "i - p"] that oc [of "i - p"] by auto
      then have fl: "filter (start_code_at buf) [p ..< n - 3] = (p + j) # filter (start_code_at buf) [p + j + 3 ..< n - 3]"
        using j(1) lt by (intro filter_start_code) auto
      have b: "rd buf (p + j + 3) = Some (buf ! (p + j + 3))" using lt "1.prems"(2) by simp
      obtain N where nm: "h264Nals_lookupName (uint (buf ! (p + j + 3) AND 0x1f)) = Some N"
        using h264_name "1.prems"(4) lt j(1) unfolding h264_type_def by blast
      then have u: "unit_at h264_type h264Nals_lookupName buf (p + j) 0 = \<lparr>nal_ptr = p + j, nal_lengthBytes = 0,
          nalType = buf ! (p + j + 3) AND 0x1f, nalName = N\<rparr>"
        by (simp add: unit_at_def h264_type_def)
      note ih = "1.IH" [OF _ y(1) Some refl refl refl _ b refl nm "1.prems"]
      show ?thesis
        using True y(1) Some b nm ih "1.prems"(1)
        by (subst h264_find_loop.simps) (simp add: fl u Let_def)
    qed
  qed
qed

text \<open>
  C17: Finding the NAL units of an H.264 buffer. Given memory, a buffer whose last three bytes are not a
  start code, and unit types that the name table knows, \<open>ltn_nal_h264_find_headers\<close> returns exactly
  one header for each start code of the buffer, in order, with its position, its type, the type's name and the
  distance to the next start code or the end. The units thus cover the buffer from the first
  start code to the end, without a gap or an overlap, however many there are.
\<close>

theorem h264_units_partition:
  assumes "\<forall>k. alloc k" "n \<le> length buf" "n < 2 ^ 31" "3 \<le> n \<longrightarrow> \<not> start_code_at buf (n - 3)"
    "\<forall>j < n - 3. start_code_at buf j \<longrightarrow> buf ! (j + 3) AND 0x1f \<le> 21"
    "ps = filter (start_code_at buf) [0 ..< n - 3]"
  shows "ltn_nal_h264_find_headers alloc buf (int n) = Some (Some (units h264_type h264Nals_lookupName buf ps n))
    \<and> (ps \<noteq> [] \<longrightarrow> concat (map (\<lambda>h. take (unat (nal_lengthBytes h)) (drop (nal_ptr h) buf))
          (units h264_type h264Nals_lookupName buf ps n)) = take (n - hd ps) (drop (hd ps) buf))"
proof (intro conjI impI)
  have "alloc = (\<lambda>_. True)" using assms(1) by auto
  moreover have "\<forall>j < n - 3. start_code_at buf j \<longrightarrow> h264_type (buf ! (j + 3)) \<le> 21"
    using assms(5) by (simp add: h264_type_def)
  ultimately show "ltn_nal_h264_find_headers alloc buf (int n) = Some (Some (units h264_type h264Nals_lookupName buf ps n))"
    using h264_find_loop_units [of alloc n buf 0 "[]" 64] assms(2,4,6)
    by (simp add: ltn_nal_h264_find_headers_def fold_units)
next
  assume p: "ps \<noteq> []"
  have "sorted (ps @ [n])" using assms(6) by (auto simp: sorted_append sorted_wrt_filter)
  then show "concat (map (\<lambda>h. take (unat (nal_lengthBytes h)) (drop (nal_ptr h) buf))
          (units h264_type h264Nals_lookupName buf ps n)) = take (n - hd ps) (drop (hd ps) buf)"
    using assms(2,3) p by (intro units_cover) simp_all
qed

definition sample_nal_units :: bytes where
  "sample_nal_units = [0xFF, 0, 0, 1, 0x67, 0x42, 0, 0, 0, 1, 0x68, 0xCE, 0, 0, 1, 0x65, 0x88, 0x80]"

theorem h264_units_partition_witness:
  "ltn_nal_h264_find_headers (\<lambda>_. True) sample_nal_units (int 18) =
     Some (Some (units h264_type h264Nals_lookupName sample_nal_units [1, 7, 12] 18))
   \<and> map nal_lengthBytes (units h264_type h264Nals_lookupName sample_nal_units [1, 7, 12] 18) = [6, 5, 6]
   \<and> concat (map (\<lambda>h. take (unat (nal_lengthBytes h)) (drop (nal_ptr h) sample_nal_units))
        (units h264_type h264Nals_lookupName sample_nal_units [1, 7, 12] 18)) = tl sample_nal_units"
proof -
  have f: "filter (start_code_at sample_nal_units) [0 ..< 18 - 3] = [1, 7, 12]"
    by (simp add: upt_rec start_code_at_def sample_nal_units_def)
  have m: "j \<in> {1, 7, 12}" if "j < 18 - 3" "start_code_at sample_nal_units j" for j
  proof -
    have "j \<in> set (filter (start_code_at sample_nal_units) [0 ..< 18 - 3])" using that by simp
    then show ?thesis unfolding f by simp
  qed
  have t: "\<forall>j < 18 - 3. start_code_at sample_nal_units j \<longrightarrow> sample_nal_units ! (j + 3) AND 0x1f \<le> 21"
  proof (intro allI impI)
    fix j assume "j < 18 - 3" "start_code_at sample_nal_units j"
    then have "j \<in> {1, 7, 12}" by (rule m)
    then show "sample_nal_units ! (j + 3) AND 0x1f \<le> 21" by (auto simp: sample_nal_units_def)
  qed
  have e: "3 \<le> (18 :: nat) \<longrightarrow> \<not> start_code_at sample_nal_units (18 - 3)" by (simp add: start_code_at_def sample_nal_units_def)
  have l: "18 \<le> length sample_nal_units" by (simp add: sample_nal_units_def)
  have a: "\<forall>k :: nat. (\<lambda>_. True) k" by simp
  note w = h264_units_partition [OF a l _ e t f [symmetric]]
  have "[1, 7, 12 :: nat] \<noteq> []" by simp
  with w show ?thesis by (simp add: units_def unit_at_def sample_nal_units_def)
qed

subsection \<open>The header search\<close>

definition unit_start :: "bytes \<Rightarrow> nat \<Rightarrow> bool" where
  "unit_start buf j \<longleftrightarrow> start_code_at buf j \<and> (buf ! (j + 3)) AND 0x80 = 0"

lemma find_header_loop_find:
  "i + n + 3 \<le> length buf \<Longrightarrow> find_header_loop buf i n = Some (find (unit_start buf) [i ..< i + n])"
proof (induction n arbitrary: i)
  case (Suc n)
  have u: "[i ..< i + Suc n] = i # [i + 1 ..< i + 1 + n]" by (simp add: upt_conv_Cons del: upt_Suc)
  show ?case
    using Suc.prems Suc.IH [of "i + 1"] unfolding u
    by (simp add: unit_start_def start_code_at_def)
qed simp

lemma findHeader_find:
  assumes "n \<le> int (length buf)" "-1 \<le> offset"
  shows "ltn_nal_h264_findHeader buf n offset = Some (find (unit_start buf) [nat (offset + 1) ..< nat (n - 3)])"
proof (cases "offset + 1 \<ge> n - 3")
  case True
  then show ?thesis using assms by (simp add: ltn_nal_h264_findHeader_def)
next
  case False
  let ?k = "nat (n - 3 - (offset + 1))"
  have "nat (offset + 1) + ?k = nat (n - 3)" using False assms by simp
  moreover have "nat (offset + 1) + ?k + 3 \<le> length buf" using False assms by simp
  ultimately show ?thesis
    using find_header_loop_find [of "nat (offset + 1)" ?k buf] False assms by (simp add: ltn_nal_h264_findHeader_def)
qed

lemma filter_find:
  "filter P [i ..< m] = (case find P [i ..< m] of None \<Rightarrow> [] | Some k \<Rightarrow> k # filter P [Suc k ..< m])"
proof (cases "find P [i ..< m]")
  case None
  then have "filter P [i ..< m] = []" by (auto simp: find_None_iff)
  with None show ?thesis by simp
next
  case (Some k)
  then have k: "i \<le> k" "k < m" "P k" "\<And>j. i \<le> j \<Longrightarrow> j < k \<Longrightarrow> \<not> P j"
    by (auto simp: find_Some_iff) (metis add.commute add_lessD1 le_Suc_ex less_diff_conv nat_add_left_cancel_less)
  then show ?thesis using Some filter_upt_skip [of i k P m] by (simp add: upt_conv_Cons)
qed

text \<open>The loop over a packet treats every unit that starts in it, each once and in order.\<close>

lemma packet_units_fold:
  assumes "188 \<le> length pkt" "-1 \<le> offset" "0 \<le> offset \<Longrightarrow> start_code_at pkt (nat offset)"
  shows "packet_units_loop f pkt s offset
    = mem_fold (\<lambda>k s. f pkt s k) (filter (unit_start pkt) [nat (offset + 1) ..< 185]) s"
  using assms
proof (induction f pkt s offset rule: packet_units_loop.induct)
  case (1 f pkt s offset)
  have h: "ltn_nal_h264_findHeader pkt 188 offset = Some (find (unit_start pkt) [nat (offset + 1) ..< 185])"
    using findHeader_find [of 188 pkt offset] "1.prems"(1,2) by simp
  show ?case
  proof (cases "offset < 188 - 5")
    case False
    then have "\<not> unit_start pkt i" if "nat (offset + 1) \<le> i" "i < 185" for i
    proof -
      from that False have "i = nat offset + 1" "0 \<le> offset" by arith+
      then show ?thesis using start_codes_apart [OF "1.prems"(3)] by (simp add: unit_start_def)
    qed
    then have "filter (unit_start pkt) [nat (offset + 1) ..< 185] = []" by simp
    then show ?thesis using False by (subst packet_units_loop.simps) simp
  next
    case True
    show ?thesis
    proof (cases "find (unit_start pkt) [nat (offset + 1) ..< 185]")
      case None
      then show ?thesis using True h filter_find [of "unit_start pkt" "nat (offset + 1)" 185]
        by (subst packet_units_loop.simps) simp
    next
      case (Some k)
      then have "start_code_at pkt k" by (auto simp: find_Some_iff unit_start_def)
      then have "packet_units_loop f pkt s' (int k)
          = mem_fold (\<lambda>k s. f pkt s k) (filter (unit_start pkt) [Suc k ..< 185]) s'" if "f pkt s k = Some s'" for s'
        using "1.IH" [OF True _ refl that] h Some "1.prems"(1) by (simp add: nat_add_distrib)
      then show ?thesis
        using True h Some filter_find [of "unit_start pkt" "nat (offset + 1)" 185]
        by (subst packet_units_loop.simps) (simp split: option.split)
    qed
  qed
qed

subsection \<open>Counting slices\<close>

text \<open>
  What both slice counters promise of an update with a known type: the type's counter goes up by
  one, and the type's letter takes the place of the oldest one in the history. \<open>keep\<close> is what
  an update leaves alone. The ring has 20 places; the last 20 letters are read from the next position on.
\<close>

definition recent :: "string \<Rightarrow> int \<Rightarrow> string" where
  "recent h pos = map (\<lambda>i. h ! ((nat pos + i) mod 20)) [0 ..< 20]"

lemma length_recent [simp]: "length (recent h pos) = 20"
  by (simp add: recent_def)

lemma recent_update:
  assumes "0 \<le> pos" "20 \<le> length h"
  shows "recent (h[nat pos mod 20 := c]) (pos + 1) = tl (recent h pos) @ [c]"
proof (rule nth_equalityI)
  fix i assume "i < length (recent (h[nat pos mod 20 := c]) (pos + 1))"
  then have i: "i < 20" by simp
  let ?p = "nat pos"
  have p: "nat (pos + 1) = Suc ?p" using assms(1) by simp
  have m: "?p mod 20 < length h" using assms(2) by (rule less_le_trans [rotated]) simp
  have r: "recent (h[?p mod 20 := c]) (pos + 1) ! i = h[?p mod 20 := c] ! ((Suc ?p + i) mod 20)"
    using i by (simp add: recent_def p)
  show "recent (h[?p mod 20 := c]) (pos + 1) ! i = (tl (recent h pos) @ [c]) ! i"
  proof (cases "i = 19")
    case True
    then have "(Suc ?p + i) mod 20 = ?p mod 20" by (simp add: add.commute [of ?p])
    then show ?thesis using True m unfolding r by (simp add: nth_append)
  next
    case False
    have "(Suc ?p + i) mod 20 \<noteq> ?p mod 20"
    proof
      assume "(Suc ?p + i) mod 20 = ?p mod 20"
      then have "20 dvd Suc ?p + i - ?p" by (subst mod_eq_dvd_iff_nat [symmetric]) simp_all
      then show False using i False by (auto dest: dvd_imp_le)
    qed
    moreover have "tl (recent h pos) ! i = h ! ((Suc ?p + i) mod 20)" using i False by (simp add: recent_def nth_tl)
    ultimately show ?thesis using i False unfolding r by (simp add: nth_append)
  qed
qed simp

locale slice_history =
  fixes upd :: "'s \<Rightarrow> int \<Rightarrow> 's mem" and wf :: "'s \<Rightarrow> bool" and pos :: "'s \<Rightarrow> int" and hist :: "'s \<Rightarrow> string"
    and cnt :: "'s \<Rightarrow> nat \<Rightarrow> u64" and keep :: "'s \<Rightarrow> 'k" and letters :: string
  assumes wf_bounds: "wf s \<Longrightarrow> 0 \<le> pos s \<and> 20 \<le> length (hist s)"
    and upd_ok: "wf s \<Longrightarrow> pos s + 1 < 2 ^ 31 \<Longrightarrow> 0 \<le> st \<Longrightarrow> st < int (length letters) \<Longrightarrow>
      \<exists>s'. upd s st = Some s' \<and> wf s' \<and> pos s' = pos s + 1 \<and> keep s' = keep s
        \<and> hist s' = (hist s)[nat (pos s) mod 20 := letters ! nat st]
        \<and> (\<forall>k. cnt s' k = cnt s k + of_bool (int k = st))"
begin

lemma updates_ok:
  assumes "wf s" "pos s + int (length sts) < 2 ^ 31" "\<forall>st \<in> set sts. 0 \<le> st \<and> st < int (length letters)"
  shows "\<exists>s'. mem_fold (\<lambda>st s. upd s st) sts s = Some s' \<and> wf s' \<and> pos s' = pos s + int (length sts) \<and> keep s' = keep s
    \<and> (\<forall>k. cnt s' k = cnt s k + of_nat (count_list sts (int k)))
    \<and> recent (hist s') (pos s') = drop (length sts) (recent (hist s) (pos s) @ map (\<lambda>st. letters ! nat st) sts)"
  using assms
proof (induction sts arbitrary: s)
  case Nil
  then show ?case by simp
next
  case (Cons st sts)
  then obtain t where t: "upd s st = Some t" "wf t" "pos t = pos s + 1" "keep t = keep s"
      "hist t = (hist s)[nat (pos s) mod 20 := letters ! nat st]" "\<forall>k. cnt t k = cnt s k + of_bool (int k = st)"
    using upd_ok [of s st] by auto
  moreover obtain s' where s: "mem_fold (\<lambda>st s. upd s st) sts t = Some s'" "wf s'" "pos s' = pos t + int (length sts)"
      "keep s' = keep t" "\<forall>k. cnt s' k = cnt t k + of_nat (count_list sts (int k))"
      "recent (hist s') (pos s') = drop (length sts) (recent (hist t) (pos t) @ map (\<lambda>st. letters ! nat st) sts)"
    using Cons.IH [OF t(2)] Cons.prems t(3) by auto
  moreover have "recent (hist t) (pos t) = tl (recent (hist s) (pos s)) @ [letters ! nat st]"
    using wf_bounds [OF Cons.prems(1)] t by (simp add: recent_update)
  moreover obtain x xs where x: "recent (hist s) (pos s) = x # xs"
    using length_recent [of "hist s" "pos s"] by (cases "recent (hist s) (pos s)") (auto simp del: length_recent)
  moreover have "drop (length sts) (xs @ [letters ! nat st] @ map (\<lambda>st. letters ! nat st) sts)
      = drop (length (st # sts)) (recent (hist s) (pos s) @ map (\<lambda>st. letters ! nat st) (st # sts))"
    by (simp add: x)
  ultimately show ?case
    by (intro exI [of _ s']) (simp add: algebra_simps del: drop_append drop_map)
qed

end

definition counter_wf :: "h264_slice_counter_s \<Rightarrow> bool" where
  "counter_wf s \<longleftrightarrow> 0 \<le> nextHistoryPos s \<and> length (sliceHistory s) = 21 \<and> map sd_name (hc_slice s) = map sd_name slice_defaults"

definition h264_letters :: string where
  "h264_letters = ''PBIpiPBIpi''"

definition slice_count :: "h264_slice_counter_s \<Rightarrow> nat \<Rightarrow> u64" where
  "slice_count s k = (if k < length (hc_slice s) then sd_count (hc_slice s ! k) else 0)"

lemma put_history_ok:
  "0 \<le> pos \<Longrightarrow> pos + 1 < 2 ^ 31 \<Longrightarrow> 20 \<le> length h \<Longrightarrow> put_history h pos 20 c = Some (h[nat pos mod 20 := c], pos + 1)"
proof -
  assume a: "0 \<le> pos" "pos + 1 < 2 ^ 31" "20 \<le> length h"
  have "c_mod pos 20 = int (nat pos mod 20)" using a(1) by (simp add: zmod_int)
  moreover have "nat pos mod 20 < length h" using a(3) by (rule less_le_trans [rotated]) simp
  ultimately show ?thesis using a(1,2) by (simp add: put_history_def in_int_def)
qed

lemma default_names: "map sd_name slice_defaults = map (\<lambda>c. [c]) h264_letters"
  by (simp add: slice_defaults_def h264_letters_def)

interpretation avc: slice_history h264_slice_counter_update counter_wf nextHistoryPos sliceHistory slice_count hc_pid h264_letters
proof unfold_locales
  fix s st
  assume s: "counter_wf s" "nextHistoryPos s + 1 < 2 ^ 31" and st: "0 \<le> st" "st < int (length h264_letters)"
  then have n: "map sd_name (hc_slice s) = map (\<lambda>c. [c]) h264_letters" by (simp add: counter_wf_def default_names)
  then have l: "length (hc_slice s) = length h264_letters" by (metis length_map)
  then have i: "nat st < length (hc_slice s)" using st by simp
  then have "sd_name (hc_slice s ! nat st) = [h264_letters ! nat st]"
    using arg_cong [OF n, of "\<lambda>xs. xs ! nat st"] l by simp
  then have u: "h264_slice_counter_update s st = Some (s\<lparr>
      hc_slice := (hc_slice s)[nat st := (hc_slice s ! nat st)\<lparr>sd_count := sd_count (hc_slice s ! nat st) + 1\<rparr>],
      sliceHistory := (sliceHistory s)[nat (nextHistoryPos s) mod 20 := h264_letters ! nat st],
      nextHistoryPos := nextHistoryPos s + 1\<rparr>)" (is "_ = Some ?t")
    using s st i put_history_ok [of "nextHistoryPos s" "sliceHistory s"]
    by (simp add: h264_slice_counter_update_def rd_int_def counter_wf_def H264_SLICE_COUNTER_HISTORY_LENGTH_def)
  have "counter_wf ?t" using s(1) i by (simp add: counter_wf_def map_update list_update_same_conv flip: nth_map [of _ _ sd_name])
  moreover have "\<forall>k. slice_count ?t k = slice_count s k + of_bool (int k = st)"
    using i st(1) by (auto simp: slice_count_def nth_list_update)
  ultimately show "\<exists>s'. h264_slice_counter_update s st = Some s' \<and> counter_wf s' \<and> nextHistoryPos s' = nextHistoryPos s + 1
      \<and> hc_pid s' = hc_pid s \<and> sliceHistory s' = (sliceHistory s)[nat (nextHistoryPos s) mod 20 := h264_letters ! nat st]
      \<and> (\<forall>k. slice_count s' k = slice_count s k + of_bool (int k = st))"
    using u by simp
qed (auto simp: counter_wf_def)

lemma get_history_ok:
  assumes "0 \<le> pos" "pos + int k < 2 ^ 31" "20 \<le> length h"
  shows "get_history h pos 20 k = Some (map (\<lambda>i. h ! ((nat pos + i) mod 20)) [0 ..< k])"
  using assms
proof (induction k arbitrary: pos)
  case (Suc k)
  have "nat pos mod 20 < length h" using Suc.prems(3) by (rule less_le_trans [rotated]) simp
  moreover have "nat (pos mod 20) = nat pos mod 20" using Suc.prems(1) by (simp add: nat_mod_distrib)
  ultimately have "rd_int h (c_mod pos (int 20)) = Some (h ! (nat pos mod 20))"
    using Suc.prems(1) by (simp add: rd_int_def not_less)
  moreover have "get_history h (pos + 1) 20 k = Some (map (\<lambda>i. h ! ((nat (pos + 1) + i) mod 20)) [0 ..< k])"
    using Suc.prems by (intro Suc.IH) simp_all
  moreover have "nat (pos + 1) = Suc (nat pos)" "in_int (pos + 1)" using Suc.prems by (simp_all add: in_int_def)
  ultimately show ?case by (simp add: upt_conv_Cons map_Suc_upt [symmetric] del: upt_Suc)
qed simp

text \<open>The slice types a packet holds, and those of the packets a counter listens to.\<close>

definition slice_units :: "bytes \<Rightarrow> nat list" where
  "slice_units pkt = filter (\<lambda>k. unit_start pkt k \<and> has_slice_header (unat (pkt ! (k + 3) AND 0x1f))) [0 ..< 185]"

definition packet_slices :: "bytes \<Rightarrow> int list" where
  "packet_slices pkt = filter (\<lambda>st. st < 10) (map (\<lambda>k. the (read_slice_type (drop (k + 4) pkt))) (slice_units pkt))"

definition counted_packets :: "u16 \<Rightarrow> bytes \<Rightarrow> nat \<Rightarrow> bytes list" where
  "counted_packets pid pkts n =
     filter (\<lambda>p. pid = 0x2000 \<or> ltntstools_pid p = pid) (map (\<lambda>i. drop (i * 188) pkts) [0 ..< n])"

definition readable :: "bytes \<Rightarrow> bool" where
  "readable pkt \<longleftrightarrow> (\<forall>k \<in> set (slice_units pkt). \<exists>st \<ge> 0. read_slice_type (drop (k + 4) pkt) = Some st)"

lemma mem_fold_cong: "(\<And>x s. x \<in> set xs \<Longrightarrow> f x s = g x s) \<Longrightarrow> mem_fold f xs s = mem_fold g xs s"
proof (induction xs arbitrary: s)
  case (Cons x xs)
  then show ?case by (cases "g x s") simp_all
qed simp

lemma mem_fold_append: "mem_fold f (xs @ ys) s = mem_fold f xs s \<bind> mem_fold f ys"
proof (induction xs arbitrary: s)
  case (Cons x xs)
  then show ?case by (cases "f x s") simp_all
qed simp

lemma mem_fold_filter: "mem_fold (\<lambda>x s. if P x then f x s else Some s) xs s = mem_fold f (filter P xs) s"
proof (induction xs arbitrary: s)
  case (Cons x xs)
  then show ?case by (cases "f x s") simp_all
qed simp

lemma mem_fold_map: "mem_fold f (map g xs) s = mem_fold (\<lambda>x. f (g x)) xs s"
proof (induction xs arbitrary: s)
  case (Cons x xs)
  then show ?case by (cases "f (g x) s") simp_all
qed simp

lemma write_packet_updates:
  assumes "188 \<le> length pkt" "readable pkt"
  shows "h264_slice_counter_write_packet s pkt = mem_fold (\<lambda>st s. h264_slice_counter_update s st) (packet_slices pkt) s"
proof -
  let ?H = "\<lambda>k. has_slice_header (unat (pkt ! (k + 3) AND 0x1f))"
  let ?t = "\<lambda>k. the (read_slice_type (drop (k + 4) pkt))"
  let ?u = "\<lambda>st s. if st < 10 then h264_slice_counter_update s st else Some s"
  have "h264_count_unit pkt s k = (if ?H k then ?u (?t k) s else Some s)"
    if "k \<in> set (filter (unit_start pkt) [0 ..< 185])" for k s
  proof -
    have "\<exists>st \<ge> 0. read_slice_type (drop (k + 4) pkt) = Some st" if "?H k"
      using assms(2) \<open>k \<in> _\<close> that by (auto simp: readable_def slice_units_def)
    then show ?thesis
      using assms(1) that by (auto simp: h264_count_unit_def MAX_H264_SLICE_TYPES_def)
  qed
  then have "mem_fold (\<lambda>k s. h264_count_unit pkt s k) (filter (unit_start pkt) [0 ..< 185]) s
      = mem_fold (\<lambda>k s. if ?H k then ?u (?t k) s else Some s) (filter (unit_start pkt) [0 ..< 185]) s"
    by (rule mem_fold_cong)
  then have "h264_slice_counter_write_packet s pkt
      = mem_fold (\<lambda>k s. if ?H k then ?u (?t k) s else Some s) (filter (unit_start pkt) [0 ..< 185]) s"
    unfolding h264_slice_counter_write_packet_def
    using packet_units_fold [OF assms(1), of "-1" h264_count_unit s] by simp
  also have "\<dots> = mem_fold (\<lambda>k. ?u (?t k)) (slice_units pkt) s"
    by (simp add: mem_fold_filter slice_units_def conj_commute)
  also have "\<dots> = mem_fold ?u (map ?t (slice_units pkt)) s" by (simp add: mem_fold_map)
  also have "\<dots> = mem_fold (\<lambda>st s. h264_slice_counter_update s st) (packet_slices pkt) s"
    unfolding packet_slices_def by (rule mem_fold_filter)
  finally show ?thesis .
qed

lemma packet_slices_range: "readable pkt \<Longrightarrow> st \<in> set (packet_slices pkt) \<Longrightarrow> 0 \<le> st \<and> st < int (length h264_letters)"
  by (auto simp: readable_def packet_slices_def h264_letters_def)

lemma write_loop_updates:
  assumes "188 * (i + n) \<le> length pkts" "counter_wf s"
    "sts = concat (map packet_slices (filter (\<lambda>p. hc_pid s = 0x2000 \<or> ltntstools_pid p = hc_pid s)
             (map (\<lambda>i. drop (i * 188) pkts) [i ..< i + n])))"
    "\<forall>p \<in> set (filter (\<lambda>p. hc_pid s = 0x2000 \<or> ltntstools_pid p = hc_pid s) (map (\<lambda>i. drop (i * 188) pkts) [i ..< i + n])). readable p"
    "nextHistoryPos s + int (length sts) < 2 ^ 31"
  shows "h264_write_loop pkts i n s = mem_fold (\<lambda>st s. h264_slice_counter_update s st) sts s"
  using assms
proof (induction n arbitrary: i s sts)
  case (Suc n)
  let ?p = "drop (i * 188) pkts"
  let ?f = "\<lambda>s. filter (\<lambda>p. hc_pid s = 0x2000 \<or> ltntstools_pid p = hc_pid s) (map (\<lambda>i. drop (i * 188) pkts) [i + 1 ..< i + 1 + n])"
  let ?w = "if hc_pid s = 0x2000 \<or> ltntstools_pid ?p = hc_pid s then packet_slices ?p else []"
  have u: "[i ..< i + Suc n] = i # [i + 1 ..< i + 1 + n]" by (simp add: upt_conv_Cons del: upt_Suc)
  have l: "188 \<le> length ?p" using Suc.prems(1) by simp
  have sts: "sts = ?w @ concat (map packet_slices (?f s))" using Suc.prems(3) unfolding u by simp
  have r: "hc_pid s = 0x2000 \<or> ltntstools_pid ?p = hc_pid s \<Longrightarrow> readable ?p" "\<forall>p \<in> set (?f s). readable p"
    using Suc.prems(4) unfolding u by auto
  have "\<forall>st \<in> set ?w. 0 \<le> st \<and> st < int (length h264_letters)" using r(1) packet_slices_range by auto
  then obtain t where t: "mem_fold (\<lambda>st s. h264_slice_counter_update s st) ?w s = Some t" "counter_wf t"
      "nextHistoryPos t = nextHistoryPos s + int (length ?w)" "hc_pid t = hc_pid s"
    using avc.updates_ok [OF Suc.prems(2), of ?w] Suc.prems(5) sts by auto
  have w: "(if hc_pid s = 0x2000 \<or> ltntstools_pid ?p = hc_pid s then h264_slice_counter_write_packet s ?p else Some s) = Some t"
    using t(1) write_packet_updates [OF l r(1)] by (auto split: if_splits)
  have "h264_write_loop pkts (i + 1) n t = mem_fold (\<lambda>st s. h264_slice_counter_update s st) (concat (map packet_slices (?f t))) t"
    using Suc.prems(1,5) t r(2) sts by (intro Suc.IH) (simp_all add: t(4))
  moreover have "h264_write_loop pkts i (Suc n) s = h264_write_loop pkts (i + 1) n t"
    using w l by simp
  ultimately show ?case unfolding sts mem_fold_append by (simp add: t(1,4))
qed simp

text \<open>
  C16: The H.264 slice counter. A counter that was allocated in memory whose history position, which the
  allocation leaves as it is, is not negative and leaves room below the largest \<open>int\<close>, and was given
  packets whose slice headers can be read, reports for each kind of slice how many slices of that kind start in
  the packets of its PID, and as its history the letters of the last twenty slices in the order in which
  they came, behind blanks when there were fewer.
\<close>

theorem h264_slice_counter_counts:
  assumes "h264_slice_counter_alloc (Some mem) pid = Some s0" "0 \<le> nextHistoryPos mem"
    "188 * n \<le> length pkts" "\<forall>p \<in> set (counted_packets pid pkts n). readable p"
    "sts = concat (map packet_slices (counted_packets pid pkts n))" "nextHistoryPos mem + int (length sts) + 20 < 2 ^ 31"
  shows "\<exists>s. h264_slice_counter_write s0 pkts (int n) = Some s
    \<and> h264_slice_counter_query s = Some
        \<lparr>res_i = of_nat (count_list sts 2 + count_list sts 7), res_b = of_nat (count_list sts 1 + count_list sts 6),
         res_p = of_nat (count_list sts 0 + count_list sts 5), res_si = of_nat (count_list sts 4 + count_list sts 9),
         res_sp = of_nat (count_list sts 3 + count_list sts 8),
         res_sliceHistory = drop (length sts) (replicate 20 (CHR '' '') @ map (\<lambda>st. h264_letters ! nat st) sts) @ [CHR 0x00]\<rparr>"
proof -
  have s0: "s0 = h264_slice_counter_reset (mem\<lparr>hc_pid := pid\<rparr>)" using assms(1) by (simp add: h264_slice_counter_alloc_def)
  have wf: "counter_wf s0" using assms(2) by (simp add: s0 counter_wf_def h264_slice_counter_reset_def H264_SLICE_COUNTER_HISTORY_LENGTH_def)
  have f: "hc_pid s0 = pid" "nextHistoryPos s0 = nextHistoryPos mem" by (simp_all add: s0 h264_slice_counter_reset_def)
  have "slice_count s0 k = 0" for k
    by (simp add: s0 slice_count_def h264_slice_counter_reset_def slice_defaults_def nth_Cons split: nat.split)
  moreover have "recent (sliceHistory s0) p = replicate 20 (CHR '' '')" for p
    by (rule nth_equalityI) (simp_all add: recent_def s0 h264_slice_counter_reset_def H264_SLICE_COUNTER_HISTORY_LENGTH_def nth_append)
  moreover have "\<forall>st \<in> set sts. 0 \<le> st \<and> st < int (length h264_letters)"
    using assms(4,5) packet_slices_range by auto
  ultimately obtain s where s: "mem_fold (\<lambda>st s. h264_slice_counter_update s st) sts s0 = Some s" "counter_wf s"
      "nextHistoryPos s = nextHistoryPos mem + int (length sts)" "\<And>k. slice_count s k = of_nat (count_list sts (int k))"
      "recent (sliceHistory s) (nextHistoryPos s) = drop (length sts) (replicate 20 (CHR '' '') @ map (\<lambda>st. h264_letters ! nat st) sts)"
    using avc.updates_ok [OF wf, of sts] assms(6) f(2) by auto
  have "h264_slice_counter_write s0 pkts (int n) = Some s"
    using write_loop_updates [of 0 n pkts s0 sts] wf assms(3-6) f s(1)
    by (simp add: h264_slice_counter_write_def counted_packets_def)
  moreover have "length (map sd_name (hc_slice s)) = length (map sd_name slice_defaults)"
    using s(2) by (simp only: counter_wf_def)
  then have "length (hc_slice s) = 10" by (simp add: slice_defaults_def)
  moreover have "get_history (sliceHistory s) (nextHistoryPos s) 20 20 = Some (recent (sliceHistory s) (nextHistoryPos s))"
    using s(2,3) assms(2,6) by (simp add: get_history_ok recent_def counter_wf_def)
  ultimately show ?thesis
    using s(4) [of 0] s(4) [of 1] s(4) [of 2] s(4) [of 3] s(4) [of 4] s(4) [of 5] s(4) [of 6] s(4) [of 7] s(4) [of 8] s(4) [of 9]
    by (simp add: h264_slice_counter_query_def H264_SLICE_COUNTER_HISTORY_LENGTH_def MAX_H264_SLICE_TYPES_def slice_count_def s(5) Let_def)
qed

definition sample_slices :: bytes where
  "sample_slices = [0x47, 0, 0x31, 0x10, 0, 0, 1, 0x65, 0x88, 0, 0, 1, 0x41, 0x9A] @ replicate 174 0xFF"

lemma sample_slices_units: "slice_units sample_slices = [4, 9]"
proof -
  have "\<not> unit_start sample_slices j" if "14 \<le> j" "j < 185" for j
    using that by (simp add: unit_start_def start_code_nth sample_slices_def nth_append)
  then have "filter (\<lambda>k. unit_start sample_slices k \<and> P k) [14 ..< 185] = []" for P by (simp add: filter_empty_conv)
  moreover have "[0 ..< 185] = [0 ..< 14] @ [14 ..< 185 :: nat]" using upt_add_eq_append [of 0 14 171] by simp
  moreover have "[0 ..< 14] = [0, 1, 2, 3, 4, 5, 6, 7, 8, 9, 10, 11, 12, 13 :: nat]" by (simp add: upt_rec)
  ultimately show ?thesis
    by (simp add: slice_units_def unit_start_def start_code_nth has_slice_header_def sample_slices_def)
qed

lemma first_byte_bit:
  "0 \<le> p \<Longrightarrow> p < 8 \<Longrightarrow> NALBitReader_read_bit \<lparr>nb_data = b # xs, nb_size = 4, nb_bit_pos = p\<rparr>
     = Some (of_bool (bit b (nat (7 - p))), \<lparr>nb_data = b # xs, nb_size = 4, nb_bit_pos = p + 1\<rparr>)"
  by (simp add: NALBitReader_read_bit_def in_int_def)

lemma first_byte_prefix:
  "0 \<le> p \<Longrightarrow> p < 8 \<Longrightarrow> ue_prefix \<lparr>nb_data = b # xs, nb_size = 4, nb_bit_pos = p\<rparr> z
     = (if bit b (nat (7 - p)) then Some (Some (z + 1), \<lparr>nb_data = b # xs, nb_size = 4, nb_bit_pos = p + 1\<rparr>)
        else ue_prefix \<lparr>nb_data = b # xs, nb_size = 4, nb_bit_pos = p + 1\<rparr> (z + 1))"
  by (subst ue_prefix.simps) (simp add: first_byte_bit)

lemma read_bits_unroll:
  "NALBitReader_read_bits br 0 = Some (0, br)"
  "NALBitReader_read_bits br 2 = nal_read_bits_loop (Suc (Suc 0)) 0 br"
  "NALBitReader_read_bits br 3 = nal_read_bits_loop (Suc (Suc (Suc 0))) 0 br"
  by (simp_all add: NALBitReader_read_bits_def eval_nat_numeral)

lemma slice_header_byte:
  "read_slice_type (0x88 # xs) = Some 7" "read_slice_type (0x9A # xs) = Some 5"
  by (simp_all add: read_slice_type_def NALBitReader_init_def NALBitReader_read_ue_def first_byte_prefix first_byte_bit
      read_bits_unroll in_int_def Let_def)

lemma sample_slices_types:
  "read_slice_type (drop (4 + 4) sample_slices) = Some 7" "read_slice_type (drop (9 + 4) sample_slices) = Some 5"
  by (simp_all add: sample_slices_def slice_header_byte)

theorem h264_slice_counter_counts_witness:
  "\<exists>s r. h264_slice_counter_write (h264_slice_counter_reset \<lparr>hc_pid = 0x31, hc_slice = [], nextHistoryPos = 5, sliceHistory = []\<rparr>)
       sample_slices 1 = Some s
    \<and> h264_slice_counter_query s = Some r \<and> res_i r = 1 \<and> res_p r = 1 \<and> res_b r = 0
    \<and> res_sliceHistory r = replicate 18 (CHR '' '') @ ''IP'' @ [CHR 0x00]"
proof -
  let ?m = "\<lparr>hc_pid = 0, hc_slice = [], nextHistoryPos = 5, sliceHistory = []\<rparr>"
  have p: "counted_packets 0x31 sample_slices 1 = [sample_slices]" "188 * 1 \<le> length sample_slices"
    by (simp_all add: counted_packets_def sample_slices_def ltntstools_pid_def)
  have s: "packet_slices sample_slices = [7, 5]"
    using sample_slices_types by (simp add: packet_slices_def sample_slices_units)
  have r: "readable sample_slices" using sample_slices_types by (simp add: readable_def sample_slices_units)
  have a: "h264_slice_counter_alloc (Some ?m) 0x31 = Some (h264_slice_counter_reset
      \<lparr>hc_pid = 0x31, hc_slice = [], nextHistoryPos = 5, sliceHistory = []\<rparr>)"
    by (simp add: h264_slice_counter_alloc_def)
  have h: "drop (length [7, 5 :: int]) (replicate 20 (CHR '' '') @ map (\<lambda>st. h264_letters ! nat st) [7, 5])
      = replicate 18 (CHR '' '') @ ''IP''"
    by (simp add: h264_letters_def)
  have c: "\<forall>p \<in> set (counted_packets 0x31 sample_slices 1). readable p"
      "[7, 5] = concat (map packet_slices (counted_packets 0x31 sample_slices 1))"
    using p r s by simp_all
  note w = h264_slice_counter_counts [OF a _ p(2) c, unfolded h]
  show ?thesis using w by auto
qed

subsection \<open>SEI units and what is undefined\<close>

text \<open>The SEI headers of the units, when their type bytes are in the buffer and there are at most as many as the array holds.\<close>

lemma sei_loop_filter:
  assumes "\<forall>h \<in> set hs. is_sei (nalType h) \<longrightarrow> nal_ptr h + 4 < length buf \<and> name (uint (buf ! (nal_ptr h + 4))) \<noteq> None"
    "length a + length (filter (\<lambda>h. is_sei (nalType h)) hs) \<le> room"
  shows "sei_loop is_sei name buf room hs a = Some (a @ map (\<lambda>h. \<lparr>sei_ptr = nal_ptr h, sei_lengthBytes = nal_lengthBytes h,
      seiType = buf ! (nal_ptr h + 4), seiName = name (uint (buf ! (nal_ptr h + 4)))\<rparr>) (filter (\<lambda>h. is_sei (nalType h)) hs))"
  using assms by (induction hs arbitrary: a) auto

text \<open>One more writes behind the array.\<close>

lemma sei_loop_overrun:
  "length a \<le> room \<Longrightarrow> room < length a + length (filter (\<lambda>h. is_sei (nalType h)) hs) \<Longrightarrow> sei_loop is_sei name buf room hs a = None"
proof (induction hs arbitrary: a)
  case (Cons h hs)
  show ?case
  proof (cases "is_sei (nalType h) \<and> length a < room")
    case True
    then show ?thesis using Cons.prems Cons.IH [of "a @ [x]" for x] by (auto simp: bind_eq_None_conv)
  next
    case False
    then show ?thesis using Cons by (auto simp: bind_eq_None_conv)
  qed
qed simp

lemma h264_sei_overrun:
  "64 < length (filter (\<lambda>h. nalType h = 6) nals) \<Longrightarrow>
     ltn_sei_h264_find_headers alloc buf (Some nals) (length nals) True = None"
  using sei_loop_overrun [of "[]" 64 "\<lambda>t. t = 6" nals] sei_loop_overrun [of "[]" 0 "\<lambda>t. t = 6" nals]
  by (cases "filter (\<lambda>h. nalType h = 6) nals") (auto simp: ltn_sei_h264_find_headers_def MAX_SEI_ITEMS_def)

text \<open>
  A slice header that the reader cannot decode gives the type -1, which is below the number of types:
  the counter's entry -1 is written. A start code in the last three bytes makes the search read behind the
  buffer, and a unit type above 21 reads behind the name table.
\<close>

lemma undecodable_slice_undefined:
  "unit_start pkt k \<Longrightarrow> k + 4 \<le> length pkt \<Longrightarrow> has_slice_header (unat (pkt ! (k + 3) AND 0x1f)) \<Longrightarrow>
     read_slice_type (drop (k + 4) pkt) = Some (-1) \<Longrightarrow> h264_count_unit pkt s k = None"
  by (simp add: h264_count_unit_def MAX_H264_SLICE_TYPES_def h264_slice_counter_update_def rd_int_def)

lemma h264_name_undefined: "21 < ty \<Longrightarrow> h264Nals_lookupName ty = None"
  by (simp add: h264Nals_lookupName_def h264Nals_def rd_def)

lemma trailing_start_code_undefined: "ltn_nal_h264_find_headers (\<lambda>_. True) [b, 0, 0, 1] 4 = None"
proof -
  have "ltn_memmem [b, 0, 0, 1] [0, 0, 1] = Some 1"
    by (cases "b = 0") (simp_all add: ltn_memmem_first occurs_def upt_rec)
  then show ?thesis
    by (simp add: ltn_nal_h264_find_headers_def h264_find_loop.simps [of _ _ 4 0] rd_def)
qed

text \<open>An emulation prevention byte with at least two bytes behind it makes \<open>memcpy\<close> overlap.\<close>

lemma c_memcpy_overlap: "2 \<le> n \<Longrightarrow> c_memcpy p i (i + 1) n = None"
  by (simp add: c_memcpy_def)

lemma strip_loop_overlap:
  assumes "i \<le> k" "k < i + n" "k + 4 < len" "len \<le> length p" "take 3 (drop k p) = [0, 0, 3]"
  shows "strip_loop p len i n dropped = None"
  using assms
proof (induction n arbitrary: i dropped)
  case (Suc n)
  then have r: "i + 2 < len" "rdn p i 3 = Some (take 3 (drop i p))" by simp_all
  show ?case
  proof (cases "take 3 (drop i p) = [0, 0, 3]")
    case True
    have "c_memcpy p (i + 2) (i + 3) (len - i - 3) = None"
      using c_memcpy_overlap [of "len - i - 3" p "i + 2"] Suc.prems by (simp add: numeral_3_eq_3)
    then show ?thesis using r True by simp
  next
    case False
    then have "i \<noteq> k" using Suc.prems(5) by auto
    then show ?thesis using r False Suc.IH [of "i + 1" dropped] Suc.prems by simp
  qed
qed simp

lemma strip_emulation_undefined:
  assumes "1 \<le> k" "k + 4 < unat len" "unat len \<le> length p" "take 3 (drop k p) = [0, 0, 3]"
  shows "ltn_nal_h264_strip_emulation_prevention (Some (Some p, len)) = None"
proof -
  have "\<not> len < 4" using assms(1,2) by (simp add: word_less_nat_alt)
  then show ?thesis
    using strip_loop_overlap [of 1 k "unat len - 1" "unat len" p 0] assms
    by (simp add: ltn_nal_h264_strip_emulation_prevention_def)
qed
end
