(* ===== verification/NalUnits265.thy ===== *)
theory NalUnits265
  imports NalUnits
begin

text \<open>
  H.265 NAL units: \<open>src/src/nal_h265.c\<close> and \<open>nal_h265.h\<close>. The conventions are those of
  the theory of H.264 units, whose counter the slice counter here was copied from. The two searches for a
  header are the same text; the array of headers has 64 entries and does not grow. What \<open>printf\<close>
  writes is not part of the model, what it reads is.
\<close>

unbundle bit_operations_syntax

subsection \<open>Units and names\<close>

text \<open>The same text as the H.264 search.\<close>

definition ltn_nal_h265_findHeader :: "bytes \<Rightarrow> int \<Rightarrow> int \<Rightarrow> nat option mem" where
  "ltn_nal_h265_findHeader buf lengthBytes offset =
     (if offset + 1 \<ge> lengthBytes - 3 then Some None
      else if offset + 1 < 0 then None
      else find_header_loop buf (nat (offset + 1)) (nat (lengthBytes - 3 - (offset + 1))))"

lemma findHeader_same: "ltn_nal_h265_findHeader = ltn_nal_h264_findHeader"
  by (simp add: fun_eq_iff ltn_nal_h265_findHeader_def ltn_nal_h264_findHeader_def)

text \<open>Types 24 to 31 have no entry, and most types no \<open>type\<close> text.\<close>

definition hevcNals :: "(string \<times> string option) option list" where
  "hevcNals =
     [Some (''TRAIL_N'', Some ''AUTO''), Some (''TRAIL_R'', Some ''IDR''), Some (''TSA_N'', Some ''I''),
      Some (''TSA_R'', Some ''P''), Some (''STSA_N'', Some ''BREF''), Some (''STSA_R'', Some ''B''),
      Some (''RADL_N'', None), Some (''RADL_R'', None), Some (''RASL_N'', None), Some (''RASL_R'', None),
      Some (''RSV_VCL_N10'', None), Some (''RSV_VCL_R11'', None), Some (''RSV_VCL_N12'', None),
      Some (''RSV_VCL_R13'', None), Some (''RSV_VCL_N14'', None), Some (''RSV_VCL_R15'', None),
      Some (''BLA_W_LP'', None), Some (''BLA_W_RADL'', None), Some (''BLA_N_LP'', None),
      Some (''IDR_W_RADL'', Some ''IDR''), Some (''IDR_N_LP'', None), Some (''CRA'', None),
      Some (''RSV_IRAP_VCL22'', None), Some (''RSV_IRAP_VCL23'', None),
      None, None, None, None, None, None, None, None,
      Some (''VPS'', None), Some (''SPS'', None), Some (''PPS'', None), Some (''AUD'', None), Some (''EOS'', None),
      Some (''EOB'', None), Some (''FD filler_data_rbsp()'', None), Some (''PREFIX_SEI'', None), Some (''SUFFIX_SEI'', None)]"

definition h265Nals_lookupName :: "int \<Rightarrow> string option mem" where
  "h265Nals_lookupName ty = map_option (map_option fst) (rd_int hevcNals ty)"

definition h265Nals_lookupType :: "int \<Rightarrow> string option mem" where
  "h265Nals_lookupType ty = map_option (\<lambda>e. Option.bind e snd) (rd_int hevcNals ty)"

definition h265_type :: "u8 \<Rightarrow> u8" where
  "h265_type b = drop_bit 1 b AND 0x3f"

text \<open>
  The headers of a buffer. The 65th header is written behind the array. When there is none, the length of the
  first entry is computed from a pointer that was never set, which is undefined.
\<close>

function h265_find_loop :: "bytes \<Rightarrow> int \<Rightarrow> int \<Rightarrow> nal_headers_s list \<Rightarrow> nal_headers_s list mem" where
  "h265_find_loop buf n offset a =
     (case ltn_nal_h265_findHeader buf n offset of
        None \<Rightarrow> None
      | Some None \<Rightarrow> Some a
      | Some (Some k) \<Rightarrow>
          if 64 \<le> length a then None
          else do { b \<leftarrow> rd buf (k + 3);
                    name \<leftarrow> h265Nals_lookupName (uint (h265_type b));
                    h265_find_loop buf n (int k)
                      (close_last a k @ [\<lparr>nal_ptr = k, nal_lengthBytes = 0, nalType = h265_type b, nalName = name\<rparr>]) })"
  by pat_completeness auto
termination
  by (relation "measure (\<lambda>(buf, n, offset, a). nat (n - offset))") (auto simp: findHeader_same dest!: findHeader_bound)

declare h265_find_loop.simps [simp del]

definition ltn_nal_h265_find_headers :: "allocator \<Rightarrow> bytes \<Rightarrow> int \<Rightarrow> nal_headers_s list option mem" where
  "ltn_nal_h265_find_headers alloc buf lengthBytes =
     (if \<not> alloc (nal_headers_size * 64) then Some None
      else do { a \<leftarrow> h265_find_loop buf lengthBytes (-1) [];
                if a = [] then None else Some (Some (close_last a (nat lengthBytes))) })"

definition ltn_nal_h265_findNalTypes :: "allocator \<Rightarrow> bytes \<Rightarrow> int \<Rightarrow> string option mem" where
  "ltn_nal_h265_findNalTypes alloc buf lengthBytes =
     (if \<not> alloc 128 then None
      else do { (arr, items) \<leftarrow>
                  find_nal_types_loop (\<lambda>b. uint (drop_bit 1 b AND 0x3f)) h265Nals_lookupName buf lengthBytes (-1) [] 0;
                Some (if items = 0 then None else Some arr) })"

subsection \<open>The slice counter\<close>

definition MAX_H265_SLICE_TYPES :: nat where
  "MAX_H265_SLICE_TYPES = 3"

record h265_slice_data_s =
  sd5_slice_type :: u32
  sd5_count :: u64
  sd5_name :: string

definition slice_defaults5 :: "h265_slice_data_s list" where
  "slice_defaults5 =
     [\<lparr>sd5_slice_type = 0, sd5_count = 0, sd5_name = ''B''\<rparr>, \<lparr>sd5_slice_type = 1, sd5_count = 0, sd5_name = ''P''\<rparr>,
      \<lparr>sd5_slice_type = 2, sd5_count = 0, sd5_name = ''I''\<rparr>]"

definition h265_slice_name_ascii :: "int \<Rightarrow> string mem" where
  "h265_slice_name_ascii slice_type = map_option sd5_name (rd_int slice_defaults5 (c_mod slice_type 3))"

definition H265_SLICE_COUNTER_HISTORY_LENGTH :: nat where
  "H265_SLICE_COUNTER_HISTORY_LENGTH = 20"

record h265_slice_counter_s =
  h5_pid :: u16
  h5_slice :: "h265_slice_data_s list"
  h5_nextHistoryPos :: int
  h5_sliceHistory :: string
  spsValid :: u32
  sps_video_parameter_set_id :: u32
  sps_max_sub_layers_minus1 :: u32
  sps_temporal_id_nesting_flag :: u32
  ppsValid :: u32
  pps_pic_parameter_set_id :: u32
  pps_seq_parameter_set_id :: u32
  dependent_slice_segments_enabled_flag :: u32
  output_flag_present_flag :: u32
  num_extra_slice_header_bits :: u32

text \<open>The zero that ends the history is inside the ring of 20 letters.\<close>

definition h265_slice_counter_reset :: "h265_slice_counter_s \<Rightarrow> h265_slice_counter_s" where
  "h265_slice_counter_reset s =
     s\<lparr>h5_slice := slice_defaults5,
       h5_sliceHistory := (replicate H265_SLICE_COUNTER_HISTORY_LENGTH (CHR '' ''))
                            [H265_SLICE_COUNTER_HISTORY_LENGTH - 1 := CHR 0x00]\<rparr>"

text \<open>As for H.264, \<open>m\<close> is the memory of the allocator; the parameter set fields keep its content too.\<close>

definition h265_slice_counter_alloc :: "h265_slice_counter_s option \<Rightarrow> u16 \<Rightarrow> h265_slice_counter_s mem" where
  "h265_slice_counter_alloc m pid =
     do { s \<leftarrow> m; Some (h265_slice_counter_reset (s\<lparr>h5_pid := pid\<rparr>)) }"

definition h265_slice_counter_get_pid :: "h265_slice_counter_s \<Rightarrow> u16" where
  "h265_slice_counter_get_pid s = h5_pid s"

definition h265_slice_counter_reset_pid :: "h265_slice_counter_s \<Rightarrow> u16 \<Rightarrow> h265_slice_counter_s" where
  "h265_slice_counter_reset_pid s pid = h265_slice_counter_reset (s\<lparr>h5_pid := pid\<rparr>)"

definition h265_slice_counter_update :: "h265_slice_counter_s \<Rightarrow> int \<Rightarrow> h265_slice_counter_s mem" where
  "h265_slice_counter_update s slice_type =
     do { d \<leftarrow> rd_int (h5_slice s) slice_type;
          c \<leftarrow> rd (sd5_name d @ [CHR 0x00]) 0;
          (h, pos) \<leftarrow> put_history (h5_sliceHistory s) (h5_nextHistoryPos s) H265_SLICE_COUNTER_HISTORY_LENGTH c;
          Some (s\<lparr>h5_slice := (h5_slice s)[nat slice_type := d\<lparr>sd5_count := sd5_count d + 1\<rparr>],
                  h5_sliceHistory := h, h5_nextHistoryPos := pos\<rparr>) }"

text \<open>The cases of the \<open>switch\<close>: \<open>bs\<close> is the buffer from the byte behind the unit's first header byte on.\<close>

definition read_sps :: "h265_slice_counter_s \<Rightarrow> bytes \<Rightarrow> h265_slice_counter_s mem" where
  "read_sps s bs =
     (if spsValid s \<noteq> 0 then Some s
      else do { let br = NALBitReader_init bs 4;
                (v, br) \<leftarrow> NALBitReader_read_bits br 4;
                (m, br) \<leftarrow> NALBitReader_read_bits br 3;
                (t, br) \<leftarrow> NALBitReader_read_bits br 1;
                Some (s\<lparr>sps_video_parameter_set_id := v, sps_max_sub_layers_minus1 := m,
                        sps_temporal_id_nesting_flag := t, spsValid := 1\<rparr>) })"

definition read_pps :: "h265_slice_counter_s \<Rightarrow> bytes \<Rightarrow> h265_slice_counter_s mem" where
  "read_pps s bs =
     (if ppsValid s \<noteq> 0 then Some s
      else do { let br = NALBitReader_init bs 4;
                (p, br) \<leftarrow> NALBitReader_read_ue br;
                (q, br) \<leftarrow> NALBitReader_read_ue br;
                (d, br) \<leftarrow> NALBitReader_read_bits br 1;
                (f, br) \<leftarrow> NALBitReader_read_bits br 1;
                (e, br) \<leftarrow> NALBitReader_read_bits br 3;
                Some (s\<lparr>pps_pic_parameter_set_id := word_of_int p, pps_seq_parameter_set_id := word_of_int q,
                        dependent_slice_segments_enabled_flag := d, output_flag_present_flag := f,
                        num_extra_slice_header_bits := e, ppsValid := 1\<rparr>) })"

text \<open>The loop that skips the reserved bits one by one.\<close>

fun skip_reserved :: "nat \<Rightarrow> NALBitReader \<Rightarrow> NALBitReader mem" where
  "skip_reserved 0 br = Some br"
| "skip_reserved (Suc n) br = do { br \<leftarrow> NALBitReader_skip_bits br 1; skip_reserved n br }"

text \<open>The slice type of a segment header, -1 for a dependent segment.\<close>

definition read_segment_type :: "h265_slice_counter_s \<Rightarrow> nat \<Rightarrow> bytes \<Rightarrow> int mem" where
  "read_segment_type s ty bs =
     do { let br = NALBitReader_init bs 4;
          (first, br) \<leftarrow> NALBitReader_read_bits br 1;
          br \<leftarrow> (if 16 \<le> ty \<and> ty \<le> 23 then map_option snd (NALBitReader_read_bits br 1) else Some br);
          (pps_id, br) \<leftarrow> NALBitReader_read_ue br;
          (dependent, br) \<leftarrow>
            (if first = 0
             then do { (dependent, br) \<leftarrow> (if dependent_slice_segments_enabled_flag s \<noteq> 0
                                           then NALBitReader_read_bits br 1 else Some (0, br));
                       (address, br) \<leftarrow> NALBitReader_read_bits br 1;
                       Some (dependent, br) }
             else Some (0, br));
          if dependent = 0
          then do { br \<leftarrow> skip_reserved (unat (num_extra_slice_header_bits s)) br;
                    map_option fst (NALBitReader_read_ue br) }
          else Some (-1) }"

definition is_segment :: "nat \<Rightarrow> bool" where
  "is_segment ty \<longleftrightarrow> ty \<le> 9 \<or> 16 \<le> ty \<and> ty \<le> 21"

text \<open>A type that is not counted is printed with 8 bytes of the packet and 12 of the unit.\<close>

definition h265_count_unit :: "bytes \<Rightarrow> h265_slice_counter_s \<Rightarrow> nat \<Rightarrow> h265_slice_counter_s mem" where
  "h265_count_unit pkt s offset =
     do { t \<leftarrow> rd pkt (offset + 3);
          let ty = unat (h265_type t);
          let bs = drop (offset + 4) pkt;
          if ty = 33 then read_sps s bs
          else if ty = 34 then read_pps s bs
          else if is_segment ty then
            if ppsValid s = 0 then Some s
            else do { slice_type \<leftarrow> read_segment_type s ty bs;
                      if slice_type < int MAX_H265_SLICE_TYPES then h265_slice_counter_update s slice_type
                      else do { need (offset + 12) pkt; Some s } }
          else Some s }"

definition h265_slice_counter_write_packet :: "h265_slice_counter_s \<Rightarrow> bytes \<Rightarrow> h265_slice_counter_s mem" where
  "h265_slice_counter_write_packet s pkt = packet_units_loop h265_count_unit pkt s (-1)"

fun h265_write_loop :: "bytes \<Rightarrow> nat \<Rightarrow> nat \<Rightarrow> h265_slice_counter_s \<Rightarrow> h265_slice_counter_s mem" where
  "h265_write_loop pkts i 0 s = Some s"
| "h265_write_loop pkts i (Suc n) s =
     do { let pkt = drop (i * 188) pkts;
          need 3 pkt;
          let pid = ltntstools_pid pkt;
          s \<leftarrow> (if h5_pid s = 0x2000 \<or> pid = h5_pid s then h265_slice_counter_write_packet s pkt else Some s);
          h265_write_loop pkts (i + 1) n s }"

definition h265_slice_counter_write :: "h265_slice_counter_s \<Rightarrow> bytes \<Rightarrow> int \<Rightarrow> h265_slice_counter_s mem" where
  "h265_slice_counter_write s pkts pktCount = h265_write_loop pkts 0 (nat pktCount) s"

text \<open>The fields \<open>si\<close> and \<open>sp\<close> of the caller's results are left as they are.\<close>

record h265_slice_counter_results_s =
  res5_i :: u64
  res5_b :: u64
  res5_p :: u64
  res5_si :: u64
  res5_sp :: u64
  res5_sliceHistory :: string

definition h265_slice_counter_query ::
  "h265_slice_counter_s \<Rightarrow> h265_slice_counter_results_s \<Rightarrow> h265_slice_counter_results_s mem" where
  "h265_slice_counter_query s results =
     do { cs \<leftarrow> get_history (h5_sliceHistory s) (h5_nextHistoryPos s)
                 H265_SLICE_COUNTER_HISTORY_LENGTH H265_SLICE_COUNTER_HISTORY_LENGTH;
          need MAX_H265_SLICE_TYPES (h5_slice s);
          let n = (\<lambda>k. sd5_count (h5_slice s ! k));
          Some (results\<lparr>res5_i := n 2, res5_b := n 0, res5_p := n 1, res5_sliceHistory := cs @ [CHR 0x00]\<rparr>) }"

subsection \<open>SEI messages\<close>

text \<open>The table has 256 entries; the ones that are not listed have no name.\<close>

definition h265SEIs :: "(nat \<times> string) list" where
  "h265SEIs =
     [(0, ''buffer_period''), (1, ''pic_timing''), (2, ''pan_scan_rect''), (3, ''filler_payload''),
      (4, ''user_data_registered_itu_t_t35''), (5, ''user_data_unregistered''), (6, ''recovery_point''),
      (9, ''scene_info''), (15, ''picture_snapshot''), (16, ''progressive_refinement_segment_start''),
      (17, ''progressive_refinement_segment_end''), (19, ''film_grain_characteristics''),
      (22, ''post_filter_hint''), (23, ''tone_mapping_info''), (45, ''frame_packing_arrangement''),
      (47, ''display_orientation''), (56, ''green_metadata''), (128, ''structure_of_pictures_info''),
      (129, ''active_parameter_sets''), (130, ''decoding_unit_info''), (131, ''temporal_sub_layer_zero_idx''),
      (133, ''scalable_nesting''), (134, ''region_refresh_info''), (135, ''no_display''), (136, ''time_code''),
      (137, ''mastering_display_colour_volume''), (138, ''segmented_rect_frame_packing_arrangement''),
      (139, ''temporal_motion_constrained_tile_sets''), (140, ''chroma_resampling_filter_hint''),
      (141, ''knee_function_info''), (142, ''colour_remapping_info''),
      (143, ''deinterlaced_field_identification''), (144, ''content_light_level_info''),
      (145, ''dependent_rap_indication''), (146, ''coded_region_completion''),
      (147, ''alternative_transfer_characteristics''), (148, ''ambient_viewing_environment''),
      (149, ''content_colour_volume''), (150, ''equirectangular_projection''), (151, ''cubemap_projection''),
      (154, ''sphere_rotation''), (155, ''regionwise_packing''), (156, ''omni_viewport''),
      (157, ''regional_nesting''), (158, ''mcts_extraction_info_sets''),
      (159, ''mcts_extraction_info_nesting''), (160, ''layers_not_present''),
      (161, ''inter_layer_constrained_tile_sets''), (162, ''bsp_nesting''),
      (163, ''bsp_initial_arrival_time''), (164, ''sub_bitstream_property''), (165, ''alpha_channel_info''),
      (166, ''overlay_info''), (167, ''temporal_mv_prediction_constraints''), (168, ''frame_field_info''),
      (176, ''three_dimensional_reference_displays_info''), (177, ''depth_representation_info''),
      (178, ''multiview_scene_info''), (179, ''multiview_acquisition_info''),
      (180, ''multiview_view_position''), (181, ''alternative_depth_info''),
      (255, ''undefined in spec ITU-T H.265 v5 (02/2018)'')]"

definition ltn_sei_h265_lookupName :: "int \<Rightarrow> string mem" where
  "ltn_sei_h265_lookupName ty =
     (if ty < 0 \<or> 255 < ty then None
      else case map_of h265SEIs (nat ty) of
             Some name \<Rightarrow> Some name
           | None \<Rightarrow> map_of h265SEIs 255)"

definition ltn_sei_h265_find_headers ::
  "allocator \<Rightarrow> bytes \<Rightarrow> nal_headers_s list option \<Rightarrow> nat \<Rightarrow> bool \<Rightarrow> (int \<times> sei_headers_s list) mem" where
  "ltn_sei_h265_find_headers alloc buf nals nalArrayLength arrayLength =
     (if \<not> arrayLength then Some (-1, [])
      else case nals of
             None \<Rightarrow> Some (-1, [])
           | Some nals \<Rightarrow>
               do { hs \<leftarrow> rdn nals 0 nalArrayLength;
                    a \<leftarrow> sei_loop (\<lambda>t. t = 39 \<or> t = 40) ltn_sei_h265_lookupName buf
                           (if alloc (nal_headers_size * MAX_SEI_ITEMS) then MAX_SEI_ITEMS else 0) hs [];
                    Some (0, a) })"

subsection \<open>Where the units are\<close>

lemma h265_name: "ty \<le> 40 \<Longrightarrow> h265Nals_lookupName (uint (ty :: u8)) = Some (the (h265Nals_lookupName (uint ty)))"
proof -
  assume "ty \<le> 40"
  then have "nat (uint ty) < length hevcNals" by (simp add: hevcNals_def word_le_nat_alt)
  then show ?thesis by (simp add: h265Nals_lookupName_def rd_int_def not_less)
qed

lemma h265_name_past: "40 < ty \<Longrightarrow> h265Nals_lookupName (uint (ty :: u8)) = None"
proof -
  assume "40 < ty"
  then have "length hevcNals \<le> nat (uint ty)" by (simp add: hevcNals_def word_less_nat_alt)
  then show ?thesis by (simp add: h265Nals_lookupName_def rd_int_def rd_def not_less)
qed

text \<open>Units whose type the table of names has no row for.\<close>

definition unnamed :: "bytes \<Rightarrow> nat list \<Rightarrow> bool" where
  "unnamed buf ps \<longleftrightarrow> (\<exists>p \<in> set ps. 40 < h265_type (buf ! (p + 3)))"

lemma unnamed_Cons: "unnamed buf (p # ps) \<longleftrightarrow> 40 < h265_type (buf ! (p + 3)) \<or> unnamed buf ps"
  by (auto simp: unnamed_def)

lemma length_close_last [simp]: "length (close_last a p) = length a"
  by (simp add: close_last_def)

lemma h265_find_loop_units:
  assumes "n \<le> int (length buf)" "-1 \<le> offset" "length a \<le> 64"
    "ps = filter (unit_start buf) [nat (offset + 1) ..< nat (n - 3)]"
  shows "h265_find_loop buf n offset a =
    (if 64 < length a + length ps \<or> unnamed buf ps then None else Some (fold (add_unit h265_type h265Nals_lookupName buf) ps a))"
  using assms
proof (induction buf n offset a arbitrary: ps rule: h265_find_loop.induct)
  case (1 buf n offset a)
  have h: "ltn_nal_h265_findHeader buf n offset = Some (find (unit_start buf) [nat (offset + 1) ..< nat (n - 3)])"
    using findHeader_find "1.prems"(1,2) by (simp add: findHeader_same)
  have ps: "ps = (case find (unit_start buf) [nat (offset + 1) ..< nat (n - 3)] of None \<Rightarrow> []
      | Some k \<Rightarrow> k # filter (unit_start buf) [Suc k ..< nat (n - 3)])"
    using filter_find "1.prems"(4) by simp
  show ?case
  proof (cases "find (unit_start buf) [nat (offset + 1) ..< nat (n - 3)]")
    case None
    then show ?thesis using h ps "1.prems"(3) by (subst h265_find_loop.simps) (simp add: unnamed_def)
  next
    case (Some k)
    then have k: "unit_start buf k" "k < nat (n - 3)" by (auto simp: find_Some_iff)
    let ?qs = "filter (unit_start buf) [Suc k ..< nat (n - 3)]"
    have ps: "ps = k # ?qs" using ps Some by simp
    show ?thesis
    proof (cases "64 \<le> length a")
      case True
      then show ?thesis using h Some ps by (subst h265_find_loop.simps) simp
    next
      case False
      have b: "rd buf (k + 3) = Some (buf ! (k + 3))" using k(2) "1.prems"(1) by simp
      show ?thesis
      proof (cases "40 < h265_type (buf ! (k + 3))")
        case True
        then show ?thesis
          using h Some False b h265_name_past by (subst h265_find_loop.simps) (simp add: ps unnamed_Cons)
      next
        case named: False
        then obtain N where nm: "h265Nals_lookupName (uint (h265_type (buf ! (k + 3)))) = Some N"
          using h265_name by (meson not_less)
        then have u: "unit_at h265_type h265Nals_lookupName buf k 0 = \<lparr>nal_ptr = k, nal_lengthBytes = 0,
            nalType = h265_type (buf ! (k + 3)), nalName = N\<rparr>"
          by (simp add: unit_at_def)
        have "h265_find_loop buf n (int k) (add_unit h265_type h265Nals_lookupName buf k a) =
            (if 64 < length (add_unit h265_type h265Nals_lookupName buf k a) + length ?qs \<or> unnamed buf ?qs then None
             else Some (fold (add_unit h265_type h265Nals_lookupName buf) ?qs (add_unit h265_type h265Nals_lookupName buf k a)))"
          unfolding u using False "1.prems"(1)
          by (intro "1.IH" [OF h [unfolded Some] refl False b nm]) (simp_all add: nat_add_distrib)
        moreover have "h265_find_loop buf n offset a = h265_find_loop buf n (int k) (add_unit h265_type h265Nals_lookupName buf k a)"
          using h Some False b nm by (subst h265_find_loop.simps) (simp add: u)
        ultimately show ?thesis using named by (simp add: ps unnamed_Cons)
      qed
    qed
  qed
qed

text \<open>
  C37: Finding the NAL units of an H.265 buffer. Given memory, \<open>ltn_nal_h265_find_headers\<close> returns
  one header for each start code whose forbidden bit is clear, with position, type, name and the
  distance to the next or to the end. Its array holds 64 headers: a buffer with more units is
  written past the array; a buffer with none makes it use a pointer that was never set; and the
  name of a unit of type 41 to 63 is read past the end of the table of names. Exactly these three
  cases are undefined.
\<close>

theorem h265_units_found:
  assumes "alloc (nal_headers_size * 64)" "n \<le> length buf"
    "ps = filter (unit_start buf) [0 ..< n - 3]"
  shows "ltn_nal_h265_find_headers alloc buf (int n) =
    (if ps = [] \<or> 64 < length ps \<or> (\<exists>p \<in> set ps. 40 < h265_type (buf ! (p + 3))) then None
     else Some (Some (units h265_type h265Nals_lookupName buf ps n)))"
proof -
  have n: "nat (int n - 3) = n - 3" by simp
  have "h265_find_loop buf (int n) (-1) [] =
      (if 64 < length ps \<or> unnamed buf ps then None else Some (fold (add_unit h265_type h265Nals_lookupName buf) ps []))"
    using h265_find_loop_units [of "int n" buf "-1" "[]" ps] assms(2,3) n by simp
  moreover have "fold (add_unit h265_type h265Nals_lookupName buf) ps [] = [] \<longleftrightarrow> ps = []"
    by (cases ps rule: rev_cases) simp_all
  ultimately show ?thesis using assms(1) unfolding unnamed_def by (simp add: ltn_nal_h265_find_headers_def fold_units)
qed

definition sample_units5 :: bytes where
  "sample_units5 = [0, 0, 1, 0x46, 1, 0x50, 0, 0, 1, 0xE0, 0, 0, 0, 1, 0x26, 1, 0xAF]"

theorem h265_units_found_witness:
  "ltn_nal_h265_find_headers (\<lambda>_. True) sample_units5 (int 17) =
     Some (Some [\<lparr>nal_ptr = 0, nal_lengthBytes = 11, nalType = 35, nalName = Some ''AUD''\<rparr>,
                 \<lparr>nal_ptr = 11, nal_lengthBytes = 6, nalType = 19, nalName = Some ''IDR_W_RADL''\<rparr>])"
proof -
  have f: "filter (unit_start sample_units5) [0 ..< 17 - 3] = [0, 11]"
    by (simp add: upt_rec unit_start_def start_code_at_def sample_units5_def)
  have l: "17 \<le> length sample_units5" by (simp add: sample_units5_def)
  show ?thesis
    using h265_units_found [OF _ l f [symmetric], of "\<lambda>_. True"]
    by (simp add: units_def unit_at_def h265_type_def sample_units5_def h265Nals_lookupName_def rd_int_def hevcNals_def)
qed

subsection \<open>The slice counter's state\<close>

definition h265_letters :: string where
  "h265_letters = ''BPI''"

definition counter5_wf :: "h265_slice_counter_s \<Rightarrow> bool" where
  "counter5_wf s \<longleftrightarrow> 0 \<le> h5_nextHistoryPos s \<and> length (h5_sliceHistory s) = 20 \<and> map sd5_name (h5_slice s) = map sd5_name slice_defaults5"

definition slice_count5 :: "h265_slice_counter_s \<Rightarrow> nat \<Rightarrow> u64" where
  "slice_count5 s k = (if k < length (h5_slice s) then sd5_count (h5_slice s ! k) else 0)"

lemma default_names5: "map sd5_name slice_defaults5 = map (\<lambda>c. [c]) h265_letters"
  by (simp add: slice_defaults5_def h265_letters_def)

lemma named_slices5:
  assumes "map sd5_name sl = map (\<lambda>c. [c]) h265_letters"
  shows "length sl = 3" "i < 3 \<Longrightarrow> sd5_name (sl ! i) = [h265_letters ! i]"
proof -
  have "length (map sd5_name sl) = length (map (\<lambda>c. [c]) h265_letters)" by (simp only: assms)
  then show l: "length sl = 3" by (simp add: h265_letters_def)
  have n: "length h265_letters = 3" by (simp add: h265_letters_def)
  show "sd5_name (sl ! i) = [h265_letters ! i]" if "i < 3"
    using arg_cong [OF assms, of "\<lambda>xs. xs ! i"] that l n by simp
qed

text \<open>An update that returns was given a known type.\<close>

lemma update5_elim:
  assumes "h265_slice_counter_update s st = Some s'" "map sd5_name (h5_slice s) = map sd5_name slice_defaults5"
  obtains i where "st = int i" "i < 3" "c_mod (h5_nextHistoryPos s) 20 \<ge> 0" "nat (c_mod (h5_nextHistoryPos s) 20) < length (h5_sliceHistory s)"
    "s' = s\<lparr>h5_slice := (h5_slice s)[i := (h5_slice s ! i)\<lparr>sd5_count := sd5_count (h5_slice s ! i) + 1\<rparr>],
      h5_sliceHistory := (h5_sliceHistory s)[nat (c_mod (h5_nextHistoryPos s) 20) := h265_letters ! i],
      h5_nextHistoryPos := h5_nextHistoryPos s + 1\<rparr>"
proof -
  have n: "length (h5_slice s) = 3" "\<And>i. i < 3 \<Longrightarrow> sd5_name (h5_slice s ! i) = [h265_letters ! i]"
    using named_slices5 [of "h5_slice s"] assms(2) by (auto simp: default_names5)
  have "0 \<le> st" "nat st < 3"
    using assms(1) n(1) by (auto simp: h265_slice_counter_update_def rd_int_def rd_def split: if_splits)
  then show thesis
    using assms(1) n
    by (intro that [of "nat st"])
      (auto simp: h265_slice_counter_update_def rd_int_def put_history_def H265_SLICE_COUNTER_HISTORY_LENGTH_def not_le split: if_splits)
qed

interpretation hevc: slice_history h265_slice_counter_update counter5_wf h5_nextHistoryPos h5_sliceHistory slice_count5 h5_pid h265_letters
proof unfold_locales
  fix s st
  assume s: "counter5_wf s" "h5_nextHistoryPos s + 1 < 2 ^ 31" and st: "0 \<le> st" "st < int (length h265_letters)"
  then have n: "length (h5_slice s) = 3" "sd5_name (h5_slice s ! nat st) = [h265_letters ! nat st]"
    using named_slices5 [of "h5_slice s"] by (auto simp: counter5_wf_def default_names5 h265_letters_def)
  then have i: "nat st < length (h5_slice s)" using st by (simp add: h265_letters_def)
  then have u: "h265_slice_counter_update s st = Some (s\<lparr>
      h5_slice := (h5_slice s)[nat st := (h5_slice s ! nat st)\<lparr>sd5_count := sd5_count (h5_slice s ! nat st) + 1\<rparr>],
      h5_sliceHistory := (h5_sliceHistory s)[nat (h5_nextHistoryPos s) mod 20 := h265_letters ! nat st],
      h5_nextHistoryPos := h5_nextHistoryPos s + 1\<rparr>)" (is "_ = Some ?t")
    using s st n put_history_ok [of "h5_nextHistoryPos s" "h5_sliceHistory s"]
    by (simp add: h265_slice_counter_update_def rd_int_def counter5_wf_def H265_SLICE_COUNTER_HISTORY_LENGTH_def)
  have "counter5_wf ?t" using s(1) i by (simp add: counter5_wf_def map_update list_update_same_conv flip: nth_map [of _ _ sd5_name])
  moreover have "\<forall>k. slice_count5 ?t k = slice_count5 s k + of_bool (int k = st)"
    using i st(1) by (auto simp: slice_count5_def nth_list_update)
  ultimately show "\<exists>s'. h265_slice_counter_update s st = Some s' \<and> counter5_wf s' \<and> h5_nextHistoryPos s' = h5_nextHistoryPos s + 1
      \<and> h5_pid s' = h5_pid s \<and> h5_sliceHistory s' = (h5_sliceHistory s)[nat (h5_nextHistoryPos s) mod 20 := h265_letters ! nat st]
      \<and> (\<forall>k. slice_count5 s' k = slice_count5 s k + of_bool (int k = st))"
    using u by simp
qed (auto simp: counter5_wf_def)

text \<open>
  The type of the state: three entries with their types and names, a ring of 20 letters over the alphabet of
  slice names, blank and the zero of a reset. \<open>base\<close> is the history position at the last reset: the
  three counts add up to the steps the position has made since.
\<close>

definition hevc_typed :: "int \<Rightarrow> h265_slice_counter_s \<Rightarrow> bool" where
  "hevc_typed base s \<longleftrightarrow>
     map (\<lambda>d. (sd5_slice_type d, sd5_name d)) (h5_slice s) = [(0, ''B''), (1, ''P''), (2, ''I'')]
     \<and> length (h5_sliceHistory s) = 20 \<and> set (h5_sliceHistory s) \<subseteq> {CHR ''B'', CHR ''P'', CHR ''I'', CHR '' '', CHR 0x00}
     \<and> base \<le> h5_nextHistoryPos s
     \<and> sum_list (map sd5_count (h5_slice s)) = word_of_int (h5_nextHistoryPos s - base)"

lemma typed_names: "hevc_typed base s \<Longrightarrow> map sd5_name (h5_slice s) = map sd5_name slice_defaults5"
  using arg_cong [of "map (\<lambda>d. (sd5_slice_type d, sd5_name d)) (h5_slice s)" _ "map snd"]
  by (fastforce simp: hevc_typed_def slice_defaults5_def)

lemma typed_cong:
  "h5_slice s' = h5_slice s \<Longrightarrow> h5_sliceHistory s' = h5_sliceHistory s \<Longrightarrow> h5_nextHistoryPos s' = h5_nextHistoryPos s \<Longrightarrow>
     hevc_typed base s' \<longleftrightarrow> hevc_typed base s"
  by (simp add: hevc_typed_def)

lemma sum_counts_bump: "k < length xs \<Longrightarrow> sum_list (xs[k := xs ! k + 1]) = sum_list xs + (1 :: u64)"
proof (induction xs arbitrary: k)
  case (Cons x xs)
  then show ?case by (cases k) (simp_all add: algebra_simps)
qed simp

lemma typed_update:
  assumes "hevc_typed base s" "h265_slice_counter_update s st = Some s'"
  shows "hevc_typed base s'"
proof -
  obtain i where i: "i < 3" "s' = s\<lparr>h5_slice := (h5_slice s)[i := (h5_slice s ! i)\<lparr>sd5_count := sd5_count (h5_slice s ! i) + 1\<rparr>],
      h5_sliceHistory := (h5_sliceHistory s)[nat (c_mod (h5_nextHistoryPos s) 20) := h265_letters ! i],
      h5_nextHistoryPos := h5_nextHistoryPos s + 1\<rparr>"
    using update5_elim [OF assms(2) typed_names [OF assms(1)]] by metis
  let ?sl = "(h5_slice s)[i := (h5_slice s ! i)\<lparr>sd5_count := sd5_count (h5_slice s ! i) + 1\<rparr>]"
  have l: "i < length (h5_slice s)"
    using i(1) typed_names [OF assms(1)] named_slices5(1) [of "h5_slice s"] by (simp add: default_names5)
  then have "map (\<lambda>d. (sd5_slice_type d, sd5_name d)) ?sl = map (\<lambda>d. (sd5_slice_type d, sd5_name d)) (h5_slice s)"
    by (simp add: map_update list_update_same_conv)
  moreover have "sum_list (map sd5_count ?sl) = sum_list (map sd5_count (h5_slice s)) + 1"
    using l sum_counts_bump [of i "map sd5_count (h5_slice s)"] by (simp add: map_update)
  moreover have "h265_letters ! i \<in> {CHR ''B'', CHR ''P'', CHR ''I''}"
    using i(1) nth_mem [of i h265_letters] by (simp add: h265_letters_def)
  ultimately show ?thesis
    using assms(1) set_update_subset_insert [of "h5_sliceHistory s" "nat (c_mod (h5_nextHistoryPos s) 20)" "h265_letters ! i"]
    by (auto simp: hevc_typed_def i(2) algebra_simps)
qed

lemma typed_sps: "hevc_typed base s \<Longrightarrow> read_sps s bs = Some s' \<Longrightarrow> hevc_typed base s'"
  by (auto simp: read_sps_def bind_eq_Some_conv hevc_typed_def split: if_splits)

lemma typed_pps: "hevc_typed base s \<Longrightarrow> read_pps s bs = Some s' \<Longrightarrow> hevc_typed base s'"
  by (auto simp: read_pps_def bind_eq_Some_conv hevc_typed_def split: if_splits)

lemma typed_unit:
  assumes "hevc_typed base s" "h265_count_unit pkt s k = Some s'"
  shows "hevc_typed base s'"
proof -
  obtain t where t: "rd pkt (k + 3) = Some t" using assms(2) by (cases "rd pkt (k + 3)") (simp_all add: h265_count_unit_def)
  define ty where "ty = unat (h265_type t)"
  show ?thesis
  proof (cases "ty \<noteq> 33 \<and> ty \<noteq> 34 \<and> is_segment ty \<and> ppsValid s \<noteq> 0")
    case True
    then obtain st where "read_segment_type s ty (drop (k + 4) pkt) = Some st"
      using assms(2) t by (cases "read_segment_type s ty (drop (k + 4) pkt)") (simp_all add: h265_count_unit_def Let_def flip: ty_def)
    then have "s' = s \<or> h265_slice_counter_update s st = Some s'"
      using assms(2) t True by (simp add: h265_count_unit_def Let_def bind_eq_Some_conv split: if_splits flip: ty_def)
    then show ?thesis using assms(1) typed_update by blast
  next
    case False
    then have "s' = s \<or> read_sps s (drop (k + 4) pkt) = Some s' \<or> read_pps s (drop (k + 4) pkt) = Some s'"
      using assms(2) t by (simp add: h265_count_unit_def Let_def split: if_splits flip: ty_def)
    then show ?thesis using assms(1) typed_sps typed_pps by blast
  qed
qed

lemma packet_units_keep:
  assumes "\<forall>s k s'. P s \<longrightarrow> f pkt s k = Some s' \<longrightarrow> P s'" "P s" "packet_units_loop f pkt s offset = Some s'"
  shows "P s'"
  using assms
proof (induction f pkt s offset rule: packet_units_loop.induct)
  case (1 f pkt s offset)
  show ?case
    using "1.prems" "1.IH"
    unfolding packet_units_loop.simps [of f pkt s offset] by (auto split: if_splits option.splits)
qed

lemma typed_write_loop: "hevc_typed base s \<Longrightarrow> h265_write_loop pkts i n s = Some s' \<Longrightarrow> hevc_typed base s'"
proof (induction n arbitrary: i s)
  case (Suc n)
  then obtain t where "(if h5_pid s = 0x2000 \<or> ltntstools_pid (drop (i * 188) pkts) = h5_pid s
        then h265_slice_counter_write_packet s (drop (i * 188) pkts) else Some s) = Some t"
      "h265_write_loop pkts (i + 1) n t = Some s'"
    by (auto simp: Let_def bind_eq_Some_conv)
  moreover from this have "hevc_typed base t"
    using Suc.prems(1) packet_units_keep [of "hevc_typed base" h265_count_unit "drop (i * 188) pkts" s "-1" t] typed_unit
    by (auto simp: h265_slice_counter_write_packet_def split: if_splits)
  ultimately show ?case using Suc.IH by blast
qed simp

subsection \<open>Reachable counters\<close>

text \<open>
  The counters that an application can have, with the history position at the last reset of the
  counts: the allocation resets, packets and updates keep the position, a reset moves it to where
  the history then is.
\<close>

inductive hevc_since :: "int \<Rightarrow> h265_slice_counter_s \<Rightarrow> bool" where
  hevc_alloc: "h265_slice_counter_alloc m pid = Some s \<Longrightarrow> hevc_since (h5_nextHistoryPos s) s"
| hevc_write: "hevc_since base s \<Longrightarrow> h265_slice_counter_write s pkts n = Some s' \<Longrightarrow> hevc_since base s'"
| hevc_update: "hevc_since base s \<Longrightarrow> h265_slice_counter_update s slice_type = Some s' \<Longrightarrow> hevc_since base s'"
| hevc_reset: "hevc_since base s \<Longrightarrow> hevc_since (h5_nextHistoryPos s) (h265_slice_counter_reset s)"
| hevc_reset_pid: "hevc_since base s \<Longrightarrow> hevc_since (h5_nextHistoryPos s) (h265_slice_counter_reset_pid s pid)"

lemma typed_reset: "hevc_typed (h5_nextHistoryPos s) (h265_slice_counter_reset s)"
  by (simp add: hevc_typed_def h265_slice_counter_reset_def slice_defaults5_def H265_SLICE_COUNTER_HISTORY_LENGTH_def eval_nat_numeral)

text \<open>
  C38: The H.265 slice counter keeps its state well typed and counts each slice once. Whatever
  memory the counter was allocated in and whatever packets, updates and resets it was given since,
  when they returned: its table still has the three slice types with their numbers and names, its
  history has twenty places that hold only the letters B, P and I, blanks and the zero of a reset,
  and the three counts add up, modulo \<open>2 ^ 64\<close>, to the steps that the history has made since the
  last reset (or the allocation): every slice counted has left its letter and every letter was
  counted.
\<close>

theorem h265_counter_typed:
  assumes "hevc_since base s"
  shows "hevc_typed base s"
  using assms
proof (induction rule: hevc_since.induct)
  case (hevc_alloc m pid s)
  then obtain x where "s = h265_slice_counter_reset x" "h5_nextHistoryPos s = h5_nextHistoryPos x"
    by (auto simp: h265_slice_counter_alloc_def bind_eq_Some_conv h265_slice_counter_reset_def)
  then show ?case using typed_reset [of x] by simp
next
  case (hevc_write base s pkts n s')
  then show ?case using typed_write_loop unfolding h265_slice_counter_write_def by blast
next
  case (hevc_update base s slice_type s')
  then show ?case using typed_update by blast
next
  case (hevc_reset base s)
  show ?case by (rule typed_reset)
next
  case (hevc_reset_pid base s pid)
  show ?case using typed_reset [of "s\<lparr>h5_pid := pid\<rparr>"] by (simp add: h265_slice_counter_reset_pid_def)
qed

definition sample_counter5 :: h265_slice_counter_s where
  "sample_counter5 =
     \<lparr>h5_pid = 0, h5_slice = [], h5_nextHistoryPos = 19, h5_sliceHistory = [], spsValid = 0, sps_video_parameter_set_id = 0,
      sps_max_sub_layers_minus1 = 0, sps_temporal_id_nesting_flag = 0, ppsValid = 0, pps_pic_parameter_set_id = 0,
      pps_seq_parameter_set_id = 0, dependent_slice_segments_enabled_flag = 0, output_flag_present_flag = 0,
      num_extra_slice_header_bits = 0\<rparr>"

theorem h265_counter_typed_witness:
  "\<exists>s. h265_slice_counter_update (h265_slice_counter_reset (sample_counter5\<lparr>h5_pid := 0x31\<rparr>)) 2 = Some s
     \<and> hevc_typed 19 s \<and> sum_list (map sd5_count (h5_slice s)) = 1"
proof -
  let ?s0 = "h265_slice_counter_reset (sample_counter5\<lparr>h5_pid := 0x31\<rparr>)"
  have p: "h5_nextHistoryPos ?s0 = 19" by (simp add: h265_slice_counter_reset_def sample_counter5_def)
  have "counter5_wf ?s0" "h5_nextHistoryPos ?s0 + 1 < 2 ^ 31"
    by (simp_all add: counter5_wf_def h265_slice_counter_reset_def sample_counter5_def H265_SLICE_COUNTER_HISTORY_LENGTH_def)
  then obtain s where s: "h265_slice_counter_update ?s0 2 = Some s" "h5_nextHistoryPos s = 20"
    using hevc.upd_ok [of ?s0 2] p by (auto simp: h265_letters_def)
  have "h265_slice_counter_alloc (Some sample_counter5) 0x31 = Some ?s0" by (simp add: h265_slice_counter_alloc_def)
  then have "hevc_since 19 ?s0" using hevc_alloc p by metis
  from h265_counter_typed [OF hevc_update [OF this s(1)]] have "hevc_typed 19 s" .
  with s show ?thesis by (simp add: hevc_typed_def)
qed

text \<open>A dependent segment has the type -1, which is below the number of types: the counter's entry -1 is written.\<close>

lemma dependent_segment_undefined:
  assumes "k + 3 < length pkt" "is_segment (unat (h265_type (pkt ! (k + 3))))" "ppsValid s \<noteq> 0"
    "read_segment_type s (unat (h265_type (pkt ! (k + 3)))) (drop (k + 4) pkt) = Some (-1)"
  shows "h265_count_unit pkt s k = None"
  using assms by (auto simp: h265_count_unit_def is_segment_def MAX_H265_SLICE_TYPES_def h265_slice_counter_update_def rd_int_def Let_def)

text \<open>The zero of a reset stays in the history that a query reports until twenty slices have come.\<close>

lemma reset_history_zero: "0 \<le> h5_nextHistoryPos s \<Longrightarrow>
    CHR 0x00 \<in> set (recent (h5_sliceHistory (h265_slice_counter_reset s)) (h5_nextHistoryPos s))"
proof -
  assume "0 \<le> h5_nextHistoryPos s"
  define p where "p = nat (h5_nextHistoryPos s)"
  have "p mod 20 < 20" by simp
  then have "p + (19 - p mod 20) = 19 + p div 20 * 20" using div_mult_mod_eq [of p 20] by linarith
  then have "(p + (19 - p mod 20)) mod 20 = 19" by simp
  then have "recent (h5_sliceHistory (h265_slice_counter_reset s)) (h5_nextHistoryPos s) ! (19 - p mod 20) = CHR 0x00"
    unfolding recent_def p_def [symmetric]
    by (subst nth_map, simp, subst nth_upt, simp, simp add: h265_slice_counter_reset_def H265_SLICE_COUNTER_HISTORY_LENGTH_def)
  moreover have "19 - p mod 20 < length (recent (h5_sliceHistory (h265_slice_counter_reset s)) (h5_nextHistoryPos s))" by simp
  ultimately show ?thesis by (metis nth_mem)
qed

lemma h265_sei_overrun:
  "64 < length (filter (\<lambda>h. nalType h = 39 \<or> nalType h = 40) nals) \<Longrightarrow>
     ltn_sei_h265_find_headers alloc buf (Some nals) (length nals) True = None"
  using sei_loop_overrun [of "[]" 64 "\<lambda>t. t = 39 \<or> t = 40" nals] sei_loop_overrun [of "[]" 0 "\<lambda>t. t = 39 \<or> t = 40" nals]
  by (cases "filter (\<lambda>h. nalType h = 39 \<or> nalType h = 40) nals") (auto simp: ltn_sei_h265_find_headers_def MAX_SEI_ITEMS_def)
end
