(* ===== verification/SeiTimestamp.thy ===== *)
theory SeiTimestamp
  imports NalUnits Clocks
begin

text \<open>
  Timestamps carried in SEI messages: \<open>src/src/sei-timestamp.c\<close> and \<open>sei-timestamp.h\<close>. A message is the
  bytes of an identifier and nine 32-bit fields of six bytes each, with a marker behind every second byte.

  \<open>lengthBytes\<close> is what the caller says of the buffer. Return codes are as in C. A byte that is
  shifted into the sign bit gives the bit pattern that compilers give it. A field that
  could not be read leaves its variable unset, and using the variable is undefined.
\<close>

unbundle bit_operations_syntax

subsection \<open>Fields\<close>

definition ltn_uuid_sei_timestamp :: bytes where
  "ltn_uuid_sei_timestamp =
     [0x59, 0x96, 0xFF, 0x28, 0x17, 0xCA, 0x41, 0x96, 0x8D, 0xE3, 0xE5, 0x3F, 0xE2, 0xF9, 0x92, 0xAE]"

definition SEI_BIT_DELIMITER :: u8 where
  "SEI_BIT_DELIMITER = 0x81"

definition SEI_TIMESTAMP_FIELD_COUNT :: nat where
  "SEI_TIMESTAMP_FIELD_COUNT = 9"

definition SEI_TIMESTAMP_PAYLOAD_LENGTH :: nat where
  "SEI_TIMESTAMP_PAYLOAD_LENGTH = 16 + SEI_TIMESTAMP_FIELD_COUNT * 6"

definition sei_timestamp_alloc :: "allocator \<Rightarrow> bytes option" where
  "sei_timestamp_alloc alloc =
     (if alloc SEI_TIMESTAMP_PAYLOAD_LENGTH
      then Some (blit (replicate SEI_TIMESTAMP_PAYLOAD_LENGTH 0) 0 ltn_uuid_sei_timestamp) else None)"

definition sei_timestamp_init :: "bytes \<Rightarrow> int \<Rightarrow> (int \<times> bytes) mem" where
  "sei_timestamp_init buf lengthBytes =
     (if lengthBytes < int SEI_TIMESTAMP_PAYLOAD_LENGTH then Some (-1, buf)
      else do { buf \<leftarrow> wr buf 0 (replicate (nat lengthBytes) 0);
                buf \<leftarrow> wr buf 0 ltn_uuid_sei_timestamp;
                Some (0, buf) })"

definition field_bytes :: "u32 \<Rightarrow> bytes" where
  "field_bytes v =
     [ucast (drop_bit 24 v AND 0xff), ucast (drop_bit 16 v AND 0xff), SEI_BIT_DELIMITER,
      ucast (drop_bit 8 v AND 0xff), ucast (v AND 0xff), SEI_BIT_DELIMITER]"

definition field_value :: "bytes \<Rightarrow> u32" where
  "field_value p =
     push_bit 24 (ucast (p ! 0)) OR push_bit 16 (ucast (p ! 1)) OR push_bit 8 (ucast (p ! 3)) OR ucast (p ! 4)"

definition field_at :: "u32 \<Rightarrow> nat" where
  "field_at nr = 16 + (unat nr - 1) * 6"

definition sei_timestamp_field_set :: "bytes \<Rightarrow> int \<Rightarrow> u32 \<Rightarrow> u32 \<Rightarrow> (int \<times> bytes) mem" where
  "sei_timestamp_field_set buf lengthBytes nr v =
     (if nr < 1 \<or> nr > of_nat SEI_TIMESTAMP_FIELD_COUNT then Some (-1, buf)
      else if lengthBytes - int (field_at nr) < 6 then Some (-1, buf)
      else do { buf \<leftarrow> wr buf (field_at nr) (field_bytes v); Some (0, buf) })"

text \<open>The offset is returned as an \<open>int\<close>, which keeps its low 32 bits.\<close>

definition ltn_uuid_find :: "bytes \<Rightarrow> nat \<Rightarrow> int mem" where
  "ltn_uuid_find buf lengthBytes =
     (if lengthBytes < SEI_TIMESTAMP_PAYLOAD_LENGTH then Some (-1)
      else do { y \<leftarrow> rdn buf 0 lengthBytes;
                Some (case ltn_memmem y ltn_uuid_sei_timestamp of Some j \<Rightarrow> to_int32 (int j) | None \<Rightarrow> -1) })"

text \<open>\<open>None\<close> inside the result is the return code -1; the length is not looked at.\<close>

definition sei_timestamp_field_get :: "bytes \<Rightarrow> int \<Rightarrow> u32 \<Rightarrow> u32 option mem" where
  "sei_timestamp_field_get buf lengthBytes nr =
     (if nr < 1 \<or> nr > of_nat SEI_TIMESTAMP_FIELD_COUNT then Some None
      else do { need (field_at nr + 5) buf; Some (Some (field_value (drop (field_at nr) buf))) })"

definition sei_timestamp_query_codec_latency_ms :: "bytes \<Rightarrow> int \<Rightarrow> int mem" where
  "sei_timestamp_query_codec_latency_ms buf lengthBytes =
     do { vs \<leftarrow> those (map (\<lambda>i. sei_timestamp_field_get buf lengthBytes (of_nat i)) [0 ..< 8]);
          v4 \<leftarrow> vs ! 4;
          v5 \<leftarrow> vs ! 5;
          v6 \<leftarrow> vs ! 6;
          v7 \<leftarrow> vs ! 7;
          Some (ltn_timeval_subtract_ms \<lparr>tv_sec = uint v6, tv_usec = uint v7\<rparr> \<lparr>tv_sec = uint v4, tv_usec = uint v5\<rparr>) }"

definition sei_timestamp_value_timeval_query :: "bytes \<Rightarrow> int \<Rightarrow> int \<Rightarrow> timeval mem" where
  "sei_timestamp_value_timeval_query buf lengthBytes nr =
     do { secs \<leftarrow> sei_timestamp_field_get buf lengthBytes (word_of_int nr);
          usecs \<leftarrow> sei_timestamp_field_get buf lengthBytes (word_of_int (nr + 1));
          secs \<leftarrow> secs;
          usecs \<leftarrow> usecs;
          Some \<lparr>tv_sec = uint secs, tv_usec = uint usecs\<rparr> }"

definition sei_timestamp_value_timeval_set :: "timeval \<Rightarrow> bytes \<Rightarrow> int \<Rightarrow> int \<Rightarrow> timeval option \<Rightarrow> bytes mem" where
  "sei_timestamp_value_timeval_set now buf lengthBytes nr t =
     (let ts = (case t of Some t \<Rightarrow> t | None \<Rightarrow> now)
      in do { (r, buf) \<leftarrow> sei_timestamp_field_set buf lengthBytes (word_of_int nr) (word_of_int (tv_sec ts));
              (r, buf) \<leftarrow> sei_timestamp_field_set buf lengthBytes (word_of_int (nr + 1)) (word_of_int (tv_usec ts));
              Some buf })"

subsection \<open>Reading what was set\<close>

lemma field_value_bytes: "field_value (field_bytes v @ rest) = v"
proof (rule bit_word_eqI)
  have m: "(0xff :: u32) = mask 8" by (simp add: mask_eq_exp_minus_1)
  fix n assume "n < LENGTH(32)"
  then consider "n < 8" | "8 \<le> n" "n < 16" | "16 \<le> n" "n < 24" | "24 \<le> n" "n < 32" by fastforce
  then show "bit (field_value (field_bytes v @ rest)) n = bit v n"
    unfolding field_value_def field_bytes_def m by cases (simp_all add: bit_simps less_diff_conv2)
qed

interpretation sei_field: field_codec field_bytes field_value 6 "\<lambda>_. True"
  by unfold_locales (simp_all add: field_value_bytes, simp add: field_bytes_def)

definition valid_field :: "u32 \<Rightarrow> bool" where
  "valid_field nr \<longleftrightarrow> 1 \<le> nr \<and> nr \<le> 9"

lemma valid_field_unat: "valid_field nr \<longleftrightarrow> 1 \<le> unat nr \<and> unat nr \<le> 9"
  by (simp add: valid_field_def word_le_nat_alt)

text \<open>A message: a buffer that holds the identifier and the nine fields.\<close>

definition sei_message :: "int \<Rightarrow> bytes \<Rightarrow> bool" where
  "sei_message n buf \<longleftrightarrow> 70 \<le> n \<and> n \<le> int (length buf) \<and> take 16 buf = ltn_uuid_sei_timestamp"

lemma field_at_bounds: "valid_field nr \<Longrightarrow> 16 \<le> field_at nr \<and> field_at nr \<le> 64"
  by (auto simp: valid_field_unat field_at_def)

lemma field_room: "valid_field nr \<Longrightarrow> sei_message n buf \<Longrightarrow> 16 \<le> field_at nr \<and> field_at nr + 6 \<le> length buf \<and> int (field_at nr) + 6 \<le> n"
  using field_at_bounds [of nr] by (auto simp: sei_message_def)

lemma field_set_ok:
  assumes "valid_field nr" "sei_message n buf"
  shows "sei_timestamp_field_set buf n nr v = Some (0, blit buf (field_at nr) (field_bytes v))"
    and "sei_message n (blit buf (field_at nr) (field_bytes v))"
proof -
  note r = field_room [OF assms]
  then show "sei_timestamp_field_set buf n nr v = Some (0, blit buf (field_at nr) (field_bytes v))"
    using assms(1) sei_field.write_ok [of "field_at nr" buf v]
    by (auto simp: sei_timestamp_field_set_def valid_field_def SEI_TIMESTAMP_FIELD_COUNT_def not_less)
  have "take 16 (blit buf (field_at nr) (field_bytes v)) = take 16 buf"
    using r by (simp add: blit_def min_def)
  then show "sei_message n (blit buf (field_at nr) (field_bytes v))"
    using r assms(2) sei_field.length_enc by (simp add: sei_message_def)
qed

lemma field_get_ok:
  "valid_field nr \<Longrightarrow> sei_message n buf \<Longrightarrow> sei_timestamp_field_get buf n nr = Some (Some (field_value (drop (field_at nr) buf)))"
  using field_room [of nr n buf] by (auto simp: sei_timestamp_field_get_def valid_field_def SEI_TIMESTAMP_FIELD_COUNT_def not_less)

lemma fields_apart: "valid_field nr \<Longrightarrow> valid_field nr' \<Longrightarrow> nr \<noteq> nr' \<Longrightarrow> field_at nr + 6 \<le> field_at nr' \<or> field_at nr' + 6 \<le> field_at nr"
proof -
  assume v: "valid_field nr" "valid_field nr'" "nr \<noteq> nr'"
  then have "unat nr \<noteq> unat nr'" by (simp add: word_unat_eq_iff)
  with v show ?thesis by (auto simp: valid_field_unat field_at_def)
qed

lemma field_get_set:
  assumes "valid_field nr" "valid_field nr'" "sei_message n buf"
  shows "field_value (drop (field_at nr') (blit buf (field_at nr) (field_bytes v)))
    = (if nr = nr' then v else field_value (drop (field_at nr') buf))"
proof (cases "nr = nr'")
  case True
  then show ?thesis using sei_field.read_after_write [of "field_at nr" buf v] field_room [OF assms(1,3)] by simp
next
  case False
  have n: "blit buf (field_at nr) (field_bytes v) ! (field_at nr' + i) = buf ! (field_at nr' + i)" if "i < 6" for i
    using field_room [OF assms(1,3)] field_room [OF assms(2,3)] fields_apart [OF assms(1,2) False] that sei_field.length_enc
    by (subst nth_blit) auto
  then show ?thesis
    using False n [of 0] n [of 1] n [of 3] n [of 4] field_room [OF assms(1,3)] field_room [OF assms(2,3)] sei_field.length_enc
    by (simp add: field_value_def)
qed

fun set_fields :: "bytes \<Rightarrow> int \<Rightarrow> (u32 \<times> u32) list \<Rightarrow> bytes mem" where
  "set_fields buf n [] = Some buf"
| "set_fields buf n ((nr, v) # fs) = do { (r, buf) \<leftarrow> sei_timestamp_field_set buf n nr v; set_fields buf n fs }"

abbreviation field_of :: "bytes \<Rightarrow> u32 \<Rightarrow> u32" where
  "field_of buf nr \<equiv> field_value (drop (field_at nr) buf)"

lemma set_fields_append: "set_fields buf n (fs @ gs) = set_fields buf n fs \<bind> (\<lambda>buf. set_fields buf n gs)"
proof (induction fs arbitrary: buf)
  case (Cons f fs)
  then show ?case by (cases f; cases "sei_timestamp_field_set buf n (fst f) (snd f)") auto
qed simp

lemma set_fields_ok:
  assumes "sei_message n buf" "\<forall>(nr, v) \<in> set fs. valid_field nr"
  shows "\<exists>buf'. set_fields buf n fs = Some buf' \<and> sei_message n buf'
    \<and> (\<forall>nr. valid_field nr \<longrightarrow> field_of buf' nr = (case map_of (rev fs) nr of Some v \<Rightarrow> v | None \<Rightarrow> field_of buf nr))"
  using assms
proof (induction fs arbitrary: buf)
  case (Cons f fs)
  obtain k v where f: "f = (k, v)" by (cases f)
  let ?b = "blit buf (field_at k) (field_bytes v)"
  have k: "valid_field k" "\<forall>(nr, v) \<in> set fs. valid_field nr" using Cons.prems(2) f by simp_all
  then obtain buf' where b: "set_fields ?b n fs = Some buf'" "sei_message n buf'"
      "\<And>nr. valid_field nr \<Longrightarrow> field_of buf' nr = (case map_of (rev fs) nr of Some v \<Rightarrow> v | None \<Rightarrow> field_of ?b nr)"
    using Cons.IH [OF field_set_ok(2) [OF k(1) Cons.prems(1), of v] k(2)] by blast
  have "field_of buf' nr = (case map_of (rev (f # fs)) nr of Some v \<Rightarrow> v | None \<Rightarrow> field_of buf nr)" if "valid_field nr" for nr
    using b(3) [OF that] field_get_set [OF k(1) that Cons.prems(1), of v]
    by (auto simp: f map_add_def split: option.splits)
  then show ?case using b field_set_ok(1) [OF k(1) Cons.prems(1)] by (simp add: f)
qed simp

lemma set_two_fields:
  assumes "sei_message n buf" "valid_field a" "valid_field c"
  obtains buf' where "set_fields buf n [(a, x), (c, y)] = Some buf'" "sei_message n buf'"
    "\<And>nr. valid_field nr \<Longrightarrow> field_of buf' nr = (if nr = c then y else if nr = a then x else field_of buf nr)"
proof -
  obtain b where b: "set_fields buf n [(a, x), (c, y)] = Some b" "sei_message n b"
      "\<And>nr. valid_field nr \<Longrightarrow> field_of b nr = (case map_of (rev [(a, x), (c, y)]) nr of Some v \<Rightarrow> v | None \<Rightarrow> field_of buf nr)"
    using set_fields_ok [OF assms(1), of "[(a, x), (c, y)]"] assms(2,3) by auto
  have "field_of b nr = (if nr = c then y else if nr = a then x else field_of buf nr)" if "valid_field nr" for nr
    unfolding b(3) [OF that] by simp
  then show thesis by (rule that [OF b(1,2)])
qed

lemma timeval_set_fields:
  "sei_timestamp_value_timeval_set now buf n nr (Some t)
     = set_fields buf n [(word_of_int nr, word_of_int (tv_sec t)), (word_of_int (nr + 1), word_of_int (tv_usec t))]"
  by (cases "sei_timestamp_field_set buf n (word_of_int nr) (word_of_int (tv_sec t))")
    (auto simp: sei_timestamp_value_timeval_set_def split: bind_splits)

lemma init_message:
  assumes "70 \<le> length buf"
  obtains b where "sei_timestamp_init buf (int (length buf)) = Some (0, b)" "sei_message (int (length buf)) b"
    "length b = length buf" "\<And>nr. valid_field nr \<Longrightarrow> field_of b nr = 0"
proof -
  let ?b = "ltn_uuid_sei_timestamp @ replicate (length buf - 16) 0"
  have l: "length ltn_uuid_sei_timestamp = 16" by (simp add: ltn_uuid_sei_timestamp_def)
  have "sei_timestamp_init buf (int (length buf)) = Some (0, ?b)"
    using assms l by (simp add: sei_timestamp_init_def SEI_TIMESTAMP_PAYLOAD_LENGTH_def SEI_TIMESTAMP_FIELD_COUNT_def blit_def)
  moreover have "field_of ?b nr = 0" if "valid_field nr" for nr
  proof -
    have "4 < length buf - field_at nr" using assms field_at_bounds [OF that] by linarith
    then show ?thesis using l field_at_bounds [OF that] by (simp add: field_value_def)
  qed
  ultimately show thesis using that [of ?b] assms l by (simp add: sei_message_def)
qed

lemma uuid_find_first:
  assumes "take 16 m = ltn_uuid_sei_timestamp" "70 \<le> length m"
    "\<forall>j < length pre. \<not> occurs ltn_uuid_sei_timestamp (pre @ m @ post) j"
  shows "ltn_uuid_find (pre @ m @ post) (length (pre @ m @ post)) = Some (to_int32 (int (length pre)))"
proof -
  let ?y = "pre @ m @ post"
  have l: "length ltn_uuid_sei_timestamp = 16" by (simp add: ltn_uuid_sei_timestamp_def)
  then have o: "occurs ltn_uuid_sei_timestamp ?y (length pre)" using assms(1,2) by (simp add: occurs_def)
  have "find (occurs ltn_uuid_sei_timestamp ?y) [0 ..< Suc (length ?y) - 16] = Some (length pre)"
    using assms(2,3) o by (auto simp: find_Some_iff intro!: exI [of _ "length pre"])
  then have "ltn_memmem ?y ltn_uuid_sei_timestamp = Some (length pre)"
    using l by (auto simp: ltn_memmem_first)
  then show ?thesis using assms(2) by (simp add: ltn_uuid_find_def SEI_TIMESTAMP_PAYLOAD_LENGTH_def SEI_TIMESTAMP_FIELD_COUNT_def)
qed

lemma query_fields:
  assumes "sei_message n m" "valid_field (word_of_int nr)" "valid_field (word_of_int (nr + 1))"
  shows "sei_timestamp_value_timeval_query m n nr
    = Some \<lparr>tv_sec = uint (field_of m (word_of_int nr)), tv_usec = uint (field_of m (word_of_int (nr + 1)))\<rparr>"
  using assms by (simp add: sei_timestamp_value_timeval_query_def field_get_ok)

lemma latency_fields:
  assumes "sei_message n m"
  shows "sei_timestamp_query_codec_latency_ms m n =
    Some (ltn_timeval_subtract_ms \<lparr>tv_sec = uint (field_of m 6), tv_usec = uint (field_of m 7)\<rparr>
            \<lparr>tv_sec = uint (field_of m 4), tv_usec = uint (field_of m 5)\<rparr>)"
proof -
  have "sei_timestamp_field_get m n 0 = Some None" by (simp add: sei_timestamp_field_get_def)
  moreover have "[0 ..< 8] = [0, 1, 2, 3, 4, 5, 6, 7 :: nat]" by (simp add: upt_rec)
  moreover have "valid_field 1" "valid_field 2" "valid_field 3" "valid_field 4" "valid_field 5" "valid_field 6" "valid_field 7"
    by (simp_all add: valid_field_def)
  ultimately show ?thesis
    using assms by (simp add: sei_timestamp_query_codec_latency_ms_def field_get_ok)
qed

text \<open>
  C40: Timestamps survive the SEI message. In a message that is initialised, given any fields in any order, and
  then the times at which a frame entered and left the codec, both times are read back and the reported
  latency is their difference; every other field has the value last given to it, or zero; and
  the message is found at its place (as an \<open>int\<close>, exact below \<open>2 ^ 31\<close>) in any stream in which its identifier
  does not occur before.
\<close>

theorem sei_timestamps_roundtrip:
  assumes "70 \<le> length buf" "\<forall>(nr, v) \<in> set fs. valid_field nr" "n = int (length buf)"
    "\<forall>x \<in> {tv_sec t4, tv_usec t4, tv_sec t6, tv_usec t6}. 0 \<le> x \<and> x < 2 ^ 32"
  shows "\<exists>b0 b1 b2 m. sei_timestamp_init buf n = Some (0, b0) \<and> set_fields b0 n fs = Some b1
    \<and> sei_timestamp_value_timeval_set now b1 n 4 (Some t4) = Some b2
    \<and> sei_timestamp_value_timeval_set now b2 n 6 (Some t6) = Some m
    \<and> sei_timestamp_value_timeval_query m n 4 = Some t4 \<and> sei_timestamp_value_timeval_query m n 6 = Some t6
    \<and> sei_timestamp_query_codec_latency_ms m n = Some (ltn_timeval_subtract_ms t6 t4)
    \<and> (\<forall>nr. valid_field nr \<and> nr \<notin> {4, 5, 6, 7} \<longrightarrow>
          sei_timestamp_field_get m n nr = Some (Some (case map_of (rev fs) nr of Some v \<Rightarrow> v | None \<Rightarrow> 0)))
    \<and> (\<forall>pre post. (\<forall>j < length pre. \<not> occurs ltn_uuid_sei_timestamp (pre @ m @ post) j) \<longrightarrow>
          ltn_uuid_find (pre @ m @ post) (length (pre @ m @ post)) = Some (to_int32 (int (length pre))))"
proof -
  obtain b0 where b0: "sei_timestamp_init buf n = Some (0, b0)" "sei_message n b0" "\<And>nr. valid_field nr \<Longrightarrow> field_of b0 nr = 0"
    using init_message [OF assms(1)] assms(3) by blast
  let ?w = "word_of_int :: int \<Rightarrow> u32"
  have v: "valid_field 4" "valid_field 5" "valid_field 6" "valid_field 7" by (simp_all add: valid_field_def)
  obtain b1 where b1: "set_fields b0 n fs = Some b1" "sei_message n b1"
      "\<And>nr. valid_field nr \<Longrightarrow> field_of b1 nr = (case map_of (rev fs) nr of Some v \<Rightarrow> v | None \<Rightarrow> field_of b0 nr)"
    using set_fields_ok [OF b0(2) assms(2)] by blast
  obtain b2 where b2: "set_fields b1 n [(4, ?w (tv_sec t4)), (5, ?w (tv_usec t4))] = Some b2" "sei_message n b2"
      "\<And>nr. valid_field nr \<Longrightarrow> field_of b2 nr = (if nr = 5 then ?w (tv_usec t4) else if nr = 4 then ?w (tv_sec t4) else field_of b1 nr)"
    using set_two_fields [OF b1(2) v(1,2)] by metis
  obtain m where m: "set_fields b2 n [(6, ?w (tv_sec t6)), (7, ?w (tv_usec t6))] = Some m" "sei_message n m"
      "\<And>nr. valid_field nr \<Longrightarrow> field_of m nr = (if nr = 7 then ?w (tv_usec t6) else if nr = 6 then ?w (tv_sec t6) else field_of b2 nr)"
    using set_two_fields [OF b2(2) v(3,4)] by metis
  have u: "uint (?w x) = x" if "0 \<le> x" "x < 2 ^ 32" for x using that by (simp add: unsigned_of_int take_bit_int_eq_self)
  have t: "\<lparr>tv_sec = uint (field_of m 4), tv_usec = uint (field_of m 5)\<rparr> = t4"
      "\<lparr>tv_sec = uint (field_of m 6), tv_usec = uint (field_of m 7)\<rparr> = t6"
    using m(3) b2(3) v u assms(4) by (simp_all add: timeval.equality)
  have g: "sei_timestamp_field_get m n nr = Some (Some (case map_of (rev fs) nr of Some v \<Rightarrow> v | None \<Rightarrow> 0))"
    if "valid_field nr \<and> nr \<notin> {4, 5, 6, 7}" for nr
    using that field_get_ok [of nr n m] m(2,3) b2(3) b1(3) b0(3) by (auto split: option.splits)
  have "take 16 m = ltn_uuid_sei_timestamp" "70 \<le> length m" using m(2) by (auto simp: sei_message_def)
  note find = uuid_find_first [OF this]
  have "sei_timestamp_value_timeval_set now b1 n 4 (Some t4) = Some b2" "sei_timestamp_value_timeval_set now b2 n 6 (Some t6) = Some m"
    using b2(1) m(1) by (simp_all add: timeval_set_fields)
  moreover have "sei_timestamp_value_timeval_query m n 4 = Some t4" "sei_timestamp_value_timeval_query m n 6 = Some t6"
    using query_fields [OF m(2), of 4] query_fields [OF m(2), of 6] v t by simp_all
  ultimately show ?thesis
    using b0(1) b1(1) latency_fields [OF m(2)] t g find by (intro exI [of _ b0] exI [of _ b1] exI [of _ b2] exI [of _ m] conjI) auto
qed

theorem sei_timestamps_roundtrip_witness:
  "\<exists>b0 b1 b2 m. sei_timestamp_init (replicate 70 0xFF) 70 = Some (0, b0) \<and> set_fields b0 70 [(1, 76), (1, 77)] = Some b1
    \<and> sei_timestamp_value_timeval_set \<lparr>tv_sec = 0, tv_usec = 0\<rparr> b1 70 4 (Some \<lparr>tv_sec = 5, tv_usec = 10\<rparr>) = Some b2
    \<and> sei_timestamp_value_timeval_set \<lparr>tv_sec = 0, tv_usec = 0\<rparr> b2 70 6 (Some \<lparr>tv_sec = 5, tv_usec = 40010\<rparr>) = Some m
    \<and> sei_timestamp_query_codec_latency_ms m 70 = Some 40 \<and> sei_timestamp_field_get m 70 1 = Some (Some 77)
    \<and> ltn_uuid_find m (length m) = Some 0"
proof -
  have f: "\<forall>(nr, v) \<in> set [(1, 76), (1, 77 :: u32)]. valid_field nr" and v: "valid_field 1" by (simp_all add: valid_field_def)
  have l: "70 \<le> length (replicate 70 (0xFF :: u8))" "70 = int (length (replicate 70 (0xFF :: u8)))" by simp_all
  have r: "\<forall>x \<in> {tv_sec \<lparr>tv_sec = 5, tv_usec = 10\<rparr>, tv_usec \<lparr>tv_sec = 5, tv_usec = 10\<rparr>,
      tv_sec \<lparr>tv_sec = 5, tv_usec = 40010\<rparr>, tv_usec \<lparr>tv_sec = 5, tv_usec = 40010\<rparr>}. 0 \<le> x \<and> x < 2 ^ 32" by simp
  obtain b0 b1 b2 m where c: "sei_timestamp_init (replicate 70 0xFF) 70 = Some (0, b0)" "set_fields b0 70 [(1, 76), (1, 77)] = Some b1"
      "sei_timestamp_value_timeval_set \<lparr>tv_sec = 0, tv_usec = 0\<rparr> b1 70 4 (Some \<lparr>tv_sec = 5, tv_usec = 10\<rparr>) = Some b2"
      "sei_timestamp_value_timeval_set \<lparr>tv_sec = 0, tv_usec = 0\<rparr> b2 70 6 (Some \<lparr>tv_sec = 5, tv_usec = 40010\<rparr>) = Some m"
    and q: "sei_timestamp_query_codec_latency_ms m 70
        = Some (ltn_timeval_subtract_ms \<lparr>tv_sec = 5, tv_usec = 40010\<rparr> \<lparr>tv_sec = 5, tv_usec = 10\<rparr>)"
    and g: "\<forall>nr. valid_field nr \<and> nr \<notin> {4, 5, 6, 7} \<longrightarrow> sei_timestamp_field_get m 70 nr
        = Some (Some (case map_of (rev [(1, 76), (1, 77)]) nr of Some v \<Rightarrow> v | None \<Rightarrow> 0))"
    and u: "\<forall>pre post. (\<forall>j < length pre. \<not> occurs ltn_uuid_sei_timestamp (pre @ m @ post) j) \<longrightarrow>
        ltn_uuid_find (pre @ m @ post) (length (pre @ m @ post)) = Some (to_int32 (int (length pre)))"
    using sei_timestamps_roundtrip [OF l(1) f l(2) r, of "\<lparr>tv_sec = 0, tv_usec = 0\<rparr>"] by blast
  have "sei_timestamp_field_get m 70 1 = Some (Some 77)" using g v by simp
  moreover have "sei_timestamp_query_codec_latency_ms m 70 = Some 40"
    unfolding q by (simp add: ltn_timeval_subtract_ms_def ltn_timeval_to_ms_def)
  moreover have "ltn_uuid_find m (length m) = Some 0" using spec [OF spec [OF u, of "[]"], of "[]"] by simp
  ultimately show ?thesis using c by blast
qed

text \<open>Reading a field does not look at the length: a buffer that ends before the field is read past its end.\<close>

lemma field_get_past_end:
  "valid_field nr \<Longrightarrow> length buf < field_at nr + 5 \<Longrightarrow> sei_timestamp_field_get buf n nr = None"
  by (auto simp: sei_timestamp_field_get_def valid_field_def SEI_TIMESTAMP_FIELD_COUNT_def need_def)

text \<open>The last field has no successor: asked for a time there, the query uses an unset variable.\<close>

lemma timeval_query_last: "sei_message n buf \<Longrightarrow> sei_timestamp_value_timeval_query buf n 9 = None"
  using field_get_ok [of 9 n buf]
  by (simp add: sei_timestamp_value_timeval_query_def sei_timestamp_field_get_def SEI_TIMESTAMP_FIELD_COUNT_def valid_field_def)

end
