(* ===== verification/Throughput.thy ===== *)
theory Throughput
  imports Complex_Main Clocks
begin

text \<open>
  Throughput meters: \<open>src/src/throughput.c\<close> counts per second, \<open>src/src/throughput_hires.c\<close> keeps a list of
  timed values and sums those of a window.

  \<open>time\<close> and \<open>gettimeofday\<close> are arguments. A \<open>double\<close> is the rational number it approximates; an \<open>int64_t\<close>
  is an \<open>int\<close>, and a sum that leaves 64 bits is undefined. An item of the two intrusive lists is
  its content; the front of a list is its first element.
\<close>

subsection \<open>Counting per second\<close>

record ltntstools_throughput_s =
  tp_byteCount :: u64
  tp_Bps_last_update :: int
  tp_Bps :: u32
  tp_Bps_window :: u32
  tp_mbps :: rat
  tp_mBps :: rat

definition ltntstools_throughput_write_value :: "int \<Rightarrow> ltntstools_throughput_s \<Rightarrow> int \<Rightarrow> ltntstools_throughput_s" where
  "ltntstools_throughput_write_value now s v =
     (let s = (if now \<noteq> tp_Bps_last_update s
               then s\<lparr>tp_Bps := tp_Bps_window s, tp_Bps_window := 0,
                      tp_mbps := of_nat (unat (tp_Bps_window s)) / 1000000, tp_Bps_last_update := now\<rparr>
               else s)
      in s\<lparr>tp_Bps_window := tp_Bps_window s + word_of_int v\<rparr>)"

definition ltntstools_throughput_write :: "int \<Rightarrow> ltntstools_throughput_s \<Rightarrow> u32 \<Rightarrow> ltntstools_throughput_s" where
  "ltntstools_throughput_write now s bytes =
     (let s = (if now \<noteq> tp_Bps_last_update s
               then s\<lparr>tp_Bps := tp_Bps_window s, tp_Bps_window := 0,
                      tp_mbps := of_nat (unat (tp_Bps_window s)) * 8 / 1000000, tp_Bps_last_update := now\<rparr>
               else s)
      in s\<lparr>tp_Bps_window := tp_Bps_window s + bytes\<rparr>)"

definition ltntstools_throughput_reset :: "ltntstools_throughput_s \<Rightarrow> ltntstools_throughput_s" where
  "ltntstools_throughput_reset s = s\<lparr>tp_byteCount := 0, tp_mbps := 0, tp_mBps := 0\<rparr>"

definition expire_per_second_stats :: "int \<Rightarrow> ltntstools_throughput_s \<Rightarrow> ltntstools_throughput_s" where
  "expire_per_second_stats now s =
     (if now > tp_Bps_last_update s + 2 then s\<lparr>tp_mbps := 0, tp_mBps := 0, tp_Bps := 0, tp_Bps_window := 0\<rparr> else s)"

definition ltntstools_throughput_get_mbps :: "int \<Rightarrow> ltntstools_throughput_s \<Rightarrow> rat \<times> ltntstools_throughput_s" where
  "ltntstools_throughput_get_mbps now s = (let s = expire_per_second_stats now s in (tp_mbps s, s))"

definition ltntstools_throughput_get_bps :: "int \<Rightarrow> ltntstools_throughput_s \<Rightarrow> u32 \<times> ltntstools_throughput_s" where
  "ltntstools_throughput_get_bps now s = (let s = expire_per_second_stats now s in (tp_Bps s * 8, s))"

definition ltntstools_throughput_get_value :: "int \<Rightarrow> ltntstools_throughput_s \<Rightarrow> u32 \<times> ltntstools_throughput_s" where
  "ltntstools_throughput_get_value now s = (let s = expire_per_second_stats now s in (tp_Bps s, s))"

subsection \<open>Timed values\<close>

record throughput_hires_item_s =
  hi_timestamp :: u64
  hi_channel :: u32
  hi_value :: int

record throughput_hires_context_s =
  itemsFree :: "throughput_hires_item_s list"
  itemsBusy :: "throughput_hires_item_s list"

definition makeTimestampFromTimeval :: "timeval \<Rightarrow> u64" where
  "makeTimestampFromTimeval ts = word_of_int (tv_sec ts * 1000000 + tv_usec ts)"

definition makeTimestampFrom1SecondAgo :: "timeval \<Rightarrow> u64" where
  "makeTimestampFrom1SecondAgo now = makeTimestampFromTimeval (now\<lparr>tv_sec := tv_sec now - 1\<rparr>)"

text \<open>The name says two seconds, the code takes one.\<close>

definition makeTimestampFrom2SecondAgo :: "timeval \<Rightarrow> u64" where
  "makeTimestampFrom2SecondAgo now = makeTimestampFromTimeval (now\<lparr>tv_sec := tv_sec now - 1\<rparr>)"

definition itemAlloc :: "allocator \<Rightarrow> throughput_hires_item_s option" where
  "itemAlloc alloc = (if alloc 40 then Some \<lparr>hi_timestamp = 0, hi_channel = 0, hi_value = 0\<rparr> else None)"

text \<open>The loops that append new items; one that is not granted is left out.\<close>

fun add_items :: "allocator \<Rightarrow> nat \<Rightarrow> throughput_hires_item_s list \<Rightarrow> throughput_hires_item_s list" where
  "add_items alloc 0 items = items"
| "add_items alloc (Suc n) items =
     add_items alloc n (case itemAlloc alloc of None \<Rightarrow> items | Some item \<Rightarrow> items @ [item])"

text \<open>The context is not checked for \<open>NULL\<close>.\<close>

definition throughput_hires_alloc :: "allocator \<Rightarrow> int \<Rightarrow> throughput_hires_context_s mem" where
  "throughput_hires_alloc alloc itemsPerSecond =
     (if alloc 32 then Some \<lparr>itemsFree = add_items alloc (nat itemsPerSecond) [], itemsBusy = []\<rparr> else None)"

text \<open>
  The first entry of an empty list is not \<open>NULL\<close> but the list head taken for an item, whose fields lie outside the
  head: the test that follows never fails, and the writes are undefined.
\<close>

definition throughput_hires_write_i64 ::
  "allocator \<Rightarrow> timeval \<Rightarrow> throughput_hires_context_s \<Rightarrow> u32 \<Rightarrow> int \<Rightarrow> timeval option \<Rightarrow> throughput_hires_context_s mem" where
  "throughput_hires_write_i64 alloc now ctx channel v ts =
     (let free = (if itemsFree ctx = [] then add_items alloc 64 [] else itemsFree ctx)
      in case free of
           [] \<Rightarrow> None
         | item # rest \<Rightarrow>
             let t = (case ts of Some ts \<Rightarrow> makeTimestampFromTimeval ts | None \<Rightarrow> makeTimestampFromTimeval now)
             in Some (ctx\<lparr>itemsFree := rest,
                          itemsBusy := item\<lparr>hi_timestamp := t, hi_channel := channel, hi_value := v\<rparr> # itemsBusy ctx\<rparr>))"

definition throughput_hires_expire ::
  "timeval \<Rightarrow> throughput_hires_context_s \<Rightarrow> timeval option \<Rightarrow> nat \<times> throughput_hires_context_s" where
  "throughput_hires_expire now ctx ts =
     (if itemsBusy ctx = [] then (0, ctx)
      else
        let t = (case ts of Some ts \<Rightarrow> makeTimestampFromTimeval ts | None \<Rightarrow> makeTimestampFrom2SecondAgo now);
            old = filter (\<lambda>e. hi_timestamp e < t) (itemsBusy ctx)
        in (length old, ctx\<lparr>itemsFree := itemsFree ctx @ old, itemsBusy := filter (\<lambda>e. \<not> hi_timestamp e < t) (itemsBusy ctx)\<rparr>))"

definition in_int64 :: "int \<Rightarrow> bool" where
  "in_int64 x \<longleftrightarrow> - (2 ^ 63) \<le> x \<and> x < 2 ^ 63"

fun sumtotal_loop :: "u32 \<Rightarrow> u64 \<Rightarrow> u64 \<Rightarrow> throughput_hires_item_s list \<Rightarrow> int \<Rightarrow> int mem" where
  "sumtotal_loop channel begin_ts end_ts [] acc = Some acc"
| "sumtotal_loop channel begin_ts end_ts (e # es) acc =
     (let acc' = (if hi_channel e = channel \<and> begin_ts \<le> hi_timestamp e \<and> hi_timestamp e \<le> end_ts then acc + hi_value e else acc)
      in if \<not> in_int64 acc' then None
         else if hi_timestamp e < begin_ts then Some acc'
         else sumtotal_loop channel begin_ts end_ts es acc')"

text \<open>The window: \<open>now1\<close> and \<open>now2\<close> are what the two calls of \<open>gettimeofday\<close> report.\<close>

definition window_begin :: "timeval \<Rightarrow> timeval option \<Rightarrow> u64" where
  "window_begin now1 frm = (case frm of Some t \<Rightarrow> makeTimestampFromTimeval t | None \<Rightarrow> makeTimestampFrom1SecondAgo now1)"

definition window_end :: "timeval \<Rightarrow> timeval option \<Rightarrow> u64" where
  "window_end now2 to = (case to of Some t \<Rightarrow> makeTimestampFromTimeval t | None \<Rightarrow> makeTimestampFromTimeval now2)"

definition throughput_hires_sumtotal_i64 ::
  "timeval \<Rightarrow> timeval \<Rightarrow> throughput_hires_context_s \<Rightarrow> u32 \<Rightarrow> timeval option \<Rightarrow> timeval option \<Rightarrow> int mem" where
  "throughput_hires_sumtotal_i64 now1 now2 ctx channel frm to =
     sumtotal_loop channel (window_begin now1 frm) (window_end now2 to) (itemsBusy ctx) 0"

text \<open>Minimum, maximum, the sum so far and the number of items. The loop stops at the first item before the end of the window.\<close>

fun minmaxavg_loop ::
  "u32 \<Rightarrow> u64 \<Rightarrow> u64 \<Rightarrow> throughput_hires_item_s list \<Rightarrow> int \<times> int \<times> int \<times> int \<Rightarrow> (int \<times> int \<times> int \<times> int) mem" where
  "minmaxavg_loop channel begin_ts end_ts [] r = Some r"
| "minmaxavg_loop channel begin_ts end_ts (e # es) r =
     (let (vmin, vmax, vavg, items) = r;
          v = hi_value e;
          r' = (if hi_channel e = channel \<and> begin_ts \<le> hi_timestamp e \<and> hi_timestamp e \<le> end_ts
                then (if v \<le> vmin then v else vmin, if v > vmax then v else vmax, vavg + v, items + 1) else r)
      in if \<not> in_int64 (fst (snd (snd r'))) then None
         else if hi_timestamp e < end_ts then Some r'
         else minmaxavg_loop channel begin_ts end_ts es r')"

definition throughput_hires_minmaxavg_i64 ::
  "timeval \<Rightarrow> timeval \<Rightarrow> throughput_hires_context_s \<Rightarrow> u32 \<Rightarrow> timeval option \<Rightarrow> timeval option \<Rightarrow> (int \<times> int \<times> int) mem" where
  "throughput_hires_minmaxavg_i64 now1 now2 ctx channel frm to =
     do { (vmin, vmax, vavg, items) \<leftarrow>
            minmaxavg_loop channel (window_begin now1 frm) (window_end now2 to) (itemsBusy ctx) (2 ^ 62, -1, -1, 0);
          Some (vmin, vmax, if items \<noteq> 0 then c_div vavg items else -1) }"

subsection \<open>What a second is worth\<close>

text \<open>The writes of one second add up, modulo \<open>2 ^ 32\<close>, and the next second's first write reports the sum.\<close>

lemma throughput_window:
  "foldl (\<lambda>s b. ltntstools_throughput_write t s b) s bs =
     (if bs = [] then s else (ltntstools_throughput_write t s (hd bs))
        \<lparr>tp_Bps_window := tp_Bps_window (ltntstools_throughput_write t s (hd bs)) + sum_list (tl bs)\<rparr>)"
proof (induction bs rule: rev_induct)
  case (snoc b bs)
  have "tp_Bps_last_update (ltntstools_throughput_write t s x) = t" for x
    by (simp add: ltntstools_throughput_write_def Let_def)
  with snoc show ?case
    by (cases bs) (auto simp: ltntstools_throughput_write_def Let_def algebra_simps)
qed simp

lemma throughput_reports_second:
  assumes "tp_Bps_last_update s \<noteq> t" "t' \<noteq> t" "bs \<noteq> []"
  shows "fst (ltntstools_throughput_get_value t' (ltntstools_throughput_write t' (foldl (\<lambda>s b. ltntstools_throughput_write t s b) s bs) b))
    = sum_list bs"
proof -
  let ?s = "foldl (\<lambda>s b. ltntstools_throughput_write t s b) s bs"
  have "tp_Bps_last_update ?s = t \<and> tp_Bps_window ?s = sum_list bs"
    using assms unfolding throughput_window by (cases bs) (simp_all add: ltntstools_throughput_write_def Let_def)
  then show ?thesis
    using assms(2) by (simp add: ltntstools_throughput_write_def ltntstools_throughput_get_value_def expire_per_second_stats_def Let_def)
qed

subsection \<open>Sums over a window\<close>

text \<open>A session: values written with their times, and expirations.\<close>

datatype hires_op = Put u32 int timeval | Expire timeval

fun hires_run :: "allocator \<Rightarrow> timeval \<Rightarrow> throughput_hires_context_s \<Rightarrow> hires_op list \<Rightarrow> throughput_hires_context_s mem" where
  "hires_run alloc now ctx [] = Some ctx"
| "hires_run alloc now ctx (Put c v t # ops) =
     do { ctx \<leftarrow> throughput_hires_write_i64 alloc now ctx c v (Some t); hires_run alloc now ctx ops }"
| "hires_run alloc now ctx (Expire t # ops) = hires_run alloc now (snd (throughput_hires_expire now ctx (Some t))) ops"

definition item_of :: "u32 \<Rightarrow> int \<Rightarrow> timeval \<Rightarrow> throughput_hires_item_s" where
  "item_of c v t = \<lparr>hi_timestamp = makeTimestampFromTimeval t, hi_channel = c, hi_value = v\<rparr>"

fun put_items :: "hires_op list \<Rightarrow> throughput_hires_item_s list" where
  "put_items [] = []"
| "put_items (Put c v t # ops) = item_of c v t # put_items ops"
| "put_items (Expire t # ops) = put_items ops"

fun expiries :: "hires_op list \<Rightarrow> u64 list" where
  "expiries [] = []"
| "expiries (Put c v t # ops) = expiries ops"
| "expiries (Expire t # ops) = makeTimestampFromTimeval t # expiries ops"

definition newest_first :: "throughput_hires_item_s list \<Rightarrow> bool" where
  "newest_first es \<longleftrightarrow> sorted_wrt (\<lambda>a b. hi_timestamp b \<le> hi_timestamp a) es"

lemma length_add_items: "alloc 40 \<Longrightarrow> length (add_items alloc n es) = length es + n"
  by (induction n arbitrary: es) (simp_all add: itemAlloc_def)

lemma hires_put:
  assumes "alloc 40"
  shows "\<exists>ctx'. throughput_hires_write_i64 alloc now ctx c v (Some t) = Some ctx' \<and> itemsBusy ctx' = item_of c v t # itemsBusy ctx"
proof -
  have "add_items alloc 64 [] \<noteq> []" using length_add_items [of alloc 64 "[]"] assms by auto
  then have "(if itemsFree ctx = [] then add_items alloc 64 [] else itemsFree ctx) \<noteq> []" by simp
  then obtain x xs where "(if itemsFree ctx = [] then add_items alloc 64 [] else itemsFree ctx) = x # xs" by (meson neq_Nil_conv)
  then show ?thesis by (simp add: throughput_hires_write_i64_def item_of_def Let_def)
qed

lemma hires_expire_busy:
  "itemsBusy (snd (throughput_hires_expire now ctx (Some t))) = filter (\<lambda>e. makeTimestampFromTimeval t \<le> hi_timestamp e) (itemsBusy ctx)"
  by (simp add: throughput_hires_expire_def Let_def not_less)

text \<open>Behind a bound that no expiry has passed, the busy items are the written ones, newest first.\<close>

lemma hires_run_busy:
  assumes "alloc 40" "newest_first (rev (put_items ops) @ itemsBusy ctx)" "\<forall>x \<in> set (expiries ops). x \<le> b"
  shows "\<exists>ctx'. hires_run alloc now ctx ops = Some ctx' \<and> newest_first (itemsBusy ctx')
    \<and> filter (\<lambda>e. b \<le> hi_timestamp e) (itemsBusy ctx') = filter (\<lambda>e. b \<le> hi_timestamp e) (rev (put_items ops) @ itemsBusy ctx)"
  using assms(2,3)
proof (induction ops arbitrary: ctx rule: put_items.induct)
  case (2 c v t ops)
  obtain d where d: "throughput_hires_write_i64 alloc now ctx c v (Some t) = Some d" "itemsBusy d = item_of c v t # itemsBusy ctx"
    using hires_put [of alloc] assms(1) by blast
  from "2.IH" [of d] "2.prems" show ?case by (simp add: d)
next
  case (3 t ops)
  let ?d = "snd (throughput_hires_expire now ctx (Some t))"
  let ?t = "makeTimestampFromTimeval t"
  have "filter (\<lambda>e. b \<le> hi_timestamp e) (filter (\<lambda>e. ?t \<le> hi_timestamp e) (itemsBusy ctx)) = filter (\<lambda>e. b \<le> hi_timestamp e) (itemsBusy ctx)"
    using "3.prems"(2) by (auto intro!: filter_cong)
  moreover have "newest_first (rev (put_items ops) @ itemsBusy ?d)"
    using "3.prems"(1) by (auto simp: newest_first_def hires_expire_busy sorted_wrt_append sorted_wrt_filter)
  ultimately show ?case using "3.IH" [of ?d] "3.prems"(2) by (simp add: hires_expire_busy)
qed (simp add: newest_first_def)

lemma sumtotal_loop_window:
  assumes "newest_first es" "\<bar>acc\<bar> + (\<Sum>e\<leftarrow>filter (\<lambda>e. b \<le> hi_timestamp e) es. \<bar>hi_value e\<bar>) < 2 ^ 63"
  shows "sumtotal_loop c b n es acc
    = Some (acc + (\<Sum>e\<leftarrow>filter (\<lambda>e. hi_channel e = c \<and> b \<le> hi_timestamp e \<and> hi_timestamp e \<le> n) es. hi_value e))"
  using assms
proof (induction es arbitrary: acc)
  case (Cons e es)
  let ?a = "if hi_channel e = c \<and> b \<le> hi_timestamp e \<and> hi_timestamp e \<le> n then acc + hi_value e else acc"
  let ?r = "\<Sum>e\<leftarrow>filter (\<lambda>e. b \<le> hi_timestamp e) es. \<bar>hi_value e\<bar>"
  have "0 \<le> ?r" by (rule sum_list_nonneg) auto
  then have i: "in_int64 ?a" "\<bar>?a\<bar> + ?r < 2 ^ 63"
    using Cons.prems(2) by (auto simp: in_int64_def split: if_splits)
  show ?case
  proof (cases "hi_timestamp e < b")
    case True
    then have "\<forall>x \<in> set es. \<not> b \<le> hi_timestamp x" using Cons.prems(1) by (auto simp: newest_first_def)
    then have "filter (\<lambda>e. hi_channel e = c \<and> b \<le> hi_timestamp e \<and> hi_timestamp e \<le> n) es = []" by (auto simp: filter_empty_conv)
    then show ?thesis using True i(1) by (simp add: Let_def)
  next
    case False
    have "newest_first es" using Cons.prems(1) by (simp add: newest_first_def)
    from Cons.IH [OF this i(2)] show ?thesis using False i(1) by (simp add: Let_def)
  qed
qed simp

lemma sum_filter_abs: "(\<Sum>e\<leftarrow>filter P es. \<bar>f e :: int\<bar>) \<le> (\<Sum>e\<leftarrow>es. \<bar>f e\<bar>)"
  by (induction es) auto

text \<open>
  C39: The high resolution meter sums its window exactly. In a session of values written in the order
  of their times, with expirations in between that reach no further than the start of the window,
  however many items were allocated first, \<open>throughput_hires_sumtotal_i64\<close> returns the sum of exactly the values of
  the channel whose times lie in the window, both ends included.
\<close>

theorem hires_window_sum:
  assumes "throughput_hires_alloc alloc k = Some ctx0" "alloc 40" "newest_first (rev (put_items ops))"
    "\<forall>x \<in> set (expiries ops). x \<le> window_begin now1 frm" "(\<Sum>e\<leftarrow>put_items ops. \<bar>hi_value e\<bar>) < 2 ^ 63"
  shows "\<exists>ctx. hires_run alloc now ctx0 ops = Some ctx
    \<and> throughput_hires_sumtotal_i64 now1 now2 ctx c frm to = Some (\<Sum>e\<leftarrow>filter (\<lambda>e. hi_channel e = c
        \<and> window_begin now1 frm \<le> hi_timestamp e \<and> hi_timestamp e \<le> window_end now2 to) (put_items ops). hi_value e)"
proof -
  let ?b = "window_begin now1 frm" and ?n = "window_end now2 to"
  have "itemsBusy ctx0 = []" using assms(1) by (auto simp: throughput_hires_alloc_def split: if_splits)
  then obtain ctx where r: "hires_run alloc now ctx0 ops = Some ctx" "newest_first (itemsBusy ctx)"
      "filter (\<lambda>e. ?b \<le> hi_timestamp e) (itemsBusy ctx) = rev (filter (\<lambda>e. ?b \<le> hi_timestamp e) (put_items ops))"
    using hires_run_busy [of alloc ops ctx0 ?b now] assms(2-4) by (auto simp: rev_filter)
  have "(\<Sum>e\<leftarrow>filter (\<lambda>e. ?b \<le> hi_timestamp e) (itemsBusy ctx). \<bar>hi_value e\<bar>)
      = (\<Sum>e\<leftarrow>filter (\<lambda>e. ?b \<le> hi_timestamp e) (put_items ops). \<bar>hi_value e\<bar>)"
    unfolding r(3) by (simp add: rev_map [symmetric])
  also have "\<dots> \<le> (\<Sum>e\<leftarrow>put_items ops. \<bar>hi_value e\<bar>)" by (rule sum_filter_abs)
  finally have "sumtotal_loop c ?b ?n (itemsBusy ctx) 0 = Some (0 + (\<Sum>e\<leftarrow>filter (\<lambda>e. hi_channel e = c
      \<and> ?b \<le> hi_timestamp e \<and> hi_timestamp e \<le> ?n) (itemsBusy ctx). hi_value e))"
    using assms(5) by (intro sumtotal_loop_window [OF r(2)]) simp
  moreover have "filter (\<lambda>e. hi_channel e = c \<and> ?b \<le> hi_timestamp e \<and> hi_timestamp e \<le> ?n) (itemsBusy ctx)
      = rev (filter (\<lambda>e. hi_channel e = c \<and> ?b \<le> hi_timestamp e \<and> hi_timestamp e \<le> ?n) (put_items ops))"
    using arg_cong [OF r(3), of "filter (\<lambda>e. hi_channel e = c \<and> hi_timestamp e \<le> ?n)"]
    by (simp add: rev_filter [symmetric] conj_ac)
  ultimately show ?thesis using r(1) by (simp add: throughput_hires_sumtotal_i64_def rev_map [symmetric])
qed

theorem hires_window_sum_witness:
  "\<exists>ctx. hires_run (\<lambda>_. True) \<lparr>tv_sec = 0, tv_usec = 0\<rparr> \<lparr>itemsFree = [], itemsBusy = []\<rparr>
       [Put 1 100 \<lparr>tv_sec = 5, tv_usec = 0\<rparr>, Put 2 7 \<lparr>tv_sec = 6, tv_usec = 0\<rparr>, Expire \<lparr>tv_sec = 6, tv_usec = 0\<rparr>,
        Put 1 30 \<lparr>tv_sec = 6, tv_usec = 1\<rparr>, Put 1 12 \<lparr>tv_sec = 7, tv_usec = 0\<rparr>] = Some ctx
    \<and> throughput_hires_sumtotal_i64 \<lparr>tv_sec = 7, tv_usec = 0\<rparr> \<lparr>tv_sec = 7, tv_usec = 0\<rparr> ctx 1 None None = Some 42"
  using hires_window_sum [of "\<lambda>_. True" 0 "\<lparr>itemsFree = [], itemsBusy = []\<rparr>"
      "[Put 1 100 \<lparr>tv_sec = 5, tv_usec = 0\<rparr>, Put 2 7 \<lparr>tv_sec = 6, tv_usec = 0\<rparr>, Expire \<lparr>tv_sec = 6, tv_usec = 0\<rparr>,
        Put 1 30 \<lparr>tv_sec = 6, tv_usec = 1\<rparr>, Put 1 12 \<lparr>tv_sec = 7, tv_usec = 0\<rparr>]" "\<lparr>tv_sec = 7, tv_usec = 0\<rparr>" None
      "\<lparr>tv_sec = 0, tv_usec = 0\<rparr>" "\<lparr>tv_sec = 7, tv_usec = 0\<rparr>" 1 None]
  by (simp add: throughput_hires_alloc_def newest_first_def item_of_def window_begin_def window_end_def
      makeTimestampFrom1SecondAgo_def makeTimestampFromTimeval_def)

text \<open>
  The statistics of a window look at the newest item only when it is older than the end of the
  window, and their mean starts from -1: the sum is one too small.
\<close>

lemma minmaxavg_newest_only:
  assumes "itemsBusy ctx = e # es" "hi_channel e = c" "window_begin now1 frm \<le> hi_timestamp e" "hi_timestamp e < window_end now2 to"
    "0 \<le> hi_value e" "hi_value e \<le> 2 ^ 62"
  shows "throughput_hires_minmaxavg_i64 now1 now2 ctx c frm to = Some (hi_value e, hi_value e, hi_value e - 1)"
proof -
  have "in_int64 (hi_value e - 1)" using assms(5,6) by (simp add: in_int64_def)
  moreover have "c_div x 1 = x" for x by (cases "x = 0") (simp_all add: c_div_def sgn_mult_abs)
  moreover have "hi_timestamp e \<le> window_end now2 to" using assms(4) by simp
  ultimately show ?thesis using assms by (simp add: throughput_hires_minmaxavg_i64_def Let_def)
qed

lemma hires_write_no_memory:
  "\<not> alloc 40 \<Longrightarrow> itemsFree ctx = [] \<Longrightarrow> throughput_hires_write_i64 alloc now ctx c v ts = None"
proof -
  assume "\<not> alloc 40" "itemsFree ctx = []"
  moreover from this have "add_items alloc n [] = []" for n by (induction n) (simp_all add: itemAlloc_def)
  ultimately show ?thesis by (simp add: throughput_hires_write_i64_def)
qed

end
