(* ===== verification/Spec2Isabelle.thy ===== *)
theory Spec2Isabelle
  imports Packetizer RingBuffer Reframer Pes NalBitReader SectionExtractor Rtp Tr101290 StatsInvariant PesExtraction PatPackets NalUnits265
    SeiTimestamp Throughput
begin

unbundle bit_operations_syntax

text \<open>
  libltntstools in Isabelle/HOL.

  \<^bold>\<open>The program.\<close> libltntstools is a C library for MPEG transport streams. Applications hand it
  buffers of 188-byte packets, possibly behind RTP headers, and it analyses, measures, splits
  and rebuilds them. Its parts, and the theories that model them:

  \<^item> \<open>TsPrelude\<close>: the C integer types, checked memory access, signed division, the generic lemmas
    and the locale \<open>field_codec\<close> for byte fields that are stored and read back.
  \<^item> \<open>Ts\<close> (\<open>ts.h\<close>, \<open>ts.c\<close>): the packet header, the PCR, packet generators and their verifier,
    searches over buffers, and the text form of timestamps. Every other part reads packets
    through these accessors.
  \<^item> \<open>Crc32\<close> (\<open>crc32.c\<close>): the section checksum. The section extractor and the PES packer use it.
  \<^item> \<open>Packetizer\<close> (\<open>ts_packetizer.c\<close>): bytes to packets, with and without a PCR.
  \<^item> \<open>RingBuffer\<close> (\<open>klringbuffer.c\<close>): the growable byte ring behind the PES extractor.
  \<^item> \<open>Reframer\<close> (\<open>reframer.c\<close>): writes of any size to frames of one size.
  \<^item> \<open>Bits\<close>, \<open>Bitstream\<close> (\<open>klbitstream_readwriter.h\<close>), \<open>NalBitReader\<close> (\<open>nal_bitreader.c\<close>): bit
    strings and the two bit readers. \<open>Bits\<close> holds the interface both provide, as a locale.
  \<^item> \<open>Pes\<close> (\<open>pes.c\<close>, \<open>pes.h\<close>): PES packets, packed and parsed over the bit stream.
  \<^item> \<open>SectionExtractor\<close> (\<open>sectionextractor.c\<close>): table sections out of the packets of one PID.
  \<^item> \<open>Clocks\<close> (\<open>clocks.c\<close>, \<open>time.c\<close>, \<open>timeval.h\<close>): wrapping stream clocks against the walltime.
  \<^item> \<open>Histogram\<close> (\<open>histogram.h\<close>) and \<open>Rtp\<close> (\<open>rtp-analyzer.c\<close>): interval histograms and the RTP
    analyzer that feeds them.
  \<^item> \<open>Tr101290\<close> (\<open>tr101290*.c\<close>): the alarm state machine of the stream monitor. The locale
    \<open>entry_changes\<close> says what its operations may do to an event; the properties interpret it.
  \<^item> \<open>HistoryMetric\<close> (\<open>history-metric.c\<close>): the history of error events, kept by the statistics.
  \<^item> \<open>Stats\<close>, \<open>StatsCounting\<close>, \<open>StatsInvariant\<close> (\<open>stats.c\<close>, \<open>stats.h\<close>): the statistics of a stream and
    of each of its PIDs, the bitrate calculator and the notifications. The first theory is the
    model, the others show what is counted and what every operation keeps.
  \<^item> \<open>PesExtractor\<close>, \<open>PesExtraction\<close> (\<open>pes-extractor.c\<close>): PES packets out of the packets of one PID. It
    runs the statistics to see errors, the ring to gather bytes, the PES parser and the corrected
    clock; the second theory holds its specification and the refinement.
  \<^item> \<open>Descriptor\<close> (\<open>descriptor.c\<close>): descriptor lists, their queries, and the locale \<open>bounded_table\<close> for
    arrays that are filled up to their size.
  \<^item> \<open>Pat\<close>, \<open>PatServices\<close>, \<open>PatPackets\<close> (\<open>pat.c\<close>): the program tables, built from what libdvbpsi parsed;
    their enumerations, with the contract of an enumeration as a locale; and the packets they
    are written as, read back through the section extractor.
  \<^item> \<open>NalUnits\<close> (\<open>memmem.h\<close>, \<open>nal_h264.c\<close>) and \<open>NalUnits265\<close> (\<open>nal_h265.c\<close>): start code searches, the
    headers of NAL units and SEI messages, and the slice counters over the NAL bit reader. The locale
    \<open>slice_history\<close> is the contract of both counters.
  \<^item> \<open>SeiTimestamp\<close> (\<open>sei-timestamp.c\<close>): times carried through the codec in SEI messages.
  \<^item> \<open>Throughput\<close> (\<open>throughput.c\<close>, \<open>throughput_hires.c\<close>): counts per second and sums over a time window.

  \<^bold>\<open>How state and operations correspond.\<close> A C structure is a record with the structure's fields;
  an operation is a function with the C function's name from the arguments and the structure to
  the result and the updated structure. Loops are recursive functions with a termination proof.
  Fuel bounds the loop of the reframer, the loop that drains the ring and the two loops that stuff bits;
  the theorems about them show which fuel is enough, and running out is \<open>None\<close>. Flags that only hold 0 or 1 are \<open>bool\<close>, words keep their
  width where the code relies on it, and \<open>int\<close> and \<open>nat\<close> stand for C integers where the theory
  says why their range is not left. \<open>None\<close> in the type \<open>mem\<close> is undefined behaviour: an access outside
  an object, a failed assertion, a lock taken twice, a signed sum that overflows where the inputs can make it. So a theorem that a call returns \<open>Some\<close> is
  a memory-safety theorem. \<open>malloc\<close> and its relatives ask a parameter \<open>allocator\<close> whether the
  request is granted; \<open>gettimeofday\<close> is an argument holding the time it reports; a callback is
  the list of what it receives; a mutex is modelled in \<open>RingBuffer\<close> and makes operations atomic
  elsewhere, except in \<open>Tr101290\<close>, where the thread takes none and its calls interleave.

  \<^bold>\<open>What the lemmas show.\<close> Packets, sections, PES packets and bit fields are read back as they
  were written, through the code's own readers. The table-driven checksum is the polynomial
  division it stands for and detects every burst of four bytes. Packetizer, reframer and ring
  lose, repeat and reorder nothing, and the ring refines a bounded queue for every schedule of
  operations. The statistics count exactly the packets that were fed, and the list of discovered
  PIDs is complete in every reachable state. The PES extractor refines an abstract extractor that
  says which bytes form a unit and when a unit is dropped; its ordered output is sorted by true
  time. The program tables hold what was parsed, their enumerations report every service once, and
  their packets are read back by the section extractor. The NAL unit searches find every unit
  and the slice counters count every slice. Times put into SEI messages are read back, and the
  high resolution meter sums its windows exactly. The clocks refine an unbounded timeline,
  and their drift is exact as long as its product fits 64 bits. The section extractor keeps its
  buffer invariant in every reachable state. The alarm machine holds alarms for their period
  and lets them return. Where the code leaves an object or loses data, the exact condition is
  a theorem (\<open>event_table_overrun\<close>, \<open>clock_follows_timeline\<close>, \<open>clock_add_ticks_wraps\<close>, \<open>history_window\<close>, \<open>padding_pct_bound\<close>, \<open>table_packets_overrun\<close>, \<open>h265_units_found\<close>, \<open>queryPCR_pid_skips_packet_after_rtp\<close>,
  \<open>getTimestamp_bounds\<close>, \<open>processRing_short\<close>).

  \<^bold>\<open>This theory\<close> joins the parts: packet generator, PCR reader and clock; packetizer and
  statistics; and PES packer, packetizer with PCR, and PES extractor, from end to end.

  \<^bold>\<open>Not modelled.\<close> Sockets, files, threads and probes of the host (\<open>udp_receiver.c\<close>,
  \<open>segmentwriter.c\<close>, \<open>proc-net-udp.c\<close>, \<open>igmp.c\<close>, \<open>probes.c\<close>) are input and output; functions that
  print are output. \<open>streammodel.c\<close> drives the parsers of libdvbpsi through callbacks, and
  \<open>smoother-*.c\<close> and \<open>vbv.c\<close> run threads over the parts above. The parser \<open>ac3.c\<close>, the queue and the demultiplexer
  are the next parts to model, then the checks of the monitor that read the statistics.
\<close>

subsection \<open>A clock driven by PCR packets\<close>

text \<open>
  A stream clock monitor: PCR-only packets are generated from a running 27 MHz time, and a clock
  is set from the PCR that is read back from each packet.
\<close>

definition set_clock_from_packet :: "ltntstools_clock_s \<Rightarrow> timeval \<Rightarrow> bytes \<Rightarrow> ltntstools_clock_s mem" where
  "set_clock_from_packet clk now pkt =
     do { r \<leftarrow> ltntstools_scr pkt;
          Some (case r of None \<Rightarrow> clk | Some scr \<Rightarrow> ltntstools_clock_set_ticks now clk (uint scr)) }"

fun monitor :: "u16 \<Rightarrow> u8 \<Rightarrow> ltntstools_clock_s \<Rightarrow> (timeval \<times> int) list \<Rightarrow> ltntstools_clock_s mem" where
  "monitor pid c clk [] = Some clk"
| "monitor pid c clk ((now, t) # ps) =
     do { r \<leftarrow> ltntstools_generatePCROnlyPacket (Some (replicate 188 0)) 188 pid (Some c)
                 (word_of_int (t mod MAX_SCR_VALUE));
          case r of
            None \<Rightarrow> Some clk
          | Some (pkt, c) \<Rightarrow> do { clk \<leftarrow> set_clock_from_packet clk now pkt; monitor pid c clk ps } }"

lemma set_clock_from_generated:
  "ltntstools_generatePCROnlyPacket (Some (replicate 188 0)) 188 pid (Some c) (word_of_int (t mod MAX_SCR_VALUE))
     = Some (Some (pcr_only_packet pid c (word_of_int (t mod MAX_SCR_VALUE)), c + 1))"
  "set_clock_from_packet clk now (pcr_only_packet pid c (word_of_int (t mod MAX_SCR_VALUE)))
     = Some (ltntstools_clock_set_ticks now clk (t mod MAX_SCR_VALUE))"
proof -
  have r: "0 \<le> t mod MAX_SCR_VALUE" "t mod MAX_SCR_VALUE < 300 * 2 ^ 33" by (simp_all add: MAX_SCR_VALUE_def)
  then have u: "uint (word_of_int (t mod MAX_SCR_VALUE) :: u64) = t mod MAX_SCR_VALUE"
    by (simp add: unsigned_of_int take_bit_int_eq_self)
  have "unat (word_of_int (t mod MAX_SCR_VALUE) :: u64) < 300 * 2 ^ 33"
    using r(2) u by (simp add: unat_eq_nat_uint nat_less_iff)
  from pcr_only_packet_fields(1) [OF this, of pid c "[]"]
  show "set_clock_from_packet clk now (pcr_only_packet pid c (word_of_int (t mod MAX_SCR_VALUE)))
      = Some (ltntstools_clock_set_ticks now clk (t mod MAX_SCR_VALUE))"
    by (simp add: set_clock_from_packet_def u)
  show "ltntstools_generatePCROnlyPacket (Some (replicate 188 0)) 188 pid (Some c) (word_of_int (t mod MAX_SCR_VALUE))
      = Some (Some (pcr_only_packet pid c (word_of_int (t mod MAX_SCR_VALUE)), c + 1))"
    by (simp add: generatePCROnlyPacket_eq)
qed

lemma monitor_eq:
  "monitor pid c clk ps = Some (foldl (\<lambda>k (now, t). ltntstools_clock_set_ticks now k (t mod MAX_SCR_VALUE)) clk ps)"
proof (induction ps arbitrary: c clk)
  case (Cons p ps)
  then show ?case by (cases p) (simp add: set_clock_from_generated)
qed simp



subsection \<open>Packetizing for the statistics\<close>

text \<open>
  Buffers are packetized one after the other with a running continuity counter, and the packets
  are handed to the statistics.
\<close>

fun packetize_and_count ::
  "allocator \<Rightarrow> u16 \<Rightarrow> u8 \<Rightarrow> stream \<Rightarrow> (int \<times> timeval \<times> bytes) list \<Rightarrow> stream mem" where
  "packetize_and_count alloc pid c s [] = Some s"
| "packetize_and_count alloc pid c s ((now, ts, buf) # bufs) =
     do { r \<leftarrow> ltntstools_ts_packetizer alloc (Some buf) (length buf) True 188 (Some c) pid;
          case r of
            None \<Rightarrow> packetize_and_count alloc pid c s bufs
          | Some (pkts, n, c) \<Rightarrow>
              do { s \<leftarrow> ltntstools_pid_stats_update alloc now ts s (Some pkts) n;
                   packetize_and_count alloc pid c s bufs } }"

lemma counter_succ: "unat ((x + 1) AND 0x0f :: u8) = (unat (x AND 0x0f) + 1) mod 16"
proof -
  have m: "(0x0f :: u8) = mask 4" by (simp add: mask_eq_exp_minus_1)
  have u: "unat (y AND 0x0f :: u8) = unat y mod 16" for y
    unfolding m by (simp add: take_bit_eq_mask [symmetric] unsigned_take_bit_eq take_bit_nat_def)
  have "unat (x + 1) mod 16 = (unat x + 1) mod 256 mod 16" by (simp only: unat_word_ariths) simp
  also have "\<dots> = (unat x mod 16 + 1) mod 16" by (simp add: mod_mod_cancel mod_simps)
  finally show ?thesis by (simp only: u)
qed

text \<open>Packets with consecutive counters have no break.\<close>

fun numbered :: "u8 \<Rightarrow> bytes list \<Rightarrow> bool" where
  "numbered c [] \<longleftrightarrow> True"
| "numbered c (p # ps) \<longleftrightarrow> ltntstools_continuity_counter p = c AND 0x0f \<and> numbered (c + 1) ps"

lemma numbered_no_breaks: "numbered c pkts \<Longrightarrow> cc_breaks pkts = 0"
proof (induction pkts arbitrary: c rule: cc_breaks.induct)
  case (1 a b pkts)
  then have n: "numbered (c + 1) (b # pkts)" and "cc_follows a b" by (auto simp: cc_follows_def counter_succ)
  then show ?case using 1(1) [OF n] by simp
qed simp_all

lemma numbered_append:
  "numbered c (ps @ qs) \<longleftrightarrow> numbered c ps \<and> numbered (c + of_nat (length ps)) qs"
  by (induction ps arbitrary: c) (auto simp: add.assoc)

lemma numberedI:
  "(\<And>k. k < length ps \<Longrightarrow> ltntstools_continuity_counter (ps ! k) = (c + of_nat k) AND 0x0f) \<Longrightarrow> numbered c ps"
proof (induction ps arbitrary: c)
  case (Cons p ps)
  have "numbered (c + 1) ps"
    using Cons.prems [of "Suc k" for k] by (intro Cons.IH) (auto simp: add.assoc)
  then show ?case using Cons.prems [of 0] by simp
qed simp

lemma packets_in_take: "packets_in (take (188 * n) buf) n = packets_in buf n"
proof (rule nth_equalityI)
  fix i assume "i < length (packets_in (take (188 * n) buf) n)"
  then have "188 + i * 188 \<le> 188 * n" by (simp add: packets_in_def packets_at_def)
  then show "packets_in (take (188 * n) buf) n ! i = packets_in buf n ! i"
    by (simp add: packets_in_def packets_at_def drop_take take_take min_def)
qed (simp add: packets_in_def packets_at_def)

text \<open>What holds between two buffers: the packets so far are whole, of one PID and numbered.\<close>

definition feeding :: "int \<Rightarrow> u16 \<Rightarrow> u8 \<Rightarrow> bytes list \<Rightarrow> stream \<Rightarrow> bool" where
  "feeding t0 pid c hs s \<longleftrightarrow> calm t0 s \<and> tally hs (length hs) 0 s
     \<and> (\<forall>p \<in> set hs. ltntstools_pid p = pid \<and> ltntstools_sync_present p) \<and> numbered c hs"

lemma feeding_step:
  assumes "feeding t0 pid c hs s" "granted alloc" "in_window t0 now ts" "pid \<le> 0x1fff"
    and "0 < length buf" "length buf \<le> 2000000000"
  obtains pkts ps s' where "ltntstools_ts_packetizer alloc (Some buf) (length buf) True 188 (Some (c + of_nat (length hs))) pid
      = Some (Some (pkts, length ps, c + of_nat (length (hs @ ps))))"
    and "ltntstools_pid_stats_update alloc now ts s (Some pkts) (length ps) = Some s'"
    and "feeding t0 pid c (hs @ ps) s'" and "length ps = (length buf + 183) div 184"
proof -
  have g: "\<And>n. alloc n" using assms(2) by (simp add: granted_def)
  let ?c = "c + of_nat (length hs)"
  obtain pkts ps where r: "ltntstools_ts_packetizer alloc (Some buf) (length buf) True 188 (Some ?c) pid
        = Some (Some (pkts, length ps, ?c + of_nat (length ps)))"
    and n: "length ps = (length buf + 183) div 184" and p: "take (188 * length ps) pkts = concat ps"
    and f: "\<forall>k<length ps. length (ps ! k) = 188 \<and> ltntstools_sync_present (ps ! k) \<and> ltntstools_pid (ps ! k) = pid
            \<and> ltntstools_continuity_counter (ps ! k) = (?c + of_nat k) AND 0x0f"
    using ts_packetizer_result [where alloc = alloc, OF assms(5) order_refl assms(6) assms(4) g, of ?c] by auto
  have l: "\<forall>p \<in> set ps. length p = 188" using f by (auto simp: in_set_conv_nth)
  have k: "packets_in pkts (length ps) = ps"
    using packets_in_concat [OF l refl] packets_in_take [of "length ps" pkts] by (simp add: p)
  have "length (concat ps) = 188 * length ps" using l by (induction ps) auto
  then have "188 * length ps \<le> length pkts" using arg_cong [OF p, of length] by simp
  moreover have "calm t0 s" using assms(1) by (simp add: feeding_def)
  ultimately obtain s' where u: "ltntstools_pid_stats_update alloc now ts s (Some pkts) (length ps) = Some s'"
    and c': "calm t0 s'" using update_ok [OF assms(2,3)] by (meson mem_okE)
  have sy: "filter ltntstools_sync_present ps = ps" "filter (\<lambda>k. \<not> ltntstools_sync_present k) ps = []"
    using f by (auto simp: in_set_conv_nth filter_id_conv filter_empty_conv)
  have "tally (hs @ ps) (length (hs @ ps)) 0 s'"
    using tally_update [OF _ u g, of hs "length hs" 0] assms(1) by (simp add: feeding_def k sy)
  moreover have "numbered c (hs @ ps)" using assms(1) f by (auto simp: feeding_def numbered_append intro: numberedI)
  ultimately have "feeding t0 pid c (hs @ ps) s'"
    using assms(1) c' f by (auto simp: feeding_def in_set_conv_nth)
  with r u n show thesis by (intro that) (simp_all add: add.assoc)
qed

lemma feeding_all:
  assumes "granted alloc" "pid \<le> 0x1fff"
    and "\<forall>(now, ts, buf) \<in> set bufs. in_window t0 now ts \<and> 0 < length buf \<and> length buf \<le> 2000000000"
  shows "feeding t0 pid c hs s \<Longrightarrow> \<exists>s' ps. packetize_and_count alloc pid (c + of_nat (length hs)) s bufs = Some s'
    \<and> feeding t0 pid c (hs @ ps) s' \<and> length ps = (\<Sum>(now, ts, buf) \<leftarrow> bufs. (length buf + 183) div 184)"
  using assms(3)
proof (induction bufs arbitrary: hs s)
  case Nil
  then show ?case by (intro exI [of _ s] exI [of _ "[]"]) simp
next
  case (Cons b bufs)
  obtain now ts buf where b: "b = (now, ts, buf)" by (metis prod_cases3)
  have w: "in_window t0 now ts" "0 < length buf" "length buf \<le> 2000000000" using Cons.prems(2) b by auto
  obtain pkts ps s' where 1: "ltntstools_ts_packetizer alloc (Some buf) (length buf) True 188 (Some (c + of_nat (length hs))) pid
      = Some (Some (pkts, length ps, c + of_nat (length (hs @ ps))))"
    and 2: "ltntstools_pid_stats_update alloc now ts s (Some pkts) (length ps) = Some s'"
    and 3: "feeding t0 pid c (hs @ ps) s'" and 4: "length ps = (length buf + 183) div 184"
    by (rule feeding_step [OF Cons.prems(1) assms(1) w(1) assms(2) w(2,3)])
  from Cons.IH [OF 3] Cons.prems(2) obtain t qs where
    "packetize_and_count alloc pid (c + of_nat (length (hs @ ps))) s' bufs = Some t"
    "feeding t0 pid c ((hs @ ps) @ qs) t" "length qs = (\<Sum>(now, ts, buf) \<leftarrow> bufs. (length buf + 183) div 184)"
    by auto
  with 1 2 4 show ?case by (intro exI [of _ t] exI [of _ "ps @ qs"]) (simp add: b)
qed

text \<open>
  C11: The packetizer's output is clean for the statistics. Any sequence of buffers, packetized on
  one PID with the running continuity counter and fed to a new stream within 25 hours, is counted
  packet by packet, without a single continuity error on the PID or on the stream.
\<close>

theorem packetized_stream_is_continuous:
  assumes "granted alloc" and "ltntstools_pid_stats_alloc alloc ts0 = Some s0" and "pid \<le> 0x1fff"
    and "\<forall>(now, ts, buf) \<in> set bufs. in_window t0 now ts \<and> 0 < length buf \<and> length buf \<le> 2000000000"
  shows "\<exists>s. packetize_and_count alloc pid c s0 bufs = Some s
    \<and> ltntstools_pid_stats_pid_get_packet_count (Some s) pid = (\<Sum>(now, ts, buf) \<leftarrow> bufs. (length buf + 183) div 184)
    \<and> ltntstools_pid_stats_stream_get_packet_count (Some s) = (\<Sum>(now, ts, buf) \<leftarrow> bufs. (length buf + 183) div 184)
    \<and> ltntstools_pid_stats_pid_get_cc_errors (Some s) pid = 0
    \<and> ltntstools_pid_stats_stream_get_cc_errors (Some s) = 0"
proof -
  have "feeding t0 pid c [] s0" using alloc_calm [OF assms(2)] by (simp add: feeding_def)
  from feeding_all [where bufs = bufs, OF assms(1,3,4) this] obtain s ps where
    r: "packetize_and_count alloc pid c s0 bufs = Some s" and f: "feeding t0 pid c ps s"
    and n: "length ps = (\<Sum>(now, ts, buf) \<leftarrow> bufs. (length buf + 183) div 184)" by auto
  have t: "tally ps (length ps) 0 s" using f by (simp add: feeding_def)
  have m: "pid AND 0x1fff = pid" by (rule pid_and_mask [OF assms(3)])
  have o: "of_pid nr ps = (if nr = pid then ps else [])" for nr
    using f by (auto simp: feeding_def of_pid_def filter_id_conv filter_empty_conv)
  have z: "ltntstools_pid_stats_pid_get_cc_errors (Some s) nr = 0" for nr
    using f numbered_no_breaks by (auto simp: tally_pid_query(2) [OF t] o feeding_def)
  show ?thesis
    using r n m z by (simp add: tally_pid_query(1) [OF t] tally_stream_query(1,4) [OF t] o)
qed

theorem packetized_stream_is_continuous_witness:
  "\<exists>s. packetize_and_count (\<lambda>_. True) 0x31 14 (the (ltntstools_pid_stats_alloc (\<lambda>_. True) timeval_zero))
        [(7, \<lparr>tv_sec = 7, tv_usec = 0\<rparr>, replicate 500 9), (8, \<lparr>tv_sec = 8, tv_usec = 0\<rparr>, [1])] = Some s
    \<and> ltntstools_pid_stats_pid_get_packet_count (Some s) 0x31 = 4
    \<and> ltntstools_pid_stats_stream_get_cc_errors (Some s) = 0"
proof -
  have g: "granted (\<lambda>_. True)" by (simp add: granted_def)
  show ?thesis
    using packetized_stream_is_continuous [OF g alloc_granted [OF g], of "0x31"
        "[(7, \<lparr>tv_sec = 7, tv_usec = 0\<rparr>, replicate 500 9), (8, \<lparr>tv_sec = 8, tv_usec = 0\<rparr>, [1])]" 0 14 timeval_zero]
    by (auto simp: in_window_def)
qed

subsection \<open>PES packets through the transport stream\<close>

text \<open>
  A PES packet is packed into a buffer of \<open>N\<close> bytes and packetized with a PCR; the packets are
  written to an extractor. The continuity counter runs on from one PES packet to the next.
\<close>

definition pes_to_packets :: "allocator \<Rightarrow> nat \<Rightarrow> u16 \<Rightarrow> int \<Rightarrow> u8 \<Rightarrow> ltn_pes_packet \<Rightarrow> (bytes \<times> nat \<times> u8) mem" where
  "pes_to_packets alloc N pid pcr ctr p =
     do { (bits, w) \<leftarrow> ltn_pes_packet_pack p (klbs_write_set_buffer (replicate N 0) N);
          let u = take (kb_buflen_used w) (kb_buf w);
          r \<leftarrow> ltntstools_ts_packetizer_with_pcr alloc (Some u) (length u) True 188 (Some ctr) pid pcr False False;
          r }"

fun transmit ::
  "allocator \<Rightarrow> nat \<Rightarrow> u16 \<Rightarrow> u8 \<Rightarrow> pes_extractor_s \<Rightarrow> (int \<times> timeval \<times> int \<times> ltn_pes_packet) list \<Rightarrow> pes_extractor_s mem" where
  "transmit alloc N pid ctr ctx [] = Some ctx"
| "transmit alloc N pid ctr ctx ((now, ts, pcr, p) # ps) =
     do { (pkts, n, ctr) \<leftarrow> pes_to_packets alloc N pid pcr ctr p;
          (_, ctx) \<leftarrow> ltntstools_pes_extractor_write alloc now ts ctx pkts n;
          transmit alloc N pid ctr ctx ps }"

text \<open>The packets that fit the buffer and the ring, with some data; the parser needs it to see the end.\<close>

definition sendable :: "nat \<Rightarrow> nat \<Rightarrow> ltn_pes_packet \<Rightarrow> bool" where
  "sendable N M p \<longleftrightarrow> (\<exists>d. pes_packable p d \<and> d \<noteq> [] \<and> 8 * 16 \<le> length (field_bits (pes_fields p d))
     \<and> length (field_bits (pes_fields p d)) \<le> 8 * N \<and> length (field_bits (pes_fields p d)) + 8 * RING_STEP \<le> 8 * M)"

lemma pes_to_packets_ok:
  assumes "granted alloc" "sendable N M p" "N < 2 ^ 28" "pid \<le> 0x1fff"
  obtains pkts ps ctr' u where "pes_to_packets alloc N pid pcr ctr p = Some (pkts, length ps, ctr')"
    "ctr' AND 0x0f = (ctr + of_nat (length ps)) AND 0x0f" "take (188 * length ps) pkts = concat ps"
    "pcr_run u pid pcr 0 ctr ps" "pes_parsed alloc False u = Some (Some p)" "16 \<le> length u" "length u + RING_STEP \<le> M"
proof -
  have g: "\<And>n. alloc n" using assms(1) by (simp add: granted_def)
  obtain d where d: "pes_packable p d" "d \<noteq> []" "8 * 16 \<le> length (field_bits (pes_fields p d))"
      "length (field_bits (pes_fields p d)) \<le> 8 * N" "length (field_bits (pes_fields p d)) + 8 * RING_STEP \<le> 8 * M"
    using assms(2) by (auto simp: sendable_def)
  obtain bits w r where w: "ltn_pes_packet_pack p (klbs_write_set_buffer (replicate N 0) N) = Some (bits, w)"
      "bits = 8 * int (kb_buflen_used w)" "kb_buflen_used w \<le> length (kb_buf w)"
      "8 * kb_buflen_used w = length (field_bits (pes_fields p d))"
      "ltn_pes_packet_parse alloc ltn_pes_packet_init
        (klbs_read_set_buffer (take (kb_buflen_used w) (kb_buf w)) (kb_buflen_used w)) False = Some (bits, p, r)"
      "\<not> kb_overrun r"
    using pes_pack_parse [where alloc = alloc, OF d(1), of "replicate N 0"] d assms(3) g by auto
  define u where "u = take (kb_buflen_used w) (kb_buf w)"
  have u: "length u = kb_buflen_used w" "16 \<le> length u" "length u + RING_STEP \<le> M" "length u \<le> N"
    using w(3,4) d(3-5) by (simp_all add: u_def)
  have "to_int32 bits = bits" using w(2) u(1,4) assms(3) by (intro to_int32_id) auto
  then have p: "pes_parsed alloc False u = Some (Some p)"
    using w(2,5,6) u(1,2) by (simp add: pes_parsed_def flip: u_def)
  obtain pkts ps ctr' where r: "ltntstools_ts_packetizer_with_pcr alloc (Some u) (length u) True 188 (Some ctr) pid pcr False False
        = Some (Some (pkts, length ps, ctr'))" "ctr' AND 0x0f = (ctr + of_nat (length ps)) AND 0x0f"
      "take (188 * length ps) pkts = concat ps" "pcr_run u pid pcr 0 ctr ps"
  proof -
    have "0 < length u" "length u \<le> 4020000000" using u(2,4) assms(3) by (linarith, simp)
    from ts_packetizer_with_pcr_run [where alloc = alloc, OF this(1) order_refl this(2) assms(4) g, of ctr pcr False False]
    show thesis using that by auto
  qed
  show thesis by (rule that [OF _ r(2,3) _ p u(2,3)]) (use w(1) r(1,4) in \<open>simp_all add: pes_to_packets_def Let_def del: length_take flip: u_def\<close>)
qed

text \<open>Packets without an error: all of one PID, with sync byte and consecutive counters.\<close>

definition clean :: "u16 \<Rightarrow> u8 \<Rightarrow> bytes list \<Rightarrow> bool" where
  "clean pid c hs \<longleftrightarrow> (\<forall>p \<in> set hs. ltntstools_pid p = pid \<and> ltntstools_sync_present p) \<and> numbered c hs"

lemma clean_append: "clean pid c (hs @ ps) \<Longrightarrow> clean pid c hs"
  by (simp add: clean_def numbered_append)

lemma clean_errors: "clean pid c hs \<Longrightarrow> stream_errors hs = 0"
proof -
  assume c: "clean pid c hs"
  have "of_pid nr hs = (if nr = pid then hs else [])" for nr
    using c by (auto simp: clean_def of_pid_def filter_id_conv filter_empty_conv)
  then show ?thesis
    using c numbered_no_breaks by (auto simp: clean_def stream_errors_def filter_empty_conv intro!: sum.neutral)
qed

lemma px_payload_eq: "length p = 188 \<Longrightarrow> px_payload p = ts_payload p"
  by (simp add: px_payload_def ts_payload_def payload_offset_def)

lemma payload_inside: "length p = 188 \<Longrightarrow> ts_payload p \<noteq> [] \<Longrightarrow> payload_offset p \<le> 188"
  by (auto simp: ts_payload_def payload_offset_def split: if_splits)

lemma spec_run_continues:
  assumes "clean pid c (hs @ qs)" "length (v @ concat (map ts_payload qs)) + RING_STEP \<le> M"
    and "\<forall>q \<in> set qs. length q = 188 \<and> \<not> ltntstools_payload_unit_start_indicator q
         \<and> ltntstools_adaption_field_control q \<noteq> 2 \<and> ts_payload q \<noteq> []"
  shows "spec_run M pid hs qs (Some v, 0, out) = Some (Some (v @ concat (map ts_payload qs)), 0, out)"
  using assms
proof (induction qs arbitrary: hs v)
  case (Cons q qs)
  have "clean pid c (hs @ [q])" using clean_append [of pid c "hs @ [q]" qs] Cons.prems(1) by simp
  moreover from this have "ltntstools_pid q = pid" by (simp add: clean_def)
  ultimately have "spec_packet M pid (stream_errors (hs @ [q])) q (Some v, 0, out) = Some (Some (v @ ts_payload q), 0, out)"
    using Cons.prems(2,3) payload_inside [of q] by (simp add: clean_errors spec_packet_def spec_gather_def px_payload_eq)
  then show ?case using Cons.IH [of "hs @ [q]" "v @ ts_payload q"] Cons.prems by simp
qed simp

lemma and_0f_cong: "a AND 0x0f = b AND 0x0f \<Longrightarrow> (a + k) AND 0x0f = (b + k) AND (0x0f :: u8)"
proof -
  have m: "(0x0f :: u8) = mask 4" by (simp add: mask_eq_exp_minus_1)
  have u: "unat (x AND 0x0f :: u8) = unat x mod 16" for x
    unfolding m by (simp add: take_bit_eq_mask [symmetric] unsigned_take_bit_eq take_bit_nat_def)
  have s: "unat (x + k) mod 16 = (unat x mod 16 + unat k) mod 16" for x
    by (simp only: unat_word_ariths) (simp add: mod_mod_cancel mod_simps)
  assume "a AND 0x0f = b AND 0x0f"
  then have "unat a mod 16 = unat b mod 16" using u by metis
  then show ?thesis by (simp only: word_unat_eq_iff u s)
qed

lemma clean_extend:
  assumes "clean pid c hs" "ctr AND 0x0f = (c + of_nat (length hs)) AND 0x0f" "pcr_run u pid pcr 0 ctr ps"
  shows "clean pid c (hs @ ps)"
proof -
  have "numbered (c + of_nat (length hs)) ps"
    using assms(3) and_0f_cong [OF assms(2)] by (intro numberedI) (simp add: pcr_run_def)
  moreover have "\<forall>p \<in> set ps. ltntstools_pid p = pid \<and> ltntstools_sync_present p"
    using assms(3) by (auto simp: pcr_run_def in_set_conv_nth)
  ultimately show ?thesis using assms(1) by (auto simp: clean_def numbered_append)
qed

text \<open>The packets of one PES packet finish the unit before and leave its bytes gathered.\<close>

lemma spec_run_unit:
  assumes "clean pid c hs" "ctr AND 0x0f = (c + of_nat (length hs)) AND 0x0f" "pcr_run u pid pcr 0 ctr ps"
    and "0 < length u" "length u + RING_STEP \<le> M" "acc = None \<or> (\<exists>v. acc = Some v \<and> 16 \<le> length v)"
  shows "spec_run M pid hs ps (acc, 0, out) = Some (Some u, 0, out @ (case acc of None \<Rightarrow> [] | Some v \<Rightarrow> [v]))"
proof -
  have cl: "clean pid c (hs @ ps)" by (rule clean_extend [OF assms(1-3)])
  have u: "concat (map ts_payload ps) = u" using assms(3) by (simp add: pcr_run_def)
  obtain q qs where ps: "ps = q # qs" using u assms(4) by (cases ps) auto
  have f: "length (ps ! k) = 188 \<and> (ltntstools_payload_unit_start_indicator (ps ! k) \<longleftrightarrow> k = 0)
      \<and> ltntstools_adaption_field_control (ps ! k) \<noteq> 2 \<and> ts_payload (ps ! k) \<noteq> []" if "k < length ps" for k
    using assms(3) that by (auto simp: pcr_run_def)
  have q: "length q = 188" "ltntstools_payload_unit_start_indicator q" "ltntstools_adaption_field_control q \<noteq> 2" "ts_payload q \<noteq> []"
    using f [of 0] ps by simp_all
  have qs: "\<forall>q \<in> set qs. length q = 188 \<and> \<not> ltntstools_payload_unit_start_indicator q
         \<and> ltntstools_adaption_field_control q \<noteq> 2 \<and> ts_payload q \<noteq> []"
  proof
    fix x assume "x \<in> set qs"
    then obtain k where "k < length qs" "x = ps ! Suc k" by (auto simp: in_set_conv_nth ps)
    then show "length x = 188 \<and> \<not> ltntstools_payload_unit_start_indicator x
         \<and> ltntstools_adaption_field_control x \<noteq> 2 \<and> ts_payload x \<noteq> []" using f [of "Suc k"] by (simp add: ps)
  qed
  have c1: "clean pid c (hs @ [q])" using clean_append [of pid c "hs @ [q]" qs] cl ps by simp
  then have "spec_packet M pid (stream_errors (hs @ [q])) q (acc, 0, out)
      = Some (Some (ts_payload q), 0, out @ (case acc of None \<Rightarrow> [] | Some v \<Rightarrow> [v]))"
    using q payload_inside [of q] assms(6) clean_errors [OF c1]
    by (auto simp: spec_packet_def spec_gather_def px_payload_eq clean_def)
  moreover have "spec_run M pid (hs @ [q]) qs (Some (ts_payload q), 0, o')
      = Some (Some (ts_payload q @ concat (map ts_payload qs)), 0, o')" for o'
    by (rule spec_run_continues [OF _ _ qs, where c = c]) (use cl ps u assms(5) in auto)
  ultimately show ?thesis using u by (simp add: ps)
qed


definition units_of :: "bytes option \<Rightarrow> bytes list \<Rightarrow> bytes list" where
  "units_of acc vs = (case acc of None \<Rightarrow> vs | Some v \<Rightarrow> v # vs)"

lemma packets_of_call: "packets_in pkts (length ps) = ps" if "take (188 * length ps) pkts = concat ps" "\<forall>p \<in> set ps. length p = 188"
  using packets_in_concat [OF that(2) refl] packets_in_take [of "length ps" pkts] by (simp add: that(1))

lemma transmit_spec:
  assumes "granted alloc" "N < 2 ^ 28" "pid \<le> 0x1fff"
  shows "clean pid c hs \<Longrightarrow> ctr AND 0x0f = (c + of_nat (length hs)) AND 0x0f
    \<Longrightarrow> acc = None \<or> (\<exists>v. acc = Some v \<and> 16 \<le> length v)
    \<Longrightarrow> \<forall>(now, ts, pcr, p) \<in> set ps. in_window t0 now ts \<and> sendable N M p
    \<Longrightarrow> \<exists>calls vs. (\<forall>ctx. transmit alloc N pid ctr ctx ps = extractor_run alloc ctx calls) \<and> whole_calls t0 calls
      \<and> list_all2 (\<lambda>(now, ts, pcr, p) u. pes_parsed alloc False u = Some (Some p)) ps vs
      \<and> spec_run M pid hs (packets_of calls) (acc, 0, out)
          = Some (if units_of acc vs = [] then None else Some (last (units_of acc vs)), 0, out @ butlast (units_of acc vs))"
proof (induction ps arbitrary: hs ctr acc out)
  case Nil
  then show ?case
    by (intro exI [of _ "[]"]) (auto simp: whole_calls_def packets_of_def units_of_def split: option.splits)
next
  case (Cons q ps)
  obtain now ts pcr p where q: "q = (now, ts, pcr, p)" by (metis prod_cases4)
  have w: "in_window t0 now ts" "sendable N M p" using Cons.prems(4) q by auto
  obtain pkts ks ctr' u where k: "pes_to_packets alloc N pid pcr ctr p = Some (pkts, length ks, ctr')"
      "ctr' AND 0x0f = (ctr + of_nat (length ks)) AND 0x0f" "take (188 * length ks) pkts = concat ks"
      and run: "pcr_run u pid pcr 0 ctr ks" and u: "pes_parsed alloc False u = Some (Some p)" "16 \<le> length u" "length u + RING_STEP \<le> M"
    by (rule pes_to_packets_ok [OF assms(1) w(2) assms(2,3)])
  have l: "\<forall>k \<in> set ks. length k = 188" using run by (auto simp: pcr_run_def in_set_conv_nth)
  then have "length (concat ks) = 188 * length ks" by (induction ks) auto
  then have len: "188 * length ks \<le> length pkts" using arg_cong [OF k(3), of length] by simp
  have pk: "packets_in pkts (length ks) = ks" by (rule packets_of_call [OF k(3) l])
  have 1: "spec_run M pid hs ks (acc, 0, out) = Some (Some u, 0, out @ (case acc of None \<Rightarrow> [] | Some v \<Rightarrow> [v]))"
    by (rule spec_run_unit [OF Cons.prems(1,2) run _ u(3) Cons.prems(3)]) (use u(2) in linarith)
  have cl: "clean pid c (hs @ ks)" by (rule clean_extend [OF Cons.prems(1,2) run])
  have n: "ctr' AND 0x0f = (c + of_nat (length (hs @ ks))) AND 0x0f"
    using k(2) and_0f_cong [OF Cons.prems(2), of "of_nat (length ks)"] by (simp add: add.assoc)
  let ?out = "out @ (case acc of None \<Rightarrow> [] | Some v \<Rightarrow> [v])"
  obtain calls vs where i: "\<forall>ctx. transmit alloc N pid ctr' ctx ps = extractor_run alloc ctx calls" "whole_calls t0 calls"
      "list_all2 (\<lambda>(now, ts, pcr, p) u. pes_parsed alloc False u = Some (Some p)) ps vs"
      "spec_run M pid (hs @ ks) (packets_of calls) (Some u, 0, ?out)
          = Some (Some (last (u # vs)), 0, ?out @ butlast (u # vs))"
    using Cons.IH [OF cl n, of "Some u" ?out] u(2) Cons.prems(4) by (auto simp: units_of_def)
  let ?calls = "(now, ts, pkts, length ks) # calls"
  have "transmit alloc N pid ctr ctx (q # ps) = extractor_run alloc ctx ?calls" for ctx
    using i(1) by (simp add: q k(1))
  moreover have "whole_calls t0 ?calls" using i(2) w(1) len by (simp add: whole_calls_def)
  moreover have "spec_run M pid hs (packets_of ?calls) (acc, 0, out)
      = Some (Some (last (units_of acc (u # vs))), 0, out @ butlast (units_of acc (u # vs)))"
    using 1 i(4) by (simp add: packets_of_def pk spec_run_append units_of_def split: option.splits)
  ultimately show ?case
    using i(3) u(1) by (intro exI [of _ ?calls] exI [of _ "u # vs"]) (auto simp: q units_of_def split: option.splits)
qed

text \<open>
  C1: PES packets survive the transport stream. Any sequence of PES packets that the packer
  supports, packed, packetized on one PID with PCRs and a running continuity counter and
  written to a new extractor within 25 hours, comes out of the extractor's callback: all but
  the last, which the next start indicator would finish, in the same order, with every field and the
  data as they were. Only the times of arrival and the raw bytes are added.
\<close>

theorem pes_transport_roundtrip:
  assumes "granted alloc" and "ltntstools_pes_extractor_alloc alloc now0 ts0 pid sid True bmin bmax = Some ctx0"
    and "px_rb ctx0 = Some rb" and "RING_STEP \<le> rb_size_max rb" and "rb_size_max rb < 2 ^ 31"
    and "pid \<le> 0x1fff" and "N < 2 ^ 28"
    and "\<forall>(now, ts, pcr, p) \<in> set ps. in_window t0 now ts \<and> sendable N (rb_size_max rb) p"
  shows "\<exists>ctx. transmit alloc N pid ctr ctx0 ps = Some ctx
    \<and> list_all2 (\<lambda>(now, ts, pcr, p) d. \<exists>t ms raw. d = p\<lparr>pes_pcr := t, pes_arrivalMs := ms,
          pes_rawLength := of_nat (length raw), pes_raw := Some raw\<rparr>) (butlast ps) (px_delivered ctx)"
proof -
  have "clean pid ctr []" by (simp add: clean_def)
  moreover have "ctr AND 0x0f = (ctr + of_nat (length [])) AND 0x0f" by simp
  ultimately have "\<exists>calls vs. (\<forall>ctx. transmit alloc N pid ctr ctx ps = extractor_run alloc ctx calls) \<and> whole_calls t0 calls
      \<and> list_all2 (\<lambda>(now, ts, pcr, p) u. pes_parsed alloc False u = Some (Some p)) ps vs
      \<and> spec_run (rb_size_max rb) pid [] (packets_of calls) (None, 0, [])
          = Some (if vs = [] then None else Some (last vs), 0, butlast vs)"
    using transmit_spec [OF assms(1,7,6) _ _ disjI1 [OF refl] assms(8), of ctr "[]" ctr "[]"]
    unfolding units_of_def option.case append_Nil by blast
  then obtain calls vs where t: "\<forall>ctx. transmit alloc N pid ctr ctx ps = extractor_run alloc ctx calls" "whole_calls t0 calls"
      and p: "list_all2 (\<lambda>(now, ts, pcr, p) u. pes_parsed alloc False u = Some (Some p)) ps vs"
      and s: "spec_run (rb_size_max rb) pid [] (packets_of calls) (None, 0, [])
          = Some (if vs = [] then None else Some (last vs), 0, butlast vs)"
    by blast
  have pb: "list_all2 (\<lambda>(now, ts, pcr, p) u. pes_parsed alloc False u = Some (Some p)) (butlast ps) (butlast vs)"
    using p list_all2_lengthD [OF p] by (simp add: butlast_conv_take)
  then have pu: "parsed_units alloc False (butlast vs) = zip (butlast vs) (map (\<lambda>(now, ts, pcr, p). p) (butlast ps))"
    by (induction rule: list_all2_induct) (auto simp: parsed_units_def)
  have "fst (ltntstools_pes_extractor_set_skip_data ctx0 False) = ctx0"
    using assms(2) by (auto simp: ltntstools_pes_extractor_set_skip_data_def ltntstools_pes_extractor_alloc_def Let_def split: if_splits)
  moreover have "\<forall>u \<in> set (butlast vs). pes_parsed alloc False u \<noteq> None"
    using pb by (induction rule: list_all2_induct) auto
  ultimately obtain ctx where r: "extractor_run alloc ctx0 calls = Some ctx"
      and d: "list_all2 received (zip (butlast vs) (map (\<lambda>(now, ts, pcr, p). p) (butlast ps))) (px_delivered ctx)"
    using extractor_delivers [OF assms(1-5) t(2) s, of False] pu by auto
  have "list_all2 (\<lambda>(now, ts, pcr, p) d. \<exists>t ms raw. d = p\<lparr>pes_pcr := t, pes_arrivalMs := ms,
          pes_rawLength := of_nat (length raw), pes_raw := Some raw\<rparr>) (butlast ps) (px_delivered ctx)"
    using d list_all2_lengthD [OF pb] by (auto simp: list_all2_conv_all_nth received_def split: prod.splits) blast
  then show ?thesis using t(1) r by auto
qed


theorem pes_transport_roundtrip_witness:
  "\<exists>ctx d. transmit (\<lambda>_. True) 64 0x31 14 sample_extractor
        [(7, \<lparr>tv_sec = 7, tv_usec = 0\<rparr>, 900, example_pes), (8, \<lparr>tv_sec = 8, tv_usec = 0\<rparr>, -1, example_pes)] = Some ctx
    \<and> px_delivered ctx = [d] \<and> pes_PTS d = 0x1FFFFFFFF \<and> pes_data d = Some [1, 2, 3]"
proof -
  obtain rb where rb: "px_rb sample_extractor = Some rb" "rb_size_max rb = 33554432" using sample_extractor_ring(2) by blast
  have g: "granted (\<lambda>_. True)" by (simp add: granted_def)
  have "length (field_bits (pes_fields example_pes [1, 2, 3])) = 312"
    by (simp add: pes_fields_def pack_start_def pack_flags_def pack_timestamps_def ts_fields_def
        pack_optional_def pack_extension_def byte_fields_def example_pes_def ltn_pes_packet_init_def
        length_replicate_fields)
  then have "sendable 64 33554432 example_pes"
    using example_pes_packable unfolding sendable_def by (intro exI [of _ "[1, 2, 3]"]) (simp add: RING_STEP_def)
  then obtain ctx where "transmit (\<lambda>_. True) 64 0x31 14 sample_extractor
        [(7, \<lparr>tv_sec = 7, tv_usec = 0\<rparr>, 900, example_pes), (8, \<lparr>tv_sec = 8, tv_usec = 0\<rparr>, -1, example_pes)] = Some ctx"
      "list_all2 (\<lambda>(now, ts, pcr, p) d. \<exists>t ms raw. d = p\<lparr>pes_pcr := t, pes_arrivalMs := ms,
          pes_rawLength := of_nat (length raw), pes_raw := Some raw\<rparr>)
        [(7 :: int, \<lparr>tv_sec = 7, tv_usec = 0\<rparr>, 900 :: int, example_pes)] (px_delivered ctx)"
    using pes_transport_roundtrip [OF g sample_extractor_ring(1) rb(1), of 64
        "[(7, \<lparr>tv_sec = 7, tv_usec = 0\<rparr>, 900, example_pes), (8, \<lparr>tv_sec = 8, tv_usec = 0\<rparr>, -1, example_pes)]" 0 14]
    by (auto simp: rb(2) RING_STEP_def in_window_def)
  then show ?thesis
    by (intro exI [of _ ctx]) (auto simp: list_all2_Cons1 example_pes_def)
qed

end
